(* ===== verification/Prelude.thy ===== *)
theory Prelude
  imports Main "HOL-Library.Word"
begin

unbundle bit_operations_syntax

text \<open>
  The types the components share: the fixed width integers of
  \<^verbatim>\<open>libpar2internal.h\<close> (\<^verbatim>\<open>u8\<close>, \<^verbatim>\<open>u16\<close>, \<^verbatim>\<open>u32\<close>, \<^verbatim>\<open>u64\<close>) as words of that width, a buffer
  in memory or a file on disk as a list of bytes, and the generic facts about lists and
  words the component theories use. The collection \<open>buf_simps\<close> holds the equations
  about taking, dropping and padding byte lists; \<open>word_xor_simps\<close> holds the ones that
  normalise exclusive-or.
\<close>

named_theorems buf_simps
named_theorems word_xor_simps

type_synonym u8 = "8 word"
type_synonym u16 = "16 word"
type_synonym u32 = "32 word"
type_synonym u64 = "64 word"
type_synonym bytes = "8 word list"

section \<open>Words\<close>

lemma xor_self_left [simp]: "(a::'a::len word) XOR (a XOR b) = b"
  by (simp add: xor.assoc [symmetric])

lemma xor_cancel_left [simp]: "(a XOR b = a XOR c) = (b = c)" for a b c :: "'a::len word"
  by (metis xor_self_left)

lemma xor_eq_zero_iff [simp]: "(a XOR b = 0) = (a = b)" for a b :: "'a::len word"
  by (metis xor_self_left xor.right_neutral xor_self_eq)

lemmas word_xor_ac [word_xor_simps] = xor.assoc xor.commute xor.left_commute

text \<open>Every word is an exclusive-or of single bits: the induction rule for linear maps.\<close>

lemma take_bit_Suc_xor:
  "take_bit (Suc n) a = take_bit n a XOR (if bit a n then 2 ^ n else 0)"
  for a :: "'a::len word"
  by (rule bit_eqI) (auto simp: bit_simps less_Suc_eq)

lemma word_xor_induct [case_names zero bit xor]:
  fixes a :: "'a::len word"
  assumes zero: "P 0"
    and bit: "\<And>i. i < LENGTH('a) \<Longrightarrow> P (2 ^ i)"
    and xor: "\<And>a b. P a \<Longrightarrow> P b \<Longrightarrow> P (a XOR b)"
  shows "P a"
proof -
  have "n \<le> LENGTH('a) \<Longrightarrow> P (take_bit n a)" for n
  proof (induction n)
    case 0
    then show ?case by (simp add: zero)
  next
    case (Suc n)
    then have "P (take_bit n a)" and "P (2 ^ n)" by (auto intro: bit)
    then show ?case by (auto simp: take_bit_Suc_xor intro: xor zero)
  qed
  from this [of "LENGTH('a)"] show ?thesis by simp
qed

lemma unat_ucast_up [simp]:
  "LENGTH('a) \<le> LENGTH('b) \<Longrightarrow> unat (ucast (a::'a::len word) :: 'b::len word) = unat a"
  by (simp add: unsigned_ucast_eq) (metis take_bit_word_eq_self unsigned_take_bit_eq)

lemma ucast_ucast_up [simp]:
  "LENGTH('a) \<le> LENGTH('b) \<Longrightarrow> ucast (ucast (a::'a::len word) :: 'b::len word) = a"
  by (simp add: unsigned_ucast_eq take_bit_word_eq_self)

text \<open>A decidable property of all bytes can be checked on the 256 of them.\<close>

lemma all_u8I: "(\<forall>n\<in>set [0..<256]. P (word_of_nat n)) \<Longrightarrow> P (a::u8)"
proof -
  assume *: "\<forall>n\<in>set [0..<256]. P (word_of_nat n :: u8)"
  have "unat a \<in> set [0..<256]" using unsigned_less [of a] by simp
  with * have "P (word_of_nat (unat a))" by blast
  then show ?thesis by simp
qed

section \<open>Lists\<close>

lemma nth_take_drop [buf_simps]: "i < n \<Longrightarrow> j + i < length xs \<Longrightarrow> take n (drop j xs) ! i = xs ! (j + i)"
  by simp

lemma funpow_commute: "(\<And>x. f (g x) = g (f x)) \<Longrightarrow> (f ^^ n) (g x) = g ((f ^^ n) x)"
  by (induction n) simp_all

text \<open>A store into an array, with no value when the index is outside it.\<close>

definition put_at :: "nat \<Rightarrow> 'a \<Rightarrow> 'a list \<Rightarrow> 'a list option" where
  "put_at i v xs = (if i < length xs then Some (xs[i := v]) else None)"

lemma those_map_Some: "(\<And>x. x \<in> set xs \<Longrightarrow> f x = Some (g x)) \<Longrightarrow> those (map f xs) = Some (map g xs)"
  by (induction xs) simp_all

text \<open>
  Iteration with an accumulator: evaluates its argument at every round, so the simplifier
  can run a loop of a few hundred rounds on concrete words.
\<close>

fun iter :: "('a \<Rightarrow> 'a) \<Rightarrow> nat \<Rightarrow> 'a \<Rightarrow> 'a" where
  "iter f n x = (if n = 0 then x else iter f (n - 1) (f x))"

declare iter.simps [simp del]

lemma funpow_iter: "(f ^^ n) x = iter f n x"
proof (induction n arbitrary: x)
  case 0
  then show ?case by (simp add: iter.simps [of f 0])
next
  case (Suc n)
  then show ?case by (simp add: iter.simps [of f "Suc n"] funpow_Suc_right del: funpow.simps)
qed

lemma foldl_nth_conv: "foldl f a (map g [0..<n]) = fold (\<lambda>i s. f s (g i)) [0..<n] a"
  by (induction n arbitrary: a) simp_all

text \<open>A loop over a list that a step can end with a failure.\<close>

fun for_each :: "('a \<Rightarrow> 's \<Rightarrow> 's option) \<Rightarrow> 'a list \<Rightarrow> 's \<Rightarrow> 's option" where
  "for_each f [] s = Some s"
| "for_each f (x # xs) s = Option.bind (f x s) (for_each f xs)"

lemma for_each_append: "for_each f (xs @ ys) s = Option.bind (for_each f xs s) (for_each f ys)"
proof (induction xs arbitrary: s)
  case (Cons x xs)
  then show ?case by (cases "f x s") simp_all
qed simp

end
