(* ===== verification/Xor_Field.thy ===== *)
theory Xor_Field
  imports Prelude
begin

unbundle bit_operations_syntax

text \<open>
  The algebra behind the program's binary field arithmetic. A linear shift register is a
  linear map \<open>D\<close> on words (multiplication by \<open>x\<close>) together with the word \<open>one\<close> whose
  successive images span everything. The three fields of the program (\<^verbatim>\<open>Galois8\<close> of
  \<^verbatim>\<open>galois.h\<close>, the GF(2^16) of \<^verbatim>\<open>gf16\<close> and the CRC-32 field of \<^verbatim>\<open>crc.cpp\<close>) interpret
  these locales, so the algebra is proved once.
\<close>

locale xor_shift =
  fixes D :: "'a::len word \<Rightarrow> 'a word" and one :: "'a word"
  assumes D_xor: "D (a XOR b) = D a XOR D b"
    and span: "\<lbrakk>P one; \<And>a. P a \<Longrightarrow> P (D a); \<And>a b. P a \<Longrightarrow> P b \<Longrightarrow> P (a XOR b)\<rbrakk> \<Longrightarrow> P c"
begin

lemma D_zero [simp]: "D 0 = 0"
  using D_xor [of 0 0] by simp

lemma Dn_xor: "(D ^^ n) (a XOR b) = (D ^^ n) a XOR (D ^^ n) b"
  by (induction n) (simp_all add: D_xor)

lemma Dn_zero [simp]: "(D ^^ n) 0 = 0"
  by (induction n) simp_all

lemma Dn_Dn: "(D ^^ m) ((D ^^ n) a) = (D ^^ (m + n)) a"
  by (simp add: funpow_add)

text \<open>A linear map that commutes with \<open>D\<close> is determined by its value at \<open>one\<close>.\<close>

lemma operator_eq:
  assumes "\<And>a b. F (a XOR b) = F a XOR F b" and "\<And>a. F (D a) = D (F a)"
    and "\<And>a b. G (a XOR b) = G a XOR G b" and "\<And>a. G (D a) = D (G a)"
    and "F one = G one"
  shows "F a = G a"
  by (rule span [of "\<lambda>a. F a = G a"]) (simp_all add: assms)

lemma Dn_operator: "(D ^^ n) one = one \<Longrightarrow> (D ^^ n) a = a"
  by (rule operator_eq [of "D ^^ n" "\<lambda>a. a"]) (simp_all add: Dn_xor funpow_swap1)

end

text \<open>A multiplication that treats its left argument as a polynomial in \<open>D\<close>.\<close>

locale xor_mul = xor_shift D one for D :: "'a::len word \<Rightarrow> 'a word" and one +
  fixes mul :: "'a word \<Rightarrow> 'a word \<Rightarrow> 'a word"
  assumes mul_xor_left: "mul (a XOR b) c = mul a c XOR mul b c"
    and mul_D_left: "mul (D a) c = D (mul a c)"
    and mul_one_left: "mul one c = c"
begin

lemma mul_one_right: "mul a one = a"
  by (rule operator_eq [of "\<lambda>a. mul a one" "\<lambda>a. a"])
    (simp_all add: mul_xor_left mul_D_left mul_one_left)

lemma mul_D_right: "mul a (D c) = D (mul a c)"
  by (rule operator_eq [of "\<lambda>a. mul a (D c)" "\<lambda>a. D (mul a c)"])
    (simp_all add: mul_xor_left mul_D_left mul_one_left D_xor)

lemma mul_xor_right: "mul a (b XOR c) = mul a b XOR mul a c"
  by (rule operator_eq [of "\<lambda>a. mul a (b XOR c)" "\<lambda>a. mul a b XOR mul a c"])
    (simp_all add: mul_xor_left mul_D_left mul_one_left D_xor word_xor_simps)

lemma mul_commute: "mul a c = mul c a"
  by (rule operator_eq [of "\<lambda>a. mul a c" "\<lambda>a. mul c a"])
    (simp_all add: mul_xor_left mul_D_left mul_one_left mul_one_right mul_D_right mul_xor_right)

lemma mul_assoc: "mul (mul a b) c = mul a (mul b c)"
  by (rule operator_eq [of "\<lambda>a. mul (mul a b) c" "\<lambda>a. mul a (mul b c)"])
    (simp_all add: mul_xor_left mul_D_left mul_one_left)

lemma mul_zero_left [simp]: "mul 0 a = 0"
  using mul_xor_left [of 0 0 a] by simp

lemma mul_zero_right [simp]: "mul a 0 = 0"
  by (simp add: mul_commute [of a])

lemma mul_Dn_left: "mul ((D ^^ n) a) c = (D ^^ n) (mul a c)"
  by (induction n) (simp_all add: mul_D_left)

lemma mul_Dn_right: "mul c ((D ^^ n) a) = (D ^^ n) (mul c a)"
  by (simp add: mul_commute [of c] mul_Dn_left)

lemma mul_pow_left: "mul ((D ^^ n) one) c = (D ^^ n) c"
  by (simp add: mul_Dn_left mul_one_left)

lemma mul_pow_right: "mul c ((D ^^ n) one) = (D ^^ n) c"
  by (simp add: mul_Dn_right mul_one_right)

lemma mul_pow_pow: "mul ((D ^^ m) one) ((D ^^ n) one) = (D ^^ (m + n)) one"
  by (simp add: mul_pow_left funpow_add)

end

text \<open>
  When \<open>D\<close> has the greatest possible order every non-zero word is a power of the
  generator, so discrete logarithms exist and non-zero words have inverses.
\<close>

locale xor_field = xor_shift D one for D :: "'a::len word \<Rightarrow> 'a word" and one +
  fixes N :: nat
  assumes N_def: "N = 2 ^ LENGTH('a) - 1"
    and N_gt: "1 < N"
    and order_N: "(D ^^ N) one = one"
    and order_min: "0 < n \<Longrightarrow> n < N \<Longrightarrow> (D ^^ n) one \<noteq> one"
begin

lemma Dn_N [simp]: "(D ^^ N) a = a"
  by (rule Dn_operator [OF order_N])

lemma Dn_mult_N: "(D ^^ (k * N)) a = a"
  by (induction k) (simp_all add: funpow_add)

lemma Dn_mod: "(D ^^ (n mod N)) a = (D ^^ n) a"
proof -
  have "(D ^^ n) a = (D ^^ (n mod N + n div N * N)) a" by simp
  then show ?thesis by (simp only: funpow_add o_apply Dn_mult_N)
qed

lemma Dn_inj: "(D ^^ n) a = (D ^^ n) b \<Longrightarrow> a = b"
proof -
  assume eq: "(D ^^ n) a = (D ^^ n) b"
  obtain m where m: "n + m = n * N"
    using N_gt by (metis le_add_diff_inverse less_or_eq_imp_le mult.right_neutral mult_le_mono2)
  then have "(D ^^ m) ((D ^^ n) c) = c" for c
    by (metis Dn_mult_N add.commute funpow_add o_apply)
  with eq show ?thesis by metis
qed

lemma one_nonzero [simp]: "one \<noteq> 0"
  using order_min [of 1] N_gt by auto

lemma Dn_eq_zero_iff [simp]: "(D ^^ n) a = 0 \<longleftrightarrow> a = 0"
  using Dn_inj [of n a 0] by auto

lemma Dn_one_inj: "i < N \<Longrightarrow> j < N \<Longrightarrow> (D ^^ i) one = (D ^^ j) one \<Longrightarrow> i = j"
proof (induction i j rule: linorder_wlog)
  case (le i j)
  show ?case
  proof (rule ccontr)
    assume "i \<noteq> j"
    with le have "0 < j - i" "j - i < N" by auto
    moreover have "(D ^^ i) ((D ^^ (j - i)) one) = (D ^^ i) one"
      using le by (simp add: funpow_add [symmetric, unfolded o_def, THEN fun_cong])
    then have "(D ^^ (j - i)) one = one" by (rule Dn_inj)
    ultimately show False using order_min by blast
  qed
next
  case (sym i j)
  then show ?case by simp
qed

lemma generates: "a \<noteq> 0 \<Longrightarrow> \<exists>n<N. a = (D ^^ n) one"
proof -
  assume "a \<noteq> 0"
  let ?f = "\<lambda>n. (D ^^ n) one"
  have inj: "inj_on ?f {..<N}" by (auto intro!: inj_onI Dn_one_inj)
  have "card (UNIV - {0::'a word}) = N"
    by (simp add: card_Diff_subset N_def card_word)
  moreover have "card (?f ` {..<N}) = N" by (simp add: card_image inj)
  moreover have "?f ` {..<N} \<subseteq> UNIV - {0}" by auto
  ultimately have "?f ` {..<N} = UNIV - {0}" by (metis card_subset_eq finite_Diff finite)
  with \<open>a \<noteq> 0\<close> have "a \<in> ?f ` {..<N}" by blast
  then show ?thesis by auto
qed

end

text \<open>How the two kinds of shift register in the program (left and right) meet the locale.\<close>

lemma xor_shift_leftI:
  fixes D :: "'a::len word \<Rightarrow> 'a word"
  assumes lin: "\<And>a b. D (a XOR b) = D a XOR D b"
    and step: "\<And>i. Suc i < LENGTH('a) \<Longrightarrow> D (2 ^ i) = 2 ^ Suc i"
  shows "xor_shift D 1"
proof (rule xor_shift.intro [OF lin])
  fix P c
  assume P1: "P (1::'a word)" and PD: "\<And>a. P a \<Longrightarrow> P (D a)"
    and Px: "\<And>a b. P a \<Longrightarrow> P b \<Longrightarrow> P (a XOR b)"
  have "i < LENGTH('a) \<Longrightarrow> P (2 ^ i)" for i
    by (induction i) (use P1 PD step in fastforce)+
  then show "P c" using Px [OF P1 P1] Px by (auto intro: word_xor_induct [of P])
qed

lemma xor_shift_rightI:
  fixes D :: "'a::len word \<Rightarrow> 'a word"
  assumes lin: "\<And>a b. D (a XOR b) = D a XOR D b"
    and step: "\<And>i. Suc i < LENGTH('a) \<Longrightarrow> D (2 ^ Suc i) = 2 ^ i"
  shows "xor_shift D (2 ^ (LENGTH('a) - 1))"
proof (rule xor_shift.intro [OF lin])
  fix P c
  assume P1: "P (2 ^ (LENGTH('a) - 1) :: 'a word)" and PD: "\<And>a. P a \<Longrightarrow> P (D a)"
    and Px: "\<And>a b. P a \<Longrightarrow> P b \<Longrightarrow> P (a XOR b)"
  have *: "i < LENGTH('a) \<Longrightarrow> P (2 ^ (LENGTH('a) - 1 - i))" for i
  proof (induction i)
    case 0
    then show ?case using P1 by simp
  next
    case (Suc i)
    then have eq: "LENGTH('a) - 1 - i = Suc (LENGTH('a) - 1 - Suc i)" by simp
    from Suc have "P (2 ^ (LENGTH('a) - 1 - i))" by simp
    then have "P (D (2 ^ Suc (LENGTH('a) - 1 - Suc i)))" unfolding eq by (rule PD)
    then show ?case using step Suc.prems by simp
  qed
  have "i < LENGTH('a) \<Longrightarrow> P (2 ^ i)" for i
    using * [of "LENGTH('a) - 1 - i"] by simp
  then show "P c" using Px [OF P1 P1] Px by (auto intro: word_xor_induct [of P])
qed

text \<open>
  The order of the generator from finitely many powers: it is enough to look at the
  largest proper divisors \<open>ds\<close> of the group order.
\<close>

lemma funpow_dvd_fix: "(D ^^ g) x = x \<Longrightarrow> g dvd n \<Longrightarrow> (D ^^ n) x = x"
proof -
  assume fix_g: "(D ^^ g) x = x" and "g dvd n"
  then obtain k where n: "n = k * g" by (metis dvd_def mult.commute)
  have "(D ^^ (k * g)) x = x" by (induction k) (simp_all add: funpow_add fix_g)
  then show ?thesis by (simp add: n)
qed

lemma order_minI:
  fixes D :: "'b \<Rightarrow> 'b"
  assumes N: "(D ^^ N) x = x" and "0 < N"
    and ds: "\<And>n. n dvd N \<Longrightarrow> n < N \<Longrightarrow> \<exists>d\<in>set ds. n dvd d"
    and no: "\<forall>d\<in>set ds. (D ^^ d) x \<noteq> x"
    and n: "0 < n" "n < N"
  shows "(D ^^ n) x \<noteq> x"
proof
  assume fix_n: "(D ^^ n) x = x"
  obtain u v where uv: "n * u = N * v + gcd n N" using bezout_nat [of n N] n by auto
  have "(D ^^ (n * u)) x = x" and "(D ^^ (N * v)) x = x"
    using funpow_dvd_fix [OF fix_n] funpow_dvd_fix [OF N] by simp_all
  then have g: "(D ^^ gcd n N) x = x"
    by (metis add.commute funpow_add o_apply uv)
  have "gcd n N < N" using n gcd_le1_nat [of n N] by linarith
  then obtain d where "d \<in> set ds" "gcd n N dvd d" using ds [of "gcd n N"] by auto
  with funpow_dvd_fix [OF g] no show False by blast
qed

text \<open>The largest proper divisors are found by looking at the divisors up to the square root.\<close>

lemma proper_dvdI:
  fixes N :: nat
  assumes "n dvd N" and "n < N" and M: "N < M * M" "M \<le> N"
    and small: "\<forall>k\<in>set [1..<M]. k dvd N \<longrightarrow>
      (\<exists>d\<in>set ds. k dvd d) \<and> (k = 1 \<or> (\<exists>d\<in>set ds. N div k dvd d))"
  shows "\<exists>d\<in>set ds. n dvd d"
proof -
  from \<open>n dvd N\<close> obtain e where e: "N = n * e" by (auto elim: dvdE)
  with \<open>n < N\<close> have "0 < n" "e \<noteq> 1" "0 < e" by (auto intro: Nat.gr0I)
  have "n < M \<or> e < M"
    using e M by (metis leI leD mult_le_mono)
  then show ?thesis
  proof
    assume "n < M"
    with \<open>0 < n\<close> \<open>n dvd N\<close> small show ?thesis by auto
  next
    assume "e < M"
    moreover have "e dvd N" and "N div e = n" using e \<open>0 < e\<close> by simp_all
    ultimately show ?thesis using small \<open>0 < e\<close> \<open>e \<noteq> 1\<close> by auto
  qed
qed

end
