(* ===== verification/Galois.thy ===== *)
theory Galois
  imports Xor_Field
begin

unbundle bit_operations_syntax

text \<open>
  \<^verbatim>\<open>galois.h\<close>: the log and antilog tables of \<^verbatim>\<open>Galois<8,0x11D,u8>\<close> (\<^verbatim>\<open>Galois8\<close>), built
  by the same loop as the constructor, and the table driven operators. The operators are
  proved to be the arithmetic of a field by interpreting \<open>xor_field\<close> on multiplication by
  \<open>x\<close>, and \<^verbatim>\<open>Galois8\<close> is made an instance of the class \<open>field\<close>, which is how the matrix code
  of \<^verbatim>\<open>reedsolomon.h\<close> (a template over the number class) uses it.
\<close>

section \<open>The tables\<close>

abbreviation (input) galois_Bits :: nat where "galois_Bits \<equiv> 8"
abbreviation (input) galois_Count :: u32 where "galois_Count \<equiv> 0x100"
abbreviation (input) galois_Limit :: nat where "galois_Limit \<equiv> 255"
abbreviation (input) galois_Generator :: u32 where "galois_Generator \<equiv> 0x11D"

record galois_table =
  gt_log :: "u8 list"
  gt_antilog :: "u8 list"

text \<open>One round of the constructor's loop; \<open>b\<close> is the running power, a \<^verbatim>\<open>u32\<close>.\<close>

definition galois_table_step :: "nat \<Rightarrow> u32 \<times> galois_table \<Rightarrow> u32 \<times> galois_table" where
  "galois_table_step l s =
     (let (b, t) = s;
          t = t\<lparr>gt_log := (gt_log t)[unat b := of_nat l],
                gt_antilog := (gt_antilog t)[l := ucast b]\<rparr>;
          b = push_bit 1 b
      in (if b AND galois_Count \<noteq> 0 then b XOR galois_Generator else b, t))"

definition galois_table_init :: galois_table where
  "galois_table_init = \<lparr>gt_log = replicate 256 0, gt_antilog = replicate 256 0\<rparr>"

definition galois8_table :: galois_table where
  "galois8_table =
     (let t = snd (fold galois_table_step [0..<galois_Limit] (1, galois_table_init))
      in t\<lparr>gt_log := (gt_log t)[0 := of_nat galois_Limit],
           gt_antilog := (gt_antilog t)[galois_Limit := 0]\<rparr>)"

section \<open>The number class and its operators\<close>

datatype galois8 = Galois8 (galois_Value: u8)

definition galois_log :: "u8 \<Rightarrow> nat" where
  "galois_log v = unat (gt_log galois8_table ! unat v)"

definition galois_antilog :: "nat \<Rightarrow> u8" where
  "galois_antilog n = gt_antilog galois8_table ! n"

definition galois_add :: "galois8 \<Rightarrow> galois8 \<Rightarrow> galois8" where
  "galois_add a b = Galois8 (galois_Value a XOR galois_Value b)"

definition galois_sub :: "galois8 \<Rightarrow> galois8 \<Rightarrow> galois8" where
  "galois_sub a b = Galois8 (galois_Value a XOR galois_Value b)"

definition galois_mul :: "galois8 \<Rightarrow> galois8 \<Rightarrow> galois8" where
  "galois_mul a b =
     (if galois_Value a = 0 \<or> galois_Value b = 0 then Galois8 0
      else let sum = galois_log (galois_Value a) + galois_log (galois_Value b)
           in if sum \<ge> galois_Limit then Galois8 (galois_antilog (sum - galois_Limit))
              else Galois8 (galois_antilog sum))"

text \<open>
  \<^verbatim>\<open>operator /\<close>: the zero numerator is tested first; a zero divisor trips the assertion and,
  with assertions compiled out, gives 0. The logarithms are subtracted as signed integers.
\<close>

definition galois_div :: "galois8 \<Rightarrow> galois8 \<Rightarrow> galois8" where
  "galois_div a b =
     (if galois_Value a = 0 then Galois8 0
      else if galois_Value b = 0 then Galois8 0
      else let sum = int (galois_log (galois_Value a)) - int (galois_log (galois_Value b))
           in if sum < 0 then Galois8 (galois_antilog (nat (sum + int galois_Limit)))
              else Galois8 (galois_antilog (nat sum)))"

text \<open>\<^verbatim>\<open>operator /=\<close> differs from \<^verbatim>\<open>operator /\<close> on a zero divisor: the value is kept.\<close>

definition galois_div_assign :: "galois8 \<Rightarrow> galois8 \<Rightarrow> galois8" where
  "galois_div_assign a b =
     (if galois_Value a = 0 then a
      else if galois_Value b = 0 then a
      else let sum = int (galois_log (galois_Value a)) - int (galois_log (galois_Value b))
           in if sum < 0 then Galois8 (galois_antilog (nat (sum + int galois_Limit)))
              else Galois8 (galois_antilog (nat sum)))"

text \<open>
  \<^verbatim>\<open>pow\<close> reduces the exponent once, \<^verbatim>\<open>(sum >> Bits) + (sum & Limit)\<close>, on a 32 bit product.
  The index it then uses may lie outside the 256 entries of the antilog table; such a read
  is \<open>None\<close>.
\<close>

definition galois_pow :: "galois8 \<Rightarrow> u32 \<Rightarrow> galois8 option" where
  "galois_pow a right =
     (if right = 0 then Some (Galois8 1)
      else if galois_Value a = 0 then Some (Galois8 0)
      else let sum = word_of_nat (galois_log (galois_Value a)) * right;
               sum = drop_bit galois_Bits sum + (sum AND word_of_nat galois_Limit);
               ix = (if sum \<ge> word_of_nat galois_Limit then unat sum - galois_Limit else unat sum)
           in if ix < 256 then Some (Galois8 (galois_antilog ix)) else None)"

section \<open>Multiplication by \<open>x\<close>, and the contents of the tables\<close>

definition xtime8 :: "u8 \<Rightarrow> u8" where
  "xtime8 a = push_bit 1 a XOR (if bit a 7 then 0x1D else 0)"

lemma xtime8_xor: "xtime8 (a XOR b) = xtime8 a XOR xtime8 b"
  unfolding xtime8_def by (rule bit_eqI) (auto simp: bit_simps)

lemma xtime8_step: "i < 7 \<Longrightarrow> xtime8 (2 ^ i) = 2 * 2 ^ i"
proof -
  have "\<forall>i\<in>set [0..<7]. xtime8 (2 ^ i) = 2 * 2 ^ i" by code_simp
  then show "i < 7 \<Longrightarrow> ?thesis" by simp
qed

lemma dvd_255: "n dvd (255::nat) \<Longrightarrow> n < 255 \<Longrightarrow> \<exists>d\<in>set [85, 51, 15]. n dvd d"
  by (erule (1) proper_dvdI [where M = 16]) (simp, simp, code_simp)

interpretation x8: xor_field xtime8 1 255
proof -
  have shift: "xor_shift xtime8 1"
    by (rule xor_shift_leftI) (auto intro: xtime8_xor xtime8_step)
  have N: "(xtime8 ^^ 255) 1 = 1"
    unfolding funpow_iter by (simp add: iter.simps xtime8_def)
  have ds: "\<forall>d\<in>set [85, 51, 15]. (xtime8 ^^ d) 1 \<noteq> 1"
    unfolding funpow_iter by (simp add: iter.simps xtime8_def)
  show "xor_field xtime8 1 255"
    by (rule xor_field.intro [OF shift], unfold_locales)
      (use N order_minI [OF N _ dvd_255 ds] in auto)
qed

text \<open>The loop invariant of the table constructor.\<close>

lemma bit_Count: "bit (0x100 :: int) n \<longleftrightarrow> n = 8"
  using bit_exp_iff [of 8 n, where ?'a = int] by simp

lemma push_bit_ucast8:
  "push_bit 1 (ucast a :: u32) = ucast (push_bit 1 a) XOR (if bit a 7 then galois_Count else 0)"
  for a :: u8
proof (rule bit_eqI)
  fix n
  have "n \<le> 8" if "bit a (n - 1)"
    using bit_imp_le_length [OF that] by simp
  then show "bit (push_bit 1 (ucast a :: u32)) n =
      bit (ucast (push_bit 1 a) XOR (if bit a 7 then galois_Count else 0) :: u32) n"
    by (cases "n = 8") (auto simp: bit_simps bit_Count simp del: push_bit_Suc One_nat_def)
qed

lemma table_shift:
  "(if push_bit 1 (ucast a :: u32) AND galois_Count \<noteq> 0
    then push_bit 1 (ucast a :: u32) XOR galois_Generator else push_bit 1 (ucast a))
   = ucast (xtime8 a)"
proof -
  have "push_bit 1 (ucast a :: u32) AND galois_Count = (if bit a 7 then galois_Count else 0)"
    by (rule bit_eqI) (auto simp: bit_simps bit_Count simp del: push_bit_Suc One_nat_def)
  moreover have "galois_Generator = galois_Count XOR ucast (0x1D :: u8)" by simp
  ultimately show ?thesis
    unfolding xtime8_def by (auto simp: push_bit_ucast8 unsigned_xor_eq word_xor_simps
        simp del: push_bit_Suc One_nat_def)
qed

lemma galois_table_step_xtime:
  "galois_table_step l (ucast a, t) =
     (ucast (xtime8 a),
      t\<lparr>gt_log := (gt_log t)[unat a := of_nat l], gt_antilog := (gt_antilog t)[l := a]\<rparr>)"
  using table_shift [of a]
  by (simp add: galois_table_step_def Let_def del: push_bit_Suc One_nat_def)

definition table_filled :: "nat \<Rightarrow> galois_table \<Rightarrow> bool" where
  "table_filled n t \<longleftrightarrow> length (gt_log t) = 256 \<and> length (gt_antilog t) = 256 \<and>
     (\<forall>l<n. gt_antilog t ! l = (xtime8 ^^ l) 1 \<and>
            gt_log t ! unat ((xtime8 ^^ l) 1) = of_nat l)"

lemma table_filled_step:
  assumes "table_filled n t" and "n < 255"
  shows "table_filled (Suc n)
    (t\<lparr>gt_log := (gt_log t)[unat ((xtime8 ^^ n) 1) := of_nat n],
       gt_antilog := (gt_antilog t)[n := (xtime8 ^^ n) 1]\<rparr>)"
proof -
  have "unat a < 256" for a :: u8 using unsigned_less [of a] by simp
  moreover have "(xtime8 ^^ l) 1 = (xtime8 ^^ n) 1 \<Longrightarrow> l < n \<Longrightarrow> False" for l
    using x8.Dn_one_inj [of l n] \<open>n < 255\<close> by simp
  moreover have "unat ((xtime8 ^^ n) 1) \<noteq> unat ((xtime8 ^^ l) 1)" if "l < n" for l
    using calculation(2) that by (metis word_unat_eq_iff)
  ultimately show ?thesis
    using assms by (auto simp: table_filled_def less_Suc_eq nth_list_update)
qed

lemma table_loop:
  "n \<le> 255 \<Longrightarrow> \<exists>t. fold galois_table_step [0..<n] (1, galois_table_init)
      = (ucast ((xtime8 ^^ n) 1), t) \<and> table_filled n t"
proof (induction n)
  case 0
  then show ?case by (simp add: galois_table_init_def table_filled_def)
next
  case (Suc n)
  then obtain t where "fold galois_table_step [0..<n] (1, galois_table_init)
      = (ucast ((xtime8 ^^ n) 1), t)" "table_filled n t" by auto
  then show ?case
    using table_filled_step [of n t] Suc.prems by (auto simp: galois_table_step_xtime)
qed

lemma galois8_table_facts:
  "length (gt_log galois8_table) = 256" "length (gt_antilog galois8_table) = 256"
  "l < 255 \<Longrightarrow> galois_antilog l = (xtime8 ^^ l) 1"
  "l < 255 \<Longrightarrow> galois_log ((xtime8 ^^ l) 1) = l"
  "galois_log 0 = 255" "galois_antilog 255 = 0"
proof -
  obtain t where t: "fold galois_table_step [0..<255] (1, galois_table_init)
      = (ucast ((xtime8 ^^ 255) 1), t)" "table_filled 255 t"
    using table_loop [of 255] by auto
  have T: "galois8_table = t\<lparr>gt_log := (gt_log t)[0 := 255], gt_antilog := (gt_antilog t)[255 := 0]\<rparr>"
    unfolding galois8_table_def t Let_def by simp
  have nz: "unat ((xtime8 ^^ l) 1) \<noteq> 0" for l by (simp add: unat_eq_zero)
  show "length (gt_log galois8_table) = 256" "length (gt_antilog galois8_table) = 256"
    "galois_log 0 = 255" "galois_antilog 255 = 0"
    using t(2) by (simp_all add: T table_filled_def galois_log_def galois_antilog_def)
  show "l < 255 \<Longrightarrow> galois_antilog l = (xtime8 ^^ l) 1"
    using t(2) by (simp add: T table_filled_def galois_antilog_def)
  show "l < 255 \<Longrightarrow> galois_log ((xtime8 ^^ l) 1) = l"
    using t(2) nz [of l] by (simp add: T table_filled_def galois_log_def unat_of_nat)
qed

section \<open>The operators are the arithmetic of a field\<close>

abbreviation gpow :: "nat \<Rightarrow> galois8" where
  "gpow n \<equiv> Galois8 ((xtime8 ^^ n) 1)"

lemma gpow_mod: "gpow (n mod 255) = gpow n"
  by (simp add: x8.Dn_mod)

lemma galois8_cases:
  obtains "a = Galois8 0" | n where "n < 255" "a = gpow n"
  by (metis galois8.exhaust x8.generates)

lemma galois_mul_zero [simp]: "galois_mul (Galois8 0) a = Galois8 0" "galois_mul a (Galois8 0) = Galois8 0"
  by (simp_all add: galois_mul_def)

lemma galois_mul_gpow:
  assumes "i < 255" "j < 255"
  shows "galois_mul (gpow i) (gpow j) = gpow (i + j)"
proof -
  have "(i + j) mod 255 = (if 255 \<le> i + j then i + j - 255 else i + j)"
    using assms by (simp add: mod_if)
  then show ?thesis
    using assms gpow_mod [of "i + j"]
    by (auto simp: galois_mul_def Let_def galois8_table_facts split: if_splits)
qed

lemma galois_mul_gpow_right:
  assumes "j < 255"
  shows "galois_mul a (gpow j) = Galois8 ((xtime8 ^^ j) (galois_Value a))"
  using assms by (cases a rule: galois8_cases) (simp_all add: galois_mul_gpow x8.Dn_Dn add.commute)

lemma galois_div_gpow:
  assumes "i < 255" "j < 255"
  shows "galois_div (gpow i) (gpow j) = gpow (i + (255 - j))"
proof -
  have *: "(i + (255 - j)) mod 255 = (if i < j then i + (255 - j) else i - j)"
    using assms by (simp add: mod_if)
  have "nat (int i - int j + 255) = i + (255 - j)" "nat (int i - int j) = i - j"
    using assms by linarith+
  then show ?thesis
    using assms gpow_mod [of "i + (255 - j)"] unfolding *
    by (auto simp: galois_div_def Let_def galois8_table_facts split: if_splits)
qed

lemma galois_mul_div:
  assumes "b \<noteq> Galois8 0"
  shows "galois_mul (galois_div a b) b = a"
proof -
  obtain j where j: "j < 255" "b = gpow j" using assms by (cases b rule: galois8_cases) auto
  show ?thesis
  proof (cases a rule: galois8_cases)
    case 1
    then show ?thesis by (simp add: galois_div_def)
  next
    case (2 i)
    then have "galois_mul (galois_div a b) b = Galois8 ((xtime8 ^^ (j + (i + (255 - j)))) 1)"
      using j by (simp add: galois_div_gpow galois_mul_gpow_right x8.Dn_Dn del: add_diff_assoc)
    also have "j + (i + (255 - j)) = i + 255" using j by simp
    finally show ?thesis using 2 x8.Dn_N [of 1] by (simp add: funpow_add)
  qed
qed

lemma galois_mul_commute: "galois_mul a b = galois_mul b a"
  by (cases a rule: galois8_cases; cases b rule: galois8_cases)
    (simp_all add: galois_mul_gpow add.commute)

lemma galois_mul_assoc: "galois_mul (galois_mul a b) c = galois_mul a (galois_mul b c)"
proof (cases c rule: galois8_cases)
  case (2 k)
  show ?thesis
  proof (cases b rule: galois8_cases)
    case (2 j)
    have "galois_mul a (gpow (j + k)) = Galois8 ((xtime8 ^^ (j + k)) (galois_Value a))"
      by (subst gpow_mod [symmetric], subst galois_mul_gpow_right) (simp_all add: x8.Dn_mod)
    then show ?thesis
      using \<open>k < 255\<close> \<open>c = gpow k\<close> 2
      by (simp add: galois_mul_gpow_right galois_mul_gpow funpow_add add.commute [of j])
  qed simp
qed simp

lemma galois_mul_add_left:
  "galois_mul (galois_add a b) c = galois_add (galois_mul a c) (galois_mul b c)"
  by (cases c rule: galois8_cases) (simp_all add: galois_add_def galois_mul_gpow_right x8.Dn_xor)

instantiation galois8 :: field
begin

definition zero_galois8 :: galois8 where "zero_galois8 = Galois8 0"
definition one_galois8 :: galois8 where "one_galois8 = Galois8 1"
definition plus_galois8 :: "galois8 \<Rightarrow> galois8 \<Rightarrow> galois8" where "plus_galois8 = galois_add"
definition minus_galois8 :: "galois8 \<Rightarrow> galois8 \<Rightarrow> galois8" where "minus_galois8 = galois_sub"
definition uminus_galois8 :: "galois8 \<Rightarrow> galois8" where "uminus_galois8 a = galois_sub (Galois8 0) a"
definition times_galois8 :: "galois8 \<Rightarrow> galois8 \<Rightarrow> galois8" where "times_galois8 = galois_mul"
definition divide_galois8 :: "galois8 \<Rightarrow> galois8 \<Rightarrow> galois8" where "divide_galois8 = galois_div"
definition inverse_galois8 :: "galois8 \<Rightarrow> galois8" where "inverse_galois8 a = galois_div (Galois8 1) a"

lemmas galois8_ops = zero_galois8_def one_galois8_def plus_galois8_def minus_galois8_def
  uminus_galois8_def times_galois8_def divide_galois8_def inverse_galois8_def

instance
proof
  fix a b c :: galois8
  show "a * b * c = a * (b * c)" by (simp add: galois8_ops galois_mul_assoc)
  show "a * b = b * a" unfolding galois8_ops by (rule galois_mul_commute)
  show "1 * a = a"
    using galois_mul_gpow_right [of 0 a] by (simp add: galois8_ops galois_mul_commute [of "Galois8 1"])
  show "(a + b) * c = a * c + b * c" by (simp add: galois8_ops galois_mul_add_left)
  show "a + b + c = a + (b + c)" by (simp add: galois8_ops galois_add_def word_xor_simps)
  show "a + b = b + a" by (simp add: galois8_ops galois_add_def word_xor_simps)
  show "0 + a = a" by (simp add: galois8_ops galois_add_def)
  show "- a + a = 0" by (simp add: galois8_ops galois_add_def galois_sub_def)
  show "a - b = a + - b" by (simp add: galois8_ops galois_add_def galois_sub_def)
  show "(0::galois8) \<noteq> 1" by (simp add: galois8_ops)
  show "a \<noteq> 0 \<Longrightarrow> inverse a * a = 1" by (simp add: galois8_ops galois_mul_div)
  show "inverse (0::galois8) = 0" by (simp add: galois8_ops galois_div_def)
  show "a div b = a * inverse b"
  proof (cases "b = 0")
    case True
    then show ?thesis by (simp add: galois8_ops galois_div_def)
  next
    case False
    then have "galois_mul (galois_mul a (galois_div (Galois8 1) b)) b = a"
      using galois_mul_div [of b "Galois8 1"] galois_mul_gpow_right [of 0 a]
      by (simp add: galois8_ops galois_mul_assoc)
    also have "\<dots> = galois_mul (galois_div a b) b"
      using False galois_mul_div [of b a] by (simp add: galois8_ops)
    finally have "galois_mul (galois_mul (galois_mul a (galois_div (Galois8 1) b)) b) (galois_div (Galois8 1) b)
        = galois_mul (galois_mul (galois_div a b) b) (galois_div (Galois8 1) b)" by simp
    moreover have "galois_mul b (galois_div (Galois8 1) b) = Galois8 1"
      using False galois_mul_div [of b "Galois8 1"] by (simp add: galois8_ops galois_mul_commute)
    ultimately show ?thesis
      using galois_mul_gpow_right [of 0] by (simp add: galois8_ops galois_mul_assoc)
  qed
qed

end

text \<open>Characteristic 2, and the compound assignments.\<close>

lemma galois8_add_self [simp]: "(a::galois8) + a = 0"
  by (simp add: galois8_ops galois_add_def)

lemma galois8_minus: "(a::galois8) - b = a + b"
  by (simp add: galois8_ops galois_add_def galois_sub_def)

lemma galois8_uminus [simp]: "- (a::galois8) = a"
  by (cases a) (simp add: galois8_ops galois_sub_def)

lemma galois_div_assign_eq: "b \<noteq> 0 \<Longrightarrow> galois_div_assign a b = a / b"
  by (cases a; cases b) (simp add: galois8_ops galois_div_assign_def galois_div_def)

lemma galois_Value_zero_iff: "galois_Value a = 0 \<longleftrightarrow> a = 0"
  by (cases a) (simp add: galois8_ops)

subsection \<open>Powers\<close>

lemma gpow_power: "n < 255 \<Longrightarrow> gpow n ^ k = gpow (n * k)"
proof (induction k)
  case 0
  then show ?case by (simp add: galois8_ops)
next
  case (Suc k)
  have "gpow n ^ Suc k = galois_mul (gpow (n * k)) (gpow n)"
    using Suc by (simp add: times_galois8_def galois_mul_commute)
  with Suc.prems show ?case by (simp add: galois_mul_gpow_right x8.Dn_Dn)
qed

lemma pow_reduce:
  fixes s :: u32
  shows "unat (drop_bit 8 s + (s AND 255)) = unat s div 256 + unat s mod 256"
proof -
  have "take_bit 8 s = s AND 255" by (simp add: take_bit_eq_mask mask_eq_exp_minus_1)
  moreover have "unat (take_bit 8 s) = unat s mod 256"
    by (simp add: unsigned_take_bit_eq) (simp add: take_bit_eq_mod)
  ultimately have lo: "unat (s AND 255) = unat s mod 256" by simp
  have hi: "unat (drop_bit 8 s) = unat s div 256"
    by (simp add: unat_drop_bit_eq) (simp add: drop_bit_eq_div)
  have "unat s < 2 ^ 32" using unsigned_less [of s] by simp
  then have "unat s div 256 + unat s mod 256 < 2 ^ 32" by linarith
  then show ?thesis by (simp add: unat_word_ariths lo hi)
qed

lemma mod_255_digits: "(m div 256 + m mod 256) mod 255 = m mod (255::nat)"
proof -
  have "m mod 255 = (m mod 256 + m div 256 * 256) mod 255" by (simp add: mult.commute)
  also have "m mod 256 + m div 256 * 256 = (m div 256 + m mod 256) + m div 256 * 255" by simp
  also have "\<dots> mod 255 = (m div 256 + m mod 256) mod 255" by (rule mod_mult_self1)
  finally show ?thesis by (rule sym)
qed

lemma galois_pow_power:
  assumes "unat right \<le> 257"
  shows "galois_pow a right = Some (a ^ unat right)"
proof (cases a rule: galois8_cases)
  case 1
  then show ?thesis
    by (cases "right = 0")
      (simp_all add: galois_pow_def galois8_ops(1,2) [symmetric] galois_Value_zero_iff
        unat_eq_zero power_0_left)
next
  case (2 n)
  define m where "m = n * unat right"
  have "m \<le> 254 * 257" unfolding m_def using 2 assms by (intro mult_le_mono) auto
  then have m: "unat (word_of_nat n * right :: u32) = m"
    using 2 by (simp add: unat_word_ariths unat_of_nat m_def)
  define r where "r = m div 256 + m mod 256"
  have r: "r < 510" "gpow (r mod 255) = gpow m"
    using \<open>m \<le> 254 * 257\<close> by (simp_all add: r_def mod_255_digits gpow_mod)
  have red: "unat (drop_bit 8 (word_of_nat n * right) + (word_of_nat n * right AND 255) :: u32) = r"
    by (simp only: pow_reduce m r_def)
  have le: "(255 :: u32) \<le> w \<longleftrightarrow> 255 \<le> unat w" for w by (simp add: word_le_nat_alt)
  have "a ^ unat right = gpow m" using 2 by (simp add: gpow_power m_def)
  moreover have "(if 255 \<le> r then r - 255 else r) = r mod 255" using r by (simp add: mod_if)
  ultimately show ?thesis
    using 2 r by (auto simp: galois_pow_def galois8_table_facts Let_def red le galois8_ops
        split: if_splits)
qed

section \<open>Properties\<close>

text \<open>C32: the table driven operators are the arithmetic of a field with 256 elements: sums and
  products obey the ring laws, and dividing by a non-zero value undoes multiplying by it.\<close>

theorem galois_operators_field:
  "galois_add a b = galois_add b a \<and> galois_add (galois_add a b) c = galois_add a (galois_add b c) \<and>
   galois_sub (galois_add a b) b = a \<and> galois_mul a b = galois_mul b a \<and>
   galois_mul (galois_mul a b) c = galois_mul a (galois_mul b c) \<and>
   galois_mul (galois_add a b) c = galois_add (galois_mul a c) (galois_mul b c) \<and>
   galois_mul a (Galois8 1) = a \<and>
   (galois_Value b \<noteq> 0 \<longrightarrow> galois_div (galois_mul a b) b = a \<and> galois_mul (galois_div a b) b = a \<and>
      galois_div_assign a b = galois_div a b)"
proof (intro conjI impI)
  show "galois_add (galois_add a b) c = galois_add a (galois_add b c)" "galois_add a b = galois_add b a"
    "galois_sub (galois_add a b) b = a"
    by (simp_all add: galois_add_def galois_sub_def word_xor_simps)
  show "galois_mul a b = galois_mul b a" by (rule galois_mul_commute)
  show "galois_mul (galois_mul a b) c = galois_mul a (galois_mul b c)" by (rule galois_mul_assoc)
  show "galois_mul (galois_add a b) c = galois_add (galois_mul a c) (galois_mul b c)"
    by (rule galois_mul_add_left)
  show "galois_mul a (Galois8 1) = a" using mult_1_right [of a] by (simp add: galois8_ops)
  assume b: "galois_Value b \<noteq> 0"
  then show "galois_div (galois_mul a b) b = a"
    using nonzero_mult_div_cancel_right [of b a] by (simp add: galois_Value_zero_iff galois8_ops)
  show "galois_mul (galois_div a b) b = a" using b by (intro galois_mul_div) auto
  show "galois_div_assign a b = galois_div a b"
    using b galois_div_assign_eq [of b a] by (simp add: galois_Value_zero_iff galois8_ops)
qed

theorem galois_operators_field_witness:
  "galois_div (galois_mul (Galois8 7) (Galois8 3)) (Galois8 3) = Galois8 7"
proof -
  have "galois_Value (Galois8 3) \<noteq> 0" by simp
  then show ?thesis using galois_operators_field [of "Galois8 7" "Galois8 3"] by blast
qed

text \<open>\<^verbatim>\<open>pow\<close> is repeated multiplication for every exponent up to 257, which covers the exponents
  of PAR1 recovery volumes.\<close>

lemma galois_pow_repeated:
  assumes "unat right \<le> 257"
  shows "galois_pow a right = Some (((\<lambda>x. galois_mul x a) ^^ unat right) (Galois8 1))"
proof -
  have "a ^ n = ((\<lambda>x. galois_mul x a) ^^ n) (Galois8 1)" for n
    by (induction n) (simp_all add: one_galois8_def times_galois8_def galois_mul_commute)
  then show ?thesis using galois_pow_power [OF assms] by simp
qed

text \<open>For any exponent the result is decided by the two digits of the product of the logarithm and the exponent:
  while their sum is below 510 it is the power, at 510 it is the zero behind the antilog table's period, and above that
  the table is read outside its bounds. The inverse of 2 to the power 65535 is such a case.\<close>

lemma galois_pow_digits:
  assumes a: "galois_Value a \<noteq> 0" and right: "right \<noteq> 0"
    and p: "p = galois_log (galois_Value a) * unat right" "p < 2 ^ 32" and r: "r = p div 256 + p mod 256"
  shows "galois_pow a right = (if r < 510 then Some (a ^ unat right) else if r = 510 then Some (Galois8 0) else None)"
proof (cases a rule: galois8_cases)
  case 1
  then show ?thesis using a by (simp add: galois_Value_zero_iff)
next
  case (2 n)
  have lg: "galois_log (galois_Value a) = n" using 2 by (simp add: galois8_table_facts)
  have m: "unat (word_of_nat n * right :: u32) = p"
    using 2(1) p(2) unfolding p(1) lg by (simp add: unat_word_ariths unat_of_nat)
  have red: "unat (drop_bit 8 (word_of_nat n * right) + (word_of_nat n * right AND 255) :: u32) = r"
    by (simp only: pow_reduce m r)
  have le: "255 \<le> drop_bit 8 (word_of_nat n * right) + (word_of_nat n * right AND 255) \<longleftrightarrow> 255 \<le> r"
    by (simp add: word_le_nat_alt red)
  have g: "galois_pow a right = (let ix = (if 255 \<le> r then r - 255 else r) in if ix < 256 then Some (Galois8 (galois_antilog ix)) else None)"
    using a right lg by (simp add: galois_pow_def Let_def red le)
  consider "r < 510" | "r = 510" | "510 < r" by linarith
  then show ?thesis
  proof cases
    case 1
    have "gpow (r mod 255) = gpow p" by (simp add: r mod_255_digits gpow_mod)
    moreover have "a ^ unat right = gpow p" using 2 p(1) lg by (simp add: gpow_power)
    moreover have "(if 255 \<le> r then r - 255 else r) = r mod 255" using 1 by (simp add: mod_if)
    ultimately show ?thesis using 1 by (simp add: g Let_def galois8_table_facts)
  next
    case 2
    then show ?thesis by (simp add: g Let_def galois8_table_facts)
  next
    case 3
    then show ?thesis by (simp add: g Let_def)
  qed
qed

lemma galois_pow_out_of_bounds: "galois_pow (Galois8 142) 65535 = None"
proof -
  have "(xtime8 ^^ 254) 1 = 142" unfolding funpow_iter by (simp add: iter.simps xtime8_def)
  then have "galois_log 142 = 254" using galois8_table_facts(4) [of 254] by simp
  then show ?thesis by (subst galois_pow_digits [OF _ _ refl _ refl]) simp_all
qed

end
