(* ===== verification/Gauss.thy ===== *)
theory Gauss
  imports Galois
begin

text \<open>
  \<^verbatim>\<open>ReedSolomon<g>::GaussElim\<close> of \<^verbatim>\<open>reedsolomon.h\<close>, a template over the number class and
  so polymorphic in the class \<open>field\<close> here. The two matrices are the flat row-major arrays of
  the code; \<open>mat_at\<close> is their indexing. The loops are translated to folds over the same
  index ranges, then described by what they do to an entry (\<open>gauss_entry\<close> facts), and the
  elimination is shown to keep the set of solutions of the linear system.
\<close>

named_theorems gauss_entry

section \<open>Row-major arrays\<close>

definition mat_at :: "nat \<Rightarrow> 'g list \<Rightarrow> nat \<Rightarrow> nat \<Rightarrow> 'g" where
  "mat_at cols m r c = m ! (r * cols + c)"

lemma mat_index_eq: "c < cols \<Longrightarrow> c' < cols \<Longrightarrow> r * cols + c = r' * cols + c' \<longleftrightarrow> r = r' \<and> c = c'"
  for r c cols :: nat
proof (rule iffI)
  assume c: "c < cols" "c' < cols" and eq: "r * cols + c = r' * cols + c'"
  from eq have "(r * cols + c) div cols = (r' * cols + c') div cols"
    "(r * cols + c) mod cols = (r' * cols + c') mod cols" by simp_all
  with c show "r = r' \<and> c = c'" by simp
qed simp

lemma mat_index_less: "r < rows \<Longrightarrow> c < cols \<Longrightarrow> r * cols + c < rows * cols" for r c cols :: nat
  by (metis add.commute mult.commute add_less_cancel_left less_le_trans mult_Suc_right mult_le_mono2 Suc_leI)

lemma mat_at_update:
  assumes "length m = rows * cols" "r < rows" "c < cols" "r' < rows" "c' < cols"
  shows "mat_at cols (m[r' * cols + c' := v]) r c = (if r = r' \<and> c = c' then v else mat_at cols m r c)"
  using assms mat_index_less [of r' rows c' cols] mat_index_eq [of c cols c' r r']
  by (auto simp: mat_at_def nth_list_update)

section \<open>The loops over the columns of one row\<close>

text \<open>Dividing the entries of a row from column \<open>lo\<close> on by the pivot value.\<close>

definition row_scale :: "nat \<Rightarrow> nat \<Rightarrow> nat \<Rightarrow> 'g::field \<Rightarrow> 'g list \<Rightarrow> 'g list" where
  "row_scale cols row lo pivotvalue m =
     fold (\<lambda>col m. if m ! (row * cols + col) \<noteq> 0
                   then m[row * cols + col := m ! (row * cols + col) / pivotvalue] else m)
       [lo..<cols] m"

text \<open>Subtracting row \<open>row\<close> from \<open>row2\<close> from column \<open>lo\<close> on, and the scaled version.\<close>

definition row_sub :: "nat \<Rightarrow> nat \<Rightarrow> nat \<Rightarrow> nat \<Rightarrow> 'g::field list \<Rightarrow> 'g list" where
  "row_sub cols row row2 lo m =
     fold (\<lambda>col m. if m ! (row * cols + col) \<noteq> 0
                   then m[row2 * cols + col := m ! (row2 * cols + col) - m ! (row * cols + col)] else m)
       [lo..<cols] m"

definition row_sub_scaled :: "nat \<Rightarrow> nat \<Rightarrow> nat \<Rightarrow> nat \<Rightarrow> 'g::field \<Rightarrow> 'g list \<Rightarrow> 'g list" where
  "row_sub_scaled cols row row2 lo scalevalue m =
     fold (\<lambda>col m. if m ! (row * cols + col) \<noteq> 0
                   then m[row2 * cols + col :=
                          m ! (row2 * cols + col) - m ! (row * cols + col) * scalevalue] else m)
       [lo..<cols] m"

section \<open>The elimination\<close>

text \<open>The body of the loop over every other row.\<close>

definition gauss_row2 ::
  "nat \<Rightarrow> nat \<Rightarrow> nat \<Rightarrow> nat \<Rightarrow> 'g::field list \<times> 'g list \<Rightarrow> 'g list \<times> 'g list" where
  "gauss_row2 rows leftcols row row2 lr =
     (let (leftmatrix, rightmatrix) = lr
      in if row \<noteq> row2
         then let scalevalue = rightmatrix ! (row2 * rows + row)
              in if scalevalue = 1
                 then (row_sub leftcols row row2 0 leftmatrix, row_sub rows row row2 row rightmatrix)
                 else if scalevalue \<noteq> 0
                 then (row_sub_scaled leftcols row row2 0 scalevalue leftmatrix,
                       row_sub_scaled rows row row2 row scalevalue rightmatrix)
                 else (leftmatrix, rightmatrix)
         else (leftmatrix, rightmatrix))"

text \<open>The body of the loop over the rows; \<open>None\<close> is \<^verbatim>\<open>"RS computation error."\<close>\<close>

definition gauss_scale :: "nat \<Rightarrow> nat \<Rightarrow> nat \<Rightarrow> 'g::field \<Rightarrow> 'g list \<times> 'g list \<Rightarrow> 'g list \<times> 'g list" where
  "gauss_scale rows leftcols row pivotvalue lr =
     (let (leftmatrix, rightmatrix) = lr
      in if pivotvalue \<noteq> 1
         then (row_scale leftcols row 0 pivotvalue leftmatrix,
               row_scale rows row (row + 1) pivotvalue (rightmatrix[row * rows + row := 1]))
         else (leftmatrix, rightmatrix))"

definition gauss_row ::
  "nat \<Rightarrow> nat \<Rightarrow> nat \<Rightarrow> 'g::field list \<times> 'g list \<Rightarrow> ('g list \<times> 'g list) option" where
  "gauss_row rows leftcols row lr =
     (let pivotvalue = snd lr ! (row * rows + row)
      in if pivotvalue = 0 then None
         else Some (fold (gauss_row2 rows leftcols row) [0..<rows]
                     (gauss_scale rows leftcols row pivotvalue lr)))"

fun gauss_elim_from ::
  "nat \<Rightarrow> nat \<Rightarrow> nat list \<Rightarrow> 'g::field list \<times> 'g list \<Rightarrow> ('g list \<times> 'g list) option" where
  "gauss_elim_from rows leftcols [] lr = Some lr"
| "gauss_elim_from rows leftcols (row # later) lr =
     (case gauss_row rows leftcols row lr of
        None \<Rightarrow> None
      | Some lr' \<Rightarrow> gauss_elim_from rows leftcols later lr')"

definition gauss_elim ::
  "nat \<Rightarrow> nat \<Rightarrow> nat \<Rightarrow> 'g::field list \<times> 'g list \<Rightarrow> ('g list \<times> 'g list) option" where
  "gauss_elim rows leftcols datamissing lr = gauss_elim_from rows leftcols [0..<datamissing] lr"

section \<open>What the loops do to an entry\<close>

text \<open>A loop over columns that rewrites row \<open>r0\<close>, each entry from the entries of its column.\<close>

lemma fold_columns:
  fixes m :: "'g list"
  assumes len: "length m = rows * cols" and "hi \<le> cols" and "r0 < rows"
    and step: "\<And>m' c. length m' = rows * cols \<Longrightarrow> c < cols \<Longrightarrow>
       (\<forall>r<rows. mat_at cols m' r c = mat_at cols m r c) \<Longrightarrow>
       step c m' = m'[r0 * cols + c := f c]"
  shows "length (fold step [lo..<hi] m) = rows * cols \<and>
    (\<forall>r<rows. \<forall>c<cols. mat_at cols (fold step [lo..<hi] m) r c =
       (if r = r0 \<and> lo \<le> c \<and> c < hi then f c else mat_at cols m r c))"
  using \<open>hi \<le> cols\<close>
proof (induction hi)
  case 0
  then show ?case using len by simp
next
  case (Suc hi)
  show ?case
  proof (cases "lo \<le> hi")
    case True
    let ?m = "fold step [lo..<hi] m"
    have IH: "length ?m = rows * cols"
      "\<forall>r<rows. \<forall>c<cols. mat_at cols ?m r c =
         (if r = r0 \<and> lo \<le> c \<and> c < hi then f c else mat_at cols m r c)"
      using Suc by auto
    then have "step hi ?m = ?m[r0 * cols + hi := f hi]"
      using Suc.prems by (intro step) auto
    then show ?thesis
      using True IH Suc.prems \<open>r0 < rows\<close> by (auto simp: mat_at_update less_Suc_eq)
  next
    case False
    then show ?thesis using len Suc by auto
  qed
qed

lemma list_update_noop: "xs ! i = v \<Longrightarrow> xs[i := v] = xs"
  by auto

lemma row_scale_entry [gauss_entry]:
  assumes "length m = rows * cols" "row < rows"
  shows "length (row_scale cols row lo p m) = rows * cols" (is ?len)
    and "r < rows \<Longrightarrow> c < cols \<Longrightarrow> mat_at cols (row_scale cols row lo p m) r c =
      (if r = row \<and> lo \<le> c then mat_at cols m r c / p else mat_at cols m r c)" (is "_ \<Longrightarrow> _ \<Longrightarrow> ?at")
proof -
  have "length (row_scale cols row lo p m) = rows * cols \<and>
    (\<forall>r<rows. \<forall>c<cols. mat_at cols (row_scale cols row lo p m) r c =
       (if r = row \<and> lo \<le> c \<and> c < cols then mat_at cols m row c / p else mat_at cols m r c))"
    unfolding row_scale_def
    by (rule fold_columns [OF assms(1) le_refl assms(2)])
      (use assms(2) in \<open>auto simp: mat_at_def list_update_noop\<close>)
  then show ?len and "r < rows \<Longrightarrow> c < cols \<Longrightarrow> ?at" by auto
qed

text \<open>
  The two subtraction loops are the same loop with scale 1; both leave row \<open>row\<close> alone.
  The column fact is stated for the entries of the two rows involved.
\<close>

lemma row_sub_conv: "row_sub cols row row2 lo m = row_sub_scaled cols row row2 lo 1 m"
  unfolding row_sub_def row_sub_scaled_def mult_1_right ..

lemma row_sub_scaled_entry [gauss_entry]:
  assumes "length m = rows * cols" "row < rows" "row2 < rows" "row \<noteq> row2"
  shows "length (row_sub_scaled cols row row2 lo s m) = rows * cols" (is ?len)
    and "r < rows \<Longrightarrow> c < cols \<Longrightarrow> mat_at cols (row_sub_scaled cols row row2 lo s m) r c =
      (if r = row2 \<and> lo \<le> c then mat_at cols m r c - mat_at cols m row c * s
       else mat_at cols m r c)" (is "_ \<Longrightarrow> _ \<Longrightarrow> ?at")
proof -
  have "length (row_sub_scaled cols row row2 lo s m) = rows * cols \<and>
    (\<forall>r<rows. \<forall>c<cols. mat_at cols (row_sub_scaled cols row row2 lo s m) r c =
       (if r = row2 \<and> lo \<le> c \<and> c < cols then mat_at cols m row2 c - mat_at cols m row c * s
        else mat_at cols m r c))"
    unfolding row_sub_scaled_def
    by (rule fold_columns [OF assms(1) le_refl assms(3)])
      (use assms in \<open>auto simp: mat_at_def list_update_noop\<close>)
  then show ?len and "r < rows \<Longrightarrow> c < cols \<Longrightarrow> ?at" by auto
qed

text \<open>Scaling the pivot row, entry by entry.\<close>

lemma gauss_scale_entry:
  assumes "length l = rows * lc" "length r = rows * rows" "k < rows"
    and p: "p = mat_at rows r k k" "p \<noteq> 0"
    and "gauss_scale rows lc k p (l, r) = (l', r')"
  shows "length l' = rows * lc" "length r' = rows * rows"
    and "i < rows \<Longrightarrow> c < lc \<Longrightarrow>
      mat_at lc l' i c = (if i = k then mat_at lc l i c / p else mat_at lc l i c)"
    and "i < rows \<Longrightarrow> c < rows \<Longrightarrow>
      mat_at rows r' i c = (if i = k \<and> k \<le> c then mat_at rows r i c / p else mat_at rows r i c)"
proof -
  have l': "l' = (if p \<noteq> 1 then row_scale lc k 0 p l else l)"
    and r': "r' = (if p \<noteq> 1 then row_scale rows k (k + 1) p (r[k * rows + k := 1]) else r)"
    using assms(6) by (auto simp: gauss_scale_def split: if_splits)
  show "length l' = rows * lc" "length r' = rows * rows"
    using assms by (auto simp: l' r' gauss_entry)
  show "i < rows \<Longrightarrow> c < lc \<Longrightarrow>
      mat_at lc l' i c = (if i = k then mat_at lc l i c / p else mat_at lc l i c)"
    using assms by (auto simp: l' gauss_entry)
  show "i < rows \<Longrightarrow> c < rows \<Longrightarrow>
      mat_at rows r' i c = (if i = k \<and> k \<le> c then mat_at rows r i c / p else mat_at rows r i c)"
    using assms(2,3) p by (auto simp: r' gauss_entry mat_at_update)
qed

text \<open>Clearing the pivot column of every other row.\<close>

lemma gauss_row2_entry:
  assumes "length l = rows * lc" "length r = rows * rows" "k < rows" "j < rows"
    and "gauss_row2 rows lc k j (l, r) = (l', r')"
  shows "length l' = rows * lc" "length r' = rows * rows"
    and "i < rows \<Longrightarrow> c < lc \<Longrightarrow> mat_at lc l' i c =
      (if i = j \<and> i \<noteq> k then mat_at lc l i c - mat_at lc l k c * mat_at rows r j k
       else mat_at lc l i c)"
    and "i < rows \<Longrightarrow> c < rows \<Longrightarrow> mat_at rows r' i c =
      (if i = j \<and> i \<noteq> k \<and> k \<le> c then mat_at rows r i c - mat_at rows r k c * mat_at rows r j k
       else mat_at rows r i c)"
proof -
  define s where "s = mat_at rows r j k"
  have l': "l' = (if k = j \<or> s = 0 then l else row_sub_scaled lc k j 0 s l)"
    and r': "r' = (if k = j \<or> s = 0 then r else row_sub_scaled rows k j k s r)"
    using assms(5) by (auto simp: gauss_row2_def Let_def row_sub_conv s_def mat_at_def split: if_splits)
  show "length l' = rows * lc" "length r' = rows * rows"
    using assms by (auto simp: l' r' gauss_entry)
  show "i < rows \<Longrightarrow> c < lc \<Longrightarrow> mat_at lc l' i c =
      (if i = j \<and> i \<noteq> k then mat_at lc l i c - mat_at lc l k c * mat_at rows r j k
       else mat_at lc l i c)"
    using assms by (auto simp: l' gauss_entry s_def [symmetric])
  show "i < rows \<Longrightarrow> c < rows \<Longrightarrow> mat_at rows r' i c =
      (if i = j \<and> i \<noteq> k \<and> k \<le> c then mat_at rows r i c - mat_at rows r k c * mat_at rows r j k
       else mat_at rows r i c)"
    using assms by (auto simp: r' gauss_entry s_def [symmetric])
qed

lemma gauss_rows_entry:
  assumes len: "length l = rows * lc" "length r = rows * rows" and "k < rows" and "h \<le> rows"
    and "fold (gauss_row2 rows lc k) [0..<h] (l, r) = (l', r')"
  shows "length l' = rows * lc \<and> length r' = rows * rows \<and>
    (\<forall>i<rows. \<forall>c<lc. mat_at lc l' i c =
      (if i < h \<and> i \<noteq> k then mat_at lc l i c - mat_at lc l k c * mat_at rows r i k
       else mat_at lc l i c)) \<and>
    (\<forall>i<rows. \<forall>c<rows. mat_at rows r' i c =
      (if i < h \<and> i \<noteq> k \<and> k \<le> c then mat_at rows r i c - mat_at rows r k c * mat_at rows r i k
       else mat_at rows r i c))"
  using assms(4,5)
proof (induction h arbitrary: l' r')
  case 0
  then show ?case using len by simp
next
  case (Suc h)
  obtain l1 r1 where lr1: "fold (gauss_row2 rows lc k) [0..<h] (l, r) = (l1, r1)" by fastforce
  with Suc have step: "gauss_row2 rows lc k h (l1, r1) = (l', r')" by simp
  have IH: "length l1 = rows * lc" "length r1 = rows * rows"
    "\<And>i c. i < rows \<Longrightarrow> c < lc \<Longrightarrow> mat_at lc l1 i c =
      (if i < h \<and> i \<noteq> k then mat_at lc l i c - mat_at lc l k c * mat_at rows r i k
       else mat_at lc l i c)"
    "\<And>i c. i < rows \<Longrightarrow> c < rows \<Longrightarrow> mat_at rows r1 i c =
      (if i < h \<and> i \<noteq> k \<and> k \<le> c then mat_at rows r i c - mat_at rows r k c * mat_at rows r i k
       else mat_at rows r i c)"
    using Suc.IH [OF _ lr1] Suc.prems(1) by auto
  have "h < rows" using Suc.prems by simp
  note entry = gauss_row2_entry [OF IH(1,2) \<open>k < rows\<close> this step]
  show ?case
    using entry IH(3,4) \<open>h < rows\<close> \<open>k < rows\<close> by (auto simp: less_Suc_eq)
qed

text \<open>One whole round: the pivot row is divided by the pivot, the others are cleared.\<close>

lemma gauss_row_entry:
  assumes len: "length l = rows * lc" "length r = rows * rows" and "k < rows"
    and "gauss_row rows lc k (l, r) = Some (l', r')"
  defines "p \<equiv> mat_at rows r k k"
  shows "p \<noteq> 0" "length l' = rows * lc" "length r' = rows * rows"
    and "i < rows \<Longrightarrow> c < lc \<Longrightarrow> mat_at lc l' i c =
      (if i = k then mat_at lc l k c / p
       else mat_at lc l i c - mat_at lc l k c / p * mat_at rows r i k)"
    and "i < rows \<Longrightarrow> c < rows \<Longrightarrow> mat_at rows r' i c =
      (if c < k then mat_at rows r i c
       else if i = k then mat_at rows r k c / p
       else mat_at rows r i c - mat_at rows r k c / p * mat_at rows r i k)"
proof -
  obtain l1 r1 where lr1: "gauss_scale rows lc k p (l, r) = (l1, r1)" by fastforce
  from assms(4) show "p \<noteq> 0"
    by (auto simp: gauss_row_def p_def mat_at_def Let_def split: if_splits)
  with assms(4) have f: "fold (gauss_row2 rows lc k) [0..<rows] (l1, r1) = (l', r')"
    by (auto simp: gauss_row_def p_def mat_at_def Let_def lr1 [unfolded p_def mat_at_def])
  note sc = gauss_scale_entry [OF len \<open>k < rows\<close> meta_eq_to_obj_eq [OF p_def] \<open>p \<noteq> 0\<close> lr1]
  note rs = gauss_rows_entry [OF sc(1,2) \<open>k < rows\<close> le_refl f]
  from rs show "length l' = rows * lc" "length r' = rows * rows" by auto
  show "i < rows \<Longrightarrow> c < lc \<Longrightarrow> mat_at lc l' i c =
      (if i = k then mat_at lc l k c / p
       else mat_at lc l i c - mat_at lc l k c / p * mat_at rows r i k)"
    using rs sc(3,4) \<open>k < rows\<close> by auto
  show "i < rows \<Longrightarrow> c < rows \<Longrightarrow> mat_at rows r' i c =
      (if c < k then mat_at rows r i c
       else if i = k then mat_at rows r k c / p
       else mat_at rows r i c - mat_at rows r k c / p * mat_at rows r i k)"
    using rs sc(4) \<open>k < rows\<close> by auto
qed

section \<open>Elimination keeps the solutions and ends at the identity\<close>

text \<open>
  \<open>solves\<close>: the unknowns \<open>y\<close> and the known values \<open>x\<close> satisfy every row of the system
  \<open>leftmatrix x = rightmatrix y\<close>. \<open>unit_on S\<close>: the columns of \<open>S\<close> in the right matrix are
  those of the identity.
\<close>

definition solves ::
  "nat \<Rightarrow> nat \<Rightarrow> 'g::field list \<times> 'g list \<Rightarrow> (nat \<Rightarrow> 'g) \<Rightarrow> (nat \<Rightarrow> 'g) \<Rightarrow> bool" where
  "solves rows lc lr x y \<longleftrightarrow>
     (\<forall>i<rows. (\<Sum>c<lc. mat_at lc (fst lr) i c * x c) = (\<Sum>c<rows. mat_at rows (snd lr) i c * y c))"

definition unit_on :: "nat set \<Rightarrow> nat \<Rightarrow> 'g::field list \<Rightarrow> bool" where
  "unit_on S rows r \<longleftrightarrow> (\<forall>i<rows. \<forall>c\<in>S. c < rows \<longrightarrow> mat_at rows r i c = (if i = c then 1 else 0))"

definition sized :: "nat \<Rightarrow> nat \<Rightarrow> 'g list \<times> 'g list \<Rightarrow> bool" where
  "sized rows lc lr \<longleftrightarrow> length (fst lr) = rows * lc \<and> length (snd lr) = rows * rows"

lemma gauss_row_unit:
  assumes "sized rows lc lr" "k < rows" "gauss_row rows lc k lr = Some lr'"
    and U: "unit_on S rows (snd lr)" "{..<k} \<subseteq> S" "k \<notin> S"
  shows "unit_on (insert k S) rows (snd lr')"
proof -
  obtain l r l' r' where lr: "lr = (l, r)" "lr' = (l', r')" by (cases lr, cases lr')
  note e = gauss_row_entry [of l rows lc r k l' r']
  have facts: "length l = rows * lc" "length r = rows * rows" "gauss_row rows lc k (l, r) = Some (l', r')"
    using assms lr by (simp_all add: sized_def)
  note e = gauss_row_entry [OF facts(1,2) \<open>k < rows\<close> facts(3)]
  show ?thesis
    unfolding unit_on_def
  proof (intro allI ballI impI)
    fix i c assume "i < rows" "c \<in> insert k S" "c < rows"
    show "mat_at rows (snd lr') i c = (if i = c then 1 else 0)"
    proof (cases "c = k")
      case True
      then show ?thesis using e(1,5) \<open>i < rows\<close> \<open>c < rows\<close> lr by auto
    next
      case False
      with \<open>c \<in> insert k S\<close> have "c \<in> S" by simp
      with U lr have "\<And>j. j < rows \<Longrightarrow> mat_at rows r j c = (if j = c then 1 else 0)"
        using \<open>c < rows\<close> by (simp add: unit_on_def)
      then show ?thesis using e(5) False \<open>i < rows\<close> \<open>c < rows\<close> \<open>k < rows\<close> lr by auto
    qed
  qed
qed

lemma gauss_row_sized:
  "sized rows lc lr \<Longrightarrow> k < rows \<Longrightarrow> gauss_row rows lc k lr = Some lr' \<Longrightarrow> sized rows lc lr'"
  using gauss_row_entry(2,3) [of "fst lr" rows lc "snd lr" k "fst lr'" "snd lr'"]
  by (simp add: sized_def)

lemma sum_row_op:
  "(\<Sum>c\<in>A. (f c - g c * s / p) * x c) = (\<Sum>c\<in>A. f c * x c) - (\<Sum>c\<in>A. g c * x c) * s / p"
  for f g x :: "nat \<Rightarrow> 'g::field"
proof -
  have "(f c - g c * s / p) * x c = f c * x c - g c * x c * (s / p)" for c
    by (simp add: algebra_simps)
  then have "(\<Sum>c\<in>A. (f c - g c * s / p) * x c) = (\<Sum>c\<in>A. f c * x c) - (\<Sum>c\<in>A. g c * x c) * (s / p)"
    by (simp only: sum_subtractf sum_distrib_right)
  then show ?thesis by simp
qed

lemma gauss_row_solves:
  assumes "sized rows lc lr" "k < rows" "gauss_row rows lc k lr = Some lr'"
    and U: "unit_on {..<k} rows (snd lr)" and S: "solves rows lc lr x y"
  shows "solves rows lc lr' x y"
proof -
  obtain l r l' r' where lr: "lr = (l, r)" "lr' = (l', r')" by (cases lr, cases lr')
  have facts: "length l = rows * lc" "length r = rows * rows" "gauss_row rows lc k (l, r) = Some (l', r')"
    using assms lr by (simp_all add: sized_def)
  note e = gauss_row_entry [OF facts(1,2) \<open>k < rows\<close> facts(3)]
  define p where "p = mat_at rows r k k"
  have zero: "c < k \<Longrightarrow> mat_at rows r k c = 0" for c
    using U \<open>k < rows\<close> lr by (simp add: unit_on_def)
  have R: "c < rows \<Longrightarrow> i < rows \<Longrightarrow> mat_at rows r' i c =
     (if i = k then mat_at rows r k c / p
      else mat_at rows r i c - mat_at rows r k c / p * mat_at rows r i k)" for i c
    using e(5) zero by (auto simp: p_def)
  have S': "i < rows \<Longrightarrow> (\<Sum>c<lc. mat_at lc l i c * x c) = (\<Sum>c<rows. mat_at rows r i c * y c)" for i
    using S lr by (simp add: solves_def)
  have "(\<Sum>c<lc. mat_at lc l' i c * x c) = (\<Sum>c<rows. mat_at rows r' i c * y c)" if "i < rows" for i
  proof (cases "i = k")
    case True
    then show ?thesis
      using that S' [of k] \<open>k < rows\<close>
      by (simp add: e(4) R p_def [symmetric] sum_divide_distrib [symmetric])
  next
    case False
    have "(\<Sum>c<lc. mat_at lc l' i c * x c)
       = (\<Sum>c<lc. mat_at lc l i c * x c) - (\<Sum>c<lc. mat_at lc l k c * x c) * (mat_at rows r i k / p)"
      using False that
      by (simp add: e(4) p_def [symmetric] sum_row_op)
    also have "\<dots> = (\<Sum>c<rows. mat_at rows r i c * y c)
        - (\<Sum>c<rows. mat_at rows r k c * y c) * (mat_at rows r i k / p)"
      by (simp only: S' that \<open>k < rows\<close>)
    also have "\<dots> = (\<Sum>c<rows. mat_at rows r' i c * y c)"
      using False that
      by (simp add: R sum_row_op)
    finally show ?thesis .
  qed
  then show ?thesis using lr by (simp add: solves_def)
qed

lemma gauss_elim_from_correct:
  assumes "sized rows lc lr" "k + n \<le> rows" "gauss_elim_from rows lc [k..<k + n] lr = Some lr'"
    and "unit_on S rows (snd lr)" "{..<k} \<subseteq> S" "S \<inter> {k..<k + n} = {}" and "solves rows lc lr x y"
  shows "sized rows lc lr' \<and> unit_on (S \<union> {k..<k + n}) rows (snd lr') \<and> solves rows lc lr' x y"
  using assms
proof (induction n arbitrary: k S lr)
  case 0
  then show ?case by simp
next
  case (Suc n)
  have upt: "[k..<k + Suc n] = k # [Suc k..<Suc k + n]" by (subst upt_conv_Cons) simp_all
  from Suc.prems(3) obtain lr1 where lr1: "gauss_row rows lc k lr = Some lr1"
    "gauss_elim_from rows lc [Suc k..<Suc k + n] lr1 = Some lr'"
    unfolding upt by (auto split: option.splits)
  have "k < rows" and U: "unit_on {..<k} rows (snd lr)"
    using Suc.prems by (auto simp: unit_on_def)
  have "k \<notin> S" using Suc.prems(6) by auto
  have "sized rows lc lr1" "unit_on (insert k S) rows (snd lr1)" "solves rows lc lr1 x y"
    using gauss_row_sized gauss_row_unit gauss_row_solves Suc.prems \<open>k < rows\<close> U \<open>k \<notin> S\<close> lr1(1)
    by blast+
  then have "sized rows lc lr' \<and> unit_on (insert k S \<union> {Suc k..<Suc k + n}) rows (snd lr') \<and>
      solves rows lc lr' x y"
    using Suc.prems by (intro Suc.IH [OF _ _ lr1(2)]) (auto simp: lessThan_Suc)
  moreover have "insert k S \<union> {Suc k..<Suc k + n} = S \<union> {k..<k + Suc n}" by auto
  ultimately show ?case by simp
qed

text \<open>
  The contract of the elimination: from a right matrix that is the identity in the columns
  the loop does not visit it ends with the identity, so the rows of the left matrix then
  give the unknowns directly.
\<close>

lemma gauss_elim_solved:
  assumes "sized rows lc lr" "n \<le> rows" "gauss_elim rows lc n lr = Some lr'"
    and "unit_on {n..} rows (snd lr)" and "solves rows lc lr x y" and "i < rows"
  shows "(\<Sum>c<lc. mat_at lc (fst lr') i c * x c) = y i"
proof -
  have "sized rows lc lr' \<and> unit_on ({n..} \<union> {0..<0 + n}) rows (snd lr') \<and> solves rows lc lr' x y"
    using assms by (intro gauss_elim_from_correct) (auto simp: gauss_elim_def)
  moreover have "{n..} \<union> {0..<0 + n} = UNIV" by auto
  ultimately have U: "unit_on UNIV rows (snd lr')" and S: "solves rows lc lr' x y" by simp_all
  have "(\<Sum>c<lc. mat_at lc (fst lr') i c * x c) = (\<Sum>c<rows. mat_at rows (snd lr') i c * y c)"
    using S \<open>i < rows\<close> by (simp add: solves_def)
  also have "\<dots> = (\<Sum>c<rows. if c = i then y c else 0)"
    using U \<open>i < rows\<close> by (intro sum.cong) (auto simp: unit_on_def)
  also have "\<dots> = y i" using \<open>i < rows\<close> by simp
  finally show ?thesis .
qed

end
