(* ===== verification/LeType.thy ===== *)
theory LeType
  imports Prelude
begin

unbundle bit_operations_syntax

text \<open>
  \<^verbatim>\<open>letype.h\<close>: the little endian integers \<^verbatim>\<open>leu16\<close>, \<^verbatim>\<open>leu32\<close> and \<^verbatim>\<open>leu64\<close> of the file
  formats, as what they leave in memory. The assignment operators give the bytes, the
  conversion operators read them back; a conversion that does not find enough bytes has no
  value. Round trips in both directions are collected in \<open>le_roundtrip\<close>.
\<close>

named_theorems le_roundtrip

definition leu16_bytes :: "u16 \<Rightarrow> bytes" where
  "leu16_bytes v = [ucast (drop_bit 0 v AND 0xff), ucast (drop_bit 8 v AND 0xff)]"

fun leu16_value :: "bytes \<Rightarrow> u16 option" where
  "leu16_value [b0, b1] = Some (push_bit 0 (ucast b0) OR push_bit 8 (ucast b1))"
| "leu16_value _ = None"

definition leu32_bytes :: "u32 \<Rightarrow> bytes" where
  "leu32_bytes v =
     [ucast (drop_bit 0 v AND 0xff), ucast (drop_bit 8 v AND 0xff),
      ucast (drop_bit 16 v AND 0xff), ucast (drop_bit 24 v AND 0xff)]"

fun leu32_value :: "bytes \<Rightarrow> u32 option" where
  "leu32_value [b0, b1, b2, b3] =
     Some (push_bit 0 (ucast b0) OR push_bit 8 (ucast b1) OR
           push_bit 16 (ucast b2) OR push_bit 24 (ucast b3))"
| "leu32_value _ = None"

definition leu64_bytes :: "u64 \<Rightarrow> bytes" where
  "leu64_bytes v =
     [ucast (drop_bit 0 v AND 0xff), ucast (drop_bit 8 v AND 0xff),
      ucast (drop_bit 16 v AND 0xff), ucast (drop_bit 24 v AND 0xff),
      ucast (drop_bit 32 v AND 0xff), ucast (drop_bit 40 v AND 0xff),
      ucast (drop_bit 48 v AND 0xff), ucast (drop_bit 56 v AND 0xff)]"

fun leu64_value :: "bytes \<Rightarrow> u64 option" where
  "leu64_value [b0, b1, b2, b3, b4, b5, b6, b7] =
     Some (push_bit 0 (ucast b0) OR push_bit 8 (ucast b1) OR
           push_bit 16 (ucast b2) OR push_bit 24 (ucast b3) OR
           push_bit 32 (ucast b4) OR push_bit 40 (ucast b5) OR
           push_bit 48 (ucast b6) OR push_bit 56 (ucast b7))"
| "leu64_value _ = None"

section \<open>Round trips\<close>

lemma byte_mask: "ucast (w AND 0xff) = (ucast w :: u8)" for w :: "'a::len word"
proof -
  have "w AND 0xff = take_bit 8 w" by (simp add: take_bit_eq_mask mask_eq_exp_minus_1)
  then show ?thesis by (auto intro!: bit_eqI simp: bit_simps)
qed

lemma leu16_bytes_eq: "leu16_bytes v = [ucast v, ucast (drop_bit 8 v)]"
  by (simp add: leu16_bytes_def byte_mask)

lemma leu32_bytes_eq:
  "leu32_bytes v = [ucast v, ucast (drop_bit 8 v), ucast (drop_bit 16 v), ucast (drop_bit 24 v)]"
  by (simp add: leu32_bytes_def byte_mask)

lemma leu64_bytes_eq:
  "leu64_bytes v = [ucast v, ucast (drop_bit 8 v), ucast (drop_bit 16 v), ucast (drop_bit 24 v),
     ucast (drop_bit 32 v), ucast (drop_bit 40 v), ucast (drop_bit 48 v), ucast (drop_bit 56 v)]"
  by (simp add: leu64_bytes_def byte_mask)

lemma length_leu [simp]:
  "length (leu16_bytes a) = 2" "length (leu32_bytes b) = 4" "length (leu64_bytes c) = 8"
  by (simp_all add: leu16_bytes_def leu32_bytes_def leu64_bytes_def)

text \<open>The byte of a value that sits at bit \<open>k\<close>, put back in its place.\<close>

lemma bit_byte_at:
  "bit (push_bit k (ucast (ucast (drop_bit k v) :: u8) :: 'a::len word)) n \<longleftrightarrow>
     k \<le> n \<and> n < k + 8 \<and> bit v n" for v :: "'a::len word"
  by (auto simp: bit_simps dest: bit_imp_le_length)

lemma bit_byte_0: "bit (ucast (ucast v :: u8) :: 'a::len word) n \<longleftrightarrow> n < 8 \<and> bit v n" for v :: "'a::len word"
  using bit_byte_at [of 0 v n] by simp

lemma bit_u8_ge [simp]: "8 \<le> n \<Longrightarrow> \<not> bit (b::u8) n"
  using bit_imp_le_length [of b n] by auto

lemma leu16_roundtrip [le_roundtrip]: "leu16_value (leu16_bytes v) = Some v"
  unfolding leu16_bytes_eq leu16_value.simps option.inject
  by (rule bit_eqI) (auto simp: bit_or_iff bit_byte_at bit_byte_0 dest: bit_imp_le_length)

lemma leu32_roundtrip [le_roundtrip]: "leu32_value (leu32_bytes v) = Some v"
proof -
  have "n < 32 \<Longrightarrow> n < 8 \<or> 8 \<le> n \<and> n < 16 \<or> 16 \<le> n \<and> n < 24 \<or> 24 \<le> n \<and> n < 32" for n :: nat
    by linarith
  then show ?thesis
    unfolding leu32_bytes_eq leu32_value.simps option.inject
    by (intro bit_eqI) (auto simp: bit_or_iff bit_byte_at bit_byte_0)
qed

lemma leu64_roundtrip [le_roundtrip]: "leu64_value (leu64_bytes v) = Some v"
proof -
  have "n < 64 \<Longrightarrow> n < 8 \<or> 8 \<le> n \<and> n < 16 \<or> 16 \<le> n \<and> n < 24 \<or> 24 \<le> n \<and> n < 32 \<or>
    32 \<le> n \<and> n < 40 \<or> 40 \<le> n \<and> n < 48 \<or> 48 \<le> n \<and> n < 56 \<or> 56 \<le> n \<and> n < 64" for n :: nat
    by linarith
  then show ?thesis
    unfolding leu64_bytes_eq leu64_value.simps option.inject
    by (intro bit_eqI) (auto simp: bit_or_iff bit_byte_at bit_byte_0)
qed

lemma leu32_bytes_value [le_roundtrip]: "leu32_value bs = Some v \<Longrightarrow> leu32_bytes v = bs"
  by (cases bs rule: leu32_value.cases)
    (auto simp: leu32_bytes_eq bit_simps intro!: bit_eqI dest: bit_imp_le_length)

lemma leu64_bytes_value [le_roundtrip]: "leu64_value bs = Some v \<Longrightarrow> leu64_bytes v = bs"
  by (cases bs rule: leu64_value.cases)
    (auto simp: leu64_bytes_eq bit_simps intro!: bit_eqI dest: bit_imp_le_length)

section \<open>Words seen as their bytes\<close>

lemma leu32_bytes_xor:
  "leu32_bytes (d XOR (ucast a0 XOR push_bit 8 (ucast a1) XOR push_bit 16 (ucast a2) XOR push_bit 24 (ucast a3)))
   = map2 (XOR) (leu32_bytes d) [a0, a1, a2, a3 :: u8]"
  by (auto simp: leu32_bytes_eq bit_simps intro!: bit_eqI)

lemma unat_byte: "unat (w AND 0xff :: u32) = unat (ucast w :: u8)"
proof -
  have "unat (w AND 0xff) = unat (ucast (w AND 0xff) :: u8)"
  proof -
    have "w AND 0xff = take_bit 8 w" by (simp add: take_bit_eq_mask mask_eq_exp_minus_1)
    then show ?thesis by (simp add: unsigned_ucast_eq unsigned_take_bit_eq)
  qed
  then show ?thesis by (simp add: byte_mask)
qed

section \<open>Properties\<close>

text \<open>Storing a 16, 32 or 64 bit value and loading it gives the value back, and the bytes a 32 or
  64 bit field was loaded from are the bytes storing the value produces.\<close>

lemma le_store_load:
  "leu16_value (leu16_bytes a) = Some a \<and> leu32_value (leu32_bytes b) = Some b \<and>
   leu64_value (leu64_bytes c) = Some c \<and>
   map_option leu32_bytes (leu32_value bs) = (if length bs = 4 then Some bs else None) \<and>
   map_option leu64_bytes (leu64_value bs) = (if length bs = 8 then Some bs else None)"
proof -
  have "leu32_value bs = None \<longleftrightarrow> length bs \<noteq> 4" "leu64_value bs = None \<longleftrightarrow> length bs \<noteq> 8"
    by (cases bs rule: leu32_value.cases; simp) (cases bs rule: leu64_value.cases; simp)
  then show ?thesis
    using leu32_bytes_value [of bs] leu64_bytes_value [of bs]
    by (cases "leu32_value bs"; cases "leu64_value bs") (auto simp: leu16_roundtrip leu32_roundtrip leu64_roundtrip)
qed

end
