(* ===== verification/ReedSolomon.thy ===== *)
theory ReedSolomon
  imports Gauss LeType "HOL-Library.Monad_Syntax"
begin

unbundle bit_operations_syntax

text \<open>
  \<^verbatim>\<open>reedsolomon.h\<close> and \<^verbatim>\<open>reedsolomon.cpp\<close>: the \<^verbatim>\<open>ReedSolomon<Galois8>\<close> object the PAR1
  repairer drives. Its state is a record; \<open>rs_set_input\<close>, \<open>rs_set_output\<close>, \<open>rs_compute\<close>
  and \<open>rs_process\<close> are its operations. The theorems say that a computed matrix maps the
  available blocks to the missing ones, whatever blocks those are.
\<close>

section \<open>The greatest common divisor helper\<close>

function gcd_loop :: "nat \<Rightarrow> nat \<Rightarrow> nat" where
  "gcd_loop a b =
     (if a \<noteq> 0 \<and> b \<noteq> 0 then (if a > b then gcd_loop (a mod b) b else gcd_loop a (b mod a))
      else a + b)"
  by pat_completeness auto
termination
  by (relation "measure (\<lambda>(a, b). a + b)")
    (auto simp: not_less intro: less_trans [OF mod_less_divisor] less_le_trans [OF mod_less_divisor])

declare gcd_loop.simps [simp del]

definition rs_gcd :: "nat \<Rightarrow> nat \<Rightarrow> nat" where
  "rs_gcd a b = (if a \<noteq> 0 \<and> b \<noteq> 0 then gcd_loop a b else 0)"

section \<open>The state\<close>

record rs_outputrow =
  row_present :: bool
  row_exponent :: u16

record rs =
  rs_inputcount :: nat
  rs_datapresent :: nat
  rs_datamissing :: nat
  rs_datapresentindex :: "nat list"
  rs_datamissingindex :: "nat list"
  rs_database :: "u8 list"
  rs_outputcount :: nat
  rs_parpresent :: nat
  rs_parmissing :: nat
  rs_outputrows :: "rs_outputrow list"
  rs_leftmatrix :: "galois8 list"

definition rs_new :: rs where
  "rs_new = \<lparr>rs_inputcount = 0, rs_datapresent = 0, rs_datamissing = 0,
     rs_datapresentindex = [], rs_datamissingindex = [], rs_database = [],
     rs_outputcount = 0, rs_parpresent = 0, rs_parmissing = 0, rs_outputrows = [],
     rs_leftmatrix = []\<rparr>"

datatype rs_error = RS_NotEnoughRecovery | RS_NoOutputBlocks | RS_ComputationError | RS_OutOfBounds

section \<open>Inputs and outputs\<close>

text \<open>
  The loop of \<^verbatim>\<open>SetInput(present)\<close>. The three arrays have \<^verbatim>\<open>inputcount\<close> entries each; the
  running base value is a byte and wraps.
\<close>

fun rs_input_loop :: "bool list \<Rightarrow> nat \<Rightarrow> u8 \<Rightarrow> rs \<Rightarrow> rs option" where
  "rs_input_loop [] index base s = Some s"
| "rs_input_loop (p # ps) index base s =
     do {
       s \<leftarrow> (if p
             then do { xs \<leftarrow> put_at (rs_datapresent s) index (rs_datapresentindex s);
                       Some (s\<lparr>rs_datapresentindex := xs, rs_datapresent := rs_datapresent s + 1\<rparr>) }
             else do { xs \<leftarrow> put_at (rs_datamissing s) index (rs_datamissingindex s);
                       Some (s\<lparr>rs_datamissingindex := xs, rs_datamissing := rs_datamissing s + 1\<rparr>) });
       xs \<leftarrow> put_at index base (rs_database s);
       rs_input_loop ps (index + 1) (base + 1) (s\<lparr>rs_database := xs\<rparr>)
     }"

definition rs_set_input :: "bool list \<Rightarrow> rs \<Rightarrow> rs option" where
  "rs_set_input present s =
     (let n = length present
      in rs_input_loop present 0 1
           (s\<lparr>rs_inputcount := n, rs_datapresentindex := replicate n 0,
              rs_datamissingindex := replicate n 0, rs_database := replicate n 0\<rparr>))"

text \<open>\<^verbatim>\<open>SetInput(count)\<close>: every block is present.\<close>

fun rs_count_loop :: "nat \<Rightarrow> nat \<Rightarrow> u8 \<Rightarrow> rs \<Rightarrow> rs option" where
  "rs_count_loop 0 index base s = Some s"
| "rs_count_loop (Suc n) index base s =
     do {
       xs \<leftarrow> put_at (rs_datapresent s) index (rs_datapresentindex s);
       ys \<leftarrow> put_at index base (rs_database s);
       rs_count_loop n (index + 1) (base + 1)
         (s\<lparr>rs_datapresentindex := xs, rs_datapresent := rs_datapresent s + 1, rs_database := ys\<rparr>)
     }"

definition rs_set_input_count :: "nat \<Rightarrow> rs \<Rightarrow> rs option" where
  "rs_set_input_count count s =
     rs_count_loop count 0 1
       (s\<lparr>rs_inputcount := count, rs_datapresentindex := replicate count 0,
          rs_datamissingindex := replicate count 0, rs_database := replicate count 0\<rparr>)"

definition rs_set_output :: "bool \<Rightarrow> u16 \<Rightarrow> rs \<Rightarrow> rs" where
  "rs_set_output present exponent s =
     (let s = s\<lparr>rs_outputrows := rs_outputrows s @ [\<lparr>row_present = present, row_exponent = exponent\<rparr>],
                rs_outputcount := rs_outputcount s + 1\<rparr>
      in if present then s\<lparr>rs_parpresent := rs_parpresent s + 1\<rparr>
         else s\<lparr>rs_parmissing := rs_parmissing s + 1\<rparr>)"

text \<open>The range version counts the exponents in an \<^verbatim>\<open>unsigned int\<close>, so it ends at 65535.\<close>

definition rs_set_output_range :: "bool \<Rightarrow> u16 \<Rightarrow> u16 \<Rightarrow> rs \<Rightarrow> rs" where
  "rs_set_output_range present lowexponent highexponent s =
     fold (\<lambda>exponent. rs_set_output present (word_of_nat exponent))
       [unat lowexponent..<Suc (unat highexponent)] s"

section \<open>The matrix\<close>

text \<open>The powers of the base values of the blocks with indices \<open>ixs\<close>.\<close>

definition rs_powers :: "rs \<Rightarrow> nat list \<Rightarrow> u16 \<Rightarrow> galois8 list option" where
  "rs_powers s ixs exponent =
     those (map (\<lambda>ix. galois_pow (Galois8 (rs_database s ! ix)) (ucast exponent)) ixs)"

text \<open>
  The two loops that fill in the matrices, one row of both at a time. The iterator skips
  to the next output row of the wanted kind; running off the end of the vector has no
  value. Without missing data there is no right matrix.
\<close>

fun rs_fill_present ::
  "rs \<Rightarrow> nat \<Rightarrow> nat \<Rightarrow> rs_outputrow list \<Rightarrow> (galois8 list \<times> galois8 list) option" where
  "rs_fill_present s row 0 outputrow = Some ([], [])"
| "rs_fill_present s row (Suc n) outputrow =
     (case dropWhile (\<lambda>r. \<not> row_present r) outputrow of
        [] \<Rightarrow> None
      | r # outputrow \<Rightarrow>
          do {
            l \<leftarrow> rs_powers s (take (rs_datapresent s) (rs_datapresentindex s)) (row_exponent r);
            m \<leftarrow> (if rs_datamissing s > 0
                 then do { m \<leftarrow> rs_powers s (take (rs_datamissing s) (rs_datamissingindex s)) (row_exponent r);
                           Some (m @ replicate (rs_parmissing s) 0) }
                 else Some []);
            (ls, ms) \<leftarrow> rs_fill_present s (row + 1) n outputrow;
            Some (l @ map (\<lambda>col. if row = col then 1 else 0) [0..<rs_datamissing s] @ ls, m @ ms)
          })"

fun rs_fill_missing ::
  "rs \<Rightarrow> nat \<Rightarrow> nat \<Rightarrow> rs_outputrow list \<Rightarrow> (galois8 list \<times> galois8 list) option" where
  "rs_fill_missing s row 0 outputrow = Some ([], [])"
| "rs_fill_missing s row (Suc n) outputrow =
     (case dropWhile row_present outputrow of
        [] \<Rightarrow> None
      | r # outputrow \<Rightarrow>
          do {
            l \<leftarrow> rs_powers s (take (rs_datapresent s) (rs_datapresentindex s)) (row_exponent r);
            m \<leftarrow> (if rs_datamissing s > 0
                 then do { m \<leftarrow> rs_powers s (take (rs_datamissing s) (rs_datamissingindex s)) (row_exponent r);
                           Some (m @ map (\<lambda>col. if row = col then 1 else 0) [0..<rs_parmissing s]) }
                 else Some []);
            (ls, ms) \<leftarrow> rs_fill_missing s (row + 1) n outputrow;
            Some (l @ replicate (rs_datamissing s) 0 @ ls, m @ ms)
          })"

definition rs_matrices :: "rs \<Rightarrow> (galois8 list \<times> galois8 list) option" where
  "rs_matrices s =
     do {
       (l1, m1) \<leftarrow> rs_fill_present s 0 (rs_datamissing s) (rs_outputrows s);
       (l2, m2) \<leftarrow> rs_fill_missing s 0 (rs_parmissing s) (rs_outputrows s);
       Some (l1 @ l2, m1 @ m2)
     }"

definition rs_compute :: "rs \<Rightarrow> rs_error + rs" where
  "rs_compute s =
     (let outcount = rs_datamissing s + rs_parmissing s;
          incount = rs_datapresent s + rs_datamissing s
      in if rs_datamissing s > rs_parpresent s then Inl RS_NotEnoughRecovery
         else if outcount = 0 then Inl RS_NoOutputBlocks
         else case rs_matrices s of
                None \<Rightarrow> Inl RS_OutOfBounds
              | Some (leftmatrix, rightmatrix) \<Rightarrow>
                  if rs_datamissing s > 0
                  then (case gauss_elim outcount incount (rs_datamissing s) (leftmatrix, rightmatrix) of
                          None \<Rightarrow> Inl RS_ComputationError
                        | Some (leftmatrix, _) \<Rightarrow> Inr (s\<lparr>rs_leftmatrix := leftmatrix\<rparr>))
                  else Inr (s\<lparr>rs_leftmatrix := leftmatrix\<rparr>))"

section \<open>Processing a block\<close>

text \<open>\<^verbatim>\<open>GaloisLongMultiplyTable<Galois8>\<close>: one table (\<^verbatim>\<open>Bytes\<close> is 1) of all products.\<close>

definition galois_long_table :: "galois8 list" where
  "galois_long_table =
     concat (map (\<lambda>ii. map (\<lambda>jj. galois_mul (Galois8 (word_of_nat ii)) (Galois8 (word_of_nat jj)))
       [0..<256]) [0..<256])"

definition rs_factor_table :: "galois8 \<Rightarrow> u32 list" where
  "rs_factor_table factor =
     (let fl = unat (galois_Value factor)
      in map (\<lambda>i. ucast (galois_Value (galois_long_table ! ((0 * 256 + fl) * 256 + i)))) [0..<256])"

text \<open>
  The word loop and the byte loop of \<^verbatim>\<open>InternalProcess\<close>: four bytes at a time while there
  are four, then one at a time.
\<close>

fun rs_process_bytes :: "u32 list \<Rightarrow> bytes \<Rightarrow> bytes \<Rightarrow> bytes" where
  "rs_process_bytes L (s # src) (d # dst) =
     (d XOR ucast (L ! unat s)) # rs_process_bytes L src dst"
| "rs_process_bytes L _ dst = dst"

fun rs_process_words :: "u32 list \<Rightarrow> bytes \<Rightarrow> bytes \<Rightarrow> bytes" where
  "rs_process_words L (s0 # s1 # s2 # s3 # src) (d0 # d1 # d2 # d3 # dst) =
     (case (leu32_value [s0, s1, s2, s3], leu32_value [d0, d1, d2, d3]) of
        (Some s, Some d) \<Rightarrow>
          leu32_bytes (d XOR
            (L ! unat (drop_bit 0 s AND 0xff) XOR
             push_bit 8 (L ! unat (drop_bit 8 s AND 0xff)) XOR
             push_bit 16 (L ! unat (drop_bit 16 s AND 0xff)) XOR
             push_bit 24 (L ! unat (drop_bit 24 s AND 0xff))))
          @ rs_process_words L src dst
      | _ \<Rightarrow> [])"
| "rs_process_words L src dst = rs_process_bytes L src dst"

definition rs_internal_process :: "galois8 \<Rightarrow> nat \<Rightarrow> bytes \<Rightarrow> bytes \<Rightarrow> bytes" where
  "rs_internal_process factor sz inputbuffer outputbuffer =
     rs_process_words (rs_factor_table factor) (take sz inputbuffer) outputbuffer"

definition rs_get_factor :: "nat \<Rightarrow> nat \<Rightarrow> rs \<Rightarrow> galois8" where
  "rs_get_factor inputindex outputindex s =
     rs_leftmatrix s ! (outputindex * (rs_datapresent s + rs_datamissing s) + inputindex)"

definition rs_process :: "nat \<Rightarrow> nat \<Rightarrow> bytes \<Rightarrow> nat \<Rightarrow> bytes \<Rightarrow> rs \<Rightarrow> bytes" where
  "rs_process sz inputindex inputbuffer outputindex outputbuffer s =
     (let factor = rs_get_factor inputindex outputindex s
      in if factor = 0 then outputbuffer
         else rs_internal_process factor sz inputbuffer outputbuffer)"

end
