(* ===== verification/RS_Recover.thy ===== *)
theory RS_Recover
  imports RS_Correct
begin

unbundle bit_operations_syntax

text \<open>
  The contents of the matrices \<^verbatim>\<open>Compute\<close> fills in, the linear system they stand for, and
  the recovery theorem: after a successful \<^verbatim>\<open>Compute\<close> row \<open>j\<close> of the matrix applied to the
  available blocks gives the \<open>j\<close>th missing block.
\<close>

section \<open>The entries of the filled matrices\<close>

definition rs_base :: "nat \<Rightarrow> galois8" where
  "rs_base i = Galois8 (word_of_nat (i + 1))"

text \<open>Exponents for which \<^verbatim>\<open>pow\<close> reduces correctly.\<close>

definition small_rows :: "rs_outputrow list \<Rightarrow> bool" where
  "small_rows rows \<longleftrightarrow> (\<forall>r\<in>set rows. unat (row_exponent r) \<le> 257)"

lemma small_rows_Cons: "small_rows (r # rows) \<longleftrightarrow> unat (row_exponent r) \<le> 257 \<and> small_rows rows"
  by (auto simp: small_rows_def)

lemma small_rows_dropWhile: "small_rows rows \<Longrightarrow> small_rows (dropWhile P rows)"
  by (auto simp: small_rows_def dest: set_dropWhileD)

lemma rs_powers_eq:
  assumes "unat e \<le> 257" "\<forall>i\<in>set ixs. rs_database s ! i = word_of_nat (i + 1)"
  shows "rs_powers s ixs e = Some (map (\<lambda>i. rs_base i ^ unat e) ixs)"
  unfolding rs_powers_def
  by (rule those_map_Some) (use assms in \<open>simp add: galois_pow_power rs_base_def\<close>)

lemma dropWhile_filter_Cons:
  "filter P xs \<noteq> [] \<Longrightarrow>
   \<exists>y ys. dropWhile (\<lambda>x. \<not> P x) xs = y # ys \<and> filter P xs = y # filter P ys"
  by (induction xs) auto

definition left_row :: "nat list \<Rightarrow> nat list \<Rightarrow> nat \<Rightarrow> rs_outputrow \<Rightarrow> galois8 list" where
  "left_row P M row r = map (\<lambda>i. rs_base i ^ unat (row_exponent r)) P @
     map (\<lambda>col. if row = col then 1 else 0) [0..<length M]"

definition right_row :: "nat list \<Rightarrow> nat \<Rightarrow> rs_outputrow \<Rightarrow> galois8 list" where
  "right_row M k r = map (\<lambda>i. rs_base i ^ unat (row_exponent r)) M @ replicate k 0"

definition left_row' :: "nat list \<Rightarrow> nat list \<Rightarrow> rs_outputrow \<Rightarrow> galois8 list" where
  "left_row' P M r = map (\<lambda>i. rs_base i ^ unat (row_exponent r)) P @ replicate (length M) 0"

definition right_row' :: "nat list \<Rightarrow> nat \<Rightarrow> nat \<Rightarrow> rs_outputrow \<Rightarrow> galois8 list" where
  "right_row' M k row r = map (\<lambda>i. rs_base i ^ unat (row_exponent r)) M @
     map (\<lambda>col. if row = col then 1 else 0) [0..<k]"

lemmas row_defs = left_row_def right_row_def left_row'_def right_row'_def

lemma length_rows [simp]:
  "length (left_row P M row r) = length P + length M"
  "length (right_row M k r) = length M + k"
  "length (left_row' P M r) = length P + length M"
  "length (right_row' M k row r) = length M + k"
  by (simp_all add: row_defs)

text \<open>What the fill loops read of the state.\<close>

definition rs_reads :: "rs \<Rightarrow> nat list \<Rightarrow> nat list \<Rightarrow> nat \<Rightarrow> bool" where
  "rs_reads s P M k \<longleftrightarrow>
     take (rs_datapresent s) (rs_datapresentindex s) = P \<and>
     take (rs_datamissing s) (rs_datamissingindex s) = M \<and>
     rs_datamissing s = length M \<and> rs_parmissing s = k \<and>
     (\<forall>i\<in>set P \<union> set M. rs_database s ! i = word_of_nat (i + 1))"

lemma rs_reads_powers:
  assumes "rs_reads s P M k" "unat e \<le> 257"
  shows "rs_powers s (take (rs_datapresent s) (rs_datapresentindex s)) e
      = Some (map (\<lambda>i. rs_base i ^ unat e) P)"
    and "rs_powers s (take (length M) (rs_datamissingindex s)) e
      = Some (map (\<lambda>i. rs_base i ^ unat e) M)"
    and "rs_datamissing s = length M" "rs_parmissing s = k"
  using assms rs_powers_eq [of e P s] rs_powers_eq [of e M s] by (auto simp: rs_reads_def)

lemma rs_fill_present_eq:
  assumes "rs_reads s P M k" "M \<noteq> []" "small_rows rows" "n \<le> length (filter row_present rows)"
  shows "rs_fill_present s row n rows =
    Some (concat (map (\<lambda>j. left_row P M (row + j) (filter row_present rows ! j)) [0..<n]),
          concat (map (\<lambda>j. right_row M k (filter row_present rows ! j)) [0..<n]))"
  using assms(3,4)
proof (induction n arbitrary: row rows)
  case 0
  then show ?case by simp
next
  case (Suc n)
  then obtain r rest where r: "dropWhile (\<lambda>r. \<not> row_present r) rows = r # rest"
    "filter row_present rows = r # filter row_present rest"
    using dropWhile_filter_Cons [of row_present rows] by fastforce
  have small: "unat (row_exponent r) \<le> 257" "small_rows rest"
    using small_rows_dropWhile [OF Suc.prems(1)] r(1) by (metis small_rows_Cons)+
  have upt: "[0..<Suc n] = 0 # map Suc [0..<n]" by (simp add: upt_conv_Cons map_Suc_upt del: upt_Suc)
  show ?case
    unfolding upt
    using assms(2) Suc.prems(2) Suc.IH [OF small(2), of "row + 1"]
    by (simp add: r rs_reads_powers [OF assms(1) small(1)] row_defs comp_def del: upt_Suc)
qed

lemma rs_fill_missing_eq:
  assumes "rs_reads s P M k" "small_rows rows" "n \<le> length (filter (\<lambda>r. \<not> row_present r) rows)"
  shows "rs_fill_missing s row n rows =
    Some (concat (map (\<lambda>j. left_row' P M (filter (\<lambda>r. \<not> row_present r) rows ! j)) [0..<n]),
          if M = [] then []
          else concat (map (\<lambda>j. right_row' M k (row + j) (filter (\<lambda>r. \<not> row_present r) rows ! j)) [0..<n]))"
  using assms(2,3)
proof (induction n arbitrary: row rows)
  case 0
  then show ?case by simp
next
  case (Suc n)
  then obtain r rest where r: "dropWhile row_present rows = r # rest"
    "filter (\<lambda>r. \<not> row_present r) rows = r # filter (\<lambda>r. \<not> row_present r) rest"
    using dropWhile_filter_Cons [of "\<lambda>r. \<not> row_present r" rows] by fastforce
  have small: "unat (row_exponent r) \<le> 257" "small_rows rest"
    using small_rows_dropWhile [OF Suc.prems(1)] r(1) by (metis small_rows_Cons)+
  have upt: "[0..<Suc n] = 0 # map Suc [0..<n]" by (simp add: upt_conv_Cons map_Suc_upt del: upt_Suc)
  show ?case
    unfolding upt
    using Suc.prems(2) Suc.IH [OF small(2), of "row + 1"]
    by (auto simp: r rs_reads_powers [OF assms(1) small(1)] row_defs comp_def simp del: upt_Suc)
qed

section \<open>The linear system\<close>

lemma length_concat_rows: "(\<And>k. k < n \<Longrightarrow> length (f k) = cols) \<Longrightarrow> length (concat (map f [0..<n])) = n * cols"
  by (induction n) auto

lemma mat_at_rows:
  assumes "\<And>k. k < n \<Longrightarrow> length (f k) = cols" "r < n" "c < cols"
  shows "mat_at cols (concat (map f [0..<n]) @ ys) r c = f r ! c"
  using assms
proof (induction n arbitrary: ys)
  case (Suc n)
  have len: "length (concat (map f [0..<n])) = n * cols"
    by (rule length_concat_rows) (simp add: Suc.prems)
  show ?case
  proof (cases "r = n")
    case True
    then show ?thesis using Suc.prems by (simp add: mat_at_def nth_append len)
  next
    case False
    then show ?thesis using Suc.IH [of "f n @ ys"] Suc.prems by simp
  qed
qed simp

lemma mat_at_rows_skip:
  assumes "\<And>k. k < n \<Longrightarrow> length (f k) = cols"
  shows "mat_at cols (concat (map f [0..<n]) @ ys) (n + r) c = mat_at cols ys r c"
  by (simp add: mat_at_def nth_append length_concat_rows [OF assms] add_mult_distrib)

lemma sum_split: "(\<Sum>c<p + q. g c) = (\<Sum>c<p. g c) + (\<Sum>c<q. g (p + c))"
  for g :: "nat \<Rightarrow> 'a::comm_monoid_add"
  by (induction q) (simp_all add: add.assoc)

lemma sum_append:
  fixes x :: "nat \<Rightarrow> 'a::semiring_0"
  assumes "length A = p" "length B = q"
  shows "(\<Sum>c<p + q. (A @ B) ! c * x c) = (\<Sum>c<p. A ! c * x c) + (\<Sum>c<q. B ! c * x (p + c))"
  by (simp add: sum_split nth_append assms)

lemma sum_nth_map: "(\<Sum>c<length xs. f (xs ! c)) = sum_list (map f xs)"
  by (simp add: sum_list_sum_nth atLeast0LessThan)

lemma sum_unit: "i < n \<Longrightarrow> (\<Sum>c<n. (if i = c then 1 else 0) * g c) = g i"
  for g :: "nat \<Rightarrow> 'a::semiring_1"
proof -
  assume "i < n"
  have "(\<Sum>c<n. (if i = c then 1 else 0) * g c) = (\<Sum>c<n. if c = i then g c else 0)"
    by (rule sum.cong) auto
  with \<open>i < n\<close> show ?thesis by simp
qed

lemma sum_list_partition:
  "sum_list (map f xs) = sum_list (map f (filter P xs)) + sum_list (map f (filter (\<lambda>x. \<not> P x) xs))"
  for f :: "'a \<Rightarrow> 'b::comm_monoid_add"
  by (induction xs) (simp_all add: ac_simps)

text \<open>
  The content of the recovery block with exponent \<open>e\<close> for the data symbols \<open>D\<close>: the sum of
  the data blocks, block \<open>i\<close> scaled by the \<open>e\<close>th power of its base value.
\<close>

definition rs_recovery :: "nat \<Rightarrow> (nat \<Rightarrow> galois8) \<Rightarrow> nat \<Rightarrow> galois8" where
  "rs_recovery n D e = (\<Sum>i<n. rs_base i ^ e * D i)"

text \<open>The symbols the repairer reads, in the order of the columns, and those it wants.\<close>

definition rs_known :: "bool list \<Rightarrow> rs_outputrow list \<Rightarrow> (nat \<Rightarrow> galois8) \<Rightarrow> nat \<Rightarrow> galois8" where
  "rs_known present rows D c =
     (let P = indices (\<lambda>b. b) present
      in if c < length P then D (P ! c)
         else rs_recovery (length present) D
                (unat (row_exponent (filter row_present rows ! (c - length P)))))"

definition rs_wanted :: "bool list \<Rightarrow> rs_outputrow list \<Rightarrow> (nat \<Rightarrow> galois8) \<Rightarrow> nat \<Rightarrow> galois8" where
  "rs_wanted present rows D c =
     (let M = indices Not present
      in if c < length M then D (M ! c)
         else rs_recovery (length present) D
                (unat (row_exponent (filter (\<lambda>r. \<not> row_present r) rows ! (c - length M)))))"

lemma rs_recovery_split:
  "rs_recovery (length present) D e =
     sum_list (map (\<lambda>i. rs_base i ^ e * D i) (indices (\<lambda>b. b) present)) +
     sum_list (map (\<lambda>i. rs_base i ^ e * D i) (indices Not present))"
proof -
  have "rs_recovery (length present) D e = sum_list (map (\<lambda>i. rs_base i ^ e * D i) [0..<length present])"
    by (simp add: rs_recovery_def sum_nth_map [symmetric])
  also have "\<dots> = sum_list (map (\<lambda>i. rs_base i ^ e * D i) (filter (\<lambda>i. present ! i) [0..<length present])) +
     sum_list (map (\<lambda>i. rs_base i ^ e * D i) (filter (\<lambda>i. \<not> present ! i) [0..<length present]))"
    by (rule sum_list_partition)
  finally show ?thesis by (simp only: indices_def)
qed

lemma galois8_two [simp]: "(2::galois8) = 0"
  using galois8_add_self [of 1] by (simp del: galois8_add_self)

lemma galois8_add_both: "(a::galois8) + b + b = a" "(a::galois8) + b + a = b" "b + (b + a) = a"
  by (simp_all add: algebra_simps)

section \<open>A computed matrix recovers what is missing\<close>

abbreviation (input) rows_present :: "rs_outputrow list \<Rightarrow> rs_outputrow list" where
  "rows_present rows \<equiv> filter row_present rows"

abbreviation (input) rows_missing :: "rs_outputrow list \<Rightarrow> rs_outputrow list" where
  "rows_missing rows \<equiv> filter (\<lambda>r. \<not> row_present r) rows"

lemma rs_ready_reads:
  assumes "rs_ready present rows s"
  shows "rs_reads s (indices (\<lambda>b. b) present) (indices Not present) (length (rows_missing rows))"
    and "rs_datapresent s = length (indices (\<lambda>b. b) present)"
    and "rs_parpresent s = length (rows_present rows)" and "rs_outputrows s = rows"
proof -
  have inv: "input_inv (length present) present s"
    and rows: "rs_outputrows s = rows" "rs_parpresent s = length (rows_present rows)"
      "rs_parmissing s = length (rows_missing rows)"
    using assms by (simp_all add: rs_ready_def)
  then have dp: "rs_datapresent s = length (indices (\<lambda>b. b) present)"
    and dm: "rs_datamissing s = length (indices Not present)"
    unfolding input_inv_def
    by (metis length_take min.absorb2 le_add1) (metis inv input_inv_def length_take min.absorb2 le_add2)
  have "set (indices p present) \<subseteq> {..<length present}" for p
    by (auto simp: indices_def)
  then show "rs_reads s (indices (\<lambda>b. b) present) (indices Not present) (length (rows_missing rows))"
    using inv rows dm by (auto simp: rs_reads_def input_inv_def)
  show "rs_datapresent s = length (indices (\<lambda>b. b) present)" by (rule dp)
  show "rs_parpresent s = length (rows_present rows)" "rs_outputrows s = rows" by (rule rows)+
qed

lemma length_indices: "length (indices (\<lambda>b. b) present) + length (indices Not present) = length present"
  using sum_length_filter_compl [of "\<lambda>i. present ! i" "[0..<length present]"]
  by (simp add: indices_def)

definition rs_left :: "bool list \<Rightarrow> rs_outputrow list \<Rightarrow> galois8 list" where
  "rs_left present rows =
     (let P = indices (\<lambda>b. b) present; M = indices Not present
      in concat (map (\<lambda>j. left_row P M j (rows_present rows ! j)) [0..<length M]) @
         concat (map (\<lambda>j. left_row' P M (rows_missing rows ! j)) [0..<length (rows_missing rows)]))"

definition rs_right :: "bool list \<Rightarrow> rs_outputrow list \<Rightarrow> galois8 list" where
  "rs_right present rows =
     (let M = indices Not present; k = length (rows_missing rows)
      in concat (map (\<lambda>j. right_row M k (rows_present rows ! j)) [0..<length M]) @
         concat (map (\<lambda>j. right_row' M k j (rows_missing rows ! j)) [0..<k]))"

lemma rs_matrices_eq:
  assumes "rs_ready present rows s" "small_rows rows"
    and "length (indices Not present) \<le> length (rows_present rows)"
  shows "rs_matrices s =
    Some (rs_left present rows, if indices Not present = [] then [] else rs_right present rows)"
proof -
  note reads = rs_ready_reads [OF assms(1)]
  note sizes = reads(1) [unfolded rs_reads_def]
  show ?thesis
  proof (cases "indices Not present = []")
    case True
    then show ?thesis
      using rs_fill_missing_eq [OF reads(1) assms(2) le_refl, of 0] sizes reads(4)
      by (simp add: rs_matrices_def rs_left_def Let_def)
  next
    case False
    then show ?thesis
      using rs_fill_missing_eq [OF reads(1) assms(2) le_refl, of 0]
        rs_fill_present_eq [OF reads(1) False assms(2,3), of 0] sizes reads(4)
      by (simp add: rs_matrices_def rs_left_def rs_right_def Let_def)
  qed
qed

text \<open>The two sides of every row of the system.\<close>

lemma left_rows_sum:
  fixes present rows and D :: "nat \<Rightarrow> galois8"
  defines "P \<equiv> indices (\<lambda>b. b) present" and "M \<equiv> indices Not present"
  shows "i < length M \<Longrightarrow> length M \<le> length (rows_present rows) \<Longrightarrow>
      (\<Sum>c<length P + length M. left_row P M i (rows_present rows ! i) ! c * rs_known present rows D c)
      = sum_list (map (\<lambda>j. rs_base j ^ unat (row_exponent (rows_present rows ! i)) * D j) M)"
    and "(\<Sum>c<length P + length M. left_row' P M r ! c * rs_known present rows D c)
      = sum_list (map (\<lambda>j. rs_base j ^ unat (row_exponent r) * D j) P)"
proof -
  have P: "(\<Sum>c<length P. rs_base (P ! c) ^ e * rs_known present rows D c)
      = sum_list (map (\<lambda>j. rs_base j ^ e * D j) P)" for e
    unfolding sum_nth_map [symmetric] by (rule sum.cong) (simp_all add: rs_known_def P_def)
  show "(\<Sum>c<length P + length M. left_row' P M r ! c * rs_known present rows D c)
      = sum_list (map (\<lambda>j. rs_base j ^ unat (row_exponent r) * D j) P)"
    unfolding left_row'_def by (subst sum_append) (simp_all add: P)
  assume i: "i < length M" "length M \<le> length (rows_present rows)"
  have "(\<Sum>c<length P + length M. left_row P M i (rows_present rows ! i) ! c * rs_known present rows D c)
    = sum_list (map (\<lambda>j. rs_base j ^ unat (row_exponent (rows_present rows ! i)) * D j) P)
      + rs_known present rows D (length P + i)"
    unfolding left_row_def by (subst sum_append) (simp_all add: P sum_unit i)
  also have "rs_known present rows D (length P + i)
    = rs_recovery (length present) D (unat (row_exponent (rows_present rows ! i)))"
    by (simp add: rs_known_def P_def)
  finally show "(\<Sum>c<length P + length M. left_row P M i (rows_present rows ! i) ! c * rs_known present rows D c)
      = sum_list (map (\<lambda>j. rs_base j ^ unat (row_exponent (rows_present rows ! i)) * D j) M)"
    by (simp add: rs_recovery_split P_def M_def galois8_add_both)
qed

lemma right_rows_sum:
  fixes present rows and D :: "nat \<Rightarrow> galois8"
  defines "M \<equiv> indices Not present" and "k \<equiv> length (rows_missing rows)"
  shows "(\<Sum>c<length M + k. right_row M k r ! c * rs_wanted present rows D c)
      = sum_list (map (\<lambda>j. rs_base j ^ unat (row_exponent r) * D j) M)"
    and "i < k \<Longrightarrow> (\<Sum>c<length M + k. right_row' M k i (rows_missing rows ! i) ! c * rs_wanted present rows D c)
      = sum_list (map (\<lambda>j. rs_base j ^ unat (row_exponent (rows_missing rows ! i)) * D j)
          (indices (\<lambda>b. b) present))"
proof -
  have M: "(\<Sum>c<length M. rs_base (M ! c) ^ e * rs_wanted present rows D c)
      = sum_list (map (\<lambda>j. rs_base j ^ e * D j) M)" for e
    unfolding sum_nth_map [symmetric] by (rule sum.cong) (simp_all add: rs_wanted_def M_def)
  show "(\<Sum>c<length M + k. right_row M k r ! c * rs_wanted present rows D c)
      = sum_list (map (\<lambda>j. rs_base j ^ unat (row_exponent r) * D j) M)"
    unfolding right_row_def by (subst sum_append) (simp_all add: M)
  assume "i < k"
  then have "(\<Sum>c<length M + k. right_row' M k i (rows_missing rows ! i) ! c * rs_wanted present rows D c)
    = sum_list (map (\<lambda>j. rs_base j ^ unat (row_exponent (rows_missing rows ! i)) * D j) M)
      + rs_wanted present rows D (length M + i)"
    unfolding right_row'_def by (subst sum_append) (simp_all add: M sum_unit)
  also have "rs_wanted present rows D (length M + i)
    = rs_recovery (length present) D (unat (row_exponent (rows_missing rows ! i)))"
    by (simp add: rs_wanted_def M_def)
  finally show "(\<Sum>c<length M + k. right_row' M k i (rows_missing rows ! i) ! c * rs_wanted present rows D c)
      = sum_list (map (\<lambda>j. rs_base j ^ unat (row_exponent (rows_missing rows ! i)) * D j)
          (indices (\<lambda>b. b) present))"
    by (simp add: rs_recovery_split M_def galois8_add_both)
qed

section \<open>The recovery theorem for the matrix\<close>

lemma rs_left_sized:
  "length (indices Not present) \<le> length (rows_present rows) \<Longrightarrow>
   sized (length (indices Not present) + length (rows_missing rows)) (length present)
     (rs_left present rows, rs_right present rows)"
  by (simp add: sized_def rs_left_def rs_right_def Let_def length_concat_rows length_indices
      add_mult_distrib)

lemma rs_system_rows:
  fixes present rows
  defines "P \<equiv> indices (\<lambda>b. b) present" and "M \<equiv> indices Not present"
    and "k \<equiv> length (rows_missing rows)"
  shows "i < length M \<Longrightarrow> c < length present \<Longrightarrow>
      mat_at (length present) (rs_left present rows) i c = left_row P M i (rows_present rows ! i) ! c"
    and "j < k \<Longrightarrow> c < length present \<Longrightarrow>
      mat_at (length present) (rs_left present rows) (length M + j) c = left_row' P M (rows_missing rows ! j) ! c"
    and "i < length M \<Longrightarrow> c < length M + k \<Longrightarrow>
      mat_at (length M + k) (rs_right present rows) i c = right_row M k (rows_present rows ! i) ! c"
    and "j < k \<Longrightarrow> c < length M + k \<Longrightarrow>
      mat_at (length M + k) (rs_right present rows) (length M + j) c = right_row' M k j (rows_missing rows ! j) ! c"
proof -
  note n = length_indices [of present, folded P_def M_def]
  have L: "rs_left present rows =
      concat (map (\<lambda>j. left_row P M j (rows_present rows ! j)) [0..<length M]) @
      (concat (map (\<lambda>j. left_row' P M (rows_missing rows ! j)) [0..<k]) @ [])"
    by (simp add: rs_left_def Let_def P_def M_def k_def)
  have R: "rs_right present rows =
      concat (map (\<lambda>j. right_row M k (rows_present rows ! j)) [0..<length M]) @
      (concat (map (\<lambda>j. right_row' M k j (rows_missing rows ! j)) [0..<k]) @ [])"
    by (simp add: rs_right_def Let_def M_def k_def)
  show "i < length M \<Longrightarrow> c < length present \<Longrightarrow>
      mat_at (length present) (rs_left present rows) i c = left_row P M i (rows_present rows ! i) ! c"
    unfolding L by (rule mat_at_rows) (simp_all add: n)
  show "j < k \<Longrightarrow> c < length present \<Longrightarrow>
      mat_at (length present) (rs_left present rows) (length M + j) c = left_row' P M (rows_missing rows ! j) ! c"
    unfolding L by (subst mat_at_rows_skip, simp add: n, subst mat_at_rows) (simp_all add: n)
  show "i < length M \<Longrightarrow> c < length M + k \<Longrightarrow>
      mat_at (length M + k) (rs_right present rows) i c = right_row M k (rows_present rows ! i) ! c"
    unfolding R by (rule mat_at_rows) simp_all
  show "j < k \<Longrightarrow> c < length M + k \<Longrightarrow>
      mat_at (length M + k) (rs_right present rows) (length M + j) c = right_row' M k j (rows_missing rows ! j) ! c"
    unfolding R by (subst mat_at_rows_skip, simp, subst mat_at_rows) simp_all
qed

lemma rs_right_unit:
  "unit_on {length (indices Not present)..} (length (indices Not present) + length (rows_missing rows))
     (rs_right present rows)"
proof -
  define M where "M = indices Not present"
  define k where "k = length (rows_missing rows)"
  note R = rs_system_rows(3,4) [where present = present and rows = rows, folded M_def k_def]
  have "mat_at (length M + k) (rs_right present rows) i c = (if i = c then 1 else 0)"
    if "i < length M + k" "length M \<le> c" "c < length M + k" for i c
  proof (cases "i < length M")
    case True
    then show ?thesis using that R(1) [of i c] by (simp add: right_row_def nth_append)
  next
    case False
    then obtain j where "i = length M + j" by (metis le_add_diff_inverse not_less)
    then show ?thesis using that R(2) [of j c] by (auto simp: right_row'_def nth_append)
  qed
  then show ?thesis by (auto simp: unit_on_def M_def k_def)
qed

lemma rs_system_solved:
  assumes "length (indices Not present) \<le> length (rows_present rows)"
  shows "solves (length (indices Not present) + length (rows_missing rows)) (length present)
     (rs_left present rows, rs_right present rows) (rs_known present rows D) (rs_wanted present rows D)"
proof -
  define P where "P = indices (\<lambda>b. b) present"
  define M where "M = indices Not present"
  define k where "k = length (rows_missing rows)"
  have n: "length P + length M = length present" by (simp add: length_indices P_def M_def)
  note S = rs_system_rows [where present = present and rows = rows, folded P_def M_def k_def]
  note left = left_rows_sum [where present = present and rows = rows and D = D, folded P_def M_def]
  note right = right_rows_sum [where present = present and rows = rows and D = D, folded P_def M_def k_def]
  have "(\<Sum>c<length present. mat_at (length present) (rs_left present rows) i c * rs_known present rows D c)
      = (\<Sum>c<length M + k. mat_at (length M + k) (rs_right present rows) i c * rs_wanted present rows D c)"
    if "i < length M + k" for i
  proof (cases "i < length M")
    case True
    then show ?thesis
      using left(1) [of i] right(1) [of "rows_present rows ! i"] assms [folded M_def]
      by (simp add: S n)
  next
    case False
    then obtain j where j: "i = length M + j" by (metis le_add_diff_inverse not_less)
    then show ?thesis
      using that left(2) [of "rows_missing rows ! j"] right(2) [of j] by (simp add: S n)
  qed
  then show ?thesis by (simp add: solves_def M_def k_def)
qed

text \<open>
  After a successful \<^verbatim>\<open>Compute\<close>, the factors of row \<open>i\<close> combine the available blocks into the
  \<open>i\<close>th wanted one. This is the statement the repair rests on; it makes no assumption about the
  contents of the blocks.
\<close>

lemma rs_compute_inv:
  assumes "rs_compute s = Inr s'"
  shows "rs_datamissing s \<le> rs_parpresent s" "rs_datapresent s' = rs_datapresent s"
    "rs_datamissing s' = rs_datamissing s" "0 < rs_datamissing s + rs_parmissing s"
    and "\<exists>l m. rs_matrices s = Some (l, m) \<and>
      (if rs_datamissing s > 0
       then \<exists>m'. gauss_elim (rs_datamissing s + rs_parmissing s) (rs_datapresent s + rs_datamissing s)
              (rs_datamissing s) (l, m) = Some (rs_leftmatrix s', m')
       else rs_leftmatrix s' = l)"
  using assms
  by (auto simp: rs_compute_def Let_def split: if_splits option.splits)

lemma rs_compute_recovers:
  assumes ready: "rs_ready present rows s" and small: "small_rows rows"
    and comp: "rs_compute s = Inr s'"
    and i: "i < length (indices Not present) + length (rows_missing rows)"
  shows "(\<Sum>c<length present. rs_get_factor c i s' * rs_known present rows D c) = rs_wanted present rows D i"
proof -
  note reads = rs_ready_reads [OF ready]
  note sizes = reads(1) [unfolded rs_reads_def]
  note inv = rs_compute_inv [OF comp]
  define outcount where "outcount = length (indices Not present) + length (rows_missing rows)"
  have sz: "rs_datamissing s = length (indices Not present)" "rs_parmissing s = length (rows_missing rows)"
    "rs_datapresent s + rs_datamissing s = length present"
    using sizes reads(2) length_indices [of present] by auto
  have le: "length (indices Not present) \<le> length (rows_present rows)"
    using inv(1) sz reads(3) by simp
  note mats = rs_matrices_eq [OF ready small le]
  note solved = rs_system_solved [OF le, of D]
  have entry: "rs_get_factor c i s' = mat_at (length present) (rs_leftmatrix s') i c" for c
    using inv(2,3) sz by (simp add: rs_get_factor_def mat_at_def)
  show ?thesis
  proof (cases "indices Not present = []")
    case False
    then obtain m' where "gauss_elim outcount (length present) (length (indices Not present))
        (rs_left present rows, rs_right present rows) = Some (rs_leftmatrix s', m')"
      using inv(5) mats sz by (auto simp: outcount_def)
    from gauss_elim_solved [OF rs_left_sized [OF le] _ this [unfolded outcount_def] _ solved i]
    show ?thesis using rs_right_unit [of present rows] by (simp add: entry)
  next
    case True
    with inv(5) mats sz have L: "rs_leftmatrix s' = rs_left present rows" by auto
    from True i have "i < length (rows_missing rows)" by simp
    then show ?thesis
      using True solved i rs_right_unit [of present rows]
      unfolding entry L solves_def
      by (simp add: unit_on_def sum_unit)
  qed
qed

end
