(* ===== verification/RS_Process.thy ===== *)
theory RS_Process
  imports RS_Recover
begin

unbundle bit_operations_syntax

text \<open>
  \<^verbatim>\<open>ReedSolomon<Galois8>::Process\<close> on buffers, and its client in \<^verbatim>\<open>par1repairer.cpp\<close>:
  \<^verbatim>\<open>Par1Repairer::ComputeRSmatrix\<close> sets the object up from the blocks that were found and
  \<^verbatim>\<open>Par1Repairer::ProcessData\<close> runs every input block through it. The last section puts the
  two together: the output buffers end up holding the missing blocks.
\<close>

section \<open>One block through \<^verbatim>\<open>Process\<close>\<close>

lemma galois_long_table_nth:
  assumes "a < 256" "b < 256"
  shows "galois_long_table ! (a * 256 + b) =
    galois_mul (Galois8 (word_of_nat a)) (Galois8 (word_of_nat b))"
proof -
  have "mat_at 256 (concat (map (\<lambda>ii. map (\<lambda>jj. galois_mul (Galois8 (word_of_nat ii)) (Galois8 (word_of_nat jj)))
       [0..<256]) [0..<256]) @ []) a b
    = map (\<lambda>jj. galois_mul (Galois8 (word_of_nat a)) (Galois8 (word_of_nat jj))) [0..<256] ! b"
    by (rule mat_at_rows) (use assms in simp_all)
  with assms show ?thesis by (simp add: galois_long_table_def mat_at_def)
qed

lemma rs_factor_table_nth: "rs_factor_table factor ! unat b = ucast (galois_Value (factor * Galois8 b))"
proof -
  have "unat b < 256" "unat (galois_Value factor) < 256"
    using unsigned_less [of b] unsigned_less [of "galois_Value factor"] by simp_all
  then show ?thesis
    by (simp add: rs_factor_table_def Let_def galois_long_table_nth galois8_ops)
qed

lemma length_rs_factor_table [simp]: "length (rs_factor_table factor) = 256"
  by (simp add: rs_factor_table_def Let_def)

text \<open>The reference: every byte of the output gains the product of the factor and the input byte.\<close>

definition add_scaled :: "galois8 \<Rightarrow> bytes \<Rightarrow> bytes \<Rightarrow> bytes" where
  "add_scaled factor src dst =
     map2 (\<lambda>s d. d XOR galois_Value (factor * Galois8 s)) src dst @ drop (length src) dst"

lemma add_scaled_Cons:
  "add_scaled factor (s # src) (d # dst) = (d XOR galois_Value (factor * Galois8 s)) # add_scaled factor src dst"
  by (simp add: add_scaled_def)

lemma add_scaled_Nil [simp]: "add_scaled factor [] dst = dst" "add_scaled factor src [] = []"
  by (simp_all add: add_scaled_def)

lemma rs_process_bytes_eq: "rs_process_bytes (rs_factor_table factor) src dst = add_scaled factor src dst"
  by (induction "rs_factor_table factor" src dst rule: rs_process_bytes.induct)
    (simp_all add: add_scaled_Cons rs_factor_table_nth)

lemma leu32_bytes_nths: "leu32_value [b0, b1, b2, b3] = Some v \<Longrightarrow>
   ucast v = b0 \<and> ucast (drop_bit 8 v) = b1 \<and> ucast (drop_bit 16 v) = b2 \<and> ucast (drop_bit 24 v) = b3"
  using leu32_bytes_value [of "[b0, b1, b2, b3]" v] by (simp add: leu32_bytes_eq)

lemma rs_process_words_step:
  assumes "leu32_value [s0, s1, s2, s3] = Some s" "leu32_value [d0, d1, d2, d3] = Some d"
  shows "leu32_bytes (d XOR
      (rs_factor_table factor ! unat (drop_bit 0 s AND 0xff) XOR
       push_bit 8 (rs_factor_table factor ! unat (drop_bit 8 s AND 0xff)) XOR
       push_bit 16 (rs_factor_table factor ! unat (drop_bit 16 s AND 0xff)) XOR
       push_bit 24 (rs_factor_table factor ! unat (drop_bit 24 s AND 0xff))))
    = [d0 XOR galois_Value (factor * Galois8 s0), d1 XOR galois_Value (factor * Galois8 s1),
       d2 XOR galois_Value (factor * Galois8 s2), d3 XOR galois_Value (factor * Galois8 s3)]"
proof -
  note s = leu32_bytes_nths [OF assms(1)]
  have d: "leu32_bytes d = [d0, d1, d2, d3]" by (rule leu32_bytes_value [OF assms(2)])
  show ?thesis
    using leu32_bytes_xor [of d "galois_Value (factor * Galois8 s0)" "galois_Value (factor * Galois8 s1)"
        "galois_Value (factor * Galois8 s2)" "galois_Value (factor * Galois8 s3)"]
    by (simp only: unat_byte drop_bit_0 id_apply s rs_factor_table_nth d) simp
qed

lemma rs_process_words_eq:
  "rs_process_words (rs_factor_table factor) src dst = add_scaled factor src dst"
proof (induction "rs_factor_table factor" src dst rule: rs_process_words.induct)
  case (1 s0 s1 s2 s3 src d0 d1 d2 d3 dst)
  obtain s d where sd: "leu32_value [s0, s1, s2, s3] = Some s" "leu32_value [d0, d1, d2, d3] = Some d"
    by simp
  show ?case
    using 1 [OF _ sd(1,2)] rs_process_words_step [OF sd]
    by (simp only: rs_process_words.simps sd prod.case option.case) (simp add: add_scaled_Cons)
qed (simp_all add: rs_process_bytes_eq)

lemma rs_process_eq:
  "length src = sz \<Longrightarrow> rs_process sz c src i dst s = add_scaled (rs_get_factor c i s) src dst"
proof -
  assume "length src = sz"
  moreover have "add_scaled 0 src dst = dst"
    by (induction src dst rule: list_induct2') (simp_all add: add_scaled_Cons galois8_ops)
  ultimately show ?thesis
    by (auto simp: rs_process_def Let_def rs_internal_process_def rs_process_words_eq)
qed

lemma length_add_scaled [simp]: "length (add_scaled factor src dst) = length dst"
  by (simp add: add_scaled_def)

lemma add_scaled_nth:
  "t < length src \<Longrightarrow> t < length dst \<Longrightarrow>
   Galois8 (add_scaled factor src dst ! t) = Galois8 (dst ! t) + factor * Galois8 (src ! t)"
  by (simp add: add_scaled_def nth_append) (simp add: galois8_ops galois_add_def)

section \<open>All input blocks through all outputs\<close>

text \<open>
  The double loop of \<^verbatim>\<open>ProcessData\<close>: one buffer per output, cleared at the start, and every
  input block processed into every output.
\<close>

definition process_input ::
  "nat \<Rightarrow> rs \<Rightarrow> nat \<times> bytes \<Rightarrow> bytes list \<Rightarrow> bytes list" where
  "process_input blocklength s input outs =
     map (\<lambda>(outputindex, outbuf). rs_process blocklength (fst input) (snd input) outputindex outbuf s)
       (enumerate 0 outs)"

definition process_inputs :: "nat \<Rightarrow> rs \<Rightarrow> nat \<Rightarrow> bytes list \<Rightarrow> bytes list" where
  "process_inputs blocklength s outcount inputs =
     fold (process_input blocklength s) (enumerate 0 inputs) (replicate outcount (replicate blocklength 0))"

lemma all_length_nth: "\<forall>b\<in>set bs. length b = L \<Longrightarrow> i < length bs \<Longrightarrow> length (bs ! i) = L"
  by simp

lemma process_inputs_from:
  assumes "\<forall>b\<in>set inputs. length b = L" "\<forall>b\<in>set outs. length b = L" "i < length outs" "t < L"
  shows "length (fold (process_input L s) (enumerate k inputs) outs) = length outs \<and>
    (\<forall>b\<in>set (fold (process_input L s) (enumerate k inputs) outs). length b = L) \<and>
    Galois8 (fold (process_input L s) (enumerate k inputs) outs ! i ! t) =
      Galois8 (outs ! i ! t) +
      (\<Sum>c<length inputs. rs_get_factor (k + c) i s * Galois8 (inputs ! c ! t))"
  using assms
proof (induction inputs arbitrary: k outs)
  case Nil
  then show ?case by simp
next
  case (Cons b inputs)
  let ?outs = "process_input L s (k, b) outs"
  have len: "length ?outs = length outs" by (simp add: process_input_def)
  have nth: "j < length outs \<Longrightarrow> ?outs ! j = add_scaled (rs_get_factor k j s) b (outs ! j)" for j
    using Cons.prems(1) by (simp add: process_input_def nth_enumerate_eq rs_process_eq)
  have all: "\<forall>x\<in>set ?outs. length x = L"
    using len nth all_length_nth [OF Cons.prems(2)] by (fastforce simp: in_set_conv_nth [of _ ?outs])
  have "length b = L" using Cons.prems(1) by simp
  then have at: "Galois8 (?outs ! i ! t) = Galois8 (outs ! i ! t) + rs_get_factor k i s * Galois8 (b ! t)"
    using nth [OF Cons.prems(3)] Cons.prems by (simp add: add_scaled_nth)
  have shift: "(\<Sum>c<Suc n. f (k + c) * g ((b # inputs) ! c)) = f k * g b + (\<Sum>c<n. f (Suc k + c) * g (inputs ! c))"
    for n and f g :: "_ \<Rightarrow> galois8"
    by (simp add: sum.lessThan_Suc_shift del: sum.lessThan_Suc)
  from Cons.IH [of ?outs "Suc k"] Cons.prems len all at
    shift [of "\<lambda>c. rs_get_factor c i s" "\<lambda>x. Galois8 (x ! t)" "length inputs"]
  show ?case by (simp add: add.assoc)
qed

lemma process_inputs_nth:
  assumes "\<forall>b\<in>set inputs. length b = L" "i < outcount" "t < L"
  shows "Galois8 (process_inputs L s outcount inputs ! i ! t) =
      (\<Sum>c<length inputs. rs_get_factor c i s * Galois8 (inputs ! c ! t))"
  using process_inputs_from [of inputs L "replicate outcount (replicate L 0)" i t s 0] assms
  by (simp add: process_inputs_def galois8_ops(1) [symmetric])

lemma process_inputs_length:
  assumes "\<forall>b\<in>set inputs. length b = L"
  shows "length (process_inputs L s outcount inputs) = outcount"
    and "\<forall>b\<in>set (process_inputs L s outcount inputs). length b = L"
proof -
  have *: "length (process_input L s x outs) = length outs \<and> (\<forall>b\<in>set (process_input L s x outs). length b = L)"
    if "length (snd x) = L" "\<forall>b\<in>set outs. length b = L" for x outs
    using that by (auto simp: process_input_def in_set_enumerate_eq rs_process_eq intro: all_length_nth)
  have "length (fold (process_input L s) xs outs) = length outs \<and>
      (\<forall>b\<in>set (fold (process_input L s) xs outs). length b = L)"
    if "\<forall>x\<in>set xs. length (snd x) = L" "\<forall>b\<in>set outs. length b = L" for xs outs
    using that
  proof (induction xs arbitrary: outs)
    case (Cons x xs)
    have hd: "length (snd x) = L" and tl: "\<forall>x\<in>set xs. length (snd x) = L"
      using Cons.prems(1) by (metis list.set_intros(1), metis list.set_intros(2))
    note step = * [OF hd Cons.prems(2)]
    from Cons.IH [OF tl conjunct2 [OF step]] conjunct1 [OF step]
    show ?case by (simp only: fold_simps) metis
  qed simp
  note loop = this
  have "length (snd x) = L" if x: "x \<in> set (enumerate 0 inputs)" for x
  proof -
    obtain i where "i < length inputs" "snd x = inputs ! i" using x by (auto simp: in_set_enumerate_eq)
    then show ?thesis using all_length_nth [OF assms] by simp
  qed
  then have "length (process_inputs L s outcount inputs) = length (replicate outcount (replicate L (0::u8))) \<and>
      (\<forall>b\<in>set (process_inputs L s outcount inputs). length b = L)"
    unfolding process_inputs_def by (intro loop) auto
  then show "length (process_inputs L s outcount inputs) = outcount"
    and "\<forall>b\<in>set (process_inputs L s outcount inputs). length b = L"
    by simp_all
qed

text \<open>The contents of the recovery block with exponent \<open>e\<close>, byte by byte.\<close>

definition recovery_block :: "nat \<Rightarrow> bytes list \<Rightarrow> nat \<Rightarrow> bytes" where
  "recovery_block L data e =
     map (\<lambda>t. galois_Value (rs_recovery (length data) (\<lambda>i. Galois8 (data ! i ! t)) e)) [0..<L]"

text \<open>The buffers the repairer reads, in the order of the columns of the matrix.\<close>

definition known_blocks :: "nat \<Rightarrow> bytes list \<Rightarrow> bool list \<Rightarrow> rs_outputrow list \<Rightarrow> bytes list" where
  "known_blocks L data present rows =
     map ((!) data) (indices (\<lambda>b. b) present) @
     map (\<lambda>r. recovery_block L data (unat (row_exponent r)))
       (take (length (indices Not present)) (filter row_present rows))"

definition wanted_blocks :: "nat \<Rightarrow> bytes list \<Rightarrow> bool list \<Rightarrow> rs_outputrow list \<Rightarrow> bytes list" where
  "wanted_blocks L data present rows =
     map ((!) data) (indices Not present) @
     map (\<lambda>r. recovery_block L data (unat (row_exponent r))) (filter (\<lambda>r. \<not> row_present r) rows)"

lemma indices_less: "c < length (indices p present) \<Longrightarrow> indices p present ! c < length present"
  by (metis atLeastLessThan_iff filter_is_subset indices_def nth_mem set_upt subset_eq)

lemma known_blocks_nth:
  assumes "length data = length present" "length (indices Not present) \<le> length (filter row_present rows)"
    and "t < L" "c < length present"
  shows "Galois8 (known_blocks L data present rows ! c ! t) =
    rs_known present rows (\<lambda>i. Galois8 (data ! i ! t)) c"
  using assms length_indices [of present]
  by (auto simp: known_blocks_def rs_known_def Let_def nth_append recovery_block_def)

lemma wanted_blocks_nth:
  assumes "length data = length present" "t < L"
    and "c < length (indices Not present) + length (filter (\<lambda>r. \<not> row_present r) rows)"
  shows "Galois8 (wanted_blocks L data present rows ! c ! t) =
    rs_wanted present rows (\<lambda>i. Galois8 (data ! i ! t)) c"
  using assms by (auto simp: wanted_blocks_def rs_wanted_def Let_def nth_append recovery_block_def)

lemma known_blocks_length:
  assumes "length data = length present" "length (indices Not present) \<le> length (filter row_present rows)"
    and "\<forall>b\<in>set data. length b = L"
  shows "length (known_blocks L data present rows) = length present"
    and "\<forall>b\<in>set (known_blocks L data present rows). length b = L"
  using assms length_indices [of present]
  by (auto simp: known_blocks_def recovery_block_def in_set_conv_nth [of _ "indices p present" for p]
      intro!: all_length_nth indices_less)

lemma wanted_blocks_length:
  assumes "length data = length present" "\<forall>b\<in>set data. length b = L"
  shows "length (wanted_blocks L data present rows) =
      length (indices Not present) + length (filter (\<lambda>r. \<not> row_present r) rows)"
    and "\<forall>b\<in>set (wanted_blocks L data present rows). length b = L"
  using assms by (auto simp: wanted_blocks_def recovery_block_def in_set_conv_nth [of _ "indices p present" for p]
      intro!: all_length_nth indices_less)

text \<open>The byte level contract of the \<^verbatim>\<open>ReedSolomon\<close> object.\<close>

lemma process_recovers:
  assumes ready: "rs_ready present rows s" and small: "small_rows rows" and comp: "rs_compute s = Inr s'"
    and data: "length data = length present" "\<forall>b\<in>set data. length b = L"
  shows "process_inputs L s' (length (indices Not present) + length (filter (\<lambda>r. \<not> row_present r) rows))
      (known_blocks L data present rows) = wanted_blocks L data present rows" (is "process_inputs L s' ?n ?K = ?W")
proof -
  have le: "length (indices Not present) \<le> length (filter row_present rows)"
    using rs_compute_inv(1) [OF comp] rs_ready_reads [OF ready] by (simp add: rs_reads_def)
  note K = known_blocks_length [OF data(1) le data(2)] and W = wanted_blocks_length [OF data]
  note P = process_inputs_length [OF K(2), of s' ?n]
  show ?thesis
  proof (rule nth_equalityI)
    show "length (process_inputs L s' ?n ?K) = length ?W" by (simp add: P W)
    fix i assume "i < length (process_inputs L s' ?n ?K)"
    then have i: "i < ?n" by (simp add: P)
    then have Pi: "length (process_inputs L s' ?n ?K ! i) = L" and Wi: "length (?W ! i) = L"
      using P W by (auto intro!: all_length_nth)
    show "process_inputs L s' ?n ?K ! i = ?W ! i"
    proof (rule nth_equalityI)
      fix t assume "t < length (process_inputs L s' ?n ?K ! i)"
      then have t: "t < L" by (simp add: Pi)
      have "Galois8 (process_inputs L s' ?n ?K ! i ! t) =
          (\<Sum>c<length present. rs_get_factor c i s' * rs_known present rows (\<lambda>i. Galois8 (data ! i ! t)) c)"
        using K i t known_blocks_nth [OF data(1) le t] by (simp add: process_inputs_nth)
      also have "\<dots> = rs_wanted present rows (\<lambda>i. Galois8 (data ! i ! t)) i"
        using rs_compute_recovers [OF ready small comp] i by simp
      also have "\<dots> = Galois8 (?W ! i ! t)" using wanted_blocks_nth [OF data(1) t i] by simp
      finally show "process_inputs L s' ?n ?K ! i ! t = ?W ! i ! t" by simp
    qed (simp add: Pi Wi)
  qed
qed

section \<open>Properties\<close>

text \<open>C28: \<^verbatim>\<open>InternalProcess\<close>, which works on 32 bit words through a table of the factor and finishes
  byte by byte, adds to every output byte the product of the factor and the input byte, for every
  length and alignment.\<close>

theorem rs_internal_process_bytewise:
  "rs_internal_process factor sz inputbuffer outputbuffer =
     add_scaled factor (take sz inputbuffer) outputbuffer"
  by (simp add: rs_internal_process_def rs_process_words_eq)

end
