(* ===== verification/FileSystem.thy ===== *)
theory FileSystem
  imports Prelude
begin

text \<open>
  The part of the C library the program reads and writes files with: the files and
  directories of a disk, and \<^verbatim>\<open>stat\<close>, \<^verbatim>\<open>mkdir\<close>, \<^verbatim>\<open>fopen\<close>, \<^verbatim>\<open>fseek\<close>, \<^verbatim>\<open>fread\<close>, \<^verbatim>\<open>fwrite\<close>,
  \<^verbatim>\<open>unlink\<close> and \<^verbatim>\<open>rename\<close> on them, as the C and POSIX standards describe those calls. A
  write that runs into the size limit of the disk is short, which is how the error branches
  of the program are reached.
\<close>

section \<open>Searching a string\<close>

text \<open>\<^verbatim>\<open>std::string::find_last_of\<close> and \<^verbatim>\<open>find_first_of\<close> for one character; \<^verbatim>\<open>npos\<close> is \<open>None\<close>.\<close>

fun find_last_of :: "'a \<Rightarrow> 'a list \<Rightarrow> nat option" where
  "find_last_of c [] = None"
| "find_last_of c (x # xs) =
     (case find_last_of c xs of
        Some n \<Rightarrow> Some (Suc n)
      | None \<Rightarrow> if x = c then Some 0 else None)"

fun find_first_of :: "'a \<Rightarrow> 'a list \<Rightarrow> nat option" where
  "find_first_of c [] = None"
| "find_first_of c (x # xs) =
     (if x = c then Some 0 else map_option Suc (find_first_of c xs))"

lemma find_last_of_None: "find_last_of c xs = None \<longleftrightarrow> c \<notin> set xs"
  by (induction xs) (auto split: option.splits)

lemma find_last_of_Some:
  "find_last_of c xs = Some n \<Longrightarrow>
   n < length xs \<and> xs = take n xs @ c # drop (Suc n) xs \<and> c \<notin> set (drop (Suc n) xs)"
proof (induction xs arbitrary: n)
  case (Cons x xs)
  then show ?case
    by (auto split: option.splits if_splits simp: find_last_of_None)
qed simp

lemma find_last_of_split: "c \<notin> set ys \<Longrightarrow> find_last_of c (xs @ c # ys) = Some (length xs)"
  by (induction xs) (auto simp: find_last_of_None [symmetric])

lemma find_first_of_None: "find_first_of c xs = None \<longleftrightarrow> c \<notin> set xs"
  by (induction xs) auto

lemma find_first_of_Some:
  "find_first_of c xs = Some n \<Longrightarrow>
   n < length xs \<and> xs = take n xs @ c # drop (Suc n) xs \<and> c \<notin> set (take n xs)"
proof (induction xs arbitrary: n)
  case (Cons x xs)
  then show ?case by (auto split: if_splits)
qed simp

lemma find_first_of_split: "c \<notin> set xs \<Longrightarrow> find_first_of c (xs @ c # ys) = Some (length xs)"
  by (induction xs) auto

section \<open>The disk\<close>

abbreviation (input) PATHSEP :: char where "PATHSEP \<equiv> CHR ''/''"
abbreviation (input) ALTPATHSEP :: char where "ALTPATHSEP \<equiv> CHR 0x5C"

record fs =
  fs_files :: "string \<rightharpoonup> bytes"
  fs_dirs :: "string \<Rightarrow> bool"
  fs_limit :: nat

datatype file_mode = ReadMode | WriteMode

record file_handle =
  fh_mode :: file_mode
  fh_pos :: nat

definition os_stat :: "fs \<Rightarrow> string \<Rightarrow> bool" where
  "os_stat fs path \<longleftrightarrow> fs_dirs fs path \<or> fs_files fs path \<noteq> None"

text \<open>The directory a path lies in exists: the current one, the root, or one on the disk.\<close>

definition os_parent_ok :: "fs \<Rightarrow> string \<Rightarrow> bool" where
  "os_parent_ok fs path =
     (case find_last_of PATHSEP path of
        None \<Rightarrow> True
      | Some n \<Rightarrow> n = 0 \<or> fs_dirs fs (take n path))"

definition os_mkdir :: "string \<Rightarrow> fs \<Rightarrow> fs option" where
  "os_mkdir path fs =
     (if path = [] \<or> os_stat fs path \<or> \<not> os_parent_ok fs path then None
      else Some (fs\<lparr>fs_dirs := (fs_dirs fs)(path := True)\<rparr>))"

text \<open>\<^verbatim>\<open>fopen(path, "wb")\<close> and \<^verbatim>\<open>fopen(path, "rb")\<close>.\<close>

definition os_fopen_wb :: "string \<Rightarrow> fs \<Rightarrow> (file_handle \<times> fs) option" where
  "os_fopen_wb path fs =
     (if path = [] \<or> fs_dirs fs path \<or> \<not> os_parent_ok fs path then None
      else Some (\<lparr>fh_mode = WriteMode, fh_pos = 0\<rparr>, fs\<lparr>fs_files := (fs_files fs)(path \<mapsto> [])\<rparr>))"

definition os_fopen_rb :: "string \<Rightarrow> fs \<Rightarrow> file_handle option" where
  "os_fopen_rb path fs =
     (if fs_files fs path \<noteq> None then Some \<lparr>fh_mode = ReadMode, fh_pos = 0\<rparr> else None)"

definition os_unlink :: "string \<Rightarrow> fs \<Rightarrow> fs option" where
  "os_unlink path fs =
     (if fs_files fs path = None then None else Some (fs\<lparr>fs_files := (fs_files fs)(path := None)\<rparr>))"

definition os_rename :: "string \<Rightarrow> string \<Rightarrow> fs \<Rightarrow> fs option" where
  "os_rename old new fs =
     (case fs_files fs old of
        None \<Rightarrow> None
      | Some content \<Rightarrow>
          if new = [] \<or> fs_dirs fs new \<or> \<not> os_parent_ok fs new then None
          else Some (fs\<lparr>fs_files := (fs_files fs)(old := None, new \<mapsto> content)\<rparr>))"

text \<open>Storing bytes at a position: a gap after the end of the file is filled with zeros.\<close>

definition overwrite :: "bytes \<Rightarrow> nat \<Rightarrow> bytes \<Rightarrow> bytes" where
  "overwrite content pos buf =
     (if buf = [] then content
      else take pos (content @ replicate (pos - length content) 0) @ buf @ drop (pos + length buf) content)"

text \<open>
  \<^verbatim>\<open>fread\<close> and \<^verbatim>\<open>fwrite\<close> on the file \<open>path\<close>: how many bytes were transferred, and the handle
  and disk afterwards.
\<close>

definition os_fread :: "string \<Rightarrow> nat \<Rightarrow> file_handle \<Rightarrow> fs \<Rightarrow> bytes \<times> file_handle" where
  "os_fread path n h fs =
     (case fs_files fs path of
        None \<Rightarrow> ([], h)
      | Some content \<Rightarrow>
          if fh_mode h = ReadMode
          then let got = take n (drop (fh_pos h) content)
               in (got, h\<lparr>fh_pos := fh_pos h + length got\<rparr>)
          else ([], h))"

definition os_fwrite :: "string \<Rightarrow> bytes \<Rightarrow> file_handle \<Rightarrow> fs \<Rightarrow> nat \<times> file_handle \<times> fs" where
  "os_fwrite path buf h fs =
     (case fs_files fs path of
        None \<Rightarrow> (0, h, fs)
      | Some content \<Rightarrow>
          if fh_mode h = WriteMode
          then let put = take (fs_limit fs - fh_pos h) buf
               in (length put, h\<lparr>fh_pos := fh_pos h + length put\<rparr>,
                   fs\<lparr>fs_files := (fs_files fs)(path \<mapsto> overwrite content (fh_pos h) put)\<rparr>)
          else (0, h, fs))"

section \<open>Facts about overwriting\<close>

lemma length_overwrite [buf_simps]:
  "length (overwrite content pos buf) =
     (if buf = [] then length content else max (length content) (pos + length buf))"
  by (auto simp: overwrite_def)

lemma overwrite_read_back [buf_simps]:
  "take (length buf) (drop pos (overwrite content pos buf)) = buf"
  by (simp add: overwrite_def)

lemma overwrite_append:
  assumes "a \<noteq> []"
  shows "overwrite (overwrite content pos a) (pos + length a) b = overwrite content pos (a @ b)"
  using assms by (auto simp: overwrite_def min_def ac_simps)

lemma overwrite_other:
  "i < length content \<Longrightarrow> i < pos \<or> pos + length buf \<le> i \<Longrightarrow> overwrite content pos buf ! i = content ! i"
  by (auto simp: overwrite_def nth_append)

end
