(* ===== verification/DiskFile.thy ===== *)
theory DiskFile
  imports FileSystem "HOL-Library.Monad_Syntax"
begin

text \<open>
  \<^verbatim>\<open>diskfile.cpp\<close>: the \<^verbatim>\<open>DiskFile\<close> object, its chunked reads and writes, the path functions,
  and \<^verbatim>\<open>DiskFileMap\<close>. The branch for \<^verbatim>\<open>stdio\<close> is modelled (the code's \<^verbatim>\<open>#else // !_WIN32\<close>), and
  the read loop of the Windows branch beside it, because the two differ at the end of a file.
  The object caches the file position in \<^verbatim>\<open>offset\<close> to save seeks; the contracts say when the
  cache agrees with the library's own position.
\<close>

section \<open>The object\<close>

record diskfile =
  df_filename :: string
  df_filesize :: u64
  df_file :: "file_handle option"
  df_offset :: u64
  df_exists :: bool

definition diskfile_new :: diskfile where
  "diskfile_new = \<lparr>df_filename = [], df_filesize = 0, df_file = None, df_offset = 0, df_exists = False\<rparr>"

abbreviation (input) MaxOffset :: u64 where "MaxOffset \<equiv> 0x7fffffffffffffff"
abbreviation (input) MAX_LENGTH :: nat where "MAX_LENGTH \<equiv> 0xfffffff8"

definition file_exists :: "string \<Rightarrow> fs \<Rightarrow> bool" where
  "file_exists path fs \<longleftrightarrow> fs_files fs path \<noteq> None"

definition get_file_size :: "string \<Rightarrow> fs \<Rightarrow> u64" where
  "get_file_size path fs =
     (case fs_files fs path of None \<Rightarrow> 0 | Some content \<Rightarrow> word_of_nat (length content))"

text \<open>
  \<^verbatim>\<open>CreateParentDirectory\<close>: the recursion is on the text before the last separator, first
  the native one and then the alternative one.
\<close>

definition last_separator :: "string \<Rightarrow> nat option" where
  "last_separator pathname =
     (case find_last_of PATHSEP pathname of
        Some n \<Rightarrow> Some n
      | None \<Rightarrow> find_last_of ALTPATHSEP pathname)"

lemma last_separator_less: "last_separator path = Some n \<Longrightarrow> n < length path"
  by (auto simp: last_separator_def dest: find_last_of_Some split: option.splits)

function create_parent_directory :: "string \<Rightarrow> fs \<Rightarrow> bool \<times> fs" where
  "create_parent_directory pathname fs =
     (case last_separator pathname of
        None \<Rightarrow> (True, fs)
      | Some n \<Rightarrow>
          let path = take n pathname
          in if path = [] then (True, fs)
             else if os_stat fs path then (True, fs)
             else case create_parent_directory path fs of
                    (False, fs) \<Rightarrow> (False, fs)
                  | (True, fs) \<Rightarrow>
                      (case os_mkdir path fs of
                         None \<Rightarrow> (False, fs)
                       | Some fs \<Rightarrow> (True, fs)))"
  by pat_completeness auto
termination
  by (relation "measure (\<lambda>(path, _). length path)") (auto dest: last_separator_less)

declare create_parent_directory.simps [simp del]

text \<open>\<^verbatim>\<open>Create\<close>. The size is set by storing the first byte of \<^verbatim>\<open>_filesize\<close> at the last position.\<close>

definition disk_create :: "string \<Rightarrow> u64 \<Rightarrow> diskfile \<Rightarrow> fs \<Rightarrow> bool \<times> diskfile \<times> fs" where
  "disk_create filename filesize d fs =
     (let d = d\<lparr>df_filename := filename, df_filesize := filesize\<rparr>
      in case create_parent_directory filename fs of
           (False, fs) \<Rightarrow> (False, d, fs)
         | (True, fs) \<Rightarrow>
             if file_exists filename fs then (False, d, fs)
             else case os_fopen_wb filename fs of
                    None \<Rightarrow> (False, d\<lparr>df_file := None\<rparr>, fs)
                  | Some (h, fs) \<Rightarrow>
                      let d = d\<lparr>df_file := Some h\<rparr>
                      in if filesize > MaxOffset then (False, d, fs)
                         else if filesize > 0
                         then (case os_fwrite filename [ucast filesize] (h\<lparr>fh_pos := unat (filesize - 1)\<rparr>) fs of
                                 (wrote, h, fs) \<Rightarrow>
                                   if wrote \<noteq> 1
                                   then (False, d\<lparr>df_file := None\<rparr>, fs\<lparr>fs_files := (fs_files fs)(filename := None)\<rparr>)
                                   else (True, d\<lparr>df_file := Some h, df_offset := filesize, df_exists := True\<rparr>, fs))
                         else (True, d\<lparr>df_offset := filesize, df_exists := True\<rparr>, fs))"

text \<open>
  The seek at the head of \<^verbatim>\<open>Read\<close> and \<^verbatim>\<open>Write\<close>: skipped when the cached offset is already
  the wanted one. \<open>None\<close> is the error return.
\<close>

definition disk_seek :: "u64 \<Rightarrow> diskfile \<Rightarrow> diskfile option" where
  "disk_seek off d =
     (if df_offset d \<noteq> off
      then if off > MaxOffset then None
           else Some (d\<lparr>df_file := map_option (\<lambda>h. h\<lparr>fh_pos := unat off\<rparr>) (df_file d), df_offset := off\<rparr>)
      else Some d)"

text \<open>
  The chunk loops; \<open>maxlength\<close> is a parameter of the code. With \<open>maxlength = 0\<close> they would
  not end, so they are partial functions and not returning is \<open>None\<close>. The read loop collects
  what it stored in the buffer.
\<close>

partial_function (option) disk_write_loop ::
  "nat \<Rightarrow> bytes \<Rightarrow> diskfile \<Rightarrow> file_handle \<Rightarrow> fs \<Rightarrow> (bool \<times> diskfile \<times> fs) option" where
  "disk_write_loop maxlength buffer d h fs =
     (if length buffer > 0
      then let write = (if length buffer > maxlength then maxlength else length buffer)
           in case os_fwrite (df_filename d) (take write buffer) h fs of
                (wrote, h, fs) \<Rightarrow>
                  if wrote \<noteq> write then Some (False, d\<lparr>df_file := Some h\<rparr>, fs)
                  else let d = d\<lparr>df_offset := df_offset d + word_of_nat wrote\<rparr>;
                           d = (if df_filesize d < df_offset d then d\<lparr>df_filesize := df_offset d\<rparr> else d)
                       in disk_write_loop maxlength (drop wrote buffer) d h fs
      else Some (True, d\<lparr>df_file := Some h\<rparr>, fs))"

definition disk_write ::
  "u64 \<Rightarrow> bytes \<Rightarrow> nat \<Rightarrow> diskfile \<Rightarrow> fs \<Rightarrow> (bool \<times> diskfile \<times> fs) option" where
  "disk_write off buffer maxlength d fs =
     (case disk_seek off d of
        None \<Rightarrow> Some (False, d, fs)
      | Some d \<Rightarrow>
          (case df_file d of
             None \<Rightarrow> Some (False, d, fs)
           | Some h \<Rightarrow> disk_write_loop maxlength buffer d h fs))"

partial_function (option) disk_read_loop ::
  "nat \<Rightarrow> nat \<Rightarrow> bytes \<Rightarrow> diskfile \<Rightarrow> file_handle \<Rightarrow> fs \<Rightarrow> (bool \<times> bytes \<times> diskfile) option" where
  "disk_read_loop maxlength len buffer d h fs =
     (if len > 0
      then let want = (if len > maxlength then maxlength else len)
           in case os_fread (df_filename d) want h fs of
                (got, h) \<Rightarrow>
                  if length got \<noteq> want then Some (False, buffer @ got, d\<lparr>df_file := Some h\<rparr>)
                  else disk_read_loop maxlength (len - length got) (buffer @ got)
                         (d\<lparr>df_offset := df_offset d + word_of_nat (length got)\<rparr>) h fs
      else Some (True, buffer, d\<lparr>df_file := Some h\<rparr>))"

definition disk_read ::
  "u64 \<Rightarrow> nat \<Rightarrow> nat \<Rightarrow> diskfile \<Rightarrow> fs \<Rightarrow> (bool \<times> bytes \<times> diskfile) option" where
  "disk_read off len maxlength d fs =
     (case disk_seek off d of
        None \<Rightarrow> Some (False, [], d)
      | Some d \<Rightarrow>
          (case df_file d of
             None \<Rightarrow> Some (False, [], d)
           | Some h \<Rightarrow> disk_read_loop maxlength len [] d h fs))"

text \<open>
  The loop of the Windows \<^verbatim>\<open>Read\<close>: an incomplete read is reported but is not an error, and
  \<^verbatim>\<open>ReadFile\<close> at the end of the file succeeds with 0 bytes.
\<close>

partial_function (option) win_read_loop ::
  "nat \<Rightarrow> nat \<Rightarrow> bytes \<Rightarrow> diskfile \<Rightarrow> file_handle \<Rightarrow> fs \<Rightarrow> (bool \<times> bytes \<times> diskfile) option" where
  "win_read_loop maxlength len buffer d h fs =
     (if len > 0
      then let want = (if len > maxlength then maxlength else len)
           in case os_fread (df_filename d) want h fs of
                (got, h) \<Rightarrow>
                  win_read_loop maxlength (len - length got) (buffer @ got)
                    (d\<lparr>df_offset := df_offset d + word_of_nat (length got)\<rparr>) h fs
      else Some (True, buffer, d\<lparr>df_file := Some h\<rparr>))"

text \<open>\<^verbatim>\<open>Open\<close>, \<^verbatim>\<open>Close\<close>, \<^verbatim>\<open>Delete\<close> and \<^verbatim>\<open>Rename\<close>.\<close>

definition disk_open_size :: "string \<Rightarrow> u64 \<Rightarrow> diskfile \<Rightarrow> fs \<Rightarrow> bool \<times> diskfile" where
  "disk_open_size filename filesize d fs =
     (let d = d\<lparr>df_filename := filename, df_filesize := filesize\<rparr>
      in if filesize > MaxOffset then (False, d)
         else case os_fopen_rb filename fs of
                None \<Rightarrow> (False, d\<lparr>df_file := None\<rparr>)
              | Some h \<Rightarrow> (True, d\<lparr>df_file := Some h, df_offset := 0, df_exists := True\<rparr>))"

definition disk_open :: "string \<Rightarrow> diskfile \<Rightarrow> fs \<Rightarrow> bool \<times> diskfile" where
  "disk_open filename d fs = disk_open_size filename (get_file_size filename fs) d fs"

definition disk_reopen :: "diskfile \<Rightarrow> fs \<Rightarrow> bool \<times> diskfile" where
  "disk_reopen d fs = disk_open (df_filename d) d fs"

definition disk_close :: "diskfile \<Rightarrow> diskfile" where
  "disk_close d = d\<lparr>df_file := None\<rparr>"

definition disk_delete :: "diskfile \<Rightarrow> fs \<Rightarrow> bool \<times> diskfile \<times> fs" where
  "disk_delete d fs =
     (if length (df_filename d) > 0
      then (case os_unlink (df_filename d) fs of
              Some fs \<Rightarrow> (True, d\<lparr>df_exists := False\<rparr>, fs)
            | None \<Rightarrow> (False, d, fs))
      else (False, d, fs))"

definition disk_rename_to :: "string \<Rightarrow> diskfile \<Rightarrow> fs \<Rightarrow> bool \<times> diskfile \<times> fs" where
  "disk_rename_to filename d fs =
     (case os_rename (df_filename d) filename fs of
        Some fs \<Rightarrow> (True, d\<lparr>df_filename := filename\<rparr>, fs)
      | None \<Rightarrow> (False, d, fs))"

section \<open>The contracts of reading and writing\<close>

text \<open>An open file whose cached offset is the position of the library.\<close>

definition disk_ready :: "file_mode \<Rightarrow> bytes \<Rightarrow> diskfile \<Rightarrow> fs \<Rightarrow> bool" where
  "disk_ready mode content d fs \<longleftrightarrow>
     fs_files fs (df_filename d) = Some content \<and>
     (case df_file d of
        None \<Rightarrow> False
      | Some h \<Rightarrow> fh_mode h = mode \<and> fh_pos h = unat (df_offset d))"

lemma disk_seek_ready:
  assumes "disk_ready mode content d fs" "off \<le> MaxOffset"
  obtains d' h where "disk_seek off d = Some d'" "df_file d' = Some h" "fh_mode h = mode"
    "fh_pos h = unat off" "df_filename d' = df_filename d" "df_filesize d' = df_filesize d"
    "df_exists d' = df_exists d" "df_offset d' = off"
proof -
  from assms obtain h where h: "df_file d = Some h" "fh_mode h = mode" "fh_pos h = unat (df_offset d)"
    by (auto simp: disk_ready_def split: option.splits)
  show ?thesis
    by (cases "df_offset d = off")
      (use h assms(2) that in \<open>auto simp: disk_seek_def not_less\<close>)
qed

lemma disk_read_loop_all:
  assumes "fs_files fs (df_filename d) = Some content" "fh_mode h = ReadMode" "0 < maxlength"
    and "fh_pos h + len \<le> length content"
  shows "disk_read_loop maxlength len buffer d h fs =
     Some (True, buffer @ take len (drop (fh_pos h) content),
       d\<lparr>df_offset := df_offset d + word_of_nat len, df_file := Some (h\<lparr>fh_pos := fh_pos h + len\<rparr>)\<rparr>)"
  using assms(1,2,4)
proof (induction len arbitrary: buffer d h rule: less_induct)
  case (less len)
  show ?case
  proof (cases "len = 0")
    case True
    then show ?thesis by (subst disk_read_loop.simps) simp
  next
    case False
    define want where "want = (if len > maxlength then maxlength else len)"
    have want: "0 < want" "want \<le> len" using False assms(3) by (auto simp: want_def)
    have len: "length (take want (drop (fh_pos h) content)) = want" using less.prems want by simp
    then have "os_fread (df_filename d) want h fs
        = (take want (drop (fh_pos h) content), h\<lparr>fh_pos := fh_pos h + want\<rparr>)"
      using less.prems want by (auto simp: os_fread_def min_def)
    moreover have "take want (drop p content) @ take (len - want) (drop (p + want) content)
        = take len (drop p content)" for p
      using want by (metis add.commute drop_drop le_add_diff_inverse take_add)
    moreover have "df_offset d + word_of_nat want + word_of_nat (len - want)
        = df_offset d + word_of_nat len"
      using want by (simp add: of_nat_diff)
    ultimately show ?thesis
      using less.prems want less.IH [of "len - want" "d\<lparr>df_offset := df_offset d + word_of_nat want\<rparr>"
          "h\<lparr>fh_pos := fh_pos h + want\<rparr>"]
      by (subst disk_read_loop.simps) (simp add: want_def [symmetric] len add.assoc del: length_take)
  qed
qed

lemma disk_read_loop_short:
  assumes "fs_files fs (df_filename d) = Some content" "fh_mode h = ReadMode" "0 < maxlength"
    and "length content < fh_pos h + len" "0 < len"
  shows "\<exists>got d'. disk_read_loop maxlength len buffer d h fs = Some (False, got, d')"
  using assms(1,2,4,5)
proof (induction len arbitrary: buffer d h rule: less_induct)
  case (less len)
  define want where "want = (if len > maxlength then maxlength else len)"
  have want: "0 < want" "want \<le> len" using less.prems assms(3) by (auto simp: want_def)
  define got where "got = take want (drop (fh_pos h) content)"
  have r: "os_fread (df_filename d) want h fs = (got, h\<lparr>fh_pos := fh_pos h + length got\<rparr>)"
    using less.prems by (simp add: os_fread_def got_def)
  show ?case
  proof (cases "length got = want")
    case False
    then show ?thesis
      using less.prems by (subst disk_read_loop.simps) (simp add: want_def [symmetric] r)
  next
    case True
    then have "want < len" using less.prems by (auto simp: got_def)
    then show ?thesis
      using True want less.prems
        less.IH [of "len - want" "d\<lparr>df_offset := df_offset d + word_of_nat want\<rparr>"
          "h\<lparr>fh_pos := fh_pos h + want\<rparr>" "buffer @ got"]
      by (subst disk_read_loop.simps) (simp add: want_def [symmetric] r)
  qed
qed

text \<open>Reading inside the file: the bytes asked for, whatever the size of the chunks.\<close>

lemma disk_read_inside:
  assumes "disk_ready ReadMode content d fs" "off \<le> MaxOffset" "0 < maxlength"
    and "unat off + len \<le> length content" "length content < 2 ^ 64"
  shows "\<exists>d'. disk_read off len maxlength d fs = Some (True, take len (drop (unat off) content), d') \<and>
    disk_ready ReadMode content d' fs \<and> df_filesize d' = df_filesize d \<and> df_filename d' = df_filename d"
proof -
  obtain d' h where s: "disk_seek off d = Some d'" "df_file d' = Some h" "fh_mode h = ReadMode"
    "fh_pos h = unat off" "df_filename d' = df_filename d" "df_filesize d' = df_filesize d"
    "df_offset d' = off"
    using assms(1,2) by (rule disk_seek_ready)
  have content: "fs_files fs (df_filename d) = Some content"
    using assms(1) by (simp add: disk_ready_def)
  have "unat (off + word_of_nat len) = unat off + len"
    using assms(4,5) by (simp add: unat_word_ariths unat_of_nat)
  then show ?thesis
    using disk_read_loop_all [of fs d' content h maxlength len "[]"] s content assms(3,4)
    by (auto simp: disk_read_def disk_ready_def)
qed

text \<open>Reading past the end of the file is an error return, not a loop.\<close>

lemma disk_read_past_end:
  assumes "disk_ready ReadMode content d fs" "off \<le> MaxOffset" "0 < maxlength"
    and "length content < unat off + len" "0 < len"
  shows "\<exists>got d'. disk_read off len maxlength d fs = Some (False, got, d')"
proof -
  obtain d' h where s: "disk_seek off d = Some d'" "df_file d' = Some h" "fh_mode h = ReadMode"
    "fh_pos h = unat off" "df_filename d' = df_filename d"
    using assms(1,2) by (rule disk_seek_ready)
  have content: "fs_files fs (df_filename d) = Some content"
    using assms(1) by (simp add: disk_ready_def)
  show ?thesis
    using disk_read_loop_short [of fs d' content h maxlength len "[]"] s content assms(3-5)
    by (auto simp: disk_read_def)
qed

text \<open>
  The Windows loop: at the end of the file it makes no progress, so no number of rounds
  returns; inside the file it returns what the other one does.
\<close>

lemma win_read_loop_returns:
  assumes ret: "win_read_loop maxlength len buffer d h fs = Some r"
    and "fs_files fs (df_filename d) = Some content" "fh_mode h = ReadMode" "fh_pos h \<le> length content"
  shows "fh_pos h + len \<le> length content"
proof -
  let ?P = "\<lambda>maxlength len buffer d h fs r. \<forall>content.
    fs_files fs (df_filename d) = Some content \<longrightarrow> fh_mode h = ReadMode \<longrightarrow> fh_pos h \<le> length content \<longrightarrow>
    fh_pos h + len \<le> length content"
  have "?P maxlength len buffer d h fs r"
  proof (rule win_read_loop.raw_induct [where P = ?P, OF _ ret], intro allI impI)
    fix f and maxlength len :: nat and buffer :: bytes and d :: diskfile and h :: file_handle and fs :: fs
      and r :: "bool \<times> bytes \<times> diskfile" and content
    let ?want = "if len > maxlength then maxlength else len"
    assume IH: "\<And>maxlength len buffer d h fs r. f maxlength len buffer d h fs = Some r \<Longrightarrow> ?P maxlength len buffer d h fs r"
      and eq: "(if 0 < len
          then let want = ?want
               in case os_fread (df_filename d) want h fs of
                    (got, h) \<Rightarrow> f maxlength (len - length got) (buffer @ got)
                      (d\<lparr>df_offset := df_offset d + word_of_nat (length got)\<rparr>) h fs
          else Some (True, buffer, d\<lparr>df_file := Some h\<rparr>)) = Some r"
      and h: "fs_files fs (df_filename d) = Some content" "fh_mode h = ReadMode" "fh_pos h \<le> length content"
    define got where "got = take ?want (drop (fh_pos h) content)"
    have r: "os_fread (df_filename d) ?want h fs = (got, h\<lparr>fh_pos := fh_pos h + length got\<rparr>)"
      using h by (simp add: os_fread_def got_def)
    have le: "length got \<le> len" "fh_pos h + length got \<le> length content" using h by (auto simp: got_def)
    show "fh_pos h + len \<le> length content"
    proof (cases "len = 0")
      case True
      then show ?thesis using h by simp
    next
      case False
      with eq have "f maxlength (len - length got) (buffer @ got)
          (d\<lparr>df_offset := df_offset d + word_of_nat (length got)\<rparr>) (h\<lparr>fh_pos := fh_pos h + length got\<rparr>) fs = Some r"
        by (simp add: Let_def r)
      from IH [OF this] h le show ?thesis by simp
    qed
  qed
  with assms show ?thesis by blast
qed

section \<open>Writing\<close>

lemma disk_write_loop_all:
  assumes "fs_files fs (df_filename d) = Some content" "fh_mode h = WriteMode" "0 < maxlength"
    and "fh_pos h + length buffer \<le> fs_limit fs" "fs_limit fs < 2 ^ 64" "fh_pos h = unat (df_offset d)"
  shows "\<exists>d'. disk_write_loop maxlength buffer d h fs =
     Some (True, d', fs\<lparr>fs_files := (fs_files fs)(df_filename d \<mapsto> overwrite content (fh_pos h) buffer)\<rparr>) \<and>
     df_file d' = Some (h\<lparr>fh_pos := fh_pos h + length buffer\<rparr>) \<and>
     unat (df_offset d') = fh_pos h + length buffer \<and> df_filename d' = df_filename d \<and>
     unat (df_filesize d') = (if buffer = [] then unat (df_filesize d)
       else max (unat (df_filesize d)) (fh_pos h + length buffer))"
  using assms(1,2,4,5,6)
proof (induction "length buffer" arbitrary: buffer content d h fs rule: less_induct)
  case less
  show ?case
  proof (cases "buffer = []")
    case True
    then show ?thesis
      using less.prems by (subst disk_write_loop.simps) (simp add: overwrite_def fun_upd_idem)
  next
    case False
    define put where "put = (if length buffer > maxlength then maxlength else length buffer)"
    have w: "0 < put" "put \<le> length buffer" using False assms(3) by (auto simp: put_def)
    define a b where "a = take put buffer" and "b = drop put buffer"
    have ab: "length a = put" "buffer = a @ b" "a \<noteq> []" "length b = length buffer - put"
      using w False by (auto simp: a_def b_def)
    define fs1 where "fs1 = fs\<lparr>fs_files := (fs_files fs)(df_filename d \<mapsto> overwrite content (fh_pos h) a)\<rparr>"
    define h1 where "h1 = h\<lparr>fh_pos := fh_pos h + put\<rparr>"
    have r: "os_fwrite (df_filename d) a h fs = (put, h1, fs1)"
      using less.prems w ab(1) by (simp add: os_fwrite_def Let_def fs1_def h1_def)
    define off where "off = df_offset d + word_of_nat put"
    have off: "unat off = fh_pos h + put"
      using less.prems w by (simp add: off_def unat_word_ariths unat_of_nat)
    define d1 where "d1 = (if df_filesize d < off then d\<lparr>df_offset := off, df_filesize := off\<rparr> else d\<lparr>df_offset := off\<rparr>)"
    have "disk_write_loop maxlength buffer d h fs = disk_write_loop maxlength b d1 h1 fs1"
      using False r by (subst disk_write_loop.simps)
        (simp add: put_def [symmetric] a_def [symmetric] b_def [symmetric] Let_def d1_def off_def)
    moreover have lb: "length b < length buffer" using ab(4) w by simp
    have d1: "fs_files fs1 (df_filename d1) = Some (overwrite content (fh_pos h) a)"
      "df_filename d1 = df_filename d" "unat (df_filesize d1) = max (unat (df_filesize d)) (fh_pos h + put)"
      "df_offset d1 = off"
      using off by (auto simp: fs1_def d1_def word_less_nat_alt)
    have h1: "fh_mode h1 = WriteMode" "fh_pos h1 = fh_pos h + put" "fs_limit fs1 = fs_limit fs"
      "fh_pos h1 + length b \<le> fs_limit fs" "fh_pos h1 + length b = fh_pos h + length buffer"
      using less.prems w ab(4) by (simp_all add: h1_def fs1_def)
    have ow: "overwrite (overwrite content (fh_pos h) a) (fh_pos h1) b = overwrite content (fh_pos h) buffer"
      using overwrite_append [OF ab(3), of content "fh_pos h" b] ab(1,2) h1(2) by simp
    have fs: "fs1\<lparr>fs_files := (fs_files fs1)(df_filename d \<mapsto> c)\<rparr>
        = fs\<lparr>fs_files := (fs_files fs)(df_filename d \<mapsto> c)\<rparr>" for c
      by (simp add: fs1_def)
    from less.hyps [OF lb d1(1) h1(1), unfolded h1(3) d1(4), OF h1(4)] less.prems(4)
    obtain d' where "disk_write_loop maxlength b d1 h1 fs1 =
       Some (True, d', fs\<lparr>fs_files := (fs_files fs)(df_filename d \<mapsto> overwrite content (fh_pos h) buffer)\<rparr>)"
      "df_file d' = Some (h1\<lparr>fh_pos := fh_pos h + length buffer\<rparr>)"
      "unat (df_offset d') = fh_pos h + length buffer" "df_filename d' = df_filename d"
      "unat (df_filesize d') = (if b = [] then unat (df_filesize d1)
         else max (unat (df_filesize d1)) (fh_pos h + length buffer))"
      unfolding ow fs h1(5) d1(2) using off h1(2) by auto
    moreover have "b = [] \<Longrightarrow> put = length buffer" "put \<le> length buffer" using ab(4) w by auto
    ultimately show ?thesis
      using False d1(3) by (auto simp: h1_def max_def)
  qed
qed

text \<open>A write that fits the disk stores the whole buffer, whatever the size of the chunks.\<close>

lemma disk_write_fits:
  assumes "disk_ready WriteMode content d fs" "off \<le> MaxOffset" "0 < maxlength"
    and "unat off + length buffer \<le> fs_limit fs" "fs_limit fs < 2 ^ 64"
  shows "\<exists>d' fs'. disk_write off buffer maxlength d fs = Some (True, d', fs') \<and>
     fs' = fs\<lparr>fs_files := (fs_files fs)(df_filename d \<mapsto> overwrite content (unat off) buffer)\<rparr> \<and>
     disk_ready WriteMode (overwrite content (unat off) buffer) d' fs' \<and> df_filename d' = df_filename d \<and>
     unat (df_filesize d') = (if buffer = [] then unat (df_filesize d)
       else max (unat (df_filesize d)) (unat off + length buffer))"
proof -
  obtain d1 h where s: "disk_seek off d = Some d1" "df_file d1 = Some h" "fh_mode h = WriteMode"
    "fh_pos h = unat off" "df_filename d1 = df_filename d" "df_filesize d1 = df_filesize d"
    "df_offset d1 = off"
    using assms(1,2) by (rule disk_seek_ready)
  have "fs_files fs (df_filename d1) = Some content"
    using assms(1) s(5) by (simp add: disk_ready_def)
  from disk_write_loop_all [OF this s(3) assms(3) _ assms(5), of buffer] assms(4) s
  show ?thesis by (auto simp: disk_write_def disk_ready_def)
qed

text \<open>What was written can be read back through a fresh handle.\<close>

lemma disk_reopen_ready:
  assumes "fs_files fs (df_filename d) = Some content" "length content < 2 ^ 63"
  shows "\<exists>d'. disk_reopen d fs = (True, d') \<and> disk_ready ReadMode content d' fs \<and>
    df_filename d' = df_filename d \<and> unat (df_filesize d') = length content"
proof -
  have l: "unat (word_of_nat (length content) :: u64) = length content"
    using assms(2) by (simp add: unat_of_nat)
  then have "\<not> MaxOffset < word_of_nat (length content)"
    using assms(2) by (simp add: word_less_nat_alt)
  then show ?thesis
    using assms l
    by (auto simp: disk_reopen_def disk_open_def disk_open_size_def get_file_size_def os_fopen_rb_def
        disk_ready_def Let_def)
qed

lemma disk_write_read:
  assumes "disk_ready WriteMode content d fs" "off \<le> MaxOffset" "0 < maxlength"
    and "unat off + length buffer \<le> fs_limit fs" "fs_limit fs < 2 ^ 63" "length content \<le> fs_limit fs"
  shows "\<exists>d1 fs1 d2 d3. disk_write off buffer maxlength d fs = Some (True, d1, fs1) \<and>
     disk_reopen (disk_close d1) fs1 = (True, d2) \<and>
     disk_read off (length buffer) maxlength d2 fs1 = Some (True, buffer, d3)"
proof -
  have lim: "fs_limit fs < 2 ^ 64" using assms(5) by simp
  obtain d1 fs1 where w: "disk_write off buffer maxlength d fs = Some (True, d1, fs1)"
    "fs1 = fs\<lparr>fs_files := (fs_files fs)(df_filename d \<mapsto> overwrite content (unat off) buffer)\<rparr>"
    "df_filename d1 = df_filename d"
    using disk_write_fits [OF assms(1-4) lim] by auto
  let ?c = "overwrite content (unat off) buffer"
  have len: "length ?c \<le> fs_limit fs" using assms(4,6) by (simp add: length_overwrite)
  have "fs_files fs1 (df_filename (disk_close d1)) = Some ?c"
    using w(2,3) by (simp add: disk_close_def)
  with len assms(5) obtain d2 where o: "disk_reopen (disk_close d1) fs1 = (True, d2)" "disk_ready ReadMode ?c d2 fs1"
    using disk_reopen_ready [of fs1 "disk_close d1" ?c] by auto
  show ?thesis
  proof (cases "buffer = []")
    case True
    from o(2) assms(2) obtain d3 h where "disk_seek off d2 = Some d3" "df_file d3 = Some h"
      by (rule disk_seek_ready)
    then have "disk_read off 0 maxlength d2 fs1 = Some (True, [], d3\<lparr>df_file := Some h\<rparr>)"
      by (simp add: disk_read_def disk_read_loop.simps)
    with w(1) o(1) True show ?thesis by auto
  next
    case False
    then have "unat off + length buffer \<le> length ?c" by (simp add: length_overwrite)
    with disk_read_inside [OF o(2) assms(2,3), of "length buffer"] len lim w(1) o(1) show ?thesis
      by (auto simp: overwrite_read_back)
  qed
qed

section \<open>Creating\<close>

lemma create_parent_directory_spec:
  assumes "create_parent_directory path fs = (ok, fs')"
  shows "fs_files fs' = fs_files fs \<and> fs_limit fs' = fs_limit fs \<and>
    (\<forall>q. fs_dirs fs q \<longrightarrow> fs_dirs fs' q) \<and>
    (ok \<longrightarrow> (\<forall>n. last_separator path = Some n \<longrightarrow> 0 < n \<longrightarrow> os_stat fs' (take n path)))"
  using assms
proof (induction path fs arbitrary: ok fs' rule: create_parent_directory.induct)
  case (1 path fs)
  note eq = 1(2) [unfolded create_parent_directory.simps [of path fs]]
  show ?case
  proof (cases "last_separator path")
    case None
    with eq show ?thesis by simp
  next
    case (Some n)
    let ?p = "take n path"
    have "n < length path" using Some by (rule last_separator_less)
    show ?thesis
    proof (cases "?p = [] \<or> os_stat fs ?p")
      case True
      with eq Some \<open>n < length path\<close> show ?thesis by (auto simp: Let_def split: if_splits)
    next
      case False
      obtain ok1 fs1 where r: "create_parent_directory ?p fs = (ok1, fs1)" by fastforce
      with 1(1) [OF Some refl _ _ r] False
      have "fs_files fs1 = fs_files fs \<and> fs_limit fs1 = fs_limit fs \<and> (\<forall>q. fs_dirs fs q \<longrightarrow> fs_dirs fs1 q)"
        by simp
      with eq Some False r show ?thesis
        by (auto simp: Let_def os_mkdir_def os_stat_def split: bool.splits if_splits)
    qed
  qed
qed

text \<open>
  A created file has the size asked for. Its last byte is the low byte of the size, because
  that is what the code writes there; every other byte is zero.
\<close>

lemma disk_create_content:
  assumes "disk_create filename filesize d fs = (True, d', fs')"
  shows "fs_files fs' = (fs_files fs)(filename \<mapsto>
      if filesize = 0 then [] else replicate (unat filesize - 1) 0 @ [ucast filesize])"
    and "disk_ready WriteMode (if filesize = 0 then [] else replicate (unat filesize - 1) 0 @ [ucast filesize]) d' fs'"
    and "df_filename d' = filename" "df_filesize d' = filesize" "df_exists d'"
    and "fs_files fs filename = None"
proof -
  obtain fs1 where p: "create_parent_directory filename fs = (True, fs1)"
    using assms by (auto simp: disk_create_def Let_def split: prod.splits bool.splits)
  have f: "fs_files fs1 = fs_files fs" "fs_limit fs1 = fs_limit fs"
    using create_parent_directory_spec [OF p] by auto
  have pos: "unat (filesize - 1) = unat filesize - 1" if "0 < filesize"
    using that by (simp add: unat_minus_one word_gt_0)
  have len: "length (take (fs_limit fs1 - unat (filesize - 1)) [x]) = 1 \<Longrightarrow>
     take (fs_limit fs1 - unat (filesize - 1)) [x] = [x]" for x :: u8
    by (cases "fs_limit fs1 - unat (filesize - 1)") auto
  have "0 < filesize \<Longrightarrow> 0 < unat filesize" by (simp add: word_less_nat_alt)
  then show "fs_files fs' = (fs_files fs)(filename \<mapsto>
      if filesize = 0 then [] else replicate (unat filesize - 1) 0 @ [ucast filesize])"
    and "disk_ready WriteMode (if filesize = 0 then [] else replicate (unat filesize - 1) 0 @ [ucast filesize]) d' fs'"
    and "df_filename d' = filename" "df_filesize d' = filesize" "df_exists d'"
    and "fs_files fs filename = None"
    using assms p f len
    by (auto simp: disk_create_def Let_def file_exists_def os_fopen_wb_def os_fwrite_def
        disk_ready_def pos overwrite_def word_gt_0 split: if_splits)
qed

section \<open>Properties\<close>

text \<open>C35: for an open file whose cached offset is right, \<^verbatim>\<open>Read\<close> succeeds exactly when the range
  lies inside the file, and then delivers exactly those bytes, whatever the chunk size.\<close>

theorem disk_read_exact:
  assumes "disk_ready ReadMode content d fs" "off \<le> MaxOffset" "0 < maxlength" "0 < len" "length content < 2 ^ 64"
  shows "\<exists>ok got d'. disk_read off len maxlength d fs = Some (ok, got, d') \<and>
    ok = (unat off + len \<le> length content) \<and> (ok \<longrightarrow> got = take len (drop (unat off) content))"
proof (cases "unat off + len \<le> length content")
  case True
  with disk_read_inside [OF assms(1-3) True assms(5)] show ?thesis by auto
next
  case False
  with disk_read_past_end [OF assms(1-3) _ assms(4)] show ?thesis by fastforce
qed

definition sample_fs :: "bytes \<Rightarrow> fs" where
  "sample_fs content = \<lparr>fs_files = [''f'' \<mapsto> content], fs_dirs = \<lambda>_. False, fs_limit = 100\<rparr>"

definition sample_disk :: "file_mode \<Rightarrow> u64 \<Rightarrow> diskfile" where
  "sample_disk mode sz = \<lparr>df_filename = ''f'', df_filesize = sz,
     df_file = Some \<lparr>fh_mode = mode, fh_pos = 0\<rparr>, df_offset = 0, df_exists = True\<rparr>"

lemma sample_ready: "disk_ready mode content (sample_disk mode sz) (sample_fs content)"
  by (simp add: disk_ready_def sample_disk_def sample_fs_def)

theorem disk_read_exact_witness:
  "\<exists>got d'. disk_read 1 2 1 (sample_disk ReadMode 3) (sample_fs [7, 8, 9]) = Some (True, got, d') \<and> got = [8, 9]"
  using disk_read_exact [OF sample_ready [of ReadMode "[7, 8, 9]" 3], of 1 1 2] by auto

text \<open>C40: the read loop of the Windows branch never returns when the range extends past the end of
  the file, because \<^verbatim>\<open>ReadFile\<close> then succeeds with 0 bytes and an incomplete read is not an error.\<close>

theorem win_read_never_returns:
  assumes "fs_files fs (df_filename d) = Some content" "fh_mode h = ReadMode" "fh_pos h \<le> length content"
    and "length content < fh_pos h + len"
  shows "win_read_loop maxlength len buffer d h fs = None"
  using win_read_loop_returns [of maxlength len buffer d h fs] assms
  by (cases "win_read_loop maxlength len buffer d h fs") fastforce+

theorem win_read_never_returns_witness:
  "win_read_loop MAX_LENGTH 4 [] (sample_disk ReadMode 3) \<lparr>fh_mode = ReadMode, fh_pos = 0\<rparr> (sample_fs [7, 8, 9]) = None"
  by (rule win_read_never_returns [of _ _ "[7, 8, 9]"]) (simp_all add: sample_fs_def sample_disk_def)

text \<open>C34: a buffer that fits the disk and was written at any offset is read back after closing and
  reopening the file.\<close>

theorem disk_write_then_read:
  assumes "disk_ready WriteMode content d fs" "off \<le> MaxOffset" "0 < maxlength"
    and "unat off + length buffer \<le> fs_limit fs" "fs_limit fs < 2 ^ 63" "length content \<le> fs_limit fs"
  shows "\<exists>d1 fs1 d2 d3. disk_write off buffer maxlength d fs = Some (True, d1, fs1) \<and>
     disk_reopen (disk_close d1) fs1 = (True, d2) \<and>
     disk_read off (length buffer) maxlength d2 fs1 = Some (True, buffer, d3)"
  by (rule disk_write_read [OF assms])

theorem disk_write_then_read_witness:
  "\<exists>d1 fs1 d2 d3. disk_write 5 [1, 2, 3] 2 (sample_disk WriteMode 0) (sample_fs []) = Some (True, d1, fs1) \<and>
     disk_reopen (disk_close d1) fs1 = (True, d2) \<and> disk_read 5 3 2 d2 fs1 = Some (True, [1, 2, 3], d3)"
  using disk_write_then_read [OF sample_ready [of WriteMode "[]" 0], of 5 2 "[1, 2, 3]"]
  by (simp add: sample_fs_def numeral_3_eq_3)

text \<open>A successful \<^verbatim>\<open>Create\<close> made a new file of exactly the requested size, open for writing;
  it was not there before, no other file changed, and all its bytes are zero but the last, which is
  the low byte of the size.\<close>

lemma disk_create_new_file:
  assumes "disk_create filename filesize d fs = (True, d', fs')"
  shows "fs_files fs filename = None \<and>
    fs_files fs' = (fs_files fs)(filename \<mapsto>
      if filesize = 0 then [] else replicate (unat filesize - 1) 0 @ [ucast filesize]) \<and>
    df_filename d' = filename \<and> df_filesize d' = filesize \<and> df_exists d' \<and>
    disk_ready WriteMode (if filesize = 0 then [] else replicate (unat filesize - 1) 0 @ [ucast filesize]) d' fs'"
  using disk_create_content [OF assms] by simp

end
