(* ===== verification/DataBlock.thy ===== *)
theory DataBlock
  imports DiskFile
begin

text \<open>
  \<^verbatim>\<open>datablock.h\<close> and \<^verbatim>\<open>datablock.cpp\<close>: a block of data at an offset in a disk file. Many
  blocks point at the same \<^verbatim>\<open>DiskFile\<close>, and reading through one moves the position of that
  object, so the objects live in a store indexed by their address and a block holds an
  address. \<^verbatim>\<open>ReadData\<close> pads a short block with zeros; its theorem says exactly which bytes
  the buffer gets.
\<close>

record datablock =
  db_diskfile :: "nat option"
  db_offset :: u64
  db_length :: u64
  db_filesize :: u64

type_synonym disk_store = "nat \<Rightarrow> diskfile"

definition datablock_new :: datablock where
  "datablock_new = \<lparr>db_diskfile = None, db_offset = 0, db_length = 0, db_filesize = 0\<rparr>"

definition db_set_length :: "u64 \<Rightarrow> datablock \<Rightarrow> datablock" where
  "db_set_length len db = db\<lparr>db_length := len\<rparr>"

definition db_set_filesize :: "u64 \<Rightarrow> datablock \<Rightarrow> datablock" where
  "db_set_filesize filesize db = db\<lparr>db_filesize := filesize\<rparr>"

definition db_set_location :: "nat option \<Rightarrow> u64 \<Rightarrow> datablock \<Rightarrow> datablock" where
  "db_set_location diskfile off db = db\<lparr>db_diskfile := diskfile, db_offset := off\<rparr>"

definition db_clear_location :: "datablock \<Rightarrow> datablock" where
  "db_clear_location db = db\<lparr>db_diskfile := None, db_offset := 0\<rparr>"

definition db_is_set :: "disk_store \<Rightarrow> datablock \<Rightarrow> bool" where
  "db_is_set store db =
     (case db_diskfile db of
        None \<Rightarrow> False
      | Some p \<Rightarrow>
          if db_filesize db > 0 \<and>
             db_offset db + db_length db > df_filesize (store p) \<and> db_filesize db > df_filesize (store p)
          then False else True)"

definition db_open :: "datablock \<Rightarrow> disk_store \<Rightarrow> fs \<Rightarrow> bool \<times> disk_store" where
  "db_open db store fs =
     (case db_diskfile db of
        None \<Rightarrow> (False, store)
      | Some p \<Rightarrow>
          if df_file (store p) \<noteq> None then (True, store)
          else case disk_reopen (store p) fs of (ok, d) \<Rightarrow> (ok, store(p := d)))"

text \<open>
  \<^verbatim>\<open>ReadData\<close>. The sizes are 64 bit unsigned, so the distance to the end of the file wraps
  when the position is beyond it. The result carries the buffer as far as it was filled.
\<close>

definition db_read_data ::
  "u64 \<Rightarrow> u64 \<Rightarrow> datablock \<Rightarrow> disk_store \<Rightarrow> fs \<Rightarrow> (bool \<times> bytes \<times> disk_store) option" where
  "db_read_data position sz db store fs =
     (case db_diskfile db of
        None \<Rightarrow> None
      | Some p \<Rightarrow>
          if db_length db > position
          then let fileoffset = db_offset db + position;
                   want = min (min sz (db_length db - position)) (df_filesize (store p) - fileoffset)
               in (case disk_read fileoffset (unat want) MAX_LENGTH (store p) fs of
                     None \<Rightarrow> None
                   | Some (False, got, d) \<Rightarrow> Some (False, got, store(p := d))
                   | Some (True, got, d) \<Rightarrow>
                       Some (True, got @ replicate (unat sz - unat want) 0, store(p := d)))
          else Some (True, replicate (unat sz) 0, store))"

definition db_write_data ::
  "u64 \<Rightarrow> bytes \<Rightarrow> datablock \<Rightarrow> disk_store \<Rightarrow> fs \<Rightarrow> (bool \<times> u64 \<times> disk_store \<times> fs) option" where
  "db_write_data position buffer db store fs =
     (case db_diskfile db of
        None \<Rightarrow> None
      | Some p \<Rightarrow>
          if db_length db > position
          then let fileoffset = db_offset db + position;
                   have = min (word_of_nat (length buffer)) (db_length db - position)
               in (case disk_write fileoffset (take (unat have) buffer) MAX_LENGTH (store p) fs of
                     None \<Rightarrow> None
                   | Some (False, d, fs) \<Rightarrow> Some (False, 0, store(p := d), fs)
                   | Some (True, d, fs) \<Rightarrow> Some (True, have, store(p := d), fs))
          else Some (True, 0, store, fs))"

section \<open>What a read delivers\<close>

text \<open>The content of a block, and a window of it padded with zeros.\<close>

definition block_content :: "bytes \<Rightarrow> datablock \<Rightarrow> bytes" where
  "block_content content db = take (unat (db_length db)) (drop (unat (db_offset db)) content)"

definition padded :: "nat \<Rightarrow> bytes \<Rightarrow> bytes" where
  "padded n bs = take n bs @ replicate (n - length bs) 0"

lemma length_padded [buf_simps]: "length (padded n bs) = n"
  by (simp add: padded_def)

lemma unat_min: "unat (min a b) = min (unat a) (unat b)" for a b :: "'a::len word"
  by (auto simp: min_def word_le_nat_alt)

lemma unat_sub_le: "b \<le> a \<Longrightarrow> unat (a - b) = unat a - unat b" for a b :: "'a::len word"
  by (simp add: unat_sub)

text \<open>
  A block that starts inside its file: every read position gives the wanted window of the
  block, padded with zeros, and leaves the file ready for the next read.
\<close>

lemma db_read_data_window:
  assumes p: "db_diskfile db = Some p" "disk_ready ReadMode content (store p) fs"
    and size: "unat (df_filesize (store p)) = length content" "length content < 2 ^ 63"
    and inside: "unat (db_offset db) + unat position \<le> length content"
  shows "\<exists>store'. db_read_data position sz db store fs =
      Some (True, padded (unat sz) (drop (unat position) (block_content content db)), store') \<and>
      disk_ready ReadMode content (store' p) fs \<and> df_filesize (store' p) = df_filesize (store p) \<and>
      df_filename (store' p) = df_filename (store p) \<and> (\<forall>q. q \<noteq> p \<longrightarrow> store' q = store q)"
proof (cases "db_length db > position")
  case False
  then have "unat (db_length db) \<le> unat position" by (simp add: not_less word_le_nat_alt)
  then have "drop (unat position) (block_content content db) = []" by (simp add: block_content_def)
  with False p show ?thesis by (simp add: db_read_data_def padded_def)
next
  case True
  define fileoffset where "fileoffset = db_offset db + position"
  have fo: "unat fileoffset = unat (db_offset db) + unat position"
    using inside size by (simp add: fileoffset_def unat_word_ariths)
  then have le: "fileoffset \<le> df_filesize (store p)"
    using inside size by (simp add: word_le_nat_alt)
  define want where "want = min (min sz (db_length db - position)) (df_filesize (store p) - fileoffset)"
  have want: "unat want = min (min (unat sz) (unat (db_length db) - unat position)) (length content - unat fileoffset)"
    using True le size by (simp add: want_def unat_min unat_sub_le)
  have "fileoffset \<le> MaxOffset" using fo inside size by (simp add: word_le_nat_alt)
  moreover have "unat fileoffset + unat want \<le> length content" using want fo inside by simp
  ultimately obtain d where r: "disk_read fileoffset (unat want) MAX_LENGTH (store p) fs =
      Some (True, take (unat want) (drop (unat fileoffset) content), d)"
    "disk_ready ReadMode content d fs" "df_filesize d = df_filesize (store p)"
    "df_filename d = df_filename (store p)"
    using disk_read_inside [OF p(2), of fileoffset MAX_LENGTH "unat want"] size by auto
  have "take (unat want) (drop (unat fileoffset) content) @ replicate (unat sz - unat want) 0
      = padded (unat sz) (drop (unat position) (block_content content db))"
    using inside by (auto simp: padded_def block_content_def want fo drop_take add.commute min_def)
  with r True p show ?thesis
    by (auto simp: db_read_data_def Let_def fileoffset_def [symmetric] want_def [symmetric])
qed

text \<open>Reading a block at a position beyond the end of its file wraps the remaining length, and
  \<^verbatim>\<open>ReadData\<close> reports an error instead of padding with zeros.\<close>

lemma db_read_data_beyond:
  assumes p: "db_diskfile db = Some p" "disk_ready ReadMode content (store p) fs"
    and size: "unat (df_filesize (store p)) = length content"
    and beyond: "length content < unat (db_offset db) + unat position"
      "unat (db_offset db) + unat position < 2 ^ 63"
    and pos: "position < db_length db" "0 < sz"
  shows "\<exists>got store'. db_read_data position sz db store fs = Some (False, got, store')"
proof -
  define fileoffset where "fileoffset = db_offset db + position"
  have fo: "unat fileoffset = unat (db_offset db) + unat position"
    using beyond by (simp add: fileoffset_def unat_word_ariths)
  define want where "want = min (min sz (db_length db - position)) (df_filesize (store p) - fileoffset)"
  have "df_filesize (store p) \<noteq> fileoffset" using fo beyond size by auto
  then have "0 < want" using pos by (simp add: want_def word_gt_0)
  then have "0 < unat want" by (simp add: word_less_nat_alt)
  moreover have "fileoffset \<le> MaxOffset" using fo beyond by (simp add: word_le_nat_alt)
  ultimately obtain got d where "disk_read fileoffset (unat want) MAX_LENGTH (store p) fs = Some (False, got, d)"
    using disk_read_past_end [OF p(2), of fileoffset MAX_LENGTH "unat want"] fo beyond by auto
  with p pos show ?thesis
    by (auto simp: db_read_data_def Let_def fileoffset_def [symmetric] want_def [symmetric])
qed


text \<open>C33: \<^verbatim>\<open>ReadData\<close> on a block that starts inside its file fills the buffer with the wanted window
  of the block followed by zeros, whether the block ends before, at or after the end of the file; the
  file stays readable and no other file object is touched.\<close>

theorem db_read_data_correct:
  assumes "db_diskfile db = Some p" "disk_ready ReadMode content (store p) fs"
    and "unat (df_filesize (store p)) = length content" "length content < 2 ^ 63"
    and "unat (db_offset db) + unat position \<le> length content"
  shows "\<exists>store'. db_read_data position sz db store fs =
      Some (True, padded (unat sz) (drop (unat position) (block_content content db)), store') \<and>
      disk_ready ReadMode content (store' p) fs \<and> (\<forall>q. q \<noteq> p \<longrightarrow> store' q = store q)"
  using db_read_data_window [where store = store and db = db and position = position and sz = sz, OF assms]
  by blast

theorem db_read_data_correct_witness:
  "\<exists>store'. db_read_data 1 4 \<lparr>db_diskfile = Some 0, db_offset = 0, db_length = 8, db_filesize = 8\<rparr>
      (\<lambda>_. sample_disk ReadMode 3) (sample_fs [7, 8, 9]) = Some (True, [8, 9, 0, 0], store')"
proof -
  have "padded (unat (4::u64)) (drop (unat (1::u64)) (block_content [7, 8, 9]
      \<lparr>db_diskfile = Some 0, db_offset = 0, db_length = 8, db_filesize = 8\<rparr>)) = [8, 9, 0, 0]"
    by code_simp
  then show ?thesis
    using db_read_data_correct [where store = "\<lambda>_. sample_disk ReadMode 3" and fs = "sample_fs [7, 8, 9]"
      and p = 0 and content = "[7, 8, 9]" and position = 1 and sz = 4
      and db = "\<lparr>db_diskfile = Some 0, db_offset = 0, db_length = 8, db_filesize = 8\<rparr>"]
      sample_ready [of ReadMode "[7, 8, 9]" 3]
    by (auto simp: sample_disk_def)
qed

end
