(* ===== verification/Par1.thy ===== *)
theory Par1
  imports RS_Process DataBlock
begin

text \<open>
  The repair core of \<^verbatim>\<open>par1repairer.cpp\<close>: \<^verbatim>\<open>ComputeRSmatrix\<close>, \<^verbatim>\<open>AllocateBuffers\<close>,
  \<^verbatim>\<open>ProcessData\<close> and the loop of \<^verbatim>\<open>Process\<close> that cuts the blocks into chunks, over the data
  blocks of \<open>DataBlock\<close> and the matrix object of \<open>ReedSolomon\<close>. Reading, matrix and
  processing are joined in the last section: what is handed to the target blocks is the
  missing data.
\<close>

section \<open>State\<close>

record par1 =
  p1_sourceblocks :: "datablock list"
  p1_targetblocks :: "datablock list"
  p1_recoveryblocks :: "(u32 \<times> datablock) list"
  p1_verifycount :: nat
  p1_blocksize :: u64
  p1_inputblocks :: "datablock list"
  p1_outputblocks :: "datablock list"
  p1_rs :: rs
  p1_chunksize :: nat

datatype par1_error = P1_OpenFailed | P1_OutOfBounds | P1_Compute rs_error

section \<open>\<^verbatim>\<open>ComputeRSmatrix\<close>\<close>

text \<open>The loop over the source files: which blocks are present, the inputs and the outputs.\<close>

fun par1_scan_sources ::
  "(datablock \<times> datablock) list \<Rightarrow> disk_store \<Rightarrow> fs \<Rightarrow>
   (bool list \<times> datablock list \<times> datablock list \<times> disk_store) option" where
  "par1_scan_sources [] store fs = Some ([], [], [], store)"
| "par1_scan_sources ((sourceblock, targetblock) # files) store fs =
     (if db_is_set store sourceblock
      then (case db_open sourceblock store fs of
              (False, store) \<Rightarrow> None
            | (True, store) \<Rightarrow>
                do {
                  (present, inputs, outputs, store) \<leftarrow> par1_scan_sources files store fs;
                  Some (True # present, sourceblock # inputs, outputs, store)
                })
      else do {
             (present, inputs, outputs, store) \<leftarrow> par1_scan_sources files store fs;
             Some (False # present, inputs, targetblock # outputs, store)
           })"

text \<open>Filling the rest of the inputs from the recovery blocks, lowest exponent first.\<close>

fun par1_take_recovery ::
  "nat \<Rightarrow> (u32 \<times> datablock) list \<Rightarrow> rs \<Rightarrow> disk_store \<Rightarrow> fs \<Rightarrow>
   par1_error + datablock list \<times> rs \<times> disk_store" where
  "par1_take_recovery 0 recovery s store fs = Inr ([], s, store)"
| "par1_take_recovery (Suc n) [] s store fs = Inl P1_OutOfBounds"
| "par1_take_recovery (Suc n) ((exponent, recoveryblock) # recovery) s store fs =
     (case db_open recoveryblock store fs of
        (False, store) \<Rightarrow> Inl P1_OpenFailed
      | (True, store) \<Rightarrow>
          (case par1_take_recovery n recovery (rs_set_output True (ucast exponent) s) store fs of
             Inl e \<Rightarrow> Inl e
           | Inr (blocks, s, store) \<Rightarrow> Inr (recoveryblock # blocks, s, store)))"

definition par1_compute_matrix :: "par1 \<Rightarrow> disk_store \<Rightarrow> fs \<Rightarrow> par1_error + par1 \<times> disk_store" where
  "par1_compute_matrix p store fs =
     (case par1_scan_sources (zip (p1_sourceblocks p) (p1_targetblocks p)) store fs of
        None \<Rightarrow> Inl P1_OpenFailed
      | Some (present, inputs, outputs, store) \<Rightarrow>
          (case rs_set_input present (p1_rs p) of
             None \<Rightarrow> Inl P1_OutOfBounds
           | Some s \<Rightarrow>
               (case par1_take_recovery (length (p1_sourceblocks p) - length inputs)
                       (p1_recoveryblocks p) s store fs of
                  Inl e \<Rightarrow> Inl e
                | Inr (blocks, s, store) \<Rightarrow>
                    let p = p\<lparr>p1_inputblocks := inputs @ blocks, p1_outputblocks := outputs\<rparr>
                    in if p1_verifycount p = 0 then Inr (p\<lparr>p1_rs := s\<rparr>, store)
                       else case rs_compute s of
                              Inl e \<Rightarrow> Inl (P1_Compute e)
                            | Inr s \<Rightarrow> Inr (p\<lparr>p1_rs := s\<rparr>, store))))"

section \<open>Buffers and chunks\<close>

text \<open>\<^verbatim>\<open>AllocateBuffers\<close>: a whole block at a time if that fits the memory limit.\<close>

definition par1_allocate_buffers :: "nat \<Rightarrow> par1 \<Rightarrow> par1" where
  "par1_allocate_buffers memorylimit p =
     (if unat (p1_blocksize p * word_of_nat (p1_verifycount p)) > memorylimit
      then p\<lparr>p1_chunksize := (memorylimit div p1_verifycount p) div 4 * 4\<rparr>
      else p\<lparr>p1_chunksize := unat (p1_blocksize p)\<rparr>)"

text \<open>
  The chunk loop of \<^verbatim>\<open>Process\<close>: the offsets and lengths it passes to \<^verbatim>\<open>ProcessData\<close>. With a
  chunk size of 0 it would not end.
\<close>

partial_function (option) par1_chunks :: "nat \<Rightarrow> nat \<Rightarrow> nat \<Rightarrow> (nat \<times> nat) list option" where
  "par1_chunks chunksize blocksize blockoffset =
     (if blockoffset < blocksize
      then let blocklength = min chunksize (blocksize - blockoffset)
           in do {
                chunks \<leftarrow> par1_chunks chunksize blocksize (blockoffset + blocklength);
                Some ((blockoffset, blocklength) # chunks)
              }
      else Some [])"

section \<open>\<^verbatim>\<open>ProcessData\<close>\<close>

fun par1_read_inputs ::
  "u64 \<Rightarrow> u64 \<Rightarrow> rs \<Rightarrow> (nat \<times> datablock) list \<Rightarrow> bytes list \<Rightarrow> disk_store \<Rightarrow> fs \<Rightarrow>
   (bool \<times> bytes list \<times> disk_store) option" where
  "par1_read_inputs blockoffset blocklength s [] outs store fs = Some (True, outs, store)"
| "par1_read_inputs blockoffset blocklength s ((inputindex, inputblock) # inputs) outs store fs =
     (case db_read_data blockoffset blocklength inputblock store fs of
        None \<Rightarrow> None
      | Some (False, _, store) \<Rightarrow> Some (False, outs, store)
      | Some (True, inputbuffer, store) \<Rightarrow>
          par1_read_inputs blockoffset blocklength s inputs
            (process_input (unat blocklength) s (inputindex, inputbuffer) outs) store fs)"

fun par1_write_outputs ::
  "u64 \<Rightarrow> (datablock \<times> bytes) list \<Rightarrow> disk_store \<Rightarrow> fs \<Rightarrow> (bool \<times> disk_store \<times> fs) option" where
  "par1_write_outputs blockoffset [] store fs = Some (True, store, fs)"
| "par1_write_outputs blockoffset ((outputblock, outbuf) # outputs) store fs =
     (case db_write_data blockoffset outbuf outputblock store fs of
        None \<Rightarrow> None
      | Some (False, _, store, fs) \<Rightarrow> Some (False, store, fs)
      | Some (True, _, store, fs) \<Rightarrow> par1_write_outputs blockoffset outputs store fs)"

definition par1_process_data ::
  "u64 \<Rightarrow> u64 \<Rightarrow> par1 \<Rightarrow> disk_store \<Rightarrow> fs \<Rightarrow> (bool \<times> disk_store \<times> fs) option" where
  "par1_process_data blockoffset blocklength p store fs =
     (let inputs = (if p1_verifycount p = 0 then [] else enumerate 0 (p1_inputblocks p));
          outs = replicate (p1_verifycount p) (replicate (unat blocklength) 0)
      in case par1_read_inputs blockoffset blocklength (p1_rs p) inputs outs store fs of
           None \<Rightarrow> None
         | Some (False, _, store) \<Rightarrow> Some (False, store, fs)
         | Some (True, outs, store) \<Rightarrow>
             par1_write_outputs blockoffset (zip (p1_outputblocks p) outs) store fs)"

section \<open>The chunks tile the block\<close>

lemma par1_chunks_returns:
  assumes "0 < chunksize"
  shows "\<exists>chunks. par1_chunks chunksize blocksize off = Some chunks \<and>
    concat (map (\<lambda>(o', l). [o'..<o' + l]) chunks) = [off..<blocksize] \<and>
    (\<forall>(o', l)\<in>set chunks. 0 < l \<and> l \<le> chunksize)"
proof (induction "blocksize - off" arbitrary: off rule: less_induct)
  case less
  show ?case
  proof (cases "off < blocksize")
    case False
    then show ?thesis by (subst par1_chunks.simps) simp
  next
    case True
    define l where "l = min chunksize (blocksize - off)"
    have l: "0 < l" "off + l \<le> blocksize" "l \<le> chunksize" using True assms by (auto simp: l_def)
    then obtain chunks where c: "par1_chunks chunksize blocksize (off + l) = Some chunks"
      "concat (map (\<lambda>(o', l). [o'..<o' + l]) chunks) = [off + l..<blocksize]"
      "\<forall>(o', l)\<in>set chunks. 0 < l \<and> l \<le> chunksize"
      using less [of "off + l"] True diff_less_mono2 [of off "off + l" blocksize] by auto
    moreover have "[off..<off + l] @ [off + l..<blocksize] = [off..<blocksize]"
      using l(2) by (metis le_add1 le_add_diff_inverse upt_add_eq_append)
    ultimately show ?thesis
      using True l by (subst par1_chunks.simps) (simp add: l_def [symmetric])
  qed
qed

lemma par1_chunksize_bounds:
  assumes "0 < p1_verifycount p" "4 * p1_verifycount p \<le> memorylimit" "0 < p1_blocksize p"
    and "unat (p1_blocksize p) * p1_verifycount p < 2 ^ 64"
  shows "0 < p1_chunksize (par1_allocate_buffers memorylimit p)"
    and "p1_chunksize (par1_allocate_buffers memorylimit p) * p1_verifycount p \<le> memorylimit"
proof -
  let ?n = "p1_verifycount p" and ?q = "memorylimit div p1_verifycount p"
  have m: "unat (p1_blocksize p * word_of_nat ?n) = unat (p1_blocksize p) * ?n"
    using assms by (simp add: unat_word_ariths unat_of_nat mod_mult_right_eq)
  have q: "4 \<le> ?q" using assms(1,2) by (simp add: less_eq_div_iff_mult_less_eq)
  have "?q div 4 * 4 \<le> ?q" by simp
  then have "?q div 4 * 4 * ?n \<le> ?q * ?n" by (rule mult_le_mono1)
  also have "\<dots> \<le> memorylimit" by simp
  finally have "?q div 4 * 4 * ?n \<le> memorylimit" .
  moreover have "0 < ?q div 4 * 4" using q by simp
  moreover have "0 < unat (p1_blocksize p)" using assms(3) by (simp add: word_less_nat_alt)
  ultimately show "0 < p1_chunksize (par1_allocate_buffers memorylimit p)"
    and "p1_chunksize (par1_allocate_buffers memorylimit p) * ?n \<le> memorylimit"
    by (auto simp: par1_allocate_buffers_def m)
qed

section \<open>The matrix stands for the blocks that were found\<close>

abbreviation (input) recovery_rows :: "(u32 \<times> datablock) list \<Rightarrow> rs_outputrow list" where
  "recovery_rows recovery \<equiv> map (\<lambda>(e, _). \<lparr>row_present = True, row_exponent = ucast e\<rparr>) recovery"

lemma par1_scan_sources_sound:
  "par1_scan_sources files store fs = Some (present, inputs, outputs, store') \<Longrightarrow>
   length present = length files \<and>
   inputs = map (\<lambda>i. fst (files ! i)) (indices (\<lambda>b. b) present) \<and>
   outputs = map (\<lambda>i. snd (files ! i)) (indices Not present)"
proof (induction files arbitrary: present inputs outputs store)
  case Nil
  then show ?case by (simp add: indices_def)
next
  case (Cons f files)
  obtain sb tb where f: "f = (sb, tb)" by fastforce
  have shift: "map g (indices q (b # bs)) = (if q b then [g 0] else []) @ map (\<lambda>i. g (Suc i)) (indices q bs)"
    for g :: "nat \<Rightarrow> datablock" and q b bs
    by (auto simp: indices_def upt_conv_Cons map_Suc_upt [symmetric] filter_map comp_def simp del: upt_Suc)
  have "\<exists>b bs ins outs st. present = b # bs \<and> inputs = (if b then [sb] else []) @ ins \<and>
    outputs = (if b then [] else [tb]) @ outs \<and>
    par1_scan_sources files st fs = Some (bs, ins, outs, store')"
  proof (cases "db_is_set store sb")
    case True
    with Cons.prems show ?thesis
      by (intro exI [of _ True]) (auto simp: f split: prod.splits bool.splits Option.bind_splits)
  next
    case False
    with Cons.prems show ?thesis
      by (intro exI [of _ False]) (auto simp: f split: prod.splits bool.splits Option.bind_splits)
  qed
  then show ?case using Cons.IH by (auto simp: shift f)
qed

lemma par1_take_recovery_sound:
  "par1_take_recovery n recovery s store fs = Inr (blocks, s', store') \<Longrightarrow>
   rs_ready present rows s \<Longrightarrow>
   n \<le> length recovery \<and> blocks = map snd (take n recovery) \<and>
   rs_ready present (rows @ recovery_rows (take n recovery)) s'"
proof (induction n recovery s store fs arbitrary: rows blocks rule: par1_take_recovery.induct)
  case (3 n exponent db recovery s store fs)
  from "3.prems"(1) obtain st blocks' where "db_open db store fs = (True, st)" "blocks = db # blocks'"
    "par1_take_recovery n recovery (rs_set_output True (ucast exponent) s) st fs = Inr (blocks', s', store')"
    by (auto split: prod.splits bool.splits sum.splits)
  with "3.IH" rs_ready_output [OF "3.prems"(2), of True "ucast exponent"] show ?case by fastforce
qed auto

text \<open>C24: when \<^verbatim>\<open>ComputeRSmatrix\<close> succeeds there is a vector \<open>present\<close> such that the inputs are the
  source blocks that were found followed by the recovery blocks of the lowest exponents, the outputs
  are the target blocks of the missing files, and the matrix is the one computed for exactly these
  blocks and exponents.\<close>

theorem par1_compute_matrix_sound:
  assumes "par1_compute_matrix p store fs = Inr (p', store')" "p1_rs p = rs_new" "p1_verifycount p \<noteq> 0"
    and "length (p1_targetblocks p) = length (p1_sourceblocks p)"
  shows "\<exists>present s. let used = take (length (indices Not present)) (p1_recoveryblocks p)
    in length present = length (p1_sourceblocks p) \<and>
       length (indices Not present) \<le> length (p1_recoveryblocks p) \<and>
       p1_inputblocks p' = map ((!) (p1_sourceblocks p)) (indices (\<lambda>b. b) present) @ map snd used \<and>
       p1_outputblocks p' = map ((!) (p1_targetblocks p)) (indices Not present) \<and>
       rs_ready present (recovery_rows used) s \<and> rs_compute s = Inr (p1_rs p')"
proof -
  from assms(1,3) obtain present inputs outputs st s blocks s1 where
    scan: "par1_scan_sources (zip (p1_sourceblocks p) (p1_targetblocks p)) store fs = Some (present, inputs, outputs, st)"
    and inp: "rs_set_input present (p1_rs p) = Some s"
    and take: "par1_take_recovery (length (p1_sourceblocks p) - length inputs) (p1_recoveryblocks p) s st fs
      = Inr (blocks, s1, store')"
    and comp: "rs_compute s1 = Inr (p1_rs p')"
    and p': "p1_inputblocks p' = inputs @ blocks" "p1_outputblocks p' = outputs"
    by (auto simp: par1_compute_matrix_def Let_def split: option.splits sum.splits prod.splits if_splits)
  note scan = par1_scan_sources_sound [OF scan]
  have less: "i \<in> set (indices q present) \<Longrightarrow> i < length (p1_sourceblocks p)" for i q
    using scan assms(4) by (auto simp: indices_def)
  have len: "length (p1_sourceblocks p) - length inputs = length (indices Not present)"
    using scan assms(4) length_indices [of present] by simp
  have "rs_ready present [] s"
    using rs_setup_ready [of present "[]"] inp assms(2) by (auto simp: rs_setup_calls_def)
  note ready = par1_take_recovery_sound [OF take this, unfolded len]
  show ?thesis
    by (rule exI [of _ present], rule exI [of _ s1])
      (use scan ready comp p' less assms(4) in \<open>auto simp: Let_def intro!: map_cong\<close>)
qed

section \<open>Reading through the disk blocks\<close>

text \<open>A data block that can be read at \<open>pos\<close>, and what it holds there.\<close>

definition readable :: "disk_store \<Rightarrow> fs \<Rightarrow> u64 \<Rightarrow> nat \<Rightarrow> datablock \<Rightarrow> bytes \<Rightarrow> bool" where
  "readable store fs pos L db b \<longleftrightarrow>
     (\<exists>p content. db_diskfile db = Some p \<and> disk_ready ReadMode content (store p) fs \<and>
        unat (df_filesize (store p)) = length content \<and> length content < 2 ^ 63 \<and>
        unat (db_offset db) + unat pos \<le> length content \<and>
        b = padded L (drop (unat pos) (block_content content db)))"

lemma readable_read:
  assumes "readable store fs pos (unat sz) db b"
  shows "\<exists>store'. db_read_data pos sz db store fs = Some (True, b, store') \<and>
    (\<forall>db' b'. readable store fs pos (unat sz) db' b' \<longrightarrow> readable store' fs pos (unat sz) db' b')"
proof -
  obtain p content where p: "db_diskfile db = Some p" "disk_ready ReadMode content (store p) fs"
    "unat (df_filesize (store p)) = length content" "length content < 2 ^ 63"
    "unat (db_offset db) + unat pos \<le> length content"
    "b = padded (unat sz) (drop (unat pos) (block_content content db))"
    using assms by (auto simp: readable_def)
  obtain store' where s: "db_read_data pos sz db store fs = Some (True, b, store')"
    "disk_ready ReadMode content (store' p) fs" "df_filesize (store' p) = df_filesize (store p)"
    "\<forall>q. q \<noteq> p \<longrightarrow> store' q = store q"
    using db_read_data_window [where store = store and db = db and position = pos and sz = sz, OF p(1-5)] p(6)
    by auto
  have "readable store' fs pos (unat sz) db' b'" if r: "readable store fs pos (unat sz) db' b'" for db' b'
  proof -
    from r obtain q c where q: "db_diskfile db' = Some q" "disk_ready ReadMode c (store q) fs"
      "unat (df_filesize (store q)) = length c" "length c < 2 ^ 63"
      "unat (db_offset db') + unat pos \<le> length c"
      "b' = padded (unat sz) (drop (unat pos) (block_content c db'))"
      by (auto simp: readable_def)
    have c: "q = p \<Longrightarrow> c = content"
      using q(2) p(2) by (auto simp: disk_ready_def)
    have "disk_ready ReadMode c (store' q) fs \<and> df_filesize (store' q) = df_filesize (store q)"
      by (cases "q = p") (use c s q in auto)
    with q show ?thesis unfolding readable_def by metis
  qed
  with s(1) show ?thesis by blast
qed

lemma par1_read_inputs_all:
  assumes "list_all2 (\<lambda>(c, db) (c', b). c = c' \<and> readable store fs pos (unat sz) db b) inputs bufs"
  shows "\<exists>store'. par1_read_inputs pos sz s inputs outs store fs =
    Some (True, fold (process_input (unat sz) s) bufs outs, store')"
  using assms
proof (induction inputs arbitrary: bufs outs store)
  case Nil
  then show ?case by simp
next
  case (Cons x inputs)
  obtain c db where x: "x = (c, db)" by fastforce
  from Cons.prems x obtain b bufs' where b: "bufs = (c, b) # bufs'" "readable store fs pos (unat sz) db b"
    "list_all2 (\<lambda>(c, db) (c', b). c = c' \<and> readable store fs pos (unat sz) db b) inputs bufs'"
    by (auto simp: list_all2_Cons1)
  from readable_read [OF b(2)] obtain store' where r: "db_read_data pos sz db store fs = Some (True, b, store')"
    "\<And>db' b'. readable store fs pos (unat sz) db' b' \<Longrightarrow> readable store' fs pos (unat sz) db' b'" by blast
  have "list_all2 (\<lambda>(c, db) (c', b). c = c' \<and> readable store' fs pos (unat sz) db b) inputs bufs'"
    by (rule list_all2_mono [OF b(3)]) (auto intro: r(2))
  from Cons.IH [OF this] show ?case by (simp add: x b(1) r(1))
qed

lemma list_all2_enumerate:
  "list_all2 R xs ys \<Longrightarrow> list_all2 (\<lambda>(c, x) (c', y). c = c' \<and> R x y) (enumerate k xs) (enumerate k ys)"
  by (induction arbitrary: k rule: list_all2_induct) simp_all

text \<open>C3: the inputs of the repairer hold, at the chunk being processed, the present data blocks
  and the recovery blocks, and the matrix was computed; then what \<^verbatim>\<open>ProcessData\<close> writes to the
  target blocks is that chunk of the missing data blocks.\<close>

theorem par1_process_data_recovers:
  assumes ready: "rs_ready present rows s" "small_rows rows" "rs_compute s = Inr (p1_rs p)"
    and data: "length data = length present" "\<forall>b\<in>set data. length b = unat len"
    and outs: "p1_verifycount p = length (indices Not present) + length (filter (\<lambda>r. \<not> row_present r) rows)"
    and inputs: "list_all2 (readable store fs pos (unat len)) (p1_inputblocks p)
      (known_blocks (unat len) data present rows)"
  shows "\<exists>store'. par1_process_data pos len p store fs =
    par1_write_outputs pos (zip (p1_outputblocks p) (wanted_blocks (unat len) data present rows)) store' fs"
proof -
  have "p1_verifycount p \<noteq> 0"
    using rs_compute_inv(4) [OF ready(3)] rs_ready_reads [OF ready(1)] outs by (auto simp: rs_reads_def)
  moreover obtain store' where "par1_read_inputs pos len (p1_rs p) (enumerate 0 (p1_inputblocks p))
      (replicate (p1_verifycount p) (replicate (unat len) 0)) store fs =
    Some (True, process_inputs (unat len) (p1_rs p) (p1_verifycount p) (known_blocks (unat len) data present rows), store')"
    using par1_read_inputs_all [OF list_all2_enumerate [OF inputs]] unfolding process_inputs_def by blast
  ultimately show ?thesis
    using process_recovers [OF ready data] by (auto simp: par1_process_data_def Let_def outs)
qed


section \<open>A repair of two one byte files\<close>

text \<open>The file \<^verbatim>\<open>a\<close> with the byte 5 is there, the second file (byte 9) is missing, and the recovery
  block with exponent 0 in \<^verbatim>\<open>r\<close> holds 12.\<close>

definition ex_fs :: fs where
  "ex_fs = \<lparr>fs_files = [''a'' \<mapsto> [5], ''r'' \<mapsto> [12], ''b'' \<mapsto> [1]], fs_dirs = \<lambda>_. False, fs_limit = 100\<rparr>"

definition ex_disk :: "string \<Rightarrow> diskfile" where
  "ex_disk name = \<lparr>df_filename = name, df_filesize = 1,
     df_file = Some \<lparr>fh_mode = ReadMode, fh_pos = 0\<rparr>, df_offset = 0, df_exists = True\<rparr>"

definition ex_store :: disk_store where
  "ex_store n = (if n = 0 then ex_disk ''a'' else if n = 1 then ex_disk ''r'' else ex_disk ''b'')"

definition ex_block :: "nat option \<Rightarrow> datablock" where
  "ex_block p = \<lparr>db_diskfile = p, db_offset = 0, db_length = 1, db_filesize = 1\<rparr>"

definition ex_rows :: "rs_outputrow list" where
  "ex_rows = [\<lparr>row_present = True, row_exponent = 0\<rparr>]"

definition ex_rs :: rs where
  "ex_rs = rs_set_output True 0 (rs_new\<lparr>rs_inputcount := 2, rs_datapresent := 1, rs_datamissing := 1,
     rs_datapresentindex := [0, 0], rs_datamissingindex := [1, 0], rs_database := [1, 2]\<rparr>)"

definition ex_par1 :: par1 where
  "ex_par1 = \<lparr>p1_sourceblocks = [ex_block (Some 0), ex_block None],
     p1_targetblocks = [ex_block None, ex_block (Some 2)],
     p1_recoveryblocks = [(0, ex_block (Some 1))], p1_verifycount = 1, p1_blocksize = 1,
     p1_inputblocks = [ex_block (Some 0), ex_block (Some 1)], p1_outputblocks = [ex_block (Some 2)],
     p1_rs = rs_new, p1_chunksize = 1\<rparr>"

lemmas ex_defs = ex_fs_def ex_disk_def ex_store_def ex_block_def ex_rows_def ex_par1_def

lemma ex_indices: "indices (\<lambda>b. b) [True, False] = [0]" "indices Not [True, False] = [1]"
  by (simp_all add: indices_def upt_rec [of 0] upt_rec [of 1])

lemma ex_ready: "rs_ready [True, False] ex_rows ex_rs"
  by (auto simp: rs_ready_def input_inv_def ex_rs_def rs_set_output_def Let_def rs_new_def ex_indices
      ex_rows_def less_Suc_eq)

lemma ex_rs_compute: "\<exists>s'. rs_compute ex_rs = Inr s'"
  by (simp add: ex_rs_def rs_set_output_def Let_def rs_new_def rs_compute_def rs_matrices_def rs_powers_def
      galois_pow_def gauss_elim_def gauss_row_def gauss_scale_def gauss_row2_def galois8_ops
      upt_rec [of 0] upt_rec [of 1] numeral_2_eq_2)

theorem par1_process_data_recovers_witness:
  "\<exists>s' store'. rs_compute ex_rs = Inr s' \<and>
     par1_process_data 0 1 (ex_par1\<lparr>p1_rs := s'\<rparr>) ex_store ex_fs =
       par1_write_outputs 0 [(ex_block (Some 2), [9])] store' ex_fs"
proof -
  obtain s' where c: "rs_compute ex_rs = Inr s'" using ex_rs_compute by blast
  let ?p = "ex_par1\<lparr>p1_rs := s'\<rparr>"
  have k: "known_blocks (unat (1::u64)) [[5], [9]] [True, False] ex_rows = [[5], [12]]"
    by (simp add: known_blocks_def ex_indices ex_rows_def recovery_block_def rs_recovery_def
        numeral_2_eq_2 upt_rec [of 0]) (simp add: galois8_ops galois_add_def)
  have w: "wanted_blocks (unat (1::u64)) [[5], [9]] [True, False] ex_rows = [[9]]"
    by (simp add: wanted_blocks_def ex_indices ex_rows_def)
  have "\<exists>store'. par1_process_data 0 1 ?p ex_store ex_fs =
    par1_write_outputs 0 (zip (p1_outputblocks ?p) (wanted_blocks (unat (1::u64)) [[5], [9]] [True, False] ex_rows)) store' ex_fs"
  proof (rule par1_process_data_recovers [OF ex_ready])
    show "list_all2 (readable ex_store ex_fs 0 (unat (1::u64))) (p1_inputblocks ?p)
      (known_blocks (unat (1::u64)) [[5], [9]] [True, False] ex_rows)"
      unfolding k by (simp add: ex_defs readable_def disk_ready_def padded_def block_content_def)
  qed (simp_all add: c ex_rows_def small_rows_def ex_indices ex_par1_def)
  moreover have "zip (p1_outputblocks ?p) [[9]] = [(ex_block (Some 2), [9 :: u8])]"
    by (simp add: ex_par1_def)
  ultimately show ?thesis using c unfolding w by metis
qed

theorem par1_compute_matrix_sound_witness:
  "\<exists>p' store'. par1_compute_matrix ex_par1 ex_store ex_fs = Inr (p', store') \<and>
     length (p1_inputblocks p') = 2"
proof -
  have "\<exists>p' store'. par1_compute_matrix ex_par1 ex_store ex_fs = Inr (p', store')"
    using ex_rs_compute
    by (auto simp: par1_compute_matrix_def ex_defs db_is_set_def db_open_def rs_set_input_def put_at_def
      rs_new_def Let_def ex_rs_def rs_set_output_def numeral_2_eq_2)
  then obtain p' store' where r: "par1_compute_matrix ex_par1 ex_store ex_fs = Inr (p', store')" by blast
  have prem: "p1_rs ex_par1 = rs_new" "p1_verifycount ex_par1 \<noteq> 0"
    "length (p1_targetblocks ex_par1) = length (p1_sourceblocks ex_par1)"
    and len: "length (p1_sourceblocks ex_par1) = 2" "length (p1_recoveryblocks ex_par1) = 1"
    by (simp_all add: ex_par1_def)
  from par1_compute_matrix_sound [OF r prem, unfolded Let_def len] obtain present where
    "length present = 2" "length (indices Not present) \<le> 1"
    "p1_inputblocks p' = map ((!) (p1_sourceblocks ex_par1)) (indices (\<lambda>b. b) present) @
       map snd (take (length (indices Not present)) (p1_recoveryblocks ex_par1))" by blast
  with r length_indices [of present] len show ?thesis by auto
qed

end
