(* ===== verification/RS_Singular.thy ===== *)
theory RS_Singular
  imports RS_Process
begin

text \<open>
  When \<^verbatim>\<open>Compute\<close> succeeds. \<^verbatim>\<open>GaussElim\<close> does no row swapping; a zero pivot is the error
  \<^verbatim>\<open>RS computation error\<close>. A zero pivot at row \<open>k\<close> is a linear dependency between the first
  \<open>k + 1\<close> rows in the first \<open>k + 1\<close> columns, which for consecutive exponents would be a
  polynomial with too many roots. For other exponents the error does happen.
\<close>

section \<open>A monic polynomial has no more roots than its degree\<close>

definition monic :: "'g::field list \<Rightarrow> 'g \<Rightarrow> 'g" where
  "monic cs x = fold (\<lambda>c acc. acc * x + c) cs 1"

lemma monic_simps: "monic [] x = 1" "monic (cs @ [c]) x = monic cs x * x + c"
  by (simp_all add: monic_def)

lemma monic_divide:
  "cs \<noteq> [] \<Longrightarrow> \<exists>qs. length cs = Suc (length qs) \<and> (\<forall>x. monic cs x = (x - a) * monic qs x + monic cs a)"
proof (induction cs rule: rev_induct)
  case (snoc c cs)
  show ?case
  proof (cases "cs = []")
    case True
    then show ?thesis by (intro exI [of _ "[]"]) (simp add: monic_def)
  next
    case False
    define r where "r = monic cs a"
    obtain qs where qs: "length cs = Suc (length qs)" "\<And>x. monic cs x = (x - a) * monic qs x + r"
      using snoc.IH [OF False] unfolding r_def by blast
    have "monic (cs @ [c]) x = (x - a) * monic (qs @ [r]) x + monic (cs @ [c]) a" for x
      unfolding monic_simps qs(2) by (simp add: algebra_simps)
    note step = this
    show ?thesis by (intro exI [of _ "qs @ [r]"] conjI allI step) (simp add: qs(1))
  qed
qed simp

lemma monic_roots: "distinct xs \<Longrightarrow> \<forall>x\<in>set xs. monic cs x = 0 \<Longrightarrow> length xs \<le> length cs"
proof (induction "length cs" arbitrary: cs xs)
  case 0
  then show ?case by (cases xs) (auto simp: monic_def)
next
  case (Suc n)
  then have ne: "cs \<noteq> []" by auto
  show ?case
  proof (cases xs)
    case (Cons a ys)
    obtain qs where q: "length cs = Suc (length qs)" "\<forall>x. monic cs x = (x - a) * monic qs x + monic cs a"
      using monic_divide [OF ne, of a] by blast
    have "monic cs a = 0" using Suc.prems(2) Cons by simp
    moreover have "y \<in> set ys \<Longrightarrow> y \<noteq> a" for y using Suc.prems(1) Cons by auto
    moreover have "y \<in> set ys \<Longrightarrow> (y - a) * monic qs y + monic cs a = 0" for y
      using q(2) [rule_format, of y, symmetric] Suc.prems(2) Cons by simp
    ultimately have "\<forall>y\<in>set ys. monic qs y = 0" by fastforce
    then show ?thesis using Suc.hyps q(1) Suc.prems(1) Cons by auto
  qed simp
qed

lemma monic_sum: "monic (rev (map w [0..<k])) x = x ^ k + (\<Sum>j<k. w j * x ^ j)"
proof (induction k arbitrary: w)
  case (Suc k)
  have "rev (map w [0..<Suc k]) = rev (map (\<lambda>j. w (Suc j)) [0..<k]) @ [w 0]"
    by (simp add: upt_conv_Cons map_Suc_upt [symmetric] comp_def del: upt_Suc)
  then have "monic (rev (map w [0..<Suc k])) x = (x ^ k + (\<Sum>j<k. w (Suc j) * x ^ j)) * x + w 0"
    using Suc [of "\<lambda>j. w (Suc j)"] by (simp add: monic_simps)
  also have "\<dots> = x ^ Suc k + (w 0 * x ^ 0 + (\<Sum>j<k. w (Suc j) * x ^ Suc j))"
    by (simp add: algebra_simps sum_distrib_left)
  also have "w 0 * x ^ 0 + (\<Sum>j<k. w (Suc j) * x ^ Suc j) = (\<Sum>j<Suc k. w j * x ^ j)"
    by (rule sum.lessThan_Suc_shift [symmetric])
  finally show ?case .
qed (simp add: monic_def)

section \<open>A zero pivot is a linear dependency\<close>

definition reduced :: "nat \<Rightarrow> nat \<Rightarrow> (nat \<Rightarrow> nat \<Rightarrow> 'g::field) \<Rightarrow> 'g list \<Rightarrow> (nat \<Rightarrow> nat \<Rightarrow> 'g) \<Rightarrow> bool" where
  "reduced rows k R r W \<longleftrightarrow> (\<forall>i<rows. \<forall>c<rows.
     mat_at rows r i c = (if k \<le> i then R i c else 0) + (\<Sum>j<k. W i j * R j c))"

lemma gauss_row_reduced:
  assumes "sized rows lc lr" "k < rows" "gauss_row rows lc k lr = Some lr'"
    and U: "unit_on {..<k} rows (snd lr)" and W: "reduced rows k R (snd lr) W"
  shows "\<exists>W'. reduced rows (Suc k) R (snd lr') W'"
proof -
  obtain l r l' r' where lr: "lr = (l, r)" "lr' = (l', r')" by (cases lr, cases lr')
  have facts: "length l = rows * lc" "length r = rows * rows" "gauss_row rows lc k (l, r) = Some (l', r')"
    using assms lr by (simp_all add: sized_def)
  note e = gauss_row_entry [OF facts(1,2) \<open>k < rows\<close> facts(3)]
  define p where "p = mat_at rows r k k"
  define q where "q i = mat_at rows r i k" for i
  define W' where "W' i j = (if i = k then (if j = k then 1 else W k j) / p
    else if j = k then - (q i / p) else W i j - q i / p * W k j)" for i j
  have W: "i < rows \<Longrightarrow> c < rows \<Longrightarrow>
      mat_at rows r i c = (if k \<le> i then R i c else 0) + (\<Sum>j<k. W i j * R j c)" for i c
    using W lr by (simp add: reduced_def)
  have zero: "c < k \<Longrightarrow> mat_at rows r k c = 0" for c
    using U \<open>k < rows\<close> lr by (simp add: unit_on_def)
  have "mat_at rows r' i c = (if Suc k \<le> i then R i c else 0) + (\<Sum>j<Suc k. W' i j * R j c)"
    if "i < rows" "c < rows" for i c
  proof -
    have R': "mat_at rows r' i c =
     (if i = k then mat_at rows r k c / p else mat_at rows r i c - q i / p * mat_at rows r k c)"
      using e(5) [OF that] zero [of c] by (auto simp: p_def q_def)
    show ?thesis
    proof (cases "i = k")
      case True
      then show ?thesis
        using W [OF \<open>k < rows\<close> that(2)] R'
        by (simp add: W'_def add_divide_distrib sum_divide_distrib add.commute)
    next
      case False
      have "(\<Sum>j<k. W' i j * R j c) = (\<Sum>j<k. W i j * R j c) - q i / p * (\<Sum>j<k. W k j * R j c)"
        using False by (simp add: W'_def left_diff_distrib sum_subtractf sum_distrib_left mult.assoc)
      then show ?thesis
        using False W [OF that] W [OF \<open>k < rows\<close> that(2)]
        by (simp add: R' W'_def algebra_simps)
    qed
  qed
  then show ?thesis by (auto simp: reduced_def lr)
qed

lemma gauss_elim_from_zero_pivot:
  assumes "sized rows lc lr" "k + n \<le> rows" "gauss_elim_from rows lc [k..<k + n] lr = None"
    and "unit_on S rows (snd lr)" "{..<k} \<subseteq> S" "S \<inter> {k..<k + n} = {}" and "reduced rows k R (snd lr) W"
  shows "\<exists>m w. k \<le> m \<and> m < k + n \<and> (\<forall>c\<le>m. R m c + (\<Sum>j<m. w j * R j c) = 0)"
  using assms
proof (induction n arbitrary: k S lr W)
  case 0
  then show ?case by simp
next
  case (Suc n)
  have upt: "[k..<k + Suc n] = k # [Suc k..<Suc k + n]" by (subst upt_conv_Cons) simp_all
  have k: "k < rows" "unit_on {..<k} rows (snd lr)" "k \<notin> S"
    using Suc.prems by (auto simp: unit_on_def)
  show ?case
  proof (cases "gauss_row rows lc k lr")
    case None
    then have "mat_at rows (snd lr) k k = 0"
      by (auto simp: gauss_row_def Let_def mat_at_def split: if_splits)
    moreover have "c < k \<Longrightarrow> mat_at rows (snd lr) k c = 0" for c using k by (simp add: unit_on_def)
    ultimately have "\<forall>c\<le>k. mat_at rows (snd lr) k c = 0" by (metis le_neq_implies_less)
    then have "\<forall>c\<le>k. R k c + (\<Sum>j<k. W k j * R j c) = 0"
      using Suc.prems(7) k(1) by (auto simp: reduced_def)
    then show ?thesis by (intro exI [of _ k] exI [of _ "W k"]) simp
  next
    case (Some lr1)
    have "sized rows lc lr1" "unit_on (insert k S) rows (snd lr1)"
      using gauss_row_sized gauss_row_unit Suc.prems k Some by blast+
    moreover obtain W' where "reduced rows (Suc k) R (snd lr1) W'"
      using gauss_row_reduced [OF Suc.prems(1) k(1) Some k(2) Suc.prems(7)] by blast
    moreover have "gauss_elim_from rows lc [Suc k..<Suc k + n] lr1 = None"
      using Suc.prems(3) Some unfolding upt by simp
    ultimately have "\<exists>m w. Suc k \<le> m \<and> m < Suc k + n \<and> (\<forall>c\<le>m. R m c + (\<Sum>j<m. w j * R j c) = 0)"
      using Suc.prems(2,5,6) by (intro Suc.IH) (auto simp: lessThan_Suc)
    then show ?thesis by (metis Suc_leD add_Suc add_Suc_right)
  qed
qed

lemma gauss_elim_zero_pivot:
  assumes "sized rows lc (l, r)" "n \<le> rows" "gauss_elim rows lc n (l, r) = None" "unit_on {n..} rows r"
  shows "\<exists>m w. m < n \<and> (\<forall>c\<le>m. mat_at rows r m c + (\<Sum>j<m. w j * mat_at rows r j c) = 0)"
proof -
  have "\<exists>m w. 0 \<le> m \<and> m < 0 + n \<and> (\<forall>c\<le>m. mat_at rows r m c + (\<Sum>j<m. w j * mat_at rows r j c) = 0)"
    using assms by (intro gauss_elim_from_zero_pivot [where S = "{n..}" and lr = "(l, r)"])
      (auto simp: gauss_elim_def reduced_def)
  then show ?thesis by auto
qed

section \<open>Consecutive exponents never fail\<close>

lemma rs_base_inj:
  assumes "i < 255" "j < 255" "rs_base i = rs_base j"
  shows "i = j"
proof -
  have u: "k < 255 \<Longrightarrow> unat (word_of_nat (k + 1) :: u8) = k + 1" for k by (simp only: unat_of_nat) simp
  from assms(3) have "unat (word_of_nat (i + 1) :: u8) = unat (word_of_nat (j + 1) :: u8)"
    by (simp only: rs_base_def galois8.inject)
  then show ?thesis using assms(1,2) by (simp only: u)
qed

lemma rs_base_nonzero: "i < 255 \<Longrightarrow> rs_base i \<noteq> 0"
proof -
  assume "i < 255"
  then have "unat (word_of_nat (i + 1) :: u8) = i + 1" by (simp only: unat_of_nat) simp
  then have "(word_of_nat (i + 1) :: u8) \<noteq> 0" by (metis Suc_eq_plus1 nat.simps(3) unat_0)
  then show ?thesis by (simp add: rs_base_def galois8_ops)
qed

text \<open>The exponents of the recovery blocks the repairer uses are \<open>e\<close>, \<open>e + 1\<close>, \<open>e + 2\<close>, \<dots>\<close>

definition consecutive :: "nat \<Rightarrow> nat \<Rightarrow> rs_outputrow list \<Rightarrow> bool" where
  "consecutive e n rows \<longleftrightarrow>
     (\<forall>j<n. unat (row_exponent (filter row_present rows ! j)) = e + j)"

lemma rs_right_entry:
  fixes present rows
  defines "M \<equiv> indices Not present" and "k \<equiv> length (filter (\<lambda>r. \<not> row_present r) rows)"
  assumes "i < length M" "c < length M"
  shows "mat_at (length M + k) (rs_right present rows) i c =
    rs_base (M ! c) ^ unat (row_exponent (filter row_present rows ! i))"
  using rs_system_rows(3) [of i present c rows] assms
  by (simp add: right_row_def nth_append)

text \<open>C23: with at most 255 files and recovery blocks of consecutive exponents (as many as there are
  missing files, or more), \<^verbatim>\<open>Compute\<close> never reports an error: elimination without row swapping finds
  every pivot.\<close>

theorem rs_compute_consecutive:
  assumes ready: "rs_ready present rows s" and small: "small_rows rows" and n: "length present \<le> 255"
    and enough: "length (indices Not present) \<le> length (filter row_present rows)"
    and some: "0 < length (indices Not present) + length (filter (\<lambda>r. \<not> row_present r) rows)"
    and cons: "consecutive e (length (indices Not present)) rows"
  shows "\<exists>s'. rs_compute s = Inr s'"
proof (rule ccontr)
  define M where "M = indices Not present"
  define k where "k = length (filter (\<lambda>r. \<not> row_present r) rows)"
  note reads = rs_ready_reads [OF ready] and mats = rs_matrices_eq [OF ready small enough]
  have sz: "rs_datamissing s = length M" "rs_parmissing s = k" "rs_datapresent s + rs_datamissing s = length present"
    using reads length_indices [of present] by (auto simp: rs_reads_def M_def k_def)
  assume "\<nexists>s'. rs_compute s = Inr s'"
  then have "gauss_elim (length M + k) (length present) (length M) (rs_left present rows, rs_right present rows) = None"
    using mats sz some enough reads(3) unfolding rs_compute_def M_def [symmetric] k_def [symmetric]
    by (auto simp: Let_def split: if_splits option.splits)
  from gauss_elim_zero_pivot [OF rs_left_sized [OF enough, folded M_def k_def] _ this]
    rs_right_unit [of present rows, folded M_def k_def]
  obtain m w where m: "m < length M"
    "\<And>c. c \<le> m \<Longrightarrow> mat_at (length M + k) (rs_right present rows) m c +
       (\<Sum>j<m. w j * mat_at (length M + k) (rs_right present rows) j c) = 0" by auto
  have "monic (rev (map w [0..<m])) (rs_base (M ! c)) = 0" if "c \<le> m" for c
  proof -
    let ?b = "rs_base (M ! c)"
    have c: "c < length M" using that m(1) by simp
    have entry: "j \<le> m \<Longrightarrow> mat_at (length M + k) (rs_right present rows) j c = ?b ^ (e + j)" for j
      using rs_right_entry [of j present c rows] cons c m(1)
      by (simp add: M_def k_def consecutive_def)
    have "?b ^ e * (?b ^ m + (\<Sum>j<m. w j * ?b ^ j)) = ?b ^ (e + m) + (\<Sum>j<m. w j * ?b ^ (e + j))"
      by (simp add: power_add distrib_left sum_distrib_left mult.left_commute)
    also have "\<dots> = 0" using m(2) [OF that] entry by simp
    finally have "?b ^ e * (?b ^ m + (\<Sum>j<m. w j * ?b ^ j)) = 0" .
    moreover have "M ! c < 255" using indices_less [of c Not present] c n by (simp add: M_def)
    ultimately show ?thesis using rs_base_nonzero by (simp add: monic_sum)
  qed
  moreover have "distinct (map (\<lambda>c. rs_base (M ! c)) [0..<Suc m])"
  proof -
    have "distinct M" by (simp add: M_def indices_def)
    moreover have "c < length M \<Longrightarrow> M ! c < 255" for c using indices_less [of c Not present] n by (simp add: M_def)
    ultimately show ?thesis
      using m(1) by (auto simp: distinct_map inj_on_def nth_eq_iff_index_eq simp del: upt_Suc dest!: rs_base_inj [rotated 2])
  qed
  ultimately have "length (map (\<lambda>c. rs_base (M ! c)) [0..<Suc m]) \<le> length (rev (map w [0..<m]))"
    by (intro monic_roots) (auto simp del: upt_Suc)
  then show False by simp
qed

theorem rs_compute_consecutive_witness:
  "\<exists>s s'. rs_setup_calls [False, True, False] [\<lparr>row_present = True, row_exponent = 3\<rparr>,
      \<lparr>row_present = True, row_exponent = 4\<rparr>] = Some s \<and> rs_compute s = Inr s'"
proof -
  let ?rows = "[\<lparr>row_present = True, row_exponent = 3\<rparr>, \<lparr>row_present = True, row_exponent = 4\<rparr>]"
  obtain s where s: "rs_setup_calls [False, True, False] ?rows = Some s" "rs_ready [False, True, False] ?rows s"
    using rs_setup_ready by blast
  have M: "indices Not [False, True, False] = [0, 2]"
    by (simp add: indices_def upt_rec [of 0] upt_rec [of 1] upt_rec [of 2])
  have "\<exists>s'. rs_compute s = Inr s'"
    by (rule rs_compute_consecutive [OF s(2), where e = 3])
      (simp_all add: small_rows_def M consecutive_def less_Suc_eq)
  with s(1) show ?thesis by blast
qed

section \<open>Other exponents can fail\<close>

lemma rs_base_9_pow: "rs_base 9 ^ 5 = 1"
proof -
  have "(xtime8 ^^ 51) 1 = 10" unfolding funpow_iter by (simp add: iter.simps xtime8_def)
  then have b: "rs_base 9 = gpow 51" by (simp add: rs_base_def)
  have "rs_base 9 ^ 5 = gpow 255" by (simp add: b gpow_power)
  then show ?thesis by (simp add: galois8_ops)
qed

text \<open>C27: ten files of which the first and the last are missing, with the recovery blocks of exponents
  0 and 5: two recovery blocks for two missing files, and still \<^verbatim>\<open>Compute\<close> reports
  \<^verbatim>\<open>RS computation error\<close>. The fifth power of the base value 10 is 1, so the two rows are equal.\<close>

theorem rs_compute_singular:
  "\<exists>s. rs_setup_calls (False # replicate 8 True @ [False]) [\<lparr>row_present = True, row_exponent = 0\<rparr>,
      \<lparr>row_present = True, row_exponent = 5\<rparr>] = Some s \<and> rs_compute s = Inl RS_ComputationError"
proof -
  let ?present = "False # replicate 8 True @ [False]"
  let ?rows = "[\<lparr>row_present = True, row_exponent = 0\<rparr>, \<lparr>row_present = True, row_exponent = 5\<rparr>]"
  obtain s where s: "rs_setup_calls ?present ?rows = Some s" "rs_ready ?present ?rows s"
    using rs_setup_ready by blast
  have M: "indices Not ?present = [0, 9]" by code_simp
  have small: "small_rows ?rows" and enough: "length (indices Not ?present) \<le> length (filter row_present ?rows)"
    by (simp_all add: small_rows_def M)
  let ?l = "rs_left ?present ?rows" and ?r = "rs_right ?present ?rows"
  have sized: "length ?l = 2 * length ?present" "length ?r = 2 * 2"
    using rs_left_sized [OF enough] by (simp_all add: sized_def M numeral_2_eq_2)
  have lm: "length (indices Not ?present) = 2" and lk: "length (filter (\<lambda>r. \<not> row_present r) ?rows) = 0"
    by (simp_all add: M)
  have entry: "i < 2 \<Longrightarrow> c < 2 \<Longrightarrow> mat_at 2 ?r i c = rs_base ([0, 9] ! c) ^ ([0, 5] ! i)" for i c
    using rs_right_entry [of i ?present c ?rows, unfolded lm lk, unfolded M]
    by (auto simp: less_2_cases_iff simp del: replicate.simps)
  have one: "rs_base 0 = 1" by (simp add: rs_base_def galois8_ops)
  have R: "mat_at 2 ?r 0 0 = 1" "mat_at 2 ?r 0 1 = 1" "mat_at 2 ?r 1 0 = 1" "mat_at 2 ?r 1 1 = 1"
    using entry [of 0 0] entry [of 0 1] entry [of 1 0] entry [of 1 1] by (simp_all add: one rs_base_9_pow)
  have "gauss_row 2 (length ?present) 0 (?l, ?r) \<noteq> None"
    using R(1) by (simp add: gauss_row_def Let_def mat_at_def)
  then obtain l' r' where g: "gauss_row 2 (length ?present) 0 (?l, ?r) = Some (l', r')" by force
  have "mat_at 2 r' 1 1 = 0"
    using gauss_row_entry(5) [OF sized _ g, of 1 1] R by simp
  then have "gauss_row 2 (length ?present) 1 (l', r') = None"
    by (simp add: gauss_row_def Let_def mat_at_def numeral_2_eq_2)
  then have g2: "gauss_elim 2 (length ?present) 2 (?l, ?r) = None"
    using g by (simp add: gauss_elim_def upt_rec [of 0] upt_rec [of 1] numeral_2_eq_2)
  note reads = rs_ready_reads [OF s(2)] and mats = rs_matrices_eq [OF s(2) small enough]
  have sz: "rs_datamissing s = 2" "rs_parmissing s = 0" "rs_datapresent s + rs_datamissing s = length ?present"
    "rs_parpresent s = 2"
    using reads length_indices [of ?present] by (auto simp: rs_reads_def M)
  have "rs_compute s = Inl RS_ComputationError"
    unfolding rs_compute_def mats sz(3) using M g2 by (simp add: Let_def sz(1,2,4))
  with s(1) show ?thesis by blast
qed

end
