(* ===== verification/DiskPaths.thy ===== *)
theory DiskPaths
  imports DiskFile
begin

text \<open>
  The functions of \<^verbatim>\<open>diskfile.cpp\<close> that work on file names: \<^verbatim>\<open>GetCanonicalPathname\<close>,
  \<^verbatim>\<open>SplitFilename\<close>, \<^verbatim>\<open>FindFiles\<close> with its wildcards, the automatic \<^verbatim>\<open>Rename\<close>, and the maps
  keyed by file name (\<^verbatim>\<open>DiskFileMap\<close>, \<^verbatim>\<open>FileSizeCache\<close>).
\<close>

section \<open>Canonical path names\<close>

text \<open>
  The loop copies the work buffer over itself; \<open>out\<close> is the output so far, last character
  first. Backtracking drops output up to and including the last separator.
\<close>

definition canonical_backtrack :: "string \<Rightarrow> string" where
  "canonical_backtrack out = tl (dropWhile (\<lambda>c. c \<noteq> PATHSEP) out)"

function canonical_loop :: "string \<Rightarrow> string \<Rightarrow> string" where
  "canonical_loop inp out =
     (case inp of
        [] \<Rightarrow> rev out
      | c # rest \<Rightarrow>
          if c = PATHSEP \<and> take 2 rest = ''./'' then canonical_loop (drop 1 rest) out
          else if c = PATHSEP \<and> take 3 rest = ''../'' then canonical_loop (drop 2 rest) (canonical_backtrack out)
          else canonical_loop rest (c # out))"
  by pat_completeness auto
termination by (relation "measure (\<lambda>(inp, _). length inp)") auto

declare canonical_loop.simps [simp del]

lemma canonical_loop_Nil [simp]: "canonical_loop [] out = rev out"
  by (simp add: canonical_loop.simps)

lemma canonical_loop_Cons:
  "canonical_loop (c # rest) out =
     (if c = PATHSEP \<and> take 2 rest = ''./'' then canonical_loop (drop 1 rest) out
      else if c = PATHSEP \<and> take 3 rest = ''../'' then canonical_loop (drop 2 rest) (canonical_backtrack out)
      else canonical_loop rest (c # out))"
  by (simp add: canonical_loop.simps [of "c # rest"])

text \<open>\<open>curdir\<close> is the result of \<^verbatim>\<open>getcwd\<close>, which may fail.\<close>

definition get_canonical_pathname :: "string option \<Rightarrow> string \<Rightarrow> string" where
  "get_canonical_pathname curdir filename =
     (if filename = [] \<or> hd filename = PATHSEP then filename
      else case curdir of
             None \<Rightarrow> filename
           | Some dir \<Rightarrow>
               canonical_loop (dir @ (if last dir \<noteq> PATHSEP then [PATHSEP] else []) @ filename) [])"

text \<open>A dot segment in the middle of a path.\<close>

definition dot_at :: "string \<Rightarrow> bool" where
  "dot_at s \<longleftrightarrow> take 3 s = ''/./'' \<or> take 4 s = ''/../''"

definition no_dots :: "string \<Rightarrow> bool" where
  "no_dots s \<longleftrightarrow> (\<forall>n<length s. \<not> dot_at (drop n s))"

lemma dot_at_append: "a \<noteq> [] \<Longrightarrow> dot_at (a @ PATHSEP # x) \<longleftrightarrow> dot_at (a @ PATHSEP # y)"
  by (cases a; cases "tl a"; cases "tl (tl a)"; cases "tl (tl (tl a))") (auto simp: dot_at_def)

definition dots_free :: "string \<Rightarrow> string \<Rightarrow> bool" where
  "dots_free out inp \<longleftrightarrow> (\<forall>n<length out. \<not> dot_at (drop n (rev out) @ inp))"

lemma dots_free_swap: "dots_free out (PATHSEP # x) \<Longrightarrow> dots_free out (PATHSEP # y)"
  using dot_at_append [of "drop n (rev out)" x y for n] by (auto simp: dots_free_def)

lemma dots_free_suffix: "dots_free (a @ out) inp \<Longrightarrow> dots_free out (rev a @ inp)"
  unfolding dots_free_def
proof (intro allI impI)
  fix n assume "\<forall>n<length (a @ out). \<not> dot_at (drop n (rev (a @ out)) @ inp)" "n < length out"
  then show "\<not> dot_at (drop n (rev out) @ rev a @ inp)" by (auto dest!: spec [of _ n])
qed

lemma backtrack_split:
  "canonical_backtrack out = [] \<or> (\<exists>a. out = a @ PATHSEP # canonical_backtrack out)"
proof (induction out)
  case (Cons c out)
  then show ?case
    by (cases "c = PATHSEP") (auto simp: canonical_backtrack_def intro: exI [of _ "c # a" for a])
qed (simp add: canonical_backtrack_def)

lemma dots_free_backtrack:
  assumes "dots_free out (PATHSEP # x)"
  shows "dots_free (canonical_backtrack out) (PATHSEP # y)"
  using backtrack_split [of out]
proof
  assume "canonical_backtrack out = []"
  then show ?thesis by (simp add: dots_free_def)
next
  assume "\<exists>a. out = a @ PATHSEP # canonical_backtrack out"
  then obtain a where a: "out = (a @ [PATHSEP]) @ canonical_backtrack out" by auto
  have "dots_free (canonical_backtrack out) (rev (a @ [PATHSEP]) @ PATHSEP # x)"
    by (rule dots_free_suffix) (use assms a in simp)
  then show ?thesis using dots_free_swap by simp
qed

lemma take_Cons_eqD: "take n xs = c # cs \<Longrightarrow> \<exists>ys. xs = c # ys \<and> take (n - 1) ys = cs"
  by (cases n; cases xs) auto

lemma canonical_loop_clean: "dots_free out inp \<Longrightarrow> no_dots (canonical_loop inp out)"
proof (induction inp out rule: canonical_loop.induct)
  case (1 inp out)
  show ?case
  proof (cases inp)
    case Nil
    then show ?thesis using "1.prems" by (simp add: no_dots_def dots_free_def)
  next
    case (Cons c rest)
    consider (dot) "c = PATHSEP" "take 2 rest = ''./''"
      | (dotdot) "c = PATHSEP" "take 2 rest \<noteq> ''./''" "take 3 rest = ''../''"
      | (copy) "\<not> (c = PATHSEP \<and> take 2 rest = ''./'')" "\<not> (c = PATHSEP \<and> take 3 rest = ''../'')"
      by blast
    then show ?thesis
    proof cases
      case dot
      then obtain ys where "drop 1 rest = PATHSEP # ys" by (auto dest!: take_Cons_eqD)
      with dot Cons 1 dots_free_swap show ?thesis by (simp add: canonical_loop_Cons)
    next
      case dotdot
      then obtain ys where "drop 2 rest = PATHSEP # ys"
        by (auto dest!: take_Cons_eqD simp: numeral_2_eq_2)
      with dotdot Cons 1 dots_free_backtrack show ?thesis by (simp add: canonical_loop_Cons)
    next
      case copy
      then have "\<not> dot_at (c # rest)" by (auto simp: dot_at_def numeral_eq_Suc)
      then have "dots_free (c # out) rest"
        using "1.prems" Cons by (auto simp: dots_free_def less_Suc_eq)
      with copy Cons 1 show ?thesis by (auto simp: canonical_loop_Cons)
    qed
  qed
qed

lemma canonical_loop_id: "no_dots inp \<Longrightarrow> canonical_loop inp out = rev out @ inp"
proof (induction inp arbitrary: out)
  case (Cons c rest)
  then have "\<not> dot_at (c # rest)" and "no_dots rest" by (fastforce simp: no_dots_def)+
  moreover have "\<not> (c = PATHSEP \<and> take 2 rest = ''./'')" "\<not> (c = PATHSEP \<and> take 3 rest = ''../'')"
    using calculation(1) by (auto simp: dot_at_def numeral_eq_Suc)
  ultimately show ?case using Cons.IH [of "c # out"] by (auto simp: canonical_loop_Cons)
qed simp

lemma get_canonical_clean:
  "filename \<noteq> [] \<Longrightarrow> hd filename \<noteq> PATHSEP \<Longrightarrow> no_dots (get_canonical_pathname (Some dir) filename)"
  by (simp add: get_canonical_pathname_def canonical_loop_clean dots_free_def)

section \<open>Splitting a name into directory and file\<close>

definition split_filename :: "string \<Rightarrow> string \<times> string" where
  "split_filename filename =
     (case last_separator filename of
        Some n \<Rightarrow> (take (n + 1) filename, drop (n + 1) filename)
      | None \<Rightarrow> ([CHR ''.'', PATHSEP], filename))"

definition split_relative_filename :: "string \<Rightarrow> string \<Rightarrow> string" where
  "split_relative_filename filename basepath = drop (length basepath) filename"

lemma split_filename_parts:
  assumes "split_filename filename = (path, name)"
  shows "PATHSEP \<notin> set name" "path = ''./'' \<and> name = filename \<or> filename = path @ name"
proof -
  show "path = ''./'' \<and> name = filename \<or> filename = path @ name"
    using assms by (auto simp: split_filename_def split: option.splits)
  show "PATHSEP \<notin> set name"
    using assms
    by (auto simp: split_filename_def last_separator_def find_last_of_None dest: find_last_of_Some
        in_set_dropD split: option.splits)
qed

section \<open>Wildcards\<close>

text \<open>
  The test \<^verbatim>\<open>FindFiles\<close> applies to the name of a directory entry. Only the first \<^verbatim>\<open>*\<close> of the
  wildcard (or, without one, the first \<^verbatim>\<open>?\<close>) decides which of the three comparisons is made.
\<close>

definition wildcard_match :: "string \<Rightarrow> string \<Rightarrow> bool" where
  "wildcard_match wildcard name =
     (case (case find_first_of CHR ''*'' wildcard of
              Some n \<Rightarrow> Some n
            | None \<Rightarrow> find_first_of CHR ''?'' wildcard) of
        None \<Rightarrow> name = wildcard
      | Some n \<Rightarrow>
          let front = take n wildcard; back = drop (n + 1) wildcard
          in if wildcard ! n = CHR ''*''
             then length name \<ge> length wildcard \<and> take n name = front \<and>
                  drop (length name - length back) name = back
             else length name = length wildcard \<and>
                  list_all2 (\<lambda>pw pn. pw = CHR ''?'' \<or> pw = pn) wildcard name)"

lemma wildcard_match_star:
  assumes "CHR ''*'' \<notin> set front"
  shows "wildcard_match (front @ CHR ''*'' # back) name \<longleftrightarrow>
    (\<exists>mid. mid \<noteq> [] \<and> name = front @ mid @ back)"
proof -
  have f: "find_first_of CHR ''*'' (front @ CHR ''*'' # back) = Some (length front)"
    using assms by (rule find_first_of_split)
  have "(length front + length back < length name \<and> take (length front) name = front \<and>
         drop (length name - length back) name = back) \<longleftrightarrow> (\<exists>mid. mid \<noteq> [] \<and> name = front @ mid @ back)"
  proof
    assume *: "length front + length back < length name \<and> take (length front) name = front \<and>
         drop (length name - length back) name = back"
    define mid where "mid = drop (length front) (take (length name - length back) name)"
    have "length name - length back = length front + (length name - length back - length front)"
      using * by simp
    then have "take (length name - length back) name = front @ mid"
      using * by (metis append_take_drop_id mid_def min.absorb1 le_add1 take_take)
    then have "name = front @ mid @ back" using * by (metis append.assoc append_take_drop_id)
    moreover have "mid \<noteq> []" using * by (auto simp: mid_def)
    ultimately show "\<exists>mid. mid \<noteq> [] \<and> name = front @ mid @ back" by blast
  qed auto
  then show ?thesis by (auto simp: wildcard_match_def f Let_def nth_append Suc_le_eq)
qed

text \<open>
  A directory listing. \<^verbatim>\<open>lstat\<close> does not follow links, so an entry is a file, a directory or
  something else. Only directories whose name matches are searched, with the wildcard \<^verbatim>\<open>*\<close>.
\<close>

datatype dirent = RegularFile | Directory "(string \<times> dirent) list" | OtherEntry

definition with_separator :: "string \<Rightarrow> string" where
  "with_separator path = (if path \<noteq> [] \<and> last path = PATHSEP then path else path @ [PATHSEP])"

fun find_files :: "string \<Rightarrow> string \<Rightarrow> bool \<Rightarrow> (string \<times> dirent) list \<Rightarrow> string list"
  and find_entry :: "string \<Rightarrow> string \<Rightarrow> bool \<Rightarrow> string \<times> dirent \<Rightarrow> string list"
where
  "find_files path wildcard recursive [] = []"
| "find_files path wildcard recursive (entry # entries) =
     find_entry path wildcard recursive entry @ find_files path wildcard recursive entries"
| "find_entry path wildcard recursive (name, entry) =
     (if name = ''.'' \<or> name = ''..'' \<or> \<not> wildcard_match wildcard name then []
      else case entry of
             RegularFile \<Rightarrow> [with_separator path @ name]
           | Directory entries \<Rightarrow>
               if recursive then find_files (with_separator path @ name) ''*'' True entries else []
           | OtherEntry \<Rightarrow> [])"

text \<open>The regular files below a directory.\<close>

inductive file_below :: "string \<Rightarrow> (string \<times> dirent) list \<Rightarrow> string \<Rightarrow> bool" where
  here: "(name, RegularFile) \<in> set entries \<Longrightarrow> name \<noteq> ''.'' \<Longrightarrow> name \<noteq> ''..'' \<Longrightarrow> name \<noteq> [] \<Longrightarrow>
    file_below path entries (with_separator path @ name)"
| down: "(name, Directory sub) \<in> set entries \<Longrightarrow> name \<noteq> ''.'' \<Longrightarrow> name \<noteq> ''..'' \<Longrightarrow> name \<noteq> [] \<Longrightarrow>
    file_below (with_separator path @ name) sub file \<Longrightarrow> file_below path entries file"

lemma wildcard_match_all: "wildcard_match ''*'' name \<longleftrightarrow> name \<noteq> []"
  using wildcard_match_star [of "[]" "[]" name] by simp

lemma find_files_set: "set (find_files path wildcard recursive entries) =
    (\<Union>entry\<in>set entries. set (find_entry path wildcard recursive entry))"
  by (induction entries) auto

lemma find_files_sound:
  "file \<in> set (find_files path w recursive entries) \<Longrightarrow> w = ''*'' \<Longrightarrow> recursive \<Longrightarrow> file_below path entries file"
  and "file \<in> set (find_entry path w recursive entry) \<Longrightarrow> w = ''*'' \<Longrightarrow> recursive \<Longrightarrow> file_below path [entry] file"
proof (induction path w recursive entries and path w recursive entry rule: find_files_find_entry.induct)
  case (2 path w recursive entry entries)
  have mono: "file_below path es file \<Longrightarrow> set es \<subseteq> set es' \<Longrightarrow> file_below path es' file" for es es'
    by (induction rule: file_below.cases) (auto intro: file_below.intros)
  from 2 show ?case by (auto dest!: mono [of _ "entry # entries"])
next
  case (3 path w recursive name entry)
  then show ?case
    by (auto simp: wildcard_match_all split: if_splits dirent.splits intro: file_below.intros)
qed simp

lemma find_files_complete:
  "file_below path entries file \<Longrightarrow> file \<in> set (find_files path ''*'' True entries)"
  by (induction rule: file_below.induct) (force simp: find_files_set wildcard_match_all)+

section \<open>Renaming out of the way\<close>

text \<open>\<^verbatim>\<open>std::to_string\<close> of an unsigned value.\<close>

fun to_string :: "nat \<Rightarrow> string" where
  "to_string n =
     (if n < 10 then [char_of (48 + n)] else to_string (n div 10) @ [char_of (48 + n mod 10)])"

declare to_string.simps [simp del]

partial_function (option) rename_pick :: "nat \<Rightarrow> string \<Rightarrow> u32 \<Rightarrow> fs \<Rightarrow> string option option" where
  "rename_pick max_path filename index fs =
     (let index = index + 1;
          newname = filename @ ''.'' @ to_string (unat index)
      in if length newname > max_path then Some None
         else if os_stat fs newname then rename_pick max_path filename index fs
         else Some (Some newname))"

definition disk_rename :: "nat \<Rightarrow> diskfile \<Rightarrow> fs \<Rightarrow> (bool \<times> diskfile \<times> fs) option" where
  "disk_rename max_path d fs =
     (case rename_pick max_path (df_filename d) 0 fs of
        None \<Rightarrow> None
      | Some None \<Rightarrow> Some (False, d, fs)
      | Some (Some newname) \<Rightarrow> Some (disk_rename_to newname d fs))"

lemma rename_pick_free:
  assumes "rename_pick max_path filename index fs = Some (Some name)"
  shows "\<not> os_stat fs name \<and> (\<exists>k. name = filename @ ''.'' @ to_string k)"
proof -
  let ?P = "\<lambda>max_path filename index fs r. \<forall>name. r = Some name \<longrightarrow>
    \<not> os_stat fs name \<and> (\<exists>k. name = filename @ ''.'' @ to_string k)"
  have "?P max_path filename index fs (Some name)"
    by (rule rename_pick.raw_induct [where P = ?P, OF _ assms])
      (auto simp: Let_def split: if_splits)
  then show ?thesis by simp
qed

text \<open>It returns as soon as one of the numbered names is free or too long.\<close>

lemma rename_pick_returns:
  assumes "unat index < k" "k < 2 ^ 32"
    and "max_path < length (filename @ ''.'' @ to_string k) \<or> \<not> os_stat fs (filename @ ''.'' @ to_string k)"
  shows "\<exists>r. rename_pick max_path filename index fs = Some r"
  using assms(1)
proof (induction "k - unat index" arbitrary: index)
  case (Suc n)
  have next_index: "unat (index + 1) = unat index + 1"
    using Suc.prems assms(2) by (simp add: unat_word_ariths)
  show ?case
  proof (cases "unat index + 1 = k")
    case True
    then show ?thesis using assms(3) next_index by (subst rename_pick.simps) (auto simp: Let_def)
  next
    case False
    then have "\<exists>r. rename_pick max_path filename (index + 1) fs = Some r"
      using Suc next_index by (intro Suc.hyps(1)) auto
    then show ?thesis by (subst rename_pick.simps) (auto simp: Let_def)
  qed
qed simp

text \<open>A successful automatic rename moves the file and touches no other.\<close>

lemma disk_rename_moves:
  assumes "disk_rename max_path d fs = Some (True, d', fs')"
  shows "fs_files fs (df_filename d') = None"
    and "fs_files fs' (df_filename d') = fs_files fs (df_filename d)" "fs_files fs' (df_filename d) = None"
    and "q \<noteq> df_filename d \<Longrightarrow> q \<noteq> df_filename d' \<Longrightarrow> fs_files fs' q = fs_files fs q"
proof -
  obtain name where r: "rename_pick max_path (df_filename d) 0 fs = Some (Some name)"
    "disk_rename_to name d fs = (True, d', fs')"
    using assms by (auto simp: disk_rename_def split: option.splits)
  from rename_pick_free [OF r(1)] have free: "\<not> os_stat fs name" by simp
  obtain content where "fs_files fs (df_filename d) = Some content"
    "fs' = fs\<lparr>fs_files := (fs_files fs)(df_filename d := None, name \<mapsto> content)\<rparr>" "df_filename d' = name"
    using r(2) by (auto simp: disk_rename_to_def os_rename_def split: option.splits if_splits)
  with free show "fs_files fs (df_filename d') = None"
    and "fs_files fs' (df_filename d') = fs_files fs (df_filename d)" "fs_files fs' (df_filename d) = None"
    and "q \<noteq> df_filename d \<Longrightarrow> q \<noteq> df_filename d' \<Longrightarrow> fs_files fs' q = fs_files fs q"
    by (auto simp: os_stat_def)
qed

section \<open>The maps keyed by file name\<close>

text \<open>\<^verbatim>\<open>DiskFileMap\<close>: \<^verbatim>\<open>std::map::insert\<close> keeps an entry that is already there.\<close>

type_synonym 'd diskfile_map = "string \<rightharpoonup> 'd"

definition map_insert :: "string \<Rightarrow> 'd \<Rightarrow> 'd diskfile_map \<Rightarrow> bool \<times> 'd diskfile_map" where
  "map_insert filename d m =
     (case m filename of None \<Rightarrow> (True, m(filename \<mapsto> d)) | Some _ \<Rightarrow> (False, m))"

definition map_remove :: "string \<Rightarrow> 'd diskfile_map \<Rightarrow> 'd diskfile_map" where
  "map_remove filename m = m(filename := None)"

definition map_find :: "string \<Rightarrow> 'd diskfile_map \<Rightarrow> 'd option" where
  "map_find filename m = m filename"

text \<open>What a client may rely on: the interface of a registry that never replaces an entry.\<close>

locale registry =
  fixes ins :: "'k \<Rightarrow> 'd \<Rightarrow> 'm \<Rightarrow> bool \<times> 'm" and del :: "'k \<Rightarrow> 'm \<Rightarrow> 'm" and look :: "'k \<Rightarrow> 'm \<Rightarrow> 'd option"
  assumes ins_new: "look k m = None \<Longrightarrow> fst (ins k d m) \<and> look k (snd (ins k d m)) = Some d"
    and ins_old: "look k m = Some e \<Longrightarrow> ins k d m = (False, m)"
    and ins_other: "k' \<noteq> k \<Longrightarrow> look k' (snd (ins k d m)) = look k' m"
    and del_look: "look k' (del k m) = (if k' = k then None else look k' m)"
begin

lemma ins_keeps: "look k' m = Some e \<Longrightarrow> look k' (snd (ins k d m)) = Some e"
  using ins_old [of k m e d] ins_other [of k' k d m] by (cases "k' = k") auto

lemma ins_twice: "fst (ins k d (snd (ins k d' m))) = False"
  using ins_new [of k m d'] ins_old by (cases "look k m") auto

text \<open>Moving an entry succeeds exactly when the new name is free, and keeps all others.\<close>

lemma move_entry:
  assumes "new = old \<or> look new m = None"
  shows "fst (ins new d (del old m))"
    and "look new (snd (ins new d (del old m))) = Some d"
    and "k \<noteq> old \<Longrightarrow> k \<noteq> new \<Longrightarrow> look k (snd (ins new d (del old m))) = look k m"
  using assms ins_new [of new "del old m" d] ins_other [of k new d "del old m"]
  by (auto simp: del_look)

end

interpretation dfm: registry map_insert map_remove map_find
  by unfold_locales (auto simp: map_insert_def map_remove_def map_find_def split: option.splits)

text \<open>\<^verbatim>\<open>FileSizeCache::get\<close>.\<close>

definition cache_get :: "string \<Rightarrow> fs \<Rightarrow> (string \<rightharpoonup> u64) \<Rightarrow> u64 \<times> (string \<rightharpoonup> u64)" where
  "cache_get filename fs cache =
     (case map_find filename cache of
        Some sz \<Rightarrow> (sz, cache)
      | None \<Rightarrow> let sz = get_file_size filename fs
                in (sz, snd (map_insert filename sz cache)))"

definition cache_valid :: "fs \<Rightarrow> (string \<rightharpoonup> u64) \<Rightarrow> bool" where
  "cache_valid fs cache \<longleftrightarrow> (\<forall>f sz. map_find f cache = Some sz \<longrightarrow> sz = get_file_size f fs)"

lemma cache_get_valid:
  assumes "cache_valid fs cache" "cache_get filename fs cache = (sz, cache')"
  shows "sz = get_file_size filename fs \<and> cache_valid fs cache' \<and> map_find filename cache' = Some sz"
proof (cases "map_find filename cache")
  case (Some v)
  with assms show ?thesis by (auto simp: cache_get_def cache_valid_def)
next
  case None
  with assms have c: "sz = get_file_size filename fs" "cache' = snd (map_insert filename sz cache)"
    by (auto simp: cache_get_def Let_def)
  have "map_find f cache' = (if f = filename then Some sz else map_find f cache)" for f
    using dfm.ins_new [OF None, of sz] dfm.ins_other [of f filename sz cache] c(2) by auto
  with c assms(1) show ?thesis by (auto simp: cache_valid_def)
qed

section \<open>Properties\<close>

text \<open>\<^verbatim>\<open>GetCanonicalPathname\<close> of a relative name has no \<^verbatim>\<open>.\<close> or \<^verbatim>\<open>..\<close> segment left inside it,
  and the normalisation is idempotent.\<close>

lemma canonical_pathname_normal:
  assumes "filename \<noteq> []" "hd filename \<noteq> PATHSEP"
  shows "no_dots (get_canonical_pathname (Some dir) filename) \<and>
    canonical_loop (get_canonical_pathname (Some dir) filename) [] = get_canonical_pathname (Some dir) filename"
  using get_canonical_clean [OF assms, of dir] canonical_loop_id by simp

text \<open>The part \<^verbatim>\<open>SplitFilename\<close> returns as the name has no separator in it, and the two parts
  put together are the original name unless the directory was made up.\<close>

lemma split_filename_correct:
  "PATHSEP \<notin> set (snd (split_filename filename)) \<and>
   (if PATHSEP \<in> set filename \<or> ALTPATHSEP \<in> set filename
    then fst (split_filename filename) @ snd (split_filename filename) = filename
    else split_filename filename = (''./'', filename))"
  using split_filename_parts(1) [of filename "fst (split_filename filename)" "snd (split_filename filename)"]
  by (auto simp: split_filename_def last_separator_def find_last_of_None split: option.splits)
    (metis find_last_of_None option.simps(3))+

text \<open>A recursive search with the wildcard \<^verbatim>\<open>*\<close> returns exactly the regular files below the
  directory, at any depth.\<close>

lemma find_files_all:
  "set (find_files path ''*'' True entries) = {file. file_below path entries file}"
  using find_files_sound(1) [of _ path "''*''" True entries] find_files_complete by blast

text \<open>A \<^verbatim>\<open>*\<close> in a wildcard stands for at least one character: a pattern with a star never matches
  the name that results from leaving the star out.\<close>

lemma wildcard_star_not_empty:
  assumes "CHR ''*'' \<notin> set front"
  shows "\<not> wildcard_match (front @ CHR ''*'' # back) (front @ back)"
  unfolding wildcard_match_star [OF assms] by simp

text \<open>C36: a successful automatic \<^verbatim>\<open>Rename\<close> gives the file a name that was free, keeps its contents and
  leaves every other file alone: no backup is ever overwritten.\<close>

theorem disk_rename_safe:
  assumes "disk_rename max_path d fs = Some (True, d', fs')"
  shows "fs_files fs (df_filename d') = None \<and>
    fs_files fs' (df_filename d') = fs_files fs (df_filename d) \<and> fs_files fs' (df_filename d) = None \<and>
    (\<forall>q. q \<noteq> df_filename d \<longrightarrow> q \<noteq> df_filename d' \<longrightarrow> fs_files fs' q = fs_files fs q)"
  using disk_rename_moves [OF assms] by blast

theorem disk_rename_safe_witness:
  "\<exists>d' fs'. disk_rename 255 (sample_disk ReadMode 1) (sample_fs [7]) = Some (True, d', fs') \<and>
     fs_files fs' (df_filename d') = Some [7]"
proof -
  have one: "to_string (Suc 0) = ''1''" by (subst to_string.simps) code_simp
  have "rename_pick 255 ''f'' 0 (sample_fs [7]) = Some (Some ''f.1'')"
    by (subst rename_pick.simps) (simp add: Let_def one sample_fs_def os_stat_def)
  then have "\<exists>d' fs'. disk_rename 255 (sample_disk ReadMode 1) (sample_fs [7]) = Some (True, d', fs')"
    by (simp add: disk_rename_def sample_disk_def disk_rename_to_def os_rename_def sample_fs_def os_parent_ok_def)
  then obtain d' fs' where r: "disk_rename 255 (sample_disk ReadMode 1) (sample_fs [7]) = Some (True, d', fs')"
    by blast
  from disk_rename_safe [OF r] have "fs_files fs' (df_filename d') = Some [7]"
    by (simp add: sample_fs_def sample_disk_def)
  with r show ?thesis by blast
qed

text \<open>\<^verbatim>\<open>FileSizeCache::get\<close> returns the size of the file on disk and keeps the cache correct.\<close>

lemma cache_get_correct:
  assumes "cache_valid fs cache" "cache_get filename fs cache = (sz, cache')"
  shows "sz = get_file_size filename fs \<and> cache_valid fs cache' \<and> map_find filename cache' = Some sz"
  by (rule cache_get_valid [OF assms])

end
