(* ===== verification/CRC32.thy ===== *)
theory CRC32
  imports Xor_Field
begin

unbundle bit_operations_syntax

text \<open>
  \<^verbatim>\<open>crc.h\<close> and \<^verbatim>\<open>crc.cpp\<close>: the CRC-32 of a block of data, the tables behind it, and the sliding
  window version the file checksummer uses. A register is a polynomial over GF(2) with the
  highest power in bit 0; shifting it by one bit is multiplication by \<open>x\<close>, so the locales of
  \<open>Xor_Field\<close> give the algebra: \<^verbatim>\<open>GF32Multiply\<close> is the multiplication, \<^verbatim>\<open>CRCExp8\<close> a power of
  \<open>x\<close>, and the window table removes a byte that has been shifted \<open>window\<close> times.
\<close>

section \<open>Multiplication in the field of the CRC\<close>

definition negate32 :: "u32 \<Rightarrow> u32" where
  "negate32 n = - n"

text \<open>One round of the loop: \<open>product\<close>, \<open>a\<close> and \<open>b\<close>.\<close>

definition gf32_step :: "u32 \<Rightarrow> u32 \<times> u32 \<times> u32 \<Rightarrow> u32 \<times> u32 \<times> u32" where
  "gf32_step polynomial s =
     (let (product, a, b) = s;
          product = product XOR (negate32 (drop_bit 31 b) AND a);
          a = drop_bit 1 a XOR (polynomial AND negate32 (a AND 1));
          b = push_bit 1 b
      in (product, a, b))"

definition gf32_multiply :: "u32 \<Rightarrow> u32 \<Rightarrow> u32 \<Rightarrow> u32" where
  "gf32_multiply a b polynomial =
     (let (product, a, b) = iter (gf32_step polynomial) 31 (0, a, b)
      in product XOR (negate32 (drop_bit 31 b) AND a))"

section \<open>The tables\<close>

record crc32table =
  crc_polynom :: u32
  crc_table :: "u32 list"
  crc_power :: "u32 list"

definition crc_bit :: "u32 \<Rightarrow> u32 \<Rightarrow> u32" where
  "crc_bit polynomial crc = drop_bit 1 crc XOR (if crc AND 1 \<noteq> 0 then polynomial else 0)"

definition crc_power_step :: "u32 \<Rightarrow> nat \<Rightarrow> u32 list \<times> u32 \<Rightarrow> u32 list \<times> u32" where
  "crc_power_step polynomial i s =
     (let (power, k) = s
      in (power[unat ((word_of_nat i - 3 :: u32) AND 31) := k], gf32_multiply k k polynomial))"

definition crc32table_new :: "u32 \<Rightarrow> crc32table" where
  "crc32table_new polynomial =
     \<lparr>crc_polynom = polynomial,
      crc_table = map (\<lambda>i. iter (crc_bit polynomial) 8 (word_of_nat i)) [0..<256],
      crc_power = fst (fold (crc_power_step polynomial) [0..<32] (replicate 32 0, drop_bit 1 0x80000000))\<rparr>"

abbreviation (input) ccitt_polynom :: u32 where "ccitt_polynom \<equiv> 0xEDB88320"

definition ccitttable :: crc32table where
  "ccitttable = crc32table_new ccitt_polynom"

section \<open>Checksums of blocks\<close>

definition crc_update :: "u8 \<Rightarrow> u32 \<Rightarrow> u32" where
  "crc_update c crc =
     (drop_bit 8 crc AND 0x00ffffff) XOR crc_table ccitttable ! unat (ucast crc XOR c :: u8)"

definition crc_update_block :: "u32 \<Rightarrow> bytes \<Rightarrow> u32" where
  "crc_update_block crc buffer = fold crc_update buffer crc"

text \<open>The loop of \<^verbatim>\<open>CRCExp8\<close>, on the reduced exponent.\<close>

lemma unat_drop_bit_1: "n \<noteq> 0 \<Longrightarrow> unat (drop_bit 1 n) < unat n" for n :: u64
  using unat_gt_0 [of n] by (simp add: drop_bit_eq_div unat_div)

function crc_exp_loop :: "u64 \<Rightarrow> nat \<Rightarrow> u32 \<Rightarrow> u32" where
  "crc_exp_loop n pw result =
     (if n \<noteq> 0
      then crc_exp_loop (drop_bit 1 n) ((pw + 1) mod 32)
             (if n AND 1 \<noteq> 0 then gf32_multiply result (crc_power ccitttable ! pw) (crc_polynom ccitttable)
              else result)
      else result)"
  by pat_completeness auto
termination
  by (relation "measure (\<lambda>(n, _). unat n)") (auto intro: unat_drop_bit_1 simp del: One_nat_def)

declare crc_exp_loop.simps [simp del]

definition crc_exp8 :: "u64 \<Rightarrow> u32" where
  "crc_exp8 n = crc_exp_loop (n mod 0xffffffff) 0 0x80000000"

definition crc_window_mask :: "u64 \<Rightarrow> u32" where
  "crc_window_mask window =
     (let coeff = crc_exp8 window;
          mask = gf32_multiply (NOT 0) coeff (crc_polynom ccitttable);
          mask = gf32_multiply mask 0x80800000 (crc_polynom ccitttable)
      in mask XOR NOT 0)"

definition generate_window_table :: "u64 \<Rightarrow> u32 list" where
  "generate_window_table window =
     (let coeff = crc_exp8 window;
          mask = crc_window_mask window
      in map (\<lambda>i. gf32_multiply (crc_table ccitttable ! i) coeff (crc_polynom ccitttable) XOR mask) [0..<256])"

definition crc_slide_char :: "u32 \<Rightarrow> u8 \<Rightarrow> u8 \<Rightarrow> u32 list \<Rightarrow> u32" where
  "crc_slide_char crc chNew chOld windowtable =
     (let crc = crc XOR NOT 0
      in (drop_bit 8 crc AND 0x00ffffff) XOR crc_table ccitttable ! unat (ucast crc XOR chNew :: u8)
         XOR windowtable ! unat chOld)"

definition crc_update_zeros :: "u32 \<Rightarrow> u64 \<Rightarrow> u32" where
  "crc_update_zeros crc len = gf32_multiply crc (crc_exp8 len) (crc_polynom ccitttable)"

section \<open>The shift register\<close>

abbreviation xtime32 :: "u32 \<Rightarrow> u32" where
  "xtime32 \<equiv> crc_bit ccitt_polynom"

lemma and_1_bit: "a AND 1 = (if bit a 0 then 1 else 0)" for a :: "'a::len word"
  by (rule bit_eqI) (auto simp: bit_simps intro!: gr0I)

lemma crc_bit_xor: "crc_bit p (a XOR b) = crc_bit p a XOR crc_bit p b"
  unfolding crc_bit_def and_1_bit
  by (rule bit_eqI) (auto simp: bit_simps)

lemma crc_bit_step: "Suc i < 32 \<Longrightarrow> crc_bit p (2 ^ Suc i) = 2 ^ i"
  unfolding crc_bit_def and_1_bit
  by (rule bit_eqI) (auto simp: bit_simps)

lemma crc_xor_shift: "xor_shift (crc_bit p) (2 ^ 31)"
  using xor_shift_rightI [of "crc_bit p"] crc_bit_xor crc_bit_step by auto

lemma drop_bit_31: "drop_bit 31 b = (if bit b 31 then 1 else 0)" for b :: u32
proof (rule bit_eqI)
  fix n
  show "bit (drop_bit 31 b) n = bit (if bit b 31 then 1 else 0 :: u32) n"
    by (cases "n = 0") (auto simp: bit_simps dest: bit_imp_le_length)
qed

lemma negate32_mask: "negate32 (if P then 1 else 0) = (if P then NOT 0 else 0)"
  by (simp add: negate32_def)

lemma gf32_step_eq:
  "gf32_step p (product, a, b) = (product XOR (if bit b 31 then a else 0), crc_bit p a, push_bit 1 b)"
  by (auto simp: gf32_step_def Let_def drop_bit_31 negate32_mask and_1_bit crc_bit_def)

text \<open>The product as a sum over the bits of \<open>b\<close>.\<close>

primrec gf32_sum :: "u32 \<Rightarrow> nat \<Rightarrow> u32 \<Rightarrow> u32 \<Rightarrow> u32" where
  "gf32_sum p 0 a b = 0"
| "gf32_sum p (Suc n) a b = gf32_sum p n a b XOR (if bit b (31 - n) then (crc_bit p ^^ n) a else 0)"

lemma gf32_loop:
  "n \<le> 31 \<Longrightarrow> (gf32_step p ^^ n) (0, a, b) = (gf32_sum p n a b, (crc_bit p ^^ n) a, push_bit n b)"
  by (induction n) (auto simp: gf32_step_eq bit_simps push_bit_push_bit plus_1_eq_Suc simp del: push_bit_Suc One_nat_def)

lemma gf32_multiply_sum: "gf32_multiply a b p = gf32_sum p (Suc 31) a b"
  unfolding gf32_multiply_def funpow_iter [symmetric] gf32_loop [OF order_refl]
  by (simp only: Let_def prod.case gf32_sum.simps) (simp add: drop_bit_31 negate32_mask bit_simps)

lemma gf32_sum_xor_left: "gf32_sum p n (a XOR a') b = gf32_sum p n a b XOR gf32_sum p n a' b"
  by (induction n) (auto simp: xor_shift.Dn_xor [OF crc_xor_shift] word_xor_simps)

lemma gf32_sum_xor_right: "gf32_sum p n a (b XOR b') = gf32_sum p n a b XOR gf32_sum p n a b'"
  by (induction n) (auto simp: bit_simps word_xor_simps)

lemma gf32_sum_bit: "gf32_sum p n (crc_bit p a) b = crc_bit p (gf32_sum p n a b)"
  by (induction n) (auto simp: crc_bit_xor funpow_swap1 xor_shift.D_zero [OF crc_xor_shift])

lemma crc_bit_one: "n \<le> 31 \<Longrightarrow> (crc_bit p ^^ n) (2 ^ 31) = 2 ^ (31 - n)"
proof (induction n)
  case (Suc n)
  then have "31 - n = Suc (31 - Suc n)" by simp
  with Suc show ?case using crc_bit_step [of "31 - Suc n" p] by simp
qed simp

lemma gf32_sum_one_bit: "n \<le> 32 \<Longrightarrow> j < 32 \<Longrightarrow>
    gf32_sum p n (2 ^ 31) (2 ^ j) = (if 32 - n \<le> j then 2 ^ j else 0)"
proof (induction n)
  case (Suc n)
  then show ?case
    using crc_bit_one [of n p] by (auto simp: bit_simps)
qed simp

lemma gf32_one: "gf32_multiply (2 ^ 31) b p = b"
proof (induction b rule: word_xor_induct)
  case zero
  have "gf32_sum p n (2 ^ 31) 0 = 0" for n by (induction n) simp_all
  then show ?case by (simp only: gf32_multiply_sum)
next
  case (bit i)
  then show ?case using gf32_sum_one_bit [of "Suc 31" i p] by (simp only: gf32_multiply_sum) simp
next
  case (xor a b)
  then show ?case by (simp only: gf32_multiply_sum gf32_sum_xor_right)
qed

interpretation crc: xor_mul xtime32 "2 ^ 31" "\<lambda>a b. gf32_multiply a b ccitt_polynom"
proof (rule xor_mul.intro [OF crc_xor_shift], unfold_locales)
  show "gf32_multiply (a XOR b) c ccitt_polynom = gf32_multiply a c ccitt_polynom XOR gf32_multiply b c ccitt_polynom"
    for a b c by (simp only: gf32_multiply_sum gf32_sum_xor_left)
  show "gf32_multiply (xtime32 a) c ccitt_polynom = xtime32 (gf32_multiply a c ccitt_polynom)"
    for a c by (simp only: gf32_multiply_sum gf32_sum_bit)
  show "gf32_multiply (2 ^ 31) c ccitt_polynom = c" for c by (rule gf32_one)
qed

section \<open>The order of \<open>x\<close>\<close>

text \<open>The repeated squares of \<open>x\<close>; squaring the last one gives \<open>x\<close> again.\<close>

definition crc_squares :: "u32 list" where
  "crc_squares = [0x40000000, 0x20000000, 0x8000000, 0x800000, 0x8000, 0xEDB88320,
     0xB1E6B092, 0xA06A2517, 0xED627DAE, 0x88D14467, 0xD7BBFE6A, 0xEC447F11,
     0x8E7EA170, 0x6427800E, 0x4D47BAE0, 0x9FE548F, 0x83852D0F, 0x30362F1A,
     0x7B5A9CC3, 0x31FEC169, 0x9FEC022A, 0x6C8DEDC4, 0x15D6874D, 0x5FDE7A4E,
     0xBAD90E37, 0x2E4E5EEF, 0x4EABA214, 0xA8A472C0, 0x429A969E, 0x148D302A,
     0xC40BA6D0, 0xC4E22C3C]"

lemma crc_squares_chain:
  "list_all2 (\<lambda>a b. gf32_multiply a a ccitt_polynom = b) crc_squares (tl crc_squares @ [0x40000000])"
  unfolding crc_squares_def list.sel append.simps list.rel_inject
  by (intro conjI; (rule list.rel_intros)?;
      simp add: gf32_multiply_def iter.simps gf32_step_def negate32_def)

definition crc_pow :: "nat \<Rightarrow> u32" where
  "crc_pow n = (xtime32 ^^ n) (2 ^ 31)"

lemma crc_pow_mult: "gf32_multiply (crc_pow m) (crc_pow n) ccitt_polynom = crc_pow (m + n)"
  unfolding crc_pow_def by (rule crc.mul_pow_pow)

lemma crc_pow_0: "crc_pow 0 = 0x80000000" and crc_pow_Suc: "crc_pow (Suc n) = xtime32 (crc_pow n)"
  by (simp_all add: crc_pow_def)

lemma crc_pow_1: "crc_pow 1 = 0x40000000"
  by (simp add: crc_pow_def crc_bit_def)

lemma crc_squares_pow: "i < 32 \<Longrightarrow> crc_squares ! i = crc_pow (2 ^ i)"
proof (induction i)
  case 0
  then show ?case using crc_pow_1 by (simp add: crc_squares_def)
next
  case (Suc i)
  have len: "length crc_squares = 32" by (simp add: crc_squares_def)
  have "crc_squares ! Suc i = (tl crc_squares @ [0x40000000]) ! i"
    using Suc.prems len by (simp add: nth_append nth_tl)
  also have "\<dots> = gf32_multiply (crc_squares ! i) (crc_squares ! i) ccitt_polynom"
    using list_all2_nthD [OF crc_squares_chain, of i] Suc.prems len by simp
  also have "\<dots> = crc_pow (2 ^ i + 2 ^ i)" using Suc by (simp only: Suc_lessD crc_pow_mult)
  also have "2 ^ i + 2 ^ i = (2::nat) ^ Suc i" by simp
  finally show ?case .
qed

lemma crc_pow_2_32: "crc_pow (2 ^ 32) = crc_pow 1"
proof -
  have len: "length crc_squares = 32" by (simp add: crc_squares_def)
  have "crc_pow 1 = (tl crc_squares @ [0x40000000]) ! 31" using len crc_pow_1 by (simp add: nth_append)
  also have "\<dots> = gf32_multiply (crc_squares ! 31) (crc_squares ! 31) ccitt_polynom"
    using list_all2_nthD [OF crc_squares_chain, of 31] len by simp
  also have "crc_squares ! 31 = crc_pow (2 ^ 31)" by (rule crc_squares_pow) simp
  also have "gf32_multiply (crc_pow (2 ^ 31)) (crc_pow (2 ^ 31)) ccitt_polynom = crc_pow (2 ^ 31 + 2 ^ 31)"
    by (rule crc_pow_mult)
  also have "2 ^ 31 + 2 ^ 31 = (2::nat) ^ 32" by simp
  finally show ?thesis by (rule sym)
qed

lemma xtime32_zero: "xtime32 a = 0 \<Longrightarrow> a = 0"
proof -
  assume z: "xtime32 a = 0"
  then have "bit (xtime32 a) 31 = False" by simp
  then have even: "\<not> bit a 0"
    by (auto simp: crc_bit_def and_1_bit bit_simps split: if_splits dest: bit_imp_le_length)
  have "\<not> bit a n" for n
  proof (cases n)
    case (Suc m)
    from z even have "drop_bit 1 a = 0" by (simp add: crc_bit_def and_1_bit)
    then have "\<not> bit (drop_bit 1 a) m" by simp
    then show ?thesis using Suc by (simp add: bit_simps)
  qed (use even in simp)
  then show ?thesis by (intro bit_eqI) simp
qed

lemma xtime32_inj: "xtime32 a = xtime32 b \<Longrightarrow> a = b"
  using xtime32_zero [of "a XOR b"] by (simp add: crc_bit_xor)

definition crc_order :: nat where "crc_order = 2 ^ 32 - 1"

lemma crc_pow_order: "crc_pow crc_order = crc_pow 0"
proof -
  have n: "(2::nat) ^ 32 = Suc crc_order" by (simp add: crc_order_def)
  have "xtime32 (crc_pow crc_order) = xtime32 (crc_pow 0)"
    using crc_pow_2_32 by (simp only: n crc_pow_Suc One_nat_def)
  then show ?thesis by (rule xtime32_inj)
qed

lemma crc_pow_add: "crc_pow (m + n) = (xtime32 ^^ m) (crc_pow n)"
  by (simp add: crc_pow_def funpow_add)

lemma crc_pow_mult_order: "crc_pow (k * crc_order) = crc_pow 0"
proof (induction k)
  case (Suc k)
  have "crc_pow (Suc k * crc_order) = (xtime32 ^^ crc_order) (crc_pow (k * crc_order))"
    by (simp only: mult_Suc crc_pow_add)
  also have "\<dots> = crc_pow (crc_order + 0)" by (simp only: Suc crc_pow_add)
  finally show ?case by (simp only: add_0_right crc_pow_order)
qed simp

lemma crc_pow_add_order: "crc_pow (n + k * crc_order) = crc_pow n"
  using crc_pow_add [of n 0] by (simp only: crc_pow_add [of n "k * crc_order"] crc_pow_mult_order) simp

lemma crc_pow_mod: "crc_pow (c * (n mod crc_order)) = crc_pow (c * n)"
proof -
  have "c * n = c * (n mod crc_order) + (c * (n div crc_order)) * crc_order"
    by (metis add_mult_distrib2 mod_mult_div_eq mult.assoc mult.commute)
  then show ?thesis by (metis crc_pow_add_order)
qed

lemma crc_pow_square_mod: "crc_pow (n * 2 ^ (e mod 32)) = crc_pow (n * 2 ^ e)"
proof (induction e rule: less_induct)
  case (less e)
  show ?case
  proof (cases "e < 32")
    case False
    then obtain d where d: "e = d + 32" by (metis add.commute le_Suc_ex not_less)
    have "(2::nat) ^ 32 = 1 + crc_order" by (simp add: crc_order_def)
    then have "n * 2 ^ e = n * 2 ^ d + (n * 2 ^ d) * crc_order"
      by (simp only: d power_add) (simp add: algebra_simps)
    then have "crc_pow (n * 2 ^ e) = crc_pow (n * 2 ^ d)" by (simp only: crc_pow_add_order)
    moreover have "e mod 32 = d mod 32" by (simp add: d)
    ultimately show ?thesis using less [of d] d by simp
  qed simp
qed

end
