(* ===== verification/CRC_Slide.thy ===== *)
theory CRC_Slide
  imports CRC32
begin

unbundle bit_operations_syntax

text \<open>
  What the CRC tables hold, in powers of \<open>x\<close>, and the correctness of \<^verbatim>\<open>CRCUpdateBlock\<close>,
  \<^verbatim>\<open>CRCExp8\<close>, the block of zeros and the sliding window of \<^verbatim>\<open>CRCSlideChar\<close>.
\<close>

section \<open>The tables hold powers of \<open>x\<close>\<close>

lemma crc_table_nth: "i < 256 \<Longrightarrow> crc_table ccitttable ! i = (xtime32 ^^ 8) (word_of_nat i)"
  by (simp add: ccitttable_def crc32table_new_def funpow_iter)

lemma crc_polynom_ccitt [simp]: "crc_polynom ccitttable = ccitt_polynom"
  by (simp add: ccitttable_def crc32table_new_def)

lemma crc_power_index: "i < 32 \<Longrightarrow> unat ((word_of_nat i - 3 :: u32) AND 31) = (i + 29) mod 32"
proof -
  have "\<forall>i\<in>set [0..<32]. unat ((word_of_nat i - 3 :: u32) AND 31) = (i + 29) mod 32" by code_simp
  then show "i < 32 \<Longrightarrow> ?thesis" by simp
qed

lemma rotate_index: "i < 32 \<Longrightarrow> (i + 29) mod 32 = (if i < 3 then i + 29 else i - 3)" for i :: nat
proof -
  assume i: "i < 32"
  show ?thesis
  proof (cases "i < 3")
    case False
    then obtain j where j: "i = 3 + j" by (metis le_add_diff_inverse not_less)
    have "(j + 32) mod 32 = j" using i j by (simp only: mod_add_self2) simp
    then show ?thesis using j by (simp add: add.commute)
  qed simp
qed

lemma crc_power_loop:
  "n \<le> 32 \<Longrightarrow> \<exists>p. fold (crc_power_step ccitt_polynom) [0..<n] (replicate 32 0, drop_bit 1 0x80000000)
      = (p, crc_pow (2 ^ n)) \<and> length p = 32 \<and> (\<forall>i<n. p ! ((i + 29) mod 32) = crc_pow (2 ^ i))"
proof (induction n)
  case 0
  then show ?case using crc_pow_1 by simp
next
  case (Suc n)
  then obtain p where p: "fold (crc_power_step ccitt_polynom) [0..<n] (replicate 32 0, drop_bit 1 0x80000000)
      = (p, crc_pow (2 ^ n))" "length p = 32" "\<forall>i<n. p ! ((i + 29) mod 32) = crc_pow (2 ^ i)" by auto
  have n: "n < 32" using Suc.prems by simp
  have idx: "(i + 29) mod 32 \<noteq> (n + 29) mod 32" if "i < n" for i
    using that n rotate_index [of i] rotate_index [of n] by (auto split: if_splits)
  define q where "q = p[(n + 29) mod 32 := crc_pow (2 ^ n)]"
  have "gf32_multiply (crc_pow (2 ^ n)) (crc_pow (2 ^ n)) ccitt_polynom = crc_pow (2 ^ Suc n)"
    by (simp only: crc_pow_mult power_Suc mult_2)
  then have "crc_power_step ccitt_polynom n (p, crc_pow (2 ^ n)) = (q, crc_pow (2 ^ Suc n))"
    by (simp only: crc_power_step_def Let_def prod.case crc_power_index [OF n] q_def)
  then have "fold (crc_power_step ccitt_polynom) [0..<Suc n] (replicate 32 0, drop_bit 1 0x80000000)
      = (q, crc_pow (2 ^ Suc n))"
    using p(1) by (simp only: upt_Suc le0 if_True fold_append o_apply fold_simps)
  moreover have "length q = 32" by (simp add: q_def p(2))
  moreover have "q ! ((i + 29) mod 32) = crc_pow (2 ^ i)" if "i < Suc n" for i
  proof (cases "i = n")
    case True
    then show ?thesis by (simp add: q_def p(2))
  next
    case False
    then have "i < n" using that by simp
    then show ?thesis using idx [of i] p(3) by (simp add: q_def)
  qed
  ultimately show ?case by blast
qed

lemma crc_power_nth: "pw < 32 \<Longrightarrow> crc_power ccitttable ! pw = crc_pow (2 ^ ((pw + 3) mod 32))"
proof -
  assume pw: "pw < 32"
  obtain p where p: "fold (crc_power_step ccitt_polynom) [0..<32] (replicate 32 0, drop_bit 1 0x80000000)
      = (p, crc_pow (2 ^ 32))" "\<forall>i<32. p ! ((i + 29) mod 32) = crc_pow (2 ^ i)"
    using crc_power_loop [of 32] by blast
  have "crc_power ccitttable = p"
    unfolding ccitttable_def crc32table_new_def p(1) by (simp only: crc32table.simps fst_conv)
  moreover have "((pw + 3) mod 32 + 29) mod 32 = pw"
    using pw by (simp only: mod_add_left_eq add.assoc) simp
  ultimately show ?thesis using p(2) [rule_format, of "(pw + 3) mod 32"] by simp
qed

lemma unat_halves: "unat n = 2 * unat (drop_bit 1 n) + (if n AND 1 \<noteq> 0 then 1 else 0)" for n :: u64
proof -
  have "unat (drop_bit 1 n) = unat n div 2" by (simp add: drop_bit_eq_div unat_div)
  moreover have "(n AND 1 \<noteq> 0) = odd (unat n)"
    unfolding and_1_bit using bit_unsigned_iff [of n 0, where 'a = nat] by (simp add: bit_0)
  ultimately show ?thesis by simp
qed

lemma crc_exp_loop_pow:
  assumes "pw < 32" "e mod 32 = (pw + 3) mod 32"
  shows "crc_exp_loop n pw (crc_pow m) = crc_pow (m + unat n * 2 ^ e)"
  using assms
proof (induction "unat n" arbitrary: n pw m e rule: less_induct)
  case less
  show ?case
  proof (cases "n = 0")
    case True
    then show ?thesis by (subst crc_exp_loop.simps) simp
  next
    case False
    define h where "h = drop_bit 1 n"
    have h: "unat h < unat n" unfolding h_def by (rule unat_drop_bit_1 [OF False])
    have "Suc e mod 32 = Suc ((pw + 3) mod 32) mod 32"
      using less.prems(2) mod_Suc_eq [of e 32] by simp
    then have "Suc e mod 32 = ((pw + 1) mod 32 + 3) mod 32"
      by (simp only: mod_Suc_eq mod_add_left_eq) simp
    note ih = less.hyps [OF h _ this]
    have IH: "crc_exp_loop h ((pw + 1) mod 32) (crc_pow m') = crc_pow (m' + unat h * 2 ^ Suc e)" for m'
      by (rule ih) simp
    have "crc_power ccitttable ! pw = crc_pow (1 * 2 ^ (e mod 32))"
      using crc_power_nth [OF less.prems(1)] less.prems(2) by simp
    then have pw: "crc_power ccitttable ! pw = crc_pow (2 ^ e)" using crc_pow_square_mod [of 1 e] by simp
    show ?thesis
    proof (cases "n AND 1 \<noteq> 0")
      case True
      have "crc_exp_loop n pw (crc_pow m) = crc_exp_loop h ((pw + 1) mod 32) (crc_pow (m + 2 ^ e))"
        using False True by (subst crc_exp_loop.simps) (simp only: h_def [symmetric] pw crc_polynom_ccitt crc_pow_mult if_True not_False_eq_True)
      also have "\<dots> = crc_pow (m + 2 ^ e + unat h * 2 ^ Suc e)" by (rule IH)
      also have "m + 2 ^ e + unat h * 2 ^ Suc e = m + unat n * 2 ^ e"
        using unat_halves [of n] True by (simp add: h_def algebra_simps)
      finally show ?thesis .
    next
      case even: False
      then have "crc_exp_loop n pw (crc_pow m) = crc_exp_loop h ((pw + 1) mod 32) (crc_pow m)"
        using False by (subst crc_exp_loop.simps) (simp only: h_def [symmetric] if_True if_False not_False_eq_True)
      also have "\<dots> = crc_pow (m + unat h * 2 ^ Suc e)" by (rule IH)
      also have "m + unat h * 2 ^ Suc e = m + unat n * 2 ^ e"
        using unat_halves [of n] even by (simp add: h_def)
      finally show ?thesis .
    qed
  qed
qed

lemma crc_exp8_pow: "crc_exp8 n = crc_pow (8 * unat n)"
proof -
  have "unat (n mod 0xffffffff) = unat n mod crc_order" by (simp add: unat_mod crc_order_def)
  then have "crc_exp8 n = crc_pow (0 + (unat n mod crc_order) * 2 ^ 3)"
    using crc_exp_loop_pow [of 0 3 "n mod 0xffffffff" 0] by (simp only: crc_exp8_def crc_pow_0) simp
  then show ?thesis using crc_pow_mod [of 8 "unat n"] by (simp add: mult.commute)
qed

section \<open>Checksums of blocks\<close>

lemma xtime32_n_drop: "(\<And>i. i < n \<Longrightarrow> \<not> bit a i) \<Longrightarrow> (xtime32 ^^ n) a = drop_bit n a"
proof (induction n)
  case (Suc n)
  then have "(xtime32 ^^ n) a = drop_bit n a" by simp
  moreover have "\<not> bit (drop_bit n a) 0" using Suc.prems [of n] by (simp add: bit_drop_bit_eq del: bit_0)
  moreover have "xtime32 b = drop_bit 1 b" if "\<not> bit b 0" for b
    using that by (simp add: crc_bit_def and_1_bit del: bit_0)
  ultimately have "(xtime32 ^^ Suc n) a = drop_bit 1 (drop_bit n a)" by (simp only: funpow.simps o_apply)
  then show ?case by (simp only: drop_bit_drop_bit plus_1_eq_Suc)
qed simp

lemma crc_low_byte: "crc_table ccitttable ! unat b = (xtime32 ^^ 8) (ucast b)" for b :: u8
  using crc_table_nth [of "unat b"] unsigned_less [of b] by (simp del: funpow.simps)

lemma crc_shift_byte:
  "(drop_bit 8 r AND 0x00ffffff) XOR crc_table ccitttable ! unat (ucast r XOR c :: u8) = (xtime32 ^^ 8) (r XOR ucast c)"
proof -
  let ?lo = "ucast (ucast r :: u8) :: u32"
  let ?hi = "r XOR ?lo"
  have lo: "bit ?lo i \<longleftrightarrow> i < 8 \<and> bit r i" for i
    by (auto simp: bit_simps dest: bit_imp_le_length)
  have hi: "i < 8 \<Longrightarrow> \<not> bit ?hi i" for i by (simp add: bit_xor_iff lo)
  have "drop_bit 8 r AND 0x00ffffff = drop_bit 8 ?hi"
  proof -
    have "drop_bit 8 r AND 0x00ffffff = take_bit 24 (drop_bit 8 r)"
      by (simp add: take_bit_eq_mask mask_eq_exp_minus_1)
    also have "\<dots> = drop_bit 8 ?hi"
      by (rule bit_eqI) (auto simp: bit_simps lo dest: bit_imp_le_length)
    finally show ?thesis .
  qed
  also have "\<dots> = (xtime32 ^^ 8) ?hi" by (rule xtime32_n_drop [symmetric]) (rule hi)
  finally have h: "drop_bit 8 r AND 0x00ffffff = (xtime32 ^^ 8) ?hi" .
  have "crc_table ccitttable ! unat (ucast r XOR c :: u8) = (xtime32 ^^ 8) (?lo XOR ucast c)"
    unfolding crc_low_byte by (simp only: unsigned_xor_eq)
  moreover have "?hi XOR (?lo XOR ucast c) = r XOR ucast c" by (simp add: xor.assoc)
  ultimately show ?thesis by (simp only: h crc.Dn_xor [symmetric])
qed

lemma crc_update_shift: "crc_update c r = (xtime32 ^^ 8) (r XOR ucast c)"
  unfolding crc_update_def by (rule crc_shift_byte)

lemma crc_update_block_Cons: "crc_update_block r (c # bs) = crc_update_block (crc_update c r) bs"
  and crc_update_block_Nil: "crc_update_block r [] = r"
  and crc_update_block_append: "crc_update_block r (as @ bs) = crc_update_block (crc_update_block r as) bs"
  by (simp_all add: crc_update_block_def)

text \<open>The contribution of the initial value moves along with the data.\<close>

lemma crc_update_block_linear:
  "crc_update_block (r XOR r') bs = crc_update_block r bs XOR (xtime32 ^^ (8 * length bs)) r'"
proof (induction bs arbitrary: r r')
  case Nil
  then show ?case by (simp add: crc_update_block_Nil)
next
  case (Cons c bs)
  have "crc_update c (r XOR r') = crc_update c r XOR (xtime32 ^^ 8) r'"
    by (simp only: crc_update_shift crc.Dn_xor [symmetric] word_xor_ac)
  then have "crc_update_block (r XOR r') (c # bs) =
      crc_update_block (crc_update c r) bs XOR (xtime32 ^^ (8 * length bs)) ((xtime32 ^^ 8) r')"
    by (simp only: crc_update_block_Cons Cons.IH)
  then show ?case by (simp only: crc_update_block_Cons crc.Dn_Dn list.size(4)) (simp only: distrib_left add_0_right Suc_eq_plus1 mult_1_right add_0)
qed

lemma crc_update_block_zeros: "crc_update_block r (replicate n 0) = (xtime32 ^^ (8 * n)) r"
proof (induction n arbitrary: r)
  case (Suc n)
  have "crc_update 0 r = (xtime32 ^^ 8) r" by (simp only: crc_update_shift unsigned_0 xor.right_neutral)
  then have "crc_update_block r (replicate (Suc n) 0) = (xtime32 ^^ (8 * n)) ((xtime32 ^^ 8) r)"
    by (simp only: replicate.simps crc_update_block_Cons Suc)
  then show ?case by (simp only: crc.Dn_Dn mult_Suc_right add.commute)
qed (simp add: crc_update_block_Nil)

lemma crc_mul_exp8: "gf32_multiply a (crc_exp8 n) ccitt_polynom = (xtime32 ^^ (8 * unat n)) a"
  unfolding crc_exp8_pow crc_pow_def by (rule crc.mul_pow_right)

section \<open>The window\<close>

lemma crc_window_mask_eq:
  "crc_window_mask window =
     (xtime32 ^^ (8 * unat window)) (NOT 0) XOR (xtime32 ^^ (8 * unat window + 8)) (NOT 0) XOR NOT 0"
proof -
  have "(xtime32 ^^ 8) (2 ^ 31) = 2 ^ 23"
    using crc_bit_one [of 8 ccitt_polynom] by simp
  then have c: "(0x80800000 :: u32) = 2 ^ 31 XOR (xtime32 ^^ 8) (2 ^ 31)" by simp
  have "gf32_multiply a 0x80800000 ccitt_polynom = a XOR (xtime32 ^^ 8) a" for a
    unfolding c by (simp only: crc.mul_xor_right crc.mul_one_right crc.mul_pow_right)
  then show ?thesis
    unfolding crc_window_mask_def Let_def crc_polynom_ccitt crc_mul_exp8
    by (simp only: crc.Dn_Dn add.commute [of 8] xor.assoc)
qed

lemma generate_window_table_nth:
  "generate_window_table window ! unat c =
     (xtime32 ^^ (8 * unat window + 8)) (ucast c) XOR crc_window_mask window" for c :: u8
proof -
  have "unat c < 256" using unsigned_less [of c] by simp
  then have "[0..<256] ! unat c = unat c" "unat c < length [0..<256]" by simp_all
  then show ?thesis
    by (simp only: generate_window_table_def Let_def nth_map crc_low_byte crc_polynom_ccitt
        crc_mul_exp8 crc.Dn_Dn)
qed

lemma crc_slide_char_shift:
  "crc_slide_char (NOT 0 XOR r) new old table = (xtime32 ^^ 8) (r XOR ucast new) XOR table ! unat old"
proof -
  have e: "(NOT 0 XOR r) XOR NOT 0 = r" by (simp only: xor.commute [of "NOT 0"] xor.assoc bit.xor_self xor.right_neutral)
  show ?thesis by (simp only: crc_slide_char_def Let_def e xor.assoc [symmetric] crc_shift_byte)
qed

lemma crc_slide_correct_rule:
  assumes "unat window = Suc (length mid)"
  shows "crc_slide_char (NOT 0 XOR crc_update_block (NOT 0) (old # mid)) new old (generate_window_table window)
    = NOT 0 XOR crc_update_block (NOT 0) (mid @ [new])"
proof -
  define n where "n = 8 * length mid"
  define X where "X = crc_update_block 0 mid"
  define F where "F = (xtime32 ^^ n) (NOT 0)"
  define G where "G = (xtime32 ^^ (n + 8)) (NOT 0)"
  define H where "H = (xtime32 ^^ (n + 8 + 8)) (NOT 0)"
  define B where "B = (xtime32 ^^ (n + 8)) (ucast old)"
  define C where "C = (xtime32 ^^ (n + 8 + 8)) (ucast old)"
  have w: "8 * unat window = n + 8" using assms by (simp add: n_def)
  have split: "crc_update_block r mid = X XOR (xtime32 ^^ n) r" for r
    using crc_update_block_linear [of 0 r mid] by (simp only: X_def n_def xor.left_neutral)
  have shift: "(xtime32 ^^ n) ((xtime32 ^^ 8) r) = (xtime32 ^^ (n + 8)) r" for r
    by (rule crc.Dn_Dn)
  have old: "crc_update_block (NOT 0) (old # mid) = X XOR G XOR B"
    by (simp only: crc_update_block_Cons crc_update_shift split crc.Dn_xor shift G_def B_def xor.assoc)
  have new: "crc_update_block (NOT 0) (mid @ [new]) = (xtime32 ^^ 8) (X XOR F XOR ucast new)"
    by (simp only: crc_update_block_append crc_update_block_Cons crc_update_block_Nil crc_update_shift split F_def xor.assoc)
  have up: "(xtime32 ^^ 8) F = G" "(xtime32 ^^ 8) G = H" "(xtime32 ^^ 8) B = C"
    by (simp_all only: F_def G_def H_def B_def C_def crc.Dn_Dn add.commute [of 8])
  have tbl: "generate_window_table window ! unat old = C XOR (G XOR H XOR NOT 0)"
    by (simp only: generate_window_table_nth crc_window_mask_eq w C_def G_def H_def)
  have "crc_slide_char (NOT 0 XOR crc_update_block (NOT 0) (old # mid)) new old (generate_window_table window)
      = (xtime32 ^^ 8) (X XOR G XOR B XOR ucast new) XOR (C XOR (G XOR H XOR NOT 0))"
    by (simp only: crc_slide_char_shift tbl old xor.assoc)
  also have "\<dots> = NOT 0 XOR (xtime32 ^^ 8) (X XOR F XOR ucast new)"
    unfolding crc.Dn_xor up by (simp add: word_xor_ac del: funpow.simps)
  finally show ?thesis by (simp only: new)
qed

text \<open>C29: sliding the window by one byte gives the checksum of the next window, for every window
  length and every content: with the table generated for the length of the window,
  \<^verbatim>\<open>CRCSlideChar\<close> turns the CRC of \<open>old # mid\<close> into the CRC of \<open>mid @ [new]\<close>.\<close>

theorem crc_slide_correct:
  assumes "unat window = Suc (length mid)"
  shows "crc_slide_char (NOT 0 XOR crc_update_block (NOT 0) (old # mid)) new old (generate_window_table window)
    = NOT 0 XOR crc_update_block (NOT 0) (mid @ [new])"
  using assms by (rule crc_slide_correct_rule)

theorem crc_slide_correct_witness:
  "crc_slide_char (NOT 0 XOR crc_update_block (NOT 0) [1, 2, 3]) 4 1 (generate_window_table 3)
    = NOT 0 XOR crc_update_block (NOT 0) [2, 3, 4]"
  using crc_slide_correct [of 3 "[2, 3]" 1 4] by simp

lemma crc_update_zeros_eq: "crc_update_zeros crc len = crc_update_block crc (replicate (unat len) 0)"
  by (simp only: crc_update_zeros_def crc_polynom_ccitt crc_mul_exp8 crc_update_block_zeros)

text \<open>C30: the CRC update over a run of zero bytes that uses \<^verbatim>\<open>CRCExp8\<close> equals feeding the zeros one by
  one, for every 64 bit length.\<close>

theorem crc_update_zeros_correct:
  "crc_update_zeros crc len = crc_update_block crc (replicate (unat len) 0)"
  by (simp only: crc_update_zeros_def crc_polynom_ccitt crc_mul_exp8 crc_update_block_zeros)

text \<open>The CRC of two blocks put together follows from the two CRCs and the length of the second,
  with the run-of-zeros update moving the first checksum past the second block.\<close>

lemma crc_concat:
  assumes "unat len = length bs"
  shows "NOT 0 XOR crc_update_block (NOT 0) (as @ bs) =
    crc_update_zeros (NOT 0 XOR crc_update_block (NOT 0) as) len XOR (NOT 0 XOR crc_update_block (NOT 0) bs)"
proof -
  let ?A = "crc_update_block (NOT 0) as"
  have "crc_update_block (NOT 0 XOR (NOT 0 XOR ?A)) bs =
      crc_update_block (NOT 0) bs XOR (xtime32 ^^ (8 * length bs)) (NOT 0 XOR ?A)"
    by (rule crc_update_block_linear)
  then show ?thesis
    by (simp only: crc_update_block_append xor_self_left crc_update_zeros_def crc_polynom_ccitt crc_mul_exp8 assms
        word_xor_ac)
qed

end
