(* ===== verification/Memory.thy ===== *)
theory Memory
  imports Prelude LeType
begin

unbundle bit_operations_syntax

text \<open>
  Arrays in memory: \<^verbatim>\<open>memcpy\<close> and \<^verbatim>\<open>memset\<close> into the middle of a byte array, and little endian
  loads. A store that stays inside the array keeps its length; the invariants of the components
  fix the lengths of their arrays, so preserving them shows that no store leaves its array.
\<close>

definition memcpy :: "bytes \<Rightarrow> nat \<Rightarrow> bytes \<Rightarrow> bytes" where
  "memcpy dst off src = take off dst @ src @ drop (off + length src) dst"

definition memset :: "bytes \<Rightarrow> nat \<Rightarrow> u8 \<Rightarrow> nat \<Rightarrow> bytes" where
  "memset dst off v n = memcpy dst off (replicate n v)"

lemma length_memcpy [simp]: "off + length src \<le> length dst \<Longrightarrow> length (memcpy dst off src) = length dst"
  by (simp add: memcpy_def)

lemma length_memset [simp]: "off + n \<le> length dst \<Longrightarrow> length (memset dst off v n) = length dst"
  by (simp add: memset_def)

lemma take_memcpy [buf_simps]:
  "off \<le> length dst \<Longrightarrow> take (off + length src) (memcpy dst off src) = take off dst @ src"
  by (simp add: memcpy_def)

lemma take_memcpy_before [buf_simps]: "n \<le> off \<Longrightarrow> off \<le> length dst \<Longrightarrow> take n (memcpy dst off src) = take n dst"
  by (simp add: memcpy_def min_absorb1)

lemma memcpy_all [buf_simps]: "off + length src = length dst \<Longrightarrow> memcpy dst off src = take off dst @ src"
  by (simp add: memcpy_def)

lemma drop_memcpy_after [buf_simps]:
  "off + length src \<le> n \<Longrightarrow> off \<le> length dst \<Longrightarrow> drop n (memcpy dst off src) = drop n dst"
  by (simp add: memcpy_def)

text \<open>A little endian load of 32 bits at a byte offset.\<close>

definition load32 :: "bytes \<Rightarrow> nat \<Rightarrow> u32" where
  "load32 data off =
     push_bit 0 (ucast (data ! off)) OR push_bit 8 (ucast (data ! (off + 1))) OR
     push_bit 16 (ucast (data ! (off + 2))) OR push_bit 24 (ucast (data ! (off + 3)))"

lemma load32_append: "off + 4 \<le> length as \<Longrightarrow> load32 (as @ bs) off = load32 as off"
  by (simp add: load32_def nth_append)

lemma load32_leu32: "leu32_value (take 4 (drop off data)) = Some (load32 data off)" if "off + 4 \<le> length data"
proof -
  have "take 4 (drop off data) = [data ! off, data ! (off + 1), data ! (off + 2), data ! (off + 3)]"
    using that by (intro nth_equalityI) (auto simp: less_Suc_eq numeral_eq_Suc)
  then show ?thesis by (simp add: load32_def)
qed

end
