(* ===== verification/MD5.thy ===== *)
theory MD5
  imports Memory
begin

unbundle bit_operations_syntax

text \<open>
  The scalar MD5 of \<^verbatim>\<open>parpar/hasher\<close>: the block function of \<^verbatim>\<open>md5-base.h\<close> with the macros of
  \<^verbatim>\<open>md5-scalar-base.h\<close>, the streaming object \<^verbatim>\<open>MD5Single\<close> of \<^verbatim>\<open>hasher_md5crc.cpp\<close>, and
  \<^verbatim>\<open>md5_final_block\<close>, whose loop runs through numbered states to pad the message and a run of
  zeros after it. The one-shot function \<open>md5\<close> is the specification of all of them.
\<close>

section \<open>The block function\<close>

type_synonym md5_state = "u32 \<times> u32 \<times> u32 \<times> u32"

datatype md5_fun = FunF | FunG | FunH | FunI

definition rotate32 :: "u32 \<Rightarrow> nat \<Rightarrow> u32" where
  "rotate32 a n = push_bit n a OR drop_bit (32 - n) (a AND 0xffffffff)"

definition md5_addf :: "md5_fun \<Rightarrow> u32 \<Rightarrow> u32 \<Rightarrow> u32 \<Rightarrow> u32 \<Rightarrow> u32" where
  "md5_addf f a b c d =
     (case f of
        FunG \<Rightarrow> ((NOT d AND c) + a) + (d AND b)
      | FunF \<Rightarrow> a + (((c XOR d) AND b) XOR d)
      | FunH \<Rightarrow> a + ((d XOR c) XOR b)
      | FunI \<Rightarrow> a + ((NOT d OR b) XOR c))"

text \<open>
  One \<^verbatim>\<open>RX\<close>: the first register is updated. The source renames the registers from line to
  line (\<^verbatim>\<open>A,B,C,D\<close>, then \<^verbatim>\<open>D,A,B,C\<close>); here the tuple is rotated instead.
\<close>

definition md5_rx :: "bytes \<Rightarrow> md5_fun \<times> nat \<times> nat \<times> u32 \<Rightarrow> md5_state \<Rightarrow> md5_state" where
  "md5_rx data r s =
     (let (f, i, n, k) = r; (a, b, c, d) = s;
          a = a + (load32 data (i * 4) + k);
          a = md5_addf f a b c d;
          a = rotate32 a n;
          a = a + b
      in (d, a, b, c))"

definition md5_rounds :: "(md5_fun \<times> nat \<times> nat \<times> u32) list" where
  "md5_rounds =
    [(FunF,  0,  7, 0xd76aa478), (FunF,  1, 12, 0xe8c7b756), (FunF,  2, 17, 0x242070db), (FunF,  3, 22, 0xc1bdceee),
     (FunF,  4,  7, 0xf57c0faf), (FunF,  5, 12, 0x4787c62a), (FunF,  6, 17, 0xa8304613), (FunF,  7, 22, 0xfd469501),
     (FunF,  8,  7, 0x698098d8), (FunF,  9, 12, 0x8b44f7af), (FunF, 10, 17, 0xffff5bb1), (FunF, 11, 22, 0x895cd7be),
     (FunF, 12,  7, 0x6b901122), (FunF, 13, 12, 0xfd987193), (FunF, 14, 17, 0xa679438e), (FunF, 15, 22, 0x49b40821),
     (FunG,  1,  5, 0xf61e2562), (FunG,  6,  9, 0xc040b340), (FunG, 11, 14, 0x265e5a51), (FunG,  0, 20, 0xe9b6c7aa),
     (FunG,  5,  5, 0xd62f105d), (FunG, 10,  9, 0x02441453), (FunG, 15, 14, 0xd8a1e681), (FunG,  4, 20, 0xe7d3fbc8),
     (FunG,  9,  5, 0x21e1cde6), (FunG, 14,  9, 0xc33707d6), (FunG,  3, 14, 0xf4d50d87), (FunG,  8, 20, 0x455a14ed),
     (FunG, 13,  5, 0xa9e3e905), (FunG,  2,  9, 0xfcefa3f8), (FunG,  7, 14, 0x676f02d9), (FunG, 12, 20, 0x8d2a4c8a),
     (FunH,  5,  4, 0xfffa3942), (FunH,  8, 11, 0x8771f681), (FunH, 11, 16, 0x6d9d6122), (FunH, 14, 23, 0xfde5380c),
     (FunH,  1,  4, 0xa4beea44), (FunH,  4, 11, 0x4bdecfa9), (FunH,  7, 16, 0xf6bb4b60), (FunH, 10, 23, 0xbebfbc70),
     (FunH, 13,  4, 0x289b7ec6), (FunH,  0, 11, 0xeaa127fa), (FunH,  3, 16, 0xd4ef3085), (FunH,  6, 23, 0x04881d05),
     (FunH,  9,  4, 0xd9d4d039), (FunH, 12, 11, 0xe6db99e5), (FunH, 15, 16, 0x1fa27cf8), (FunH,  2, 23, 0xc4ac5665),
     (FunI,  0,  6, 0xf4292244), (FunI,  7, 10, 0x432aff97), (FunI, 14, 15, 0xab9423a7), (FunI,  5, 21, 0xfc93a039),
     (FunI, 12,  6, 0x655b59c3), (FunI,  3, 10, 0x8f0ccc92), (FunI, 10, 15, 0xffeff47d), (FunI,  1, 21, 0x85845dd1),
     (FunI,  8,  6, 0x6fa87e4f), (FunI, 15, 10, 0xfe2ce6e0), (FunI,  6, 15, 0xa3014314), (FunI, 13, 21, 0x4e0811a1),
     (FunI,  4,  6, 0xf7537e82), (FunI, 11, 10, 0xbd3af235), (FunI,  2, 15, 0x2ad7d2bb), (FunI,  9, 21, 0xeb86d391)]"

definition md5_process_block :: "md5_state \<Rightarrow> bytes \<Rightarrow> md5_state" where
  "md5_process_block state data =
     (let (oA, oB, oC, oD) = state;
          (A, B, C, D) = fold (md5_rx data) md5_rounds state
      in (oA + A, oB + B, oC + C, oD + D))"

definition md5_init :: md5_state where
  "md5_init = (0x67452301, 0xefcdab89, 0x98badcfe, 0x10325476)"

text \<open>The two loops over whole blocks, of data and of zeros.\<close>

primrec md5_update_blocks :: "md5_state \<Rightarrow> bytes \<Rightarrow> nat \<Rightarrow> md5_state" where
  "md5_update_blocks state data 0 = state"
| "md5_update_blocks state data (Suc blocks) =
     md5_update_blocks (md5_process_block state (take 64 data)) (drop 64 data) blocks"

primrec md5_update_zero_blocks :: "md5_state \<Rightarrow> nat \<Rightarrow> md5_state" where
  "md5_update_zero_blocks state 0 = state"
| "md5_update_zero_blocks state (Suc blocks) =
     md5_update_zero_blocks (md5_process_block state (replicate 64 0)) blocks"

section \<open>The final blocks\<close>

text \<open>
  \<^verbatim>\<open>loopState\<close> of \<^verbatim>\<open>md5_final_block\<close>: 0 the rest of the data, 1 whole blocks of zeros, 2 the end
  of the zeros, 3 a block for the end mark alone, 4 the block with the length.
\<close>

datatype final_phase = LS0 | LS1 | LS2 | LS3 | LS4

definition final_mark :: "u64 \<Rightarrow> bytes \<Rightarrow> final_phase \<times> nat \<times> bytes" where
  "final_mark totalLength block =
     (let remaining = unat (totalLength AND 63);
          block = block[remaining := 0x80];
          remaining = remaining + 1
      in if remaining \<le> 64 - 8 then (LS4, remaining, block) else (LS3, 0, block))"

definition final_length :: "u64 \<Rightarrow> nat \<Rightarrow> bytes \<Rightarrow> bytes" where
  "final_length totalLength remaining block =
     memcpy (memset block remaining 0 (64 - 8 - remaining)) (64 - 8) (leu64_bytes (push_bit 3 totalLength))"

function md5_final_loop :: "final_phase \<Rightarrow> nat \<Rightarrow> u64 \<Rightarrow> u64 \<Rightarrow> bytes \<Rightarrow> md5_state \<Rightarrow> md5_state" where
  "md5_final_loop loopState remaining zeroPad totalLength block state =
     (let loopState = (if loopState = LS1 \<and> zeroPad < 64 then LS2 else loopState);
          (loopState, remaining, block) =
            (if loopState = LS2 then final_mark totalLength block else (loopState, remaining, block));
          block = (if loopState = LS4 then final_length totalLength remaining block else block);
          state = md5_process_block state block
      in if loopState = LS4 then state
         else if loopState = LS3 then md5_final_loop LS4 remaining zeroPad totalLength block state
         else if loopState = LS1 then md5_final_loop LS1 remaining (zeroPad - 64) totalLength block state
         else if loopState = LS0
              then md5_final_loop LS1 remaining (zeroPad - (64 - word_of_nat remaining)) totalLength (replicate 64 0) state
         else state)"
  by pat_completeness auto
termination
proof (relation "measures [\<lambda>(ls, _). case ls of LS0 \<Rightarrow> 4 | LS1 \<Rightarrow> 3 | LS2 \<Rightarrow> 2 | LS3 \<Rightarrow> 1 | LS4 \<Rightarrow> 0,
    \<lambda>(_, _, z, _). unat z]", goal_cases)
  case 1
  then show ?case by simp
qed (auto simp: final_mark_def Let_def not_less unat_sub word_le_nat_alt split: if_splits prod.splits)

declare md5_final_loop.simps [simp del]

definition md5_final_block :: "md5_state \<Rightarrow> bytes \<Rightarrow> u64 \<Rightarrow> u64 \<Rightarrow> md5_state" where
  "md5_final_block state data totalLength zeroPad =
     (let remaining = unat (totalLength AND 63);
          block = take remaining data @ replicate (64 - remaining) 0;
          totalLength = totalLength + zeroPad;
          loopState = (if word_of_nat remaining + zeroPad < 64 then LS2 else LS0)
      in md5_final_loop loopState remaining zeroPad totalLength block state)"

definition md5_bytes :: "md5_state \<Rightarrow> bytes" where
  "md5_bytes state =
     (case state of (a, b, c, d) \<Rightarrow> leu32_bytes a @ leu32_bytes b @ leu32_bytes c @ leu32_bytes d)"

section \<open>The streaming object\<close>

record md5_single =
  ms_tmp :: bytes
  ms_state :: md5_state
  ms_dataLen :: u64

definition md5_reset :: "md5_single \<Rightarrow> md5_single" where
  "md5_reset ctx = ctx\<lparr>ms_state := md5_init, ms_dataLen := 0\<rparr>"

definition md5_update :: "bytes \<Rightarrow> md5_single \<Rightarrow> md5_single" where
  "md5_update data ctx =
     (let buffered = unat (ms_dataLen ctx AND 63);
          ctx = ctx\<lparr>ms_dataLen := ms_dataLen ctx + word_of_nat (length data)\<rparr>;
          wanted = 64 - buffered
      in if buffered \<noteq> 0 \<and> length data < wanted then ctx\<lparr>ms_tmp := memcpy (ms_tmp ctx) buffered data\<rparr>
         else let (ctx, data) =
                (if buffered \<noteq> 0
                 then let tmp = memcpy (ms_tmp ctx) buffered (take wanted data)
                      in (ctx\<lparr>ms_tmp := tmp, ms_state := md5_update_blocks (ms_state ctx) tmp 1\<rparr>, drop wanted data)
                 else (ctx, data))
              in ctx\<lparr>ms_state := md5_update_blocks (ms_state ctx) data (length data div 64),
                     ms_tmp := memcpy (ms_tmp ctx) 0 (drop (64 * (length data div 64)) data)\<rparr>)"

definition md5_update_zero :: "nat \<Rightarrow> md5_single \<Rightarrow> md5_single" where
  "md5_update_zero len ctx =
     (let buffered = unat (ms_dataLen ctx AND 63);
          ctx = ctx\<lparr>ms_dataLen := ms_dataLen ctx + word_of_nat len\<rparr>;
          wanted = 64 - buffered
      in if buffered \<noteq> 0 \<and> len < wanted then ctx\<lparr>ms_tmp := memset (ms_tmp ctx) buffered 0 len\<rparr>
         else let (ctx, len) =
                (if buffered \<noteq> 0
                 then let tmp = memset (ms_tmp ctx) buffered 0 wanted
                      in (ctx\<lparr>ms_tmp := tmp, ms_state := md5_update_blocks (ms_state ctx) tmp 1\<rparr>, len - wanted)
                 else (ctx, len))
              in ctx\<lparr>ms_state := md5_update_zero_blocks (ms_state ctx) (len div 64),
                     ms_tmp := memset (ms_tmp ctx) 0 0 (len mod 64)\<rparr>)"

definition md5_end :: "md5_single \<Rightarrow> bytes" where
  "md5_end ctx = md5_bytes (md5_final_block (ms_state ctx) (ms_tmp ctx) (ms_dataLen ctx) 0)"

end
