(* ===== verification/MD5_Correct.thy ===== *)
theory MD5_Correct
  imports MD5
begin

unbundle bit_operations_syntax

text \<open>
  The one-shot MD5 of a message over the program's block function, and the proofs that the streaming
  object and the state machine of the final block compute it. That this one-shot MD5 is the digest of RFC
  1321 is proved in \<open>MD5_RFC\<close>.
\<close>

section \<open>Specification\<close>

definition md5_chunks :: "md5_state \<Rightarrow> bytes \<Rightarrow> md5_state" where
  "md5_chunks state bs = md5_update_blocks state bs (length bs div 64)"

definition md5_padding :: "nat \<Rightarrow> bytes" where
  "md5_padding n = 0x80 # replicate ((119 - n mod 64) mod 64) 0 @ leu64_bytes (push_bit 3 (word_of_nat n))"

definition md5 :: "bytes \<Rightarrow> bytes" where
  "md5 bs = md5_bytes (md5_chunks md5_init (bs @ md5_padding (length bs)))"

section \<open>Whole blocks\<close>

lemma md5_update_blocks_append:
  "length as = 64 * m \<Longrightarrow> md5_update_blocks s (as @ bs) (m + n) = md5_update_blocks (md5_update_blocks s as m) bs n"
proof (induction m arbitrary: s as)
  case (Suc m)
  then have "md5_update_blocks s' (drop 64 as @ bs) (m + n) = md5_update_blocks (md5_update_blocks s' (drop 64 as) m) bs n" for s'
    by simp
  with Suc.prems show ?case by simp
qed simp

lemma md5_update_blocks_rest: "64 * n \<le> length as \<Longrightarrow> md5_update_blocks s (as @ bs) n = md5_update_blocks s as n"
proof (induction n arbitrary: s as)
  case (Suc n)
  then have "md5_update_blocks s' (drop 64 as @ bs) n = md5_update_blocks s' (drop 64 as) n" for s' by simp
  with Suc.prems show ?case by simp
qed simp

lemma md5_chunks_append: "64 dvd length as \<Longrightarrow> md5_chunks s (as @ bs) = md5_chunks (md5_chunks s as) bs"
  by (auto simp: md5_chunks_def div_mult_self2 md5_update_blocks_append elim!: dvdE)

lemma md5_chunks_block: "length b = 64 \<Longrightarrow> md5_chunks s b = md5_process_block s b"
  by (simp add: md5_chunks_def)

lemma md5_chunks_short: "length b < 64 \<Longrightarrow> md5_chunks s b = s"
  by (simp add: md5_chunks_def)

lemma md5_chunks_take: "md5_chunks s (take (64 * (length bs div 64)) bs) = md5_chunks s bs"
proof -
  let ?n = "64 * (length bs div 64)"
  have "md5_chunks s (take ?n bs @ drop ?n bs) = md5_chunks (md5_chunks s (take ?n bs)) (drop ?n bs)"
    by (rule md5_chunks_append) simp
  moreover have "length (drop ?n bs) < 64" by (simp add: minus_mult_div_eq_mod)
  ultimately show ?thesis by (simp add: md5_chunks_short)
qed

lemma md5_zero_blocks: "md5_update_zero_blocks s n = md5_update_blocks s (replicate (64 * n) 0) n"
  by (induction n arbitrary: s) simp_all

lemma unat_and_63: "unat (w AND 63) = unat w mod 64" for w :: u64
proof -
  have "w AND 63 = take_bit 6 w" by (simp add: take_bit_eq_mask mask_eq_exp_minus_1)
  then have "unat (w AND 63) = take_bit 6 (unat w)" by (simp only: unsigned_take_bit_eq)
  then show ?thesis by (simp add: take_bit_eq_mod)
qed

lemma unat_of_nat_64 [simp]: "unat (word_of_nat n :: u64) mod 64 = n mod 64"
  by (simp add: unat_of_nat mod_mod_cancel)

section \<open>The streaming object holds a message\<close>

definition ms_absorbs :: "md5_single \<Rightarrow> bytes \<Rightarrow> bool" where
  "ms_absorbs ctx bs \<longleftrightarrow>
     ms_state ctx = md5_chunks md5_init bs \<and> ms_dataLen ctx = word_of_nat (length bs) \<and>
     length (ms_tmp ctx) = 64 \<and> take (length bs mod 64) (ms_tmp ctx) = drop (64 * (length bs div 64)) bs"

lemma md5_reset_absorbs: "length (ms_tmp ctx) = 64 \<Longrightarrow> ms_absorbs (md5_reset ctx) []"
  by (simp add: ms_absorbs_def md5_reset_def md5_chunks_short)

lemma drop_whole: "drop (64 * (length bs div 64)) bs = drop (length bs - length bs mod 64) bs"
  by (simp add: minus_mod_eq_mult_div)

text \<open>The effect of filling the buffer, common to data and zeros.\<close>

lemma absorbs_split:
  assumes "ms_absorbs ctx bs"
  obtains head tail where "bs = head @ tail" "64 dvd length head" "length tail = length bs mod 64"
    "take (length tail) (ms_tmp ctx) = tail" "ms_state ctx = md5_chunks md5_init head"
    "length (ms_tmp ctx) = 64" "unat (ms_dataLen ctx AND 63) = length tail"
proof -
  let ?n = "64 * (length bs div 64)"
  have l: "length (drop ?n bs) = length bs mod 64" by (simp add: minus_mult_div_eq_mod)
  show ?thesis
    using assms l that [of "take ?n bs" "drop ?n bs"]
    by (simp add: ms_absorbs_def md5_chunks_take unat_and_63)
qed

lemma absorbsI:
  assumes "bs = head @ tail" "64 dvd length head" "length tail < 64" "take (length tail) (ms_tmp ctx) = tail"
    "ms_state ctx = md5_chunks md5_init head" "length (ms_tmp ctx) = 64" "ms_dataLen ctx = word_of_nat (length bs)"
  shows "ms_absorbs ctx bs"
proof -
  obtain k where k: "length head = 64 * k" using assms(2) by auto
  then have "length bs div 64 = k" "length bs mod 64 = length tail" using assms(1,3) by auto
  then show ?thesis
    using assms k by (simp add: ms_absorbs_def md5_chunks_append md5_chunks_short)
qed

text \<open>What both updates end with: whole blocks straight from the source, the rest to the buffer.\<close>

lemma absorbs_whole:
  assumes "bs = head @ d" "64 dvd length head" "length tmp = 64"
    and "ms_tmp ctx = memcpy tmp 0 (drop (64 * (length d div 64)) d)"
    and "ms_state ctx = md5_update_blocks (md5_chunks md5_init head) d (length d div 64)"
    and "ms_dataLen ctx = word_of_nat (length bs)"
  shows "ms_absorbs ctx bs"
proof (rule absorbsI [where head = "head @ take (64 * (length d div 64)) d" and tail = "drop (64 * (length d div 64)) d"])
  have short: "length (drop (64 * (length d div 64)) d) < 64" by (simp add: minus_mult_div_eq_mod)
  then show "length (drop (64 * (length d div 64)) d) < 64" .
  show "take (length (drop (64 * (length d div 64)) d)) (ms_tmp ctx) = drop (64 * (length d div 64)) d"
    "length (ms_tmp ctx) = 64"
    using short assms(3,4) by (simp_all add: memcpy_def)
  show "ms_state ctx = md5_chunks md5_init (head @ take (64 * (length d div 64)) d)"
    using assms(2,5) by (simp add: md5_chunks_append md5_chunks_take) (simp add: md5_chunks_def)
qed (use assms in simp_all)

lemma absorbs_fill:
  assumes "64 dvd length head" "length tail + length d = 64"
  shows "md5_update_blocks (md5_chunks md5_init head) (tail @ d) 1 = md5_chunks md5_init (head @ tail @ d)"
  using assms by (simp add: md5_chunks_append md5_chunks_block [of "tail @ d"])

lemma md5_update_absorbs:
  assumes "ms_absorbs ctx bs"
  shows "ms_absorbs (md5_update data ctx) (bs @ data)"
proof -
  obtain head tail where h: "bs = head @ tail" "64 dvd length head" "length tail = length bs mod 64"
    "take (length tail) (ms_tmp ctx) = tail" "ms_state ctx = md5_chunks md5_init head"
    "length (ms_tmp ctx) = 64" "unat (ms_dataLen ctx AND 63) = length tail"
    using assms by (rule absorbs_split)
  have lt: "length tail < 64" using h(3) by simp
  have dl: "ms_dataLen ctx + word_of_nat (length data) = word_of_nat (length (bs @ data))"
    using assms by (simp add: ms_absorbs_def)
  consider "tail = []" | "tail \<noteq> []" "length data < 64 - length tail" | "tail \<noteq> []" "64 - length tail \<le> length data"
    by linarith
  then show ?thesis
  proof cases
    case 1
    then show ?thesis
      using h(1,2,4-7) dl by (intro absorbs_whole [of _ head data "ms_tmp ctx"]) (simp_all add: md5_update_def Let_def)
  next
    case 2
    then show ?thesis
      using h(1,2,4-7) dl lt by (intro absorbsI [of _ head "tail @ data"]) (simp_all add: md5_update_def Let_def take_memcpy)
  next
    case 3
    let ?w = "64 - length tail"
    have tmp: "memcpy (ms_tmp ctx) (length tail) (take ?w data) = tail @ take ?w data"
      using 3 h(4,6) lt by (simp add: memcpy_all)
    have st: "md5_update_blocks (ms_state ctx) (tail @ take ?w data) (Suc 0) = md5_chunks md5_init (head @ tail @ take ?w data)"
      using 3 h(2,5) lt absorbs_fill [of head tail "take ?w data"] by simp
    show ?thesis
      using 3 h(1,2,7) lt dl
      by (intro absorbs_whole [of _ "head @ tail @ take ?w data" "drop ?w data" "tail @ take ?w data"])
        (simp_all add: md5_update_def Let_def tmp st del: md5_update_blocks.simps)
  qed
qed

text \<open>The run of zeros is the update with that many zero bytes.\<close>

lemma md5_zero_blocks_update: "md5_update_zero_blocks s (n div 64) = md5_update_blocks s (replicate n 0) (n div 64)"
proof -
  have "replicate n (0::u8) = replicate (64 * (n div 64)) 0 @ replicate (n mod 64) 0"
    by (simp add: replicate_add [symmetric])
  then show ?thesis by (simp only: md5_zero_blocks) (simp add: md5_update_blocks_rest)
qed

lemma md5_update_zero_eq: "md5_update_zero n ctx = md5_update (replicate n 0) ctx"
  by (auto simp: md5_update_zero_def md5_update_def Let_def memset_def md5_zero_blocks_update min_def
      minus_mult_div_eq_mod)

section \<open>The final block\<close>

definition md5_finish :: "md5_state \<Rightarrow> bytes \<Rightarrow> nat \<Rightarrow> md5_state" where
  "md5_finish s tail n = md5_chunks s (tail @ md5_padding n)"

lemma length_md5_padding: "64 dvd n + length (md5_padding n)"
proof -
  have "(n + (9 + (119 - n mod 64) mod 64)) mod 64 = (n + (9 + (119 - n mod 64))) mod 64"
    unfolding add.assoc [symmetric] by (simp only: mod_add_right_eq)
  also have "\<dots> = (n mod 64 + (9 + (119 - n mod 64))) mod 64"
    by (simp only: mod_add_left_eq)
  also have "\<dots> = 0"
  proof -
    have "n mod 64 + (9 + (119 - n mod 64)) = 128" using mod_less_divisor [of 64 n] by linarith
    then show ?thesis by simp
  qed
  finally have "64 dvd n + (9 + (119 - n mod 64) mod 64)" by (rule mod_0_imp_dvd)
  moreover have "length (md5_padding n) = 9 + (119 - n mod 64) mod 64"
    unfolding md5_padding_def list.size(4) length_append length_replicate length_leu by presburger
  ultimately show ?thesis by metis
qed

lemma md5_eq_finish: "md5 bs = md5_bytes (md5_finish (md5_chunks md5_init bs) (drop (64 * (length bs div 64)) bs) (length bs))"
proof -
  let ?n = "64 * (length bs div 64)"
  have "md5_chunks md5_init (take ?n bs @ (drop ?n bs @ md5_padding (length bs))) =
      md5_chunks (md5_chunks md5_init (take ?n bs)) (drop ?n bs @ md5_padding (length bs))"
    by (rule md5_chunks_append) simp
  moreover have "take ?n bs @ (drop ?n bs @ md5_padding (length bs)) = bs @ md5_padding (length bs)" by simp
  ultimately show ?thesis unfolding md5_def md5_finish_def md5_chunks_take by argo
qed

lemma padding_short: "n mod 64 < 56 \<Longrightarrow> md5_padding n = 0x80 # replicate (55 - n mod 64) 0 @ leu64_bytes (push_bit 3 (word_of_nat n))"
proof -
  assume n: "n mod 64 < 56"
  have "119 - n mod 64 = (55 - n mod 64) + 64" using n by linarith
  then have "(119 - n mod 64) mod 64 = (55 - n mod 64) mod 64" by (simp only: mod_add_self2)
  also have "\<dots> = 55 - n mod 64" by (rule mod_less) linarith
  finally have "(119 - n mod 64) mod 64 = 55 - n mod 64" .
  then show ?thesis by (simp add: md5_padding_def)
qed

lemma padding_long: "56 \<le> n mod 64 \<Longrightarrow> md5_padding n = (0x80 # replicate (63 - n mod 64) 0) @ replicate 56 0 @ leu64_bytes (push_bit 3 (word_of_nat n))"
proof -
  assume n: "56 \<le> n mod 64"
  have "n mod 64 < 64" by simp
  have "(119 - n mod 64) mod 64 = 119 - n mod 64" using n by (intro mod_less) linarith
  then have "(119 - n mod 64) mod 64 = (63 - n mod 64) + 56" using \<open>n mod 64 < 64\<close> by linarith
  then show ?thesis unfolding md5_padding_def by (simp only: replicate_add append_assoc append_Cons)
qed

lemma final_length_eq:
  "r \<le> 56 \<Longrightarrow> length block = 64 \<Longrightarrow>
    final_length tot r block = take r block @ replicate (56 - r) 0 @ leu64_bytes (push_bit 3 tot)"
  using take_memcpy [of r block "replicate (56 - r) 0"]
  by (simp add: final_length_def memset_def memcpy_all)

lemma final_loop_LS4:
  "r \<le> 56 \<Longrightarrow> length block = 64 \<Longrightarrow>
    md5_final_loop LS4 r zp tot block s =
      md5_process_block s (take r block @ replicate (56 - r) 0 @ leu64_bytes (push_bit 3 tot))"
  by (subst md5_final_loop.simps) (simp add: final_length_eq)

lemma final_loop_LS2:
  assumes n: "tot = word_of_nat n" "length tail = n mod 64"
  shows "md5_final_loop LS2 r zp tot (tail @ replicate (64 - length tail) 0) s = md5_finish s tail n"
proof -
  let ?block = "tail @ replicate (64 - length tail) 0"
  have lt: "length tail < 64" using n by simp
  have rem: "unat (tot AND 63) = length tail" using n by (simp add: unat_and_63)
  have upd: "?block[length tail := 0x80] = tail @ 0x80 # replicate (63 - length tail) 0"
  proof -
    have "replicate (64 - length tail) (0::u8) = 0 # replicate (63 - length tail) 0"
      using lt by (cases "64 - length tail") auto
    then show ?thesis by simp
  qed
  show ?thesis
  proof (cases "length tail < 56")
    case True
    let ?b = "tail @ 0x80 # replicate (63 - length tail) 0"
    have "md5_final_loop LS2 r zp tot ?block s =
        md5_process_block s (final_length tot (Suc (length tail)) ?b)"
      using True by (subst md5_final_loop.simps) (simp add: final_mark_def rem upd Let_def)
    also have "final_length tot (Suc (length tail)) ?b = tail @ md5_padding n"
      using True n lt by (simp add: final_length_eq padding_short)
    finally show ?thesis
      using True n by (simp add: md5_finish_def md5_chunks_block padding_short)
  next
    case False
    let ?b = "tail @ 0x80 # replicate (63 - length tail) 0"
    let ?e = "replicate 56 0 @ leu64_bytes (push_bit 3 tot)"
    have "md5_final_loop LS2 r zp tot ?block s = md5_final_loop LS4 0 zp tot ?b (md5_process_block s ?b)"
      using False by (subst md5_final_loop.simps) (simp add: final_mark_def rem upd Let_def)
    also have "\<dots> = md5_process_block (md5_process_block s ?b) ?e"
      using lt by (simp add: final_loop_LS4)
    also have "\<dots> = md5_chunks s (?b @ ?e)"
    proof -
      have "length ?b = 64" "length ?e = 64" using lt by simp_all
      then show ?thesis by (simp only: md5_chunks_append md5_chunks_block dvd_refl)
    qed
    also have "?b @ ?e = tail @ md5_padding n"
      using False n by (simp add: padding_long)
    finally show ?thesis by (simp add: md5_finish_def)
  qed
qed

lemma final_loop_LS1:
  assumes "tot = word_of_nat n" "unat zp mod 64 = n mod 64"
  shows "md5_final_loop LS1 r zp tot (replicate 64 0) s =
    md5_finish (md5_chunks s (replicate (unat zp) 0)) (replicate (unat zp mod 64) 0) n"
  using assms(2)
proof (induction "unat zp" arbitrary: zp s rule: less_induct)
  case less
  show ?case
  proof (cases "zp < 64")
    case True
    then have z: "unat zp < 64" by (simp add: word_less_nat_alt)
    have "md5_final_loop LS1 r zp tot (replicate 64 0) s = md5_final_loop LS2 r zp tot (replicate 64 0) s"
      using True by (simp add: md5_final_loop.simps [of LS1] md5_final_loop.simps [of LS2])
    moreover have "replicate 64 (0::u8) = replicate (unat zp) 0 @ replicate (64 - length (replicate (unat zp) (0::u8))) 0"
      using z by (simp add: replicate_add [symmetric])
    ultimately show ?thesis
      using final_loop_LS2 [OF assms(1), of "replicate (unat zp) 0" r zp s] z less.prems
      by (simp add: md5_chunks_short)
  next
    case False
    then have z: "64 \<le> unat zp" by (simp add: word_less_nat_alt not_less)
    have u: "unat (zp - 64) = unat zp - 64" using z by (simp add: unat_sub word_le_nat_alt)
    have "md5_final_loop LS1 r zp tot (replicate 64 0) s =
        md5_final_loop LS1 r (zp - 64) tot (replicate 64 0) (md5_process_block s (replicate 64 0))"
      using False by (subst md5_final_loop.simps) simp
    also have "\<dots> = md5_finish (md5_chunks (md5_process_block s (replicate 64 0)) (replicate (unat (zp - 64)) 0))
        (replicate (unat (zp - 64) mod 64) 0) n"
      using z less.prems u by (intro less.hyps) (simp_all add: le_mod_geq)
    also have "md5_chunks (md5_process_block s (replicate 64 0)) (replicate (unat (zp - 64)) 0)
        = md5_chunks s (replicate 64 0 @ replicate (unat zp - 64) 0)"
      by (simp add: md5_chunks_append md5_chunks_block u)
    also have "replicate 64 (0::u8) @ replicate (unat zp - 64) 0 = replicate (unat zp) 0"
      using z by (simp add: replicate_add [symmetric])
    finally show ?thesis using z u by (simp add: le_mod_geq)
  qed
qed

lemma md5_finish_whole:
  assumes "64 dvd length whole" "length tail = n mod 64"
  shows "md5_finish (md5_chunks s whole) tail n = md5_chunks s (whole @ tail @ md5_padding n)"
  using assms(1) by (simp add: md5_finish_def md5_chunks_append)

lemma md5_final_block_finish:
  assumes tail: "take (n mod 64) data = tail" "length tail = n mod 64"
    and tot: "tot = word_of_nat n" and zp: "unat zp + 64 \<le> 2 ^ 64"
    and head: "64 dvd length head"
  shows "md5_final_block (md5_chunks s head) data tot zp =
    md5_chunks s (head @ tail @ replicate (unat zp) 0 @ md5_padding (n + unat zp))"
proof -
  let ?r = "length tail" and ?n = "n + unat zp"
  have lt: "?r < 64" using tail by simp
  have rem: "unat (tot AND 63) = ?r" using tail tot by (simp add: unat_and_63)
  have block: "take ?r data @ replicate (64 - ?r) 0 = tail @ replicate (64 - ?r) 0" using tail by metis
  have tot': "tot + zp = word_of_nat ?n" using tot by simp
  have sum: "unat (word_of_nat ?r + zp) = ?r + unat zp"
    using lt zp by (simp add: unat_word_ariths unat_of_nat)
  show ?thesis
  proof (cases "?r + unat zp < 64")
    case True
    then have t: "length (tail @ replicate (unat zp) 0) = ?n mod 64"
      by (simp add: tail(2)) (metis True mod_add_left_eq mod_less tail(2))
    have "replicate (64 - ?r) (0::u8) = replicate (unat zp) 0 @ replicate (64 - length (tail @ replicate (unat zp) (0::u8))) 0"
      using True by (simp add: replicate_add [symmetric])
    then have b: "tail @ replicate (64 - ?r) 0 = (tail @ replicate (unat zp) 0) @ replicate (64 - length (tail @ replicate (unat zp) (0::u8))) 0"
      by simp
    have "word_of_nat ?r + zp < 64" using True sum by (simp add: word_less_nat_alt)
    then have "md5_final_block (md5_chunks s head) data tot zp =
        md5_final_loop LS2 ?r zp (tot + zp) ((tail @ replicate (unat zp) 0) @ replicate (64 - length (tail @ replicate (unat zp) (0::u8))) 0) (md5_chunks s head)"
      by (simp only: md5_final_block_def Let_def rem block b if_True)
    also have "\<dots> = md5_finish (md5_chunks s head) (tail @ replicate (unat zp) 0) ?n"
      by (rule final_loop_LS2 [OF tot' t])
    finally show ?thesis using md5_finish_whole [OF head t] by simp
  next
    case False
    let ?zp = "zp - (64 - word_of_nat ?r)" and ?b = "tail @ replicate (64 - ?r) 0"
    have "unat (64 - word_of_nat ?r :: u64) = 64 - ?r"
      using lt by (subst unat_sub) (simp_all add: word_le_nat_alt unat_of_nat)
    then have z: "unat ?zp = unat zp - (64 - ?r)"
      using False by (subst unat_sub) (simp_all add: word_le_nat_alt)
    have "?r + 64 * (n div 64) = n" using tail by simp
    then have "?n = (unat zp - (64 - ?r)) + 64 * Suc (n div 64)" using False lt by simp
    then have m: "unat ?zp mod 64 = ?n mod 64" unfolding z by (simp only: mod_mult_self2)
    have lb: "length ?b = 64" using lt by simp
    then have hb: "64 dvd length (head @ ?b)" using head by (metis dvd_add dvd_refl length_append)
    have "\<not> word_of_nat ?r + zp < 64" using False sum by (simp add: word_less_nat_alt)
    then have "md5_final_block (md5_chunks s head) data tot zp = md5_final_loop LS0 ?r zp (tot + zp) ?b (md5_chunks s head)"
      by (simp only: md5_final_block_def Let_def rem block if_False)
    also have "\<dots> = md5_final_loop LS1 ?r ?zp (tot + zp) (replicate 64 0) (md5_chunks s (head @ ?b))"
      using md5_chunks_block [OF lb] md5_chunks_append [OF head, of s ?b] by (subst md5_final_loop.simps) simp
    also have "\<dots> = md5_finish (md5_chunks (md5_chunks s (head @ ?b)) (replicate (unat ?zp) 0)) (replicate (unat ?zp mod 64) 0) ?n"
      by (rule final_loop_LS1 [OF tot' m])
    also have "md5_chunks (md5_chunks s (head @ ?b)) (replicate (unat ?zp) 0)
        = md5_chunks s ((head @ ?b) @ replicate (64 * (unat ?zp div 64)) 0)"
    proof -
      have "take (64 * (unat ?zp div 64)) (replicate (unat ?zp) 0) = replicate (64 * (unat ?zp div 64)) (0::u8)"
        by (simp only: take_replicate min_absorb1 times_div_less_eq_dividend)
      then show ?thesis
        using md5_chunks_take [of "md5_chunks s (head @ ?b)" "replicate (unat ?zp) 0"] md5_chunks_append [OF hb]
        by (simp only: length_replicate)
    qed
    also have "md5_finish (md5_chunks s ((head @ ?b) @ replicate (64 * (unat ?zp div 64)) 0)) (replicate (unat ?zp mod 64) 0) ?n =
        md5_chunks s (((head @ ?b) @ replicate (64 * (unat ?zp div 64)) 0) @ replicate (unat ?zp mod 64) 0 @ md5_padding ?n)"
    proof (rule md5_finish_whole)
      show "64 dvd length ((head @ ?b) @ replicate (64 * (unat ?zp div 64)) (0::u8))"
        unfolding length_append [of "head @ ?b"] length_replicate by (rule dvd_add [OF hb dvd_triv_left])
      show "length (replicate (unat ?zp mod 64) (0::u8)) = ?n mod 64" by (simp only: length_replicate m)
    qed
    also have "((head @ ?b) @ replicate (64 * (unat ?zp div 64)) 0) @ replicate (unat ?zp mod 64) 0 @ md5_padding ?n
        = head @ tail @ replicate ((64 - ?r) + 64 * (unat ?zp div 64) + unat ?zp mod 64) 0 @ md5_padding ?n"
      by (simp only: replicate_add append_assoc)
    also have "(64 - ?r) + 64 * (unat ?zp div 64) + unat ?zp mod 64 = unat zp"
      using False z by simp
    finally show ?thesis .
  qed
qed

lemma md5_final_block_md5:
  assumes "take (length bs mod 64) data = drop (64 * (length bs div 64)) bs" "unat zp + 64 \<le> 2 ^ 64"
  shows "md5_bytes (md5_final_block (md5_chunks md5_init bs) data (word_of_nat (length bs)) zp)
    = md5 (bs @ replicate (unat zp) 0)"
proof -
  let ?n = "64 * (length bs div 64)"
  have "md5_final_block (md5_chunks md5_init (take ?n bs)) data (word_of_nat (length bs)) zp =
      md5_chunks md5_init (take ?n bs @ drop ?n bs @ replicate (unat zp) 0 @ md5_padding (length bs + unat zp))"
    by (rule md5_final_block_finish) (use assms in \<open>simp_all add: minus_mult_div_eq_mod\<close>)
  also have "take ?n bs @ drop ?n bs @ replicate (unat zp) 0 @ md5_padding (length bs + unat zp)
      = (bs @ replicate (unat zp) 0) @ md5_padding (length (bs @ replicate (unat zp) (0::u8)))"
    by (simp only: append_assoc [symmetric] append_take_drop_id length_append length_replicate)
  finally show ?thesis by (simp only: md5_def md5_chunks_take)
qed

lemma md5_end_absorbs: "ms_absorbs ctx bs \<Longrightarrow> md5_end ctx = md5 bs"
  using md5_final_block_md5 [of bs "ms_tmp ctx" 0] by (simp add: ms_absorbs_def md5_end_def)

section \<open>Correctness of the stream\<close>

text \<open>A use of the object: updates with data or with a run of zeros, in any order and any size.\<close>

datatype md5_op = DataOp bytes | ZeroOp nat

fun md5_op_bytes :: "md5_op \<Rightarrow> bytes" where
  "md5_op_bytes (DataOp bs) = bs"
| "md5_op_bytes (ZeroOp n) = replicate n 0"

fun md5_apply :: "md5_op \<Rightarrow> md5_single \<Rightarrow> md5_single" where
  "md5_apply (DataOp bs) ctx = md5_update bs ctx"
| "md5_apply (ZeroOp n) ctx = md5_update_zero n ctx"

lemma md5_apply_absorbs: "ms_absorbs ctx bs \<Longrightarrow> ms_absorbs (fold md5_apply ops ctx) (bs @ concat (map md5_op_bytes ops))"
proof (induction ops arbitrary: ctx bs)
  case (Cons op ops)
  then have "ms_absorbs (md5_apply op ctx) (bs @ md5_op_bytes op)"
    by (cases op) (simp_all add: md5_update_absorbs md5_update_zero_eq)
  from Cons.IH [OF this] show ?case by simp
qed simp

text \<open>However a message is cut into updates, the object ends with the one-shot MD5 of the whole message.\<close>

lemma md5_single_streaming_rule:
  assumes "length (ms_tmp ctx) = 64"
  shows "md5_end (fold md5_apply ops (md5_reset ctx)) = md5 (concat (map md5_op_bytes ops))"
  using md5_end_absorbs [OF md5_apply_absorbs [OF md5_reset_absorbs [OF assms]]] by simp

text \<open>An object with some contents, for examples.\<close>

definition ex_md5_single :: md5_single where
  "ex_md5_single = \<lparr>ms_tmp = replicate 64 7, ms_state = (1, 2, 3, 4), ms_dataLen = 5\<rparr>"

end
