(* ===== verification/RFC1321.thy ===== *)
theory RFC1321
  imports Complex_Main Memory
begin

unbundle bit_operations_syntax

text \<open>
  The MD5 message digest as RFC 1321 describes it, section by section, independent of the program: the
  auxiliary functions F, G, H and I, the sine table, the order of the words and the shifts of the four
  rounds, the padding and the byte orders. The constants are given by their formula,
  the integer part of 4294967296 times \<^verbatim>\<open>abs(sin(i))\<close>; their values are computed here by rotations by one
  radian in fixed point arithmetic with proved error bounds.
\<close>

section \<open>The digest\<close>

text \<open>Step 4: the auxiliary functions.\<close>

definition rfc_F :: "u32 \<Rightarrow> u32 \<Rightarrow> u32 \<Rightarrow> u32" where
  "rfc_F X Y Z = (X AND Y) OR (NOT X AND Z)"

definition rfc_G :: "u32 \<Rightarrow> u32 \<Rightarrow> u32 \<Rightarrow> u32" where
  "rfc_G X Y Z = (X AND Z) OR (Y AND NOT Z)"

definition rfc_H :: "u32 \<Rightarrow> u32 \<Rightarrow> u32 \<Rightarrow> u32" where
  "rfc_H X Y Z = X XOR Y XOR Z"

definition rfc_I :: "u32 \<Rightarrow> u32 \<Rightarrow> u32 \<Rightarrow> u32" where
  "rfc_I X Y Z = Y XOR (X OR NOT Z)"

text \<open>The table T of 64 elements, from 1 on.\<close>

definition rfc_T :: "nat \<Rightarrow> u32" where
  "rfc_T i = word_of_int \<lfloor>4294967296 * \<bar>sin (real i)\<bar>\<rfloor>"

text \<open>
  Operation \<open>j\<close> of the 64, from 0 on: \<^verbatim>\<open>a = b + ((a + f(b,c,d) + X[k] + T[j+1]) <<< s)\<close>. The names of the
  four registers move on by one from each operation to the next.
\<close>

definition rfc_fun :: "nat \<Rightarrow> u32 \<Rightarrow> u32 \<Rightarrow> u32 \<Rightarrow> u32" where
  "rfc_fun j = (if j < 16 then rfc_F else if j < 32 then rfc_G else if j < 48 then rfc_H else rfc_I)"

definition rfc_k :: "nat \<Rightarrow> nat" where
  "rfc_k j = (if j < 16 then j else if j < 32 then 5 * j + 1 else if j < 48 then 3 * j + 5 else 7 * j) mod 16"

definition rfc_s :: "nat \<Rightarrow> nat" where
  "rfc_s j = [[7, 12, 17, 22], [5, 9, 14, 20], [4, 11, 16, 23], [6, 10, 15, 21]] ! (j div 16) ! (j mod 4)"

type_synonym rfc_registers = "u32 \<times> u32 \<times> u32 \<times> u32"

definition rfc_operation :: "(nat \<Rightarrow> u32) \<Rightarrow> nat \<Rightarrow> rfc_registers \<Rightarrow> rfc_registers" where
  "rfc_operation X j = (\<lambda>(a, b, c, d).
     (d, b + word_rotl (rfc_s j) (a + rfc_fun j b c d + X (rfc_k j) + rfc_T (j + 1)), b, c))"

text \<open>A word is stored with its low-order byte first.\<close>

definition rfc_word :: "bytes \<Rightarrow> nat \<Rightarrow> u32" where
  "rfc_word M k = (\<Sum>i<4. ucast (M ! (4 * k + i)) * 2 ^ (8 * i))"

definition rfc_block :: "rfc_registers \<Rightarrow> bytes \<Rightarrow> rfc_registers" where
  "rfc_block = (\<lambda>(A, B, C, D) M.
     (case fold (rfc_operation (rfc_word M)) [0..<64] (A, B, C, D) of
        (a, b, c, d) \<Rightarrow> (A + a, B + b, C + c, D + d)))"

text \<open>Step 3: the buffer, given by its bytes with the low-order ones first.\<close>

definition rfc_buffer :: rfc_registers where
  "rfc_buffer =
     (rfc_word [0x01, 0x23, 0x45, 0x67] 0, rfc_word [0x89, 0xab, 0xcd, 0xef] 0,
      rfc_word [0xfe, 0xdc, 0xba, 0x98] 0, rfc_word [0x76, 0x54, 0x32, 0x10] 0)"

text \<open>
  Steps 1 and 2: a one bit and zeros, to 56 bytes more than a multiple of 64, then the length in bits in
  eight bytes, the low-order ones first.
\<close>

definition rfc_digits :: "nat \<Rightarrow> nat \<Rightarrow> bytes" where
  "rfc_digits n v = map (\<lambda>i. word_of_nat (v div 256 ^ i)) [0..<n]"

definition rfc_pad :: "bytes \<Rightarrow> bytes" where
  "rfc_pad M = M @ [0x80] @ replicate (nat ((55 - int (length M)) mod 64)) 0 @ rfc_digits 8 (8 * length M)"

fun rfc_blocks :: "bytes \<Rightarrow> bytes list" where
  "rfc_blocks M = (if M = [] then [] else take 64 M # rfc_blocks (drop 64 M))"

text \<open>Step 5: the output.\<close>

definition rfc_md5 :: "bytes \<Rightarrow> bytes" where
  "rfc_md5 M =
     (case foldl rfc_block rfc_buffer (rfc_blocks (rfc_pad M)) of
        (A, B, C, D) \<Rightarrow> concat (map (\<lambda>w. rfc_digits 4 (unat w)) [A, B, C, D]))"

declare rfc_blocks.simps [simp del]

section \<open>The values of the sine table\<close>

text \<open>
  Rotations by one radian in fixed point, scaled by \<open>2 ^ 56\<close>: the pair stays within \<open>4 n\<close> of the scaled
  cosine and sine of \<open>n\<close>.
\<close>

definition sc_unit :: int where "sc_unit = 72057594037927936"
definition sc_cos1 :: int where "sc_cos1 = 38932884214002780"
definition sc_sin1 :: int where "sc_sin1 = 60634374617982832"

fun sc_list :: "nat \<Rightarrow> int \<times> int \<Rightarrow> (int \<times> int) list" where
  "sc_list 0 p = []"
| "sc_list (Suc n) (C, S) =
     (let p = ((C * sc_cos1 - S * sc_sin1) div sc_unit, (S * sc_cos1 + C * sc_sin1) div sc_unit)
      in p # sc_list n p)"

abbreviation sc_ulp :: real where "sc_ulp \<equiv> 1 / of_int sc_unit"

definition sc_complex :: "int \<times> int \<Rightarrow> complex" where
  "sc_complex p = Complex (of_int (fst p) * sc_ulp) (of_int (snd p) * sc_ulp)"

lemma sc_unit_pos: "0 < sc_unit" "0 < sc_ulp"
  by (simp_all add: sc_unit_def)

lemma close_trans: "\<bar>x - y\<bar> \<le> a \<Longrightarrow> y - z \<le> b \<Longrightarrow> z - y \<le> b \<Longrightarrow> a + b \<le> d \<Longrightarrow> \<bar>x - z\<bar> \<le> d" for x :: real
  by linarith

lemma sin_one: "\<bar>sin 1 - of_int sc_sin1 * sc_ulp\<bar> \<le> sc_ulp"
proof (rule close_trans)
  show "\<bar>sin 1 - (\<Sum>m<22. sin_coeff m)\<bar> \<le> inverse (fact 22)" using Maclaurin_sin_bound [of 1 22] by simp
  show "(\<Sum>m<22. sin_coeff m) - of_int sc_sin1 * sc_ulp \<le> 3 / 2 ^ 58"
    "of_int sc_sin1 * sc_ulp - (\<Sum>m<22. sin_coeff m) \<le> 3 / 2 ^ 58"
    by (simp_all add: sin_coeff_def lessThan_nat_numeral lessThan_Suc fact_numeral sc_sin1_def sc_unit_def)
  show "inverse (fact 22) + 3 / 2 ^ 58 \<le> sc_ulp" by (simp add: fact_numeral sc_unit_def)
qed

lemma cos_one: "\<bar>cos 1 - of_int sc_cos1 * sc_ulp\<bar> \<le> sc_ulp"
proof (rule close_trans)
  obtain t where "cos 1 = (\<Sum>m<22. cos_coeff m * 1 ^ m) + (cos (t + 1 / 2 * real 22 * pi) / fact 22) * 1 ^ 22"
    using Maclaurin_cos_expansion [of 1 22] by blast
  then have "cos 1 - (\<Sum>m<22. cos_coeff m) = cos (t + 1 / 2 * real 22 * pi) * inverse (fact 22)"
    by (simp only: divide_inverse power_one mult_1_right add_diff_cancel_left')
  moreover have "\<bar>cos (t + 1 / 2 * real 22 * pi) * inverse (fact 22)\<bar> \<le> 1 * inverse (fact 22)"
    unfolding abs_mult by (intro mult_mono abs_cos_le_one) simp_all
  ultimately show "\<bar>cos 1 - (\<Sum>m<22. cos_coeff m)\<bar> \<le> inverse (fact 22)" by simp
  show "(\<Sum>m<22. cos_coeff m) - of_int sc_cos1 * sc_ulp \<le> 3 / 2 ^ 58"
    "of_int sc_cos1 * sc_ulp - (\<Sum>m<22. cos_coeff m) \<le> 3 / 2 ^ 58"
    by (simp_all add: cos_coeff_def lessThan_nat_numeral lessThan_Suc fact_numeral sc_cos1_def sc_unit_def)
  show "inverse (fact 22) + 3 / 2 ^ 58 \<le> sc_ulp" by (simp add: fact_numeral sc_unit_def)
qed

lemma cmod_le_parts: "\<bar>Re z\<bar> \<le> a \<Longrightarrow> \<bar>Im z\<bar> \<le> b \<Longrightarrow> cmod z \<le> a + b"
  using cmod_le [of z] by linarith

lemma sc_one: "cmod (cis 1 - sc_complex (sc_cos1, sc_sin1)) \<le> 2 * sc_ulp" "cmod (sc_complex (sc_cos1, sc_sin1)) \<le> 1"
proof -
  have "cmod (cis 1 - sc_complex (sc_cos1, sc_sin1)) \<le> sc_ulp + sc_ulp"
    using cos_one sin_one by (intro cmod_le_parts) (simp_all add: sc_complex_def)
  then show "cmod (cis 1 - sc_complex (sc_cos1, sc_sin1)) \<le> 2 * sc_ulp" by simp
  show "cmod (sc_complex (sc_cos1, sc_sin1)) \<le> 1"
    by (simp add: sc_complex_def cmod_def power2_eq_square sc_cos1_def sc_sin1_def sc_unit_def)
qed

lemma div_scaled: "\<bar>of_int x * (sc_ulp * sc_ulp) - of_int (x div sc_unit) * sc_ulp\<bar> \<le> sc_ulp"
proof -
  have "real_of_int x = of_int (x div sc_unit) * of_int sc_unit + of_int (x mod sc_unit)"
    by (metis div_mult_mod_eq of_int_add of_int_mult)
  then have "of_int x * (sc_ulp * sc_ulp) - of_int (x div sc_unit) * sc_ulp = of_int (x mod sc_unit) * sc_ulp * sc_ulp"
    using sc_unit_pos by (simp add: field_simps)
  moreover have "0 \<le> x mod sc_unit" "x mod sc_unit \<le> sc_unit" using sc_unit_pos(1) by (simp_all add: less_imp_le)
  then have "0 \<le> real_of_int (x mod sc_unit)" "real_of_int (x mod sc_unit) \<le> of_int sc_unit" by linarith+
  then have "0 \<le> real_of_int (x mod sc_unit) * sc_ulp" "real_of_int (x mod sc_unit) * sc_ulp \<le> 1"
    using sc_unit_pos by (simp_all add: divide_le_eq)
  then have "0 \<le> real_of_int (x mod sc_unit) * sc_ulp * sc_ulp" "real_of_int (x mod sc_unit) * sc_ulp * sc_ulp \<le> 1 * sc_ulp"
    using sc_unit_pos(2) by (intro mult_nonneg_nonneg mult_right_mono; simp)+
  ultimately show ?thesis by (simp only: abs_of_nonneg mult_1)
qed

lemma sc_mult: "sc_complex (a, b) * sc_complex (c, d) =
    Complex (of_int (a * c - b * d) * (sc_ulp * sc_ulp)) (of_int (b * c + a * d) * (sc_ulp * sc_ulp))"
  by (simp add: sc_complex_def complex_eq_iff diff_divide_distrib add_divide_distrib)

lemma sc_step:
  assumes "cmod (cis x - sc_complex (C, S)) \<le> e"
  shows "cmod (cis (x + 1) - sc_complex ((C * sc_cos1 - S * sc_sin1) div sc_unit, (S * sc_cos1 + C * sc_sin1) div sc_unit)) \<le> e + 4 * sc_ulp"
proof -
  define w where "w = sc_complex (sc_cos1, sc_sin1)"
  define z where "z = sc_complex (C, S)"
  define r where "r = sc_complex ((C * sc_cos1 - S * sc_sin1) div sc_unit, (S * sc_cos1 + C * sc_sin1) div sc_unit)"
  have "cis (x + 1) - r = cis x * (cis 1 - w) + ((cis x - z) * w + (z * w - r))"
    by (simp add: cis_mult [symmetric] algebra_simps)
  then have "cmod (cis (x + 1) - r) \<le> cmod (cis x * (cis 1 - w)) + (cmod ((cis x - z) * w) + cmod (z * w - r))"
    by (metis add_left_mono norm_triangle_ineq order.trans)
  moreover have "cmod (cis x * (cis 1 - w)) \<le> 2 * sc_ulp" using sc_one(1) unfolding norm_mult w_def [symmetric] by simp
  moreover have "0 \<le> e" using assms norm_ge_zero order.trans by blast
  then have "cmod ((cis x - z) * w) \<le> e * 1"
    unfolding norm_mult using assms sc_one(2) by (intro mult_mono) (simp_all add: w_def z_def)
  moreover have "cmod (z * w - r) \<le> sc_ulp + sc_ulp"
  proof (rule cmod_le_parts)
    show "\<bar>Re (z * w - r)\<bar> \<le> sc_ulp" "\<bar>Im (z * w - r)\<bar> \<le> sc_ulp"
      unfolding z_def w_def r_def sc_mult unfolding sc_complex_def fst_conv snd_conv minus_complex.sel complex.sel
      by (rule div_scaled)+
  qed
  ultimately show ?thesis unfolding r_def by linarith
qed

lemma sc_list_close:
  assumes "cmod (cis x - sc_complex p) \<le> e" "i < n"
  shows "cmod (cis (x + real (i + 1)) - sc_complex (sc_list n p ! i)) \<le> e + real (i + 1) * (4 * sc_ulp)"
  using assms
proof (induction n p arbitrary: i x e rule: sc_list.induct)
  case (2 n C S)
  let ?q = "((C * sc_cos1 - S * sc_sin1) div sc_unit, (S * sc_cos1 + C * sc_sin1) div sc_unit)"
  have q: "cmod (cis (x + 1) - sc_complex ?q) \<le> e + 4 * sc_ulp" by (rule sc_step [OF 2(2)])
  show ?case
  proof (cases i)
    case 0
    then show ?thesis using q by (simp add: Let_def)
  next
    case (Suc j)
    have "cmod (cis (x + 1 + real (j + 1)) - sc_complex (sc_list n ?q ! j)) \<le> e + 4 * sc_ulp + real (j + 1) * (4 * sc_ulp)"
      using 2(3) Suc by (intro 2(1) [OF refl q]) simp
    moreover have "x + 1 + real (j + 1) = x + real (i + 1)" "e + 4 * sc_ulp + real (j + 1) * (4 * sc_ulp) = e + real (i + 1) * (4 * sc_ulp)"
      by (simp_all add: Suc add_divide_distrib distrib_right)
    ultimately show ?thesis by (simp only: Suc sc_list.simps Let_def nth_Cons_Suc)
  qed
qed simp

text \<open>A scaled sine far enough from the next integers gives the integer part.\<close>

definition sc_floor :: "int \<times> int \<Rightarrow> int \<Rightarrow> bool" where
  "sc_floor p t \<longleftrightarrow> t * 16777216 + 256 \<le> \<bar>snd p\<bar> \<and> \<bar>snd p\<bar> + 256 < (t + 1) * 16777216"

lemma sc_floor:
  assumes "cmod (cis x - sc_complex p) \<le> 256 * sc_ulp" "sc_floor p t"
  shows "\<lfloor>4294967296 * \<bar>sin x\<bar>\<rfloor> = t"
proof (rule floor_unique)
  define s where "s = real_of_int (snd p)"
  have "\<bar>sin x - s * sc_ulp\<bar> \<le> 256 * sc_ulp"
    using assms(1) abs_Im_le_cmod [of "cis x - sc_complex p"] by (simp add: sc_complex_def s_def)
  then have b: "\<bar>s\<bar> - 256 \<le> \<bar>sin x\<bar> * 72057594037927936" "\<bar>sin x\<bar> * 72057594037927936 \<le> \<bar>s\<bar> + 256"
    unfolding sc_unit_def by linarith+
  have "real_of_int (t * 16777216 + 256) \<le> real_of_int \<bar>snd p\<bar>" "real_of_int (\<bar>snd p\<bar> + 256) < real_of_int ((t + 1) * 16777216)"
    using assms(2) unfolding sc_floor_def of_int_le_iff of_int_less_iff by blast+
  then have "real_of_int t * 16777216 + 256 \<le> \<bar>s\<bar>" "\<bar>s\<bar> + 256 < real_of_int t * 16777216 + 16777216"
    by (simp_all add: s_def distrib_right)
  then show "real_of_int t \<le> 4294967296 * \<bar>sin x\<bar>" "4294967296 * \<bar>sin x\<bar> < real_of_int t + 1"
    using b by linarith+
qed

lemma length_sc_list: "length (sc_list n p) = n"
  by (induction n p rule: sc_list.induct) (simp_all add: Let_def)

lemma rfc_T_eq:
  assumes "list_all2 sc_floor (sc_list 64 (sc_unit, 0)) ts" "j < 64"
  shows "rfc_T (j + 1) = word_of_int (ts ! j)"
proof -
  have "cis 0 - sc_complex (sc_unit, 0) = 0" using sc_unit_pos by (simp add: sc_complex_def complex_eq_iff)
  then have "cmod (cis 0 - sc_complex (sc_unit, 0)) \<le> 0" by simp
  from sc_list_close [OF this assms(2)]
  have "cmod (cis (real (j + 1)) - sc_complex (sc_list 64 (sc_unit, 0) ! j)) \<le> real (j + 1) * (4 * sc_ulp)" by simp
  also have "\<dots> \<le> 64 * (4 * sc_ulp)" using assms(2) sc_unit_pos by (intro mult_right_mono) simp_all
  finally have "cmod (cis (real (j + 1)) - sc_complex (sc_list 64 (sc_unit, 0) ! j)) \<le> 256 * sc_ulp" by simp
  moreover have "sc_floor (sc_list 64 (sc_unit, 0) ! j) (ts ! j)"
    using assms by (simp add: list_all2_conv_all_nth length_sc_list)
  ultimately show ?thesis unfolding rfc_T_def by (simp only: sc_floor)
qed

end
