(* ===== verification/MD5_RFC.thy ===== *)
theory MD5_RFC
  imports MD5_Correct RFC1321
begin

unbundle bit_operations_syntax

text \<open>
  The program's MD5 is the one of RFC 1321: the rounds of the block function are the 64 operations of the
  RFC with its functions, word order, shifts and sine table, and the padding and the byte orders agree. So
  every \<open>md5\<close> in the properties of the other theories is the RFC's digest.
\<close>

section \<open>The operations\<close>

lemma md5_addf_rfc:
  "md5_addf FunF a b c d = a + rfc_F b c d" "md5_addf FunG a b c d = a + rfc_G b c d"
  "md5_addf FunH a b c d = a + rfc_H b c d" "md5_addf FunI a b c d = a + rfc_I b c d"
proof -
  have "((c XOR d) AND b) XOR d = (b AND c) OR (NOT b AND d)" by (rule bit_word_eqI) (auto simp: bit_simps)
  then show "md5_addf FunF a b c d = a + rfc_F b c d" by (simp add: md5_addf_def rfc_F_def)
  have "(NOT d AND c) AND (d AND b) = 0" by (rule bit_word_eqI) (auto simp: bit_simps)
  then have "(NOT d AND c) + (d AND b) = (NOT d AND c) OR (d AND b)" by (rule disjunctive_add_eq_or)
  then have "a + ((NOT d AND c) + (d AND b)) = a + rfc_G b c d" by (simp add: rfc_G_def ac_simps)
  then show "md5_addf FunG a b c d = a + rfc_G b c d" by (simp add: md5_addf_def ac_simps)
  show "md5_addf FunH a b c d = a + rfc_H b c d" "md5_addf FunI a b c d = a + rfc_I b c d"
    by (simp_all add: md5_addf_def rfc_H_def rfc_I_def ac_simps)
qed

lemma rotate32_rotl: "0 < n \<Longrightarrow> n < 32 \<Longrightarrow> rotate32 a n = word_rotl n a"
proof (rule bit_word_eqI)
  fix i assume n: "0 < n" "n < 32" and i: "i < LENGTH(32)"
  have "a AND mask 32 = take_bit 32 a" by (rule take_bit_eq_mask [symmetric])
  then have m: "a AND 0xffffffff = a" using take_bit_length_eq [of a] by (simp add: mask_eq_exp_minus_1)
  show "bit (rotate32 a n) i = bit (word_rotl n a) i"
    using n i
    by (cases "n \<le> i") (simp_all add: rotate32_def m bit_simps bit_word_rotl_iff mod_if, auto simp: add.commute [of i] dest: bit_imp_le_length)
qed

text \<open>The operations of the RFC written like the program's table.\<close>

definition rfc_round :: "nat \<Rightarrow> md5_fun \<times> nat \<times> nat \<times> u32" where
  "rfc_round j =
     (if j < 16 then FunF else if j < 32 then FunG else if j < 48 then FunH else FunI, rfc_k j, rfc_s j, rfc_T (j + 1))"

lemma md5_rx_rfc:
  assumes "j < 64"
  shows "md5_rx data (rfc_round j) = rfc_operation (\<lambda>k. load32 data (k * 4)) j"
proof
  fix x :: md5_state
  have "\<forall>j\<in>set [0..<64]. 0 < rfc_s j \<and> rfc_s j < 32" by code_simp
  then have "0 < rfc_s j" "rfc_s j < 32" using assms by auto
  then show "md5_rx data (rfc_round j) x = rfc_operation (\<lambda>k. load32 data (k * 4)) j x"
    by (cases x) (simp add: md5_rx_def rfc_round_def rfc_operation_def rfc_fun_def md5_addf_rfc rotate32_rotl ac_simps)
qed

lemma rfc_sines: "list_all2 sc_floor (sc_list 64 (sc_unit, 0)) (map (\<lambda>(f, i, n, k). uint k) md5_rounds)"
  by code_simp

lemma md5_rounds_shape:
  "map (\<lambda>(f, i, n, k). (f, i, n)) md5_rounds = map (\<lambda>j. case rfc_round j of (f, i, n, k) \<Rightarrow> (f, i, n)) [0..<64]"
  by (simp add: md5_rounds_def rfc_round_def rfc_k_def rfc_s_def upt_conv_Cons)

lemma md5_rounds_rfc: "md5_rounds = map rfc_round [0..<64]"
proof (rule nth_equalityI)
  have l: "length md5_rounds = 64" by (simp add: md5_rounds_def)
  then show "length md5_rounds = length (map rfc_round [0..<64])" by simp
  fix j assume "j < length md5_rounds"
  then have j: "j < 64" using l by simp
  obtain f i n k where r: "md5_rounds ! j = (f, i, n, k)" by (cases "md5_rounds ! j") auto
  have "rfc_T (j + 1) = word_of_int (map (\<lambda>(f, i, n, k). uint k) md5_rounds ! j)" by (rule rfc_T_eq [OF rfc_sines j])
  also have "\<dots> = k" using j l r by simp
  finally have t: "rfc_T (j + 1) = k" .
  have "map (\<lambda>(f, i, n, k). (f, i, n)) md5_rounds ! j = map (\<lambda>j. case rfc_round j of (f, i, n, k) \<Rightarrow> (f, i, n)) [0..<64] ! j"
    by (simp only: md5_rounds_shape)
  then have "(f, i, n) = (case rfc_round j of (f, i, n, k) \<Rightarrow> (f, i, n))" using j l r by simp
  then show "md5_rounds ! j = map rfc_round [0..<64] ! j" using r t j by (simp add: rfc_round_def)
qed

section \<open>The blocks\<close>

lemma bytes_add_or:
  "push_bit 0 (ucast a) OR push_bit 8 (ucast b) OR push_bit 16 (ucast c) OR push_bit 24 (ucast d) =
    (push_bit 0 (ucast a) + push_bit 8 (ucast b) + push_bit 16 (ucast c) + push_bit 24 (ucast d) :: u32)" for a b c d :: u8
proof -
  have 1: "push_bit 0 (ucast a) + push_bit 8 (ucast b) = (push_bit 0 (ucast a) OR push_bit 8 (ucast b) :: u32)"
    by (rule disjunctive_add_eq_or) (rule bit_word_eqI, auto simp: bit_simps dest: bit_imp_le_length)
  have 2: "(push_bit 0 (ucast a) OR push_bit 8 (ucast b)) + push_bit 16 (ucast c) = (push_bit 0 (ucast a) OR push_bit 8 (ucast b) OR push_bit 16 (ucast c) :: u32)"
    unfolding or.assoc [symmetric]
    by (rule disjunctive_add_eq_or) (rule bit_word_eqI, auto simp: bit_simps dest: bit_imp_le_length)
  have 3: "(push_bit 0 (ucast a) OR push_bit 8 (ucast b) OR push_bit 16 (ucast c)) + push_bit 24 (ucast d) =
      (push_bit 0 (ucast a) OR push_bit 8 (ucast b) OR push_bit 16 (ucast c) OR push_bit 24 (ucast d) :: u32)"
    unfolding or.assoc [symmetric]
    by (rule disjunctive_add_eq_or) (rule bit_word_eqI, auto simp: bit_simps dest: bit_imp_le_length)
  show ?thesis by (simp only: 1 2 3)
qed

lemma rfc_word_load32: "rfc_word M k = load32 M (k * 4)"
proof -
  have "rfc_word M k = ucast (M ! (4 * k)) + ucast (M ! (4 * k + 1)) * 2 ^ 8 + ucast (M ! (4 * k + 2)) * 2 ^ 16 + ucast (M ! (4 * k + 3)) * 2 ^ 24"
    by (simp add: rfc_word_def numeral_eq_Suc)
  also have "\<dots> = push_bit 0 (ucast (M ! (4 * k))) + push_bit 8 (ucast (M ! (4 * k + 1))) + push_bit 16 (ucast (M ! (4 * k + 2))) + push_bit 24 (ucast (M ! (4 * k + 3)))"
    by (simp only: push_bit_eq_mult power_0 mult_1_right)
  also have "\<dots> = load32 M (k * 4)"
    unfolding load32_def mult.commute [of k] by (rule bytes_add_or [symmetric])
  finally show ?thesis .
qed

lemma md5_process_block_rfc: "md5_process_block s M = rfc_block s M"
proof -
  have "fold (md5_rx M) md5_rounds s' = fold (rfc_operation (rfc_word M)) [0..<64] s'" for s'
  proof -
    have "fold (md5_rx M) md5_rounds s' = fold (\<lambda>j. md5_rx M (rfc_round j)) [0..<64] s'"
      by (simp only: md5_rounds_rfc fold_map comp_def)
    also have "\<dots> = fold (rfc_operation (rfc_word M)) [0..<64] s'"
      by (intro fold_cong refl ext) (simp add: md5_rx_rfc rfc_word_load32 [abs_def])
    finally show ?thesis .
  qed
  then show ?thesis by (simp add: md5_process_block_def rfc_block_def Let_def split: prod.split)
qed

lemma md5_init_rfc: "md5_init = rfc_buffer"
  by code_simp

lemma md5_chunks_rfc: "64 dvd length bs \<Longrightarrow> md5_chunks s bs = foldl rfc_block s (rfc_blocks bs)"
proof (induction bs arbitrary: s rule: rfc_blocks.induct)
  case (1 bs)
  show ?case
  proof (cases "bs = []")
    case False
    then have l: "64 \<le> length bs" using 1(2) by (intro dvd_imp_le) simp_all
    then have "64 dvd length (drop 64 bs)" using 1(2) by (simp add: dvd_diff_nat)
    moreover have "md5_chunks s bs = md5_chunks (md5_process_block s (take 64 bs)) (drop 64 bs)"
      using md5_chunks_append [of "take 64 bs" s "drop 64 bs"] md5_chunks_block [of "take 64 bs" s] l by (simp add: min_def)
    ultimately show ?thesis using False 1(1) by (simp add: md5_process_block_rfc rfc_blocks.simps [of bs])
  qed (simp add: md5_chunks_short rfc_blocks.simps)
qed

section \<open>Padding and byte orders\<close>

lemma rfc_digit: "8 * i + 8 \<le> LENGTH('a) \<Longrightarrow> word_of_nat (v div 256 ^ i) = (ucast (drop_bit (8 * i) (word_of_nat v :: 'a::len word)) :: u8)"
proof -
  assume l: "8 * i + 8 \<le> LENGTH('a)"
  have "(256::nat) ^ i = 2 ^ (8 * i)" by (simp add: power_mult)
  then have "v div 256 ^ i = drop_bit (8 * i) v" by (simp add: drop_bit_eq_div)
  then show ?thesis using l by (auto simp: bit_simps intro!: bit_word_eqI)
qed

lemma rfc_digits_leu32: "rfc_digits 4 (unat w) = leu32_bytes w"
proof -
  have "word_of_nat (unat w div 256 ^ i) = (ucast (drop_bit (8 * i) w) :: u8)" if "i < 4" for i
    using that rfc_digit [of i "unat w", where 'a = 32] by simp
  then have "rfc_digits 4 (unat w) = map (\<lambda>i. ucast (drop_bit (8 * i) w)) [0..<4]" by (simp add: rfc_digits_def)
  then show ?thesis by (simp add: leu32_bytes_eq upt_conv_Cons)
qed

lemma rfc_digits_leu64: "rfc_digits 8 n = leu64_bytes (word_of_nat n)"
proof -
  have "word_of_nat (n div 256 ^ i) = (ucast (drop_bit (8 * i) (word_of_nat n :: u64)) :: u8)" if "i < 8" for i
    using that by (intro rfc_digit) simp
  then have "rfc_digits 8 n = map (\<lambda>i. ucast (drop_bit (8 * i) (word_of_nat n :: u64))) [0..<8]" by (simp add: rfc_digits_def)
  then show ?thesis by (simp add: leu64_bytes_eq upt_conv_Cons)
qed

lemma padding_zeros: "nat ((55 - int n) mod 64) = (119 - n mod 64) mod 64"
proof -
  have "(55 - int n) mod 64 = (55 - int n + 64) mod 64" by (simp only: mod_add_self2)
  also have "\<dots> = (119 - int n) mod 64" by (simp add: algebra_simps)
  also have "\<dots> = (119 - int n mod 64) mod 64" by (simp only: mod_diff_right_eq)
  also have "119 - int n mod 64 = int (119 - n mod 64)"
    using mod_less_divisor [of 64 n] by (simp add: of_nat_diff zmod_int)
  finally have "(55 - int n) mod 64 = int ((119 - n mod 64) mod 64)" by (simp only: zmod_int of_nat_numeral)
  then show ?thesis by (simp only: nat_int)
qed

lemma md5_padding_rfc: "bs @ md5_padding (length bs) = rfc_pad bs"
proof -
  have "leu64_bytes (push_bit 3 (word_of_nat n)) = rfc_digits 8 (8 * n)" for n
    by (simp add: rfc_digits_leu64 push_bit_eq_mult mult.commute)
  then show ?thesis by (simp add: md5_padding_def rfc_pad_def padding_zeros)
qed

lemma md5_rfc: "md5 bs = rfc_md5 bs"
proof -
  have "64 dvd length (bs @ md5_padding (length bs))" by (simp add: length_md5_padding)
  from md5_chunks_rfc [OF this, of md5_init]
  show ?thesis
    by (simp add: md5_def rfc_md5_def md5_init_rfc md5_padding_rfc md5_bytes_def rfc_digits_leu32 split: prod.split)
qed

section \<open>The stream\<close>

text \<open>Two lines of the test suite of the RFC (appendix A.5), of no bytes and of \<^verbatim>\<open>abc\<close>.\<close>

lemma rfc_test_empty:
  "rfc_md5 [] = [0xd4, 0x1d, 0x8c, 0xd9, 0x8f, 0x00, 0xb2, 0x04, 0xe9, 0x80, 0x09, 0x98, 0xec, 0xf8, 0x42, 0x7e]"
  unfolding md5_rfc [symmetric] by code_simp

lemma rfc_test_abc:
  "rfc_md5 [0x61, 0x62, 0x63] = [0x90, 0x01, 0x50, 0x98, 0x3c, 0xd2, 0x4f, 0xb0, 0xd6, 0x96, 0x3f, 0x7d, 0x28, 0xe1, 0x7f, 0x72]"
  unfolding md5_rfc [symmetric] by code_simp

text \<open>C21: however a message is cut into updates with data and updates with runs of zeros, and whatever
  the object held before the reset, \<^verbatim>\<open>MD5Single\<close> ends with the digest of RFC 1321 of the whole message, for
  messages of any length. The RFC's algorithm is stated on its own in the theory \<open>RFC1321\<close>, its constants by
  their sine formula, so every constant, shift, word index, function and byte order of the program's block function
  is compared with it.\<close>

theorem md5_single_streaming:
  assumes "length (ms_tmp ctx) = 64"
  shows "md5_end (fold md5_apply ops (md5_reset ctx)) = rfc_md5 (concat (map md5_op_bytes ops))"
  unfolding md5_rfc [symmetric] by (rule md5_single_streaming_rule [OF assms])

theorem md5_single_streaming_witness:
  "md5_end (fold md5_apply [DataOp [97], ZeroOp 0, DataOp [98, 99]] (md5_reset ex_md5_single)) =
    [0x90, 0x01, 0x50, 0x98, 0x3c, 0xd2, 0x4f, 0xb0, 0xd6, 0x96, 0x3f, 0x7d, 0x28, 0xe1, 0x7f, 0x72] \<and>
   md5_end (fold md5_apply [DataOp [97], ZeroOp 200, DataOp [98, 99]] (md5_reset ex_md5_single))
    = rfc_md5 ([97] @ replicate 200 0 @ [98, 99])"
  using md5_single_streaming [of ex_md5_single "[DataOp [97], ZeroOp 0, DataOp [98, 99]]"]
    md5_single_streaming [of ex_md5_single "[DataOp [97], ZeroOp 200, DataOp [98, 99]]"] rfc_test_abc
  by (simp add: ex_md5_single_def)

end
