(* ===== verification/CRC_Fast.thy ===== *)
theory CRC_Fast
  imports CRC_Tables Memory
begin

unbundle bit_operations_syntax

text \<open>
  The CRC of \<^verbatim>\<open>parpar/hasher\<close>: four bytes at a time with the tables of \<open>CRC_Tables\<close>
  (\<^verbatim>\<open>crc_slice4.h\<close>, the little endian branch), the checksum function \<^verbatim>\<open>CRC32_Calc_Slice4\<close>
  over 64 byte blocks, and the run of zeros of \<^verbatim>\<open>crc_zeropad.c\<close>. Each is the bytewise CRC of
  \<^verbatim>\<open>crc.h\<close>.
\<close>

section \<open>Four bytes at a time\<close>

definition crc_process_iter :: "u32 \<Rightarrow> u32 \<Rightarrow> u32" where
  "crc_process_iter crc cur =
     (let cur = cur XOR crc
      in crc32_lookup ! 0 ! unat (drop_bit 24 cur AND 0xFF) XOR
         crc32_lookup ! 1 ! unat (drop_bit 16 cur AND 0xFF) XOR
         crc32_lookup ! 2 ! unat (drop_bit 8 cur AND 0xFF) XOR
         crc32_lookup ! 3 ! unat (cur AND 0xFF))"

definition crc_process_block :: "u32 \<Rightarrow> bytes \<Rightarrow> u32" where
  "crc_process_block state src = fold (\<lambda>i crc. crc_process_iter crc (load32 src (4 * i))) [0..<16] state"

text \<open>\<^verbatim>\<open>crc_finish_slice4\<close>: words, then the remaining bytes.\<close>

primrec crc_finish_tail :: "u32 \<Rightarrow> bytes \<Rightarrow> nat \<Rightarrow> u32" where
  "crc_finish_tail crc src 0 = NOT crc"
| "crc_finish_tail crc src (Suc len) =
     crc_finish_tail (drop_bit 8 crc XOR crc32_lookup ! 0 ! unat ((crc AND 0xFF) XOR ucast (src ! 0))) (drop 1 src) len"

fun crc_finish :: "u32 \<Rightarrow> bytes \<Rightarrow> nat \<Rightarrow> u32" where
  "crc_finish crc src len =
     (if len \<ge> 4 then crc_finish (crc_process_iter crc (load32 src 0)) (drop 4 src) (len - 4)
      else crc_finish_tail crc src len)"

declare crc_finish.simps [simp del]

fun crc32_calc_loop :: "u32 \<Rightarrow> bytes \<Rightarrow> nat \<Rightarrow> u32" where
  "crc32_calc_loop state data len =
     (if len \<ge> 64 then crc32_calc_loop (crc_process_block state data) (drop 64 data) (len - 64)
      else crc_finish state data len)"

declare crc32_calc_loop.simps [simp del]

definition crc32_calc :: "bytes \<Rightarrow> nat \<Rightarrow> u32" where
  "crc32_calc data len = crc32_calc_loop (NOT 0) data len"

section \<open>A run of zeros\<close>

definition crc_multiply_step :: "u32 \<times> u32 \<times> u32 \<Rightarrow> u32 \<times> u32 \<times> u32" where
  "crc_multiply_step s =
     (let (res, a, b) = s;
          res = res XOR (negate32 (drop_bit 31 b) AND a);
          a = drop_bit 1 a XOR (0xEDB88320 AND negate32 (a AND 1));
          b = push_bit 1 b
      in (res, a, b))"

definition crc_multiply :: "u32 \<Rightarrow> u32 \<Rightarrow> u32" where
  "crc_multiply a b =
     (let (res, a, b) = iter crc_multiply_step 31 (0, a, b)
      in res XOR (negate32 (drop_bit 31 b) AND a))"

definition crc_power_table :: "u32 list" where
  "crc_power_table =
    [0x00800000, 0x00008000, 0xedb88320, 0xb1e6b092, 0xa06a2517, 0xed627dae, 0x88d14467, 0xd7bbfe6a,
     0xec447f11, 0x8e7ea170, 0x6427800e, 0x4d47bae0, 0x09fe548f, 0x83852d0f, 0x30362f1a, 0x7b5a9cc3,
     0x31fec169, 0x9fec022a, 0x6c8dedc4, 0x15d6874d, 0x5fde7a4e, 0xbad90e37, 0x2e4e5eef, 0x4eaba214,
     0xa8a472c0, 0x429a969e, 0x148d302a, 0xc40ba6d0, 0xc4e22c3c, 0x40000000, 0x20000000, 0x08000000]"

function crc_zeropad_loop :: "u64 \<Rightarrow> nat \<Rightarrow> u32 \<Rightarrow> u32" where
  "crc_zeropad_loop zeroPad pw crc =
     (if zeroPad \<noteq> 0
      then crc_zeropad_loop (drop_bit 1 zeroPad) ((pw + 1) mod 32)
             (if zeroPad AND 1 \<noteq> 0 then crc_multiply crc (crc_power_table ! pw) else crc)
      else crc)"
  by pat_completeness auto
termination
  by (relation "measure (\<lambda>(n, _). unat n)") (auto intro: unat_drop_bit_1 simp del: One_nat_def)

declare crc_zeropad_loop.simps [simp del]

definition crc_zeropad :: "u32 \<Rightarrow> u64 \<Rightarrow> u32" where
  "crc_zeropad crc zeroPad = NOT (crc_zeropad_loop zeroPad 0 (NOT crc))"

section \<open>The word step is four byte steps\<close>

lemma lookup_bytes:
  "crc32_lookup ! 0 ! unat (b :: u8) = (xtime32 ^^ 8) (ucast b)"
  "crc32_lookup ! 1 ! unat b = (xtime32 ^^ 16) (ucast b)"
  "crc32_lookup ! 2 ! unat b = (xtime32 ^^ 24) (ucast b)"
  "crc32_lookup ! 3 ! unat b = (xtime32 ^^ 32) (ucast b)"
proof -
  have b: "unat b < 256" using unsigned_less [of b] by simp
  have u: "word_of_nat (unat b) = (ucast b :: u32)" by simp
  show "crc32_lookup ! 0 ! unat b = (xtime32 ^^ 8) (ucast b)"
    "crc32_lookup ! 1 ! unat b = (xtime32 ^^ 16) (ucast b)"
    "crc32_lookup ! 2 ! unat b = (xtime32 ^^ 24) (ucast b)"
    "crc32_lookup ! 3 ! unat b = (xtime32 ^^ 32) (ucast b)"
    using crc32_lookup_0_nth [OF b] crc32_lookup_1_nth [OF b] crc32_lookup_2_nth [OF b] crc32_lookup_3_nth [OF b]
    by (simp_all only: u) (simp_all add: crc32_lookup_def numeral_3_eq_3 del: funpow.simps)
qed

lemma bytes_of_word: "v = ucast (ucast v :: u8) XOR push_bit 8 (ucast (ucast (drop_bit 8 v) :: u8)) XOR
    push_bit 16 (ucast (ucast (drop_bit 16 v) :: u8)) XOR push_bit 24 (ucast (ucast (drop_bit 24 v) :: u8))" for v :: u32
proof (rule bit_word_eqI)
  fix n
  assume "n < LENGTH(32)"
  then have "n < 8 \<or> 8 \<le> n \<and> n < 16 \<or> 16 \<le> n \<and> n < 24 \<or> 24 \<le> n \<and> n < 32" by simp linarith
  then show "bit v n = bit ((ucast (ucast v :: u8) :: u32) XOR push_bit 8 (ucast (ucast (drop_bit 8 v) :: u8)) XOR
    push_bit 16 (ucast (ucast (drop_bit 16 v) :: u8)) XOR push_bit 24 (ucast (ucast (drop_bit 24 v) :: u8))) n"
    unfolding bit_xor_iff bit_byte_at bit_byte_0 by auto
qed

lemma xtime32_push: "n \<le> 24 \<Longrightarrow> (xtime32 ^^ n) (push_bit n (ucast b)) = ucast (b :: u8)"
proof -
  assume n: "n \<le> 24"
  have "(xtime32 ^^ n) (push_bit n (ucast b)) = drop_bit n (push_bit n (ucast b))"
    by (rule xtime32_n_drop) (simp add: bit_push_bit_iff)
  also have "\<dots> = ucast b"
    using n by (intro bit_eqI) (auto simp: bit_simps dest: bit_imp_le_length)
  finally show ?thesis .
qed

lemma xtime32_32:
  "(xtime32 ^^ 32) (ucast a XOR push_bit 8 (ucast b) XOR push_bit 16 (ucast c) XOR push_bit 24 (ucast d))
   = (xtime32 ^^ 32) (ucast (a :: u8)) XOR (xtime32 ^^ 24) (ucast (b :: u8)) XOR
     (xtime32 ^^ 16) (ucast (c :: u8)) XOR (xtime32 ^^ 8) (ucast (d :: u8))"
proof -
  have sh: "(xtime32 ^^ 32) (push_bit n (ucast b)) = (xtime32 ^^ (32 - n)) (ucast b)" if "n \<le> 24" for n and b :: u8
    using crc.Dn_Dn [of "32 - n" n "push_bit n (ucast b)"] xtime32_push [OF that, of b] that by simp
  show ?thesis by (simp only: crc.Dn_xor) (simp add: sh del: funpow.simps)
qed

lemma crc_process_iter_shift: "crc_process_iter crc w = (xtime32 ^^ 32) (w XOR crc)"
proof -
  define v where "v = w XOR crc"
  have mask: "unat (x AND 0xFF :: u32) = unat (ucast x :: u8)" for x by (rule unat_byte)
  have "crc_process_iter crc w = (xtime32 ^^ 8) (ucast (ucast (drop_bit 24 v) :: u8)) XOR
      (xtime32 ^^ 16) (ucast (ucast (drop_bit 16 v) :: u8)) XOR
      (xtime32 ^^ 24) (ucast (ucast (drop_bit 8 v) :: u8)) XOR (xtime32 ^^ 32) (ucast (ucast v :: u8))"
    by (simp only: crc_process_iter_def Let_def v_def [symmetric] mask lookup_bytes)
  also have "\<dots> = (xtime32 ^^ 32) v"
    using xtime32_32 [of "ucast v" "ucast (drop_bit 8 v)" "ucast (drop_bit 16 v)" "ucast (drop_bit 24 v)"]
    by (simp only: bytes_of_word [of v, symmetric] word_xor_ac)
  finally show ?thesis by (simp only: v_def)
qed

lemma crc_update_block_word:
  "crc_update_block crc [a, b, c, d] =
    (xtime32 ^^ 32) ((ucast a XOR push_bit 8 (ucast b) XOR push_bit 16 (ucast c) XOR push_bit 24 (ucast d)) XOR crc)"
proof -
  have "crc_update_block crc [a, b, c, d] =
      (xtime32 ^^ 32) crc XOR (xtime32 ^^ 32) (ucast a) XOR (xtime32 ^^ 24) (ucast b) XOR
      (xtime32 ^^ 16) (ucast c) XOR (xtime32 ^^ 8) (ucast d)"
    by (simp only: crc_update_block_Cons crc_update_block_Nil crc_update_shift crc.Dn_xor crc.Dn_Dn)
      (simp add: word_xor_ac del: funpow.simps)
  then show ?thesis
    unfolding crc.Dn_xor [of 32 _ crc] xtime32_32 by (simp only: word_xor_ac)
qed

lemma load32_xor: "load32 data off = ucast (data ! off) XOR push_bit 8 (ucast (data ! (off + 1))) XOR
    push_bit 16 (ucast (data ! (off + 2))) XOR push_bit 24 (ucast (data ! (off + 3)))"
proof -
  have "bit (push_bit k (ucast (b :: u8)) :: u32) n \<longleftrightarrow> k \<le> n \<and> n < k + 8 \<and> n < 32 \<and> bit b (n - k)" for k b n
    by (auto simp: bit_simps dest: bit_imp_le_length)
  moreover have "bit (ucast (b :: u8) :: u32) n \<longleftrightarrow> n < 8 \<and> bit b n" for b n
    by (auto simp: bit_simps dest: bit_imp_le_length)
  ultimately show ?thesis
    unfolding load32_def push_bit_0_id
    by (intro bit_word_eqI) (auto simp: bit_or_iff bit_xor_iff)
qed

lemma crc_process_iter_bytes:
  "off + 4 \<le> length src \<Longrightarrow> crc_process_iter crc (load32 src off) = crc_update_block crc (take 4 (drop off src))"
proof -
  assume "off + 4 \<le> length src"
  then have "take 4 (drop off src) = [src ! off, src ! (off + 1), src ! (off + 2), src ! (off + 3)]"
    by (intro nth_equalityI) (auto simp: less_Suc_eq numeral_eq_Suc)
  then show ?thesis by (simp only: crc_process_iter_shift load32_xor crc_update_block_word)
qed

lemma crc_process_block_bytes: "64 \<le> length src \<Longrightarrow> crc_process_block state src = crc_update_block state (take 64 src)"
proof -
  assume len: "64 \<le> length src"
  have "n \<le> 16 \<Longrightarrow> fold (\<lambda>i crc. crc_process_iter crc (load32 src (4 * i))) [0..<n] state = crc_update_block state (take (4 * n) src)" for n
  proof (induction n)
    case 0
    then show ?case by (simp add: crc_update_block_Nil)
  next
    case (Suc n)
    then have "4 * n + 4 \<le> length src" using len by simp
    then have "crc_process_iter (crc_update_block state (take (4 * n) src)) (load32 src (4 * n))
        = crc_update_block state (take (4 * n) src @ take 4 (drop (4 * n) src))"
      by (simp only: crc_process_iter_bytes crc_update_block_append)
    also have "take (4 * n) src @ take 4 (drop (4 * n) src) = take (4 * Suc n) src"
      using take_add [of "4 * n" 4 src] by (simp add: add.commute)
    finally show ?case using Suc by simp
  qed
  from this [of 16] show ?thesis by (simp add: crc_process_block_def)
qed

lemma crc_tail_step: "drop_bit 8 crc XOR crc32_lookup ! 0 ! unat ((crc AND 0xFF) XOR ucast c) = crc_update c crc" for c :: u8
proof -
  have mask: "a AND 0xFF = take_bit 8 a" for a :: u32
    by (simp add: take_bit_eq_mask mask_eq_exp_minus_1)
  have m: "(crc AND 0xFF) XOR ucast c = ((crc XOR ucast c) AND 0xFF :: u32)"
    unfolding mask by (rule bit_word_eqI) (auto simp: bit_simps dest: bit_imp_le_length)
  have "ucast (crc XOR ucast c) = (ucast crc XOR c :: u8)"
    by (rule bit_word_eqI) (auto simp: bit_simps)
  then have t: "crc32_lookup ! 0 ! unat ((crc AND 0xFF) XOR ucast c) = crc_table ccitttable ! unat (ucast crc XOR c)"
    unfolding m unat_byte lookup_bytes crc_low_byte by simp
  have "drop_bit 8 crc AND 0x00ffffff = drop_bit 8 crc"
  proof -
    have "drop_bit 8 crc AND 0x00ffffff = take_bit 24 (drop_bit 8 crc)"
      by (simp add: take_bit_eq_mask mask_eq_exp_minus_1)
    also have "\<dots> = drop_bit 8 crc"
      by (rule bit_word_eqI) (auto simp: bit_simps dest: bit_imp_le_length)
    finally show ?thesis .
  qed
  then show ?thesis by (simp only: t crc_update_def)
qed

lemma crc_finish_tail_bytes: "n \<le> length src \<Longrightarrow> crc_finish_tail crc src n = NOT (crc_update_block crc (take n src))"
proof (induction n arbitrary: crc src)
  case (Suc n)
  then show ?case by (cases src) (simp_all add: crc_tail_step crc_update_block_Cons)
qed (simp add: crc_update_block_Nil)

lemma crc_finish_bytes: "n \<le> length src \<Longrightarrow> crc_finish crc src n = NOT (crc_update_block crc (take n src))"
proof (induction crc src n rule: crc_finish.induct)
  case (1 crc src n)
  show ?case
  proof (cases "n \<ge> 4")
    case True
    have "crc_finish crc src n = crc_finish (crc_update_block crc (take 4 src)) (drop 4 src) (n - 4)"
      using True 1(2) crc_process_iter_bytes [of 0 src crc] by (subst crc_finish.simps) simp
    also have "\<dots> = NOT (crc_update_block (crc_update_block crc (take 4 src)) (take (n - 4) (drop 4 src)))"
      using 1(1) [OF True] True 1(2) crc_process_iter_bytes [of 0 src crc] by simp
    also have "crc_update_block (crc_update_block crc (take 4 src)) (take (n - 4) (drop 4 src)) = crc_update_block crc (take n src)"
      using True by (simp only: crc_update_block_append [symmetric] take_add [symmetric] le_add_diff_inverse)
    finally show ?thesis .
  next
    case False
    then show ?thesis using 1(2) by (subst crc_finish.simps) (simp add: crc_finish_tail_bytes)
  qed
qed

lemma crc32_calc_loop_bytes: "n \<le> length data \<Longrightarrow> crc32_calc_loop state data n = NOT (crc_update_block state (take n data))"
proof (induction state data n rule: crc32_calc_loop.induct)
  case (1 state data n)
  show ?case
  proof (cases "n \<ge> 64")
    case True
    have "crc32_calc_loop state data n = crc32_calc_loop (crc_update_block state (take 64 data)) (drop 64 data) (n - 64)"
      using True 1(2) crc_process_block_bytes [of data state] by (subst crc32_calc_loop.simps) simp
    also have "\<dots> = NOT (crc_update_block (crc_update_block state (take 64 data)) (take (n - 64) (drop 64 data)))"
      using 1(1) [OF True] True 1(2) crc_process_block_bytes [of data state] by simp
    also have "crc_update_block (crc_update_block state (take 64 data)) (take (n - 64) (drop 64 data)) = crc_update_block state (take n data)"
      using True by (simp only: crc_update_block_append [symmetric] take_add [symmetric] le_add_diff_inverse)
    finally show ?thesis .
  next
    case False
    then show ?thesis using 1(2) by (subst crc32_calc_loop.simps) (simp add: crc_finish_bytes)
  qed
qed

lemma crc32_calc_bytes: "n \<le> length data \<Longrightarrow> crc32_calc data n = NOT (crc_update_block (NOT 0) (take n data))"
  by (simp add: crc32_calc_def crc32_calc_loop_bytes)

section \<open>The run of zeros\<close>

lemma crc_multiply_gf32: "crc_multiply a b = gf32_multiply a b ccitt_polynom"
proof -
  have "crc_multiply_step = gf32_step ccitt_polynom"
    by (auto simp: crc_multiply_step_def gf32_step_def Let_def fun_eq_iff)
  then show ?thesis by (simp only: crc_multiply_def gf32_multiply_def Let_def)
qed

lemma crc_power_table_nth: "pw < 32 \<Longrightarrow> crc_power_table ! pw = crc_pow (2 ^ ((pw + 3) mod 32))"
proof -
  assume pw: "pw < 32"
  have t: "crc_power_table = drop 3 crc_squares @ take 3 crc_squares"
    by (simp add: crc_power_table_def crc_squares_def)
  have l: "length crc_squares = 32" by (simp add: crc_squares_def)
  have "crc_power_table ! pw = crc_squares ! ((pw + 3) mod 32)"
  proof (cases "pw < 29")
    case True
    then show ?thesis using l by (simp add: t nth_append add.commute)
  next
    case False
    then obtain k where k: "pw = 29 + k" by (metis le_add_diff_inverse not_less)
    then have "k < 3" using pw by simp
    moreover have "(pw + 3) mod 32 = k" using k \<open>k < 3\<close> by simp
    ultimately show ?thesis using l k by (simp add: t nth_append)
  qed
  also have "\<dots> = crc_pow (2 ^ ((pw + 3) mod 32))" by (rule crc_squares_pow) simp
  finally show ?thesis .
qed

lemma crc_zeropad_loop_shift:
  assumes "pw < 32" "e mod 32 = (pw + 3) mod 32"
  shows "crc_zeropad_loop n pw a = (xtime32 ^^ (unat n * 2 ^ e)) a"
  using assms
proof (induction "unat n" arbitrary: n pw a e rule: less_induct)
  case less
  show ?case
  proof (cases "n = 0")
    case True
    then show ?thesis by (subst crc_zeropad_loop.simps) simp
  next
    case False
    define h where "h = drop_bit 1 n"
    have h: "unat h < unat n" unfolding h_def by (rule unat_drop_bit_1 [OF False])
    have "Suc e mod 32 = Suc ((pw + 3) mod 32) mod 32"
      using less.prems(2) mod_Suc_eq [of e 32] by simp
    then have "Suc e mod 32 = ((pw + 1) mod 32 + 3) mod 32"
      by (simp only: mod_Suc_eq mod_add_left_eq) simp
    note ih = less.hyps [OF h _ this]
    have IH: "crc_zeropad_loop h ((pw + 1) mod 32) a' = (xtime32 ^^ (unat h * 2 ^ Suc e)) a'" for a'
      by (rule ih) simp
    have "crc_power_table ! pw = crc_pow (1 * 2 ^ (e mod 32))"
      using crc_power_table_nth [OF less.prems(1)] less.prems(2) by simp
    then have pw: "crc_power_table ! pw = crc_pow (2 ^ e)" using crc_pow_square_mod [of 1 e] by simp
    have mult: "crc_multiply b (crc_power_table ! pw) = (xtime32 ^^ (2 ^ e)) b" for b
      unfolding crc_multiply_gf32 pw crc_pow_def by (rule crc.mul_pow_right)
    have step: "crc_zeropad_loop n pw a = crc_zeropad_loop h ((pw + 1) mod 32)
        (if n AND 1 \<noteq> 0 then (xtime32 ^^ (2 ^ e)) a else a)"
      using False by (subst crc_zeropad_loop.simps) (simp only: h_def [symmetric] mult if_True not_False_eq_True)
    have ex: "unat n * 2 ^ e = unat h * 2 ^ Suc e + (if n AND 1 \<noteq> 0 then 2 ^ e else 0)"
      using unat_halves [of n] by (simp add: h_def algebra_simps)
    show ?thesis
    proof (cases "n AND 1 \<noteq> 0")
      case True
      then show ?thesis by (simp only: step IH ex if_True not_False_eq_True crc.Dn_Dn)
    next
      case False
      then show ?thesis by (simp only: step IH ex if_False simp_thms add_0_right)
    qed
  qed
qed

lemma crc_zeropad_zeros: "crc_zeropad (NOT (crc_update_block r bs)) n = NOT (crc_update_block r (bs @ replicate (unat n) 0))"
proof -
  have "crc_zeropad_loop n 0 a = (xtime32 ^^ (8 * unat n)) a" for a
    using crc_zeropad_loop_shift [of 0 3 n a] by (simp add: mult.commute del: funpow.simps)
  then show ?thesis
    by (simp only: crc_zeropad_def crc_update_block_append crc_update_block_zeros bit.double_compl)
qed

text \<open>C31: the CRC of \<^verbatim>\<open>parpar/hasher\<close>, four bytes at a time over 64 byte blocks with its listed tables and
  then zero padded with its listed powers, is the bytewise CRC-32 of the data followed by the zeros, for
  every length and every amount of padding.\<close>

theorem crc32_calc_correct:
  "crc_zeropad (crc32_calc data (length data)) zp
    = NOT 0 XOR crc_update_block (NOT 0) (data @ replicate (unat zp) 0)"
  by (simp add: crc32_calc_bytes crc_zeropad_zeros)

end
