(* ===== verification/Hasher.thy ===== *)
theory Hasher
  imports MD5_Correct CRC_Fast
begin

unbundle bit_operations_syntax

text \<open>
  \<^verbatim>\<open>hasher_md5crc_base.h\<close> and \<^verbatim>\<open>hasher_input_base.h\<close>: the MD5 and CRC of a block in one pass, and
  \<^verbatim>\<open>HasherInput\<close>, which feeds one stream of bytes to two MD5 lanes and a CRC: the hash of the
  whole file, and hash and checksum of the current block. The lanes consume 64 bytes at a time but
  a new block may start anywhere, so the block lane runs \<^verbatim>\<open>posOffset\<close> bytes behind the file lane
  and up to 127 bytes wait in \<^verbatim>\<open>tmp\<close>.
\<close>

section \<open>Hash and checksum of a block\<close>

text \<open>\<^verbatim>\<open>MD5CRC_Calc\<close>: the loop over whole blocks, then the two final functions.\<close>

fun md5crc_loop :: "md5_state \<Rightarrow> u32 \<Rightarrow> bytes \<Rightarrow> nat \<Rightarrow> md5_state \<times> u32 \<times> bytes \<times> nat" where
  "md5crc_loop md5State crcState data len =
     (if len \<ge> 64
      then md5crc_loop (md5_process_block md5State (take 64 data)) (crc_process_block crcState data) (drop 64 data) (len - 64)
      else (md5State, crcState, data, len))"

declare md5crc_loop.simps [simp del]

definition md5crc_calc :: "bytes \<Rightarrow> nat \<Rightarrow> u64 \<Rightarrow> u32 \<times> bytes" where
  "md5crc_calc data len zeroPad =
     (let (md5State, crcState, rest, n) = md5crc_loop md5_init (NOT 0) data len;
          md5State = md5_final_block md5State rest (word_of_nat len) zeroPad;
          crc = crc_finish crcState rest n
      in (crc_zeropad crc zeroPad, md5_bytes md5State))"

lemma md5crc_loop_eq:
  "n \<le> length data \<Longrightarrow> md5crc_loop s c data n =
    (md5_chunks s (take n data), crc_update_block c (take (64 * (n div 64)) data), drop (64 * (n div 64)) data, n mod 64)"
proof (induction s c data n rule: md5crc_loop.induct)
  case (1 s c data n)
  show ?case
  proof (cases "n \<ge> 64")
    case False
    then show ?thesis by (subst md5crc_loop.simps) (simp add: md5_chunks_short crc_update_block_Nil)
  next
    case True
    have t: "take n data = take 64 data @ take (n - 64) (drop 64 data)"
      using True take_add [of 64 "n - 64" data] by simp
    have c: "md5_chunks s (take n data) = md5_chunks (md5_process_block s (take 64 data)) (take (n - 64) (drop 64 data))"
      using True 1(2) unfolding t by (simp add: md5_chunks_append md5_chunks_block)
    have d: "64 * (n div 64) = 64 + 64 * ((n - 64) div 64)" using True by (simp add: le_div_geq)
    have u: "crc_update_block c (take (64 * (n div 64)) data) =
        crc_update_block (crc_update_block c (take 64 data)) (take (64 * ((n - 64) div 64)) (drop 64 data))"
      unfolding d take_add crc_update_block_append ..
    have r: "drop (64 * (n div 64)) data = drop (64 * ((n - 64) div 64)) (drop 64 data)"
      unfolding d by (simp only: drop_drop add.commute)
    have "md5crc_loop s c data n =
        md5crc_loop (md5_process_block s (take 64 data)) (crc_process_block c data) (drop 64 data) (n - 64)"
      using True by (subst md5crc_loop.simps) simp
    also have "\<dots> = (md5_chunks (md5_process_block s (take 64 data)) (take (n - 64) (drop 64 data)),
        crc_update_block (crc_process_block c data) (take (64 * ((n - 64) div 64)) (drop 64 data)),
        drop (64 * ((n - 64) div 64)) (drop 64 data), (n - 64) mod 64)"
      using True 1(2) by (intro 1(1)) simp_all
    finally show ?thesis
      using True 1(2) by (simp only: c u r crc_process_block_bytes le_mod_geq order.trans [OF True 1(2)])
  qed
qed

lemma md5crc_calc_eq:
  assumes "n \<le> length data" "unat zp + 64 \<le> 2 ^ 64"
  shows "md5crc_calc data n zp =
    (NOT (crc_update_block (NOT 0) (take n data @ replicate (unat zp) 0)), md5 (take n data @ replicate (unat zp) 0))"
proof -
  let ?m = "64 * (n div 64)"
  have m: "?m + n mod 64 = n" by simp
  have t: "take n data = take ?m data @ take (n mod 64) (drop ?m data)"
    by (metis m take_add)
  have len: "length (take n data) = n" using assms(1) by simp
  have "drop ?m (take n data) = take (n mod 64) (drop ?m data)"
    by (simp only: drop_take minus_mult_div_eq_mod)
  then have "md5_bytes (md5_final_block (md5_chunks md5_init (take n data)) (drop ?m data) (word_of_nat n) zp)
      = md5 (take n data @ replicate (unat zp) 0)"
    using md5_final_block_md5 [of "take n data" "drop ?m data" zp] assms(2) by (simp only: len)
  moreover have "crc_finish (crc_update_block (NOT 0) (take ?m data)) (drop ?m data) (n mod 64)
      = NOT (crc_update_block (NOT 0) (take n data))"
  proof -
    have "n mod 64 \<le> length (drop ?m data)" using assms(1) m by (simp only: length_drop)
    then show ?thesis by (simp only: crc_finish_bytes t crc_update_block_append)
  qed
  ultimately show ?thesis
    using assms(1) by (simp add: md5crc_calc_def md5crc_loop_eq crc_zeropad_zeros)
qed

section \<open>Two lanes over one stream\<close>

record hasher_input =
  hi_tmp :: bytes
  hi_md5_block :: md5_state
  hi_md5_file :: md5_state
  hi_crc :: u32
  hi_tmpLen :: nat
  hi_posOffset :: nat
  hi_len_block :: u64
  hi_len_file :: u64

definition hasher_reset :: "hasher_input \<Rightarrow> hasher_input" where
  "hasher_reset h =
     h\<lparr>hi_md5_block := md5_init, hi_md5_file := md5_init, hi_tmpLen := 0, hi_posOffset := 0,
       hi_crc := NOT 0, hi_len_block := 0, hi_len_file := 0\<rparr>"

text \<open>One block of each lane; both functions read 64 bytes at their pointer.\<close>

definition hasher_lanes :: "bytes \<Rightarrow> bytes \<Rightarrow> hasher_input \<Rightarrow> hasher_input" where
  "hasher_lanes blockData fileData h =
     h\<lparr>hi_crc := crc_process_block (hi_crc h) (take 64 blockData),
       hi_md5_block := md5_process_block (hi_md5_block h) (take 64 blockData),
       hi_md5_file := md5_process_block (hi_md5_file h) (take 64 fileData)\<rparr>"

text \<open>
  The \<^verbatim>\<open>while(1)\<close> that works off what waits in \<^verbatim>\<open>tmp\<close>: the flag says that the new data was all
  stored and the function returns.
\<close>

function hasher_drain :: "hasher_input \<Rightarrow> bytes \<Rightarrow> bool \<times> hasher_input \<times> bytes" where
  "hasher_drain h data =
     (let wanted = 64 + hi_posOffset h - hi_tmpLen h
      in if length data < wanted
         then (True, h\<lparr>hi_tmp := memcpy (hi_tmp h) (hi_tmpLen h) data, hi_tmpLen := hi_tmpLen h + length data\<rparr>, data)
         else if hi_tmpLen h \<le> hi_posOffset h
         then let wanted = 64 - hi_tmpLen h;
                  tmp = memcpy (hi_tmp h) (hi_tmpLen h) (take wanted data)
              in (False, hasher_lanes data tmp (h\<lparr>hi_tmp := tmp\<rparr>), drop wanted data)
         else let tmp = memcpy (hi_tmp h) (hi_tmpLen h) (take wanted data);
                  h = hasher_lanes (drop (hi_posOffset h) tmp) tmp (h\<lparr>hi_tmp := tmp\<rparr>)
              in hasher_drain
                   (h\<lparr>hi_tmp := memcpy tmp 0 (take (hi_posOffset h) (drop 64 tmp)), hi_tmpLen := hi_posOffset h\<rparr>)
                   (drop wanted data))"
  by pat_completeness auto
termination
  by (relation "measure (\<lambda>(h, _). hi_tmpLen h - hi_posOffset h)") (auto simp: hasher_lanes_def)

declare hasher_drain.simps [simp del]

function hasher_loop :: "hasher_input \<Rightarrow> bytes \<Rightarrow> hasher_input \<times> bytes" where
  "hasher_loop h data =
     (if length data \<ge> 64 + hi_posOffset h
      then hasher_loop (hasher_lanes (drop (hi_posOffset h) data) data h) (drop 64 data)
      else (h, data))"
  by pat_completeness auto
termination
  by (relation "measure (\<lambda>(_, data). length data)") auto

declare hasher_loop.simps [simp del]

definition hasher_update :: "bytes \<Rightarrow> hasher_input \<Rightarrow> hasher_input" where
  "hasher_update data h =
     (let h = h\<lparr>hi_len_block := hi_len_block h + word_of_nat (length data),
                hi_len_file := hi_len_file h + word_of_nat (length data)\<rparr>;
          (returned, h, data) = (if hi_tmpLen h \<noteq> 0 then hasher_drain h data else (False, h, data))
      in if returned then h
         else case hasher_loop h data of
                (h, data) \<Rightarrow> h\<lparr>hi_tmp := memcpy (hi_tmp h) 0 data, hi_tmpLen := length data\<rparr>)"

definition hasher_get_block :: "u64 \<Rightarrow> hasher_input \<Rightarrow> bytes \<times> hasher_input" where
  "hasher_get_block zeroPad h =
     (let hash = md5_bytes (md5_final_block (hi_md5_block h) (drop (hi_posOffset h) (hi_tmp h)) (hi_len_block h) zeroPad);
          crc = crc_finish (hi_crc h) (drop (hi_posOffset h) (hi_tmp h)) (unat (hi_len_block h AND 63));
          crc = crc_zeropad crc zeroPad;
          md5crc = hash @ [ucast (crc AND 0xff), ucast (drop_bit 8 crc AND 0xff),
                           ucast (drop_bit 16 crc AND 0xff), ucast (drop_bit 24 crc AND 0xff)];
          h = (if hi_tmpLen h \<ge> 64
               then h\<lparr>hi_md5_file := md5_process_block (hi_md5_file h) (take 64 (hi_tmp h)),
                      hi_tmpLen := hi_tmpLen h - 64,
                      hi_tmp := memcpy (hi_tmp h) 0 (take (hi_tmpLen h - 64) (drop 64 (hi_tmp h)))\<rparr>
               else h)
      in (md5crc, h\<lparr>hi_md5_block := md5_init, hi_crc := NOT 0, hi_posOffset := hi_tmpLen h, hi_len_block := 0\<rparr>))"

definition hasher_end :: "hasher_input \<Rightarrow> bytes" where
  "hasher_end h =
     (let file = (if hi_tmpLen h \<ge> 64 then md5_process_block (hi_md5_file h) (take 64 (hi_tmp h)) else hi_md5_file h)
      in md5_bytes (md5_final_block file (hi_tmp h) (hi_len_file h) 0))"

definition hasher_extract_file_md5 :: "hasher_input \<Rightarrow> md5_single \<Rightarrow> md5_single" where
  "hasher_extract_file_md5 h out =
     (let out = out\<lparr>ms_state := hi_md5_file h, ms_dataLen := hi_len_file h\<rparr>
      in if hi_tmpLen h \<ge> 64
         then out\<lparr>ms_state := md5_update_blocks (ms_state out) (hi_tmp h) 1,
                  ms_tmp := memcpy (ms_tmp out) 0 (take (hi_tmpLen h mod 64) (drop 64 (hi_tmp h)))\<rparr>
         else out\<lparr>ms_tmp := memcpy (ms_tmp out) 0 (take (hi_tmpLen h) (hi_tmp h))\<rparr>)"

text \<open>\<^verbatim>\<open>HasherGetBlock\<close> of \<^verbatim>\<open>hasher.h\<close> splits the 20 bytes into hash and checksum.\<close>

definition hasher_get_hash_crc :: "u64 \<Rightarrow> hasher_input \<Rightarrow> bytes \<times> u32 \<times> hasher_input" where
  "hasher_get_hash_crc zeropad h =
     (case hasher_get_block zeropad h of
        (md5crc, h) \<Rightarrow>
          (take 16 md5crc,
           ucast (md5crc ! 16) OR push_bit 8 (ucast (md5crc ! 17)) OR
           push_bit 16 (ucast (md5crc ! 18)) OR push_bit 24 (ucast (md5crc ! 19)), h))"

end
