(* ===== verification/Hasher_Correct.thy ===== *)
theory Hasher_Correct
  imports Hasher
begin

unbundle bit_operations_syntax

text \<open>
  The invariant of \<^verbatim>\<open>HasherInput\<close>: both lanes have consumed whole blocks, and what they still
  miss of the file and of the current block is in \<^verbatim>\<open>tmp\<close>. Every operation keeps it, and the
  results are the one-shot MD5 and CRC of the bytes fed in.
\<close>

section \<open>The invariant\<close>

text \<open>The lanes after consuming \<open>fw\<close> of the file and \<open>bw\<close> of the block.\<close>

definition lanes_at :: "bytes \<Rightarrow> bytes \<Rightarrow> hasher_input \<Rightarrow> bool" where
  "lanes_at fw bw h \<longleftrightarrow>
     64 dvd length fw \<and> hi_md5_file h = md5_chunks md5_init fw \<and>
     64 dvd length bw \<and> hi_md5_block h = md5_chunks md5_init bw \<and> hi_crc h = crc_update_block (NOT 0) bw \<and>
     length (hi_tmp h) = 128 \<and> hi_posOffset h < 64"

text \<open>
  The file read so far and the block read so far, given what is pending for the file lane: the
  block lane misses the same bytes without the first \<^verbatim>\<open>posOffset\<close> ones.
\<close>

definition hasher_pending :: "bytes \<Rightarrow> bytes \<Rightarrow> bytes \<Rightarrow> hasher_input \<Rightarrow> bool" where
  "hasher_pending file block pending h \<longleftrightarrow>
     hi_posOffset h \<le> length pending \<and>
     (\<exists>fw bw. lanes_at fw bw h \<and> file = fw @ pending \<and> block = bw @ drop (hi_posOffset h) pending)"

definition hasher_holds :: "bytes \<Rightarrow> bytes \<Rightarrow> hasher_input \<Rightarrow> bool" where
  "hasher_holds file block h \<longleftrightarrow>
     hasher_pending file block (take (hi_tmpLen h) (hi_tmp h)) h \<and> hi_tmpLen h < 64 + hi_posOffset h \<and>
     hi_len_file h = word_of_nat (length file) \<and> hi_len_block h = word_of_nat (length block)"

lemma hasher_pending_simps [simp]:
  "hasher_pending f b p (h\<lparr>hi_tmpLen := n\<rparr>) = hasher_pending f b p h"
  "hasher_pending f b p (h\<lparr>hi_len_file := m, hi_len_block := k\<rparr>) = hasher_pending f b p h"
  "hasher_pending f b p (h\<lparr>hi_len_block := k, hi_len_file := m\<rparr>) = hasher_pending f b p h"
  by (simp_all add: hasher_pending_def lanes_at_def)

lemma hasher_pending_tmp: "hasher_pending f b p h \<Longrightarrow> length tmp = 128 \<Longrightarrow> hasher_pending f b p (h\<lparr>hi_tmp := tmp\<rparr>)"
  by (auto simp: hasher_pending_def lanes_at_def)

lemma hasher_pendingD: "hasher_pending f b p h \<Longrightarrow> length (hi_tmp h) = 128 \<and> hi_posOffset h < 64 \<and> hi_posOffset h \<le> length p"
  by (auto simp: hasher_pending_def lanes_at_def)

section \<open>Feeding data\<close>

lemma memcpy_front: "length src = n \<Longrightarrow> take n (memcpy dst 0 src) = src"
  by (simp add: memcpy_def)

lemma hasher_lanes_simps [simp]:
  "hi_tmp (hasher_lanes a b h) = hi_tmp h" "hi_tmpLen (hasher_lanes a b h) = hi_tmpLen h"
  "hi_posOffset (hasher_lanes a b h) = hi_posOffset h"
  "hi_len_block (hasher_lanes a b h) = hi_len_block h" "hi_len_file (hasher_lanes a b h) = hi_len_file h"
  by (simp_all add: hasher_lanes_def)

text \<open>One step of both lanes takes 64 bytes from what is pending.\<close>

lemma hasher_lanes_pending:
  assumes h: "hasher_pending file block pending h" and len: "64 + hi_posOffset h \<le> length pending"
    and b: "take 64 blockData = take 64 (drop (hi_posOffset h) pending)" and f: "take 64 fileData = take 64 pending"
  shows "hasher_pending file block (drop 64 pending) (hasher_lanes blockData fileData h)"
proof -
  let ?p = "hi_posOffset h" and ?f = "take 64 pending" and ?b = "take 64 (drop (hi_posOffset h) pending)"
  from h obtain fw bw where w: "lanes_at fw bw h" "file = fw @ pending" "block = bw @ drop ?p pending"
    by (auto simp: hasher_pending_def)
  have l: "length ?f = 64" "length ?b = 64" using len by auto
  have "64 dvd length (fw @ ?f)" "64 dvd length (bw @ ?b)"
    using w(1) l by (simp_all only: lanes_at_def length_append) (metis dvd_add dvd_refl)+
  moreover have "md5_chunks md5_init (fw @ ?f) = md5_process_block (md5_chunks md5_init fw) ?f"
    "md5_chunks md5_init (bw @ ?b) = md5_process_block (md5_chunks md5_init bw) ?b"
    using w(1) md5_chunks_block [OF l(1)] md5_chunks_block [OF l(2)] md5_chunks_append [of fw _ ?f] md5_chunks_append [of bw _ ?b]
    by (simp_all only: lanes_at_def)
  moreover have "crc_process_block (crc_update_block (NOT 0) bw) ?b = crc_update_block (NOT 0) (bw @ ?b)"
    using crc_process_block_bytes [of ?b] l(2) by (simp only: crc_update_block_append) simp
  ultimately have "lanes_at (fw @ ?f) (bw @ ?b) (hasher_lanes blockData fileData h)"
    using w(1) by (simp add: lanes_at_def hasher_lanes_def b f)
  moreover have "file = (fw @ ?f) @ drop 64 pending" using w(2) by simp
  moreover have "drop ?p pending = ?b @ drop ?p (drop 64 pending)"
    by (metis append_take_drop_id drop_drop add.commute)
  then have "block = (bw @ ?b) @ drop ?p (drop 64 pending)" using w(3) by simp
  ultimately show ?thesis using len by (auto simp: hasher_pending_def)
qed

lemma hasher_loop_pending:
  "hasher_pending file block data h \<Longrightarrow> hasher_loop h data = (h', data') \<Longrightarrow>
    hasher_pending file block data' h' \<and> length data' < 64 + hi_posOffset h' \<and>
    hi_len_block h' = hi_len_block h \<and> hi_len_file h' = hi_len_file h"
proof (induction h data rule: hasher_loop.induct)
  case (1 h data)
  show ?case
  proof (cases "length data \<ge> 64 + hi_posOffset h")
    case True
    have "hasher_pending file block (drop 64 data) (hasher_lanes (drop (hi_posOffset h) data) data h)"
      by (rule hasher_lanes_pending [OF 1(2) True]) simp_all
    then show ?thesis using 1(1) [OF True] 1(3) True by (simp add: hasher_loop.simps [of h])
  next
    case False
    then show ?thesis using 1(2,3) by (simp add: hasher_loop.simps [of h])
  qed
qed

text \<open>Working off the buffer: either everything was stored, or the rest of the data is pending.\<close>

lemma hasher_drain_pending:
  assumes "hasher_pending file block (take (hi_tmpLen h) (hi_tmp h) @ data) h" "hi_tmpLen h < 64 + hi_posOffset h"
    and "hi_posOffset h \<le> hi_tmpLen h"
    and "hasher_drain h data = (returned, h', data')"
  shows "hi_len_block h' = hi_len_block h \<and> hi_len_file h' = hi_len_file h \<and>
    (if returned then hasher_pending file block (take (hi_tmpLen h') (hi_tmp h')) h' \<and> hi_tmpLen h' < 64 + hi_posOffset h'
     else hasher_pending file block data' h')"
  using assms
proof (induction h data rule: hasher_drain.induct)
  case (1 h data)
  let ?p = "hi_posOffset h" and ?n = "hi_tmpLen h" and ?t = "take (hi_tmpLen h) (hi_tmp h)"
  let ?w = "64 + hi_posOffset h - hi_tmpLen h"
  note pend = 1(2) and lt = 1(3) and le = 1(4) and eq = 1(5)
  have tmp: "length (hi_tmp h) = 128" "?p < 64" using hasher_pendingD [OF pend] by auto
  have n: "?n \<le> 128" "length ?t = ?n" using lt tmp by auto
  show ?case
  proof (cases "length data < ?w")
    case True
    have "take (?n + length data) (memcpy (hi_tmp h) ?n data) = ?t @ data"
      using n tmp by (simp add: take_memcpy)
    moreover have "length (memcpy (hi_tmp h) ?n data) = 128" using True lt tmp by simp
    ultimately show ?thesis
      using eq True lt pend by (auto simp: hasher_drain.simps [of h] hasher_pending_tmp)
  next
    case enough: False
    have pl: "64 + ?p \<le> length (?t @ data)" using enough lt n by simp
    show ?thesis
    proof (cases "?n \<le> ?p")
      case True
      let ?tmp = "memcpy (hi_tmp h) ?n (take (64 - ?n) data)"
      have np: "?n = ?p" using True le by simp
      have l: "length ?tmp = 128" using enough lt tmp by simp
      have "take 64 ?tmp = ?t @ take (64 - ?n) data"
        using take_memcpy [of ?n "hi_tmp h" "take (64 - ?n) data"] enough n tmp np by simp
      then have f: "take 64 ?tmp = take 64 (?t @ data)" using n np tmp by simp
      have b: "take 64 data = take 64 (drop ?p (?t @ data))" using n np by simp
      have "hasher_pending file block (drop 64 (?t @ data)) (hasher_lanes data ?tmp (h\<lparr>hi_tmp := ?tmp\<rparr>))"
        using pl b f by (intro hasher_lanes_pending hasher_pending_tmp [OF pend l]) simp_all
      moreover have "drop 64 (?t @ data) = drop (64 - ?n) data" using n np tmp by simp
      ultimately show ?thesis
        using eq enough True by (auto simp: hasher_drain.simps [of h] Let_def)
    next
      case False
      let ?tmp = "memcpy (hi_tmp h) ?n (take ?w data)"
      let ?h = "hasher_lanes (drop ?p ?tmp) ?tmp (h\<lparr>hi_tmp := ?tmp\<rparr>)"
      let ?k = "?h\<lparr>hi_tmp := memcpy ?tmp 0 (take ?p (drop 64 ?tmp)), hi_tmpLen := ?p\<rparr>"
      have l: "length ?tmp = 128" using enough lt tmp by simp
      have front: "take (64 + ?p) ?tmp = ?t @ take ?w data"
        using take_memcpy [of ?n "hi_tmp h" "take ?w data"] enough n lt by simp
      have front': "?t @ take ?w data = take (64 + ?p) (?t @ data)" using n lt by simp
      have cut: "take 64 (take (64 + ?p) xs) = take 64 xs" "take 64 (drop ?p (take (64 + ?p) xs)) = take 64 (drop ?p xs)"
        "take ?p (drop 64 (take (64 + ?p) xs)) = take ?p (drop 64 xs)" for xs :: bytes
        by (simp_all add: drop_take min_def)
      note same = trans [OF front front']
      have f: "take 64 ?tmp = take 64 (?t @ data)" by (metis same cut(1))
      have b: "take 64 (drop ?p ?tmp) = take 64 (drop ?p (?t @ data))" by (metis same cut(2))
      have e: "take ?p (drop 64 ?tmp) = take ?p (drop 64 (?t @ data))" by (metis same cut(3))
      have h: "hasher_pending file block (drop 64 (?t @ data)) ?h"
        using pl b f by (intro hasher_lanes_pending hasher_pending_tmp [OF pend l]) simp_all
      have rest: "drop 64 (?t @ data) = take ?p (drop 64 (?t @ data)) @ drop ?w data"
      proof -
        have "drop (64 + ?p) ?t = []" using n lt by simp
        then have "drop (64 + ?p) (?t @ data) = drop ?w data" by (simp only: drop_append n(2) append_Nil)
        then have "drop ?p (drop 64 (?t @ data)) = drop ?w data" by (simp only: drop_drop add.commute)
        then show ?thesis by (metis append_take_drop_id)
      qed
      have q: "length (take ?p (drop 64 ?tmp)) = ?p" using l tmp by simp
      have k: "take ?p (memcpy ?tmp 0 (take ?p (drop 64 ?tmp))) = take ?p (drop 64 (?t @ data))"
        unfolding memcpy_front [OF q] by (rule e)
      have k': "length (memcpy ?tmp 0 (take ?p (drop 64 ?tmp))) = 128"
        by (rule trans [OF length_memcpy l]) (use q l tmp in linarith)
      have pk: "hasher_pending file block (take (hi_tmpLen ?k) (hi_tmp ?k) @ drop ?w data) ?k"
        using back_subst [of "\<lambda>x. hasher_pending file block x ?h", OF h rest]
        by (simp add: hasher_pending_tmp k k' del: take_append drop_append take_drop)
      have "hasher_drain h data = hasher_drain ?k (drop ?w data)"
        using enough False by (subst hasher_drain.simps) (simp add: Let_def)
      then have "hasher_drain ?k (drop ?w data) = (returned, h', data')" using eq by metis
      note this' = this
      have pos: "hi_posOffset ?h = ?p" and b: "hi_tmpLen ?k < 64 + hi_posOffset ?k" "hi_posOffset ?k \<le> hi_tmpLen ?k"
        and lens: "hi_len_block ?k = hi_len_block h" "hi_len_file ?k = hi_len_file h" using tmp(2) by simp_all
      note ih = 1(1) [OF refl enough False refl refl, unfolded pos, OF pk b this']
      show ?thesis by (rule ih [unfolded lens])
    qed
  qed
qed

lemma hasher_pending_append: "hasher_pending f b p h \<Longrightarrow> hasher_pending (f @ d) (b @ d) (p @ d) h"
  by (fastforce simp: hasher_pending_def)

lemma hasher_update_holds:
  assumes "hasher_holds file block h"
  shows "hasher_holds (file @ data) (block @ data) (hasher_update data h)"
proof -
  let ?t = "take (hi_tmpLen h) (hi_tmp h)"
  define h0 where "h0 = h\<lparr>hi_len_block := hi_len_block h + word_of_nat (length data), hi_len_file := hi_len_file h + word_of_nat (length data)\<rparr>"
  have lens: "hi_len_file h0 = word_of_nat (length (file @ data))" "hi_len_block h0 = word_of_nat (length (block @ data))"
    using assms by (simp_all add: h0_def hasher_holds_def)
  have h0: "hi_tmpLen h0 = hi_tmpLen h" "hi_tmp h0 = hi_tmp h" "hi_posOffset h0 = hi_posOffset h"
    by (simp_all add: h0_def)
  have pend: "hasher_pending (file @ data) (block @ data) (?t @ data) h0"
    using assms by (simp add: h0_def hasher_holds_def hasher_pending_append)
  have lt: "hi_tmpLen h < 64 + hi_posOffset h" using assms by (simp add: hasher_holds_def)
  have le: "hi_posOffset h \<le> hi_tmpLen h"
    using assms by (auto simp: hasher_holds_def dest!: hasher_pendingD)
  have finish: "hasher_holds (file @ data) (block @ data)
      (case hasher_loop k d of (h, d) \<Rightarrow> h\<lparr>hi_tmp := memcpy (hi_tmp h) 0 d, hi_tmpLen := length d\<rparr>)"
    if k: "hasher_pending (file @ data) (block @ data) d k" "hi_len_block k = hi_len_block h0" "hi_len_file k = hi_len_file h0" for k d
  proof -
    obtain h1 d1 where l: "hasher_loop k d = (h1, d1)" by (cases "hasher_loop k d")
    have r: "hasher_pending (file @ data) (block @ data) d1 h1" "length d1 < 64 + hi_posOffset h1"
      "hi_len_block h1 = hi_len_block h0" "hi_len_file h1 = hi_len_file h0"
      using hasher_loop_pending [OF k(1) l] k(2,3) by auto
    have "length (memcpy (hi_tmp h1) 0 d1) = 128" "take (length d1) (memcpy (hi_tmp h1) 0 d1) = d1"
      using hasher_pendingD [OF r(1)] r(2) by (simp_all add: memcpy_def)
    then show ?thesis using r lens by (simp add: l hasher_holds_def hasher_pending_tmp)
  qed
  show ?thesis
  proof (cases "hi_tmpLen h = 0")
    case True
    then show ?thesis
      using finish [of data h0] pend h0 by (simp add: hasher_update_def h0_def [symmetric])
  next
    case False
    obtain ret h1 d1 where d: "hasher_drain h0 data = (ret, h1, d1)" by (cases "hasher_drain h0 data")
    have r: "hi_len_block h1 = hi_len_block h0 \<and> hi_len_file h1 = hi_len_file h0 \<and>
      (if ret then hasher_pending (file @ data) (block @ data) (take (hi_tmpLen h1) (hi_tmp h1)) h1 \<and> hi_tmpLen h1 < 64 + hi_posOffset h1
       else hasher_pending (file @ data) (block @ data) d1 h1)"
      using pend lt le by (intro hasher_drain_pending [OF _ _ _ d]) (simp_all add: h0)
    show ?thesis
    proof (cases ret)
      case True
      then show ?thesis using r lens False h0 d by (simp add: hasher_update_def h0_def [symmetric] hasher_holds_def)
    next
      case False
      then show ?thesis using finish [of d1 h1] r \<open>hi_tmpLen h \<noteq> 0\<close> h0 d by (simp add: hasher_update_def h0_def [symmetric])
    qed
  qed
qed

section \<open>Results\<close>

lemma hasher_reset_holds: "length (hi_tmp h) = 128 \<Longrightarrow> hasher_holds [] [] (hasher_reset h)"
  by (simp add: hasher_holds_def hasher_pending_def lanes_at_def hasher_reset_def md5_chunks_short
      crc_update_block_Nil)

lemma hasher_holdsE:
  assumes "hasher_holds file block h"
  obtains fw bw where "lanes_at fw bw h" "file = fw @ take (hi_tmpLen h) (hi_tmp h)"
    "block = bw @ take (hi_tmpLen h - hi_posOffset h) (drop (hi_posOffset h) (hi_tmp h))"
    "length block = length bw + (hi_tmpLen h - hi_posOffset h)" "hi_tmpLen h - hi_posOffset h < 64"
    "length file = length fw + hi_tmpLen h" "hi_posOffset h \<le> hi_tmpLen h" "hi_tmpLen h < 128"
proof -
  let ?t = "take (hi_tmpLen h) (hi_tmp h)"
  from assms obtain fw bw where w: "lanes_at fw bw h" "file = fw @ ?t" "block = bw @ drop (hi_posOffset h) ?t"
    "hi_posOffset h \<le> length ?t" "hi_tmpLen h < 64 + hi_posOffset h"
    by (auto simp: hasher_holds_def hasher_pending_def)
  then have "length (hi_tmp h) = 128" "hi_posOffset h < 64" by (auto simp: lanes_at_def)
  then show ?thesis using that [OF w(1)] w by (simp add: drop_take)
qed

lemma hasher_block_rest:
  assumes "hasher_holds file block h"
  shows "take (length block mod 64) (drop (hi_posOffset h) (hi_tmp h)) = drop (64 * (length block div 64)) block"
    and "hi_md5_block h = md5_chunks md5_init block"
    and "hi_crc h = crc_update_block (NOT 0) (take (64 * (length block div 64)) block)"
    and "length (drop (hi_posOffset h) (hi_tmp h)) \<ge> length block mod 64"
proof -
  let ?r = "hi_tmpLen h - hi_posOffset h" and ?tmp = "drop (hi_posOffset h) (hi_tmp h)"
  obtain fw bw where w: "lanes_at fw bw h" "block = bw @ take ?r ?tmp" "length block = length bw + ?r" "?r < 64"
    using assms by (rule hasher_holdsE) auto
  have l: "length (hi_tmp h) = 128" "hi_posOffset h < 64" using w(1) by (auto simp: lanes_at_def)
  obtain k where k: "length bw = 64 * k" using w(1) by (auto simp: lanes_at_def)
  have d: "length block div 64 = k" "length block mod 64 = ?r" using w(3,4) k by auto
  then show "take (length block mod 64) ?tmp = drop (64 * (length block div 64)) block"
    using w(2) k by simp
  show "hi_crc h = crc_update_block (NOT 0) (take (64 * (length block div 64)) block)"
    using w(1) k d(1) by (simp add: lanes_at_def w(2))
  have "md5_chunks md5_init block = md5_chunks (md5_chunks md5_init bw) (take ?r ?tmp)"
    using w(1) by (simp add: w(2) lanes_at_def md5_chunks_append)
  then show "hi_md5_block h = md5_chunks md5_init block"
    using w(1,4) by (simp add: lanes_at_def md5_chunks_short)
  show "length ?tmp \<ge> length block mod 64" using d l w(4) by simp
qed

lemma hasher_get_block_result:
  assumes "hasher_holds file block h" "unat zp + 64 \<le> 2 ^ 64"
  shows "fst (hasher_get_block zp h) = md5 (block @ replicate (unat zp) 0) @
    leu32_bytes (NOT (crc_update_block (NOT 0) (block @ replicate (unat zp) 0)))"
proof -
  note r = hasher_block_rest [OF assms(1)]
  have len: "hi_len_block h = word_of_nat (length block)" using assms(1) by (simp add: hasher_holds_def)
  then have m: "unat (hi_len_block h AND 63) = length block mod 64" by (simp add: unat_and_63)
  have "md5_bytes (md5_final_block (hi_md5_block h) (drop (hi_posOffset h) (hi_tmp h)) (hi_len_block h) zp)
      = md5 (block @ replicate (unat zp) 0)"
    unfolding r(2) len by (rule md5_final_block_md5 [OF r(1) assms(2)])
  moreover have "crc_finish (hi_crc h) (drop (hi_posOffset h) (hi_tmp h)) (length block mod 64) =
      NOT (crc_update_block (NOT 0) block)"
    unfolding crc_finish_bytes [OF r(4)] r(1) r(3) crc_update_block_append [symmetric] append_take_drop_id ..
  ultimately show ?thesis
    by (simp add: hasher_get_block_def Let_def m crc_zeropad_zeros leu32_bytes_def)
qed

lemma hasher_get_block_holds:
  assumes "hasher_holds file block h"
  shows "hasher_holds file [] (snd (hasher_get_block zp h))"
    and "hi_tmpLen (snd (hasher_get_block zp h)) < 64"
proof -
  obtain fw bw where w: "lanes_at fw bw h" "file = fw @ take (hi_tmpLen h) (hi_tmp h)" "hi_tmpLen h - hi_posOffset h < 64"
    "length file = length fw + hi_tmpLen h" "hi_tmpLen h < 128"
    using assms by (rule hasher_holdsE) auto
  have len: "hi_len_file h = word_of_nat (length file)" using assms by (simp add: hasher_holds_def)
  have l: "length (hi_tmp h) = 128" using w(1) by (auto simp: lanes_at_def)
  show "hi_tmpLen (snd (hasher_get_block zp h)) < 64" using w(5) by (auto simp: hasher_get_block_def Let_def)
  show "hasher_holds file [] (snd (hasher_get_block zp h))"
  proof (cases "hi_tmpLen h \<ge> 64")
    case False
    have "lanes_at fw [] (snd (hasher_get_block zp h))"
      using w(1) False by (simp add: lanes_at_def hasher_get_block_def Let_def md5_chunks_short crc_update_block_Nil)
    then show ?thesis
      using False w(2,5) l len
      by (auto simp: hasher_holds_def hasher_pending_def hasher_get_block_def Let_def)
  next
    case True
    let ?n = "hi_tmpLen h - 64" and ?f = "fw @ take 64 (hi_tmp h)"
    have l64: "length (take 64 (hi_tmp h)) = 64" using l by simp
    have "64 dvd length ?f" using w(1) l64 by (simp only: lanes_at_def length_append) (metis dvd_add dvd_refl)
    moreover have "md5_chunks md5_init ?f = md5_process_block (hi_md5_file h) (take 64 (hi_tmp h))"
      using w(1) md5_chunks_block [OF l64] md5_chunks_append [of fw md5_init "take 64 (hi_tmp h)"] by (simp only: lanes_at_def)
    moreover have tmp: "length (memcpy (hi_tmp h) 0 (take ?n (drop 64 (hi_tmp h)))) = 128"
      "take ?n (memcpy (hi_tmp h) 0 (take ?n (drop 64 (hi_tmp h)))) = take ?n (drop 64 (hi_tmp h))"
      using l w(5) by (simp_all add: memcpy_def)
    ultimately have "lanes_at ?f [] (snd (hasher_get_block zp h))"
      using True w(5) l by (simp add: lanes_at_def hasher_get_block_def Let_def md5_chunks_short crc_update_block_Nil)
    moreover have "file = ?f @ take ?n (drop 64 (hi_tmp h))"
      using True w(2) take_add [of 64 ?n "hi_tmp h"] by simp
    ultimately show ?thesis
      using True w(5) l len tmp
      by (auto simp: hasher_holds_def hasher_pending_def hasher_get_block_def Let_def)
  qed
qed

lemma hasher_extract_absorbs:
  assumes "hasher_holds file block h" "length (ms_tmp out) = 64"
  shows "ms_absorbs (hasher_extract_file_md5 h out) file"
proof -
  obtain fw bw where w: "lanes_at fw bw h" "file = fw @ take (hi_tmpLen h) (hi_tmp h)" "hi_tmpLen h < 128"
    "length file = length fw + hi_tmpLen h"
    using assms(1) by (rule hasher_holdsE) auto
  have len: "hi_len_file h = word_of_nat (length file)" using assms(1) by (simp add: hasher_holds_def)
  have l: "length (hi_tmp h) = 128" using w(1) by (auto simp: lanes_at_def)
  show ?thesis
  proof (cases "hi_tmpLen h \<ge> 64")
    case False
    then show ?thesis
      using w(1,2) l len assms(2)
      by (intro absorbsI [of _ fw "take (hi_tmpLen h) (hi_tmp h)"])
        (simp_all add: hasher_extract_file_md5_def Let_def lanes_at_def memcpy_def)
  next
    case True
    let ?n = "hi_tmpLen h - 64" and ?f = "fw @ take 64 (hi_tmp h)"
    have l64: "length (take 64 (hi_tmp h)) = 64" using l by simp
    have n: "hi_tmpLen h mod 64 = ?n" using True w(3) by (simp add: mod_if)
    have f: "file = ?f @ take ?n (drop 64 (hi_tmp h))"
      using True w(2) take_add [of 64 ?n "hi_tmp h"] by simp
    have d: "64 dvd length ?f" using w(1) l64 by (simp only: lanes_at_def length_append) (metis dvd_add dvd_refl)
    have s: "md5_chunks md5_init ?f = md5_process_block (hi_md5_file h) (take 64 (hi_tmp h))"
      using w(1) md5_chunks_block [OF l64] md5_chunks_append [of fw md5_init "take 64 (hi_tmp h)"] by (simp only: lanes_at_def)
    show ?thesis
      using True w(3) l len assms(2) f d s n
      by (intro absorbsI [of _ ?f "take ?n (drop 64 (hi_tmp h))"])
        (simp_all add: hasher_extract_file_md5_def Let_def memcpy_def)
  qed
qed

text \<open>With less than a block waiting, \<^verbatim>\<open>end\<close> is the hash of the file.\<close>

lemma hasher_end_file:
  assumes "hasher_holds file block h" "hi_tmpLen h < 64"
  shows "hasher_end h = md5 file"
proof -
  obtain fw bw where w: "lanes_at fw bw h" "file = fw @ take (hi_tmpLen h) (hi_tmp h)" "length file = length fw + hi_tmpLen h"
    using assms(1) by (rule hasher_holdsE) auto
  obtain k where k: "length fw = 64 * k" using w(1) by (auto simp: lanes_at_def)
  have len: "hi_len_file h = word_of_nat (length file)" using assms(1) by (simp add: hasher_holds_def)
  have d: "length file div 64 = k" "length file mod 64 = hi_tmpLen h" using w(3) k assms(2) by auto
  have "hi_md5_file h = md5_chunks md5_init file"
    using w(1,2) assms(2) by (simp add: lanes_at_def md5_chunks_append md5_chunks_short)
  moreover have "take (length file mod 64) (hi_tmp h) = drop (64 * (length file div 64)) file"
    unfolding d using w(2) k by simp
  ultimately show ?thesis
    using assms(2) md5_final_block_md5 [of "file" "hi_tmp h" 0] by (simp add: hasher_end_def len)
qed

section \<open>Correctness of a whole run\<close>

text \<open>A use of the object: blocks, each fed in any number of pieces and then finished with padding.\<close>

fun hasher_run :: "(bytes list \<times> u64) list \<Rightarrow> hasher_input \<Rightarrow> (bytes \<times> u32) list \<times> hasher_input" where
  "hasher_run [] h = ([], h)"
| "hasher_run ((pieces, zp) # blocks) h =
     (case hasher_get_hash_crc zp (fold hasher_update pieces h) of
        (hash, crc, h) \<Rightarrow> (case hasher_run blocks h of (rs, h) \<Rightarrow> ((hash, crc) # rs, h)))"

definition block_hash_crc :: "bytes list \<times> u64 \<Rightarrow> bytes \<times> u32" where
  "block_hash_crc b =
     (let bs = concat (fst b) @ replicate (unat (snd b)) 0
      in (md5 bs, NOT 0 XOR crc_update_block (NOT 0) bs))"

lemma length_md5 [simp]: "length (md5 bs) = 16"
  by (simp add: md5_def md5_bytes_def split: prod.split)

lemma load_crc_bytes: "ucast (bs ! 16) OR push_bit 8 (ucast (bs ! 17)) OR push_bit 16 (ucast (bs ! 18)) OR push_bit 24 (ucast (bs ! 19)) = c"
  if "bs = md5 m @ leu32_bytes c" for c :: u32
proof -
  have "leu32_value (leu32_bytes c) = Some c" by (rule leu32_roundtrip)
  then show ?thesis by (simp add: that nth_append leu32_bytes_eq numeral_eq_Suc)
qed

lemma hasher_get_hash_crc_holds:
  assumes "hasher_holds file block h" "unat zp + 64 \<le> 2 ^ 64"
  shows "\<exists>h'. hasher_get_hash_crc zp h = (md5 (block @ replicate (unat zp) 0),
      NOT (crc_update_block (NOT 0) (block @ replicate (unat zp) 0)), h') \<and>
    hasher_holds file [] h' \<and> hi_tmpLen h' < 64"
proof -
  obtain r h' where g: "hasher_get_block zp h = (r, h')" by (cases "hasher_get_block zp h")
  have r: "r = md5 (block @ replicate (unat zp) 0) @ leu32_bytes (NOT (crc_update_block (NOT 0) (block @ replicate (unat zp) 0)))"
    using hasher_get_block_result [OF assms] g by simp
  then have "take 16 r = md5 (block @ replicate (unat zp) 0)" by simp
  moreover have "hasher_holds file [] h'" "hi_tmpLen h' < 64"
    using hasher_get_block_holds [OF assms(1), of zp] g by simp_all
  ultimately show ?thesis using load_crc_bytes [OF r] by (simp add: hasher_get_hash_crc_def g)
qed

lemma hasher_updates_hold:
  "hasher_holds file block h \<Longrightarrow> hasher_holds (file @ concat ds) (block @ concat ds) (fold hasher_update ds h)"
proof (induction ds arbitrary: "file" block h)
  case (Cons d ds)
  from Cons.IH [OF hasher_update_holds [OF Cons.prems, of d]] show ?case by simp
qed simp

lemma hasher_run_holds:
  assumes "hasher_holds file [] h" "hi_tmpLen h < 64" "\<forall>b\<in>set blocks. unat (snd b) + 64 \<le> 2 ^ 64"
  shows "fst (hasher_run blocks h) = map block_hash_crc blocks \<and>
    hasher_holds (file @ concat (concat (map fst blocks))) [] (snd (hasher_run blocks h)) \<and>
    hi_tmpLen (snd (hasher_run blocks h)) < 64"
  using assms
proof (induction blocks arbitrary: "file" h)
  case Nil
  then show ?case by simp
next
  case (Cons b blocks)
  obtain pieces zp where b: "b = (pieces, zp)" by (cases b)
  have u: "hasher_holds (file @ concat pieces) (concat pieces) (fold hasher_update pieces h)"
    using hasher_updates_hold [OF Cons.prems(1)] by simp
  have zp: "unat zp + 64 \<le> 2 ^ 64" using Cons.prems(3) by (simp add: b)
  obtain h' where h': "hasher_get_hash_crc zp (fold hasher_update pieces h) = (md5 (concat pieces @ replicate (unat zp) 0),
      NOT (crc_update_block (NOT 0) (concat pieces @ replicate (unat zp) 0)), h')"
    "hasher_holds (file @ concat pieces) [] h'" "hi_tmpLen h' < 64"
    using hasher_get_hash_crc_holds [OF u zp] by blast
  obtain rs h'' where r: "hasher_run blocks h' = (rs, h'')" by (cases "hasher_run blocks h'")
  have "rs = map block_hash_crc blocks \<and> hasher_holds ((file @ concat pieces) @ concat (concat (map fst blocks))) [] h'' \<and>
      hi_tmpLen h'' < 64"
    using Cons.IH [OF h'(2,3)] Cons.prems(3) r by simp
  then show ?case using h'(1) r by (simp add: b block_hash_crc_def Let_def)
qed

text \<open>C20: however the bytes of a file arrive and wherever its blocks end, \<^verbatim>\<open>HasherInput\<close> gives for every
  block the MD5 and the CRC-32 of the block followed by its zero padding, its \<^verbatim>\<open>end\<close> gives the MD5 of the
  whole file, and so does the stream that \<^verbatim>\<open>extractFileMD5\<close> hands over.\<close>

theorem hasher_input_correct:
  assumes "length (hi_tmp h) = 128" "length (ms_tmp out) = 64" "\<forall>b\<in>set blocks. unat (snd b) + 64 \<le> 2 ^ 64"
  shows "fst (hasher_run blocks (hasher_reset h)) = map block_hash_crc blocks \<and>
    hasher_end (snd (hasher_run blocks (hasher_reset h))) = md5 (concat (concat (map fst blocks))) \<and>
    md5_end (hasher_extract_file_md5 (snd (hasher_run blocks (hasher_reset h))) out) = md5 (concat (concat (map fst blocks)))"
proof -
  have "hasher_holds [] [] (hasher_reset h)" "hi_tmpLen (hasher_reset h) < 64"
    using assms(1) by (simp_all add: hasher_reset_holds) (simp add: hasher_reset_def)
  note r = hasher_run_holds [OF this assms(3)]
  show ?thesis
    using r hasher_end_file [of "concat (concat (map fst blocks))" "[]" "snd (hasher_run blocks (hasher_reset h))"]
      md5_end_absorbs [OF hasher_extract_absorbs [of "concat (concat (map fst blocks))" "[]"
          "snd (hasher_run blocks (hasher_reset h))" out]] assms(2)
    by simp
qed

definition ex_hasher :: hasher_input where
  "ex_hasher = \<lparr>hi_tmp = replicate 128 7, hi_md5_block = (1, 2, 3, 4), hi_md5_file = (1, 2, 3, 4), hi_crc = 5,
     hi_tmpLen = 6, hi_posOffset = 7, hi_len_block = 8, hi_len_file = 9\<rparr>"

theorem hasher_input_correct_witness:
  "hasher_end (snd (hasher_run [([[1, 2], [3]], 1), ([[4, 5]], 0)] (hasher_reset ex_hasher))) = md5 [1, 2, 3, 4, 5]"
  using hasher_input_correct [of ex_hasher ex_md5_single "[([[1, 2], [3]], 1), ([[4, 5]], 0)]"]
  by (simp add: ex_hasher_def ex_md5_single_def)

text \<open>C39: when 64 bytes or more still wait in \<^verbatim>\<open>tmp\<close>, \<^verbatim>\<open>end\<close> pushes one block of them through but then takes
  the remaining bytes from the start of \<^verbatim>\<open>tmp\<close> again, so it returns the MD5 of the file with its last
  bytes replaced by bytes from 64 positions before.\<close>

theorem hasher_end_late:
  assumes "hasher_holds file block h" "64 \<le> hi_tmpLen h"
  shows "hasher_end h = md5 (take (64 * (length file div 64)) file @
    take (length file mod 64) (drop (64 * (length file div 64) - 64) file))"
proof -
  let ?n = "hi_tmpLen h - 64"
  obtain fw bw where w: "lanes_at fw bw h" "file = fw @ take (hi_tmpLen h) (hi_tmp h)" "hi_tmpLen h < 128"
    "length file = length fw + hi_tmpLen h"
    using assms(1) by (rule hasher_holdsE) auto
  have len: "hi_len_file h = word_of_nat (length file)" using assms(1) by (simp add: hasher_holds_def)
  have l: "length (hi_tmp h) = 128" using w(1) by (auto simp: lanes_at_def)
  obtain k where k: "length fw = 64 * k" using w(1) by (auto simp: lanes_at_def)
  have m: "length file = 64 * Suc k + ?n" "?n < 64" using w(3,4) k assms(2) by auto
  have d: "length file div 64 = Suc k" "length file mod 64 = ?n"
    using m by (simp, metis mod_less mod_mult_self4)
  let ?f = "fw @ take 64 (hi_tmp h)"
  have l64: "length (take 64 (hi_tmp h)) = 64" using l by simp
  have f: "take (64 * Suc k) file = ?f" using k w(2) assms(2) by (simp add: min_def)
  have "drop (64 * Suc k - 64) file = take (hi_tmpLen h) (hi_tmp h)" using k w(2) by simp
  then have t: "take ?n (drop (64 * Suc k - 64) file) = take ?n (hi_tmp h)" by simp
  let ?g = "?f @ take ?n (hi_tmp h)"
  have lg: "length ?g = length file" using k l m by simp
  have s: "md5_chunks md5_init ?f = md5_process_block (hi_md5_file h) (take 64 (hi_tmp h))"
    using w(1) md5_chunks_block [OF l64] md5_chunks_append [of fw md5_init "take 64 (hi_tmp h)"] by (simp only: lanes_at_def)
  have "64 dvd length ?f" using k l by simp
  then have "md5_chunks md5_init ?g = md5_chunks (md5_chunks md5_init ?f) (take ?n (hi_tmp h))"
    by (rule md5_chunks_append)
  then have g: "md5_chunks md5_init ?g = md5_chunks md5_init ?f" using m(2) l by (simp add: md5_chunks_short)
  have "take (length ?g mod 64) (hi_tmp h) = drop (64 * (length ?g div 64)) ?g"
    unfolding lg d using k l by simp
  then have "md5_bytes (md5_final_block (md5_chunks md5_init ?g) (hi_tmp h) (word_of_nat (length ?g)) 0)
      = md5 (?g @ replicate (unat (0::u64)) 0)"
    by (rule md5_final_block_md5) simp
  then have "md5_bytes (md5_final_block (md5_chunks md5_init ?f) (hi_tmp h) (hi_len_file h) 0) = md5 ?g"
    by (simp only: g lg len unat_0 replicate_0 append_Nil2)
  then show ?thesis using assms(2) by (simp only: hasher_end_def Let_def if_True s d f t)
qed

definition ex_hasher_late :: hasher_input where
  "ex_hasher_late = hasher_update (replicate 63 9) (snd (hasher_get_block 0 (hasher_update [1, 2] (hasher_reset ex_hasher))))"

lemma ex_hasher_late: "hasher_holds ([1, 2] @ replicate 63 9) (replicate 63 9) ex_hasher_late" "64 \<le> hi_tmpLen ex_hasher_late"
proof -
  have "hasher_holds [] [] (hasher_reset ex_hasher)" by (rule hasher_reset_holds) (simp add: ex_hasher_def)
  from hasher_update_holds [OF hasher_get_block_holds(1) [OF hasher_update_holds [OF this, where data = "[1, 2]"], where zp = 0],
      where data = "replicate 63 9"]
  show "hasher_holds ([1, 2] @ replicate 63 9) (replicate 63 9) ex_hasher_late"
    by (simp only: ex_hasher_late_def append_Nil)
  have "hi_tmpLen (snd (hasher_get_block 0 (hasher_update [1, 2] (hasher_reset ex_hasher)))) = 2 \<and>
      hi_posOffset (snd (hasher_get_block 0 (hasher_update [1, 2] (hasher_reset ex_hasher)))) = 2"
    by (simp add: hasher_get_block_def hasher_update_def hasher_reset_def hasher_loop.simps Let_def)
  then show "64 \<le> hi_tmpLen ex_hasher_late"
    by (simp add: ex_hasher_late_def hasher_update_def [of "replicate 63 9"] hasher_drain.simps Let_def)
qed

theorem hasher_end_late_witness:
  "hasher_end ex_hasher_late = md5 ([1, 2] @ replicate 62 9 @ [1])"
  using hasher_end_late [OF ex_hasher_late] by simp

end
