(* ===== verification/FileCheckSummer.thy ===== *)
theory FileCheckSummer
  imports Hasher_Correct DiskFile
begin

unbundle bit_operations_syntax

text \<open>
  \<^verbatim>\<open>filechecksummer.h\<close> and \<^verbatim>\<open>filechecksummer.cpp\<close>: the object that slides a window of one block
  over a disk file and keeps the CRC of the window, the MD5 of the file and the MD5 of its first
  16k. The buffer holds two blocks; \<^verbatim>\<open>outpointer\<close>, \<^verbatim>\<open>inpointer\<close> and \<^verbatim>\<open>tailpointer\<close> are
  indices into it. As long as the scan moves by whole blocks a \<^verbatim>\<open>HasherInput\<close> computes all
  hashes in one pass; the first step that is not a whole block stops it. Results are wrapped in an
  option for the reads that need not return; the boolean is the code's own result. The memory that
  \<^verbatim>\<open>new\<close> returns is a parameter, because the code does not clear it.
\<close>

record checksummer =
  cs_diskfile :: diskfile
  cs_blocksize :: u64
  cs_windowtable :: "u32 list"
  cs_filesize :: u64
  cs_currentoffset :: u64
  cs_buffer :: bytes
  cs_outpointer :: nat
  cs_inpointer :: nat
  cs_tailpointer :: nat
  cs_readoffset :: u64
  cs_checksum :: u32
  cs_blockhash :: bytes
  cs_hasblockhash :: bool
  cs_contextfull :: md5_single
  cs_context16k :: md5_single
  cs_hasher :: "hasher_input option"

text \<open>A fresh \<^verbatim>\<open>MD5Single\<close>; its \<^verbatim>\<open>tmp\<close> is never read before it is written.\<close>

definition md5_single_new :: md5_single where
  "md5_single_new = \<lparr>ms_tmp = replicate 64 0, ms_state = md5_init, ms_dataLen = 0\<rparr>"

definition cs_new :: "bytes \<Rightarrow> diskfile \<Rightarrow> u64 \<Rightarrow> u32 list \<Rightarrow> checksummer" where
  "cs_new memory diskfile blocksize windowtable =
     \<lparr>cs_diskfile = diskfile, cs_blocksize = blocksize, cs_windowtable = windowtable,
      cs_filesize = df_filesize diskfile, cs_currentoffset = 0,
      cs_buffer = memory, cs_outpointer = 0, cs_inpointer = 0, cs_tailpointer = 0, cs_readoffset = 0,
      cs_checksum = 0, cs_blockhash = [], cs_hasblockhash = False,
      cs_contextfull = md5_single_new, cs_context16k = md5_single_new, cs_hasher = None\<rparr>"

definition cs_block_length :: "checksummer \<Rightarrow> u64" where
  "cs_block_length c = min (cs_blocksize c) (cs_filesize c - cs_currentoffset c)"

definition cs_short_block :: "checksummer \<Rightarrow> bool" where
  "cs_short_block c \<longleftrightarrow> cs_block_length c < cs_blocksize c"

section \<open>Hashes and reading\<close>

definition cs_stop_hasher :: "checksummer \<Rightarrow> checksummer" where
  "cs_stop_hasher c =
     (case cs_hasher c of
        None \<Rightarrow> c
      | Some h \<Rightarrow>
          let c = c\<lparr>cs_contextfull := hasher_extract_file_md5 h (cs_contextfull c), cs_hasher := None\<rparr>
          in if cs_tailpointer c > cs_inpointer c
             then c\<lparr>cs_contextfull := md5_update
                      (take (cs_tailpointer c - cs_inpointer c) (drop (cs_inpointer c) (cs_buffer c))) (cs_contextfull c)\<rparr>
             else c)"

definition cs_update_hashes :: "u64 \<Rightarrow> bytes \<Rightarrow> checksummer \<Rightarrow> checksummer" where
  "cs_update_hashes off buffer c =
     (if off \<ge> 16384
      then if cs_hasher c = None then c\<lparr>cs_contextfull := md5_update buffer (cs_contextfull c)\<rparr> else c
      else if off + word_of_nat (length buffer) \<ge> 16384
      then let first = unat (16384 - off);
               c = c\<lparr>cs_context16k := md5_update (take first buffer) (cs_context16k c)\<rparr>
           in if cs_hasher c = None
              then let c = c\<lparr>cs_contextfull := cs_context16k c\<rparr>
                   in if off + word_of_nat (length buffer) > 16384
                      then c\<lparr>cs_contextfull := md5_update (drop first buffer) (cs_contextfull c)\<rparr>
                      else c
              else c
      else c\<lparr>cs_context16k := md5_update buffer (cs_context16k c)\<rparr>)"

definition cs_fill :: "bool \<Rightarrow> fs \<Rightarrow> checksummer \<Rightarrow> (bool \<times> checksummer) option" where
  "cs_fill longfill fs c =
     (let bs = unat (cs_blocksize c)
      in if cs_readoffset c \<ge> cs_filesize c then Some (True, c)
         else if cs_tailpointer c \<ge> bs \<and> \<not> longfill then Some (True, c)
         else let target = (if cs_tailpointer c = 0 then bs else 2 * bs);
                  want = min (cs_filesize c - cs_readoffset c) (word_of_nat (target - cs_tailpointer c))
              in (case (if want > 0
                        then case disk_read (cs_readoffset c) (unat want) MAX_LENGTH (cs_diskfile c) fs of
                               None \<Rightarrow> None
                             | Some (False, got, d) \<Rightarrow>
                                 Some (False, c\<lparr>cs_diskfile := d, cs_buffer := memcpy (cs_buffer c) (cs_tailpointer c) got\<rparr>)
                             | Some (True, got, d) \<Rightarrow>
                                 let c = c\<lparr>cs_diskfile := d, cs_buffer := memcpy (cs_buffer c) (cs_tailpointer c) got\<rparr>;
                                     c = cs_update_hashes (cs_readoffset c) got c
                                 in Some (True, c\<lparr>cs_readoffset := cs_readoffset c + want,
                                                  cs_tailpointer := cs_tailpointer c + unat want\<rparr>)
                        else Some (True, c)) of
                    None \<Rightarrow> None
                  | Some (False, c) \<Rightarrow> Some (False, c)
                  | Some (True, c) \<Rightarrow>
                      let want = target - cs_tailpointer c
                      in Some (True, if want > 0
                                     then c\<lparr>cs_buffer := memset (cs_buffer c) (cs_tailpointer c) 0 want\<rparr>
                                     else c)))"

definition cs_compute_checksum :: "bool \<Rightarrow> checksummer \<Rightarrow> checksummer" where
  "cs_compute_checksum domd5 c =
     (case cs_hasher c of
        Some h \<Rightarrow>
          let blocklen = min (cs_blocksize c) (cs_filesize c - cs_currentoffset c);
              zeropad = cs_blocksize c - blocklen
          in (case hasher_get_hash_crc zeropad (hasher_update (take (unat blocklen) (cs_buffer c)) h) of
                (hash, crc, h) \<Rightarrow>
                  c\<lparr>cs_hasher := Some h, cs_checksum := crc, cs_blockhash := hash, cs_hasblockhash := True\<rparr>)
      | None \<Rightarrow>
          if domd5
          then case md5crc_calc (cs_buffer c) (unat (cs_blocksize c)) 0 of
                 (crc, hash) \<Rightarrow> c\<lparr>cs_checksum := crc, cs_blockhash := hash, cs_hasblockhash := True\<rparr>
          else c\<lparr>cs_checksum := crc32_calc (cs_buffer c) (unat (cs_blocksize c))\<rparr>)"

section \<open>Moving the window\<close>

definition cs_start :: "hasher_input \<Rightarrow> fs \<Rightarrow> checksummer \<Rightarrow> (bool \<times> checksummer) option" where
  "cs_start fresh fs c =
     (let c = c\<lparr>cs_currentoffset := 0, cs_readoffset := 0, cs_tailpointer := 0, cs_outpointer := 0,
                cs_inpointer := unat (cs_blocksize c), cs_hasher := Some (hasher_reset fresh)\<rparr>
      in case cs_fill False fs c of
           None \<Rightarrow> None
         | Some (False, c) \<Rightarrow> Some (False, c)
         | Some (True, c) \<Rightarrow> Some (True, cs_compute_checksum True c))"

text \<open>The end of the file is reached: both \<^verbatim>\<open>Step\<close> and \<^verbatim>\<open>Jump\<close> leave an empty window.\<close>

definition cs_at_end :: "checksummer \<Rightarrow> checksummer" where
  "cs_at_end c =
     c\<lparr>cs_currentoffset := cs_filesize c, cs_tailpointer := 0, cs_outpointer := 0,
       cs_buffer := memset (cs_buffer c) 0 0 (unat (cs_blocksize c)), cs_checksum := 0\<rparr>"

definition cs_slide :: "checksummer \<Rightarrow> checksummer" where
  "cs_slide c =
     (let inch = cs_buffer c ! cs_inpointer c;
          outch = cs_buffer c ! cs_outpointer c;
          c = c\<lparr>cs_inpointer := cs_inpointer c + 1, cs_outpointer := cs_outpointer c + 1,
                cs_checksum := crc_slide_char (cs_checksum c) inch outch (cs_windowtable c)\<rparr>;
          bs = unat (cs_blocksize c)
      in if cs_outpointer c < bs then c
         else c\<lparr>cs_buffer := memcpy (cs_buffer c) 0 (take bs (drop (cs_outpointer c) (cs_buffer c))),
                cs_inpointer := cs_outpointer c, cs_outpointer := 0,
                cs_tailpointer := cs_tailpointer c - bs\<rparr>)"

definition cs_step :: "fs \<Rightarrow> checksummer \<Rightarrow> (bool \<times> checksummer) option" where
  "cs_step fs c =
     (if cs_currentoffset c \<ge> cs_filesize c then Some (False, c)
      else let c = cs_stop_hasher c;
               c = c\<lparr>cs_hasblockhash := False, cs_currentoffset := cs_currentoffset c + 1\<rparr>
           in if cs_currentoffset c \<ge> cs_filesize c then Some (True, cs_at_end c)
              else if cs_tailpointer c \<le> cs_inpointer c
              then case cs_fill True fs c of
                     None \<Rightarrow> None
                   | Some (False, c) \<Rightarrow> Some (False, c)
                   | Some (True, c) \<Rightarrow> Some (True, cs_slide c)
              else Some (True, cs_slide c))"

definition cs_keep :: "checksummer \<Rightarrow> checksummer" where
  "cs_keep c =
     (let keep = cs_tailpointer c - cs_outpointer c;
          c = (if keep > 0
               then c\<lparr>cs_buffer := memcpy (cs_buffer c) 0 (take keep (drop (cs_outpointer c) (cs_buffer c))),
                      cs_tailpointer := keep\<rparr>
               else c\<lparr>cs_tailpointer := 0\<rparr>)
      in c\<lparr>cs_outpointer := 0, cs_inpointer := unat (cs_blocksize c)\<rparr>)"

text \<open>
  \<^verbatim>\<open>Jump\<close>. With a whole block in the buffer the hash is computed on another thread while
  \<^verbatim>\<open>Fill\<close> runs; \<^verbatim>\<open>Fill\<close> then returns at once, so the order does not matter.
\<close>

definition cs_jump :: "u64 \<Rightarrow> fs \<Rightarrow> checksummer \<Rightarrow> (bool \<times> checksummer) option" where
  "cs_jump distance fs c =
     (if cs_currentoffset c \<ge> cs_filesize c then Some (False, c)
      else if distance = 0 then Some (False, c)
      else if distance = 1 then cs_step fs c
      else let distance = (if distance > cs_blocksize c then cs_blocksize c else distance);
               c = (if distance \<noteq> cs_blocksize c \<and> cs_currentoffset c + distance < cs_filesize c
                    then cs_stop_hasher c else c);
               c = c\<lparr>cs_hasblockhash := False, cs_currentoffset := cs_currentoffset c + distance\<rparr>
           in if cs_currentoffset c \<ge> cs_filesize c then Some (True, cs_at_end c)
              else let c = c\<lparr>cs_outpointer := cs_outpointer c + unat distance\<rparr>;
                       keep = cs_tailpointer c - cs_outpointer c;
                       c = cs_keep c
                   in if keep \<ge> unat (cs_blocksize c) \<and> distance = cs_blocksize c
                      then cs_fill False fs (cs_compute_checksum True c)
                      else case cs_fill False fs c of
                             None \<Rightarrow> None
                           | Some (False, c) \<Rightarrow> Some (False, c)
                           | Some (True, c) \<Rightarrow> Some (True, cs_compute_checksum (distance = cs_blocksize c) c))"

section \<open>Reading the results\<close>

definition cs_get_file_hashes :: "checksummer \<Rightarrow> bytes \<times> bytes" where
  "cs_get_file_hashes c =
     (let hash16k = md5_end (cs_context16k c)
      in if cs_filesize c < 16384 then (hash16k, hash16k)
         else case cs_hasher c of
                Some h \<Rightarrow> (hasher_end h, hash16k)
              | None \<Rightarrow> (md5_end (cs_contextfull c), hash16k))"

definition cs_hash :: "checksummer \<Rightarrow> bytes" where
  "cs_hash c =
     (if cs_hasblockhash c then cs_blockhash c
      else md5_end (md5_update (take (unat (cs_blocksize c)) (drop (cs_outpointer c) (cs_buffer c))) md5_single_new))"

definition cs_short_checksum :: "u64 \<Rightarrow> checksummer \<Rightarrow> u32" where
  "cs_short_checksum blocklength c =
     (let crc = crc32_calc (drop (cs_outpointer c) (cs_buffer c)) (unat blocklength)
      in if cs_blocksize c > blocklength
         then NOT (crc_update_zeros (NOT crc) (cs_blocksize c - blocklength))
         else crc)"

definition cs_short_hash :: "u64 \<Rightarrow> checksummer \<Rightarrow> bytes" where
  "cs_short_hash blocklength c =
     (let context = md5_update (take (unat blocklength) (drop (cs_outpointer c) (cs_buffer c))) md5_single_new;
          context = (if cs_blocksize c > blocklength
                     then md5_update_zero (unat (cs_blocksize c - blocklength)) context else context)
      in md5_end context)"

end
