(* ===== verification/Checksummer_Correct.thy ===== *)
theory Checksummer_Correct
  imports FileCheckSummer DataBlock
begin

unbundle bit_operations_syntax

text \<open>
  The invariant of \<^verbatim>\<open>FileCheckSummer\<close> and its preservation: the buffer holds a piece of the file
  from some base offset, the checksum is the CRC of the bytes in the window, and the hash contexts
  have absorbed what was read. The bytes of the window past the end of the file are whatever the
  buffer holds there, which need not be zeros.
\<close>

section \<open>The invariant\<close>

abbreviation cs_bs :: "checksummer \<Rightarrow> nat" where "cs_bs c \<equiv> unat (cs_blocksize c)"
abbreviation cs_off :: "checksummer \<Rightarrow> nat" where "cs_off c \<equiv> unat (cs_currentoffset c)"
abbreviation cs_read :: "checksummer \<Rightarrow> nat" where "cs_read c \<equiv> unat (cs_readoffset c)"

definition cs_window :: "checksummer \<Rightarrow> bytes" where
  "cs_window c = take (cs_bs c) (drop (cs_outpointer c) (cs_buffer c))"

definition cs_sized :: "fs \<Rightarrow> bytes \<Rightarrow> checksummer \<Rightarrow> bool" where
  "cs_sized fs content c \<longleftrightarrow>
     0 < cs_bs c \<and> cs_bs c < 2 ^ 61 \<and> length content < 2 ^ 61 \<and>
     unat (cs_filesize c) = length content \<and> disk_ready ReadMode content (cs_diskfile c) fs \<and>
     length (cs_buffer c) = 2 * cs_bs c \<and> cs_windowtable c = generate_window_table (cs_blocksize c)"

text \<open>The buffer holds the file from offset \<open>base\<close> to the read offset.\<close>

definition cs_buffered :: "nat \<Rightarrow> bytes \<Rightarrow> checksummer \<Rightarrow> bool" where
  "cs_buffered base content c \<longleftrightarrow>
     cs_tailpointer c \<le> 2 * cs_bs c \<and> cs_read c = base + cs_tailpointer c \<and> cs_read c \<le> length content \<and>
     take (cs_tailpointer c) (cs_buffer c) = take (cs_tailpointer c) (drop base content)"

text \<open>The hash contexts after reading \<open>r\<close> bytes.\<close>

definition cs_hashed :: "nat \<Rightarrow> bytes \<Rightarrow> checksummer \<Rightarrow> bool" where
  "cs_hashed r content c \<longleftrightarrow>
     ms_absorbs (cs_context16k c) (take (min r 16384) content) \<and> length (ms_tmp (cs_contextfull c)) = 64 \<and>
     (cs_hasher c = None \<and> 16384 \<le> r \<longrightarrow> ms_absorbs (cs_contextfull c) (take r content))"

definition cs_synced :: "nat \<Rightarrow> bytes \<Rightarrow> checksummer \<Rightarrow> bool" where
  "cs_synced r content c \<longleftrightarrow>
     (case cs_hasher c of None \<Rightarrow> True
      | Some h \<Rightarrow> hasher_holds (take r content) [] h \<and> hi_tmpLen h < 64)"

definition cs_placed :: "nat \<Rightarrow> bytes \<Rightarrow> checksummer \<Rightarrow> bool" where
  "cs_placed base content c \<longleftrightarrow>
     cs_buffered base content c \<and> cs_off c = base + cs_outpointer c \<and> cs_off c < length content \<and>
     cs_outpointer c < cs_bs c \<and> cs_inpointer c = cs_outpointer c + cs_bs c \<and>
     cs_outpointer c + min (cs_bs c) (length content - cs_off c) \<le> cs_tailpointer c"

definition cs_checked :: "checksummer \<Rightarrow> bool" where
  "cs_checked c \<longleftrightarrow>
     cs_checksum c = NOT (crc_update_block (NOT 0) (cs_window c)) \<and>
     (cs_hasblockhash c \<longrightarrow> cs_blockhash c = md5 (cs_window c))"

text \<open>While the multi-hash runs, the window starts the buffer and is zero padded.\<close>

definition cs_in_step :: "bytes \<Rightarrow> checksummer \<Rightarrow> bool" where
  "cs_in_step content c \<longleftrightarrow>
     (cs_hasher c \<noteq> None \<longrightarrow> cs_outpointer c = 0 \<and> cs_tailpointer c = min (cs_bs c) (length content - cs_off c))"

definition cs_inv :: "fs \<Rightarrow> bytes \<Rightarrow> checksummer \<Rightarrow> bool" where
  "cs_inv fs content c \<longleftrightarrow>
     cs_sized fs content c \<and> cs_hashed (cs_read c) content c \<and> cs_synced (cs_read c) content c \<and>
     (if cs_off c < length content
      then (\<exists>base. cs_placed base content c) \<and> cs_checked c \<and> cs_in_step content c
      else cs_off c = length content \<and> cs_read c = length content)"

section \<open>The hash contexts\<close>

lemma cs_update_hashes_fields [simp]:
  "cs_diskfile (cs_update_hashes off d c) = cs_diskfile c" "cs_blocksize (cs_update_hashes off d c) = cs_blocksize c"
  "cs_windowtable (cs_update_hashes off d c) = cs_windowtable c" "cs_filesize (cs_update_hashes off d c) = cs_filesize c"
  "cs_currentoffset (cs_update_hashes off d c) = cs_currentoffset c" "cs_buffer (cs_update_hashes off d c) = cs_buffer c"
  "cs_outpointer (cs_update_hashes off d c) = cs_outpointer c" "cs_inpointer (cs_update_hashes off d c) = cs_inpointer c"
  "cs_tailpointer (cs_update_hashes off d c) = cs_tailpointer c" "cs_readoffset (cs_update_hashes off d c) = cs_readoffset c"
  "cs_checksum (cs_update_hashes off d c) = cs_checksum c" "cs_blockhash (cs_update_hashes off d c) = cs_blockhash c"
  "cs_hasblockhash (cs_update_hashes off d c) = cs_hasblockhash c" "cs_hasher (cs_update_hashes off d c) = cs_hasher c"
  by (simp_all add: cs_update_hashes_def Let_def)

lemma take_add_drop: "take r xs @ take n (drop r xs) = take (r + n) xs"
  by (simp add: take_add)

lemma md5_update_take:
  "ms_absorbs ctx (take r content) \<Longrightarrow> ms_absorbs (md5_update (take n (drop r content)) ctx) (take (r + n) content)"
  using md5_update_absorbs [of ctx "take r content" "take n (drop r content)"] by (simp only: take_add_drop)

lemma cs_update_hashes_hashed:
  assumes h: "cs_hashed (unat off) content c" and len: "unat off + n \<le> length content" "length content < 2 ^ 61"
  shows "cs_hashed (unat off + n) content (cs_update_hashes off (take n (drop (unat off) content)) c)"
proof -
  let ?r = "unat off" and ?d = "take n (drop (unat off) content)"
  have ld: "length ?d = n" using len by simp
  have sum: "unat (off + word_of_nat (length ?d)) = ?r + n"
    using len unfolding ld by (simp add: unat_word_ariths unat_of_nat)
  have c16: "(off \<ge> 16384) = (16384 \<le> ?r)" "(off + word_of_nat (length ?d) \<ge> 16384) = (16384 \<le> ?r + n)"
    "(off + word_of_nat (length ?d) > 16384) = (16384 < ?r + n)"
    using sum by (simp_all add: word_le_nat_alt word_less_nat_alt)
  consider "16384 \<le> ?r" | "?r < 16384" "16384 \<le> ?r + n" | "?r + n < 16384" by linarith
  then show ?thesis
  proof cases
    case 1
    then show ?thesis
      using h md5_update_take [of "cs_contextfull c" ?r content n]
      by (auto simp: cs_hashed_def cs_update_hashes_def c16 min_absorb2) (auto simp: ms_absorbs_def)
  next
    case 2
    let ?f = "unat (16384 - off)"
    have f: "?f = 16384 - ?r" using 2 by (simp add: unat_sub word_le_nat_alt)
    have "take ?f ?d = take ?f (drop ?r content)" using 2 f by (simp add: min_def)
    then have k: "ms_absorbs (md5_update (take ?f ?d) (cs_context16k c)) (take 16384 content)"
      using h md5_update_take [of "cs_context16k c" ?r content ?f] 2 by (simp add: cs_hashed_def f min_absorb1)
    have "take 16384 content @ drop ?f ?d = take (?r + n) content"
    proof -
      have "drop ?f ?d = take (n - ?f) (drop 16384 content)" using 2 by (simp add: f drop_take)
      moreover have "16384 + (n - ?f) = ?r + n" using 2 f by simp
      ultimately show ?thesis by (simp only: take_add_drop)
    qed
    then have m: "ms_absorbs (md5_update (drop ?f ?d) (md5_update (take ?f ?d) (cs_context16k c))) (take (?r + n) content)"
      using md5_update_absorbs [OF k, of "drop ?f ?d"] by simp
    have lt: "\<not> 16384 \<le> ?r" using 2 by simp
    have "ms_absorbs x y \<Longrightarrow> length (ms_tmp x) = 64" for x y by (simp add: ms_absorbs_def)
    then show ?thesis
      using 2 h k m by (auto simp only: cs_update_hashes_def c16 lt if_False Let_def)
        (auto simp: cs_hashed_def min_absorb2 Let_def)
  next
    case 3
    then have lt: "\<not> 16384 \<le> ?r" "\<not> 16384 \<le> ?r + n" by simp_all
    show ?thesis
      using 3 h md5_update_take [of "cs_context16k c" ?r content n]
      by (simp only: cs_update_hashes_def c16 lt if_False) (simp add: cs_hashed_def min_absorb1)
  qed
qed

section \<open>Filling the buffer\<close>

lemma cs_bs_double: "cs_sized fs content c \<Longrightarrow> unat (word_of_nat (2 * cs_bs c - t) :: u64) = 2 * cs_bs c - t"
  "cs_sized fs content c \<Longrightarrow> unat (word_of_nat (cs_bs c - t) :: u64) = cs_bs c - t"
  by (auto simp: cs_sized_def unat_of_nat intro!: mod_less)

text \<open>The target of a read and how far it gets.\<close>

definition cs_target :: "checksummer \<Rightarrow> nat" where
  "cs_target c = (if cs_tailpointer c = 0 then cs_bs c else 2 * cs_bs c)"

definition cs_filled :: "bool \<Rightarrow> bytes \<Rightarrow> checksummer \<Rightarrow> nat" where
  "cs_filled longfill content c =
     (if cs_read c \<ge> length content \<or> cs_tailpointer c \<ge> cs_bs c \<and> \<not> longfill then cs_tailpointer c
      else cs_tailpointer c + min (length content - cs_read c) (cs_target c - cs_tailpointer c))"

definition cs_same :: "checksummer \<Rightarrow> checksummer \<Rightarrow> bool" where
  "cs_same c c' \<longleftrightarrow>
     cs_blocksize c' = cs_blocksize c \<and> cs_filesize c' = cs_filesize c \<and> cs_currentoffset c' = cs_currentoffset c \<and>
     cs_outpointer c' = cs_outpointer c \<and> cs_inpointer c' = cs_inpointer c \<and> cs_hasher c' = cs_hasher c \<and>
     cs_checksum c' = cs_checksum c \<and> cs_hasblockhash c' = cs_hasblockhash c \<and> cs_blockhash c' = cs_blockhash c"

lemma cs_fill_reads:
  assumes "\<not> cs_readoffset c \<ge> cs_filesize c" "\<not> (cs_tailpointer c \<ge> cs_bs c \<and> \<not> longfill)"
  shows "cs_fill longfill fs c =
    (let want = min (cs_filesize c - cs_readoffset c) (word_of_nat (cs_target c - cs_tailpointer c))
     in (case (if want > 0
               then case disk_read (cs_readoffset c) (unat want) MAX_LENGTH (cs_diskfile c) fs of
                      None \<Rightarrow> None
                    | Some (False, got, d) \<Rightarrow>
                        Some (False, c\<lparr>cs_diskfile := d, cs_buffer := memcpy (cs_buffer c) (cs_tailpointer c) got\<rparr>)
                    | Some (True, got, d) \<Rightarrow>
                        let c' = c\<lparr>cs_diskfile := d, cs_buffer := memcpy (cs_buffer c) (cs_tailpointer c) got\<rparr>;
                            c' = cs_update_hashes (cs_readoffset c') got c'
                        in Some (True, c'\<lparr>cs_readoffset := cs_readoffset c' + want,
                                         cs_tailpointer := cs_tailpointer c' + unat want\<rparr>)
               else Some (True, c)) of
           None \<Rightarrow> None
         | Some (False, c') \<Rightarrow> Some (False, c')
         | Some (True, c') \<Rightarrow>
             Some (True, if cs_target c - cs_tailpointer c' > 0
                         then c'\<lparr>cs_buffer := memset (cs_buffer c') (cs_tailpointer c') 0 (cs_target c - cs_tailpointer c')\<rparr>
                         else c')))"
  using assms by (simp only: cs_fill_def cs_target_def Let_def if_False)

lemma cs_fill_works:
  assumes s: "cs_sized fs content c" and b: "cs_buffered base content c" and h: "cs_hashed (cs_read c) content c"
  shows "\<exists>c'. cs_fill longfill fs c = Some (True, c') \<and> cs_sized fs content c' \<and> cs_buffered base content c' \<and>
    cs_hashed (cs_read c') content c' \<and> cs_same c c' \<and> cs_tailpointer c' = cs_filled longfill content c \<and>
    take (cs_tailpointer c) (cs_buffer c') = take (cs_tailpointer c) (cs_buffer c) \<and>
    drop (cs_target c) (cs_buffer c') = drop (cs_target c) (cs_buffer c) \<and>
    (cs_tailpointer c = 0 \<and> cs_read c < length content \<longrightarrow>
      take (cs_bs c) (cs_buffer c') = padded (cs_bs c) (drop base content)) \<and>
    (cs_filled longfill content c = cs_tailpointer c \<and> (cs_read c \<ge> length content \<or> cs_tailpointer c \<ge> cs_bs c \<and> \<not> longfill) \<longrightarrow> c' = c)"
proof -
  let ?bs = "cs_bs c" and ?t = "cs_tailpointer c" and ?R = "cs_read c" and ?L = "length content"
  have fsz: "unat (cs_filesize c) = ?L" using s by (simp add: cs_sized_def)
  have R: "(cs_readoffset c \<ge> cs_filesize c) = (?R \<ge> ?L)" by (simp add: word_le_nat_alt fsz)
  show ?thesis
  proof (cases "?R \<ge> ?L \<or> ?t \<ge> ?bs \<and> \<not> longfill")
    case True
    have "cs_fill longfill fs c = Some (True, c)"
      using True R by (simp only: cs_fill_def Let_def) (auto)
    moreover have "cs_filled longfill content c = ?t" using True by (simp only: cs_filled_def if_True)
    ultimately show ?thesis using True s b h by (intro exI [of _ c]) (auto simp: cs_same_def cs_sized_def)
  next
    case False
    define n where "n = min (?L - ?R) (cs_target c - ?t)"
    define want where "want = min (cs_filesize c - cs_readoffset c) (word_of_nat (cs_target c - ?t))"
    have tt: "unat (word_of_nat (cs_target c - ?t) :: u64) = cs_target c - ?t"
      using cs_bs_double [OF s] by (simp add: cs_target_def)
    have w: "unat want = n"
      using False R fsz by (simp add: want_def n_def unat_min tt unat_sub not_le)
    have t2: "?t \<le> 2 * ?bs" "?R = base + ?t" "?R \<le> ?L" using b by (auto simp: cs_buffered_def)
    have tgt: "?t \<le> cs_target c" "cs_target c \<le> 2 * ?bs" using t2 by (simp_all add: cs_target_def)
    let ?got = "take n (drop ?R content)"
    have lg: "length ?got = n" by (simp add: n_def)
    have rn: "?R + n \<le> ?L" using t2(3) min.cobounded1 [of "?L - ?R" "cs_target c - ?t"] by (simp only: n_def)
    have lb: "length (cs_buffer c) = 2 * ?bs" using s by (simp add: cs_sized_def)
    have filled: "cs_filled longfill content c = ?t + n"
      using False by (simp only: cs_filled_def n_def if_False)
    have tn: "?t + n \<le> cs_target c" using tgt by (simp add: n_def)
    \<comment> \<open>the buffer after the read and after blanking\<close>
    define buf1 where "buf1 = memcpy (cs_buffer c) ?t ?got"
    define buf2 where "buf2 = (if cs_target c - (?t + n) > 0 then memset buf1 (?t + n) 0 (cs_target c - (?t + n)) else buf1)"
    have l1: "length buf1 = 2 * ?bs" using lb tn tgt by (simp add: buf1_def lg)
    have l2: "length buf2 = 2 * ?bs" using l1 tn tgt by (simp add: buf2_def)
    have f1: "take (?t + n) buf1 = take ?t (cs_buffer c) @ ?got"
    proof -
      have "take (?t + length ?got) (memcpy (cs_buffer c) ?t ?got) = take ?t (cs_buffer c) @ ?got"
        by (rule take_memcpy) (use lb t2(1) in simp)
      then show ?thesis unfolding buf1_def lg .
    qed
    have f2: "take (?t + n) buf2 = take ?t (cs_buffer c) @ ?got"
    proof (cases "cs_target c - (?t + n) > 0")
      case True
      then show ?thesis using f1 l1 tn tgt by (simp add: buf2_def memset_def take_memcpy_before)
    qed (simp only: f1 buf2_def if_False)
    have f3: "take (cs_target c) buf2 = take ?t (cs_buffer c) @ ?got @ replicate (cs_target c - (?t + n)) 0"
    proof (cases "cs_target c - (?t + n) > 0")
      case True
      then have "take (?t + n + (cs_target c - (?t + n))) buf2 = take (?t + n) buf1 @ replicate (cs_target c - (?t + n)) 0"
        using take_memcpy [of "?t + n" buf1 "replicate (cs_target c - (?t + n)) 0"] l1 tn tgt
        by (simp add: buf2_def memset_def)
      then show ?thesis using tn f1 by simp
    next
      case False
      then have "cs_target c = ?t + n" using tn by simp
      then show ?thesis using f2 by simp
    qed
    have cont: "take (?t + n) buf2 = take (?t + n) (drop base content)"
    proof -
      have "take ?t (cs_buffer c) = take ?t (drop base content)" using b by (simp add: cs_buffered_def)
      then have "take (?t + n) buf2 = take ?t (drop base content) @ take n (drop ?t (drop base content))"
        using f2 t2(2) by (simp add: add.commute)
      then show ?thesis by (simp only: take_add_drop)
    qed
    have front: "take ?t buf2 = take ?t (cs_buffer c)"
      using arg_cong [OF f2, of "take ?t"] t2 lb by (simp add: min_def)
    have rear: "drop (cs_target c) buf2 = drop (cs_target c) (cs_buffer c)"
      using tn tgt lb l1 lg t2(1) by (simp add: buf2_def buf1_def memset_def drop_memcpy_after)
    have pad: "take ?bs buf2 = padded ?bs (drop base content)" if "?t = 0"
    proof -
      have "cs_target c = ?bs" using that by (simp add: cs_target_def)
      then have "take ?bs buf2 = ?got @ replicate (?bs - n) 0" "n = min (?L - base) ?bs"
        using f3 that t2(2) by (simp_all add: n_def)
      then show ?thesis using that t2(2) by (auto simp: padded_def min_def)
    qed
    obtain d where d: "disk_ready ReadMode content d fs"
      and main: "cs_fill longfill fs c = Some (True,
        (if n > 0 then (cs_update_hashes (cs_readoffset c) ?got (c\<lparr>cs_diskfile := d, cs_buffer := buf1\<rparr>))
            \<lparr>cs_readoffset := cs_readoffset c + want, cs_tailpointer := ?t + n\<rparr> else c)\<lparr>cs_buffer := buf2\<rparr>)"
    proof -
      have nf: "\<not> cs_readoffset c \<ge> cs_filesize c" "\<not> (?t \<ge> ?bs \<and> \<not> longfill)" using False R by simp_all
      have wn: "(want > 0) = (n > 0)" using w by (simp add: word_less_nat_alt)
      show ?thesis
      proof (cases "n > 0")
        case True
        have off: "cs_readoffset c \<le> MaxOffset"
          using t2(3) s by (simp add: word_le_nat_alt cs_sized_def)
        obtain d where r: "disk_read (cs_readoffset c) (unat want) MAX_LENGTH (cs_diskfile c) fs = Some (True, ?got, d)"
          "disk_ready ReadMode content d fs"
          using disk_read_inside [of content "cs_diskfile c" fs "cs_readoffset c" MAX_LENGTH n] s off rn
          by (auto simp: cs_sized_def w)
        show ?thesis
          by (rule that [OF r(2)])
            (simp add: cs_fill_reads [OF nf] want_def [symmetric] wn True r(1) [unfolded w] w Let_def
              buf1_def [symmetric] buf2_def)
      next
        case False
        then have "n = 0" by simp
        then have "buf1 = cs_buffer c" by (simp add: buf1_def memcpy_def)
        then show ?thesis
          using False s
          by (intro that [of "cs_diskfile c"])
            (simp_all add: cs_sized_def cs_fill_reads [OF nf] want_def [symmetric] wn Let_def buf2_def)
      qed
    qed
    have rd: "unat (cs_readoffset c + want) = ?R + n"
      using w rn s by (simp add: cs_sized_def unat_word_ariths)
    show ?thesis
    proof (cases "n > 0")
      case True
      define c' where "c' = (cs_update_hashes (cs_readoffset c) ?got (c\<lparr>cs_diskfile := d, cs_buffer := buf1\<rparr>))
            \<lparr>cs_readoffset := cs_readoffset c + want, cs_tailpointer := ?t + n, cs_buffer := buf2\<rparr>"
      have hh: "cs_hashed (?R + n) content (cs_update_hashes (cs_readoffset c) ?got (c\<lparr>cs_diskfile := d, cs_buffer := buf1\<rparr>))"
        by (rule cs_update_hashes_hashed) (use h s t2(3) in \<open>simp_all add: cs_hashed_def cs_sized_def n_def\<close>)
      have "cs_fill longfill fs c = Some (True, c')" using main True by (simp add: c'_def)
      moreover have "cs_sized fs content c'" using s d l2 by (simp add: cs_sized_def c'_def)
      moreover have "cs_buffered base content c'"
        using t2 tn tgt rd cont by (simp add: cs_buffered_def c'_def) (simp add: n_def)
      moreover have "cs_hashed (cs_read c') content c'" using hh rd by (simp add: cs_hashed_def c'_def)
      moreover have "cs_same c c'" by (simp add: cs_same_def c'_def)
      ultimately show ?thesis using filled front rear pad True
        by (intro exI [of _ c']) (simp add: c'_def)
    next
      case False
      define c' where "c' = c\<lparr>cs_buffer := buf2\<rparr>"
      have "cs_fill longfill fs c = Some (True, c')" using main False by (simp add: c'_def)
      moreover have "cs_sized fs content c'" using s l2 by (simp add: cs_sized_def c'_def)
      moreover have "cs_buffered base content c'"
        using t2 cont False by (simp add: cs_buffered_def c'_def)
      moreover have "cs_hashed (cs_read c') content c'" using h by (simp add: cs_hashed_def c'_def)
      moreover have "cs_same c c'" by (simp add: cs_same_def c'_def)
      ultimately show ?thesis
        using filled front rear pad False \<open>\<not> (?R \<ge> ?L \<or> ?t \<ge> ?bs \<and> \<not> longfill)\<close>
        by (intro exI [of _ c']) (auto simp: c'_def)
    qed
  qed
qed

section \<open>Computing the checksum\<close>

lemma window_start: "cs_outpointer c = 0 \<Longrightarrow> cs_window c = take (cs_bs c) (cs_buffer c)"
  by (simp add: cs_window_def)

text \<open>Without the multi-hash the checksum is that of the window in memory.\<close>

lemma cs_compute_single:
  assumes s: "cs_sized fs content c" and n: "cs_hasher c = None" "cs_outpointer c = 0" "\<not> cs_hasblockhash c"
  shows "cs_checked (cs_compute_checksum domd5 c)"
proof -
  have "cs_bs c \<le> length (cs_buffer c)" using s by (simp add: cs_sized_def)
  then have "md5crc_calc (cs_buffer c) (cs_bs c) 0 = (NOT (crc_update_block (NOT 0) (cs_window c)), md5 (cs_window c))"
    "crc32_calc (cs_buffer c) (cs_bs c) = NOT (crc_update_block (NOT 0) (cs_window c))"
    using md5crc_calc_eq [of "cs_bs c" "cs_buffer c" 0] crc32_calc_bytes [of "cs_bs c" "cs_buffer c"] n(2)
    by (simp_all add: window_start)
  then show ?thesis using n
    by (auto simp: cs_compute_checksum_def cs_checked_def cs_window_def)
qed

text \<open>With it, the block is fed to the hasher and the window is the block with its padding.\<close>

lemma cs_compute_multi:
  assumes s: "cs_sized fs content c" and h: "cs_hasher c = Some h" "hasher_holds (take (cs_off c) content) [] h"
    and o: "cs_outpointer c = 0" "cs_off c < length content"
    and w: "take (cs_bs c) (cs_buffer c) = padded (cs_bs c) (drop (cs_off c) content)"
  shows "cs_checked (cs_compute_checksum domd5 c) \<and>
    cs_synced (cs_off c + min (cs_bs c) (length content - cs_off c)) content (cs_compute_checksum domd5 c)"
proof -
  let ?n = "min (cs_bs c) (length content - cs_off c)"
  define bl where "bl = min (cs_blocksize c) (cs_filesize c - cs_currentoffset c)"
  have fs: "unat (cs_filesize c) = length content" using s by (simp add: cs_sized_def)
  have le: "cs_currentoffset c \<le> cs_filesize c" using o fs by (simp add: word_le_nat_alt)
  have bl: "unat bl = ?n" using le fs by (simp add: bl_def unat_min unat_sub)
  have "bl \<le> cs_blocksize c" by (simp add: bl_def)
  then have zp: "unat (cs_blocksize c - bl) = cs_bs c - ?n" using bl by (simp add: unat_sub)
  have zs: "unat (cs_blocksize c - bl) + 64 \<le> 2 ^ 64" 
  proof -
    have "cs_bs c < 2 ^ 61" using s by (simp only: cs_sized_def)
    then have "cs_bs c - ?n < 2 ^ 61" by linarith
    then show ?thesis by (simp add: zp)
  qed
  have blk: "take ?n (cs_buffer c) = take ?n (drop (cs_off c) content)"
  proof -
    have "take ?n (take (cs_bs c) (cs_buffer c)) = take ?n (drop (cs_off c) content)"
      unfolding w padded_def by simp
    then show ?thesis by (simp add: min_def split: if_splits)
  qed
  have win: "take ?n (drop (cs_off c) content) @ replicate (cs_bs c - ?n) 0 = cs_window c"
    unfolding window_start [OF o(1)] w padded_def by (simp add: min_def)
  have hh: "hasher_holds (take (cs_off c + ?n) content) (take ?n (drop (cs_off c) content))
      (hasher_update (take ?n (cs_buffer c)) h)"
    using hasher_update_holds [OF h(2), of "take ?n (cs_buffer c)"] by (simp only: blk take_add_drop append_Nil)
  obtain h' where h': "hasher_get_hash_crc (cs_blocksize c - bl) (hasher_update (take ?n (cs_buffer c)) h) =
      (md5 (cs_window c), NOT (crc_update_block (NOT 0) (cs_window c)), h')"
    "hasher_holds (take (cs_off c + ?n) content) [] h'" "hi_tmpLen h' < 64"
    using hasher_get_hash_crc_holds [OF hh zs] by (auto simp only: zp win)
  have "cs_compute_checksum domd5 c = c\<lparr>cs_hasher := Some h', cs_checksum := NOT (crc_update_block (NOT 0) (cs_window c)),
      cs_blockhash := md5 (cs_window c), cs_hasblockhash := True\<rparr>"
    using h(1) h'(1) by (simp add: cs_compute_checksum_def bl_def [symmetric] bl Let_def)
  then show ?thesis using h'(2,3) by (simp add: cs_checked_def cs_synced_def cs_window_def)
qed

lemma cs_compute_fields [simp]:
  "cs_diskfile (cs_compute_checksum d c) = cs_diskfile c" "cs_blocksize (cs_compute_checksum d c) = cs_blocksize c"
  "cs_windowtable (cs_compute_checksum d c) = cs_windowtable c" "cs_filesize (cs_compute_checksum d c) = cs_filesize c"
  "cs_currentoffset (cs_compute_checksum d c) = cs_currentoffset c" "cs_buffer (cs_compute_checksum d c) = cs_buffer c"
  "cs_outpointer (cs_compute_checksum d c) = cs_outpointer c" "cs_inpointer (cs_compute_checksum d c) = cs_inpointer c"
  "cs_tailpointer (cs_compute_checksum d c) = cs_tailpointer c" "cs_readoffset (cs_compute_checksum d c) = cs_readoffset c"
  "cs_contextfull (cs_compute_checksum d c) = cs_contextfull c" "cs_context16k (cs_compute_checksum d c) = cs_context16k c"
  "(cs_hasher (cs_compute_checksum d c) = None) = (cs_hasher c = None)"
  by (simp_all add: cs_compute_checksum_def Let_def split: option.split prod.split)

lemma cs_compute_transfers [simp]:
  "cs_sized fs content (cs_compute_checksum d c) = cs_sized fs content c"
  "cs_hashed r content (cs_compute_checksum d c) = cs_hashed r content c"
  "cs_buffered base content (cs_compute_checksum d c) = cs_buffered base content c"
  "cs_placed base content (cs_compute_checksum d c) = cs_placed base content c"
  "cs_in_step content (cs_compute_checksum d c) = cs_in_step content c"
  by (simp_all add: cs_sized_def cs_hashed_def cs_placed_def cs_buffered_def cs_in_step_def)

section \<open>Stopping the multi-hash\<close>

lemma cs_stop_hasher_inv:
  assumes s: "cs_sized fs content c" and h: "cs_hashed (cs_read c) content c" "cs_synced (cs_read c) content c"
    and i: "cs_in_step content c" "cs_inpointer c = cs_outpointer c + cs_bs c"
  obtains ctx where "cs_stop_hasher c = c\<lparr>cs_hasher := None, cs_contextfull := ctx\<rparr>"
    "cs_hashed (cs_read c) content (c\<lparr>cs_hasher := None, cs_contextfull := ctx\<rparr>)"
proof (cases "cs_hasher c")
  case None
  then show ?thesis using h(1) that [of "cs_contextfull c"] by (simp add: cs_stop_hasher_def cs_hashed_def)
next
  case (Some hh)
  have "\<not> cs_tailpointer c > cs_inpointer c" using i Some by (simp add: cs_in_step_def)
  moreover have "ms_absorbs (hasher_extract_file_md5 hh (cs_contextfull c)) (take (cs_read c) content)"
    using h Some by (auto simp: cs_hashed_def cs_synced_def intro: hasher_extract_absorbs)
  ultimately show ?thesis
    using h(1) Some that [of "hasher_extract_file_md5 hh (cs_contextfull c)"]
    by (simp add: cs_stop_hasher_def cs_hashed_def Let_def) (simp add: ms_absorbs_def)
qed

section \<open>Start\<close>

lemma cs_start_inv:
  assumes "cs_sized fs content c" "length (hi_tmp fresh) = 128"
    and "cs_context16k c = md5_single_new" "cs_contextfull c = md5_single_new" "content \<noteq> []"
    and nb: "\<not> cs_hasblockhash c"
  shows "\<exists>c'. cs_start fresh fs c = Some (True, c') \<and> cs_inv fs content c' \<and> cs_off c' = 0 \<and> cs_outpointer c' = 0 \<and>
    cs_inpointer c' = cs_bs c \<and> cs_blocksize c' = cs_blocksize c \<and>
    take (cs_bs c) (cs_buffer c') = padded (cs_bs c) content \<and> drop (cs_bs c) (cs_buffer c') = drop (cs_bs c) (cs_buffer c)"
proof -
  define c0 where "c0 = c\<lparr>cs_currentoffset := 0, cs_readoffset := 0, cs_tailpointer := 0, cs_outpointer := 0,
                cs_inpointer := cs_bs c, cs_hasher := Some (hasher_reset fresh)\<rparr>"
  have new: "ms_absorbs md5_single_new []" by (simp add: md5_single_new_def ms_absorbs_def md5_chunks_short)
  have s: "cs_sized fs content c0" using assms(1) by (simp add: cs_sized_def c0_def)
  have h: "cs_hashed (cs_read c0) content c0" using assms(3,4) new by (simp add: cs_hashed_def c0_def) (simp add: ms_absorbs_def)
  have b: "cs_buffered 0 content c0" by (simp add: cs_buffered_def c0_def)
  obtain c1 where f: "cs_fill False fs c0 = Some (True, c1)" "cs_sized fs content c1" "cs_buffered 0 content c1"
    "cs_hashed (cs_read c1) content c1" "cs_same c0 c1" "cs_tailpointer c1 = cs_filled False content c0"
    "take (cs_bs c0) (cs_buffer c1) = padded (cs_bs c0) (drop 0 content)"
    "drop (cs_target c0) (cs_buffer c1) = drop (cs_target c0) (cs_buffer c0)"
    using cs_fill_works [OF s b h, of False] assms(5) by (auto simp: c0_def)
  have bs: "0 < cs_bs c" using assms(1) by (simp add: cs_sized_def)
  have t: "cs_tailpointer c1 = min (cs_bs c1) (length content)"
    using f(5,6) assms(5) bs by (auto simp: cs_filled_def cs_target_def c0_def cs_same_def)
  have same: "cs_off c1 = 0" "cs_outpointer c1 = 0" "cs_inpointer c1 = cs_bs c1" "cs_hasher c1 = Some (hasher_reset fresh)"
    "cs_bs c1 = cs_bs c" using f(5) by (auto simp: cs_same_def c0_def)
  have hr: "hasher_holds [] [] (hasher_reset fresh)" by (rule hasher_reset_holds [OF assms(2)])
  have "cs_checked (cs_compute_checksum True c1) \<and>
      cs_synced (cs_off c1 + min (cs_bs c1) (length content - cs_off c1)) content (cs_compute_checksum True c1)"
    by (rule cs_compute_multi [OF f(2) same(4)]) (use f(7) same assms(5) hr in \<open>simp_all add: c0_def\<close>)
  moreover have "cs_read c1 = cs_tailpointer c1" using f(3) by (simp add: cs_buffered_def)
  moreover have "cs_placed 0 content c1" using f(3) same t bs assms(5) by (simp add: cs_placed_def)
  ultimately have "cs_inv fs content (cs_compute_checksum True c1)"
    using f(2,4) same t assms(5) by (auto simp: cs_inv_def cs_in_step_def)
  moreover have "cs_start fresh fs c = Some (True, cs_compute_checksum True c1)"
    using f(1) by (simp add: cs_start_def c0_def)
  ultimately show ?thesis using same f(5,7,8) by (auto simp: cs_target_def c0_def cs_same_def)
qed

section \<open>Sliding by one byte\<close>

lemma window_shift:
  assumes "0 < n" "out + n < length (buf :: 'a list)"
  obtains mid where "take n (drop out buf) = buf ! out # mid" "take n (drop (Suc out) buf) = mid @ [buf ! (out + n)]"
    "n = Suc (length mid)"
proof -
  obtain k where k: "n = Suc k" using assms(1) by (cases n) auto
  have d: "drop out buf = buf ! out # drop (Suc out) buf" using assms by (simp add: Cons_nth_drop_Suc)
  have "take (Suc k) (drop (Suc out) buf) = take k (drop (Suc out) buf) @ [drop (Suc out) buf ! k]"
    using assms k by (intro take_Suc_conv_app_nth) simp
  then have "take n (drop (Suc out) buf) = take k (drop (Suc out) buf) @ [buf ! (out + n)]"
    using assms k by simp
  then show ?thesis using that [of "take k (drop (Suc out) buf)"] d k assms by simp
qed

lemma cs_slide_inv:
  assumes s: "cs_sized fs content c" and b: "cs_buffered base content c"
    and o: "cs_off c = base + Suc (cs_outpointer c)" "cs_off c < length content"
    and p: "cs_outpointer c < cs_bs c" "cs_inpointer c = cs_outpointer c + cs_bs c"
      "Suc (cs_outpointer c) + min (cs_bs c) (length content - cs_off c) \<le> cs_tailpointer c"
    and h: "cs_hasher c = None" "\<not> cs_hasblockhash c" "cs_checksum c = NOT (crc_update_block (NOT 0) (cs_window c))"
  shows "(\<exists>base'. cs_placed base' content (cs_slide c)) \<and> cs_checked (cs_slide c) \<and> cs_sized fs content (cs_slide c) \<and>
    cs_hasher (cs_slide c) = None \<and> cs_off (cs_slide c) = cs_off c \<and> cs_read (cs_slide c) = cs_read c \<and>
    cs_hashed r content (cs_slide c) = cs_hashed r content c"
proof -
  let ?out = "cs_outpointer c" and ?bs = "cs_bs c" and ?buf = "cs_buffer c" and ?t = "cs_tailpointer c"
  have len: "length ?buf = 2 * ?bs" and bs: "0 < ?bs" using s by (simp_all add: cs_sized_def)
  obtain mid where m: "take ?bs (drop ?out ?buf) = ?buf ! ?out # mid"
    "take ?bs (drop (Suc ?out) ?buf) = mid @ [?buf ! (?out + ?bs)]" "?bs = Suc (length mid)"
    using window_shift [of ?bs ?out ?buf] bs p(1) len by auto
  define sum where "sum = crc_slide_char (cs_checksum c) (?buf ! (?out + ?bs)) (?buf ! ?out) (cs_windowtable c)"
  have crc: "sum = NOT (crc_update_block (NOT 0) (take ?bs (drop (Suc ?out) ?buf)))"
  proof -
    have w: "cs_window c = ?buf ! ?out # mid" by (simp only: cs_window_def m(1))
    have tab: "cs_windowtable c = generate_window_table (cs_blocksize c)" using s by (simp only: cs_sized_def)
    show ?thesis
      unfolding sum_def h(3) w tab m(2)
      using crc_slide_correct_rule [OF m(3), of "?buf ! ?out" "?buf ! (?out + ?bs)"] by simp
  qed
  show ?thesis
  proof (cases "Suc ?out < ?bs")
    case True
    have sl: "cs_slide c = c\<lparr>cs_inpointer := Suc (cs_inpointer c), cs_outpointer := Suc ?out, cs_checksum := sum\<rparr>"
      using True p(2) by (simp add: cs_slide_def Let_def sum_def)
    have "cs_placed base content (cs_slide c)"
      using b o p True by (simp add: sl cs_placed_def cs_buffered_def)
    then show ?thesis
      using s h crc by (auto simp: sl cs_checked_def cs_window_def cs_sized_def cs_hashed_def)
  next
    case False
    then have out: "Suc ?out = ?bs" using p(1) by simp
    define buf where "buf = memcpy ?buf 0 (take ?bs (drop ?bs ?buf))"
    have sl: "cs_slide c = c\<lparr>cs_inpointer := ?bs, cs_outpointer := 0, cs_checksum := sum, cs_buffer := buf,
        cs_tailpointer := ?t - ?bs\<rparr>"
      using False p(2) out by (simp add: cs_slide_def Let_def sum_def buf_def)
    have l: "length (take ?bs (drop ?bs ?buf)) = ?bs" using len by simp
    have lb: "length buf = 2 * ?bs" using len by (simp add: buf_def)
    have tb: "take ?bs buf = take ?bs (drop ?bs ?buf)" unfolding buf_def by (rule memcpy_front [OF l])
    have t: "?t \<le> 2 * ?bs" "cs_read c = base + ?t" "?bs \<le> ?t" "take ?t ?buf = take ?t (drop base content)"
      using b p(3) out by (simp_all add: cs_buffered_def)
    have le: "?t - ?bs \<le> ?bs" using t(1) by simp
    have "take (?t - ?bs) buf = take (?t - ?bs) (take ?bs buf)" by (simp only: take_take min_absorb1 [OF le])
    also have "\<dots> = take (?t - ?bs) (drop ?bs ?buf)" unfolding tb by (simp only: take_take min_absorb1 [OF le])
    also have "\<dots> = drop ?bs (take ?t ?buf)" by (simp only: drop_take)
    also have "\<dots> = take (?t - ?bs) (drop (base + ?bs) content)"
      unfolding t(4) drop_take drop_drop by (simp only: add.commute)
    finally have "cs_buffered (base + ?bs) content (cs_slide c)"
      using b t by (simp add: sl cs_buffered_def)
    then have "cs_placed (base + ?bs) content (cs_slide c)"
      using o p(3) out bs by (simp add: sl cs_placed_def)
    moreover have "cs_window (cs_slide c) = take ?bs (drop (Suc ?out) ?buf)"
      by (simp add: sl cs_window_def out tb)
    ultimately show ?thesis
      using s h crc lb by (auto simp: sl cs_checked_def cs_sized_def cs_hashed_def)
  qed
qed

section \<open>Steps\<close>

lemma cs_off_add:
  assumes "cs_sized fs content c" "unat d \<le> cs_bs c" "cs_off c < length content"
  shows "unat (cs_currentoffset c + d) = cs_off c + unat d"
    and "(cs_currentoffset c + d \<ge> cs_filesize c) = (cs_off c + unat d \<ge> length content)"
    and "(cs_currentoffset c \<ge> cs_filesize c) = (cs_off c \<ge> length content)"
proof -
  have "cs_bs c < 2 ^ 61" "length content < 2 ^ 61" "unat (cs_filesize c) = length content"
    using assms(1) by (simp_all only: cs_sized_def)
  then show "unat (cs_currentoffset c + d) = cs_off c + unat d" "(cs_currentoffset c + d \<ge> cs_filesize c) = (cs_off c + unat d \<ge> length content)"
    "(cs_currentoffset c \<ge> cs_filesize c) = (cs_off c \<ge> length content)"
    using assms(2,3) by (simp_all add: unat_word_ariths word_le_nat_alt)
qed

lemma cs_at_end_inv:
  assumes "cs_sized fs content c" "cs_hashed (cs_read c) content c" "cs_synced (cs_read c) content c" "cs_read c = length content"
  shows "cs_inv fs content (cs_at_end c) \<and> cs_off (cs_at_end c) = length content"
  using assms by (simp add: cs_inv_def cs_at_end_def cs_sized_def cs_hashed_def cs_synced_def)

lemma cs_placed_end:
  "cs_placed base content c \<Longrightarrow> cs_off c + cs_bs c \<ge> length content \<Longrightarrow> cs_read c = length content"
  by (auto simp: cs_placed_def cs_buffered_def)

text \<open>A step from a window inside the file, after the multi-hash was stopped.\<close>

lemma cs_step_inv:
  assumes inv: "cs_inv fs content c" and live: "cs_off c < length content"
  shows "\<exists>c'. cs_step fs c = Some (True, c') \<and> cs_inv fs content c' \<and> cs_off c' = cs_off c + 1"
proof -
  from inv live obtain base where s: "cs_sized fs content c" and h: "cs_hashed (cs_read c) content c" "cs_synced (cs_read c) content c"
    and p: "cs_placed base content c" and k: "cs_checked c" and i: "cs_in_step content c"
    by (auto simp: cs_inv_def)
  have bs: "0 < cs_bs c" using s by (simp add: cs_sized_def)
  note add = cs_off_add [OF s _ live, of 1]
  obtain ctx where st: "cs_stop_hasher c = c\<lparr>cs_hasher := None, cs_contextfull := ctx\<rparr>"
    "cs_hashed (cs_read c) content (c\<lparr>cs_hasher := None, cs_contextfull := ctx\<rparr>)"
    using cs_stop_hasher_inv [OF s h i] p by (auto simp: cs_placed_def)
  define c1 where "c1 = c\<lparr>cs_hasher := None, cs_contextfull := ctx, cs_hasblockhash := False, cs_currentoffset := cs_currentoffset c + 1\<rparr>"
  have s1: "cs_sized fs content c1" using s by (simp add: cs_sized_def c1_def)
  have h1: "cs_hashed (cs_read c1) content c1" using st(2) by (simp add: cs_hashed_def c1_def)
  have b1: "cs_buffered base content c1" using p by (simp add: cs_placed_def cs_buffered_def c1_def)
  have off1: "cs_off c1 = cs_off c + 1" using add(1) bs by (simp add: c1_def)
  have step: "cs_step fs c = (if cs_off c + 1 \<ge> length content then Some (True, cs_at_end c1)
      else if cs_tailpointer c1 \<le> cs_inpointer c1
      then case cs_fill True fs c1 of None \<Rightarrow> None | Some (False, c) \<Rightarrow> Some (False, c) | Some (True, c) \<Rightarrow> Some (True, cs_slide c)
      else Some (True, cs_slide c1))"
    using add(2,3) live bs st(1) by (simp add: cs_step_def Let_def c1_def)
  show ?thesis
  proof (cases "cs_off c + 1 \<ge> length content")
    case True
    have "cs_read c = length content" using True bs by (intro cs_placed_end [OF p]) simp
    then have "cs_inv fs content (cs_at_end c1) \<and> cs_off (cs_at_end c1) = length content"
      using s1 h1 by (intro cs_at_end_inv) (simp_all add: cs_synced_def c1_def)
    then show ?thesis using step True live by auto
  next
    case False
    have pl: "cs_off c = base + cs_outpointer c" "cs_outpointer c < cs_bs c" "cs_inpointer c = cs_outpointer c + cs_bs c"
      "cs_outpointer c + min (cs_bs c) (length content - cs_off c) \<le> cs_tailpointer c" "cs_read c = base + cs_tailpointer c"
      "cs_tailpointer c \<le> 2 * cs_bs c"
      using p by (auto simp: cs_placed_def cs_buffered_def)
    have slide: "\<exists>c'. Some (True, cs_slide c2) = Some (True, c') \<and> cs_inv fs content c' \<and> cs_off c' = cs_off c + 1"
      if c2: "cs_sized fs content c2" "cs_buffered base content c2" "cs_hashed (cs_read c2) content c2" "cs_same c1 c2"
        "cs_window c2 = cs_window c" "Suc (cs_outpointer c) + min (cs_bs c) (length content - cs_off c1) \<le> cs_tailpointer c2" for c2
    proof -
      have same: "cs_off c2 = cs_off c1" "cs_outpointer c2 = cs_outpointer c" "cs_inpointer c2 = cs_inpointer c" "cs_bs c2 = cs_bs c"
        "cs_hasher c2 = None" "\<not> cs_hasblockhash c2" "cs_checksum c2 = cs_checksum c"
        using c2(4) by (auto simp: cs_same_def c1_def)
      have "(\<exists>base'. cs_placed base' content (cs_slide c2)) \<and> cs_checked (cs_slide c2) \<and> cs_sized fs content (cs_slide c2) \<and>
          cs_hasher (cs_slide c2) = None \<and> cs_off (cs_slide c2) = cs_off c2 \<and> cs_read (cs_slide c2) = cs_read c2 \<and>
          cs_hashed (cs_read c2) content (cs_slide c2) = cs_hashed (cs_read c2) content c2"
        by (rule cs_slide_inv [OF c2(1,2)])
          (use same c2(5,6) pl False off1 k in \<open>simp_all add: cs_checked_def\<close>)
      then show ?thesis using c2(3) False off1 same(1)
        by (auto simp: cs_inv_def cs_synced_def cs_in_step_def)
    qed
    show ?thesis
    proof (cases "cs_tailpointer c1 \<le> cs_inpointer c1")
      case True
      have t1: "cs_tailpointer c1 = cs_tailpointer c" "cs_bs c1 = cs_bs c" "cs_read c1 = cs_read c" "cs_buffer c1 = cs_buffer c"
        "cs_inpointer c1 = cs_inpointer c" by (simp_all add: c1_def)
      have t0: "0 < cs_tailpointer c" using pl(4) bs live by simp
      obtain c2 where f: "cs_fill True fs c1 = Some (True, c2)" "cs_sized fs content c2" "cs_buffered base content c2"
        "cs_hashed (cs_read c2) content c2" "cs_same c1 c2" "cs_tailpointer c2 = cs_filled True content c1"
        "take (cs_tailpointer c1) (cs_buffer c2) = take (cs_tailpointer c1) (cs_buffer c1)"
        "cs_read c1 \<ge> length content \<longrightarrow> c2 = c1"
        using cs_fill_works [OF s1 b1 h1, of True] by (auto simp: cs_filled_def)
      have win: "cs_window c2 = cs_window c"
      proof (cases "cs_read c \<ge> length content")
        case True
        then show ?thesis using f(8) t1 by (simp add: cs_window_def c1_def)
      next
        case nr: False
        then have le: "cs_outpointer c + cs_bs c \<le> cs_tailpointer c" using pl by (simp add: min_def split: if_splits)
        have "take (cs_bs c) (drop (cs_outpointer c) (take (cs_tailpointer c) xs)) = take (cs_bs c) (drop (cs_outpointer c) xs)" for xs :: bytes
          using le by (simp add: drop_take min_def)
        then show ?thesis using f(5,7) t1 by (simp add: cs_window_def cs_same_def c1_def) metis
      qed
      have tail: "Suc (cs_outpointer c) + min (cs_bs c) (length content - cs_off c1) \<le> cs_tailpointer c2"
      proof (cases "cs_read c \<ge> length content")
        case True
        then show ?thesis using f(6) t1 pl off1 False by (simp add: cs_filled_def)
      next
        case nr: False
        then have "cs_tailpointer c2 = cs_tailpointer c + min (length content - cs_read c) (2 * cs_bs c - cs_tailpointer c)"
          using f(6) t1 t0 by (simp add: cs_filled_def cs_target_def)
        moreover have "min (cs_bs c) (length content - cs_off c1) \<le> cs_bs c"
          "min (cs_bs c) (length content - cs_off c1) \<le> length content - cs_off c1" by simp_all
        ultimately show ?thesis using pl(1,2,5,6) off1 False nr
          by (cases "length content - cs_read c \<le> 2 * cs_bs c - cs_tailpointer c"; simp only: min_def if_True if_False; linarith)
      qed
      show ?thesis using slide [OF f(2-5) win tail] step False True f(1) by simp
    next
      case nofill: False
      have "cs_window c1 = cs_window c" by (simp add: cs_window_def c1_def)
      moreover have "Suc (cs_outpointer c) + min (cs_bs c) (length content - cs_off c1) \<le> cs_tailpointer c1"
        using nofill pl by (simp add: c1_def)
      moreover have "cs_same c1 c1" by (simp add: cs_same_def)
      ultimately show ?thesis using slide [OF s1 b1 h1] step False nofill by simp
    qed
  qed
qed

section \<open>Jumps\<close>

lemma cs_keep_fields [simp]:
  "cs_diskfile (cs_keep c) = cs_diskfile c" "cs_blocksize (cs_keep c) = cs_blocksize c"
  "cs_windowtable (cs_keep c) = cs_windowtable c" "cs_filesize (cs_keep c) = cs_filesize c"
  "cs_currentoffset (cs_keep c) = cs_currentoffset c" "cs_readoffset (cs_keep c) = cs_readoffset c"
  "cs_outpointer (cs_keep c) = 0" "cs_inpointer (cs_keep c) = cs_bs c"
  "cs_tailpointer (cs_keep c) = cs_tailpointer c - cs_outpointer c"
  "cs_contextfull (cs_keep c) = cs_contextfull c" "cs_context16k (cs_keep c) = cs_context16k c"
  "cs_hasblockhash (cs_keep c) = cs_hasblockhash c" "cs_hasher (cs_keep c) = cs_hasher c"
  by (simp_all add: cs_keep_def Let_def)

lemma cs_fill_blocksize: "cs_fill longfill fs c = Some (r, c') \<Longrightarrow> cs_blocksize c' = cs_blocksize c"
  by (auto simp: cs_fill_def Let_def split: if_splits option.splits prod.splits bool.splits)

lemma cs_keep_buffered:
  assumes s: "cs_sized fs content c" and b: "cs_buffered base content c" and le: "cs_outpointer c \<le> cs_tailpointer c"
  shows "cs_buffered (base + cs_outpointer c) content (cs_keep c) \<and> cs_sized fs content (cs_keep c)"
proof (cases "cs_tailpointer c - cs_outpointer c > 0")
  case False
  then show ?thesis using s b le by (auto simp: cs_keep_def Let_def cs_buffered_def cs_sized_def)
next
  case True
  let ?k = "cs_tailpointer c - cs_outpointer c" and ?o = "cs_outpointer c"
  let ?buf = "memcpy (cs_buffer c) 0 (take ?k (drop ?o (cs_buffer c)))"
  have t: "cs_tailpointer c \<le> 2 * cs_bs c" "length (cs_buffer c) = 2 * cs_bs c"
    "take (cs_tailpointer c) (cs_buffer c) = take (cs_tailpointer c) (drop base content)"
    using s b by (simp_all add: cs_sized_def cs_buffered_def)
  have l: "length (take ?k (drop ?o (cs_buffer c))) = ?k" using t le by simp
  have "take ?k ?buf = take ?k (drop ?o (cs_buffer c))" by (rule memcpy_front [OF l])
  also have "\<dots> = drop ?o (take (cs_tailpointer c) (cs_buffer c))" by (simp only: drop_take)
  also have "\<dots> = take ?k (drop (base + ?o) content)" unfolding t(3) drop_take drop_drop by (simp only: add.commute)
  finally have "take ?k ?buf = take ?k (drop (base + ?o) content)" .
  then show ?thesis using True s b le t l
    by (simp add: cs_keep_def Let_def cs_buffered_def cs_sized_def)
qed

lemma cs_stop_or_keep:
  assumes s: "cs_sized fs content c" and h: "cs_hashed (cs_read c) content c" "cs_synced (cs_read c) content c"
    and p: "cs_placed base content c" and i: "cs_in_step content c"
  shows "\<exists>ctx hs. (if stop then cs_stop_hasher c else c) = c\<lparr>cs_hasher := hs, cs_contextfull := ctx\<rparr> \<and>
    cs_hashed (cs_read c) content (c\<lparr>cs_hasher := hs, cs_contextfull := ctx\<rparr>) \<and> (hs = None \<or> \<not> stop \<and> hs = cs_hasher c)"
proof (cases stop)
  case True
  obtain ctx where "cs_stop_hasher c = c\<lparr>cs_hasher := None, cs_contextfull := ctx\<rparr>"
    "cs_hashed (cs_read c) content (c\<lparr>cs_hasher := None, cs_contextfull := ctx\<rparr>)"
    using cs_stop_hasher_inv [OF s h i] p by (auto simp: cs_placed_def)
  then show ?thesis using True by auto
next
  case False
  then show ?thesis using h(1) by (intro exI [of _ "cs_contextfull c"] exI [of _ "cs_hasher c"]) simp
qed

lemma cs_compute_inv:
  assumes s: "cs_sized fs content c" and h: "cs_hashed (cs_read c) content c" and p: "cs_placed base content c"
    and o: "cs_outpointer c = 0" "\<not> cs_hasblockhash c"
    and m: "cs_hasher c \<noteq> None \<Longrightarrow> (\<exists>h. cs_hasher c = Some h \<and> hasher_holds (take (cs_off c) content) [] h) \<and>
      take (cs_bs c) (cs_buffer c) = padded (cs_bs c) (drop (cs_off c) content) \<and>
      cs_tailpointer c = min (cs_bs c) (length content - cs_off c)"
  shows "cs_inv fs content (cs_compute_checksum domd5 c)"
proof (cases "cs_hasher c")
  case None
  then have hn: "cs_hasher (cs_compute_checksum domd5 c) = None" by simp
  show ?thesis
    using s h p cs_compute_single [OF s None o]
    by (auto simp: cs_inv_def cs_placed_def cs_synced_def cs_in_step_def None hn)
next
  case (Some hh)
  have live: "cs_off c < length content" using p by (simp add: cs_placed_def)
  have "cs_read c = cs_off c + min (cs_bs c) (length content - cs_off c)"
    using p o m Some by (simp add: cs_placed_def cs_buffered_def)
  moreover have "cs_checked (cs_compute_checksum domd5 c) \<and>
      cs_synced (cs_off c + min (cs_bs c) (length content - cs_off c)) content (cs_compute_checksum domd5 c)"
    using m Some by (intro cs_compute_multi [OF s Some _ o(1) live]) auto
  ultimately show ?thesis using s h p live m Some o by (auto simp: cs_inv_def cs_in_step_def)
qed

lemma cs_jump_inv:
  assumes inv: "cs_inv fs content c" and live: "cs_off c < length content" and d0: "distance \<noteq> 0"
  shows "\<exists>c'. cs_jump distance fs c = Some (True, c') \<and> cs_inv fs content c' \<and>
    cs_off c' = min (length content) (cs_off c + min (unat distance) (cs_bs c))"
proof -
  from inv live obtain base where s: "cs_sized fs content c" and h: "cs_hashed (cs_read c) content c" "cs_synced (cs_read c) content c"
    and p: "cs_placed base content c" and k: "cs_checked c" and i: "cs_in_step content c"
    by (auto simp: cs_inv_def)
  have bs: "0 < cs_bs c" using s by (simp add: cs_sized_def)
  have nend: "\<not> cs_currentoffset c \<ge> cs_filesize c" using cs_off_add(3) [OF s _ live, of 0] live by simp
  show ?thesis
  proof (cases "distance = 1")
    case True
    then show ?thesis using cs_step_inv [OF inv live] nend d0 bs live by (auto simp: cs_jump_def)
  next
    case d1: False
    define dist where "dist = (if distance > cs_blocksize c then cs_blocksize c else distance)"
    have dist: "unat dist = min (unat distance) (cs_bs c)"
      by (auto simp: dist_def word_less_nat_alt min_def)
    then have db: "unat dist \<le> cs_bs c" by simp
    note add = cs_off_add [OF s db live]
    define stop where "stop \<longleftrightarrow> dist \<noteq> cs_blocksize c \<and> cs_currentoffset c + dist < cs_filesize c"
    obtain ctx hs where st: "(if stop then cs_stop_hasher c else c) = c\<lparr>cs_hasher := hs, cs_contextfull := ctx\<rparr>"
      "cs_hashed (cs_read c) content (c\<lparr>cs_hasher := hs, cs_contextfull := ctx\<rparr>)" "hs = None \<or> \<not> stop \<and> hs = cs_hasher c"
      using cs_stop_or_keep [OF s h p i, of stop] by blast
    define c1 where "c1 = c\<lparr>cs_hasher := hs, cs_contextfull := ctx, cs_hasblockhash := False, cs_currentoffset := cs_currentoffset c + dist\<rparr>"
    have s1: "cs_sized fs content c1" using s by (simp add: cs_sized_def c1_def)
    have h1: "cs_hashed (cs_read c1) content c1" using st(2) by (simp add: cs_hashed_def c1_def)
    have y1: "cs_synced (cs_read c1) content c1" using h(2) st(3) by (auto simp: cs_synced_def c1_def)
    have off1: "cs_off c1 = cs_off c + unat dist" using add(1) by (simp add: c1_def)
    define c2 where "c2 = cs_keep (c1\<lparr>cs_outpointer := cs_outpointer c1 + unat dist\<rparr>)"
    define keep where "keep = cs_tailpointer c1 - (cs_outpointer c1 + unat dist)"
    have jump: "cs_jump distance fs c = (if cs_off c + unat dist \<ge> length content then Some (True, cs_at_end c1)
        else if keep \<ge> cs_bs c \<and> dist = cs_blocksize c then cs_fill False fs (cs_compute_checksum True c2)
        else case cs_fill False fs c2 of None \<Rightarrow> None | Some (False, c) \<Rightarrow> Some (False, c)
             | Some (True, c) \<Rightarrow> Some (True, cs_compute_checksum (dist = cs_blocksize c) c))"
    proof -
      have stc: "(if dist \<noteq> cs_blocksize c \<and> cs_currentoffset c + dist < cs_filesize c then cs_stop_hasher c else c)
          = c\<lparr>cs_hasher := hs, cs_contextfull := ctx\<rparr>" using st(1) by (simp only: stop_def)
      show ?thesis
        using nend d0 d1 add(2)
        by (simp only: cs_jump_def Let_def if_False dist_def [symmetric] stc) (simp add: c1_def c2_def keep_def cong: if_cong split del: if_split)
    qed
    show ?thesis
    proof (cases "cs_off c + unat dist \<ge> length content")
      case True
      have "cs_read c = length content" using True db by (intro cs_placed_end [OF p]) linarith
      then have "cs_inv fs content (cs_at_end c1) \<and> cs_off (cs_at_end c1) = length content"
        using s1 h1 y1 by (intro cs_at_end_inv) (simp_all add: c1_def)
      then show ?thesis using jump True dist by (auto simp: min_def)
    next
      case False
      have pl: "cs_off c = base + cs_outpointer c" "cs_outpointer c < cs_bs c"
        "cs_outpointer c + min (cs_bs c) (length content - cs_off c) \<le> cs_tailpointer c" "cs_buffered base content c"
        using p by (auto simp: cs_placed_def)
      have le: "cs_outpointer c + unat dist \<le> cs_tailpointer c"
        using pl(3) db False by linarith
      let ?b = "base + (cs_outpointer c + unat dist)"
      have k2: "cs_buffered ?b content c2" "cs_sized fs content c2"
      proof -
        let ?c = "c1\<lparr>cs_outpointer := cs_outpointer c1 + unat dist\<rparr>"
        have o1: "cs_outpointer ?c = cs_outpointer c + unat dist" by (simp add: c1_def)
        have "cs_sized fs content ?c" using s1 by (simp add: cs_sized_def)
        moreover have "cs_buffered base content ?c" using pl(4) by (simp add: cs_buffered_def c1_def)
        moreover have "cs_outpointer ?c \<le> cs_tailpointer ?c" using le by (simp add: c1_def)
        ultimately have "cs_buffered (base + cs_outpointer ?c) content (cs_keep ?c) \<and> cs_sized fs content (cs_keep ?c)"
          by (rule cs_keep_buffered)
        then show "cs_buffered ?b content c2" "cs_sized fs content c2" unfolding o1 c2_def by simp_all
      qed
      have k2': "cs_hasher c2 = hs" "cs_off c2 = cs_off c + unat dist" "cs_outpointer c2 = 0" "cs_inpointer c2 = cs_bs c2"
        "\<not> cs_hasblockhash c2" "cs_read c2 = cs_read c" "cs_tailpointer c2 = keep" "cs_bs c2 = cs_bs c"
        using off1 by (simp_all add: c1_def c2_def keep_def)
      have h2: "cs_hashed (cs_read c2) content c2" using h1 by (simp add: cs_hashed_def c2_def)
      have place: "cs_placed ?b content c'"
        if "cs_buffered ?b content c'" "cs_same c2 c'" "min (cs_bs c) (length content - cs_off c2) \<le> cs_tailpointer c'" for c'
        using that k2' pl(1) bs False by (auto simp: cs_placed_def cs_same_def)
      have L: "cs_read c = base + cs_tailpointer c" "cs_read c \<le> length content" using pl(4) by (auto simp: cs_buffered_def)
      have off: "cs_off c2 = min (length content) (cs_off c + min (unat distance) (cs_bs c))"
        using k2'(2) False dist by simp
      show ?thesis
      proof (cases "keep \<ge> cs_bs c \<and> dist = cs_blocksize c")
        case True
        have hn: "hs = None"
        proof (rule ccontr)
          assume "hs \<noteq> None"
          then have "cs_outpointer c = 0" "cs_tailpointer c \<le> cs_bs c" using st(3) i by (auto simp: cs_in_step_def)
          moreover have "unat dist = cs_bs c" "keep = cs_tailpointer c - (cs_outpointer c + unat dist)"
            using True by (simp_all add: keep_def c1_def)
          ultimately show False using True bs le by linarith
        qed
        have "cs_placed ?b content c2"
          using True k2' k2(1) by (intro place) (simp_all add: cs_same_def min.coboundedI1)
        then have "cs_inv fs content (cs_compute_checksum True c2)"
          using k2(2) h2 k2' hn by (intro cs_compute_inv) auto
        moreover have "cs_fill False fs (cs_compute_checksum True c2) = Some (True, cs_compute_checksum True c2)"
          using True k2' by (simp add: cs_fill_def Let_def)
        ultimately show ?thesis using jump False True off by auto
      next
        case slow: False
        obtain c3 where f: "cs_fill False fs c2 = Some (True, c3)" "cs_sized fs content c3" "cs_buffered ?b content c3"
          "cs_hashed (cs_read c3) content c3" "cs_same c2 c3" "cs_tailpointer c3 = cs_filled False content c2"
          "cs_tailpointer c2 = 0 \<and> cs_read c2 < length content \<longrightarrow> take (cs_bs c2) (cs_buffer c3) = padded (cs_bs c2) (drop ?b content)"
          using cs_fill_works [OF k2(2,1) h2, of False] by blast
        have kb: "keep = cs_tailpointer c - (cs_outpointer c + unat dist)" by (simp add: keep_def c1_def)
        have t3: "min (cs_bs c) (length content - cs_off c2) \<le> cs_tailpointer c3"
        proof -
          consider "cs_read c \<ge> length content" | "keep \<ge> cs_bs c" | "cs_read c < length content" "keep < cs_bs c" by linarith
          then show ?thesis
          proof cases
            case 1
            then have "cs_tailpointer c3 = keep" "keep = length content - cs_off c2"
              using f(6) k2' L pl(1) kb by (simp_all add: cs_filled_def)
            then show ?thesis by simp
          next
            case 2
            then show ?thesis using f(6) k2' by (simp add: cs_filled_def)
          next
            case 3
            then have "cs_tailpointer c3 = keep + min (length content - cs_read c) (cs_target c2 - keep)" "cs_bs c \<le> cs_target c2"
              using f(6) k2' by (simp_all add: cs_filled_def cs_target_def)
            moreover have "length content - cs_off c2 = keep + (length content - cs_read c)"
              using L pl(1) le kb k2'(2) by simp
            ultimately show ?thesis using 3 by (simp add: min_def)
          qed
        qed
        have p3: "cs_placed ?b content c3" by (rule place [OF f(3,5) t3])
        have same: "cs_outpointer c3 = 0" "\<not> cs_hasblockhash c3" "cs_hasher c3 = hs" "cs_off c3 = cs_off c2" "cs_bs c3 = cs_bs c"
          using f(5) k2' by (auto simp: cs_same_def)
        have "cs_inv fs content (cs_compute_checksum (dist = cs_blocksize c3) c3)"
        proof (rule cs_compute_inv [OF f(2,4) p3 same(1,2)])
          assume "cs_hasher c3 \<noteq> None"
          then have hs: "hs \<noteq> None" "\<not> stop" "hs = cs_hasher c" using st(3) same(3) by auto
          then have o: "cs_outpointer c = 0" "cs_tailpointer c = min (cs_bs c) (length content - cs_off c)"
            using i by (auto simp: cs_in_step_def)
          have "dist = cs_blocksize c" using hs(2) add(2) False by (auto simp: stop_def not_less)
          then have ud: "unat dist = cs_bs c" by simp
          then have tb: "cs_tailpointer c = cs_bs c" using o False by simp
          then have k0: "keep = 0" using kb o ud by simp
          have rd: "cs_read c = cs_off c2" using L(1) tb pl(1) o ud k2'(2) by simp
          have lt: "cs_read c < length content" using rd k2'(2) False by simp
          have "cs_tailpointer c3 = min (cs_bs c3) (length content - cs_off c3)"
            using f(6) k2' k0 lt rd bs same by (simp add: cs_filled_def cs_target_def)
          moreover have "take (cs_bs c3) (cs_buffer c3) = padded (cs_bs c3) (drop (cs_off c3) content)"
            using f(7) k2' k0 lt same pl(1) by (simp add: add.assoc)
          moreover obtain hh where "hs = Some hh" "hasher_holds (take (cs_off c3) content) [] hh"
            using h(2) hs rd same by (auto simp: cs_synced_def)
          ultimately show "(\<exists>h. cs_hasher c3 = Some h \<and> hasher_holds (take (cs_off c3) content) [] h) \<and>
              take (cs_bs c3) (cs_buffer c3) = padded (cs_bs c3) (drop (cs_off c3) content) \<and>
              cs_tailpointer c3 = min (cs_bs c3) (length content - cs_off c3)"
            using same(3) by blast
        qed
        then show ?thesis using jump False slow f(1) off same by auto
      qed
    qed
  qed
qed

end
