(* ===== verification/Checksummer_Scan.thy ===== *)
theory Checksummer_Scan
  imports Checksummer_Correct
begin

unbundle bit_operations_syntax

text \<open>
  Scans: the states a \<^verbatim>\<open>FileCheckSummer\<close> reaches by steps and jumps from \<^verbatim>\<open>Start\<close>, and what its
  checksums and hashes mean in them.
\<close>

section \<open>Reachable states\<close>

inductive cs_reach :: "fs \<Rightarrow> checksummer \<Rightarrow> checksummer \<Rightarrow> bool" for fs :: fs and c :: checksummer where
  here: "cs_reach fs c c"
| step: "cs_reach fs c c' \<Longrightarrow> cs_step fs c' = Some (True, c'') \<Longrightarrow> cs_reach fs c c''"
| jump: "cs_reach fs c c' \<Longrightarrow> cs_jump d fs c' = Some (True, c'') \<Longrightarrow> cs_reach fs c c''"

text \<open>A scan of the file from its beginning.\<close>

definition cs_scans :: "fs \<Rightarrow> bytes \<Rightarrow> hasher_input \<Rightarrow> checksummer \<Rightarrow> checksummer \<Rightarrow> bool" where
  "cs_scans fs content fresh c c' \<longleftrightarrow>
     cs_sized fs content c \<and> content \<noteq> [] \<and> length (hi_tmp fresh) = 128 \<and>
     cs_context16k c = md5_single_new \<and> cs_contextfull c = md5_single_new \<and> \<not> cs_hasblockhash c \<and>
     (\<exists>c0. cs_start fresh fs c = Some (True, c0) \<and> cs_reach fs c0 c')"

lemma cs_inv_off: "cs_inv fs content c \<Longrightarrow> cs_off c \<le> length content"
  by (auto simp: cs_inv_def split: if_splits)

lemma cs_inv_at_end:
  assumes "cs_inv fs content c" "cs_off c = length content"
  shows "cs_step fs c = Some (False, c)" "cs_jump d fs c = Some (False, c)"
proof -
  have "cs_filesize c \<le> cs_currentoffset c"
    using assms by (simp add: cs_inv_def cs_sized_def word_le_nat_alt)
  then show "cs_step fs c = Some (False, c)" "cs_jump d fs c = Some (False, c)"
    by (simp_all add: cs_step_def cs_jump_def)
qed

lemma cs_jump_zero: "cs_jump 0 fs c = Some (False, c)"
  by (simp add: cs_jump_def)

lemma cs_reach_inv: "cs_reach fs c c' \<Longrightarrow> cs_inv fs content c \<Longrightarrow> cs_inv fs content c'"
proof (induction rule: cs_reach.induct)
  case (step c' c'')
  then show ?case
    using cs_step_inv [of fs content c'] cs_inv_at_end [of fs content c'] cs_inv_off [of fs content c'] by force
next
  case (jump c' d c'')
  then show ?case
    using cs_jump_inv [of fs content c' d] cs_inv_at_end [of fs content c'] cs_inv_off [of fs content c'] cs_jump_zero [of fs c']
    by (cases "d = 0") force+
qed

lemma cs_scans_inv: "cs_scans fs content fresh c c' \<Longrightarrow> cs_inv fs content c'"
  using cs_start_inv [of fs content c fresh] cs_reach_inv by (fastforce simp: cs_scans_def)

text \<open>The window of a state inside the file.\<close>

lemma cs_inv_window:
  assumes "cs_inv fs content c" "n \<le> cs_bs c" "cs_off c + n \<le> length content" "cs_off c < length content"
  shows "take n (drop (cs_outpointer c) (cs_buffer c)) = take n (drop (cs_off c) content)"
    and "length (drop (cs_outpointer c) (cs_buffer c)) \<ge> n"
proof -
  obtain base where p: "cs_placed base content c" and s: "cs_sized fs content c"
    using assms(1,4) by (auto simp: cs_inv_def)
  let ?o = "cs_outpointer c" and ?t = "cs_tailpointer c"
  have t: "take ?t (cs_buffer c) = take ?t (drop base content)" "cs_off c = base + ?o" "?o + n \<le> ?t"
    using p assms(2,3) by (auto simp: cs_placed_def cs_buffered_def)
  have cut: "take n (drop ?o xs) = take n (drop ?o (take ?t xs))" for xs :: bytes
    using t(3) by (simp add: drop_take min_def)
  show "take n (drop ?o (cs_buffer c)) = take n (drop (cs_off c) content)"
    unfolding cut [of "cs_buffer c"] t(1) cut [of "drop base content", symmetric] using t(2) by (simp add: add.commute)
  show "length (drop ?o (cs_buffer c)) \<ge> n"
    using s p t(3) assms(2) unfolding cs_sized_def cs_placed_def length_drop by linarith
qed

section \<open>What the scan delivers\<close>

lemma cs_scan_checksum_rule:
  assumes "cs_scans fs content fresh c c'" "cs_off c' + cs_bs c' \<le> length content"
  shows "cs_checksum c' = NOT 0 XOR crc_update_block (NOT 0) (take (cs_bs c') (drop (cs_off c') content)) \<and>
    cs_hash c' = md5 (take (cs_bs c') (drop (cs_off c') content))"
proof -
  have inv: "cs_inv fs content c'" by (rule cs_scans_inv [OF assms(1)])
  then have bs: "0 < cs_bs c'" by (simp add: cs_inv_def cs_sized_def)
  then have live: "cs_off c' < length content" using assms(2) by linarith
  have w: "cs_window c' = take (cs_bs c') (drop (cs_off c') content)"
    unfolding cs_window_def by (rule cs_inv_window [OF inv order.refl assms(2) live])
  have k: "cs_checked c'" using inv live by (simp add: cs_inv_def)
  have "ms_absorbs md5_single_new []" by (simp add: md5_single_new_def ms_absorbs_def md5_chunks_short)
  from md5_end_absorbs [OF md5_update_absorbs [OF this, of "cs_window c'"]]
  have "md5_end (md5_update (cs_window c') md5_single_new) = md5 (cs_window c')" by simp
  then have "cs_hash c' = md5 (cs_window c')" using k by (simp add: cs_hash_def cs_checked_def cs_window_def)
  then show ?thesis using k by (simp add: cs_checked_def w)
qed

text \<open>A scan never fails on a readable file: from every state before the end of the file a step moves one
  byte on and a jump moves by its distance, at most one block and at most to the end; at the end both
  report that there is nothing left.\<close>

lemma cs_scan_progress:
  assumes "cs_scans fs content fresh c c'" "0 < d"
  shows "if cs_off c' < length content
    then (\<exists>c''. cs_step fs c' = Some (True, c'') \<and> cs_off c'' = cs_off c' + 1) \<and>
         (\<exists>c''. cs_jump d fs c' = Some (True, c'') \<and>
           cs_off c'' = min (length content) (cs_off c' + min (unat d) (cs_bs c')))
    else cs_step fs c' = Some (False, c') \<and> cs_jump d fs c' = Some (False, c')"
proof -
  have inv: "cs_inv fs content c'" by (rule cs_scans_inv [OF assms(1)])
  show ?thesis
  proof (cases "cs_off c' < length content")
    case True
    have "d \<noteq> 0" using assms(2) by auto
    then show ?thesis using cs_step_inv [OF inv True] cs_jump_inv [OF inv True] True by auto
  next
    case False
    then have "cs_off c' = length content" using cs_inv_off [OF inv] by simp
    then show ?thesis using cs_inv_at_end [OF inv] by simp
  qed
qed

lemma cs_scan_file_hashes_rule:
  assumes "cs_scans fs content fresh c c'" "cs_off c' = length content"
  shows "cs_get_file_hashes c' = (md5 content, md5 (take 16384 content))"
proof -
  have inv: "cs_inv fs content c'" by (rule cs_scans_inv [OF assms(1)])
  then have s: "cs_sized fs content c'" and r: "cs_read c' = length content"
    and h: "cs_hashed (cs_read c') content c'" "cs_synced (cs_read c') content c'"
    using assms(2) by (auto simp: cs_inv_def)
  have fsz: "(cs_filesize c' < 16384) = (length content < 16384)"
    using s by (simp add: cs_sized_def word_less_nat_alt)
  have k: "md5_end (cs_context16k c') = md5 (take 16384 content)"
  proof -
    have "take (min (length content) 16384) content = take 16384 content" by (simp add: min_def)
    then show ?thesis using h(1) r by (metis cs_hashed_def md5_end_absorbs)
  qed
  show ?thesis
  proof (cases "length content < 16384")
    case True
    then show ?thesis using k fsz by (simp add: cs_get_file_hashes_def Let_def)
  next
    case False
    show ?thesis
    proof (cases "cs_hasher c'")
      case None
      then have "md5_end (cs_contextfull c') = md5 content"
        using h(1) r False by (auto simp: cs_hashed_def intro: md5_end_absorbs)
      then show ?thesis using k fsz False None by (simp add: cs_get_file_hashes_def Let_def)
    next
      case (Some hh)
      then have "hasher_end hh = md5 content"
        using h(2) r hasher_end_file [of content "[]" hh] by (simp add: cs_synced_def)
      then show ?thesis using k fsz False Some by (simp add: cs_get_file_hashes_def Let_def)
    qed
  qed
qed

text \<open>C25: when a scan has reached the end of the file, however it got there, \<^verbatim>\<open>GetFileHashes\<close> returns the MD5
  of the whole file and the MD5 of its first 16384 bytes.\<close>

theorem cs_scan_file_hashes:
  assumes "cs_scans fs content fresh c c'" "cs_off c' = length content"
  shows "cs_get_file_hashes c' = (md5 content, md5 (take 16384 content))"
  using assms by (rule cs_scan_file_hashes_rule)

lemma cs_scan_short_rule:
  assumes "cs_scans fs content fresh c c'" "cs_off c' < length content"
    and "unat n \<le> cs_bs c'" "cs_off c' + unat n \<le> length content"
  shows "cs_short_checksum n c' = NOT 0 XOR crc_update_block (NOT 0) (padded (cs_bs c') (take (unat n) (drop (cs_off c') content))) \<and>
    cs_short_hash n c' = md5 (padded (cs_bs c') (take (unat n) (drop (cs_off c') content)))"
proof -
  have inv: "cs_inv fs content c'" by (rule cs_scans_inv [OF assms(1)])
  let ?w = "take (unat n) (drop (cs_off c') content)" and ?buf = "drop (cs_outpointer c') (cs_buffer c')"
  have w: "take (unat n) ?buf = ?w" "unat n \<le> length ?buf"
    using cs_inv_window [OF inv assms(3,4,2)] by simp_all
  have lw: "length ?w = unat n" using assms(4) by simp
  have pad: "padded (cs_bs c') ?w = ?w @ replicate (cs_bs c' - unat n) 0"
    using assms(3) lw by (simp add: padded_def)
  have c: "crc32_calc ?buf (unat n) = NOT (crc_update_block (NOT 0) ?w)"
    using crc32_calc_bytes [OF w(2)] w(1) by simp
  have "ms_absorbs md5_single_new []" by (simp add: md5_single_new_def ms_absorbs_def md5_chunks_short)
  then have m: "ms_absorbs (md5_update ?w md5_single_new) ?w" using md5_update_absorbs [of md5_single_new "[]" ?w] by simp
  show ?thesis
  proof (cases "cs_blocksize c' > n")
    case True
    have z: "unat (cs_blocksize c' - n) = cs_bs c' - unat n" using True by (simp add: unat_sub)
    have "md5_end (md5_update_zero (cs_bs c' - unat n) (md5_update ?w md5_single_new)) = md5 (padded (cs_bs c') ?w)"
      unfolding md5_update_zero_eq pad by (rule md5_end_absorbs [OF md5_update_absorbs [OF m]])
    moreover have "NOT (crc_update_zeros (crc_update_block (NOT 0) ?w) (cs_blocksize c' - n)) =
        NOT (crc_update_block (NOT 0) (padded (cs_bs c') ?w))"
      by (simp only: crc_update_zeros_eq z pad crc_update_block_append)
    ultimately show ?thesis
      using True c w(1) z by (simp add: cs_short_checksum_def cs_short_hash_def Let_def)
  next
    case False
    then have "cs_bs c' = unat n" using assms(3) by (simp add: word_less_nat_alt)
    then have "padded (cs_bs c') ?w = ?w" using pad by simp
    then show ?thesis
      using False c w(1) md5_end_absorbs [OF m] by (simp add: cs_short_checksum_def cs_short_hash_def Let_def)
  qed
qed

text \<open>C6: what the checksums of a scan mean, whatever steps and jumps led to the state. In every state before
  the end of the file, the tail included, \<^verbatim>\<open>ShortChecksum\<close> and \<^verbatim>\<open>ShortHash\<close> of any length that fits the block
  and the file are the CRC-32 and the MD5 of that many bytes of the file from the current offset, padded with
  zeros to a block; and where the whole block lies inside the file, \<^verbatim>\<open>Checksum\<close> and \<^verbatim>\<open>Hash\<close> are the CRC-32 and
  the MD5 of the block of the file at the current offset. Of \<^verbatim>\<open>Checksum\<close> in the tail nothing is claimed: there
  the window may hold bytes that are not the file's.\<close>

theorem cs_scan_checksum:
  assumes "cs_scans fs content fresh c c'" "cs_off c' < length content"
  shows "(\<forall>n. unat n \<le> cs_bs c' \<and> cs_off c' + unat n \<le> length content \<longrightarrow>
      cs_short_checksum n c' = NOT 0 XOR crc_update_block (NOT 0) (padded (cs_bs c') (take (unat n) (drop (cs_off c') content))) \<and>
      cs_short_hash n c' = md5 (padded (cs_bs c') (take (unat n) (drop (cs_off c') content)))) \<and>
    (cs_off c' + cs_bs c' \<le> length content \<longrightarrow>
      cs_checksum c' = NOT 0 XOR crc_update_block (NOT 0) (take (cs_bs c') (drop (cs_off c') content)) \<and>
      cs_hash c' = md5 (take (cs_bs c') (drop (cs_off c') content)))"
  using cs_scan_short_rule [OF assms] cs_scan_checksum_rule [OF assms(1)] by blast

section \<open>The end of a short file\<close>

lemma cs_step_slides:
  assumes s: "cs_sized fs content c" and live: "cs_off c + 1 < length content" "cs_read c = length content"
    and o: "Suc (cs_outpointer c) < cs_bs c"
  shows "\<exists>c'. cs_step fs c = Some (True, c') \<and> cs_outpointer c' = Suc (cs_outpointer c) \<and> cs_buffer c' = cs_buffer c \<and> cs_blocksize c' = cs_blocksize c"
proof -
  have l: "cs_off c < length content" using live(1) by simp
  have add: "(cs_filesize c \<le> cs_currentoffset c) = False" "(cs_filesize c \<le> cs_currentoffset c + 1) = False"
    using cs_off_add(2,3) [OF s _ l, of 1] s live(1) by (simp_all add: cs_sized_def)
  have rd: "cs_filesize c \<le> cs_readoffset c" using s live(2) by (simp add: cs_sized_def word_le_nat_alt)
  let ?c = "(cs_stop_hasher c)\<lparr>cs_hasblockhash := False, cs_currentoffset := cs_currentoffset c + 1\<rparr>"
  have f: "cs_outpointer (cs_stop_hasher c) = cs_outpointer c" "cs_buffer (cs_stop_hasher c) = cs_buffer c"
    "cs_blocksize (cs_stop_hasher c) = cs_blocksize c" "cs_filesize (cs_stop_hasher c) = cs_filesize c"
    "cs_readoffset (cs_stop_hasher c) = cs_readoffset c" "cs_currentoffset (cs_stop_hasher c) = cs_currentoffset c"
    by (simp_all add: cs_stop_hasher_def Let_def split: option.split)
  have "cs_fill True fs ?c = Some (True, ?c)" using rd f by (simp add: cs_fill_def Let_def)
  then have "cs_step fs c = Some (True, cs_slide ?c)" using add f by (simp add: cs_step_def Let_def)
  moreover have "cs_outpointer (cs_slide ?c) = Suc (cs_outpointer c)" "cs_buffer (cs_slide ?c) = cs_buffer c"
    "cs_blocksize (cs_slide ?c) = cs_blocksize c"
    using o f by (simp_all add: cs_slide_def Let_def)
  ultimately show ?thesis by blast
qed

text \<open>C38: on a file shorter than the block size, the first step slides a byte into the checksum that was never
  written: the buffer was filled and blanked up to one block only, so \<^verbatim>\<open>Checksum\<close> depends on what the
  memory held before, where a window padded with zeros was meant.\<close>

theorem cs_step_reads_uninitialised:
  assumes "cs_scans fs content fresh c c0" "cs_start fresh fs c = Some (True, c0)"
    and "2 \<le> length content" "length content < cs_bs c"
  shows "\<exists>c'. cs_step fs c0 = Some (True, c') \<and>
    cs_checksum c' = NOT 0 XOR crc_update_block (NOT 0) (tl content @ replicate (cs_bs c - length content) 0 @ [cs_buffer c ! cs_bs c])"
proof -
  let ?bs = "cs_bs c" and ?L = "length content"
  have inv: "cs_inv fs content c0" by (rule cs_scans_inv [OF assms(1)])
  have st: "cs_off c0 = 0" "cs_outpointer c0 = 0" "cs_blocksize c0 = cs_blocksize c"
    "take ?bs (cs_buffer c0) = padded ?bs content" "drop ?bs (cs_buffer c0) = drop ?bs (cs_buffer c)"
    using cs_start_inv [of fs content c fresh] assms(1,2) by (auto simp: cs_scans_def)
  have s: "cs_sized fs content c0" using inv by (simp add: cs_inv_def)
  have lb: "length (cs_buffer c0) = 2 * ?bs" "length (cs_buffer c) = 2 * ?bs"
    using s st(3) assms(1) by (simp_all add: cs_sized_def cs_scans_def)
  have live: "cs_off c0 < ?L" using st(1) assms(3) by linarith
  have "cs_read c0 = ?L"
  proof -
    obtain base where "cs_placed base content c0" using inv live by (auto simp: cs_inv_def)
    then show ?thesis using st(1,3) assms(4) by (auto intro!: cs_placed_end)
  qed
  then obtain c' where c': "cs_step fs c0 = Some (True, c')" "cs_outpointer c' = 1" "cs_buffer c' = cs_buffer c0"
    "cs_blocksize c' = cs_blocksize c"
    using cs_step_slides [OF s, of] st assms(3,4) by auto
  have i': "cs_inv fs content c'" "cs_off c' = 1" using cs_step_inv [OF inv live] c'(1) st(1) by auto
  then have "cs_checked c'" using assms(3) by (simp add: cs_inv_def)
  then have ck: "cs_checksum c' = NOT (crc_update_block (NOT 0) (take ?bs (drop 1 (cs_buffer c0))))"
    using c'(2-4) by (simp add: cs_checked_def cs_window_def)
  have b0: "0 < ?bs" "1 < ?bs" using assms(3,4) by simp_all
  have "take ?bs (drop 1 (cs_buffer c0)) = drop 1 (take (1 + ?bs) (cs_buffer c0))" by (simp add: drop_take)
  also have "take (1 + ?bs) (cs_buffer c0) = take ?bs (cs_buffer c0) @ [cs_buffer c0 ! ?bs]"
    using lb b0 by (simp add: take_Suc_conv_app_nth)
  also have "cs_buffer c0 ! ?bs = cs_buffer c ! ?bs"
    using arg_cong [OF st(5), of hd] lb b0 by (simp add: hd_drop_conv_nth)
  also have "take ?bs (cs_buffer c0) = content @ replicate (?bs - ?L) 0"
    using st(4) assms(4) by (simp add: padded_def)
  also have "drop 1 ((content @ replicate (?bs - ?L) 0) @ [cs_buffer c ! ?bs]) = tl content @ replicate (?bs - ?L) 0 @ [cs_buffer c ! ?bs]"
    using assms(3) by (cases content) auto
  finally show ?thesis using c'(1) ck by auto
qed

section \<open>Witnesses\<close>

definition ex_summer :: "u8 \<Rightarrow> bytes \<Rightarrow> checksummer" where
  "ex_summer junk content =
     cs_new (replicate 8 junk) (sample_disk ReadMode (word_of_nat (length content))) 4 (generate_window_table 4)"

lemma ex_summer_scans:
  assumes "content \<noteq> []" "length content < 100"
  obtains c where "cs_scans (sample_fs content) content ex_hasher (ex_summer junk content) c"
    "cs_start ex_hasher (sample_fs content) (ex_summer junk content) = Some (True, c)" "cs_off c = 0" "cs_bs c = 4"
proof -
  have s: "cs_sized (sample_fs content) content (ex_summer junk content)"
    using assms(2) by (simp add: ex_summer_def cs_new_def cs_sized_def sample_ready unat_of_nat) (simp add: sample_disk_def unat_of_nat)
  have i: "length (hi_tmp ex_hasher) = 128" "cs_context16k (ex_summer junk content) = md5_single_new"
    "cs_contextfull (ex_summer junk content) = md5_single_new" "\<not> cs_hasblockhash (ex_summer junk content)"
    "cs_blocksize (ex_summer junk content) = 4"
    by (simp_all add: ex_hasher_def ex_summer_def cs_new_def)
  obtain c where "cs_start ex_hasher (sample_fs content) (ex_summer junk content) = Some (True, c)" "cs_off c = 0" "cs_blocksize c = 4"
    using cs_start_inv [OF s i(1-3) assms(1) i(4)] i(5) by auto
  then show ?thesis using that [of c] s i assms(1) by (auto simp: cs_scans_def intro: cs_reach.here)
qed

theorem cs_scan_checksum_witness:
  "\<exists>c. cs_scans (sample_fs [1, 2, 3, 4, 5]) [1, 2, 3, 4, 5] ex_hasher (ex_summer 7 [1, 2, 3, 4, 5]) c \<and>
    cs_checksum c = NOT 0 XOR crc_update_block (NOT 0) [1, 2, 3, 4] \<and> cs_hash c = md5 [1, 2, 3, 4] \<and>
    cs_short_checksum 3 c = NOT 0 XOR crc_update_block (NOT 0) [1, 2, 3, 0] \<and> cs_short_hash 3 c = md5 [1, 2, 3, 0]"
proof -
  obtain c where c: "cs_scans (sample_fs [1, 2, 3, 4, 5]) [1, 2, 3, 4, 5] ex_hasher (ex_summer 7 [1, 2, 3, 4, 5]) c"
    "cs_off c = 0" "cs_bs c = 4"
    using ex_summer_scans [of "[1, 2, 3, 4, 5]" 7] by auto
  have short: "cs_short_checksum 3 c = NOT 0 XOR crc_update_block (NOT 0) [1, 2, 3, 0]" "cs_short_hash 3 c = md5 [1, 2, 3, 0]"
    using cs_scan_checksum [OF c(1), THEN conjunct1, THEN spec, of 3] c(2,3) by (simp_all add: padded_def)
  have "cs_checksum c = NOT 0 XOR crc_update_block (NOT 0) [1, 2, 3, 4]" "cs_hash c = md5 [1, 2, 3, 4]"
    using cs_scan_checksum [OF c(1), THEN conjunct2] c(2,3) by simp_all
  then show ?thesis using c(1) short by blast
qed

theorem cs_scan_file_hashes_witness:
  "\<exists>c. cs_scans (sample_fs [9]) [9] ex_hasher (ex_summer 7 [9]) c \<and> cs_get_file_hashes c = (md5 [9], md5 [9])"
proof -
  obtain c where c: "cs_scans (sample_fs [9]) [9] ex_hasher (ex_summer 7 [9]) c" "cs_off c = 0"
    using ex_summer_scans [of "[9]" 7] by auto
  obtain c' where c': "cs_step (sample_fs [9]) c = Some (True, c')" "cs_off c' = 1"
    using cs_step_inv [OF cs_scans_inv [OF c(1)]] c(2) by auto
  have "cs_scans (sample_fs [9]) [9] ex_hasher (ex_summer 7 [9]) c'"
    using c(1) c'(1) by (auto simp: cs_scans_def intro: cs_reach.step)
  then show ?thesis using cs_scan_file_hashes [of "sample_fs [9]" "[9]" ex_hasher "ex_summer 7 [9]" c'] c'(2) by auto
qed

theorem cs_step_reads_uninitialised_witness:
  "\<exists>c c'. cs_step (sample_fs [5, 6]) c = Some (True, c') \<and> cs_start ex_hasher (sample_fs [5, 6]) (ex_summer 7 [5, 6]) = Some (True, c) \<and>
    cs_checksum c' = NOT 0 XOR crc_update_block (NOT 0) [6, 0, 0, 7]"
proof -
  obtain c where c: "cs_scans (sample_fs [5, 6]) [5, 6] ex_hasher (ex_summer 7 [5, 6]) c"
    "cs_start ex_hasher (sample_fs [5, 6]) (ex_summer 7 [5, 6]) = Some (True, c)"
    using ex_summer_scans [of "[5, 6]" 7] by auto
  have e: "cs_bs (ex_summer 7 [5, 6]) = 4" "cs_buffer (ex_summer 7 [5, 6]) ! 4 = 7"
    by (simp_all add: ex_summer_def cs_new_def)
  show ?thesis using cs_step_reads_uninitialised [OF c] c(2) e by (auto simp: numeral_2_eq_2)
qed

end
