(* ===== verification/VerificationTable.thy ===== *)
theory VerificationTable
  imports Checksummer_Scan
begin

unbundle bit_operations_syntax

text \<open>
  \<^verbatim>\<open>verificationhashtable.h\<close> and \<^verbatim>\<open>verificationhashtable.cpp\<close>: the table that maps the CRC and MD5 of a
  block to the source blocks that should have them, and \<^verbatim>\<open>FindMatch\<close>, which decides what block the
  window of the checksummer is. Entries are addressed by their index in a list of all entries;
  a bucket is a binary tree ordered by CRC and hash, whose nodes carry the chain of entries with
  the same key (\<^verbatim>\<open>Same\<close>). The hashes compare as in \<^verbatim>\<open>md5.h\<close>, from the last byte down.
\<close>

section \<open>Comparing hashes\<close>

text \<open>\<^verbatim>\<open>MD5Hash::operator<\<close>: the loop leaves at the highest differing byte, or at byte 0.\<close>

fun md5_less_at :: "nat \<Rightarrow> bytes \<Rightarrow> bytes \<Rightarrow> bool" where
  "md5_less_at 0 a b \<longleftrightarrow> a ! 0 < b ! 0"
| "md5_less_at (Suc index) a b \<longleftrightarrow>
     (if a ! Suc index = b ! Suc index then md5_less_at index a b else a ! Suc index < b ! Suc index)"

definition md5_less :: "bytes \<Rightarrow> bytes \<Rightarrow> bool" where
  "md5_less a b = md5_less_at 15 a b"

section \<open>Entries and trees\<close>

record vh_entry =
  ve_sourcefile :: nat
  ve_datablock :: nat
  ve_firstblock :: bool
  ve_crc :: u32
  ve_hash :: bytes
  ve_next :: "nat option"

definition ve_less :: "vh_entry \<Rightarrow> vh_entry \<Rightarrow> bool" where
  "ve_less l r \<longleftrightarrow> ve_crc l < ve_crc r \<or> ve_crc l = ve_crc r \<and> md5_less (ve_hash l) (ve_hash r)"

definition ve_greater :: "vh_entry \<Rightarrow> vh_entry \<Rightarrow> bool" where
  "ve_greater l r \<longleftrightarrow> ve_crc l > ve_crc r \<or> ve_crc l = ve_crc r \<and> md5_less (ve_hash r) (ve_hash l)"

text \<open>A node: left child, entry, the further entries on its \<^verbatim>\<open>same\<close> chain, right child.\<close>

datatype vtree = VLeaf | VNode vtree nat "nat list" vtree

fun vt_insert :: "vh_entry list \<Rightarrow> nat \<Rightarrow> vtree \<Rightarrow> vtree" where
  "vt_insert es n VLeaf = VNode VLeaf n [] VLeaf"
| "vt_insert es n (VNode l m same r) =
     (if ve_less (es ! m) (es ! n) then VNode l m same (vt_insert es n r)
      else if ve_greater (es ! m) (es ! n) then VNode (vt_insert es n l) m same r
      else VNode l m (same @ [n]) r)"

fun vt_search_crc :: "vh_entry list \<Rightarrow> u32 \<Rightarrow> vtree \<Rightarrow> vtree" where
  "vt_search_crc es crc VLeaf = VLeaf"
| "vt_search_crc es crc (VNode l m same r) =
     (if ve_crc (es ! m) < crc then vt_search_crc es crc r
      else if ve_crc (es ! m) > crc then vt_search_crc es crc l
      else VNode l m same r)"

fun vt_search_key :: "vh_entry list \<Rightarrow> u32 \<Rightarrow> bytes \<Rightarrow> vtree \<Rightarrow> vtree" where
  "vt_search_key es crc hash VLeaf = VLeaf"
| "vt_search_key es crc hash (VNode l m same r) =
     (if ve_crc (es ! m) < crc \<or> ve_crc (es ! m) = crc \<and> md5_less (ve_hash (es ! m)) hash
      then vt_search_key es crc hash r
      else if ve_crc (es ! m) > crc \<or> ve_crc (es ! m) = crc \<and> md5_less hash (ve_hash (es ! m))
      then vt_search_key es crc hash l
      else VNode l m same r)"

text \<open>The second search starts at a node and looks for its CRC and the given hash.\<close>

definition vt_search_hash :: "vh_entry list \<Rightarrow> bytes \<Rightarrow> vtree \<Rightarrow> vtree" where
  "vt_search_hash es hash t =
     (case t of VLeaf \<Rightarrow> VLeaf | VNode l m same r \<Rightarrow> vt_search_key es (ve_crc (es ! m)) hash t)"

section \<open>The table\<close>

record vtable =
  vt_entries :: "vh_entry list"
  vt_hashtable :: "vtree list"
  vt_hashmask :: u32

text \<open>\<^verbatim>\<open>SetLimit\<close> doubles from 256; the guard against 0, which does not occur, makes the loop total.\<close>

function vt_limit_loop :: "u32 \<Rightarrow> u32 \<Rightarrow> u32" where
  "vt_limit_loop limit hashmask =
     (if hashmask < limit \<and> hashmask < 65536 \<and> hashmask \<noteq> 0 then vt_limit_loop limit (push_bit 1 hashmask) else hashmask)"
  by pat_completeness auto
termination
proof (relation "measure (\<lambda>(_, h). 65536 - unat h)", goal_cases)
  case (2 limit h)
  then have "unat h < 65536" "0 < unat h" by (simp_all add: word_less_nat_alt unat_gt_0)
  moreover have "unat (push_bit 1 h) = 2 * unat h"
    using \<open>unat h < 65536\<close> by (simp add: push_bit_eq_mult unat_word_ariths)
  ultimately show ?case by simp
qed simp

declare vt_limit_loop.simps [simp del]

definition vt_set_limit :: "u32 \<Rightarrow> vtable \<Rightarrow> vtable" where
  "vt_set_limit limit t =
     (let hashmask = vt_limit_loop limit 256
      in t\<lparr>vt_hashtable := replicate (unat hashmask) VLeaf, vt_hashmask := hashmask - 1\<rparr>)"

text \<open>One round of \<^verbatim>\<open>Load\<close>: the block number, the previous entry and the verification entry.\<close>

definition vt_load_entry :: "nat \<Rightarrow> nat \<Rightarrow> nat \<times> (bytes \<times> u32) \<Rightarrow> nat option \<times> vtable \<Rightarrow> nat option \<times> vtable" where
  "vt_load_entry sourcefile firstblock b s =
     (case (b, s) of
        ((blocknumber, (hash, crc)), (preventry, t)) \<Rightarrow>
          let n = length (vt_entries t);
              e = \<lparr>ve_sourcefile = sourcefile, ve_datablock = firstblock + blocknumber, ve_firstblock = (blocknumber = 0),
                   ve_crc = crc, ve_hash = hash, ve_next = None\<rparr>;
              es = vt_entries t @ [e];
              bucket = unat (crc AND vt_hashmask t);
              t = t\<lparr>vt_entries := es, vt_hashtable := (vt_hashtable t)[bucket := vt_insert es n (vt_hashtable t ! bucket)]\<rparr>;
              t = (case preventry of
                     None \<Rightarrow> t
                   | Some p \<Rightarrow> t\<lparr>vt_entries := (vt_entries t)[p := (vt_entries t ! p)\<lparr>ve_next := Some n\<rparr>]\<rparr>)
          in (Some n, t))"

definition vt_load :: "nat \<Rightarrow> nat \<Rightarrow> (bytes \<times> u32) list \<Rightarrow> vtable \<Rightarrow> vtable" where
  "vt_load sourcefile firstblock entries t =
     snd (fold (vt_load_entry sourcefile firstblock) (enumerate 0 entries) (None, t))"

section \<open>Finding a match\<close>

text \<open>
  What \<^verbatim>\<open>FindMatch\<close> reads besides the table: the blocks and disk files (for \<^verbatim>\<open>IsSet\<close>), and which
  source files are complete.
\<close>

record match_context =
  mc_blocks :: "nat \<Rightarrow> datablock"
  mc_store :: disk_store
  mc_complete :: "nat \<Rightarrow> bool"
  mc_diskfile :: nat

definition ve_is_set :: "match_context \<Rightarrow> vh_entry \<Rightarrow> bool" where
  "ve_is_set mc e = db_is_set (mc_store mc) (mc_blocks mc (ve_datablock e))"

definition ve_length :: "match_context \<Rightarrow> vh_entry \<Rightarrow> u64" where
  "ve_length mc e = db_length (mc_blocks mc (ve_datablock e))"

definition ve_wrong_length :: "match_context \<Rightarrow> checksummer \<Rightarrow> vh_entry \<Rightarrow> bool" where
  "ve_wrong_length mc c e \<longleftrightarrow> cs_short_block c \<and> cs_block_length c \<noteq> ve_length mc e"

text \<open>The suggested entry: \<open>Inl\<close> is the early return, \<open>Inr\<close> the hash computed so far.\<close>

definition fm_suggested :: "vtable \<Rightarrow> match_context \<Rightarrow> nat option \<Rightarrow> checksummer \<Rightarrow> nat + bytes option" where
  "fm_suggested t mc suggested c =
     (case suggested of
        None \<Rightarrow> Inr None
      | Some s \<Rightarrow>
          let e = vt_entries t ! s
          in if ve_next e = None
             then let len = ve_length mc e
                  in if cs_short_checksum len c = ve_crc e
                     then let hash = cs_short_hash len c
                          in if hash = ve_hash e then Inl s else Inr (Some hash)
                     else Inr None
             else if \<not> ve_is_set mc e \<and> ve_crc e = cs_checksum c
             then let hash = cs_hash c
                  in if hash = ve_hash e then Inl s else Inr (Some hash)
             else Inr None)"

text \<open>A key with a single entry; the flag is \<^verbatim>\<open>duplicate\<close>.\<close>

definition fm_single :: "vtable \<Rightarrow> match_context \<Rightarrow> nat option \<Rightarrow> checksummer \<Rightarrow> nat \<Rightarrow> nat option \<times> bool" where
  "fm_single t mc suggested c n =
     (let e = vt_entries t ! n
      in if mc_complete mc (ve_sourcefile e) then (None, True)
         else if ve_wrong_length mc c e then (None, False)
         else if ve_firstblock e \<and> cs_currentoffset c = 0 then (Some n, False)
         else if Some n = suggested
         then if ve_is_set mc e \<and> db_diskfile (mc_blocks mc (ve_datablock e)) = Some (mc_diskfile mc)
              then (None, True) else (Some n, False)
         else if ve_is_set mc e then (None, True) else (Some n, False))"

text \<open>
  The walk along the chain for the preferred source file: the entry found, and the rest of the
  chain from the first usable entry of another file.
\<close>

fun fm_prefer :: "vtable \<Rightarrow> match_context \<Rightarrow> nat \<Rightarrow> checksummer \<Rightarrow> nat list \<Rightarrow> nat list \<Rightarrow> nat option \<times> nat list" where
  "fm_prefer t mc sourcefile c nextentry [] = (None, nextentry)"
| "fm_prefer t mc sourcefile c nextentry (n # same) =
     (let e = vt_entries t ! n
      in if ve_sourcefile e \<noteq> sourcefile \<or> ve_is_set mc e \<or> ve_wrong_length mc c e
         then fm_prefer t mc sourcefile c
                (if nextentry = [] \<and> \<not> (ve_is_set mc e \<or> ve_wrong_length mc c e) then n # same else nextentry) same
         else (Some n, nextentry))"

fun fm_unused :: "vtable \<Rightarrow> match_context \<Rightarrow> checksummer \<Rightarrow> nat list \<Rightarrow> nat option" where
  "fm_unused t mc c [] = None"
| "fm_unused t mc c (n # same) =
     (let e = vt_entries t ! n
      in if ve_is_set mc e \<or> ve_wrong_length mc c e then fm_unused t mc c same else Some n)"

definition fm_many :: "vtable \<Rightarrow> match_context \<Rightarrow> nat option \<Rightarrow> checksummer \<Rightarrow> nat list \<Rightarrow> nat option" where
  "fm_many t mc sourcefile c chain =
     (case sourcefile of
        None \<Rightarrow> fm_unused t mc c chain
      | Some f \<Rightarrow>
          (case fm_prefer t mc f c [] chain of
             (Some n, _) \<Rightarrow> Some n
           | (None, nextentry) \<Rightarrow> fm_unused t mc c nextentry))"

definition vt_find_match ::
  "vtable \<Rightarrow> match_context \<Rightarrow> nat option \<Rightarrow> nat option \<Rightarrow> checksummer \<Rightarrow> nat option \<times> bool" where
  "vt_find_match t mc suggested sourcefile c =
     (let crc = cs_checksum c
      in case fm_suggested t mc suggested c of
           Inl s \<Rightarrow> (Some s, False)
         | Inr havehash \<Rightarrow>
             let es = vt_entries t;
                 found = vt_search_crc es crc (vt_hashtable t ! unat (crc AND vt_hashmask t))
             in if found = VLeaf then (None, False)
                else let hash = (case havehash of Some h \<Rightarrow> h | None \<Rightarrow> cs_hash c)
                     in case vt_search_hash es hash found of
                          VLeaf \<Rightarrow> (None, False)
                        | VNode _ n same _ \<Rightarrow>
                            if same = [] then fm_single t mc suggested c n
                            else (fm_many t mc sourcefile c (n # same), False))"

end
