(* ===== verification/Table_Correct.thy ===== *)
theory Table_Correct
  imports VerificationTable
begin

unbundle bit_operations_syntax

text \<open>
  The verification table as a map from CRC and hash to the entries with that key, in the order of
  loading, and what \<^verbatim>\<open>FindMatch\<close> may return. The trees need no balance and no order for this: a
  search takes the path the insertion took.
\<close>

section \<open>Hashes as numbers\<close>

fun md5_value :: "bytes \<Rightarrow> nat" where
  "md5_value [] = 0"
| "md5_value (b # bs) = unat b + 256 * md5_value bs"

lemma md5_value_snoc: "md5_value (bs @ [b]) = md5_value bs + 256 ^ length bs * unat b"
  by (induction bs) (simp_all add: algebra_simps)

lemma md5_value_less: "md5_value bs < 256 ^ length bs"
proof (induction bs)
  case (Cons b bs)
  have "unat b < 256" using unsigned_less [of b] by simp
  with Cons show ?case by simp
qed simp

lemma unat_u8_cong: "unat a mod 256 = unat b mod 256 \<Longrightarrow> a = b" for a b :: u8
proof -
  assume "unat a mod 256 = unat b mod 256"
  moreover have "unat a < 256" "unat b < 256" using unsigned_less [of a] unsigned_less [of b] by simp_all
  ultimately show ?thesis by (simp add: word_unat_eq_iff)
qed

lemma md5_value_inj: "length as = length bs \<Longrightarrow> md5_value as = md5_value bs \<Longrightarrow> as = bs"
proof (induction as bs rule: list_induct2)
  case (Cons a as b bs)
  then have "(unat a + 256 * md5_value as) mod 256 = (unat b + 256 * md5_value bs) mod 256" by simp
  then have "a = b" by (intro unat_u8_cong) (simp only: mod_mult_self2)
  with Cons show ?case by simp
qed simp

lemma md5_less_at_append: "length a = Suc n \<Longrightarrow> length b = Suc n \<Longrightarrow> md5_less_at n (a @ x) (b @ y) = md5_less_at n a b"
proof -
  have "i \<le> n \<Longrightarrow> length a = Suc n \<Longrightarrow> length b = Suc n \<Longrightarrow> md5_less_at i (a @ x) (b @ y) = md5_less_at i a b" for i
    by (induction i) (simp_all add: nth_append)
  from this [of n] show "length a = Suc n \<Longrightarrow> length b = Suc n \<Longrightarrow> ?thesis" by simp
qed

lemma digits_less: "a < m \<Longrightarrow> b < m \<Longrightarrow> (a + m * x < b + m * y) = (if x = y then a < b else x < y)" for a b m x y :: nat
proof (cases "x < y")
  case True
  assume "a < m"
  have "m * Suc x \<le> m * y" using True by (intro mult_le_mono2) simp
  with \<open>a < m\<close> True show ?thesis by simp
next
  case False
  assume "b < m"
  show ?thesis
  proof (cases "x = y")
    case ne: False
    then have "m * Suc y \<le> m * x" using False by (intro mult_le_mono2) simp
    with \<open>b < m\<close> ne False show ?thesis by simp
  qed simp
qed

lemma md5_less_at_value: "length a = Suc n \<Longrightarrow> length b = Suc n \<Longrightarrow> md5_less_at n a b \<longleftrightarrow> md5_value a < md5_value b"
proof (induction n arbitrary: a b)
  case 0
  then show ?case by (auto simp: length_Suc_conv word_less_nat_alt)
next
  case (Suc n)
  obtain a' x where a: "a = a' @ [x]" using Suc.prems(1) by (cases a rule: rev_cases) auto
  obtain b' y where b: "b = b' @ [y]" using Suc.prems(2) by (cases b rule: rev_cases) auto
  have s: "a = a' @ [x]" "b = b' @ [y]" "length a' = Suc n" "length b' = Suc n" using a b Suc.prems by simp_all
  have "md5_less_at (Suc n) a b = (if x = y then md5_less_at n a' b' else x < y)"
    using s by (simp add: md5_less_at_append nth_append)
  also have "\<dots> = (if unat x = unat y then md5_value a' < md5_value b' else unat x < unat y)"
    unfolding Suc.IH [OF s(3,4)] by (simp only: word_less_nat_alt word_unat_eq_iff [of x y])
  also have "\<dots> = (md5_value a < md5_value b)"
    using digits_less [of "md5_value a'" "256 ^ Suc n" "md5_value b'" "unat x" "unat y"] md5_value_less [of a'] md5_value_less [of b'] s
    by (simp add: md5_value_snoc)
  finally show ?case .
qed

section \<open>Keys\<close>

definition vt_key :: "u32 \<Rightarrow> bytes \<Rightarrow> nat" where
  "vt_key crc hash = md5_value hash + 256 ^ 16 * unat crc"

definition ve_key :: "vh_entry \<Rightarrow> nat" where
  "ve_key e = vt_key (ve_crc e) (ve_hash e)"

lemma vt_key_less:
  assumes "length h = 16" "length h' = 16"
  shows "vt_key c h < vt_key c' h' \<longleftrightarrow> c < c' \<or> c = c' \<and> md5_less h h'"
proof -
  have "md5_less h h' = (md5_value h < md5_value h')"
    using md5_less_at_value [of h 15 h'] assms by (simp add: md5_less_def)
  then show ?thesis
    using digits_less [of "md5_value h" "256 ^ 16" "md5_value h'" "unat c" "unat c'"] md5_value_less [of h] md5_value_less [of h'] assms
    by (auto simp: vt_key_def word_less_nat_alt word_unat_eq_iff)
qed

lemma vt_key_inj:
  assumes "length h = 16" "length h' = 16" "vt_key c h = vt_key c' h'"
  shows "c = c' \<and> h = h'"
proof -
  have "\<not> vt_key c h < vt_key c' h'" "\<not> vt_key c' h' < vt_key c h" using assms(3) by simp_all
  then have c: "c = c'" using assms(1,2) by (auto simp: vt_key_less)
  then have "md5_value h = md5_value h'" using assms(3) by (simp add: vt_key_def)
  then show ?thesis using c md5_value_inj [of h h'] assms(1,2) by simp
qed

section \<open>Trees\<close>

fun vt_nodes :: "vtree \<Rightarrow> nat set" where
  "vt_nodes VLeaf = {}"
| "vt_nodes (VNode l m same r) = vt_nodes l \<union> {m} \<union> set same \<union> vt_nodes r"

fun vt_chain :: "(nat \<Rightarrow> nat) \<Rightarrow> nat \<Rightarrow> vtree \<Rightarrow> nat list" where
  "vt_chain key k VLeaf = []"
| "vt_chain key k (VNode l m same r) =
     (if key m < k then vt_chain key k r else if k < key m then vt_chain key k l else m # same)"

lemma vt_chain_cong: "(\<And>i. i \<in> vt_nodes t \<Longrightarrow> key i = key' i) \<Longrightarrow> vt_chain key k t = vt_chain key' k t"
  by (induction t) auto

definition hashes_ok :: "vh_entry list \<Rightarrow> bool" where
  "hashes_ok es \<longleftrightarrow> (\<forall>e\<in>set es. length (ve_hash e) = 16)"

lemma hashes_okD: "hashes_ok es \<Longrightarrow> i < length es \<Longrightarrow> length (ve_hash (es ! i)) = 16"
  by (simp add: hashes_ok_def)

lemma vt_insert_nodes: "vt_nodes (vt_insert es n t) = insert n (vt_nodes t)"
  by (induction t) auto

lemma vt_insert_chain:
  assumes "hashes_ok es" "n < length es" "\<forall>i\<in>vt_nodes t. i < length es"
  shows "vt_chain (\<lambda>i. ve_key (es ! i)) k (vt_insert es n t) =
      vt_chain (\<lambda>i. ve_key (es ! i)) k t @ (if ve_key (es ! n) = k then [n] else [])"
  using assms(3)
proof (induction t)
  case (VNode l m same r)
  have less: "ve_less (es ! m) (es ! n) = (ve_key (es ! m) < ve_key (es ! n))"
    "ve_greater (es ! m) (es ! n) = (ve_key (es ! n) < ve_key (es ! m))"
    using VNode.prems assms(1,2) by (auto simp: ve_less_def ve_greater_def ve_key_def vt_key_less hashes_okD)
  show ?case using VNode by (auto simp: less)
qed simp

lemma vt_search_key_chain:
  assumes "hashes_ok es" "\<forall>i\<in>vt_nodes t. i < length es" "length hash = 16"
  shows "vt_chain (\<lambda>i. ve_key (es ! i)) (vt_key crc hash) t =
    (case vt_search_key es crc hash t of VLeaf \<Rightarrow> [] | VNode _ n same _ \<Rightarrow> n # same)"
  using assms(2)
proof (induction t)
  case (VNode l m same r)
  have "(ve_key (es ! m) < vt_key crc hash) = (ve_crc (es ! m) < crc \<or> ve_crc (es ! m) = crc \<and> md5_less (ve_hash (es ! m)) hash)"
    "(vt_key crc hash < ve_key (es ! m)) = (crc < ve_crc (es ! m) \<or> ve_crc (es ! m) = crc \<and> md5_less hash (ve_hash (es ! m)))"
    using VNode.prems assms(1,3) by (auto simp: ve_key_def vt_key_less hashes_okD)
  then show ?case using VNode by auto
qed simp

lemma vt_search_crc_chain:
  assumes "hashes_ok es" "\<forall>i\<in>vt_nodes t. i < length es" "length hash = 16"
  shows "vt_chain (\<lambda>i. ve_key (es ! i)) (vt_key crc hash) t =
    (case vt_search_hash es hash (vt_search_crc es crc t) of VLeaf \<Rightarrow> [] | VNode _ n same _ \<Rightarrow> n # same)"
  using assms(2)
proof (induction t)
  case (VNode l m same r)
  have k: "(ve_key (es ! m) < vt_key crc hash) = (ve_crc (es ! m) < crc \<or> ve_crc (es ! m) = crc \<and> md5_less (ve_hash (es ! m)) hash)"
    "(vt_key crc hash < ve_key (es ! m)) = (crc < ve_crc (es ! m) \<or> ve_crc (es ! m) = crc \<and> md5_less hash (ve_hash (es ! m)))"
    using VNode.prems assms(1,3) by (auto simp: ve_key_def vt_key_less hashes_okD)
  consider "ve_crc (es ! m) < crc" | "crc < ve_crc (es ! m)" | "ve_crc (es ! m) = crc" by (metis linorder_neqE)
  then show ?case
  proof cases
    case 3
    then have "vt_search_hash es hash (vt_search_crc es crc (VNode l m same r)) = vt_search_key es crc hash (VNode l m same r)"
      by (simp add: vt_search_hash_def)
    then show ?thesis using vt_search_key_chain [OF assms(1) VNode.prems assms(3), of crc] by simp
  qed (use VNode k in auto)
qed (simp add: vt_search_hash_def)

section \<open>The table\<close>

definition vt_bucket :: "vtable \<Rightarrow> u32 \<Rightarrow> nat" where
  "vt_bucket t crc = unat (crc AND vt_hashmask t)"

definition vt_rep :: "vtable \<Rightarrow> bool" where
  "vt_rep t \<longleftrightarrow>
     hashes_ok (vt_entries t) \<and> (\<forall>crc. vt_bucket t crc < length (vt_hashtable t)) \<and>
     (\<forall>b<length (vt_hashtable t). (\<forall>i\<in>vt_nodes (vt_hashtable t ! b). i < length (vt_entries t)) \<and>
        (\<forall>k. vt_chain (\<lambda>i. ve_key (vt_entries t ! i)) k (vt_hashtable t ! b) =
          filter (\<lambda>i. vt_bucket t (ve_crc (vt_entries t ! i)) = b \<and> ve_key (vt_entries t ! i) = k) [0..<length (vt_entries t)]))"

text \<open>The entries with a given key, in the order of loading.\<close>

definition vt_matches :: "vtable \<Rightarrow> u32 \<Rightarrow> bytes \<Rightarrow> nat list" where
  "vt_matches t crc hash =
     filter (\<lambda>i. ve_crc (vt_entries t ! i) = crc \<and> ve_hash (vt_entries t ! i) = hash) [0..<length (vt_entries t)]"

lemma vt_lookup_matches:
  assumes r: "vt_rep t" and len: "length hash = 16"
  shows "(case vt_search_hash (vt_entries t) hash (vt_search_crc (vt_entries t) crc (vt_hashtable t ! vt_bucket t crc)) of
      VLeaf \<Rightarrow> [] | VNode _ n same _ \<Rightarrow> n # same) = vt_matches t crc hash"
proof -
  let ?es = "vt_entries t" and ?b = "vt_bucket t crc"
  have b: "?b < length (vt_hashtable t)" and ok: "hashes_ok ?es" using r by (simp_all add: vt_rep_def)
  have nodes: "\<forall>i\<in>vt_nodes (vt_hashtable t ! ?b). i < length ?es"
    and chain: "\<And>k. vt_chain (\<lambda>i. ve_key (?es ! i)) k (vt_hashtable t ! ?b) =
      filter (\<lambda>i. vt_bucket t (ve_crc (?es ! i)) = ?b \<and> ve_key (?es ! i) = k) [0..<length ?es]"
    using r b by (auto simp: vt_rep_def)
  have "filter (\<lambda>i. vt_bucket t (ve_crc (?es ! i)) = ?b \<and> ve_key (?es ! i) = vt_key crc hash) [0..<length ?es] = vt_matches t crc hash"
    unfolding vt_matches_def
  proof (rule filter_cong [OF refl])
    fix i
    assume "i \<in> set [0..<length ?es]"
    then have "length (ve_hash (?es ! i)) = 16" using ok by (simp add: hashes_okD)
    then show "(vt_bucket t (ve_crc (?es ! i)) = ?b \<and> ve_key (?es ! i) = vt_key crc hash) =
        (ve_crc (?es ! i) = crc \<and> ve_hash (?es ! i) = hash)"
      using vt_key_inj [of "ve_hash (?es ! i)" hash] len by (auto simp: ve_key_def)
  qed
  then show ?thesis using vt_search_crc_chain [OF ok nodes len] chain by simp
qed

lemma vt_load_entry_rep:
  assumes r: "vt_rep t" and len: "length hash = 16" and p: "case prev of None \<Rightarrow> True | Some p \<Rightarrow> p < length (vt_entries t)"
  shows "\<exists>t'. vt_load_entry f d (i, (hash, crc)) (prev, t) = (Some (length (vt_entries t)), t') \<and> vt_rep t' \<and>
    length (vt_entries t') = Suc (length (vt_entries t)) \<and>
    map (\<lambda>e. (ve_sourcefile e, ve_datablock e, ve_hash e, ve_crc e)) (vt_entries t') =
      map (\<lambda>e. (ve_sourcefile e, ve_datablock e, ve_hash e, ve_crc e)) (vt_entries t) @ [(f, d + i, hash, crc)]"
proof -
  let ?es = "vt_entries t" and ?n = "length (vt_entries t)" and ?b = "vt_bucket t crc"
  define e where "e = \<lparr>ve_sourcefile = f, ve_datablock = d + i, ve_firstblock = (i = 0), ve_crc = crc, ve_hash = hash, ve_next = None\<rparr>"
  define es where "es = ?es @ [e]"
  define es' where "es' = (case prev of None \<Rightarrow> es | Some p \<Rightarrow> es[p := (es ! p)\<lparr>ve_next := Some ?n\<rparr>])"
  define ht where "ht = (vt_hashtable t)[?b := vt_insert es ?n (vt_hashtable t ! ?b)]"
  define t' where "t' = t\<lparr>vt_entries := es', vt_hashtable := ht\<rparr>"
  have load: "vt_load_entry f d (i, (hash, crc)) (prev, t) = (Some ?n, t')"
    by (auto simp: vt_load_entry_def Let_def t'_def es'_def es_def e_def ht_def vt_bucket_def split: option.split)
  have len': "length es' = Suc ?n" by (auto simp: es'_def es_def split: option.split)
  have nth: "ve_crc (es' ! j) = ve_crc (es ! j) \<and> ve_hash (es' ! j) = ve_hash (es ! j) \<and>
      ve_sourcefile (es' ! j) = ve_sourcefile (es ! j) \<and> ve_datablock (es' ! j) = ve_datablock (es ! j)" if "j < Suc ?n" for j
  proof (cases prev)
    case (Some q)
    then show ?thesis using p by (cases "q = j") (simp_all add: es'_def es_def)
  qed (simp add: es'_def)
  have key: "ve_key (es' ! j) = ve_key (es ! j)" if "j < Suc ?n" for j using nth [OF that] by (simp add: ve_key_def)
  have old: "es ! j = ?es ! j" if "j < ?n" for j using that by (simp add: es_def nth_append)
  have new: "es ! ?n = e" by (simp add: es_def nth_append)
  have ok: "hashes_ok es" using r len by (auto simp: vt_rep_def hashes_ok_def es_def e_def)
  have ok': "hashes_ok es'" unfolding hashes_ok_def all_set_conv_all_nth using len' nth hashes_okD [OF ok] by (simp add: es_def)
  have b: "?b < length (vt_hashtable t)" using r by (simp add: vt_rep_def)
  have bk: "vt_bucket t' = vt_bucket t" by (simp add: vt_bucket_def t'_def fun_eq_iff)
  have map: "map (\<lambda>e. (ve_sourcefile e, ve_datablock e, ve_hash e, ve_crc e)) es' =
      map (\<lambda>e. (ve_sourcefile e, ve_datablock e, ve_hash e, ve_crc e)) ?es @ [(f, d + i, hash, crc)]"
    by (rule nth_equalityI) (use len' nth old new in \<open>auto simp: nth_append e_def less_Suc_eq\<close>)
  have "vt_rep t'"
  proof -
    have "(\<forall>i\<in>vt_nodes (ht ! c). i < Suc ?n) \<and>
        (\<forall>k. vt_chain (\<lambda>i. ve_key (es' ! i)) k (ht ! c) =
          filter (\<lambda>i. vt_bucket t (ve_crc (es' ! i)) = c \<and> ve_key (es' ! i) = k) [0..<Suc ?n])" if c: "c < length (vt_hashtable t)" for c
    proof -
      let ?tree = "vt_hashtable t ! c"
      have nd: "\<forall>i\<in>vt_nodes ?tree. i < ?n" and ch: "\<And>k. vt_chain (\<lambda>i. ve_key (?es ! i)) k ?tree =
          filter (\<lambda>i. vt_bucket t (ve_crc (?es ! i)) = c \<and> ve_key (?es ! i) = k) [0..<?n]"
        using r c by (auto simp: vt_rep_def)
      have nodes: "\<forall>i\<in>vt_nodes (ht ! c). i < Suc ?n"
        using nd b by (cases "c = ?b") (auto simp: ht_def vt_insert_nodes less_Suc_eq)
      have "vt_chain (\<lambda>i. ve_key (es' ! i)) k (ht ! c) =
          filter (\<lambda>i. vt_bucket t (ve_crc (es' ! i)) = c \<and> ve_key (es' ! i) = k) [0..<Suc ?n]" for k
      proof -
        have "vt_chain (\<lambda>i. ve_key (es' ! i)) k (ht ! c) = vt_chain (\<lambda>i. ve_key (es ! i)) k (ht ! c)"
          by (rule vt_chain_cong) (use nodes key in blast)
        also have "\<dots> = vt_chain (\<lambda>i. ve_key (es ! i)) k ?tree @ (if ?b = c \<and> ve_key e = k then [?n] else [])"
          using vt_insert_chain [OF ok, of ?n ?tree k] nd b new by (cases "c = ?b") (auto simp: ht_def es_def less_SucI)
        also have "vt_chain (\<lambda>i. ve_key (es ! i)) k ?tree = vt_chain (\<lambda>i. ve_key (?es ! i)) k ?tree"
          by (rule vt_chain_cong) (use nd old in auto)
        also have "\<dots> = filter (\<lambda>i. vt_bucket t (ve_crc (es' ! i)) = c \<and> ve_key (es' ! i) = k) [0..<?n]"
          unfolding ch by (rule filter_cong [OF refl]) (use nth key old in \<open>simp add: less_SucI\<close>)
        also have "(if ?b = c \<and> ve_key e = k then [?n] else []) =
            filter (\<lambda>i. vt_bucket t (ve_crc (es' ! i)) = c \<and> ve_key (es' ! i) = k) [?n]"
          using nth [of ?n] key [of ?n] new by (simp add: e_def)
        finally show ?thesis by (simp only: upt_Suc le0 if_True filter_append)
      qed
      then show ?thesis using nodes by blast
    qed
    then show ?thesis using r ok' len' bk by (simp add: vt_rep_def t'_def ht_def)
  qed
  then show ?thesis using load len' map by (auto simp: t'_def)
qed

section \<open>Loading\<close>

text \<open>What an entry is loaded with.\<close>

definition ve_data :: "vh_entry \<Rightarrow> nat \<times> nat \<times> bytes \<times> u32" where
  "ve_data e = (ve_sourcefile e, ve_datablock e, ve_hash e, ve_crc e)"

lemma vt_load_entries_rep:
  assumes "vt_rep t" "\<forall>(i, hash, crc)\<in>set bs. length hash = 16" "case prev of None \<Rightarrow> True | Some p \<Rightarrow> p < length (vt_entries t)"
  shows "vt_rep (snd (fold (vt_load_entry f d) bs (prev, t))) \<and>
    map ve_data (vt_entries (snd (fold (vt_load_entry f d) bs (prev, t)))) =
      map ve_data (vt_entries t) @ map (\<lambda>(i, hash, crc). (f, d + i, hash, crc)) bs"
  using assms
proof (induction bs arbitrary: prev t)
  case (Cons b bs)
  obtain i hash crc where b: "b = (i, hash, crc)" by (cases b)
  have len: "length hash = 16" using Cons.prems(2) b by simp
  obtain t' where t': "vt_load_entry f d (i, (hash, crc)) (prev, t) = (Some (length (vt_entries t)), t')" "vt_rep t'"
    "length (vt_entries t') = Suc (length (vt_entries t))"
    "map ve_data (vt_entries t') = map ve_data (vt_entries t) @ [(f, d + i, hash, crc)]"
    using vt_load_entry_rep [OF Cons.prems(1) len Cons.prems(3), of f d i crc] unfolding ve_data_def [abs_def] by blast
  show ?case using Cons.IH [of t' "Some (length (vt_entries t))"] Cons.prems(2) t' b by simp
qed simp

lemma vt_load_rep:
  assumes "vt_rep t" "\<forall>(hash, crc)\<in>set bs. length hash = 16"
  shows "vt_rep (vt_load f d bs t)"
    "map ve_data (vt_entries (vt_load f d bs t)) =
      map ve_data (vt_entries t) @ map (\<lambda>(i, hash, crc). (f, d + i, hash, crc)) (enumerate 0 bs)"
  using vt_load_entries_rep [OF assms(1), of "enumerate 0 bs" None f d] assms(2)
  by (auto simp: vt_load_def enumerate_eq_zip dest: set_zip_rightD)

text \<open>The entries a load appends: numbered from the first block, each linked to the next.\<close>

definition loaded_entry :: "nat \<Rightarrow> nat \<Rightarrow> nat \<Rightarrow> nat \<Rightarrow> nat \<times> (bytes \<times> u32) \<Rightarrow> vh_entry" where
  "loaded_entry f d n k b =
     \<lparr>ve_sourcefile = f, ve_datablock = d + fst b, ve_firstblock = (fst b = 0), ve_crc = snd (snd b), ve_hash = fst (snd b),
      ve_next = (if Suc (fst b) < k then Some (Suc (n + fst b)) else None)\<rparr>"

lemma vt_load_entries_eq:
  "fst (fold (vt_load_entry f d) (enumerate 0 bs) (None, t)) = (if bs = [] then None else Some (length (vt_entries t) + length bs - 1)) \<and>
   vt_entries (snd (fold (vt_load_entry f d) (enumerate 0 bs) (None, t))) =
     vt_entries t @ map (loaded_entry f d (length (vt_entries t)) (length bs)) (enumerate 0 bs)"
proof (induction bs rule: rev_induct)
  case (snoc b bs)
  obtain hash crc where b: "b = (hash, crc)" by (cases b)
  obtain prev t' where t': "fold (vt_load_entry f d) (enumerate 0 bs) (None, t) = (prev, t')" by (cases "fold (vt_load_entry f d) (enumerate 0 bs) (None, t)")
  let ?n = "length (vt_entries t)" and ?k = "length bs"
  have es: "prev = (if bs = [] then None else Some (?n + ?k - 1))"
    "vt_entries t' = vt_entries t @ map (loaded_entry f d ?n ?k) (enumerate 0 bs)"
    using snoc t' by simp_all
  have en: "enumerate 0 (bs @ [b]) = enumerate 0 bs @ [(?k, b)]" by (simp add: enumerate_append_eq)
  have fo: "fold (vt_load_entry f d) (enumerate 0 (bs @ [b])) (None, t) = vt_load_entry f d (?k, (hash, crc)) (prev, t')"
    unfolding en fold_append comp_def t' by (simp add: b)
  show ?case
  proof (cases bs rule: rev_cases)
    case Nil
    then show ?thesis using es unfolding fo by (simp add: vt_load_entry_def Let_def b loaded_entry_def)
  next
    case (snoc cs c)
    have "map (loaded_entry f d ?n ?k) (enumerate 0 cs) = map (loaded_entry f d ?n (Suc ?k)) (enumerate 0 cs)"
      by (rule map_cong [OF refl]) (use snoc in \<open>auto simp: loaded_entry_def enumerate_eq_zip dest!: set_zip_leftD\<close>)
    then show ?thesis using es snoc unfolding fo
      by (simp add: vt_load_entry_def Let_def b loaded_entry_def enumerate_append_eq nth_append list_update_append)
  qed
qed simp

lemma vt_load_entries:
  "vt_entries (vt_load f d bs t) = vt_entries t @ map (loaded_entry f d (length (vt_entries t)) (length bs)) (enumerate 0 bs)"
  unfolding vt_load_def using vt_load_entries_eq [of f d bs t] by blast

lemma vt_limit_loop_mask: "hashmask = push_bit k 1 \<Longrightarrow> 8 \<le> k \<Longrightarrow> k \<le> 16 \<Longrightarrow>
  \<exists>j. 8 \<le> j \<and> j \<le> 16 \<and> vt_limit_loop limit hashmask = push_bit j 1"
proof (induction "16 - k" arbitrary: k hashmask)
  case 0
  then have "k = 16" by simp
  then show ?case using 0 by (intro exI [of _ 16]) (simp add: vt_limit_loop.simps)
next
  case (Suc n)
  show ?case
  proof (cases "hashmask < limit \<and> hashmask < 65536 \<and> hashmask \<noteq> 0")
    case True
    then have "vt_limit_loop limit hashmask = vt_limit_loop limit (push_bit 1 hashmask)" by (simp add: vt_limit_loop.simps)
    then show ?thesis using Suc.hyps(1) [of "Suc k" "push_bit 1 hashmask"] Suc.hyps(2) Suc.prems by simp
  next
    case False
    then have "vt_limit_loop limit hashmask = hashmask" by (subst vt_limit_loop.simps) (rule if_not_P)
    then show ?thesis using Suc.prems by blast
  qed
qed

definition vt_empty :: vtable where
  "vt_empty = \<lparr>vt_entries = [], vt_hashtable = [], vt_hashmask = 0\<rparr>"

lemma vt_set_limit_rep: "vt_rep (vt_set_limit limit vt_empty)" "vt_entries (vt_set_limit limit vt_empty) = []"
proof -
  obtain j where j: "8 \<le> j" "j \<le> 16" "vt_limit_loop limit 256 = push_bit j 1"
    using vt_limit_loop_mask [of 256 8 limit] by auto
  have "(2::nat) ^ j < 2 ^ LENGTH(32)" using j(2) by (intro power_strict_increasing) simp_all
  moreover have "push_bit j 1 = (word_of_nat (2 ^ j) :: u32)" by (simp add: push_bit_eq_mult)
  ultimately have j32: "unat (push_bit j 1 :: u32) = 2 ^ j" by (simp only: unat_of_nat mod_less)
  have "unat (crc AND (push_bit j 1 - 1)) < 2 ^ j" for crc :: u32
  proof -
    have "crc AND (push_bit j 1 - 1) = take_bit j crc" by (simp add: take_bit_eq_mask mask_eq_exp_minus_1 push_bit_eq_mult)
    then show ?thesis by (simp add: unsigned_take_bit_eq take_bit_nat_less_exp)
  qed
  then show "vt_rep (vt_set_limit limit vt_empty)"
    using j j32 by (auto simp: vt_rep_def vt_set_limit_def vt_empty_def vt_bucket_def Let_def hashes_ok_def)
qed (simp add: vt_set_limit_def vt_empty_def Let_def)

text \<open>A sequence of loads: source file, first block, verification entries.\<close>

definition vt_loads :: "(nat \<times> nat \<times> (bytes \<times> u32) list) list \<Rightarrow> vtable \<Rightarrow> vtable" where
  "vt_loads = fold (\<lambda>(f, d, bs). vt_load f d bs)"

definition load_data :: "nat \<times> nat \<times> (bytes \<times> u32) list \<Rightarrow> (nat \<times> nat \<times> bytes \<times> u32) list" where
  "load_data l = (case l of (f, d, bs) \<Rightarrow> map (\<lambda>(i, hash, crc). (f, d + i, hash, crc)) (enumerate 0 bs))"

lemma vt_loads_rep:
  assumes "vt_rep t" "\<forall>(f, d, bs)\<in>set ls. \<forall>(hash, crc)\<in>set bs. length hash = 16"
  shows "vt_rep (vt_loads ls t) \<and> map ve_data (vt_entries (vt_loads ls t)) = map ve_data (vt_entries t) @ concat (map load_data ls)"
  using assms
proof (induction ls arbitrary: t)
  case (Cons l ls)
  obtain f d bs where l: "l = (f, d, bs)" by (cases l)
  have h: "\<forall>(hash, crc)\<in>set bs. length hash = 16" using Cons.prems(2) l by simp
  show ?case using Cons.IH [of "vt_load f d bs t"] Cons.prems vt_load_rep [OF Cons.prems(1) h] l
    by (simp add: vt_loads_def load_data_def)
qed (simp add: vt_loads_def)


section \<open>Finding a match\<close>

text \<open>The chain the searches of \<^verbatim>\<open>FindMatch\<close> end at.\<close>

definition vt_found :: "vtable \<Rightarrow> u32 \<Rightarrow> bytes \<Rightarrow> nat list" where
  "vt_found t crc hash =
     (case vt_search_hash (vt_entries t) hash (vt_search_crc (vt_entries t) crc (vt_hashtable t ! unat (crc AND vt_hashmask t))) of
        VLeaf \<Rightarrow> [] | VNode _ n same _ \<Rightarrow> n # same)"

lemma vt_found_matches: "vt_rep t \<Longrightarrow> length hash = 16 \<Longrightarrow> vt_found t crc hash = vt_matches t crc hash"
  using vt_lookup_matches [of t hash crc] by (simp only: vt_found_def vt_bucket_def)

lemma vt_matches_iff:
  "n \<in> set (vt_matches t crc hash) \<longleftrightarrow>
     n < length (vt_entries t) \<and> ve_crc (vt_entries t ! n) = crc \<and> ve_hash (vt_entries t ! n) = hash"
  by (auto simp: vt_matches_def)

lemma vt_find_match_chain:
  assumes "vt_rep t" "fm_suggested t mc suggested c = Inr havehash" "hash = (case havehash of Some h \<Rightarrow> h | None \<Rightarrow> cs_hash c)" "length hash = 16"
  shows "vt_find_match t mc suggested sourcefile c =
    (case vt_matches t (cs_checksum c) hash of
       [] \<Rightarrow> (None, False)
     | [n] \<Rightarrow> fm_single t mc suggested c n
     | chain \<Rightarrow> (fm_many t mc sourcefile c chain, False))"
  unfolding vt_found_matches [OF assms(1,4), symmetric] vt_found_def vt_find_match_def Let_def assms(2)
  using assms(3) by (auto simp: vt_search_hash_def split: vtree.split list.split)

lemma fm_unused_in: "fm_unused t mc c chain = Some n \<Longrightarrow> n \<in> set chain"
  by (induction chain) (auto simp: Let_def split: if_splits)

definition ve_usable :: "match_context \<Rightarrow> checksummer \<Rightarrow> vh_entry \<Rightarrow> bool" where
  "ve_usable mc c e \<longleftrightarrow> \<not> ve_is_set mc e \<and> \<not> ve_wrong_length mc c e"

lemma fm_unused_usable: "fm_unused t mc c chain = Some n \<Longrightarrow> ve_usable mc c (vt_entries t ! n)"
  by (induction chain) (auto simp: Let_def ve_usable_def split: if_splits)

lemma fm_unused_complete: "n \<in> set chain \<Longrightarrow> ve_usable mc c (vt_entries t ! n) \<Longrightarrow> \<exists>m. fm_unused t mc c chain = Some m"
  by (induction chain) (auto simp: Let_def ve_usable_def)

text \<open>The walk for the preferred file finds the first usable entry of the file; else the first usable one.\<close>

lemma fm_prefer_eq:
  "fm_prefer t mc f c rest chain =
    (find (\<lambda>n. ve_usable mc c (vt_entries t ! n) \<and> ve_sourcefile (vt_entries t ! n) = f) chain,
     snd (fm_prefer t mc f c rest chain))"
  by (induction chain arbitrary: rest) (simp_all add: Let_def ve_usable_def)

lemma fm_prefer_rest:
  "fst (fm_prefer t mc f c rest chain) = None \<Longrightarrow>
    snd (fm_prefer t mc f c rest chain) =
      (if rest \<noteq> [] then rest else dropWhile (\<lambda>n. \<not> ve_usable mc c (vt_entries t ! n)) chain)"
  by (induction chain arbitrary: rest) (auto simp: Let_def ve_usable_def split: if_splits)

lemma fm_unused_dropWhile: "fm_unused t mc c (dropWhile (\<lambda>n. \<not> ve_usable mc c (vt_entries t ! n)) chain) = fm_unused t mc c chain"
  by (induction chain) (auto simp: Let_def ve_usable_def)

lemma fm_unused_find: "fm_unused t mc c chain = find (\<lambda>n. ve_usable mc c (vt_entries t ! n)) chain"
  by (induction chain) (simp_all add: Let_def ve_usable_def)

lemma fm_many_eq:
  "fm_many t mc sourcefile c chain =
    (case find (\<lambda>n. ve_usable mc c (vt_entries t ! n) \<and> Some (ve_sourcefile (vt_entries t ! n)) = sourcefile) chain of
       Some n \<Rightarrow> Some n
     | None \<Rightarrow> find (\<lambda>n. ve_usable mc c (vt_entries t ! n)) chain)"
proof (cases sourcefile)
  case None
  have "find (\<lambda>n. False) chain = None" by (induction chain) simp_all
  then show ?thesis using None by (simp add: fm_many_def fm_unused_find)
next
  case (Some f)
  show ?thesis
  proof (cases "find (\<lambda>n. ve_usable mc c (vt_entries t ! n) \<and> ve_sourcefile (vt_entries t ! n) = f) chain")
    case None
    then have "fm_prefer t mc f c [] chain = (None, dropWhile (\<lambda>n. \<not> ve_usable mc c (vt_entries t ! n)) chain)"
      using fm_prefer_eq [of t mc f c "[]" chain] fm_prefer_rest [of t mc f c "[]" chain]
      by (cases "fm_prefer t mc f c [] chain") simp
    then show ?thesis using None Some by (simp add: fm_many_def fm_unused_dropWhile fm_unused_find [symmetric])
  next
    case s: (Some n)
    then show ?thesis using Some fm_prefer_eq [of t mc f c "[]" chain]
      by (cases "fm_prefer t mc f c [] chain") (simp add: fm_many_def)
  qed
qed

lemma find_in_set: "find P xs = Some x \<Longrightarrow> x \<in> set xs \<and> P x"
  by (induction xs) (auto split: if_splits)

lemma find_exists: "x \<in> set xs \<Longrightarrow> P x \<Longrightarrow> \<exists>y. find P xs = Some y"
  by (induction xs) auto

lemma fm_many_in: "fm_many t mc sourcefile c chain = Some n \<Longrightarrow> n \<in> set chain \<and> ve_usable mc c (vt_entries t ! n)"
  by (auto simp: fm_many_eq dest!: find_in_set split: option.splits)

lemma fm_many_finds:
  assumes "n \<in> set chain" "ve_usable mc c (vt_entries t ! n)"
  shows "\<exists>m. fm_many t mc sourcefile c chain = Some m \<and> ve_usable mc c (vt_entries t ! m) \<and>
    (sourcefile = Some (ve_sourcefile (vt_entries t ! n)) \<longrightarrow> Some (ve_sourcefile (vt_entries t ! m)) = sourcefile)"
proof (cases "find (\<lambda>n. ve_usable mc c (vt_entries t ! n) \<and> Some (ve_sourcefile (vt_entries t ! n)) = sourcefile) chain")
  case None
  then have "sourcefile \<noteq> Some (ve_sourcefile (vt_entries t ! n))"
    using find_exists [of n chain "\<lambda>n. ve_usable mc c (vt_entries t ! n) \<and> Some (ve_sourcefile (vt_entries t ! n)) = sourcefile"] assms by auto
  moreover obtain m where "find (\<lambda>n. ve_usable mc c (vt_entries t ! n)) chain = Some m"
    using find_exists [of n chain "\<lambda>n. ve_usable mc c (vt_entries t ! n)"] assms by auto
  ultimately show ?thesis using None find_in_set by (fastforce simp: fm_many_eq)
next
  case (Some m)
  then show ?thesis using find_in_set [OF Some] by (auto simp: fm_many_eq)
qed

lemma fm_single_in: "fm_single t mc suggested c n = (Some m, d) \<Longrightarrow> m = n \<and> \<not> d"
  by (auto simp: fm_single_def Let_def split: if_splits)

text \<open>The match of the last block of a file, which is shorter than the window.\<close>

definition short_match :: "vtable \<Rightarrow> match_context \<Rightarrow> nat option \<Rightarrow> checksummer \<Rightarrow> nat \<Rightarrow> bool" where
  "short_match t mc suggested c n \<longleftrightarrow>
     (\<exists>s. suggested = Some s \<and> ve_next (vt_entries t ! s) = None \<and>
        (let e = vt_entries t ! s; len = ve_length mc e in
           cs_short_checksum len c = ve_crc e \<and>
           ve_hash (vt_entries t ! n) = cs_short_hash len c \<and>
           (n = s \<or> ve_crc (vt_entries t ! n) = cs_checksum c)))"

end
