(* ===== verification/Table_Match.thy ===== *)
theory Table_Match
  imports Table_Correct
begin

unbundle bit_operations_syntax

text \<open>
  The properties of the verification table: what is in it after loading, that the searches find all
  of it, and what \<^verbatim>\<open>FindMatch\<close> returns, by itself and on the windows of a scan.
\<close>

section \<open>What the table holds\<close>

text \<open>C37: \<^verbatim>\<open>SetLimit\<close> makes a well-formed table without entries, and \<^verbatim>\<open>Load\<close> keeps it well-formed: the
  bucket of every CRC exists, each entry is in the bucket of its CRC, and each key's chain has exactly
  the entries with the key.\<close>

theorem vt_load_keeps_form:
  "vt_rep (vt_set_limit limit vt_empty) \<and>
   (vt_rep t \<and> (\<forall>(hash, crc)\<in>set bs. length hash = 16) \<longrightarrow> vt_rep (vt_load f d bs t))"
  using vt_set_limit_rep(1) vt_load_rep(1) by blast

text \<open>\<^verbatim>\<open>Load\<close> appends one entry for each verification entry of the source file: numbered from the
  file's first block, the first one marked as first, each linked to the next one and the last to none.\<close>

lemma vt_load_appends:
  assumes "i < length bs" "bs ! i = (hash, crc)"
  shows "length (vt_entries (vt_load f d bs t)) = length (vt_entries t) + length bs \<and>
    take (length (vt_entries t)) (vt_entries (vt_load f d bs t)) = vt_entries t \<and>
    vt_entries (vt_load f d bs t) ! (length (vt_entries t) + i) =
      \<lparr>ve_sourcefile = f, ve_datablock = d + i, ve_firstblock = (i = 0), ve_crc = crc, ve_hash = hash,
       ve_next = (if i + 1 < length bs then Some (length (vt_entries t) + i + 1) else None)\<rparr>"
  using assms by (simp add: vt_load_entries nth_append nth_enumerate_eq loaded_entry_def)

text \<open>C26: after any loads into a fresh table, looking up a CRC and a hash ends at the chain of exactly the
  loaded blocks with this CRC and hash, in the order they were loaded.\<close>

theorem vt_lookup_loaded:
  assumes "\<forall>(f, d, bs)\<in>set ls. \<forall>(hash, crc)\<in>set bs. length hash = 16" "length hash = 16"
    "t = vt_loads ls (vt_set_limit limit vt_empty)"
  shows "map (\<lambda>i. ve_data (vt_entries t ! i)) (vt_found t crc hash) =
    filter (\<lambda>(f, b, hash', crc'). hash' = hash \<and> crc' = crc) (concat (map load_data ls))"
proof -
  have r: "vt_rep t" and d: "map ve_data (vt_entries t) = concat (map load_data ls)"
    using vt_loads_rep [OF vt_set_limit_rep(1) assms(1)] vt_set_limit_rep(2) assms(3) by auto
  have "filter P (map g xs) = map (\<lambda>i. g (xs ! i)) (filter (\<lambda>i. P (g (xs ! i))) [0..<length xs])" for P and g :: "vh_entry \<Rightarrow> _" and xs
  proof -
    have e: "map g xs = map (\<lambda>i. g (xs ! i)) [0..<length xs]" by (rule nth_equalityI) simp_all
    show ?thesis unfolding e filter_map comp_def by (rule refl)
  qed
  note f = this [of "\<lambda>(f, b, hash', crc'). hash' = hash \<and> crc' = crc" ve_data "vt_entries t"]
  have p: "(\<lambda>i. ve_crc (vt_entries t ! i) = crc \<and> ve_hash (vt_entries t ! i) = hash) =
      (\<lambda>i. case ve_data (vt_entries t ! i) of (f, b, hash', crc') \<Rightarrow> hash' = hash \<and> crc' = crc)"
    by (rule ext) (auto simp: ve_data_def)
  show ?thesis unfolding vt_found_matches [OF r assms(2)] vt_matches_def d [symmetric] f p by (rule refl)
qed

section \<open>What \<^verbatim>\<open>FindMatch\<close> returns\<close>

lemma vt_find_match_sound_rule:
  assumes "vt_rep t" "length (cs_hash c) = 16" "case suggested of None \<Rightarrow> True | Some s \<Rightarrow> s < length (vt_entries t)"
    "vt_find_match t mc suggested sourcefile c = (Some n, duplicate)"
  shows "n < length (vt_entries t) \<and> \<not> duplicate \<and>
    (ve_crc (vt_entries t ! n) = cs_checksum c \<and> ve_hash (vt_entries t ! n) = cs_hash c \<or> short_match t mc suggested c n)"
proof (cases "fm_suggested t mc suggested c")
  case (Inl s)
  then have "vt_find_match t mc suggested sourcefile c = (Some s, False)" by (simp add: vt_find_match_def)
  then have s: "n = s" "\<not> duplicate" using assms(4) by simp_all
  show ?thesis using Inl s assms(3)
    by (auto simp: fm_suggested_def short_match_def Let_def split: option.splits if_splits)
next
  case (Inr havehash)
  define hash where "hash = (case havehash of Some h \<Rightarrow> h | None \<Rightarrow> cs_hash c)"
  have h: "hash = cs_hash c \<or> (\<exists>s. suggested = Some s \<and> ve_next (vt_entries t ! s) = None \<and>
      cs_short_checksum (ve_length mc (vt_entries t ! s)) c = ve_crc (vt_entries t ! s) \<and>
      hash = cs_short_hash (ve_length mc (vt_entries t ! s)) c)"
    using Inr by (auto simp: fm_suggested_def hash_def Let_def split: option.splits if_splits)
  have len: "length hash = 16" using h assms(2) by (auto simp: cs_short_hash_def Let_def md5_end_def md5_bytes_def split: prod.split)
  have "n \<in> set (vt_matches t (cs_checksum c) hash) \<and> \<not> duplicate"
    using assms(4) unfolding vt_find_match_chain [OF assms(1) Inr hash_def len]
    by (auto split: list.splits dest!: fm_single_in fm_many_in)
  then show ?thesis using h by (auto simp: vt_matches_iff short_match_def Let_def)
qed

text \<open>The windows a suggested last block is compared with: its length from the current offset, padded to a block.\<close>

definition file_crc :: "bytes \<Rightarrow> u32" where
  "file_crc bs = NOT 0 XOR crc_update_block (NOT 0) bs"

definition short_window :: "vtable \<Rightarrow> match_context \<Rightarrow> bytes \<Rightarrow> checksummer \<Rightarrow> nat \<Rightarrow> bytes" where
  "short_window t mc content c s =
     padded (cs_bs c) (take (unat (ve_length mc (vt_entries t ! s))) (drop (cs_off c) content))"

lemma cs_scan_not_short:
  assumes "cs_scans fs content fresh c0 c" "cs_off c + cs_bs c \<le> length content"
  shows "\<not> cs_short_block c"
proof -
  have "unat (cs_filesize c) = length content"
    using cs_scans_inv [OF assms(1)] by (simp add: cs_inv_def cs_sized_def)
  then have "unat (cs_filesize c - cs_currentoffset c) = length content - cs_off c"
    using assms(2) by (simp add: unat_sub word_le_nat_alt)
  then show ?thesis
    using assms(2) by (simp add: cs_short_block_def cs_block_length_def word_less_nat_alt min_def word_le_nat_alt)
qed

lemma scan_short_window:
  assumes scan: "cs_scans fs content fresh c0 c" "cs_off c + cs_bs c \<le> length content"
    and len: "unat (ve_length mc (vt_entries t ! s)) \<le> cs_bs c"
  shows "cs_short_checksum (ve_length mc (vt_entries t ! s)) c = file_crc (short_window t mc content c s)"
    "cs_short_hash (ve_length mc (vt_entries t ! s)) c = md5 (short_window t mc content c s)"
proof -
  have "0 < cs_bs c" using cs_scans_inv [OF scan(1)] by (simp add: cs_inv_def cs_sized_def)
  then have "cs_off c < length content" using scan(2) by linarith
  from cs_scan_short_rule [OF scan(1) this len]
  show "cs_short_checksum (ve_length mc (vt_entries t ! s)) c = file_crc (short_window t mc content c s)"
    "cs_short_hash (ve_length mc (vt_entries t ! s)) c = md5 (short_window t mc content c s)"
    using scan(2) len by (simp_all add: file_crc_def short_window_def)
qed

lemma vt_find_match_complete:
  assumes t: "vt_rep t" and short: "\<not> cs_short_block c" and l: "length (cs_hash c) = 16"
    and s: "\<And>s. suggested = Some s \<Longrightarrow> s < length (vt_entries t) \<and>
      \<not> (ve_next (vt_entries t ! s) = None \<and> cs_short_checksum (ve_length mc (vt_entries t ! s)) c = ve_crc (vt_entries t ! s))"
    and n: "n \<in> set (vt_matches t (cs_checksum c) (cs_hash c))" "ve_usable mc c (vt_entries t ! n)"
      "\<not> mc_complete mc (ve_sourcefile (vt_entries t ! n))"
  shows "\<exists>m\<in>set (vt_matches t (cs_checksum c) (cs_hash c)). vt_find_match t mc suggested sourcefile c = (Some m, False) \<and>
    ve_usable mc c (vt_entries t ! m) \<and>
    (suggested = Some m \<or> (sourcefile = Some (ve_sourcefile (vt_entries t ! n)) \<longrightarrow> Some (ve_sourcefile (vt_entries t ! m)) = sourcefile))"
proof (cases "fm_suggested t mc suggested c")
  case (Inl m)
  then have m: "suggested = Some m" "\<not> ve_is_set mc (vt_entries t ! m)" "ve_crc (vt_entries t ! m) = cs_checksum c"
    "ve_hash (vt_entries t ! m) = cs_hash c"
    using s by (auto simp: fm_suggested_def Let_def split: option.splits if_splits)
  have "m \<in> set (vt_matches t (cs_checksum c) (cs_hash c))" using m s [of m] by (simp add: vt_matches_iff)
  moreover have "ve_usable mc c (vt_entries t ! m)" using m(2) short by (simp add: ve_usable_def ve_wrong_length_def)
  ultimately show ?thesis using Inl m(1) by (auto simp: vt_find_match_def)
next
  case (Inr havehash)
  then have h: "cs_hash c = (case havehash of Some h \<Rightarrow> h | None \<Rightarrow> cs_hash c)"
    using s by (auto simp: fm_suggested_def Let_def split: option.splits if_splits)
  note f = vt_find_match_chain [OF t Inr h l, of sourcefile]
  show ?thesis
  proof (cases "vt_matches t (cs_checksum c) (cs_hash c) = [n]")
    case True
    then show ?thesis using n by (auto simp: f fm_single_def Let_def ve_usable_def)
  next
    case False
    then have "vt_find_match t mc suggested sourcefile c = (fm_many t mc sourcefile c (vt_matches t (cs_checksum c) (cs_hash c)), False)"
      using n(1) unfolding f by (auto split: list.split)
    then show ?thesis using fm_many_finds [OF n(1,2), of sourcefile] fm_many_in by fastforce
  qed
qed

text \<open>C19: on a window of a scan that lies inside the file, with or without a suggested next entry (whose block is
  no longer than the block size). What \<^verbatim>\<open>FindMatch\<close> returns is a block recorded with the CRC-32 and the MD5 of the
  file's bytes at the current offset, or, only when the suggested entry is the last of its file and its CRC fits
  the window cut to its length and padded, that entry or one with the CRC of the whole window, recorded with the MD5 of that shorter
  window. A suggested entry that fits is returned at once: a last one by its own length, another one if it is
  not found yet. And where a block with the CRC and MD5 of the window is known that is not found yet, has the
  right length and is of a file not complete yet, then, unless the CRC of a suggested last entry fits,
  such a block is returned: the suggested one, or one of the preferred file when that has a usable one.\<close>

theorem vt_find_match_scan:
  assumes scan: "cs_scans fs content fresh c0 c" "cs_off c + cs_bs c \<le> length content"
    and t: "vt_rep t" and window: "window = take (cs_bs c) (drop (cs_off c) content)"
    and suggestion: "\<And>s. suggested = Some s \<Longrightarrow> s < length (vt_entries t) \<and> unat (ve_length mc (vt_entries t ! s)) \<le> cs_bs c"
  shows "(\<forall>n d. vt_find_match t mc suggested sourcefile c = (Some n, d) \<longrightarrow> \<not> d \<and>
      (n \<in> set (vt_matches t (file_crc window) (md5 window)) \<or>
       (\<exists>s. suggested = Some s \<and> ve_next (vt_entries t ! s) = None \<and>
          ve_crc (vt_entries t ! s) = file_crc (short_window t mc content c s) \<and>
          n < length (vt_entries t) \<and> ve_hash (vt_entries t ! n) = md5 (short_window t mc content c s) \<and>
          (n = s \<or> ve_crc (vt_entries t ! n) = file_crc window)))) \<and>
    (\<forall>s. suggested = Some s \<and>
       (if ve_next (vt_entries t ! s) = None
        then ve_crc (vt_entries t ! s) = file_crc (short_window t mc content c s) \<and>
             ve_hash (vt_entries t ! s) = md5 (short_window t mc content c s)
        else \<not> ve_is_set mc (vt_entries t ! s) \<and> s \<in> set (vt_matches t (file_crc window) (md5 window))) \<longrightarrow>
       vt_find_match t mc suggested sourcefile c = (Some s, False)) \<and>
    (\<forall>n\<in>set (vt_matches t (file_crc window) (md5 window)).
       ve_usable mc c (vt_entries t ! n) \<and> \<not> mc_complete mc (ve_sourcefile (vt_entries t ! n)) \<and>
       (\<forall>s. suggested = Some s \<and> ve_next (vt_entries t ! s) = None \<longrightarrow>
          ve_crc (vt_entries t ! s) \<noteq> file_crc (short_window t mc content c s)) \<longrightarrow>
       (\<exists>m\<in>set (vt_matches t (file_crc window) (md5 window)).
          vt_find_match t mc suggested sourcefile c = (Some m, False) \<and> ve_usable mc c (vt_entries t ! m) \<and>
          (suggested = Some m \<or>
           (sourcefile = Some (ve_sourcefile (vt_entries t ! n)) \<longrightarrow> Some (ve_sourcefile (vt_entries t ! m)) = sourcefile))))"
proof (intro conjI allI impI ballI)
  have k: "cs_checksum c = file_crc window" "cs_hash c = md5 window"
    using cs_scan_checksum_rule [OF scan] window by (simp_all add: file_crc_def)
  have l16: "length (cs_hash c) = 16" by (simp add: k)
  have sw: "cs_short_checksum (ve_length mc (vt_entries t ! s)) c = file_crc (short_window t mc content c s)"
    "cs_short_hash (ve_length mc (vt_entries t ! s)) c = md5 (short_window t mc content c s)" if "suggested = Some s" for s
    using scan_short_window [OF scan] suggestion [OF that] by auto
  {
    fix n d assume f: "vt_find_match t mc suggested sourcefile c = (Some n, d)"
    have "case suggested of None \<Rightarrow> True | Some s \<Rightarrow> s < length (vt_entries t)" using suggestion by (simp split: option.split)
    note r = vt_find_match_sound_rule [OF t l16 this f]
    then show "\<not> d" by blast
    from r show "n \<in> set (vt_matches t (file_crc window) (md5 window)) \<or>
       (\<exists>s. suggested = Some s \<and> ve_next (vt_entries t ! s) = None \<and>
          ve_crc (vt_entries t ! s) = file_crc (short_window t mc content c s) \<and>
          n < length (vt_entries t) \<and> ve_hash (vt_entries t ! n) = md5 (short_window t mc content c s) \<and>
          (n = s \<or> ve_crc (vt_entries t ! n) = file_crc window))"
      using sw by (auto simp: vt_matches_iff k short_match_def Let_def)
  }
  show "vt_find_match t mc suggested sourcefile c = (Some s, False)"
    if "suggested = Some s \<and>
       (if ve_next (vt_entries t ! s) = None
        then ve_crc (vt_entries t ! s) = file_crc (short_window t mc content c s) \<and>
             ve_hash (vt_entries t ! s) = md5 (short_window t mc content c s)
        else \<not> ve_is_set mc (vt_entries t ! s) \<and> s \<in> set (vt_matches t (file_crc window) (md5 window)))" for s
  proof -
    have "fm_suggested t mc suggested c = Inl s"
      using that sw [of s] by (auto simp: fm_suggested_def Let_def k vt_matches_iff split: if_splits)
    then show ?thesis by (simp add: vt_find_match_def)
  qed
  fix n assume n: "n \<in> set (vt_matches t (file_crc window) (md5 window))"
    "ve_usable mc c (vt_entries t ! n) \<and> \<not> mc_complete mc (ve_sourcefile (vt_entries t ! n)) \<and>
       (\<forall>s. suggested = Some s \<and> ve_next (vt_entries t ! s) = None \<longrightarrow>
          ve_crc (vt_entries t ! s) \<noteq> file_crc (short_window t mc content c s))"
  have s: "s < length (vt_entries t) \<and>
      \<not> (ve_next (vt_entries t ! s) = None \<and> cs_short_checksum (ve_length mc (vt_entries t ! s)) c = ve_crc (vt_entries t ! s))"
    if "suggested = Some s" for s
    using suggestion [OF that] sw(1) [OF that] n(2) that by metis
  show "\<exists>m\<in>set (vt_matches t (file_crc window) (md5 window)).
      vt_find_match t mc suggested sourcefile c = (Some m, False) \<and> ve_usable mc c (vt_entries t ! m) \<and>
      (suggested = Some m \<or>
       (sourcefile = Some (ve_sourcefile (vt_entries t ! n)) \<longrightarrow> Some (ve_sourcefile (vt_entries t ! m)) = sourcefile))"
    using vt_find_match_complete [OF t cs_scan_not_short [OF scan] l16 s, where n = n and sourcefile = sourcefile] n unfolding k by blast
qed

section \<open>Witnesses\<close>

definition ex_crc :: u32 where
  "ex_crc = NOT 0 XOR crc_update_block (NOT 0) [1, 2, 3, 4]"

definition ex_table :: vtable where
  "ex_table = vt_loads [(0, 7, [(md5 [1, 2, 3, 4], ex_crc)])] (vt_set_limit 1 vt_empty)"

lemma ex_table_rep: "vt_rep ex_table" "map ve_data (vt_entries ex_table) = [(0, 7, md5 [1, 2, 3, 4], ex_crc)]"
  using vt_loads_rep [OF vt_set_limit_rep(1) [of 1], of "[(0, 7, [(md5 [1, 2, 3, 4], ex_crc)])]"]
  by (simp_all add: ex_table_def load_data_def vt_set_limit_rep(2))

lemma ex_table_entry:
  "length (vt_entries ex_table) = 1" "ve_hash (vt_entries ex_table ! 0) = md5 [1, 2, 3, 4]" "ve_crc (vt_entries ex_table ! 0) = ex_crc"
proof -
  have l: "length (map ve_data (vt_entries ex_table)) = 1" unfolding ex_table_rep by simp
  then show "length (vt_entries ex_table) = 1" by simp
  have "ve_data (vt_entries ex_table ! 0) = map ve_data (vt_entries ex_table) ! 0" using l by simp
  then have "ve_data (vt_entries ex_table ! 0) = (0, 7, md5 [1, 2, 3, 4], ex_crc)" unfolding ex_table_rep by simp
  then show "ve_hash (vt_entries ex_table ! 0) = md5 [1, 2, 3, 4]" "ve_crc (vt_entries ex_table ! 0) = ex_crc"
    by (simp_all add: ve_data_def)
qed

text \<open>No block is found yet and no file complete.\<close>

definition ex_context :: match_context where
  "ex_context = \<lparr>mc_blocks = (\<lambda>_. datablock_new\<lparr>db_length := 4\<rparr>), mc_store = (\<lambda>_. sample_disk ReadMode 5),
     mc_complete = (\<lambda>_. False), mc_diskfile = 0\<rparr>"

lemma ex_scan:
  obtains c where "cs_scans (sample_fs [1, 2, 3, 4, 5]) [1, 2, 3, 4, 5] ex_hasher (ex_summer 7 [1, 2, 3, 4, 5]) c"
    "cs_off c = 0" "cs_bs c = 4" "cs_checksum c = ex_crc" "cs_hash c = md5 [1, 2, 3, 4]" "ve_usable ex_context c (vt_entries ex_table ! 0)"
proof -
  obtain c where c: "cs_scans (sample_fs [1, 2, 3, 4, 5]) [1, 2, 3, 4, 5] ex_hasher (ex_summer 7 [1, 2, 3, 4, 5]) c"
    "cs_off c = 0" "cs_bs c = 4"
    using ex_summer_scans [of "[1, 2, 3, 4, 5]" 7] by auto
  have k: "cs_checksum c = ex_crc \<and> cs_hash c = md5 [1, 2, 3, 4]"
    using cs_scan_checksum_rule [OF c(1)] c(2,3) by (simp add: ex_crc_def)
  have "cs_inv (sample_fs [1, 2, 3, 4, 5]) [1, 2, 3, 4, 5] c" by (rule cs_scans_inv [OF c(1)])
  then have z: "unat (cs_filesize c) = 5" by (simp add: cs_inv_def cs_sized_def)
  have "cs_currentoffset c = 0" using c(2) by (simp add: unat_eq_zero)
  then have "\<not> cs_short_block c"
    using c(3) z by (simp add: cs_short_block_def cs_block_length_def word_less_nat_alt min_def word_le_nat_alt)
  then have "ve_usable ex_context c (vt_entries ex_table ! 0)"
    by (simp add: ve_usable_def ve_is_set_def ve_wrong_length_def ex_context_def db_is_set_def datablock_new_def)
  then show ?thesis using that c k by blast
qed

theorem vt_load_keeps_form_witness:
  "vt_rep (vt_load 0 7 [(md5 [], 0)] (vt_set_limit 1 vt_empty))"
  using vt_load_keeps_form [of 1 "vt_set_limit 1 vt_empty" "[(md5 [], 0)]" 0 7] by (simp add: vt_load_keeps_form [THEN conjunct1])

theorem vt_lookup_loaded_witness:
  "map (\<lambda>i. ve_data (vt_entries ex_table ! i)) (vt_found ex_table ex_crc (md5 [1, 2, 3, 4])) = [(0, 7, md5 [1, 2, 3, 4], ex_crc)]"
  using vt_lookup_loaded [OF _ _ ex_table_def, of "md5 [1, 2, 3, 4]" ex_crc] by (simp add: load_data_def)

theorem vt_find_match_scan_witness:
  "\<exists>c. vt_find_match ex_table ex_context None None c = (Some 0, False) \<and>
    vt_find_match ex_table ex_context (Some 0) None c = (Some 0, False)"
proof -
  obtain c where c: "cs_scans (sample_fs [1, 2, 3, 4, 5]) [1, 2, 3, 4, 5] ex_hasher (ex_summer 7 [1, 2, 3, 4, 5]) c"
    "cs_off c = 0" "cs_bs c = 4" "ve_usable ex_context c (vt_entries ex_table ! 0)"
    using ex_scan by blast
  have crc: "file_crc [1, 2, 3, 4] = ex_crc" by (simp add: file_crc_def ex_crc_def)
  have in_set: "0 \<in> set (vt_matches ex_table (file_crc [1, 2, 3, 4]) (md5 [1, 2, 3, 4]))"
    by (simp add: vt_matches_iff ex_table_entry crc)
  have mc: "\<not> mc_complete ex_context (ve_sourcefile (vt_entries ex_table ! 0))"
    "unat (ve_length ex_context (vt_entries ex_table ! 0)) = 4"
    by (simp_all add: ex_context_def ve_length_def)
  have inside: "cs_off c + cs_bs c \<le> length [1, 2, 3, 4, 5 :: u8]" "[1, 2, 3, 4] = take (cs_bs c) (drop (cs_off c) [1, 2, 3, 4, 5 :: u8])"
    using c(2,3) by simp_all
  note f = vt_find_match_scan [OF c(1) inside(1) ex_table_rep(1) inside(2)]
  obtain m where m: "m \<in> set (vt_matches ex_table (file_crc [1, 2, 3, 4]) (md5 [1, 2, 3, 4]))"
    "vt_find_match ex_table ex_context None None c = (Some m, False)"
    using bspec [OF f [of None ex_context None, THEN conjunct2, THEN conjunct2] in_set] c(4) mc(1) by auto
  then have "m = 0" by (simp add: vt_matches_iff ex_table_entry)
  moreover have "short_window ex_table ex_context [1, 2, 3, 4, 5] c 0 = [1, 2, 3, 4]"
    using c(2,3) mc(2) by (simp add: short_window_def padded_def)
  then have "vt_find_match ex_table ex_context (Some 0) None c = (Some 0, False)"
    using f [of "Some 0" ex_context None, THEN conjunct2, THEN conjunct1, THEN spec, of 0] c(3) mc(2) in_set crc
    by (simp add: ex_table_entry ve_is_set_def ex_context_def db_is_set_def datablock_new_def)
  ultimately show ?thesis using m(2) by blast
qed

end
