(* ===== verification/Packets.thy ===== *)
theory Packets
  imports Table_Match
begin

unbundle bit_operations_syntax

text \<open>
  The packets of a PAR2 file: \<^verbatim>\<open>par2fileformat.h\<close> and \<^verbatim>\<open>.cpp\<close>, \<^verbatim>\<open>criticalpacket\<close>,
  \<^verbatim>\<open>mainpacket\<close>, \<^verbatim>\<open>verificationpacket\<close>, \<^verbatim>\<open>descriptionpacket\<close>, \<^verbatim>\<open>creatorpacket\<close> and
  \<^verbatim>\<open>recoverypacket\<close>. The code lays packed structures over the bytes of a packet; here a packet
  is its bytes, a field is read and stored at its offset. A header that is passed around
  on its own is its 64 bytes.
\<close>

section \<open>Format\<close>

definition load64 :: "bytes \<Rightarrow> nat \<Rightarrow> u64" where
  "load64 data off =
     push_bit 0 (ucast (data ! off)) OR push_bit 8 (ucast (data ! (off + 1))) OR
     push_bit 16 (ucast (data ! (off + 2))) OR push_bit 24 (ucast (data ! (off + 3))) OR
     push_bit 32 (ucast (data ! (off + 4))) OR push_bit 40 (ucast (data ! (off + 5))) OR
     push_bit 48 (ucast (data ! (off + 6))) OR push_bit 56 (ucast (data ! (off + 7)))"

definition field :: "nat \<Rightarrow> nat \<Rightarrow> bytes \<Rightarrow> bytes" where
  "field off n data = take n (drop off data)"

definition packet_magic :: bytes where
  "packet_magic = map of_char ''PAR2'' @ [0] @ map of_char ''PKT''"

definition fileverificationpacket_type :: bytes where
  "fileverificationpacket_type = map of_char ''PAR 2.0'' @ [0] @ map of_char ''IFSC'' @ [0, 0, 0, 0]"

definition filedescriptionpacket_type :: bytes where
  "filedescriptionpacket_type = map of_char ''PAR 2.0'' @ [0] @ map of_char ''FileDesc''"

definition mainpacket_type :: bytes where
  "mainpacket_type = map of_char ''PAR 2.0'' @ [0] @ map of_char ''Main'' @ [0, 0, 0, 0]"

definition recoveryblockpacket_type :: bytes where
  "recoveryblockpacket_type = map of_char ''PAR 2.0'' @ [0] @ map of_char ''RecvSlic''"

definition creatorpacket_type :: bytes where
  "creatorpacket_type = map of_char ''PAR 2.0'' @ [0] @ map of_char ''Creator'' @ [0]"

text \<open>\<^verbatim>\<open>PACKET_HEADER\<close>: the offsets of its fields, and the sizes of the fixed part of each packet.\<close>

abbreviation (input) OFF_LENGTH :: nat where "OFF_LENGTH \<equiv> 8"
abbreviation (input) OFF_HASH :: nat where "OFF_HASH \<equiv> 16"
abbreviation (input) OFF_SETID :: nat where "OFF_SETID \<equiv> 32"
abbreviation (input) OFF_TYPE :: nat where "OFF_TYPE \<equiv> 48"
abbreviation (input) SIZEOF_HEADER :: nat where "SIZEOF_HEADER \<equiv> 64"
abbreviation (input) SIZEOF_MAIN :: nat where "SIZEOF_MAIN \<equiv> 76"
abbreviation (input) SIZEOF_VERIFICATION :: nat where "SIZEOF_VERIFICATION \<equiv> 80"
abbreviation (input) SIZEOF_ENTRY :: nat where "SIZEOF_ENTRY \<equiv> 20"
abbreviation (input) SIZEOF_DESCRIPTION :: nat where "SIZEOF_DESCRIPTION \<equiv> 120"
abbreviation (input) SIZEOF_RECOVERY :: nat where "SIZEOF_RECOVERY \<equiv> 68"

definition header_magic :: "bytes \<Rightarrow> bytes" where "header_magic h = field 0 8 h"
definition header_length :: "bytes \<Rightarrow> u64" where "header_length h = load64 h OFF_LENGTH"
definition header_hash :: "bytes \<Rightarrow> bytes" where "header_hash h = field OFF_HASH 16 h"
definition header_setid :: "bytes \<Rightarrow> bytes" where "header_setid h = field OFF_SETID 16 h"
definition header_type :: "bytes \<Rightarrow> bytes" where "header_type h = field OFF_TYPE 16 h"

text \<open>The MD5 of a range of memory, as computed with a fresh \<^verbatim>\<open>MD5Context\<close>.\<close>

definition md5_of :: "bytes \<Rightarrow> bytes" where
  "md5_of data = md5_end (md5_update data md5_single_new)"

section \<open>Critical packets\<close>

record critical_packet =
  cp_data :: bytes
  cp_length :: nat

definition allocate_packet :: "nat \<Rightarrow> nat \<Rightarrow> critical_packet" where
  "allocate_packet len extra = \<lparr>cp_data = replicate (len + extra) 0, cp_length = len\<rparr>"

definition cp_store :: "nat \<Rightarrow> bytes \<Rightarrow> critical_packet \<Rightarrow> critical_packet" where
  "cp_store off bs p = p\<lparr>cp_data := memcpy (cp_data p) off bs\<rparr>"

definition cp_fields :: "bytes \<Rightarrow> critical_packet \<Rightarrow> critical_packet" where
  "cp_fields type p =
     cp_store OFF_TYPE type (cp_store OFF_LENGTH (leu64_bytes (word_of_nat (cp_length p))) (cp_store 0 packet_magic p))"

definition cp_write :: "u64 \<Rightarrow> diskfile \<Rightarrow> fs \<Rightarrow> critical_packet \<Rightarrow> (bool \<times> diskfile \<times> fs) option" where
  "cp_write fileoffset d fs p = disk_write fileoffset (take (cp_length p) (cp_data p)) MAX_LENGTH d fs"

definition cp_hash :: "critical_packet \<Rightarrow> critical_packet" where
  "cp_hash p = cp_store OFF_HASH (md5_of (take (cp_length p - OFF_SETID) (drop OFF_SETID (cp_data p)))) p"

definition cp_finish :: "bytes \<Rightarrow> critical_packet \<Rightarrow> critical_packet" where
  "cp_finish setid p = cp_hash (cp_store OFF_SETID setid p)"

definition cp_type_value :: "critical_packet \<Rightarrow> nat" where
  "cp_type_value p =
     (let t = cp_data p ! (OFF_TYPE + 8)
      in if t = of_char CHR ''M'' then 0
         else if t = of_char CHR ''F'' then 1
         else if t = of_char CHR ''I'' then 2
         else if t = of_char CHR ''C'' then 3
         else if t = of_char CHR ''R'' then 4
         else 5)"

definition cp_compare_less :: "critical_packet \<Rightarrow> critical_packet \<Rightarrow> bool" where
  "cp_compare_less left right =
     (if cp_type_value left < cp_type_value right then True
      else if cp_type_value left > cp_type_value right then False
      else if cp_type_value left = 1 then md5_less (field 64 16 (cp_data left)) (field 64 16 (cp_data right))
      else if cp_type_value left = 2 then md5_less (field 64 16 (cp_data left)) (field 64 16 (cp_data right))
      else if cp_type_value left = 4 then load32 (cp_data left) 64 < load32 (cp_data right) 64
      else False)"

text \<open>
  What the \<^verbatim>\<open>Load\<close> of the critical packets share: the header is copied into a new packet and the rest
  read from disk behind it. The flag is the result of the read.
\<close>

definition cp_load :: "nat \<Rightarrow> diskfile \<Rightarrow> fs \<Rightarrow> u64 \<Rightarrow> bytes \<Rightarrow> (bool \<times> critical_packet \<times> diskfile) option" where
  "cp_load extra d fs off header =
     (let p = cp_store 0 header (allocate_packet (unat (header_length header)) extra)
      in case disk_read (off + 64) (unat (header_length header) - SIZEOF_HEADER) MAX_LENGTH d fs of
           None \<Rightarrow> None
         | Some (ok, got, d) \<Rightarrow> Some (ok, cp_store SIZEOF_HEADER got p, d))"

section \<open>The main packet\<close>

record main_packet =
  mp_packet :: critical_packet
  mp_blocksize :: u64
  mp_totalfilecount :: u32
  mp_recoverablefilecount :: u32

text \<open>\<^verbatim>\<open>std::sort\<close> with a strict order.\<close>

fun insert_by :: "('a \<Rightarrow> 'a \<Rightarrow> bool) \<Rightarrow> 'a \<Rightarrow> 'a list \<Rightarrow> 'a list" where
  "insert_by lt x [] = [x]"
| "insert_by lt x (y # ys) = (if lt y x then y # insert_by lt x ys else x # y # ys)"

fun sort_by :: "('a \<Rightarrow> 'a \<Rightarrow> bool) \<Rightarrow> 'a list \<Rightarrow> 'a list" where
  "sort_by lt [] = []"
| "sort_by lt (x # xs) = insert_by lt x (sort_by lt xs)"

text \<open>The source files are seen through their file ids; the sorted files are returned.\<close>

definition main_packet_create :: "('f \<Rightarrow> bytes) \<Rightarrow> 'f list \<Rightarrow> u64 \<Rightarrow> main_packet \<times> 'f list" where
  "main_packet_create fileid sourcefiles blocksize =
     (let totalfilecount = word_of_nat (length sourcefiles) :: u32;
          p = cp_fields mainpacket_type (allocate_packet (SIZEOF_MAIN + unat totalfilecount * 16) 0);
          p = cp_store 64 (leu64_bytes blocksize) p;
          p = cp_store 72 (leu32_bytes totalfilecount) p;
          sourcefiles = (if totalfilecount > 1 then sort_by (\<lambda>l r. md5_less (fileid l) (fileid r)) sourcefiles else sourcefiles);
          p = cp_store SIZEOF_MAIN (concat (map fileid sourcefiles)) p;
          p = cp_store OFF_SETID (md5_of (take (cp_length p - 64) (drop 64 (cp_data p)))) p
      in (\<lparr>mp_packet = cp_hash p, mp_blocksize = blocksize,
           mp_totalfilecount = totalfilecount, mp_recoverablefilecount = totalfilecount\<rparr>, sourcefiles))"

definition main_packet_load :: "diskfile \<Rightarrow> fs \<Rightarrow> u64 \<Rightarrow> bytes \<Rightarrow> (main_packet option \<times> diskfile) option" where
  "main_packet_load d fs off header =
     (if header_length header < 76 then Some (None, d)
      else if 0 < (header_length header - 76) mod 16 then Some (None, d)
      else if header_length header > 76 + 32768 * 16 then Some (None, d)
      else let totalfilecount = ucast ((header_length header - 76) div 16) :: u32
           in case cp_load 0 d fs off header of
                None \<Rightarrow> None
              | Some (False, p, d) \<Rightarrow> Some (None, d)
              | Some (True, p, d) \<Rightarrow>
                  let recoverablefilecount = load32 (cp_data p) 72;
                      blocksize = load64 (cp_data p) 64
                  in if recoverablefilecount > totalfilecount then Some (None, d)
                     else if blocksize = 0 \<or> blocksize AND 3 \<noteq> 0 then Some (None, d)
                     else Some (Some \<lparr>mp_packet = p, mp_blocksize = blocksize, mp_totalfilecount = totalfilecount,
                                      mp_recoverablefilecount = recoverablefilecount\<rparr>, d))"

definition main_packet_fileid :: "nat \<Rightarrow> main_packet \<Rightarrow> bytes" where
  "main_packet_fileid filenumber mp = field (SIZEOF_MAIN + filenumber * 16) 16 (cp_data (mp_packet mp))"

definition main_packet_setid :: "main_packet \<Rightarrow> bytes" where
  "main_packet_setid mp = header_setid (cp_data (mp_packet mp))"

section \<open>The verification packet\<close>

record verification_packet =
  vp_packet :: critical_packet
  vp_blockcount :: u32

definition verification_packet_create :: "u32 \<Rightarrow> verification_packet" where
  "verification_packet_create blockcount =
     \<lparr>vp_packet = cp_fields fileverificationpacket_type (allocate_packet (SIZEOF_VERIFICATION + unat blockcount * SIZEOF_ENTRY) 0),
      vp_blockcount = blockcount\<rparr>"

definition verification_packet_set_fileid :: "bytes \<Rightarrow> verification_packet \<Rightarrow> verification_packet" where
  "verification_packet_set_fileid fileid vp = vp\<lparr>vp_packet := cp_store 64 fileid (vp_packet vp)\<rparr>"

definition set_block_hash_crc :: "nat \<Rightarrow> bytes \<Rightarrow> u32 \<Rightarrow> verification_packet \<Rightarrow> verification_packet" where
  "set_block_hash_crc blocknumber hash crc vp =
     vp\<lparr>vp_packet := cp_store (SIZEOF_VERIFICATION + blocknumber * SIZEOF_ENTRY + 16) (leu32_bytes crc)
          (cp_store (SIZEOF_VERIFICATION + blocknumber * SIZEOF_ENTRY) hash (vp_packet vp))\<rparr>"

definition verification_packet_load :: "diskfile \<Rightarrow> fs \<Rightarrow> u64 \<Rightarrow> bytes \<Rightarrow> (verification_packet option \<times> diskfile) option" where
  "verification_packet_load d fs off header =
     (if header_length header \<le> 80 then Some (None, d)
      else if 0 < (header_length header - 80) mod 20 then Some (None, d)
      else if header_length header > 80 + 32768 * 20 then Some (None, d)
      else case cp_load 0 d fs off header of
             None \<Rightarrow> None
           | Some (ok, p, d) \<Rightarrow>
               Some (if ok then Some \<lparr>vp_packet = p, vp_blockcount = ucast ((header_length header - 80) div 20)\<rparr> else None, d))"

definition vp_fileid :: "verification_packet \<Rightarrow> bytes" where
  "vp_fileid vp = field 64 16 (cp_data (vp_packet vp))"

definition vp_entry :: "nat \<Rightarrow> verification_packet \<Rightarrow> bytes \<times> u32" where
  "vp_entry blocknumber vp =
     (field (SIZEOF_VERIFICATION + blocknumber * SIZEOF_ENTRY) 16 (cp_data (vp_packet vp)),
      load32 (cp_data (vp_packet vp)) (SIZEOF_VERIFICATION + blocknumber * SIZEOF_ENTRY + 16))"

section \<open>The description packet\<close>

text \<open>\<^verbatim>\<open>~3 & (3 + size)\<close> in 32 bits: the size of a text padded to a multiple of four.\<close>

definition pad4 :: "nat \<Rightarrow> nat" where
  "pad4 n = unat (NOT 3 AND (3 + word_of_nat n) :: u32)"

definition description_packet_create :: "string \<Rightarrow> u64 \<Rightarrow> critical_packet" where
  "description_packet_create filename filesize =
     (let p = cp_fields filedescriptionpacket_type (allocate_packet (SIZEOF_DESCRIPTION + pad4 (length filename)) 4)
      in cp_store SIZEOF_DESCRIPTION (map of_char filename) (cp_store 112 (leu64_bytes filesize) p))"

definition dp_set_hash16k :: "bytes \<Rightarrow> critical_packet \<Rightarrow> critical_packet" where
  "dp_set_hash16k hash p = cp_store 96 hash p"

definition dp_set_hashfull :: "bytes \<Rightarrow> critical_packet \<Rightarrow> critical_packet" where
  "dp_set_hashfull hash p = cp_store 80 hash p"

definition dp_fileid :: "critical_packet \<Rightarrow> bytes" where "dp_fileid p = field 64 16 (cp_data p)"
definition dp_hashfull :: "critical_packet \<Rightarrow> bytes" where "dp_hashfull p = field 80 16 (cp_data p)"
definition dp_hash16k :: "critical_packet \<Rightarrow> bytes" where "dp_hash16k p = field 96 16 (cp_data p)"
definition dp_filesize :: "critical_packet \<Rightarrow> u64" where "dp_filesize p = load64 (cp_data p) 112"

text \<open>The name reads to the first zero byte, which the extra bytes provide.\<close>

definition dp_name :: "critical_packet \<Rightarrow> bytes" where
  "dp_name p = takeWhile (\<lambda>b. b \<noteq> 0) (drop SIZEOF_DESCRIPTION (cp_data p))"

definition dp_filename :: "critical_packet \<Rightarrow> string" where
  "dp_filename p = map (\<lambda>b. char_of (unat b)) (dp_name p)"

definition dp_compute_fileid :: "critical_packet \<Rightarrow> critical_packet" where
  "dp_compute_fileid p = cp_store 64 (md5_of (take (SIZEOF_DESCRIPTION - 96 + length (dp_name p)) (drop 96 (cp_data p)))) p"

definition description_packet_load :: "diskfile \<Rightarrow> fs \<Rightarrow> u64 \<Rightarrow> bytes \<Rightarrow> (critical_packet option \<times> diskfile) option" where
  "description_packet_load d fs off header =
     (if header_length header \<le> 120 then Some (None, d)
      else if header_length header - 120 > 100000 then Some (None, d)
      else case cp_load 4 d fs off header of
             None \<Rightarrow> None
           | Some (False, p, d) \<Rightarrow> Some (None, d)
           | Some (True, p, d) \<Rightarrow>
               Some (if dp_filesize p \<le> 16384 \<and> dp_hash16k p \<noteq> dp_hashfull p then None else Some p, d))"

section \<open>The creator packet\<close>

text \<open>The text names the program and its version, which the build defines.\<close>

definition creator_packet_create :: "string \<Rightarrow> bytes \<Rightarrow> critical_packet" where
  "creator_packet_create creator setid =
     (let p = cp_fields creatorpacket_type (allocate_packet (SIZEOF_HEADER + pad4 (length creator)) 0)
      in cp_hash (cp_store 64 (map of_char creator) (cp_store OFF_SETID setid p)))"

definition creator_packet_load :: "diskfile \<Rightarrow> fs \<Rightarrow> u64 \<Rightarrow> bytes \<Rightarrow> (critical_packet option \<times> diskfile) option" where
  "creator_packet_load d fs off header =
     (if header_length header \<le> 64 then Some (None, d)
      else if header_length header - 64 > 100000 then Some (None, d)
      else case cp_load 4 d fs off header of
             None \<Rightarrow> None
           | Some (ok, p, d) \<Rightarrow> Some (if ok then Some p else None, d))"

section \<open>The recovery packet\<close>

record recovery_packet =
  rp_diskfile :: nat
  rp_offset :: u64
  rp_packet :: bytes
  rp_context :: md5_single
  rp_datablock :: datablock

definition recovery_packet_new :: recovery_packet where
  "recovery_packet_new =
     \<lparr>rp_diskfile = 0, rp_offset = 0, rp_packet = replicate 68 0, rp_context = md5_single_new, rp_datablock = datablock_new\<rparr>"

definition recovery_packet_create :: "nat \<Rightarrow> u64 \<Rightarrow> u64 \<Rightarrow> u32 \<Rightarrow> bytes \<Rightarrow> recovery_packet \<Rightarrow> recovery_packet" where
  "recovery_packet_create diskfile off blocksize exponent setid rp =
     (let p = memcpy (rp_packet rp) 0 packet_magic;
          p = memcpy p OFF_LENGTH (leu64_bytes (68 + blocksize));
          p = memcpy p OFF_SETID setid;
          p = memcpy p OFF_TYPE recoveryblockpacket_type;
          p = memcpy p 64 (leu32_bytes exponent)
      in rp\<lparr>rp_diskfile := diskfile, rp_offset := off, rp_packet := p,
            rp_context := md5_update (drop OFF_SETID p) md5_single_new,
            rp_datablock := db_set_length blocksize (db_set_location (Some diskfile) (off + 68) (rp_datablock rp))\<rparr>)"

definition recovery_packet_write_data ::
  "u64 \<Rightarrow> bytes \<Rightarrow> recovery_packet \<Rightarrow> disk_store \<Rightarrow> fs \<Rightarrow> (bool \<times> recovery_packet \<times> disk_store \<times> fs) option" where
  "recovery_packet_write_data position buffer rp store fs =
     (let rp = rp\<lparr>rp_context := md5_update buffer (rp_context rp)\<rparr>
      in case db_write_data position buffer (rp_datablock rp) store fs of
           None \<Rightarrow> None
         | Some (ok, wrote, store, fs) \<Rightarrow> Some (ok, rp, store, fs))"

definition recovery_packet_write_header ::
  "recovery_packet \<Rightarrow> disk_store \<Rightarrow> fs \<Rightarrow> (bool \<times> recovery_packet \<times> disk_store \<times> fs) option" where
  "recovery_packet_write_header rp store fs =
     (let rp = rp\<lparr>rp_packet := memcpy (rp_packet rp) OFF_HASH (md5_end (rp_context rp))\<rparr>
      in case disk_write (rp_offset rp) (rp_packet rp) MAX_LENGTH (store (rp_diskfile rp)) fs of
           None \<Rightarrow> None
         | Some (ok, d, fs) \<Rightarrow> Some (ok, rp, store(rp_diskfile rp := d), fs))"

definition recovery_packet_load ::
  "nat \<Rightarrow> u64 \<Rightarrow> bytes \<Rightarrow> disk_store \<Rightarrow> fs \<Rightarrow> (recovery_packet option \<times> disk_store) option" where
  "recovery_packet_load diskfile off header store fs =
     (if header_length header \<le> 68 then Some (None, store)
      else let rp = recovery_packet_new\<lparr>rp_diskfile := diskfile, rp_offset := off,
                      rp_packet := memcpy (rp_packet recovery_packet_new) 0 header,
                      rp_datablock := db_set_length (header_length header - 68)
                        (db_set_location (Some diskfile) (off + 68) datablock_new)\<rparr>
           in case disk_read (off + 64) 4 MAX_LENGTH (store diskfile) fs of
                None \<Rightarrow> None
              | Some (ok, got, d) \<Rightarrow>
                  Some (if ok then Some (rp\<lparr>rp_packet := memcpy (rp_packet rp) 64 got\<rparr>) else None, store(diskfile := d)))"

definition rp_exponent :: "recovery_packet \<Rightarrow> u32" where
  "rp_exponent rp = load32 (rp_packet rp) 64"

definition rp_blocksize :: "recovery_packet \<Rightarrow> u64" where
  "rp_blocksize rp = header_length (rp_packet rp) - 68"

end
