(* ===== verification/Par2State.thy ===== *)
theory Par2State
  imports Packets DiskPaths
begin

text \<open>
  The state of \<^verbatim>\<open>Par2Repairer\<close> (\<^verbatim>\<open>par2repairer.h\<close>) and of its source files
  (\<^verbatim>\<open>par2repairersourcefile.h\<close>). Objects the code allocates are addressed by numbers: a disk
  file by its place in the store of disk files, a source file by its place in \<open>pr_files\<close>, a
  data block by its place in \<open>pr_sourceblocks\<close> or \<open>pr_targetblocks\<close>; a null pointer is \<open>None\<close>.
\<close>

section \<open>Source files\<close>

record source_file =
  sf_description :: "critical_packet option"
  sf_verification :: "verification_packet option"
  sf_blockcount :: u32
  sf_firstblocknumber :: u32
  sf_sourceblocks :: "nat option"
  sf_targetblocks :: "nat option"
  sf_targetexists :: bool
  sf_targetfile :: "nat option"
  sf_completefile :: "nat option"
  sf_targetfilename :: string
  sf_diskfilesize :: u64

definition source_file_new :: "critical_packet option \<Rightarrow> verification_packet option \<Rightarrow> source_file" where
  "source_file_new descriptionpacket verificationpacket =
     \<lparr>sf_description = descriptionpacket, sf_verification = verificationpacket, sf_blockcount = 0, sf_firstblocknumber = 0,
      sf_sourceblocks = None, sf_targetblocks = None, sf_targetexists = False, sf_targetfile = None,
      sf_completefile = None, sf_targetfilename = [], sf_diskfilesize = 0\<rparr>"

definition sf_set_block_count :: "u64 \<Rightarrow> source_file \<Rightarrow> source_file" where
  "sf_set_block_count blocksize sf =
     sf\<lparr>sf_blockcount := (case sf_description sf of
          None \<Rightarrow> 0
        | Some p \<Rightarrow> ucast ((dp_filesize p + blocksize - 1) div blocksize))\<rparr>"

section \<open>The repairer\<close>

datatype block_ref = SourceBlock nat | TargetBlock nat | RecoveryBlock u32

record repairer =
  pr_store :: disk_store
  pr_nextdisk :: nat
  pr_diskfilemap :: "nat diskfile_map"
  pr_skipdata :: bool
  pr_skipleaway :: u64
  pr_firstpacket :: bool
  pr_setid :: bytes
  pr_recoverypackets :: "(u32 \<times> recovery_packet) list"
  pr_mainpacket :: "main_packet option"
  pr_creatorpacket :: "critical_packet option"
  pr_sourcefilemap :: "(bytes \<times> nat) list"
  pr_files :: "source_file list"
  pr_sourcefiles :: "nat option list"
  pr_verifylist :: "nat list"
  pr_backuplist :: "nat list"
  pr_par2list :: "string list"
  pr_blocksize :: u64
  pr_chunksize :: u64
  pr_sourceblockcount :: u32
  pr_availableblockcount :: u32
  pr_missingblockcount :: u32
  pr_blocksallocated :: bool
  pr_sourceblocks :: "datablock list"
  pr_targetblocks :: "datablock list"
  pr_windowtable :: "u32 list"
  pr_blockverifiable :: bool
  pr_table :: vtable
  pr_unverifiable :: "nat list"
  pr_completefilecount :: u32
  pr_renamedfilecount :: u32
  pr_damagedfilecount :: u32
  pr_missingfilecount :: u32
  pr_inputblocks :: "block_ref option list"
  pr_copyblocks :: "block_ref option list"
  pr_outputblocks :: "block_ref option list"

definition repairer_new :: repairer where
  "repairer_new =
     \<lparr>pr_store = (\<lambda>_. diskfile_new), pr_nextdisk = 0, pr_diskfilemap = Map.empty, pr_skipdata = False, pr_skipleaway = 0,
      pr_firstpacket = True, pr_setid = replicate 16 0, pr_recoverypackets = [], pr_mainpacket = None, pr_creatorpacket = None,
      pr_sourcefilemap = [], pr_files = [], pr_sourcefiles = [], pr_verifylist = [], pr_backuplist = [], pr_par2list = [],
      pr_blocksize = 0, pr_chunksize = 0, pr_sourceblockcount = 0, pr_availableblockcount = 0, pr_missingblockcount = 0,
      pr_blocksallocated = False, pr_sourceblocks = [], pr_targetblocks = [], pr_windowtable = replicate 256 0,
      pr_blockverifiable = False, pr_table = vt_empty, pr_unverifiable = [],
      pr_completefilecount = 0, pr_renamedfilecount = 0, pr_damagedfilecount = 0, pr_missingfilecount = 0,
      pr_inputblocks = [], pr_copyblocks = [], pr_outputblocks = []\<rparr>"

text \<open>\<^verbatim>\<open>new DiskFile\<close>.\<close>

definition new_disk :: "repairer \<Rightarrow> nat \<times> repairer" where
  "new_disk r = (pr_nextdisk r, r\<lparr>pr_nextdisk := Suc (pr_nextdisk r), pr_store := (pr_store r)(pr_nextdisk r := diskfile_new)\<rparr>)"

definition set_disk :: "nat \<Rightarrow> diskfile \<Rightarrow> repairer \<Rightarrow> repairer" where
  "set_disk p d r = r\<lparr>pr_store := (pr_store r)(p := d)\<rparr>"

definition upd_file :: "nat \<Rightarrow> (source_file \<Rightarrow> source_file) \<Rightarrow> repairer \<Rightarrow> repairer" where
  "upd_file i f r = r\<lparr>pr_files := (pr_files r)[i := f (pr_files r ! i)]\<rparr>"

text \<open>\<^verbatim>\<open>std::map::insert\<close> on a map that iterates in the order of its keys: an existing key is kept.\<close>

fun map_add_new :: "'k::linorder \<Rightarrow> 'v \<Rightarrow> ('k \<times> 'v) list \<Rightarrow> ('k \<times> 'v) list" where
  "map_add_new k v [] = [(k, v)]"
| "map_add_new k v ((k', v') # m) =
     (if k' < k then (k', v') # map_add_new k v m else if k < k' then (k, v) # (k', v') # m else (k', v') # m)"

end
