(* ===== verification/PacketLoader.thy ===== *)
theory PacketLoader
  imports Par2State "HOL-Library.Monad_Syntax"
begin

unbundle bit_operations_syntax

text \<open>
  \<^verbatim>\<open>Par2Repairer::LoadPacketsFromFile\<close>: the scan of a PAR2 file for packets and the storing of those
  found. The two loops over the file are partial functions, so that not returning is \<open>None\<close>.
\<close>

section \<open>Storing a packet\<close>

text \<open>Each function returns whether the packet was new and could be loaded.\<close>

definition load_recovery_packet :: "nat \<Rightarrow> fs \<Rightarrow> u64 \<Rightarrow> bytes \<Rightarrow> repairer \<Rightarrow> (bool \<times> repairer) option" where
  "load_recovery_packet diskfile fs off header r =
     (case recovery_packet_load diskfile off header (pr_store r) fs of
        None \<Rightarrow> None
      | Some (None, store) \<Rightarrow> Some (False, r\<lparr>pr_store := store\<rparr>)
      | Some (Some packet, store) \<Rightarrow>
          let r = r\<lparr>pr_store := store\<rparr>
          in if map_of (pr_recoverypackets r) (rp_exponent packet) \<noteq> None then Some (False, r)
             else Some (True, r\<lparr>pr_recoverypackets := map_add_new (rp_exponent packet) packet (pr_recoverypackets r)\<rparr>))"

definition load_description_packet :: "nat \<Rightarrow> fs \<Rightarrow> u64 \<Rightarrow> bytes \<Rightarrow> repairer \<Rightarrow> (bool \<times> repairer) option" where
  "load_description_packet diskfile fs off header r =
     (case description_packet_load (pr_store r diskfile) fs off header of
        None \<Rightarrow> None
      | Some (None, d) \<Rightarrow> Some (False, set_disk diskfile d r)
      | Some (Some packet, d) \<Rightarrow>
          let r = set_disk diskfile d r
          in case map_of (pr_sourcefilemap r) (dp_fileid packet) of
               Some i \<Rightarrow>
                 (case sf_description (pr_files r ! i) of
                    Some _ \<Rightarrow> Some (False, r)
                  | None \<Rightarrow> Some (True, upd_file i (\<lambda>sf. sf\<lparr>sf_description := Some packet\<rparr>) r))
             | None \<Rightarrow>
                 Some (True, r\<lparr>pr_files := pr_files r @ [source_file_new (Some packet) None],
                               pr_sourcefilemap := pr_sourcefilemap r @ [(dp_fileid packet, length (pr_files r))]\<rparr>))"

definition load_verification_packet :: "nat \<Rightarrow> fs \<Rightarrow> u64 \<Rightarrow> bytes \<Rightarrow> repairer \<Rightarrow> (bool \<times> repairer) option" where
  "load_verification_packet diskfile fs off header r =
     (case verification_packet_load (pr_store r diskfile) fs off header of
        None \<Rightarrow> None
      | Some (None, d) \<Rightarrow> Some (False, set_disk diskfile d r)
      | Some (Some packet, d) \<Rightarrow>
          let r = set_disk diskfile d r
          in case map_of (pr_sourcefilemap r) (vp_fileid packet) of
               Some i \<Rightarrow>
                 (case sf_verification (pr_files r ! i) of
                    Some _ \<Rightarrow> Some (False, r)
                  | None \<Rightarrow> Some (True, upd_file i (\<lambda>sf. sf\<lparr>sf_verification := Some packet\<rparr>) r))
             | None \<Rightarrow>
                 Some (True, r\<lparr>pr_files := pr_files r @ [source_file_new None (Some packet)],
                               pr_sourcefilemap := pr_sourcefilemap r @ [(vp_fileid packet, length (pr_files r))]\<rparr>))"

definition load_main_packet :: "nat \<Rightarrow> fs \<Rightarrow> u64 \<Rightarrow> bytes \<Rightarrow> repairer \<Rightarrow> (bool \<times> repairer) option" where
  "load_main_packet diskfile fs off header r =
     (if pr_mainpacket r \<noteq> None then Some (False, r)
      else case main_packet_load (pr_store r diskfile) fs off header of
             None \<Rightarrow> None
           | Some (None, d) \<Rightarrow> Some (False, set_disk diskfile d r)
           | Some (Some packet, d) \<Rightarrow> Some (True, (set_disk diskfile d r)\<lparr>pr_mainpacket := Some packet\<rparr>))"

definition load_creator_packet :: "nat \<Rightarrow> fs \<Rightarrow> u64 \<Rightarrow> bytes \<Rightarrow> repairer \<Rightarrow> (bool \<times> repairer) option" where
  "load_creator_packet diskfile fs off header r =
     (if pr_creatorpacket r \<noteq> None then Some (False, r)
      else case creator_packet_load (pr_store r diskfile) fs off header of
             None \<Rightarrow> None
           | Some (None, d) \<Rightarrow> Some (False, set_disk diskfile d r)
           | Some (Some packet, d) \<Rightarrow> Some (True, (set_disk diskfile d r)\<lparr>pr_creatorpacket := Some packet\<rparr>))"

definition load_packet :: "nat \<Rightarrow> fs \<Rightarrow> u64 \<Rightarrow> bytes \<Rightarrow> repairer \<Rightarrow> (bool \<times> repairer) option" where
  "load_packet diskfile fs off header r =
     (if header_type header = recoveryblockpacket_type then load_recovery_packet diskfile fs off header r
      else if header_type header = fileverificationpacket_type then load_verification_packet diskfile fs off header r
      else if header_type header = filedescriptionpacket_type then load_description_packet diskfile fs off header r
      else if header_type header = mainpacket_type then load_main_packet diskfile fs off header r
      else if header_type header = creatorpacket_type then load_creator_packet diskfile fs off header r
      else Some (False, r))"

section \<open>Finding a packet\<close>

text \<open>The scan of the buffer: the first position up to the limit with the magic, or the one behind it.\<close>

fun scan_magic :: "nat \<Rightarrow> nat \<Rightarrow> bytes \<Rightarrow> nat" where
  "scan_magic current 0 buffer = (if header_magic (drop current buffer) \<noteq> packet_magic then current + 1 else current)"
| "scan_magic current (Suc n) buffer =
     (if header_magic (drop current buffer) \<noteq> packet_magic then scan_magic (current + 1) n buffer else current)"

text \<open>The loop that looks for the magic in the rest of the file; it returns the offset, and the header if found.\<close>

partial_function (option) find_magic ::
  "fs \<Rightarrow> u64 \<Rightarrow> u64 \<Rightarrow> u64 \<Rightarrow> diskfile \<Rightarrow> (u64 \<times> bytes option \<times> diskfile) option" where
  "find_magic fs buffersize filesize off d =
     (if off + 64 \<le> filesize
      then let want = min buffersize (filesize - off)
           in do {
                (ok, buffer, d) \<leftarrow> disk_read off (unat want) MAX_LENGTH d fs;
                if \<not> ok then Some (filesize, None, d)
                else let current = scan_magic 0 (unat want - SIZEOF_HEADER) buffer;
                         off = off + word_of_nat current
                     in if current \<le> unat want - SIZEOF_HEADER then Some (off, Some (field current SIZEOF_HEADER buffer), d)
                        else find_magic fs buffersize filesize off d
              }
      else Some (off, None, d))"

text \<open>The hash over the rest of the packet; the flag says whether all of it could be read.\<close>

partial_function (option) hash_packet ::
  "fs \<Rightarrow> u64 \<Rightarrow> u64 \<Rightarrow> u64 \<Rightarrow> md5_single \<Rightarrow> diskfile \<Rightarrow> (bool \<times> md5_single \<times> diskfile) option" where
  "hash_packet fs buffersize limit current context d =
     (if current < limit
      then let want = min buffersize (limit - current)
           in do {
                (ok, buffer, d) \<leftarrow> disk_read current (unat want) MAX_LENGTH d fs;
                if \<not> ok then Some (False, context, d)
                else hash_packet fs buffersize limit (current + want) (md5_update buffer context) d
              }
      else Some (True, context, d))"

section \<open>The loop over the file\<close>

text \<open>The packet at an offset with the magic: the offset to continue at.\<close>

definition process_packet :: "nat \<Rightarrow> fs \<Rightarrow> u64 \<Rightarrow> u64 \<Rightarrow> u64 \<Rightarrow> bytes \<Rightarrow> u32 \<Rightarrow> repairer \<Rightarrow> (u64 \<times> u32 \<times> repairer) option" where
  "process_packet diskfile fs buffersize filesize off header packets r =
     (if 64 > header_length header \<or> header_length header AND 3 \<noteq> 0 \<or> filesize < off + header_length header
      then Some (off + 1, packets, r)
      else case hash_packet fs buffersize (off + header_length header) (off + 64)
                  (md5_update (drop OFF_SETID header) md5_single_new) (pr_store r diskfile) of
             None \<Rightarrow> None
           | Some (False, context, d) \<Rightarrow> Some (off + 1, packets, set_disk diskfile d r)
           | Some (True, context, d) \<Rightarrow>
               let r = set_disk diskfile d r
               in if md5_end context \<noteq> header_hash header then Some (off + 1, packets, r)
                  else let r = (if pr_firstpacket r then r\<lparr>pr_setid := header_setid header, pr_firstpacket := False\<rparr> else r)
                       in if pr_setid r = header_setid header
                          then (case load_packet diskfile fs off header r of
                                  None \<Rightarrow> None
                                | Some (loaded, r) \<Rightarrow>
                                    Some (off + header_length header, if loaded then packets + 1 else packets, r))
                          else Some (off + header_length header, packets, r))"

text \<open>One round: \<open>Inl\<close> leaves the loop.\<close>

definition load_round ::
  "nat \<Rightarrow> fs \<Rightarrow> u64 \<Rightarrow> u64 \<Rightarrow> u64 \<Rightarrow> u32 \<Rightarrow> repairer \<Rightarrow> ((u32 \<times> repairer) + (u64 \<times> u32 \<times> repairer)) option" where
  "load_round diskfile fs buffersize filesize off packets r =
     (case disk_read off 64 MAX_LENGTH (pr_store r diskfile) fs of
        None \<Rightarrow> None
      | Some (False, got, d) \<Rightarrow> Some (Inl (packets, set_disk diskfile d r))
      | Some (True, header, d) \<Rightarrow>
          let r = set_disk diskfile d r
          in if header_magic header \<noteq> packet_magic
             then (case find_magic fs buffersize filesize (off + 1) (pr_store r diskfile) of
                     None \<Rightarrow> None
                   | Some (off, None, d) \<Rightarrow> Some (Inl (packets, set_disk diskfile d r))
                   | Some (off, Some header, d) \<Rightarrow>
                       map_option Inr (process_packet diskfile fs buffersize filesize off header packets (set_disk diskfile d r)))
             else map_option Inr (process_packet diskfile fs buffersize filesize off header packets r))"

partial_function (option) load_loop ::
  "nat \<Rightarrow> fs \<Rightarrow> u64 \<Rightarrow> u64 \<Rightarrow> u64 \<Rightarrow> u32 \<Rightarrow> repairer \<Rightarrow> (u32 \<times> repairer) option" where
  "load_loop diskfile fs buffersize filesize off packets r =
     (if off + 64 \<le> filesize
      then do {
             res \<leftarrow> load_round diskfile fs buffersize filesize off packets r;
             case res of
               Inl result \<Rightarrow> Some result
             | Inr (off, packets, r) \<Rightarrow> load_loop diskfile fs buffersize filesize off packets r
           }
      else Some (packets, r))"

definition load_packets_from_file :: "string \<Rightarrow> fs \<Rightarrow> repairer \<Rightarrow> repairer option" where
  "load_packets_from_file filename fs r =
     (if map_find filename (pr_diskfilemap r) \<noteq> None then Some r
      else case new_disk r of
             (diskfile, r) \<Rightarrow>
               (case disk_open filename (pr_store r diskfile) fs of
                  (False, d) \<Rightarrow> Some (set_disk diskfile d r)
                | (True, d) \<Rightarrow>
                    let r = set_disk diskfile d r;
                        filesize = df_filesize d;
                        buffersize = min 1048576 filesize
                    in case (if filesize > 0 then load_loop diskfile fs buffersize filesize 0 0 r else Some (0, r)) of
                         None \<Rightarrow> None
                       | Some (packets, r) \<Rightarrow>
                           let r = set_disk diskfile (disk_close (pr_store r diskfile)) r
                           in Some (if packets > 0
                                    then r\<lparr>pr_diskfilemap := snd (map_insert filename diskfile (pr_diskfilemap r))\<rparr>
                                    else r)))"

end
