(* ===== verification/Packets_Correct.thy ===== *)
theory Packets_Correct
  imports Packets "HOL-Library.Multiset"
begin

unbundle bit_operations_syntax

text \<open>
  Fields of packets after stores, and what the packets made by the \<^verbatim>\<open>Create\<close> functions look like
  to a reader: the header is valid, the hash is right, and loading a packet from a file that has its
  bytes gives the packet back. Reads over stores are collected in \<open>field_simps'\<close>.
\<close>

section \<open>Fields\<close>

named_theorems packet_simps

lemma length_field [packet_simps]: "off + n \<le> length data \<Longrightarrow> length (field off n data) = n"
  by (simp add: field_def)

lemma field_memcpy [packet_simps]:
  assumes "off + length src \<le> length dst"
  shows "length src = n \<Longrightarrow> field off n (memcpy dst off src) = src"
    and "off' + n \<le> off \<Longrightarrow> field off' n (memcpy dst off src) = field off' n dst"
    and "off + length src \<le> off' \<Longrightarrow> field off' n (memcpy dst off src) = field off' n dst"
proof -
  show "length src = n \<Longrightarrow> field off n (memcpy dst off src) = src" using assms by (simp add: field_def memcpy_def)
  show "off' + n \<le> off \<Longrightarrow> field off' n (memcpy dst off src) = field off' n dst"
    using assms by (simp add: field_def memcpy_def drop_take)
  show "off + length src \<le> off' \<Longrightarrow> field off' n (memcpy dst off src) = field off' n dst"
    using assms by (simp add: field_def memcpy_def)
qed

lemma field_field: "off' + n' \<le> n \<Longrightarrow> field off' n' (field off n data) = field (off + off') n' data"
  by (simp add: field_def drop_take take_take add.commute min_absorb1)

lemma field_take: "off + n \<le> m \<Longrightarrow> field off n (take m data) = field off n data"
  by (simp add: field_def drop_take take_take min_absorb1)

lemma field_drop: "field off n (drop m data) = field (m + off) n data"
  by (simp add: field_def add.commute)

lemma load64_value: "off + 8 \<le> length data \<Longrightarrow> leu64_value (field off 8 data) = Some (load64 data off)"
proof -
  assume len: "off + 8 \<le> length data"
  have "field off 8 data = [data ! off, data ! (off + 1), data ! (off + 2), data ! (off + 3),
      data ! (off + 4), data ! (off + 5), data ! (off + 6), data ! (off + 7)]"
    using len by (intro nth_equalityI) (auto simp: field_def less_Suc_eq numeral_eq_Suc)
  then show ?thesis by (simp add: load64_def)
qed

lemma load64_field: "off + 8 \<le> length data \<Longrightarrow> field off 8 data = leu64_bytes v \<Longrightarrow> load64 data off = v"
  using load64_value [of off data] by (simp add: leu64_roundtrip)

lemma load32_field: "off + 4 \<le> length data \<Longrightarrow> field off 4 data = leu32_bytes v \<Longrightarrow> load32 data off = v"
  using load32_leu32 [of off data] by (simp add: leu32_roundtrip field_def)

lemma load64_same: "field off 8 a = field off' 8 b \<Longrightarrow> off + 8 \<le> length a \<Longrightarrow> off' + 8 \<le> length b \<Longrightarrow> load64 a off = load64 b off'"
  using load64_value [of off a] load64_value [of off' b] by simp

lemma load32_same: "field off 4 a = field off' 4 b \<Longrightarrow> off + 4 \<le> length a \<Longrightarrow> off' + 4 \<le> length b \<Longrightarrow> load32 a off = load32 b off'"
  using load32_leu32 [of off a] load32_leu32 [of off' b] by (simp add: field_def)

lemma md5_of_md5: "md5_of data = md5 data"
proof -
  have "ms_absorbs md5_single_new []" by (simp add: md5_single_new_def ms_absorbs_def md5_chunks_short)
  from md5_end_absorbs [OF md5_update_absorbs [OF this, of data]] show ?thesis by (simp add: md5_of_def)
qed

lemma length_types [packet_simps]:
  "length packet_magic = 8" "length mainpacket_type = 16" "length fileverificationpacket_type = 16"
  "length filedescriptionpacket_type = 16" "length creatorpacket_type = 16" "length recoveryblockpacket_type = 16"
  by (simp_all add: packet_magic_def mainpacket_type_def fileverificationpacket_type_def filedescriptionpacket_type_def
      creatorpacket_type_def recoveryblockpacket_type_def)

lemma cp_store_simps [packet_simps]:
  "cp_length (cp_store off bs p) = cp_length p" "cp_data (cp_store off bs p) = memcpy (cp_data p) off bs"
  "cp_length (allocate_packet n e) = n" "cp_data (allocate_packet n e) = replicate (n + e) 0"
  by (simp_all add: cp_store_def allocate_packet_def)

section \<open>Valid packets\<close>

text \<open>What the scan of a file asks of the bytes of a packet.\<close>

definition packet_ok :: "bytes \<Rightarrow> bool" where
  "packet_ok bs \<longleftrightarrow> 64 \<le> length bs \<and> 4 dvd length bs \<and> header_magic bs = packet_magic \<and>
     header_length bs = word_of_nat (length bs) \<and> length bs < 2 ^ 63 \<and> header_hash bs = md5 (drop 32 bs)"

definition cp_bytes :: "critical_packet \<Rightarrow> bytes" where
  "cp_bytes p = take (cp_length p) (cp_data p)"

text \<open>The fields every \<^verbatim>\<open>Create\<close> fills in.\<close>

definition cp_has_fields :: "bytes \<Rightarrow> critical_packet \<Rightarrow> bool" where
  "cp_has_fields type p \<longleftrightarrow> 64 \<le> cp_length p \<and> cp_length p \<le> length (cp_data p) \<and>
     field 0 8 (cp_data p) = packet_magic \<and> field 8 8 (cp_data p) = leu64_bytes (word_of_nat (cp_length p)) \<and>
     field 48 16 (cp_data p) = type"

lemma cp_fields_has: "length type = 16 \<Longrightarrow> 64 \<le> n \<Longrightarrow> cp_has_fields type (cp_fields type (allocate_packet n e))"
  by (simp add: cp_has_fields_def cp_fields_def packet_simps)

lemma cp_store_has:
  "cp_has_fields type p \<Longrightarrow> off + length bs \<le> length (cp_data p) \<Longrightarrow> off = 16 \<and> length bs \<le> 16 \<or> off = 32 \<and> length bs \<le> 16 \<or> 64 \<le> off \<Longrightarrow>
    cp_has_fields type (cp_store off bs p)"
  by (auto simp: cp_has_fields_def packet_simps)

lemma cp_hash_ok:
  assumes "cp_has_fields type p" "4 dvd cp_length p" "cp_length p < 2 ^ 63"
  shows "packet_ok (cp_bytes (cp_hash p))" "header_type (cp_bytes (cp_hash p)) = type"
    "length (cp_data (cp_hash p)) = length (cp_data p)" "drop 32 (cp_data (cp_hash p)) = drop 32 (cp_data p)"
    "take 16 (cp_data (cp_hash p)) = take 16 (cp_data p)" "cp_length (cp_hash p) = cp_length p"
proof -
  let ?q = "cp_hash p"
  have len: "64 \<le> cp_length p" "cp_length p \<le> length (cp_data p)" using assms(1) by (simp_all add: cp_has_fields_def)
  have q: "cp_data ?q = memcpy (cp_data p) 16 (md5 (take (cp_length p - 32) (drop 32 (cp_data p))))" "cp_length ?q = cp_length p"
    by (simp_all add: cp_hash_def packet_simps md5_of_md5)
  have f: "cp_has_fields type ?q" using assms(1) len by (simp add: cp_hash_def md5_of_md5 cp_store_has)
  show d: "drop 32 (cp_data ?q) = drop 32 (cp_data p)" using len by (simp add: q drop_memcpy_after)
  show "length (cp_data ?q) = length (cp_data p)" "cp_length ?q = cp_length p" using len by (simp_all add: q)
  show "take 16 (cp_data ?q) = take 16 (cp_data p)" using len by (simp add: q memcpy_def)
  show "header_type (cp_bytes ?q) = type" using f by (simp add: header_type_def cp_bytes_def field_take cp_has_fields_def)
  have "header_hash (cp_bytes ?q) = md5 (drop 32 (cp_bytes ?q))"
    using len d by (simp add: header_hash_def cp_bytes_def field_take q(2) drop_take) (simp add: q packet_simps)
  moreover have "header_length (cp_bytes ?q) = word_of_nat (cp_length p)"
    using f len q(2) unfolding header_length_def cp_bytes_def
    by (intro load64_field) (simp_all add: cp_has_fields_def field_take)
  ultimately show "packet_ok (cp_bytes ?q)"
    using f assms(2,3) len q(2) by (simp add: packet_ok_def header_magic_def cp_has_fields_def cp_bytes_def field_take)
qed

lemma packet_ok_length: "packet_ok bs \<Longrightarrow> unat (header_length bs) = length bs"
  by (simp add: packet_ok_def unat_of_nat)

section \<open>Loading\<close>

text \<open>\<open>Load\<close> of a critical packet whose bytes are in the file.\<close>

lemma cp_load_file:
  assumes "disk_ready ReadMode content d fs" "length content < 2 ^ 63"
    and "unat off + length bs \<le> length content" "field (unat off) (length bs) content = bs"
    and "64 \<le> length bs" "header_length bs = word_of_nat (length bs)"
  shows "\<exists>d'. cp_load e d fs off (take 64 bs) = Some (True, \<lparr>cp_data = bs @ replicate e 0, cp_length = length bs\<rparr>, d') \<and>
    disk_ready ReadMode content d' fs \<and> df_filesize d' = df_filesize d \<and> df_filename d' = df_filename d"
proof -
  have hl: "header_length (take 64 bs) = header_length bs"
    unfolding header_length_def using assms(5) by (intro load64_same) (simp_all add: field_take)
  have n: "unat (header_length bs) = length bs" using assms(2,3,6) by (simp add: unat_of_nat)
  have o: "unat (off + 64) = unat off + 64" using assms(2,3,5) by (simp add: unat_word_ariths)
  have le: "off + 64 \<le> MaxOffset" using assms(2,3,5) by (simp add: word_le_nat_alt o)
  have lc: "length content < 2 ^ 64" using assms(2) by simp
  have r: "unat (off + 64) + (length bs - 64) \<le> length content" using assms(3,5) by (simp add: o)
  obtain d' where d': "disk_read (off + 64) (length bs - 64) MAX_LENGTH d fs = Some (True, take (length bs - 64) (drop (unat (off + 64)) content), d')"
    "disk_ready ReadMode content d' fs" "df_filesize d' = df_filesize d" "df_filename d' = df_filename d"
    using disk_read_inside [OF assms(1) le _ r lc, of MAX_LENGTH] by auto
  have "drop 64 bs = take (length bs - 64) (drop (unat off + 64) content)"
    using arg_cong [OF assms(4), of "drop 64"] by (simp add: field_def drop_take add.commute)
  then have x: "take (length bs - 64) (drop (unat (off + 64)) content) = drop 64 bs" by (simp only: o)
  have t: "length (take 64 bs) = 64" using assms(5) by simp
  have a: "memcpy (replicate (length bs + e) 0) 0 (take 64 bs) = take 64 bs @ replicate (length bs - 64 + e) 0"
    using assms(5) by (simp add: memcpy_def)
  have "memcpy (take 64 bs @ replicate (length bs - 64 + e) 0) 64 (drop 64 bs) = take 64 bs @ drop 64 bs @ replicate e 0"
    using t by (simp add: memcpy_def)
  then have "memcpy (memcpy (replicate (length bs + e) 0) 0 (take 64 bs)) 64 (take (length bs - 64) (drop (unat (off + 64)) content)) = bs @ replicate e 0"
    unfolding x a by (simp only: append_assoc [symmetric] append_take_drop_id)
  then have "cp_load e d fs off (take 64 bs) = Some (True, \<lparr>cp_data = bs @ replicate e 0, cp_length = length bs\<rparr>, d')"
    by (simp add: cp_load_def Let_def hl n d'(1) cp_store_def allocate_packet_def)
  then show ?thesis using d' by blast
qed

end
