(* ===== verification/Packet_Roundtrips.thy ===== *)
theory Packet_Roundtrips
  imports Packets_Correct
begin

unbundle bit_operations_syntax

text \<open>
  Creating packets and loading them back: main packets with the set id, verification packets with
  their entries, description packets with file id and name.
\<close>

section \<open>Sorting by file id\<close>

lemma insert_by_key: "(\<And>y. y \<in> set ys \<Longrightarrow> lt y x = (f y < f x)) \<Longrightarrow> insert_by lt x ys = insort_key f x ys"
  for f :: "'a \<Rightarrow> 'b::linorder"
  by (induction ys) (auto simp: not_less not_le)

lemma sort_by_key: "(\<And>x y. x \<in> set xs \<Longrightarrow> y \<in> set xs \<Longrightarrow> lt x y = (f x < f y)) \<Longrightarrow> sort_by lt xs = sort_key f xs"
  for f :: "'a \<Rightarrow> 'b::linorder"
proof (induction xs)
  case (Cons x xs)
  then have "sort_by lt xs = sort_key f xs" by simp
  moreover have "insert_by lt x (sort_key f xs) = insort_key f x (sort_key f xs)"
    by (rule insert_by_key) (use Cons.prems in auto)
  ultimately show ?case by simp
qed simp

lemma map_insort_key: "map g (insort_key (\<lambda>x. f (g x)) x xs) = insort_key f (g x) (map g xs)"
  by (induction xs) auto

lemma map_sort_key: "map g (sort_key (\<lambda>x. f (g x)) xs) = sort_key f (map g xs)"
  by (induction xs) (simp_all add: map_insort_key)

lemma sort_key_unique: "inj_on f (set xs) \<Longrightarrow> mset xs = mset ys \<Longrightarrow> sort_key f xs = sort_key f ys"
  for f :: "'a \<Rightarrow> 'b::linorder"
proof -
  assume i: "inj_on f (set xs)" and m: "mset xs = mset ys"
  have "map f (sort_key f xs) = map f (sort_key f ys)"
    using map_sort_key [of f "\<lambda>x. x" xs] map_sort_key [of f "\<lambda>x. x" ys] m
    by simp (metis mset_map properties_for_sort sorted_sort mset_sort)
  moreover have "inj_on f (set (sort_key f xs) \<union> set (sort_key f ys))" using i mset_eq_setD [OF m] by simp
  ultimately show ?thesis by (rule inj_on_map_eq_map [THEN iffD1, rotated])
qed

text \<open>The order the main packet lists the files in.\<close>

definition by_fileid :: "('f \<Rightarrow> bytes) \<Rightarrow> 'f list \<Rightarrow> 'f list" where
  "by_fileid fileid = sort_key (\<lambda>f. md5_value (fileid f))"

lemma sort_by_fileid:
  assumes "\<forall>f\<in>set files. length (fileid f) = 16"
  shows "sort_by (\<lambda>l r. md5_less (fileid l) (fileid r)) files = by_fileid fileid files"
  unfolding by_fileid_def
proof (rule sort_by_key)
  fix x y
  assume "x \<in> set files" "y \<in> set files"
  then show "md5_less (fileid x) (fileid y) = (md5_value (fileid x) < md5_value (fileid y))"
    using assms md5_less_at_value [of "fileid x" 15 "fileid y"] by (simp add: md5_less_def)
qed

lemma by_fileid_mset [simp]: "mset (by_fileid fileid files) = mset files"
  by (simp add: by_fileid_def)

lemma by_fileid_props: "length (by_fileid fileid files) = length files" "set (by_fileid fileid files) = set files"
  by (simp_all add: by_fileid_def)

lemma map_by_fileid: "map fileid (by_fileid fileid files) = sort_key md5_value (map fileid files)"
  unfolding by_fileid_def by (rule map_sort_key)

section \<open>The main packet\<close>

lemma length_concat_16: "\<forall>f\<in>set xs. length (g f) = n \<Longrightarrow> length (concat (map g xs)) = n * length xs"
  by (induction xs) simp_all

lemma concat_nth_field:
  "\<forall>f\<in>set xs. length (g f) = n \<Longrightarrow> i < length xs \<Longrightarrow> take n (drop (i * n) (concat (map g xs))) = g (xs ! i)"
proof (induction xs arbitrary: i)
  case (Cons x xs)
  then show ?case by (cases i) simp_all
qed simp

lemma main_sort:
  assumes "\<forall>f\<in>set files. length (fileid f) = 16" "length files \<le> 32768"
  shows "(if (word_of_nat (length files) :: u32) > 1 then sort_by (\<lambda>l r. md5_less (fileid l) (fileid r)) files else files) =
    by_fileid fileid files"
proof (cases "(word_of_nat (length files) :: u32) > 1")
  case False
  then have "length files \<le> 1" using assms(2) by (simp add: word_less_nat_alt unat_of_nat)
  then have "by_fileid fileid files = files" by (cases files) (auto simp: by_fileid_def)
  then show ?thesis using False by simp
qed (simp add: sort_by_fileid [OF assms(1)])

lemma main_packet_create_eq:
  assumes ids: "\<forall>f\<in>set files. length (fileid f) = 16" and n: "length files \<le> 32768"
    and create: "main_packet_create fileid files bs = (mp, files')"
  shows "files' = by_fileid fileid files \<and> mp_blocksize mp = bs \<and> mp_totalfilecount mp = word_of_nat (length files) \<and>
    mp_recoverablefilecount mp = word_of_nat (length files) \<and>
    packet_ok (cp_bytes (mp_packet mp)) \<and> header_type (cp_bytes (mp_packet mp)) = mainpacket_type \<and>
    cp_bytes (mp_packet mp) = cp_data (mp_packet mp) \<and> cp_length (mp_packet mp) = 76 + 16 * length files \<and> length (cp_data (mp_packet mp)) = 76 + 16 * length files \<and>
    drop 64 (cp_data (mp_packet mp)) = leu64_bytes bs @ leu32_bytes (word_of_nat (length files)) @ concat (map fileid files') \<and>
    main_packet_setid mp = md5 (drop 64 (cp_data (mp_packet mp)))"
proof -
  let ?n = "word_of_nat (length files) :: u32"
  have un: "unat ?n = length files" using n by (simp add: unat_of_nat)
  note files' = main_sort [OF ids n]
  define ids' where "ids' = concat (map fileid (by_fileid fileid files))"
  have lids: "length ids' = 16 * length files"
    using ids unfolding ids'_def by (subst length_concat_16) (auto simp: by_fileid_props)
  define p0 where "p0 = cp_fields mainpacket_type (allocate_packet (76 + length files * 16) 0)"
  define p1 where "p1 = cp_store 76 ids' (cp_store 72 (leu32_bytes ?n) (cp_store 64 (leu64_bytes bs) p0))"
  define p2 where "p2 = cp_store 32 (md5 (drop 64 (cp_data p1))) p1"
  have l0: "cp_length p0 = 76 + length files * 16" "length (cp_data p0) = 76 + length files * 16"
    by (simp_all add: p0_def cp_fields_def packet_simps)
  have l1: "cp_length p1 = 76 + length files * 16" "length (cp_data p1) = 76 + length files * 16"
    using l0 lids by (simp_all add: p1_def packet_simps)
  have f0: "cp_has_fields mainpacket_type p0" unfolding p0_def by (rule cp_fields_has) (simp_all add: packet_simps)
  have f1: "cp_has_fields mainpacket_type p1" unfolding p1_def
    by (intro cp_store_has f0) (use l0 lids in \<open>simp_all add: packet_simps\<close>)
  have f2: "cp_has_fields mainpacket_type p2" unfolding p2_def by (intro cp_store_has f1) (use l1 in simp_all)
  have l2: "cp_length p2 = 76 + length files * 16" "length (cp_data p2) = 76 + length files * 16"
    using l1 by (simp_all add: p2_def packet_simps)
  have "field 64 8 (cp_data p1) = leu64_bytes bs" "field 72 4 (cp_data p1) = leu32_bytes ?n" "field 76 (16 * length files) (cp_data p1) = ids'"
    using l0 lids by (simp_all add: p1_def packet_simps)
  moreover have "drop 64 (cp_data p1) = field 64 8 (cp_data p1) @ field 72 4 (cp_data p1) @ field 76 (16 * length files) (cp_data p1)"
  proof -
    have "drop 64 (cp_data p1) = take 8 (drop 64 (cp_data p1)) @ drop 72 (cp_data p1)"
      using append_take_drop_id [of 8 "drop 64 (cp_data p1)"] by simp
    moreover have "drop 72 (cp_data p1) = take 4 (drop 72 (cp_data p1)) @ drop 76 (cp_data p1)"
      using append_take_drop_id [of 4 "drop 72 (cp_data p1)"] by simp
    ultimately show ?thesis using l1 by (simp add: field_def)
  qed
  ultimately have body: "drop 64 (cp_data p1) = leu64_bytes bs @ leu32_bytes ?n @ ids'" by simp
  have body2: "drop 64 (cp_data p2) = drop 64 (cp_data p1)" using l1 by (simp add: p2_def packet_simps drop_memcpy_after)
  have c: "mp = \<lparr>mp_packet = cp_hash p2, mp_blocksize = bs, mp_totalfilecount = ?n, mp_recoverablefilecount = ?n\<rparr>"
    "files' = by_fileid fileid files"
    using create l1 unfolding main_packet_create_def Let_def files' un ids'_def [symmetric] p0_def [symmetric] p1_def [symmetric]
    by (auto simp: p2_def md5_of_md5 p0_def mult.commute)
  have dv: "4 dvd cp_length p2" using l2 by simp
  have small: "cp_length p2 < 2 ^ 63" using l2 n by simp
  note h = cp_hash_ok [OF f2 dv small]
  have "main_packet_setid mp = field 32 16 (cp_data p2)"
    using arg_cong [OF h(4), of "take 16"] by (simp add: c main_packet_setid_def header_setid_def field_def)
  also have "\<dots> = md5 (drop 64 (cp_data p1))" using l1 by (simp add: p2_def packet_simps)
  finally have s: "main_packet_setid mp = md5 (drop 64 (cp_data p1))" .
  have d64: "drop 64 (cp_data (cp_hash p2)) = drop 64 (cp_data p1)"
    using arg_cong [OF h(4), of "drop 32"] body2 by simp
  show ?thesis using h l2 c s d64 body by (simp add: cp_bytes_def ids'_def mult.commute)
qed

lemma main_packet_load_created:
  assumes ids: "\<forall>f\<in>set files. length (fileid f) = 16" and n: "length files \<le> 32768"
    and create: "main_packet_create fileid files bs = (mp, files')" and bs: "bs \<noteq> 0" "bs AND 3 = 0"
    and disk: "disk_ready ReadMode content d fs" "length content < 2 ^ 63"
      "unat off + cp_length (mp_packet mp) \<le> length content" "field (unat off) (cp_length (mp_packet mp)) content = cp_bytes (mp_packet mp)"
  shows "\<exists>d'. main_packet_load d fs off (take 64 (cp_bytes (mp_packet mp))) = Some (Some mp, d') \<and> disk_ready ReadMode content d' fs"
proof -
  let ?b = "cp_bytes (mp_packet mp)" and ?n = "length files"
  note c = main_packet_create_eq [OF ids n create]
  have l: "length ?b = 76 + 16 * ?n" "cp_data (mp_packet mp) = ?b" using c by simp_all
  have ok: "packet_ok ?b" using c by blast
  have hl: "header_length (take 64 ?b) = header_length ?b"
    unfolding header_length_def using l by (intro load64_same) (simp_all add: field_take)
  have u: "unat (header_length ?b) = 76 + 16 * ?n" using packet_ok_length [OF ok] l by simp
  have sub: "unat (header_length ?b - 76) = 16 * ?n" using u by (simp add: unat_sub word_le_nat_alt)
  have guards: "\<not> header_length ?b < 76" "\<not> 0 < (header_length ?b - 76) mod 16" "\<not> header_length ?b > 76 + 32768 * 16"
    using u sub n by (simp_all add: word_less_nat_alt unat_mod)
  have tot: "ucast ((header_length ?b - 76) div 16) = (word_of_nat ?n :: u32)"
  proof -
    have "unat ((header_length ?b - 76) div 16) = ?n" using sub by (simp add: unat_div)
    then show ?thesis by (metis of_nat_unat)
  qed
  have body: "drop 64 ?b = leu64_bytes bs @ leu32_bytes (word_of_nat ?n) @ concat (map fileid files')" using c l by simp
  have f: "field 64 8 ?b = leu64_bytes bs" using body by (simp add: field_def)
  have "field 72 4 ?b = take 4 (drop 8 (drop 64 ?b))" by (simp add: field_def)
  then have f': "field 72 4 ?b = leu32_bytes (word_of_nat ?n)" unfolding body by simp
  have ld: "load64 ?b 64 = bs" "load32 ?b 72 = word_of_nat ?n"
    using l f f' by (auto intro!: load64_field load32_field)
  have k: "cp_length (mp_packet mp) = length ?b" using c l(1) by simp
  have dsk: "unat off + length ?b \<le> length content" "field (unat off) (length ?b) content = ?b"
    using disk(3,4) unfolding k by blast+
  have b64: "64 \<le> length ?b" using l by simp
  have hlen: "header_length ?b = word_of_nat (length ?b)" using ok by (simp add: packet_ok_def)
  obtain d' where d': "cp_load 0 d fs off (take 64 ?b) = Some (True, \<lparr>cp_data = ?b, cp_length = length ?b\<rparr>, d')"
    "disk_ready ReadMode content d' fs"
    using cp_load_file [OF disk(1,2) dsk b64 hlen, of 0] by (simp only: replicate.simps append_Nil2) blast
  define mp' where "mp' = \<lparr>mp_packet = \<lparr>cp_data = ?b, cp_length = length ?b\<rparr>, mp_blocksize = bs,
      mp_totalfilecount = word_of_nat ?n, mp_recoverablefilecount = word_of_nat ?n\<rparr>"
  have "mp_packet mp = \<lparr>cp_data = ?b, cp_length = length ?b\<rparr>" using l(2) k by (cases "mp_packet mp") (simp only: critical_packet.simps)
  then have "mp' = mp" using c unfolding mp'_def by (cases mp) (simp only: main_packet.simps)
  moreover have "main_packet_load d fs off (take 64 ?b) = Some (Some mp', d')"
    using d' guards tot bs by (simp add: main_packet_load_def Let_def hl ld mp'_def)
  ultimately show ?thesis using d'(2) by blast
qed

section \<open>The verification packet\<close>

text \<open>All entries stored in turn, as the creator does when it has hashed the blocks.\<close>

definition vp_fill :: "(bytes \<times> u32) list \<Rightarrow> verification_packet \<Rightarrow> verification_packet" where
  "vp_fill entries = fold (\<lambda>(i, hash, crc). set_block_hash_crc i hash crc) (enumerate 0 entries)"

definition vp_holds :: "(bytes \<times> u32) list \<Rightarrow> u32 \<Rightarrow> verification_packet \<Rightarrow> bool" where
  "vp_holds entries n vp \<longleftrightarrow> cp_has_fields fileverificationpacket_type (vp_packet vp) \<and>
     cp_length (vp_packet vp) = 80 + unat n * 20 \<and> length (cp_data (vp_packet vp)) = 80 + unat n * 20 \<and> vp_blockcount vp = n \<and>
     length entries \<le> unat n \<and> (\<forall>i<length entries. vp_entry i vp = entries ! i)"

lemma vp_create_holds: "vp_holds [] n (verification_packet_create n)"
proof -
  have "cp_has_fields fileverificationpacket_type (vp_packet (verification_packet_create n))"
    unfolding verification_packet_create_def by (simp, rule cp_fields_has) (simp_all add: packet_simps)
  then show ?thesis by (simp add: vp_holds_def verification_packet_create_def cp_fields_def packet_simps)
qed

lemma vp_set_holds:
  assumes "vp_holds entries n vp" "length hash = 16" "length entries < unat n"
  shows "vp_holds (entries @ [(hash, crc)]) n (set_block_hash_crc (length entries) hash crc vp)"
proof -
  let ?k = "length entries" and ?q = "set_block_hash_crc (length entries) hash crc vp"
  have l: "length (cp_data (vp_packet vp)) = 80 + unat n * 20" "cp_has_fields fileverificationpacket_type (vp_packet vp)"
    using assms(1) by (simp_all add: vp_holds_def)
  have kn: "Suc ?k * 20 \<le> unat n * 20" using assms(3) by (intro mult_le_mono1) simp
  have room: "80 + ?k * 20 + 16 \<le> 80 + unat n * 20" "80 + ?k * 20 + 20 \<le> 80 + unat n * 20" using kn by simp_all
  let ?d1 = "memcpy (cp_data (vp_packet vp)) (80 + ?k * 20) hash"
  have d: "cp_data (vp_packet ?q) = memcpy ?d1 (80 + ?k * 20 + 16) (leu32_bytes crc)" "length ?d1 = 80 + unat n * 20"
    using l room assms(2) by (simp_all add: set_block_hash_crc_def packet_simps)
  have e: "vp_entry i ?q = (entries @ [(hash, crc)]) ! i" if i: "i < Suc ?k" for i
  proof (cases "i = ?k")
    case True
    have "field (80 + ?k * 20) 16 (cp_data (vp_packet ?q)) = hash"
      using room assms(2) l(1) d(2) unfolding d(1) by (subst field_memcpy(2)) (simp_all add: field_memcpy(1))
    moreover have "load32 (cp_data (vp_packet ?q)) (80 + ?k * 20 + 16) = crc"
      using room d by (intro load32_field) (simp_all add: field_memcpy(1))
    ultimately show ?thesis using True by (simp add: vp_entry_def)
  next
    case False
    then have "Suc i * 20 \<le> ?k * 20" using i by (intro mult_le_mono1) simp
    then have before: "80 + i * 20 + 16 \<le> 80 + ?k * 20" "80 + i * 20 + 16 + 4 \<le> 80 + ?k * 20" by simp_all
    have "field o' n' (cp_data (vp_packet ?q)) = field o' n' (cp_data (vp_packet vp))" if "o' + n' \<le> 80 + ?k * 20" for o' n'
      using that room assms(2) l(1) d(2) unfolding d(1) by (simp add: field_memcpy(2))
    then have "field (80 + i * 20) 16 (cp_data (vp_packet ?q)) = field (80 + i * 20) 16 (cp_data (vp_packet vp))"
      "load32 (cp_data (vp_packet ?q)) (80 + i * 20 + 16) = load32 (cp_data (vp_packet vp)) (80 + i * 20 + 16)"
      using before room d l(1) by (auto intro!: load32_same)
    then have "vp_entry i ?q = vp_entry i vp" by (simp add: vp_entry_def)
    then show ?thesis using assms(1) i False by (simp add: vp_holds_def nth_append)
  qed
  have "cp_has_fields fileverificationpacket_type (vp_packet ?q)"
    unfolding set_block_hash_crc_def
    by simp (intro cp_store_has, use l room assms(2) in \<open>simp_all add: packet_simps\<close>)
  then show ?thesis using assms l room e d by (simp add: vp_holds_def set_block_hash_crc_def packet_simps)
qed

lemma vp_fill_holds:
  assumes "\<forall>(hash, crc)\<in>set entries. length hash = 16" "length entries = unat n"
  shows "vp_holds entries n (vp_fill entries (verification_packet_create n))"
proof -
  have "k \<le> length entries \<Longrightarrow> vp_holds (take k entries) n (vp_fill (take k entries) (verification_packet_create n))" for k
  proof (induction k)
    case 0
    then show ?case by (simp add: vp_fill_def vp_create_holds)
  next
    case (Suc k)
    then have k: "k < length entries" by simp
    obtain hash crc where e: "entries ! k = (hash, crc)" by (cases "entries ! k")
    have h: "length hash = 16" using assms(1) nth_mem [OF k] e by auto
    have t: "take (Suc k) entries = take k entries @ [(hash, crc)]" using k e by (simp add: take_Suc_conv_app_nth)
    have "vp_fill (take (Suc k) entries) vp = set_block_hash_crc k hash crc (vp_fill (take k entries) vp)" for vp
      using k unfolding t vp_fill_def by (simp add: enumerate_append_eq)
    then show ?case using vp_set_holds [of "take k entries" n _ hash crc] Suc k assms(2) h t by simp
  qed
  from this [of "length entries"] show ?thesis by simp
qed

lemma vp_set_fileid_holds:
  assumes "vp_holds entries n vp" "length fileid = 16"
  shows "vp_holds entries n (verification_packet_set_fileid fileid vp) \<and> vp_fileid (verification_packet_set_fileid fileid vp) = fileid"
proof -
  have l: "length (cp_data (vp_packet vp)) = 80 + unat n * 20" "cp_has_fields fileverificationpacket_type (vp_packet vp)"
    using assms(1) by (simp_all add: vp_holds_def)
  let ?q = "verification_packet_set_fileid fileid vp"
  have d: "cp_data (vp_packet ?q) = memcpy (cp_data (vp_packet vp)) 64 fileid"
    by (simp add: verification_packet_set_fileid_def packet_simps)
  have e: "vp_entry i ?q = vp_entry i vp" if i: "i < unat n" for i
  proof -
    have "Suc i * 20 \<le> unat n * 20" using i by (intro mult_le_mono1) simp
    then have "field (80 + i * 20) 16 (cp_data (vp_packet ?q)) = field (80 + i * 20) 16 (cp_data (vp_packet vp))"
      "load32 (cp_data (vp_packet ?q)) (80 + i * 20 + 16) = load32 (cp_data (vp_packet vp)) (80 + i * 20 + 16)"
      using l assms(2) by (auto simp: d field_memcpy(3) intro!: load32_same)
    then show ?thesis by (simp add: vp_entry_def)
  qed
  have "cp_has_fields fileverificationpacket_type (vp_packet ?q)"
    unfolding verification_packet_set_fileid_def by simp (intro cp_store_has, use l assms(2) in simp_all)
  moreover have "vp_fileid ?q = fileid" using l assms(2) by (simp add: vp_fileid_def d field_memcpy(1))
  ultimately show ?thesis using assms e l by (simp add: vp_holds_def verification_packet_set_fileid_def packet_simps)
qed

text \<open>Finishing a packet touches only the hash and the set id.\<close>

lemma cp_finish_props:
  assumes "cp_has_fields type p" "4 dvd cp_length p" "cp_length p < 2 ^ 63" "length setid = 16"
  shows "packet_ok (cp_bytes (cp_finish setid p))" "header_type (cp_bytes (cp_finish setid p)) = type"
    "length (cp_data (cp_finish setid p)) = length (cp_data p)" "drop 64 (cp_data (cp_finish setid p)) = drop 64 (cp_data p)"
    "cp_length (cp_finish setid p) = cp_length p" "header_setid (cp_data (cp_finish setid p)) = setid"
proof -
  have len: "64 \<le> cp_length p" "cp_length p \<le> length (cp_data p)" using assms(1) by (simp_all add: cp_has_fields_def)
  let ?q = "cp_store 32 setid p"
  have q: "cp_has_fields type ?q" "cp_length ?q = cp_length p" "length (cp_data ?q) = length (cp_data p)"
    using assms len by (simp_all add: cp_store_has packet_simps)
  have h: "packet_ok (cp_bytes (cp_hash ?q))" "header_type (cp_bytes (cp_hash ?q)) = type"
    "length (cp_data (cp_hash ?q)) = length (cp_data ?q)" "drop 32 (cp_data (cp_hash ?q)) = drop 32 (cp_data ?q)"
    "cp_length (cp_hash ?q) = cp_length ?q"
    using cp_hash_ok [OF q(1)] assms(2,3) q(2) by simp_all
  show "packet_ok (cp_bytes (cp_finish setid p))" "header_type (cp_bytes (cp_finish setid p)) = type"
    "length (cp_data (cp_finish setid p)) = length (cp_data p)" "cp_length (cp_finish setid p) = cp_length p"
    using h q by (simp_all add: cp_finish_def)
  have "drop 64 (cp_data ?q) = drop 64 (cp_data p)" using len assms(4) by (simp add: packet_simps drop_memcpy_after)
  then show "drop 64 (cp_data (cp_finish setid p)) = drop 64 (cp_data p)"
    using arg_cong [OF h(4), of "drop 32"] by (simp add: cp_finish_def)
  have "header_setid (cp_data (cp_hash ?q)) = header_setid (cp_data ?q)"
    using arg_cong [OF h(4), of "take 16"] by (simp add: header_setid_def field_def)
  then show "header_setid (cp_data (cp_finish setid p)) = setid"
    using len assms(4) by (simp add: cp_finish_def header_setid_def packet_simps)
qed

lemma field_after_64: "drop 64 a = drop 64 b \<Longrightarrow> 64 \<le> off \<Longrightarrow> field off n a = field off n b"
  unfolding field_def by (metis drop_drop le_add_diff_inverse2)

lemma load32_after_64: "drop 64 a = drop 64 b \<Longrightarrow> length a = length b \<Longrightarrow> 64 \<le> off \<Longrightarrow> off + 4 \<le> length a \<Longrightarrow> load32 a off = load32 b off"
  by (rule load32_same) (simp_all add: field_after_64 [of a b])

lemma load64_after_64: "drop 64 a = drop 64 b \<Longrightarrow> length a = length b \<Longrightarrow> 64 \<le> off \<Longrightarrow> off + 8 \<le> length a \<Longrightarrow> load64 a off = load64 b off"
  by (rule load64_same) (simp_all add: field_after_64 [of a b])

text \<open>The verification packet as the creator writes it.\<close>

definition vp_finished :: "bytes \<Rightarrow> bytes \<Rightarrow> (bytes \<times> u32) list \<Rightarrow> verification_packet" where
  "vp_finished setid fileid entries =
     (let vp = verification_packet_set_fileid fileid (vp_fill entries (verification_packet_create (word_of_nat (length entries))))
      in vp\<lparr>vp_packet := cp_finish setid (vp_packet vp)\<rparr>)"

lemma vp_finished_props:
  assumes e: "\<forall>(hash, crc)\<in>set entries. length hash = 16" "length entries < 2 ^ 32" "length fileid = 16" "length setid = 16"
  defines "vp \<equiv> vp_finished setid fileid entries"
  shows "cp_length (vp_packet vp) = 80 + 20 * length entries \<and> cp_data (vp_packet vp) = cp_bytes (vp_packet vp) \<and>
    length (cp_bytes (vp_packet vp)) = 80 + 20 * length entries \<and>
    packet_ok (cp_bytes (vp_packet vp)) \<and> header_type (cp_bytes (vp_packet vp)) = fileverificationpacket_type \<and>
    header_setid (cp_bytes (vp_packet vp)) = setid \<and>
    vp_blockcount vp = word_of_nat (length entries) \<and> vp_fileid vp = fileid \<and> (\<forall>i<length entries. vp_entry i vp = entries ! i)"
proof -
  let ?n = "word_of_nat (length entries) :: u32"
  let ?vp = "verification_packet_set_fileid fileid (vp_fill entries (verification_packet_create ?n))"
  have un: "unat ?n = length entries" using e(2) by (simp add: unat_of_nat)
  have h: "vp_holds entries ?n ?vp" "vp_fileid ?vp = fileid"
    using vp_set_fileid_holds [OF vp_fill_holds [OF e(1), of ?n] e(3)] un by simp_all
  have l: "cp_has_fields fileverificationpacket_type (vp_packet ?vp)" "cp_length (vp_packet ?vp) = 80 + length entries * 20"
    "length (cp_data (vp_packet ?vp)) = 80 + length entries * 20" "vp_blockcount ?vp = ?n" "\<forall>i<length entries. vp_entry i ?vp = entries ! i"
    using h(1) un by (simp_all add: vp_holds_def)
  have dv: "4 dvd cp_length (vp_packet ?vp)" using l(2) by (simp add: dvd_add)
  have small: "cp_length (vp_packet ?vp) < 2 ^ 63" using l(2) e(2) by simp
  note f = cp_finish_props [OF l(1) dv small e(4)]
  have v: "vp_packet vp = cp_finish setid (vp_packet ?vp)" "vp_blockcount vp = ?n"
    using l(4) by (simp_all add: vp_def vp_finished_def Let_def)
  have len: "length (cp_data (vp_packet vp)) = length (cp_data (vp_packet ?vp))" "drop 64 (cp_data (vp_packet vp)) = drop 64 (cp_data (vp_packet ?vp))"
    using f v by simp_all
  have "vp_entry i vp = vp_entry i ?vp" if "i < length entries" for i
  proof -
    have "Suc i * 20 \<le> length entries * 20" using that by (intro mult_le_mono1) simp
    then show ?thesis unfolding vp_entry_def
      using len l(3) by (auto intro!: field_after_64 load32_after_64)
  qed
  moreover have "vp_fileid vp = vp_fileid ?vp" unfolding vp_fileid_def by (rule field_after_64 [OF len(2)]) simp
  moreover have "cp_data (vp_packet vp) = cp_bytes (vp_packet vp)" using f(3,5) v l by (simp add: cp_bytes_def)
  ultimately show ?thesis using f v l h by (simp add: mult.commute)
qed

lemma vp_load_finished:
  assumes e: "\<forall>(hash, crc)\<in>set entries. length hash = 16" "length fileid = 16" "length setid = 16"
    and n: "entries \<noteq> []" "length entries \<le> 32768"
    and b: "b = cp_bytes (vp_packet (vp_finished setid fileid entries))"
    and disk: "disk_ready ReadMode content d fs" "length content < 2 ^ 63"
      "unat off + length b \<le> length content" "field (unat off) (length b) content = b"
  shows "\<exists>d'. verification_packet_load d fs off (take 64 b) = Some (Some (vp_finished setid fileid entries), d') \<and> disk_ready ReadMode content d' fs"
proof -
  let ?vp = "vp_finished setid fileid entries" and ?n = "length entries"
  have n32: "?n < 2 ^ 32" using n(2) by simp
  note c = vp_finished_props [OF e(1) n32 e(2,3)]
  have l: "length b = 80 + 20 * ?n" "cp_data (vp_packet ?vp) = b" "cp_length (vp_packet ?vp) = length b" "vp_blockcount ?vp = word_of_nat ?n"
    using c b by simp_all
  have ok: "packet_ok b" using c b by blast
  have hl: "header_length (take 64 b) = header_length b"
    unfolding header_length_def using l by (intro load64_same) (simp_all add: field_take)
  have u: "unat (header_length b) = 80 + 20 * ?n" using packet_ok_length [OF ok] l by simp
  have sub: "unat (header_length b - 80) = 20 * ?n" using u by (simp add: unat_sub word_le_nat_alt)
  have guards: "\<not> header_length b \<le> 80" "\<not> 0 < (header_length b - 80) mod 20" "\<not> header_length b > 80 + 32768 * 20"
    using u sub n by (simp_all add: word_less_nat_alt word_le_nat_alt unat_mod)
  have cnt: "ucast ((header_length b - 80) div 20) = (word_of_nat ?n :: u32)"
  proof -
    have "unat ((header_length b - 80) div 20) = ?n" using sub by (simp add: unat_div)
    then show ?thesis by (metis of_nat_unat)
  qed
  have b64: "64 \<le> length b" using l(1) by simp
  have hlen: "header_length b = word_of_nat (length b)" using ok by (simp add: packet_ok_def)
  obtain d' where d': "cp_load 0 d fs off (take 64 b) = Some (True, \<lparr>cp_data = b, cp_length = length b\<rparr>, d')"
    "disk_ready ReadMode content d' fs"
    using cp_load_file [OF disk b64 hlen, of 0] by (simp only: replicate.simps append_Nil2) blast
  have "vp_packet ?vp = \<lparr>cp_data = b, cp_length = length b\<rparr>" using l(2,3) by (cases "vp_packet ?vp") (simp only: critical_packet.simps)
  then have "\<lparr>vp_packet = \<lparr>cp_data = b, cp_length = length b\<rparr>, vp_blockcount = word_of_nat ?n\<rparr> = ?vp"
    using l(4) by (cases ?vp) (simp only: verification_packet.simps)
  then show ?thesis using d' guards cnt by (simp add: verification_packet_load_def hl)
qed

section \<open>The description packet\<close>

lemma pad4_eq: "n + 3 < 2 ^ 32 \<Longrightarrow> pad4 n = 4 * ((n + 3) div 4)"
proof -
  assume n: "n + 3 < 2 ^ 32"
  let ?w = "3 + word_of_nat n :: u32"
  have "3 + word_of_nat n = (word_of_nat (n + 3) :: u32)" by simp
  then have u: "unat ?w = n + 3" using n by (simp only: unat_of_nat) simp
  have m: "(3 :: u32) = mask 2" by (simp add: mask_eq_exp_minus_1)
  have "NOT (mask k) AND w = push_bit k (drop_bit k w)" for k and w :: u32
    by (rule bit_word_eqI) (auto simp: bit_simps)
  from this [of 2 ?w] have e: "NOT 3 AND ?w = push_bit 2 (drop_bit 2 ?w)" unfolding m by (simp only:)
  have "4 * ((n + 3) div 4) \<le> n + 3" by simp
  then have "4 * ((n + 3) div 4) < 2 ^ 32" using n by linarith
  then have "unat (push_bit 2 (drop_bit 2 ?w)) = 4 * ((n + 3) div 4)"
    using u by (simp add: push_bit_eq_mult unat_word_ariths unat_drop_bit_eq drop_bit_eq_div)
  then show ?thesis by (simp only: pad4_def e)
qed

lemma pad4_bounds: "n + 3 < 2 ^ 32 \<Longrightarrow> n \<le> pad4 n \<and> pad4 n < n + 4 \<and> 4 dvd pad4 n"
  by (simp add: pad4_eq) linarith

text \<open>The description packet as the creator writes it.\<close>

definition dp_finished :: "bytes \<Rightarrow> string \<Rightarrow> u64 \<Rightarrow> bytes \<Rightarrow> bytes \<Rightarrow> critical_packet" where
  "dp_finished setid name filesize hash16k hashfull =
     cp_finish setid (dp_set_hashfull hashfull (dp_compute_fileid (dp_set_hash16k hash16k (description_packet_create name filesize))))"

lemma takeWhile_name: "\<forall>b\<in>set bs. b \<noteq> 0 \<Longrightarrow> 0 < k \<Longrightarrow> takeWhile (\<lambda>b. b \<noteq> (0::u8)) (bs @ replicate k 0) = bs"
  by (auto simp: takeWhile_append2 gr0_conv_Suc)

lemma char_of_of_char: "char_of (unat (of_char c :: u8)) = c"
proof -
  have "(of_char c :: u8) = word_of_nat (of_char c)" by (simp only: of_nat_of_char)
  moreover have "(of_char c :: nat) < 256" by (metis of_char_mod_256 mod_less_divisor zero_less_numeral)
  ultimately have "unat (of_char c :: u8) = (of_char c :: nat)" by (simp only: unat_of_nat) simp
  then show ?thesis by simp
qed

lemma of_char_zero: "(of_char c :: u8) = 0 \<longleftrightarrow> c = CHR 0x00"
proof -
  have "(of_char c :: u8) = 0 \<Longrightarrow> c = CHR 0x00" using char_of_of_char [of c] by (simp add: char_of_def)
  then show ?thesis by auto
qed

lemma dp_finished_props:
  fixes sz :: u64
  assumes n: "length name + 3 < 2 ^ 32" "CHR 0x00 \<notin> set name"
    and len: "length setid = 16" "length h16 = 16" "length hf = 16"
  defines "p \<equiv> dp_finished setid name sz h16 hf"
  shows "cp_length p = 120 + pad4 (length name) \<and> length (cp_bytes p) = 120 + pad4 (length name) \<and> cp_data p = cp_bytes p @ replicate 4 0 \<and> packet_ok (cp_bytes p) \<and>
    header_type (cp_bytes p) = filedescriptionpacket_type \<and> header_setid (cp_bytes p) = setid \<and>
    dp_filesize p = sz \<and> dp_hash16k p = h16 \<and> dp_hashfull p = hf \<and> dp_filename p = name \<and>
    dp_fileid p = md5 (h16 @ leu64_bytes sz @ map of_char name)"
proof -
  let ?n = "length name" and ?L = "120 + pad4 (length name)" and ?bs = "map of_char name :: bytes"
  have b: "?n \<le> pad4 ?n" "4 dvd pad4 ?n" "pad4 ?n < ?n + 4" using pad4_bounds [OF n(1)] by simp_all
  define p0 where "p0 = cp_fields filedescriptionpacket_type (allocate_packet ?L 4)"
  define p1 where "p1 = cp_store 120 ?bs (cp_store 112 (leu64_bytes sz) p0)"
  define p2 where "p2 = cp_store 96 h16 p1"
  define p3 where "p3 = cp_store 64 (md5 (take (24 + length (dp_name p2)) (drop 96 (cp_data p2)))) p2"
  define p4 where "p4 = cp_store 80 hf p3"
  have l0: "cp_length p0 = ?L" "length (cp_data p0) = ?L + 4" by (simp_all add: p0_def cp_fields_def packet_simps)
  have z0: "drop 120 (cp_data p0) = replicate (pad4 ?n + 4) 0"
    by (simp add: p0_def cp_fields_def packet_simps drop_memcpy_after)
  have l1: "cp_length p1 = ?L" "length (cp_data p1) = ?L + 4" using l0 b by (simp_all add: p1_def packet_simps)
  have l2: "cp_length p2 = ?L" "length (cp_data p2) = ?L + 4" using l1 len by (simp_all add: p2_def packet_simps)
  have l3: "cp_length p3 = ?L" "length (cp_data p3) = ?L + 4" using l2 by (simp_all add: p3_def packet_simps)
  have l4: "cp_length p4 = ?L" "length (cp_data p4) = ?L + 4" using l3 len by (simp_all add: p4_def packet_simps)
  have d1: "drop 120 (cp_data p1) = ?bs @ replicate (pad4 ?n - ?n + 4) 0"
  proof -
    have "drop (120 + ?n) (cp_data p0) = drop ?n (drop 120 (cp_data p0))" by (simp add: add.commute)
    also have "\<dots> = replicate (pad4 ?n - ?n + 4) 0" unfolding z0 using b(1) by simp
    finally have "drop (120 + ?n) (cp_data p0) = replicate (pad4 ?n - ?n + 4) 0" .
    moreover have "drop (120 + ?n) (memcpy (cp_data p0) 112 (leu64_bytes sz)) = drop (120 + ?n) (cp_data p0)"
      using l0 by (intro drop_memcpy_after) simp_all
    moreover have "drop 120 (memcpy d 120 s) = s @ drop (120 + length s) d" if "120 \<le> length d" for d s
      using that by (simp add: memcpy_def)
    ultimately show ?thesis using l0 by (simp add: p1_def packet_simps)
  qed
  have d: "drop 120 (cp_data p2) = drop 120 (cp_data p1)" "drop 112 (cp_data p2) = drop 112 (cp_data p1)"
    "drop 80 (cp_data p3) = drop 80 (cp_data p2)" "drop 96 (cp_data p4) = drop 96 (cp_data p3)"
    using l1 l2 l3 len by (simp_all add: p2_def p3_def p4_def packet_simps drop_memcpy_after)
  have z: "\<forall>b\<in>set ?bs. b \<noteq> 0" using n(2) of_char_zero by fastforce
  have nm: "dp_name p2 = ?bs" using takeWhile_name [OF z, of "pad4 ?n - ?n + 4"] d d1 by (simp add: dp_name_def)
  have "field 112 8 (cp_data p1) = leu64_bytes sz" using l0 b by (simp add: p1_def packet_simps)
  then have f112: "take 8 (drop 112 (cp_data p2)) = leu64_bytes sz" using d(2) by (simp add: field_def)
  have f96: "take 16 (drop 96 (cp_data p2)) = h16" using l1 len by (simp add: p2_def cp_store_simps memcpy_def)
  have body: "drop 96 (cp_data p2) = h16 @ leu64_bytes sz @ ?bs @ replicate (pad4 ?n - ?n + 4) 0"
    using append_take_drop_id [of 16 "drop 96 (cp_data p2)"] append_take_drop_id [of 8 "drop 112 (cp_data p2)"] f96 f112 d(1) d1 by simp
  have idv: "md5 (take (24 + length (dp_name p2)) (drop 96 (cp_data p2))) = md5 (h16 @ leu64_bytes sz @ ?bs)"
    unfolding body nm using len(2) by simp
  have fin: "p = cp_finish setid p4"
    by (simp add: p_def dp_finished_def dp_set_hashfull_def dp_compute_fileid_def dp_set_hash16k_def description_packet_create_def
        p4_def p3_def p2_def p1_def p0_def md5_of_md5 Let_def)
  have f0: "cp_has_fields filedescriptionpacket_type p0" unfolding p0_def by (rule cp_fields_has) (simp_all add: packet_simps)
  have f1: "cp_has_fields filedescriptionpacket_type p1" unfolding p1_def
    by (intro cp_store_has f0) (use l0 b in \<open>simp_all add: packet_simps\<close>)
  have f2: "cp_has_fields filedescriptionpacket_type p2" unfolding p2_def by (intro cp_store_has f1) (use l1 len in simp_all)
  have f3: "cp_has_fields filedescriptionpacket_type p3" unfolding p3_def by (intro cp_store_has f2) (use l2 in simp_all)
  have f4: "cp_has_fields filedescriptionpacket_type p4" unfolding p4_def by (intro cp_store_has f3) (use l3 len in simp_all)
  have dv: "4 dvd cp_length p4" using l4 b by simp
  have small: "cp_length p4 < 2 ^ 63" using l4 b n by simp
  note q = cp_finish_props [OF f4 dv small len(1)]
  have q64: "drop 64 (cp_data p) = drop 64 (cp_data p4)" "length (cp_data p) = ?L + 4" "cp_length p = ?L"
    using q l4 fin by simp_all
  have body4: "drop 96 (cp_data p) = h16 @ leu64_bytes sz @ ?bs @ replicate (pad4 ?n - ?n + 4) 0"
    using arg_cong [OF q64(1), of "drop 32"] arg_cong [OF d(3), of "drop 16"] d(4) body by simp
  have nm4: "drop 120 (cp_data p) = ?bs @ replicate (pad4 ?n - ?n + 4) 0"
    using arg_cong [OF body4, of "drop 24"] len(2) by simp
  have "dp_name p = ?bs" using takeWhile_name [OF z, of "pad4 ?n - ?n + 4"] nm4 by (simp add: dp_name_def)
  then have name: "dp_filename p = name" by (simp add: dp_filename_def char_of_of_char comp_def)
  have size: "dp_filesize p = sz" unfolding dp_filesize_def
    using arg_cong [OF body4, of "\<lambda>x. take 8 (drop 16 x)"] q64 len(2) by (intro load64_field) (simp_all add: field_def)
  have h: "dp_hash16k p = h16" using arg_cong [OF body4, of "take 16"] len(2) by (simp add: dp_hash16k_def field_def)
  have hf: "dp_hashfull p = hf" using field_after_64 [OF q64(1), of 80 16] l3 len(3)
    by (simp add: dp_hashfull_def p4_def packet_simps)
  have id: "dp_fileid p = md5 (h16 @ leu64_bytes sz @ ?bs)"
    using field_after_64 [OF q64(1), of 64 16] l3 l2 len(3) idv by (simp add: dp_fileid_def p4_def p3_def packet_simps)
  have tail: "cp_data p = cp_bytes p @ replicate 4 0"
  proof -
    have "drop ?L (cp_data p) = drop (pad4 ?n) (drop 120 (cp_data p))" by (simp add: add.commute)
    also have "\<dots> = replicate 4 0" unfolding nm4 using b(1) by simp
    finally show ?thesis unfolding cp_bytes_def q64(3) by (metis append_take_drop_id)
  qed
  have "header_setid (cp_bytes p) = header_setid (cp_data p)" using q64 by (simp add: header_setid_def cp_bytes_def field_take)
  moreover have "length (cp_bytes p) = ?L" using q64 by (simp add: cp_bytes_def)
  ultimately show ?thesis using q fin q64 tail size h hf name id by simp
qed

lemma dp_load_finished:
  assumes n: "name \<noteq> []" "length name \<le> 99996" "CHR 0x00 \<notin> set name"
    and len: "length setid = 16" "length h16 = 16" "length hf = 16" "sz \<le> 16384 \<longrightarrow> h16 = hf"
    and b: "b = cp_bytes (dp_finished setid name sz h16 hf)"
    and disk: "disk_ready ReadMode content d fs" "length content < 2 ^ 63"
      "unat off + length b \<le> length content" "field (unat off) (length b) content = b"
  shows "\<exists>d'. description_packet_load d fs off (take 64 b) = Some (Some (dp_finished setid name sz h16 hf), d') \<and> disk_ready ReadMode content d' fs"
proof -
  let ?p = "dp_finished setid name sz h16 hf"
  have n32: "length name + 3 < 2 ^ 32" using n(2) by simp
  note c = dp_finished_props [OF n32 n(3) len(1-3), of sz]
  have pb: "length name \<le> pad4 (length name)" "pad4 (length name) < length name + 4" "0 < length name"
    using pad4_bounds [OF n32] n(1) by simp_all
  then have pb0: "0 < pad4 (length name)" by linarith
  have lb: "length b = 120 + pad4 (length name)" "cp_data ?p = b @ replicate 4 0" "cp_length ?p = length b"
    using c unfolding b by simp_all
  have ok: "packet_ok b" using c b by blast
  have hl: "header_length (take 64 b) = header_length b"
    unfolding header_length_def using lb(1) by (intro load64_same) (simp_all add: field_take)
  have u: "unat (header_length b) = 120 + pad4 (length name)" using packet_ok_length [OF ok] lb by simp
  have guards: "\<not> header_length b \<le> 120" "\<not> header_length b - 120 > 100000"
    using u pb0 n(2) pb(2) by (simp_all add: word_less_nat_alt word_le_nat_alt unat_sub)
  have b64: "64 \<le> length b" using lb(1) by simp
  have hlen: "header_length b = word_of_nat (length b)" using ok by (simp add: packet_ok_def)
  obtain d' where d': "cp_load 4 d fs off (take 64 b) = Some (True, \<lparr>cp_data = b @ replicate 4 0, cp_length = length b\<rparr>, d')"
    "disk_ready ReadMode content d' fs"
    using cp_load_file [OF disk b64 hlen, of 4] by blast
  have "\<lparr>cp_data = b @ replicate 4 0, cp_length = length b\<rparr> = ?p" using lb(2,3) by (cases ?p) (simp only: critical_packet.simps)
  moreover have "\<not> (dp_filesize ?p \<le> 16384 \<and> dp_hash16k ?p \<noteq> dp_hashfull ?p)" using c len(4) by simp
  ultimately show ?thesis using d' guards by (simp add: description_packet_load_def hl)
qed

section \<open>Properties\<close>

text \<open>The bytes of a packet at an offset of a file.\<close>

definition in_file :: "bytes \<Rightarrow> u64 \<Rightarrow> bytes \<Rightarrow> bool" where
  "in_file content off b \<longleftrightarrow> length content < 2 ^ 63 \<and> unat off + length b \<le> length content \<and> field (unat off) (length b) content = b"

lemma replicate_16: "replicate 16 x = [x, x, x, x, x, x, x, x, x, x, x, x, x, x, x, x]"
  by (simp add: numeral_eq_Suc)

text \<open>C16: the main packet \<^verbatim>\<open>Create\<close> makes is valid, its set id is the MD5 of its body, its file ids are those
  of the source files in ascending order, whatever order the files came in, and \<^verbatim>\<open>Load\<close> on a file that has
  its bytes anywhere gives the packet back.\<close>

theorem main_packet_roundtrip:
  assumes "\<forall>f\<in>set files. length (fileid f) = 16" "length files \<le> 32768" "bs \<noteq> 0" "bs AND 3 = 0"
    and "main_packet_create fileid files bs = (mp, files')"
  shows "packet_ok (cp_bytes (mp_packet mp)) \<and>
    main_packet_setid mp = md5 (drop 64 (cp_bytes (mp_packet mp))) \<and>
    mset files' = mset files \<and> sorted (map (\<lambda>f. md5_value (fileid f)) files') \<and>
    (\<forall>i<length files. main_packet_fileid i mp = fileid (files' ! i)) \<and>
    (\<forall>files2. mset files2 = mset files \<longrightarrow> fst (main_packet_create fileid files2 bs) = mp) \<and>
    (\<forall>content d fs off. disk_ready ReadMode content d fs \<and> in_file content off (cp_bytes (mp_packet mp)) \<longrightarrow>
       (\<exists>d'. main_packet_load d fs off (take 64 (cp_bytes (mp_packet mp))) = Some (Some mp, d')))"
proof -
  let ?p = "mp_packet mp"
  note ids = assms(1) and n = assms(2)
  note c = main_packet_create_eq [OF ids n assms(5)]
  have b: "cp_data ?p = cp_bytes ?p" "length (cp_bytes ?p) = 76 + 16 * length files" using c by simp_all
  have f': "files' = by_fileid fileid files" using c by blast
  have body: "drop 76 (cp_data ?p) = concat (map fileid files')"
  proof -
    have "drop 64 (cp_data ?p) = leu64_bytes bs @ leu32_bytes (word_of_nat (length files)) @ concat (map fileid files')" using c by blast
    from arg_cong [OF this, of "drop 12"] show ?thesis by simp
  qed
  have fid: "main_packet_fileid i mp = fileid (files' ! i)" if "i < length files" for i
  proof -
    have l16: "\<forall>f\<in>set files'. length (fileid f) = 16" using ids by (simp add: f' by_fileid_props)
    have il: "i < length files'" using that by (simp add: f' by_fileid_props)
    have "main_packet_fileid i mp = take 16 (drop (i * 16) (drop 76 (cp_data ?p)))"
      by (simp add: main_packet_fileid_def field_def add.commute)
    then show ?thesis unfolding body using concat_nth_field [OF l16 il] by simp
  qed
  have perm: "fst (main_packet_create fileid files2 bs) = mp" if m: "mset files2 = mset files" for files2
  proof -
    have l2: "length files2 = length files" "set files2 = set files" using m mset_eq_length mset_eq_setD by blast+
    have s2: "\<forall>f\<in>set files2. length (fileid f) = 16" "length files2 \<le> 32768" using ids n l2 by simp_all
    have "inj_on md5_value (set (map fileid files2))" using s2(1) by (auto simp: inj_on_def intro: md5_value_inj)
    then have "map fileid (by_fileid fileid files2) = map fileid (by_fileid fileid files)"
      unfolding map_by_fileid by (rule sort_key_unique) (simp add: m)
    then have "fst (main_packet_create fileid files2 bs) = fst (main_packet_create fileid files bs)"
      unfolding main_packet_create_def Let_def main_sort [OF s2] main_sort [OF ids n] by (simp only: l2 prod.sel)
    then show ?thesis using assms(5) by simp
  qed
  have "\<exists>d'. main_packet_load d fs off (take 64 (cp_bytes ?p)) = Some (Some mp, d')"
    if r: "disk_ready ReadMode content d fs" "in_file content off (cp_bytes ?p)" for content d fs off
  proof -
    have k: "cp_length ?p = length (cp_bytes ?p)" using c b by simp
    show ?thesis
      using main_packet_load_created [OF ids n assms(5,3,4) r(1)] r(2) unfolding in_file_def k by blast
  qed
  moreover have "packet_ok (cp_bytes ?p)" "main_packet_setid mp = md5 (drop 64 (cp_bytes ?p))" using c unfolding b(1) [symmetric] by blast+
  moreover have "mset files' = mset files" "sorted (map (\<lambda>f. md5_value (fileid f)) files')" by (simp_all add: f' by_fileid_def)
  ultimately show ?thesis using fid perm by blast
qed

theorem main_packet_roundtrip_witness:
  "\<exists>mp d'. main_packet_create (\<lambda>f :: u8. replicate 16 f) [3, 1] 4 = (mp, [1, 3]) \<and>
     main_packet_load (sample_disk ReadMode 0) (sample_fs (cp_bytes (mp_packet mp))) 0 (take 64 (cp_bytes (mp_packet mp))) = Some (Some mp, d') \<and>
     main_packet_fileid 0 mp = replicate 16 1"
proof -
  let ?fid = "\<lambda>f :: u8. replicate 16 f"
  obtain mp files' where c: "main_packet_create ?fid [3, 1] 4 = (mp, files')" by fastforce
  have p: "\<forall>f\<in>set [3, 1]. length (?fid f) = 16" "length [3 :: u8, 1] \<le> 32768" "(4 :: u64) \<noteq> 0" "(4 :: u64) AND 3 = 0"
    by simp_all
  note r = main_packet_roundtrip [OF p c]
  have f: "files' = [1, 3]"
    using main_packet_create_eq [OF p(1,2) c] by (simp add: by_fileid_def replicate_16)
  have "packet_ok (cp_bytes (mp_packet mp))" using r by blast
  then have "length (cp_bytes (mp_packet mp)) < 2 ^ 63" by (simp only: packet_ok_def)
  then have "in_file (cp_bytes (mp_packet mp)) 0 (cp_bytes (mp_packet mp))" by (simp add: in_file_def field_def)
  then obtain d' where "main_packet_load (sample_disk ReadMode 0) (sample_fs (cp_bytes (mp_packet mp))) 0 (take 64 (cp_bytes (mp_packet mp))) =
      Some (Some mp, d')"
    using r sample_ready [of ReadMode "cp_bytes (mp_packet mp)" 0] by blast
  moreover have "\<forall>i<length [3 :: u8, 1]. main_packet_fileid i mp = ?fid (files' ! i)" using r by blast
  then have "main_packet_fileid 0 mp = replicate 16 1" by (simp add: f)
  ultimately show ?thesis using c f by blast
qed

text \<open>C17: a verification packet filled with the hash and CRC of every block and finished is valid, and \<^verbatim>\<open>Load\<close>
  gives back a packet with the same file id, block count and entries.\<close>

theorem verification_packet_roundtrip:
  assumes "\<forall>(hash, crc)\<in>set entries. length hash = 16" "length fileid = 16" "length setid = 16" "entries \<noteq> []" "length entries \<le> 32768"
    and "vp = vp_finished setid fileid entries" "disk_ready ReadMode content d fs" "in_file content off (cp_bytes (vp_packet vp))"
  shows "packet_ok (cp_bytes (vp_packet vp)) \<and> vp_fileid vp = fileid \<and> unat (vp_blockcount vp) = length entries \<and>
    (\<forall>i<length entries. vp_entry i vp = entries ! i) \<and>
    (\<exists>d'. verification_packet_load d fs off (take 64 (cp_bytes (vp_packet vp))) = Some (Some vp, d'))"
proof -
  have n32: "length entries < 2 ^ 32" using assms(5) by simp
  have "\<exists>d'. verification_packet_load d fs off (take 64 (cp_bytes (vp_packet vp))) = Some (Some vp, d')"
    using vp_load_finished [OF assms(1-5) refl assms(7)] assms(6,8) by (auto simp: in_file_def)
  then show ?thesis using vp_finished_props [OF assms(1) n32 assms(2,3)] n32 assms(6) by (simp add: unat_of_nat)
qed

theorem verification_packet_roundtrip_witness:
  "\<exists>vp d'. vp = vp_finished (replicate 16 1) (replicate 16 2) [(replicate 16 3, 4), (replicate 16 5, 6)] \<and> vp_entry 1 vp = (replicate 16 5, 6) \<and>
     verification_packet_load (sample_disk ReadMode 0) (sample_fs (cp_bytes (vp_packet vp))) 0 (take 64 (cp_bytes (vp_packet vp))) = Some (Some vp, d')"
proof -
  let ?es = "[(replicate 16 3, 4), (replicate 16 5, 6)] :: (bytes \<times> u32) list"
  define vp where "vp = vp_finished (replicate 16 1) (replicate 16 2) ?es"
  have p: "\<forall>(hash, crc)\<in>set ?es. length hash = 16" "length (replicate 16 (2 :: u8)) = 16" "length (replicate 16 (1 :: u8)) = 16"
    "?es \<noteq> []" "length ?es \<le> 32768" "length ?es < 2 ^ 32"
    by simp_all
  have "packet_ok (cp_bytes (vp_packet vp))" using vp_finished_props [OF p(1,6,2,3)] unfolding vp_def by blast
  then have "length (cp_bytes (vp_packet vp)) < 2 ^ 63" by (simp only: packet_ok_def)
  then have "in_file (cp_bytes (vp_packet vp)) 0 (cp_bytes (vp_packet vp))" by (simp add: in_file_def field_def)
  note r = verification_packet_roundtrip [OF p(1-5) vp_def sample_ready [of ReadMode _ 0] this]
  then have "\<forall>i<length ?es. vp_entry i vp = ?es ! i" by blast
  then have "vp_entry 1 vp = (replicate 16 5, 6)" by simp
  then show ?thesis using r vp_def by blast
qed

text \<open>C18: a description packet with the name, size and hashes of a file is valid, and \<^verbatim>\<open>Load\<close> gives back a
  packet with the same name, size and hashes, whose file id is the MD5 of the 16k hash, size and name.\<close>

theorem description_packet_roundtrip:
  assumes "name \<noteq> []" "length name \<le> 99996" "CHR 0x00 \<notin> set name"
    and "length setid = 16" "length h16 = 16" "length hf = 16" "sz \<le> 16384 \<longrightarrow> h16 = hf"
    and "p = dp_finished setid name sz h16 hf" "disk_ready ReadMode content d fs" "in_file content off (cp_bytes p)"
  shows "packet_ok (cp_bytes p) \<and> dp_filename p = name \<and> dp_filesize p = sz \<and> dp_hash16k p = h16 \<and> dp_hashfull p = hf \<and>
    dp_fileid p = md5 (h16 @ leu64_bytes sz @ map of_char name) \<and>
    (\<exists>d'. description_packet_load d fs off (take 64 (cp_bytes p)) = Some (Some p, d'))"
proof -
  have n32: "length name + 3 < 2 ^ 32" using assms(2) by simp
  have "\<exists>d'. description_packet_load d fs off (take 64 (cp_bytes p)) = Some (Some p, d')"
    using dp_load_finished [OF assms(1-7) refl assms(9)] assms(8,10) by (auto simp: in_file_def)
  then show ?thesis using dp_finished_props [OF n32 assms(3-6), of sz] assms(8) by simp
qed

theorem description_packet_roundtrip_witness:
  "\<exists>p d'. p = dp_finished (replicate 16 1) ''a.txt'' 5 (replicate 16 3) (replicate 16 3) \<and> dp_filename p = ''a.txt'' \<and> dp_filesize p = 5 \<and>
     description_packet_load (sample_disk ReadMode 0) (sample_fs (cp_bytes p)) 0 (take 64 (cp_bytes p)) = Some (Some p, d')"
proof -
  define p where "p = dp_finished (replicate 16 1) ''a.txt'' 5 (replicate 16 3) (replicate 16 3)"
  have c: "''a.txt'' \<noteq> []" "length ''a.txt'' \<le> 99996" "CHR 0x00 \<notin> set ''a.txt''" "length (replicate 16 (1 :: u8)) = 16"
    "length (replicate 16 (3 :: u8)) = 16" "(5 :: u64) \<le> 16384 \<longrightarrow> replicate 16 (3 :: u8) = replicate 16 3" "length ''a.txt'' + 3 < 2 ^ 32"
    by simp_all
  have "packet_ok (cp_bytes p)" using dp_finished_props [OF c(7,3,4,5,5), of 5] unfolding p_def by blast
  then have "length (cp_bytes p) < 2 ^ 63" by (simp only: packet_ok_def)
  then have "in_file (cp_bytes p) 0 (cp_bytes p)" by (simp add: in_file_def field_def)
  from description_packet_roundtrip [OF c(1-5) c(5,6) p_def sample_ready [of ReadMode _ 0] this]
  show ?thesis using p_def by blast
qed

end
