(* ===== verification/Loader_Spec.thy ===== *)
theory Loader_Spec
  imports PacketLoader Packet_Roundtrips
begin

unbundle bit_operations_syntax

text \<open>
  What loading a PAR2 file means: the valid packets of the file in order, and the effect of each on
  the state of the repairer, as functions of the bytes alone. The disk does not occur here; the
  functions that read from disk are shown to agree with these.
\<close>

section \<open>Packets from their bytes\<close>

definition parse_main :: "bytes \<Rightarrow> main_packet option" where
  "parse_main b =
     (let total = word_of_nat ((length b - 76) div 16) :: u32
      in if length b < 76 \<or> (length b - 76) mod 16 \<noteq> 0 \<or> length b > 76 + 32768 * 16 \<or>
            load32 b 72 > total \<or> load64 b 64 = 0 \<or> load64 b 64 AND 3 \<noteq> 0 then None
         else Some \<lparr>mp_packet = \<lparr>cp_data = b, cp_length = length b\<rparr>, mp_blocksize = load64 b 64,
                    mp_totalfilecount = total, mp_recoverablefilecount = load32 b 72\<rparr>)"

definition parse_verification :: "bytes \<Rightarrow> verification_packet option" where
  "parse_verification b =
     (if length b \<le> 80 \<or> (length b - 80) mod 20 \<noteq> 0 \<or> length b > 80 + 32768 * 20 then None
      else Some \<lparr>vp_packet = \<lparr>cp_data = b, cp_length = length b\<rparr>, vp_blockcount = word_of_nat ((length b - 80) div 20)\<rparr>)"

definition parse_description :: "bytes \<Rightarrow> critical_packet option" where
  "parse_description b =
     (let p = \<lparr>cp_data = b @ replicate 4 0, cp_length = length b\<rparr>
      in if length b \<le> 120 \<or> length b - 120 > 100000 \<or> dp_filesize p \<le> 16384 \<and> dp_hash16k p \<noteq> dp_hashfull p then None
         else Some p)"

definition parse_creator :: "bytes \<Rightarrow> critical_packet option" where
  "parse_creator b =
     (if length b \<le> 64 \<or> length b - 64 > 100000 then None else Some \<lparr>cp_data = b @ replicate 4 0, cp_length = length b\<rparr>)"

definition parse_recovery :: "nat \<Rightarrow> nat \<Rightarrow> bytes \<Rightarrow> recovery_packet option" where
  "parse_recovery diskfile off b =
     (if length b \<le> 68 then None
      else Some \<lparr>rp_diskfile = diskfile, rp_offset = word_of_nat off, rp_packet = take 68 b, rp_context = md5_single_new,
                 rp_datablock = \<lparr>db_diskfile = Some diskfile, db_offset = word_of_nat (off + 68),
                                 db_length = word_of_nat (length b - 68), db_filesize = 0\<rparr>\<rparr>)"

section \<open>The effect of a packet\<close>

definition add_file :: "bytes \<Rightarrow> (source_file \<Rightarrow> bool) \<Rightarrow> (source_file \<Rightarrow> source_file) \<Rightarrow> source_file \<Rightarrow> repairer \<Rightarrow> bool \<times> repairer" where
  "add_file fileid has set_it fresh r =
     (case map_of (pr_sourcefilemap r) fileid of
        Some i \<Rightarrow> if has (pr_files r ! i) then (False, r) else (True, upd_file i set_it r)
      | None \<Rightarrow> (True, r\<lparr>pr_files := pr_files r @ [fresh], pr_sourcefilemap := pr_sourcefilemap r @ [(fileid, length (pr_files r))]\<rparr>))"

definition add_packet :: "nat \<Rightarrow> nat \<times> bytes \<Rightarrow> repairer \<Rightarrow> bool \<times> repairer" where
  "add_packet diskfile ob r =
     (let (off, b) = ob; type = header_type b
      in if type = recoveryblockpacket_type
         then (case parse_recovery diskfile off b of
                 None \<Rightarrow> (False, r)
               | Some p \<Rightarrow>
                   if map_of (pr_recoverypackets r) (rp_exponent p) \<noteq> None then (False, r)
                   else (True, r\<lparr>pr_recoverypackets := map_add_new (rp_exponent p) p (pr_recoverypackets r)\<rparr>))
         else if type = fileverificationpacket_type
         then (case parse_verification b of
                 None \<Rightarrow> (False, r)
               | Some p \<Rightarrow> add_file (vp_fileid p) (\<lambda>sf. sf_verification sf \<noteq> None) (\<lambda>sf. sf\<lparr>sf_verification := Some p\<rparr>) (source_file_new None (Some p)) r)
         else if type = filedescriptionpacket_type
         then (case parse_description b of
                 None \<Rightarrow> (False, r)
               | Some p \<Rightarrow> add_file (dp_fileid p) (\<lambda>sf. sf_description sf \<noteq> None) (\<lambda>sf. sf\<lparr>sf_description := Some p\<rparr>) (source_file_new (Some p) None) r)
         else if type = mainpacket_type
         then (if pr_mainpacket r \<noteq> None then (False, r)
               else case parse_main b of None \<Rightarrow> (False, r) | Some p \<Rightarrow> (True, r\<lparr>pr_mainpacket := Some p\<rparr>))
         else if type = creatorpacket_type
         then (if pr_creatorpacket r \<noteq> None then (False, r)
               else case parse_creator b of None \<Rightarrow> (False, r) | Some p \<Rightarrow> (True, r\<lparr>pr_creatorpacket := Some p\<rparr>))
         else (False, r))"

text \<open>The first packet decides the set; packets of other sets are passed over.\<close>

definition take_packet :: "nat \<Rightarrow> nat \<times> bytes \<Rightarrow> u32 \<times> repairer \<Rightarrow> u32 \<times> repairer" where
  "take_packet diskfile ob s =
     (let (packets, r) = s;
          r = (if pr_firstpacket r then r\<lparr>pr_setid := header_setid (snd ob), pr_firstpacket := False\<rparr> else r)
      in if pr_setid r = header_setid (snd ob)
         then case add_packet diskfile ob r of (new, r) \<Rightarrow> (if new then packets + 1 else packets, r)
         else (packets, r))"

section \<open>The packets of a file\<close>

definition packet_at :: "bytes \<Rightarrow> nat \<Rightarrow> bytes" where
  "packet_at content p = field p (unat (load64 content (p + 8))) content"

definition magic_at :: "bytes \<Rightarrow> nat \<Rightarrow> bool" where
  "magic_at content p \<longleftrightarrow> p + 64 \<le> length content \<and> field p 8 content = packet_magic"

definition valid_at :: "bytes \<Rightarrow> nat \<Rightarrow> bool" where
  "valid_at content p \<longleftrightarrow> magic_at content p \<and> p + unat (load64 content (p + 8)) \<le> length content \<and> packet_ok (packet_at content p)"

lemma valid_at_length: "valid_at content p \<Longrightarrow> 64 \<le> length (packet_at content p) \<and> p + length (packet_at content p) \<le> length content"
  by (auto simp: valid_at_def packet_at_def packet_ok_def length_field)

text \<open>From one valid packet the scan goes on behind it, otherwise one byte on.\<close>

function packets_from :: "bytes \<Rightarrow> nat \<Rightarrow> (nat \<times> bytes) list" where
  "packets_from content p =
     (if p + 64 \<le> length content
      then if valid_at content p then (p, packet_at content p) # packets_from content (p + length (packet_at content p))
           else packets_from content (p + 1)
      else [])"
  by pat_completeness auto
termination
proof (relation "measure (\<lambda>(content, p). length content - p)", goal_cases)
  case (2 content p)
  then show ?case using valid_at_length [of content p] by (auto simp: diff_less_mono2)
qed auto

declare packets_from.simps [simp del]

text \<open>No length field at a magic makes the end of the packet exceed 64 bits.\<close>

definition lengths_fit :: "bytes \<Rightarrow> bool" where
  "lengths_fit content \<longleftrightarrow> (\<forall>p. magic_at content p \<longrightarrow> p + unat (load64 content (p + 8)) < 2 ^ 64)"

section \<open>The loading functions agree\<close>

lemma header_type_take: "header_type (take 64 b) = header_type b"
  by (simp add: header_type_def field_take)

lemma header_length_take: "64 \<le> length b \<Longrightarrow> header_length (take 64 b) = header_length b"
  unfolding header_length_def by (intro load64_same) (simp_all add: field_take)

lemma packet_ok_facts:
  "packet_ok b \<Longrightarrow> 64 \<le> length b \<and> unat (header_length b) = length b \<and> header_length b = word_of_nat (length b) \<and> length b < 2 ^ 63"
  using packet_ok_length [of b] by (simp add: packet_ok_def)

text \<open>A valid packet lies at an offset of the open file.\<close>

definition packet_here :: "bytes \<Rightarrow> diskfile \<Rightarrow> fs \<Rightarrow> u64 \<Rightarrow> bytes \<Rightarrow> bool" where
  "packet_here content d fs off b \<longleftrightarrow> disk_ready ReadMode content d fs \<and> in_file content off b \<and> packet_ok b"

lemma cp_load_ok:
  assumes "packet_here content d fs off b"
  shows "\<exists>d'. cp_load e d fs off (take 64 b) = Some (True, \<lparr>cp_data = b @ replicate e 0, cp_length = length b\<rparr>, d') \<and>
    disk_ready ReadMode content d' fs"
  using assms cp_load_file [of content d fs off b e] packet_ok_facts [of b] by (auto simp: in_file_def packet_here_def)

lemma main_load_parse:
  assumes "packet_here content d fs off b"
  shows "\<exists>d'. main_packet_load d fs off (take 64 b) = Some (parse_main b, d') \<and> disk_ready ReadMode content d' fs"
proof -
  have ready: "disk_ready ReadMode content d fs" and inf: "in_file content off b" and ok: "packet_ok b"
    using assms by (simp_all add: packet_here_def)
  have u: "unat (header_length b) = length b" "64 \<le> length b" using packet_ok_facts [OF ok] by blast+
  show ?thesis
  proof (cases "length b < 76")
    case True
    then show ?thesis using u ready by (auto simp: main_packet_load_def parse_main_def header_length_take word_less_nat_alt)
  next
    case False
    then have sub: "unat (header_length b - 76) = length b - 76" using u by (simp add: unat_sub word_le_nat_alt)
    have tot: "ucast ((header_length b - 76) div 16) = (word_of_nat ((length b - 76) div 16) :: u32)"
    proof -
      have "unat ((header_length b - 76) div 16) = (length b - 76) div 16" using sub by (simp add: unat_div)
      then show ?thesis by (metis of_nat_unat)
    qed
    obtain d' where d': "cp_load 0 d fs off (take 64 b) = Some (True, \<lparr>cp_data = b, cp_length = length b\<rparr>, d')"
      "disk_ready ReadMode content d' fs"
      using cp_load_ok [OF assms, of 0] by (simp only: replicate.simps append_Nil2) blast
    show ?thesis
      using False u sub d' ready tot
      by (auto simp: main_packet_load_def parse_main_def header_length_take word_less_nat_alt unat_mod Let_def)
  qed
qed

lemma verification_load_parse:
  assumes "packet_here content d fs off b"
  shows "\<exists>d'. verification_packet_load d fs off (take 64 b) = Some (parse_verification b, d') \<and> disk_ready ReadMode content d' fs"
proof -
  have ready: "disk_ready ReadMode content d fs" and inf: "in_file content off b" and ok: "packet_ok b"
    using assms by (simp_all add: packet_here_def)
  have u: "unat (header_length b) = length b" "64 \<le> length b" using packet_ok_facts [OF ok] by blast+
  show ?thesis
  proof (cases "length b \<le> 80")
    case True
    then show ?thesis using u ready by (auto simp: verification_packet_load_def parse_verification_def header_length_take word_le_nat_alt)
  next
    case False
    then have sub: "unat (header_length b - 80) = length b - 80" using u by (simp add: unat_sub word_le_nat_alt)
    have cnt: "ucast ((header_length b - 80) div 20) = (word_of_nat ((length b - 80) div 20) :: u32)"
    proof -
      have "unat ((header_length b - 80) div 20) = (length b - 80) div 20" using sub by (simp add: unat_div)
      then show ?thesis by (metis of_nat_unat)
    qed
    obtain d' where d': "cp_load 0 d fs off (take 64 b) = Some (True, \<lparr>cp_data = b, cp_length = length b\<rparr>, d')"
      "disk_ready ReadMode content d' fs"
      using cp_load_ok [OF assms, of 0] by (simp only: replicate.simps append_Nil2) blast
    show ?thesis
      using False u sub d' ready cnt
      by (auto simp: verification_packet_load_def parse_verification_def header_length_take word_less_nat_alt word_le_nat_alt unat_mod)
  qed
qed

lemma description_load_parse:
  assumes "packet_here content d fs off b"
  shows "\<exists>d'. description_packet_load d fs off (take 64 b) = Some (parse_description b, d') \<and> disk_ready ReadMode content d' fs"
proof -
  have ready: "disk_ready ReadMode content d fs" and inf: "in_file content off b" and ok: "packet_ok b"
    using assms by (simp_all add: packet_here_def)
  have u: "unat (header_length b) = length b" "64 \<le> length b" using packet_ok_facts [OF ok] by blast+
  show ?thesis
  proof (cases "length b \<le> 120")
    case True
    then show ?thesis using u ready by (auto simp: description_packet_load_def parse_description_def header_length_take word_le_nat_alt)
  next
    case False
    then have sub: "unat (header_length b - 120) = length b - 120" using u by (simp add: unat_sub word_le_nat_alt)
    obtain d' where "cp_load 4 d fs off (take 64 b) = Some (True, \<lparr>cp_data = b @ replicate 4 0, cp_length = length b\<rparr>, d')"
      "disk_ready ReadMode content d' fs"
      using cp_load_ok [OF assms, of 4] by blast
    then show ?thesis
      using False u sub ready
      by (auto simp: description_packet_load_def parse_description_def header_length_take word_less_nat_alt word_le_nat_alt Let_def)
  qed
qed

lemma creator_load_parse:
  assumes "packet_here content d fs off b"
  shows "\<exists>d'. creator_packet_load d fs off (take 64 b) = Some (parse_creator b, d') \<and> disk_ready ReadMode content d' fs"
proof -
  have ready: "disk_ready ReadMode content d fs" and inf: "in_file content off b" and ok: "packet_ok b"
    using assms by (simp_all add: packet_here_def)
  have u: "unat (header_length b) = length b" "64 \<le> length b" using packet_ok_facts [OF ok] by blast+
  have sub: "unat (header_length b - 64) = length b - 64" using u by (simp add: unat_sub word_le_nat_alt)
  obtain d' where "cp_load 4 d fs off (take 64 b) = Some (True, \<lparr>cp_data = b @ replicate 4 0, cp_length = length b\<rparr>, d')"
    "disk_ready ReadMode content d' fs"
    using cp_load_ok [OF assms, of 4] by blast
  then show ?thesis
    using u sub ready by (auto simp: creator_packet_load_def parse_creator_def header_length_take word_less_nat_alt word_le_nat_alt)
qed

lemma recovery_load_parse:
  assumes "packet_here content d fs off b" "d = store diskfile"
  shows "\<exists>d'. recovery_packet_load diskfile off (take 64 b) store fs = Some (parse_recovery diskfile (unat off) b, store(diskfile := d')) \<and>
    disk_ready ReadMode content d' fs"
proof -
  have ready: "disk_ready ReadMode content d fs" and inf: "in_file content off b" and ok: "packet_ok b"
    using assms by (simp_all add: packet_here_def)
  have u: "unat (header_length b) = length b" "64 \<le> length b" "length b < 2 ^ 63" using packet_ok_facts [OF ok] by blast+
  show ?thesis
  proof (cases "length b \<le> 68")
    case True
    then have "recovery_packet_load diskfile off (take 64 b) store fs = Some (parse_recovery diskfile (unat off) b, store(diskfile := d))"
      using u assms(2) by (simp add: recovery_packet_load_def parse_recovery_def header_length_take word_le_nat_alt)
    then show ?thesis using ready by blast
  next
    case False
    have c: "unat off + length b \<le> length content" "length content < 2 ^ 63" "field (unat off) (length b) content = b"
      using inf by (simp_all add: in_file_def)
    have o: "unat (off + 64) = unat off + 64" using c u by (simp add: unat_word_ariths)
    have le: "off + 64 \<le> MaxOffset" using c u by (simp add: word_le_nat_alt o)
    have r: "unat (off + 64) + 4 \<le> length content" using c False by (simp add: o)
    have lc: "length content < 2 ^ 64" using c by simp
    obtain d' where d': "disk_read (off + 64) 4 MAX_LENGTH d fs = Some (True, take 4 (drop (unat (off + 64)) content), d')"
      "disk_ready ReadMode content d' fs"
      using disk_read_inside [OF ready le _ r lc, of MAX_LENGTH] by auto
    have "take 4 (drop (unat (off + 64)) content) = take 4 (drop 64 b)"
      unfolding o using arg_cong [OF c(3), of "\<lambda>x. take 4 (drop 64 x)"] False
      by (simp add: field_def drop_take take_take min_absorb1 add.commute)
    moreover have "memcpy (memcpy (replicate 68 0) 0 (take 64 b)) 64 (take 4 (drop 64 b)) = take 68 b"
      using False u(2) by (simp add: memcpy_def take_add [of 64 4 b, simplified])
    moreover have "header_length b - 68 = word_of_nat (length b - 68)" "off + 68 = word_of_nat (unat off + 68)"
      using False packet_ok_facts [OF ok] by (simp_all add: of_nat_diff)
    ultimately show ?thesis
      using False u d' assms
      by (auto simp: recovery_packet_load_def parse_recovery_def header_length_take word_le_nat_alt recovery_packet_new_def Let_def
          db_set_length_def db_set_location_def datablock_new_def)
  qed
qed

end
