(* ===== verification/Loader_Refine.thy ===== *)
theory Loader_Refine
  imports Loader_Correct
begin

unbundle bit_operations_syntax

text \<open>
  \<^verbatim>\<open>LoadPacketsFromFile\<close> against its specification: a packet, a round, the loop. The loop takes
  the packets of the file in order when no length field overflows (\<open>load_loop_packets\<close>), and it never
  returns on a file made for the purpose (\<open>load_loop_hangs\<close>).
\<close>

section \<open>The disk store beside the packets\<close>

lemma set_disk_set_disk [simp]: "set_disk p d (set_disk p d' r) = set_disk p d r"
  by (simp add: set_disk_def)

lemma pr_store_set_disk [simp]: "pr_store (set_disk p d r) = (pr_store r)(p := d)"
  by (simp add: set_disk_def)

lemma set_disk_same [simp]: "set_disk p (pr_store r p) r = r"
  by (simp add: set_disk_def)

lemma set_disk_fields [simp]:
  "pr_firstpacket (set_disk p d r) = pr_firstpacket r" "pr_setid (set_disk p d r) = pr_setid r"
  "pr_recoverypackets (set_disk p d r) = pr_recoverypackets r" "pr_mainpacket (set_disk p d r) = pr_mainpacket r"
  "pr_creatorpacket (set_disk p d r) = pr_creatorpacket r" "pr_sourcefilemap (set_disk p d r) = pr_sourcefilemap r"
  "pr_files (set_disk p d r) = pr_files r"
  by (simp_all add: set_disk_def)

definition with_disk :: "nat \<Rightarrow> diskfile \<Rightarrow> 'a \<times> repairer \<Rightarrow> 'a \<times> repairer" where
  "with_disk p d xr = (fst xr, set_disk p d (snd xr))"

lemma with_disk_simps [simp]: "with_disk p d (x, r) = (x, set_disk p d r)" "with_disk p d (with_disk p d' xr) = with_disk p d xr"
  by (simp_all add: with_disk_def)

lemma set_disk_updates:
  "(set_disk p d r)\<lparr>pr_recoverypackets := x\<rparr> = set_disk p d (r\<lparr>pr_recoverypackets := x\<rparr>)"
  "(set_disk p d r)\<lparr>pr_mainpacket := m\<rparr> = set_disk p d (r\<lparr>pr_mainpacket := m\<rparr>)"
  "(set_disk p d r)\<lparr>pr_creatorpacket := c\<rparr> = set_disk p d (r\<lparr>pr_creatorpacket := c\<rparr>)"
  "(set_disk p d r)\<lparr>pr_setid := s\<rparr> = set_disk p d (r\<lparr>pr_setid := s\<rparr>)"
  "(set_disk p d r)\<lparr>pr_firstpacket := b\<rparr> = set_disk p d (r\<lparr>pr_firstpacket := b\<rparr>)"
  "(set_disk p d r)\<lparr>pr_sourcefilemap := sm\<rparr> = set_disk p d (r\<lparr>pr_sourcefilemap := sm\<rparr>)"
  "(set_disk p d r)\<lparr>pr_files := fl\<rparr> = set_disk p d (r\<lparr>pr_files := fl\<rparr>)"
  "upd_file i f (set_disk p d r) = set_disk p d (upd_file i f r)"
  by (simp_all add: set_disk_def upd_file_def)

lemma add_file_set_disk: "add_file fid has set_it fresh (set_disk p d r) = with_disk p d (add_file fid has set_it fresh r)"
  by (simp add: add_file_def set_disk_updates split: option.split)

lemma add_packet_set_disk: "add_packet diskfile ob (set_disk p d r) = with_disk p d (add_packet diskfile ob r)"
  by (cases ob) (simp add: add_packet_def Let_def add_file_set_disk set_disk_updates split: option.split)

lemma take_packet_set_disk: "take_packet diskfile ob (with_disk p d s) = with_disk p d (take_packet diskfile ob s)"
proof -
  obtain n r where s: "s = (n, r)" by fastforce
  obtain b1 r1 where a: "add_packet diskfile ob r = (b1, r1)" by fastforce
  obtain b2 r2 where a': "add_packet diskfile ob (r\<lparr>pr_setid := header_setid (snd ob), pr_firstpacket := False\<rparr>) = (b2, r2)" by fastforce
  show ?thesis unfolding s by (simp add: take_packet_def set_disk_updates add_packet_set_disk a a')
qed

lemma fold_take_packet_set_disk:
  "fold (take_packet diskfile) ps (with_disk p d s) = with_disk p d (fold (take_packet diskfile) ps s)"
  by (induction ps arbitrary: s) (simp_all add: take_packet_set_disk)

section \<open>A packet\<close>

lemma types_distinct:
  "distinct [recoveryblockpacket_type, fileverificationpacket_type, filedescriptionpacket_type, mainpacket_type, creatorpacket_type]"
  "distinct [creatorpacket_type, mainpacket_type, filedescriptionpacket_type, fileverificationpacket_type, recoveryblockpacket_type]"
  by (simp_all add: mainpacket_type_def fileverificationpacket_type_def filedescriptionpacket_type_def
      creatorpacket_type_def recoveryblockpacket_type_def)

lemma load_packet_spec:
  assumes "packet_here content (pr_store r diskfile) fs off b"
  shows "\<exists>d'. load_packet diskfile fs off (take 64 b) r = Some (with_disk diskfile d' (add_packet diskfile (unat off, b) r)) \<and>
    disk_ready ReadMode content d' fs"
proof -
  let ?d = "pr_store r diskfile"
  have ready: "disk_ready ReadMode content ?d fs" using assms by (simp add: packet_here_def)
  obtain dm where m: "main_packet_load ?d fs off (take 64 b) = Some (parse_main b, dm)" "disk_ready ReadMode content dm fs"
    using main_load_parse [OF assms] by blast
  obtain dv where v: "verification_packet_load ?d fs off (take 64 b) = Some (parse_verification b, dv)" "disk_ready ReadMode content dv fs"
    using verification_load_parse [OF assms] by blast
  obtain dd where d: "description_packet_load ?d fs off (take 64 b) = Some (parse_description b, dd)" "disk_ready ReadMode content dd fs"
    using description_load_parse [OF assms] by blast
  obtain dc where c: "creator_packet_load ?d fs off (take 64 b) = Some (parse_creator b, dc)" "disk_ready ReadMode content dc fs"
    using creator_load_parse [OF assms] by blast
  obtain dr where rc: "recovery_packet_load diskfile off (take 64 b) (pr_store r) fs =
      Some (parse_recovery diskfile (unat off) b, (pr_store r)(diskfile := dr))" "disk_ready ReadMode content dr fs"
    using recovery_load_parse [OF assms, of "pr_store r" diskfile] by blast
  have store: "r\<lparr>pr_store := (pr_store r)(diskfile := x)\<rparr> = set_disk diskfile x r" for x by (simp add: set_disk_def)
  note defs = load_packet_def add_packet_def header_type_take Let_def
  note types = types_distinct [simplified]
  consider "header_type b = recoveryblockpacket_type" | "header_type b = fileverificationpacket_type"
    | "header_type b = filedescriptionpacket_type" | "header_type b = mainpacket_type" | "header_type b = creatorpacket_type"
    | "header_type b \<notin> {recoveryblockpacket_type, fileverificationpacket_type, filedescriptionpacket_type, mainpacket_type, creatorpacket_type}"
    by blast
  then show ?thesis
  proof cases
    case 1
    have "load_packet diskfile fs off (take 64 b) r = Some (with_disk diskfile dr (add_packet diskfile (unat off, b) r))"
      using rc by (simp add: defs 1 types load_recovery_packet_def store set_disk_updates split: option.split)
    then show ?thesis using rc by blast
  next
    case 2
    have "load_packet diskfile fs off (take 64 b) r = Some (with_disk diskfile dv (add_packet diskfile (unat off, b) r))"
      using v by (simp add: defs 2 types load_verification_packet_def add_file_def set_disk_updates split: option.split)
    then show ?thesis using v by blast
  next
    case 3
    have "load_packet diskfile fs off (take 64 b) r = Some (with_disk diskfile dd (add_packet diskfile (unat off, b) r))"
      using d by (simp add: defs 3 types load_description_packet_def add_file_def set_disk_updates split: option.split)
    then show ?thesis using d by blast
  next
    case 4
    have "\<exists>d'. load_packet diskfile fs off (take 64 b) r = Some (with_disk diskfile d' (add_packet diskfile (unat off, b) r)) \<and>
        d' \<in> {?d, dm}"
      using m by (cases "pr_mainpacket r"; cases "parse_main b") (simp_all add: defs 4 types load_main_packet_def set_disk_updates with_disk_def, (metis set_disk_same)+)
    then show ?thesis using m ready by blast
  next
    case 5
    have "\<exists>d'. load_packet diskfile fs off (take 64 b) r = Some (with_disk diskfile d' (add_packet diskfile (unat off, b) r)) \<and>
        d' \<in> {?d, dc}"
      using c by (cases "pr_creatorpacket r"; cases "parse_creator b") (simp_all add: defs 5 types load_creator_packet_def set_disk_updates with_disk_def, (metis set_disk_same)+)
    then show ?thesis using c ready by blast
  next
    case 6
    then have "load_packet diskfile fs off (take 64 b) r = Some (with_disk diskfile ?d (add_packet diskfile (unat off, b) r))"
      by (simp add: defs)
    then show ?thesis using ready by blast
  qed
qed

lemma and_3_dvd: "(w :: u64) AND 3 = 0 \<longleftrightarrow> 4 dvd unat w"
proof -
  have "unat (w AND 3) = unat w mod 4"
    using arg_cong [OF take_bit_eq_mask [of 2 w], of unat] by (simp add: unsigned_take_bit_eq mask_eq_exp_minus_1 take_bit_eq_mod unat_mod)
  then show ?thesis by (metis unat_0 unat_eq_zero dvd_eq_mod_eq_0)
qed

lemma process_packet_spec:
  assumes ready: "disk_ready ReadMode content (pr_store r diskfile) fs" and small: "length content < 2 ^ 63"
    and fsz: "filesize = word_of_nat (length content)" and buf: "0 < buffersize"
    and fit: "lengths_fit content" and magic: "magic_at content (unat off)"
  shows "\<exists>d'. disk_ready ReadMode content d' fs \<and>
    process_packet diskfile fs buffersize filesize off (field (unat off) 64 content) packets r =
      (let b = packet_at content (unat off)
       in if valid_at content (unat off)
          then Some (off + word_of_nat (length b), with_disk diskfile d' (take_packet diskfile (unat off, b) (packets, r)))
          else Some (off + 1, packets, set_disk diskfile d' r))"
proof -
  let ?p = "unat off" and ?h = "field (unat off) 64 content"
  let ?L = "header_length ?h" and ?b = "packet_at content (unat off)"
  have in64: "?p + 64 \<le> length content" using magic by (simp add: magic_at_def)
  have L: "?L = load64 content (?p + 8)"
    unfolding header_length_def using in64 by (intro load64_same) (simp_all add: field_field length_field)
  have nowrap: "?p + unat ?L < 2 ^ 64" using fit magic by (simp add: lengths_fit_def L)
  have fl: "unat filesize = length content" using small fsz by (simp add: unat_of_nat)
  have lim: "unat (off + ?L) = ?p + unat ?L" using nowrap by (simp add: unat_word_ariths)
  have o64: "unat (off + 64) = ?p + 64" using in64 small by (simp add: unat_word_ariths)
  show ?thesis
  proof (cases "64 \<le> unat ?L \<and> 4 dvd unat ?L \<and> ?p + unat ?L \<le> length content")
    case False
    then have "process_packet diskfile fs buffersize filesize off ?h packets r = Some (off + 1, packets, r)"
      by (auto simp: process_packet_def and_3_dvd word_less_nat_alt fl lim)
    moreover have "\<not> valid_at content ?p"
      using False packet_ok_facts [of ?b] by (auto simp: valid_at_def packet_at_def L [symmetric] length_field packet_ok_def)
    ultimately show ?thesis using ready set_disk_same [of diskfile r] by (intro exI [of _ "pr_store r diskfile"]) simp
  next
    case True
    have b: "?b = field ?p (unat ?L) content" "length ?b = unat ?L" using True by (simp_all add: packet_at_def L length_field)
    have fb: "take 64 ?b = ?h" "header_hash ?b = header_hash ?h" "header_setid ?b = header_setid ?h" "header_magic ?b = header_magic ?h"
      using True by (simp_all add: b(1) field_take header_hash_def header_setid_def header_magic_def field_field)
        (simp add: field_def)
    have a0: "ms_absorbs (md5_update (drop OFF_SETID ?h) md5_single_new) (drop 32 ?h)"
      using md5_update_absorbs [of md5_single_new "[]" "drop 32 ?h"]
      by (simp add: md5_single_new_def ms_absorbs_def md5_chunks_short)
    obtain ctx d' where c: "hash_packet fs buffersize (off + ?L) (off + 64) (md5_update (drop OFF_SETID ?h) md5_single_new)
          (pr_store r diskfile) = Some (True, ctx, d')" "disk_ready ReadMode content d' fs"
        "ms_absorbs ctx (drop 32 ?h @ field (?p + 64) (?p + unat ?L - (?p + 64)) content)"
      using hash_packet_spec [OF ready small buf _ a0, of "off + ?L" "off + 64"] True by (auto simp: lim o64)
    have bytes: "drop 32 ?h @ field (?p + 64) (?p + unat ?L - (?p + 64)) content = drop 32 ?b"
    proof -
      have "?b = ?h @ field (?p + 64) (unat ?L - 64) content"
        using True take_add [of 64 "unat ?L - 64" "drop ?p content"] by (simp add: b(1) field_def add.commute)
      then show ?thesis using in64 by (simp add: length_field del: drop_append)
       (simp add: length_field)
    qed
    have hash: "md5_end ctx = md5 (drop 32 ?b)" using md5_end_absorbs [OF c(3)] by (simp only: bytes)
    have valid: "valid_at content ?p \<longleftrightarrow> header_hash ?h = md5 (drop 32 ?b)"
    proof -
      have "header_length ?b = ?L"
        unfolding header_length_def using True b in64 by (intro load64_same) (simp_all add: field_field length_field)
      moreover have "word_of_nat (unat ?L) = ?L" by simp
      moreover have "header_magic ?h = packet_magic" using magic by (simp add: header_magic_def field_field magic_at_def)
      ultimately show ?thesis using True b(2) fb small by (auto simp: valid_at_def magic packet_ok_def L [symmetric])
    qed
    have guard: "\<not> (64 > ?L \<or> ?L AND 3 \<noteq> 0 \<or> filesize < off + ?L)"
      using True by (simp add: and_3_dvd word_less_nat_alt fl lim)
    show ?thesis
    proof (cases "valid_at content ?p")
      case False
      then show ?thesis using guard c hash valid
        by (intro exI [of _ d']) (auto simp: process_packet_def)
    next
      case ok: True
      have here: "packet_here content d' fs off ?b"
        using ok c(2) small True b by (auto simp: packet_here_def valid_at_def in_file_def)
      define r0 where "r0 = (if pr_firstpacket r then r\<lparr>pr_setid := header_setid ?h, pr_firstpacket := False\<rparr> else r)"
      have r1: "(if pr_firstpacket (set_disk diskfile d' r)
          then (set_disk diskfile d' r)\<lparr>pr_setid := header_setid ?h, pr_firstpacket := False\<rparr> else set_disk diskfile d' r) = set_disk diskfile d' r0"
        by (simp add: r0_def set_disk_updates)
      have "packet_here content (pr_store (set_disk diskfile d' r0) diskfile) fs off ?b" using here by simp
      from load_packet_spec [OF this]
      obtain d'' where l: "load_packet diskfile fs off ?h (set_disk diskfile d' r0) =
          Some (with_disk diskfile d'' (add_packet diskfile (?p, ?b) (set_disk diskfile d' r0)))" "disk_ready ReadMode content d'' fs"
        unfolding fb(1) by blast
      have Lb: "word_of_nat (length ?b) = ?L" using b(2) by simp
      have "md5_end ctx = header_hash ?h" using hash valid ok by simp
      then have p: "process_packet diskfile fs buffersize filesize off ?h packets r =
          (if pr_setid r0 = header_setid ?h
           then Some (off + ?L, (if fst (add_packet diskfile (?p, ?b) r0) then packets + 1 else packets),
                      set_disk diskfile d'' (snd (add_packet diskfile (?p, ?b) r0)))
           else Some (off + ?L, packets, set_disk diskfile d' r0))"
        using guard c(1) l(1)
        by (simp add: process_packet_def Let_def r1 [simplified] add_packet_set_disk with_disk_def)
      have t: "take_packet diskfile (?p, ?b) (packets, r) =
          (if pr_setid r0 = header_setid ?h
           then ((if fst (add_packet diskfile (?p, ?b) r0) then packets + 1 else packets), snd (add_packet diskfile (?p, ?b) r0))
           else (packets, r0))"
        by (simp add: take_packet_def Let_def fb r0_def split: prod.split)
      show ?thesis
      proof (cases "pr_setid r0 = header_setid ?h")
        case True
        then show ?thesis using ok l(2) by (intro exI [of _ d'']) (simp add: p t Lb del: of_nat_unat)
      next
        case False
        then show ?thesis using ok c(2) by (intro exI [of _ d']) (simp add: p t Lb del: of_nat_unat)
      qed
    qed
  qed
qed

section \<open>The loop\<close>

lemma packets_from_skip:
  assumes "p \<le> q" "\<And>k. p \<le> k \<Longrightarrow> k < q \<Longrightarrow> \<not> valid_at content k"
  shows "packets_from content p = packets_from content q"
  using assms
proof (induction "q - p" arbitrary: p)
  case (Suc n)
  have "packets_from content p = packets_from content (p + 1)"
  proof (cases "p + 64 \<le> length content")
    case True
    then show ?thesis using Suc.prems(2) [of p] Suc.hyps(2) by (subst packets_from.simps) simp
  next
    case False
    then show ?thesis by (simp add: packets_from.simps)
  qed
  then show ?case using Suc.hyps(1) [of "p + 1"] Suc.hyps(2) Suc.prems by simp
qed simp

lemma packets_from_end: "length content < p + 64 \<Longrightarrow> packets_from content p = []"
  by (simp add: packets_from.simps)

lemma packets_from_step:
  "p + 64 \<le> length content \<Longrightarrow> packets_from content p =
    (if valid_at content p then (p, packet_at content p) # packets_from content (p + length (packet_at content p))
     else packets_from content (p + 1))"
  by (simp add: packets_from.simps)

lemma header_magic_field: "header_magic (field p 64 content) = field p 8 content"
  by (simp add: header_magic_def field_field)

lemma load_loop_rule:
  assumes "disk_ready ReadMode content (pr_store r diskfile) fs" "length content < 2 ^ 63"
    and "filesize = word_of_nat (length content)" "buffersize = min 1048576 filesize"
    and "lengths_fit content" "unat off \<le> length content"
  shows "\<exists>d'. load_loop diskfile fs buffersize filesize off packets r =
      Some (with_disk diskfile d' (fold (take_packet diskfile) (packets_from content (unat off)) (packets, r))) \<and>
    disk_ready ReadMode content d' fs"
  using assms
proof (induction "length content - unat off" arbitrary: off packets r rule: less_induct)
  case less
  note ready = less.prems(1) and small = less.prems(2) and fsz = less.prems(3) and fit = less.prems(5)
  have fl: "unat filesize = length content" using small fsz by (simp add: unat_of_nat)
  have o64: "unat (off + 64) = unat off + 64" using less.prems(6) small by (simp add: unat_word_ariths)
  show ?case
  proof (cases "unat off + 64 \<le> length content")
    case False
    then have "load_loop diskfile fs buffersize filesize off packets r = Some (packets, r)"
      by (subst load_loop.simps) (simp add: word_le_nat_alt fl o64)
    then show ?thesis using False ready by (intro exI [of _ "pr_store r diskfile"]) (simp add: packets_from_end)
  next
    case True
    then have buf: "64 \<le> unat buffersize" using less.prems(4) fl by (simp add: min_def word_le_nat_alt)
    then have buf0: "0 < buffersize" by (simp add: word_less_nat_alt)
    obtain d0 where d0: "disk_read off 64 MAX_LENGTH (pr_store r diskfile) fs = Some (True, field (unat off) 64 content, d0)"
      "disk_ready ReadMode content d0 fs"
      using disk_read_u64 [OF ready small, of off 64] True by auto
    have enter: "load_loop diskfile fs buffersize filesize off packets r =
        do { res \<leftarrow> load_round diskfile fs buffersize filesize off packets r;
             case res of Inl result \<Rightarrow> Some result
             | Inr (off, packets, r) \<Rightarrow> load_loop diskfile fs buffersize filesize off packets r }"
      using True by (subst load_loop.simps) (simp add: word_le_nat_alt fl o64)
    text \<open>What a packet at the magic does, and the rest of the loop.\<close>
    have rest: "\<exists>d'. (do { res \<leftarrow> map_option Inr (process_packet diskfile fs buffersize filesize o1 (field (unat o1) 64 content) packets r1);
             case res of Inl result \<Rightarrow> Some result
             | Inr (off, packets, r) \<Rightarrow> load_loop diskfile fs buffersize filesize off packets r }) =
         Some (with_disk diskfile d' (fold (take_packet diskfile) (packets_from content (unat o1)) (packets, r1))) \<and>
         disk_ready ReadMode content d' fs"
      if r1: "disk_ready ReadMode content (pr_store r1 diskfile) fs" and m: "magic_at content (unat o1)" and le: "unat off \<le> unat o1"
      for o1 r1
    proof -
      let ?b = "packet_at content (unat o1)"
      have in64: "unat o1 + 64 \<le> length content" using m by (simp add: magic_at_def)
      obtain d1 where d1: "disk_ready ReadMode content d1 fs"
        "process_packet diskfile fs buffersize filesize o1 (field (unat o1) 64 content) packets r1 =
          (if valid_at content (unat o1)
           then Some (o1 + word_of_nat (length ?b), with_disk diskfile d1 (take_packet diskfile (unat o1, ?b) (packets, r1)))
           else Some (o1 + 1, packets, set_disk diskfile d1 r1))"
        using process_packet_spec [OF r1 small fsz buf0 fit m] unfolding Let_def by blast
      show ?thesis
      proof (cases "valid_at content (unat o1)")
        case True
        obtain n2 r2 where t: "take_packet diskfile (unat o1, ?b) (packets, r1) = (n2, r2)" by fastforce
        have lb: "64 \<le> length ?b" "unat o1 + length ?b \<le> length content" using valid_at_length [OF True] by auto
        have o2: "unat (o1 + word_of_nat (length ?b)) = unat o1 + length ?b"
          using lb small by (simp add: unat_word_ariths unat_of_nat)
        have "\<exists>d'. load_loop diskfile fs buffersize filesize (o1 + word_of_nat (length ?b)) n2 (set_disk diskfile d1 r2) =
            Some (with_disk diskfile d' (fold (take_packet diskfile) (packets_from content (unat (o1 + word_of_nat (length ?b)))) (n2, set_disk diskfile d1 r2))) \<and>
            disk_ready ReadMode content d' fs"
          using le lb in64 o2 d1(1) less.prems(2-5) by (intro less.hyps) simp_all
        then show ?thesis
          using fold_take_packet_set_disk [of diskfile _ diskfile d1 "(n2, r2)"] in64 True d1(2)
          by (simp add: o2 t packets_from_step)
      next
        case False
        have o2: "unat (o1 + 1) = unat o1 + 1" using in64 small by (simp add: unat_word_ariths)
        have "\<exists>d'. load_loop diskfile fs buffersize filesize (o1 + 1) packets (set_disk diskfile d1 r1) =
            Some (with_disk diskfile d' (fold (take_packet diskfile) (packets_from content (unat (o1 + 1))) (packets, set_disk diskfile d1 r1))) \<and>
            disk_ready ReadMode content d' fs"
          using le in64 o2 d1(1) less.prems(2-5) by (intro less.hyps) simp_all
        then show ?thesis
          using fold_take_packet_set_disk [of diskfile _ diskfile d1 "(packets, r1)"] in64 False d1(2)
          by (simp add: o2 packets_from_step)
      qed
    qed
    show ?thesis
    proof (cases "magic_at content (unat off)")
      case m: True
      then have "load_round diskfile fs buffersize filesize off packets r =
          map_option Inr (process_packet diskfile fs buffersize filesize off (field (unat off) 64 content) packets (set_disk diskfile d0 r))"
        using d0 by (simp add: load_round_def header_magic_field magic_at_def Let_def)
      then show ?thesis
        using rest [of "set_disk diskfile d0 r" off] m d0(2) fold_take_packet_set_disk [of diskfile _ diskfile d0 "(packets, r)"]
        by (simp add: enter)
    next
      case m: False
      then have nomagic: "field (unat off) 8 content \<noteq> packet_magic" using True by (simp add: magic_at_def)
      have o1: "unat (off + 1) = unat off + 1" using True small by (simp add: unat_word_ariths)
      obtain off' h d1 where f: "find_magic fs buffersize filesize (off + 1) d0 = Some (off', h, d1)"
        "disk_ready ReadMode content d1 fs" "unat (off + 1) \<le> unat off'" "unat off' \<le> length content"
        "\<forall>p. unat (off + 1) \<le> p \<and> p < unat off' \<longrightarrow> \<not> magic_at content p"
        "case h of None \<Rightarrow> length content < unat off' + 64
         | Some header \<Rightarrow> magic_at content (unat off') \<and> header = field (unat off') 64 content"
        using find_magic_spec [OF d0(2) small fsz buf, of "off + 1"] True o1 by auto
      have skip: "packets_from content (unat off) = packets_from content (unat off')"
      proof (rule packets_from_skip)
        show "\<not> valid_at content k" if "unat off \<le> k" "k < unat off'" for k
          using f(5) m o1 that by (cases "k = unat off") (auto simp: valid_at_def)
      qed (use f(3) o1 in simp)
      show ?thesis
      proof (cases h)
        case None
        then have "load_round diskfile fs buffersize filesize off packets r = Some (Inl (packets, set_disk diskfile d1 r))"
          using d0 f(1) nomagic by (simp add: load_round_def header_magic_field Let_def)
        then show ?thesis
          using f(2,6) None by (intro exI [of _ d1]) (simp add: enter skip packets_from_end)
      next
        case (Some hd)
        then have "load_round diskfile fs buffersize filesize off packets r =
            map_option Inr (process_packet diskfile fs buffersize filesize off' (field (unat off') 64 content) packets (set_disk diskfile d1 r))"
          using d0 f(1,6) nomagic by (simp add: load_round_def header_magic_field Let_def)
        then show ?thesis
          using rest [of "set_disk diskfile d1 r" off'] f o1 Some fold_take_packet_set_disk [of diskfile _ diskfile d1 "(packets, r)"]
          by (simp add: enter skip)
      qed
    qed
  qed
qed

section \<open>The file\<close>

text \<open>The packets of a new file, stored in order; the disk file is the next one.\<close>

definition loaded_file :: "bytes \<Rightarrow> repairer \<Rightarrow> u32 \<times> repairer" where
  "loaded_file content r =
     fold (take_packet (pr_nextdisk r)) (packets_from content 0) (0, r\<lparr>pr_nextdisk := Suc (pr_nextdisk r)\<rparr>)"

lemma add_file_diskfilemap: "pr_diskfilemap (snd (add_file fid has set_it fresh r)) = pr_diskfilemap r"
  by (simp add: add_file_def upd_file_def split: option.split)

lemma add_packet_diskfilemap: "pr_diskfilemap (snd (add_packet p ob r)) = pr_diskfilemap r"
  by (cases ob) (simp add: add_packet_def add_file_diskfilemap Let_def split: option.split)

lemma take_packet_diskfilemap: "pr_diskfilemap (snd (take_packet p ob s)) = pr_diskfilemap (snd s)"
proof -
  obtain n r where s: "s = (n, r)" by fastforce
  have "pr_diskfilemap (snd (case add_packet p ob r' of (new, r) \<Rightarrow> (if new then n + 1 else n, r))) = pr_diskfilemap r'" for r'
    using add_packet_diskfilemap [of p ob r'] by (simp add: case_prod_unfold)
  then show ?thesis by (simp add: s take_packet_def Let_def)
qed

lemma fold_take_packet_diskfilemap: "pr_diskfilemap (snd (fold (take_packet p) obs s)) = pr_diskfilemap (snd s)"
  by (induction obs arbitrary: s) (simp_all add: take_packet_diskfilemap)

lemma disk_open_reads:
  assumes "fs_files fs name = Some content" "length content < 2 ^ 63"
  shows "\<exists>d. disk_open name diskfile_new fs = (True, d) \<and> disk_ready ReadMode content d fs \<and> df_filesize d = word_of_nat (length content)"
  using assms
  by (auto simp: disk_open_def disk_open_size_def get_file_size_def os_fopen_rb_def disk_ready_def Let_def word_less_nat_alt unat_of_nat
      split: option.split)

lemma load_packets_from_file_rule:
  assumes "fs_files fs name = Some content" "length content < 2 ^ 63" "lengths_fit content" "pr_diskfilemap r name = None"
  shows "\<exists>d. load_packets_from_file name fs r =
      (case loaded_file content r of
         (n, r') \<Rightarrow> Some (if n > 0 then (set_disk (pr_nextdisk r) d r')\<lparr>pr_diskfilemap := (pr_diskfilemap r)(name \<mapsto> pr_nextdisk r)\<rparr>
                        else set_disk (pr_nextdisk r) d r'))"
proof -
  let ?p = "pr_nextdisk r"
  obtain d where d: "disk_open name diskfile_new fs = (True, d)" "disk_ready ReadMode content d fs" "df_filesize d = word_of_nat (length content)"
    using disk_open_reads [OF assms(1,2)] by blast
  define r0 where "r0 = set_disk ?p d (r\<lparr>pr_nextdisk := Suc ?p\<rparr>)"
  have r0: "set_disk ?p d (r\<lparr>pr_nextdisk := Suc ?p, pr_store := (pr_store r)(?p := diskfile_new)\<rparr>) = r0"
    by (simp add: r0_def set_disk_def)
  have st: "pr_store r0 ?p = d" by (simp add: r0_def)
  obtain n r' where l: "loaded_file content r = (n, r')" by fastforce
  have dm: "pr_diskfilemap r' = pr_diskfilemap r"
    using fold_take_packet_diskfilemap [of ?p "packets_from content 0" "(0, r\<lparr>pr_nextdisk := Suc ?p\<rparr>)"] l by (simp add: loaded_file_def)
  let ?size = "word_of_nat (length content) :: u64"
  have loop: "\<exists>d'. (if ?size > 0 then load_loop ?p fs (min 1048576 ?size) ?size 0 0 r0 else Some (0, r0)) = Some (n, set_disk ?p d' r')"
  proof (cases "?size > 0")
    case True
    obtain d' where "load_loop ?p fs (min 1048576 ?size) ?size 0 0 r0 =
        Some (with_disk ?p d' (fold (take_packet ?p) (packets_from content 0) (0, r0)))"
      using load_loop_rule [of content r0 ?p fs ?size _ 0 0, OF _ assms(2) refl refl assms(3)] d(2) st by auto
    then show ?thesis
      using True fold_take_packet_set_disk [of ?p "packets_from content 0" ?p d "(0, r\<lparr>pr_nextdisk := Suc ?p\<rparr>)"] l
      by (auto simp: r0_def loaded_file_def)
  next
    case False
    then have "unat ?size = 0" by (simp add: word_less_nat_alt)
    then have "content = []" using assms(2) by (simp add: unat_of_nat)
    then have "r' = r\<lparr>pr_nextdisk := Suc ?p\<rparr>" "n = 0" using l by (simp_all add: loaded_file_def packets_from_end)
    then show ?thesis using False by (auto simp: r0_def)
  qed
  then obtain d' where d': "(if ?size > 0 then load_loop ?p fs (min 1048576 ?size) ?size 0 0 r0 else Some (0, r0)) = Some (n, set_disk ?p d' r')"
    by blast
  show ?thesis
    using d d' r0 st dm assms(4)
    by (intro exI [of _ "disk_close d'"])
      (simp add: load_packets_from_file_def new_disk_def map_find_def map_insert_def l set_disk_def)
qed

end
