(* ===== verification/Loader_Ends.thy ===== *)
theory Loader_Ends
  imports Loader_Refine
begin

unbundle bit_operations_syntax

text \<open>
  The end results on loading a PAR2 file: what is loaded from a file, that a file made of valid packets
  is loaded whole, and the file on which the loading never ends.
\<close>

section \<open>A file made of packets\<close>

fun places :: "nat \<Rightarrow> bytes list \<Rightarrow> (nat \<times> bytes) list" where
  "places off [] = []"
| "places off (b # bs) = (off, b) # places (off + length b) bs"

lemma valid_at_append:
  assumes "packet_ok b"
  shows "valid_at (a @ b @ c) (length a)" "packet_at (a @ b @ c) (length a) = b"
proof -
  have b: "64 \<le> length b" "unat (header_length b) = length b" "header_magic b = packet_magic"
    using packet_ok_facts [OF assms] assms packet_ok_def by blast+
  have "load64 (a @ b @ c) (length a + 8) = header_length b"
    unfolding header_length_def using b(1) by (intro load64_same) (simp_all add: field_def)
  then have L: "unat (load64 (a @ b @ c) (length a + 8)) = length b" using b(2) by simp
  then show p: "packet_at (a @ b @ c) (length a) = b" by (simp add: packet_at_def field_def)
  show "valid_at (a @ b @ c) (length a)"
    using b assms L p by (simp add: valid_at_def magic_at_def field_def header_magic_def)
qed

lemma packets_from_concat:
  "\<forall>b\<in>set bs. packet_ok b \<Longrightarrow> packets_from (a @ concat bs) (length a) = places (length a) bs"
proof (induction bs arbitrary: a)
  case (Cons b bs)
  have ok: "packet_ok b" using Cons.prems by simp
  have "length a + 64 \<le> length (a @ b @ concat bs)" using packet_ok_facts [OF ok] by simp
  moreover have "packets_from (a @ b @ concat bs) (length a + length b) = places (length a + length b) bs"
    using Cons.IH [of "a @ b"] Cons.prems by simp
  ultimately show ?case using valid_at_append [OF ok] by (simp add: packets_from_step)
qed (simp add: packets_from_end)

text \<open>C5: \<^verbatim>\<open>LoadPacketsFromFile\<close> on a file that has not been loaded returns, and what it stores is what the
  packets of the file, valid by magic, length and MD5, add one after the other, where the first of all decides
  the set: the search in buffers of up to a megabyte misses none and finds no other. A file that is nothing but valid
  packets is taken whole. The condition is that no length field behind a magic exceeds 64 bits as an offset.\<close>

theorem load_packets_from_file_correct:
  assumes "fs_files fs name = Some content" "length content < 2 ^ 63" "lengths_fit content" "pr_diskfilemap r name = None"
  shows "(\<exists>d. load_packets_from_file name fs r =
      (case loaded_file content r of
         (n, r') \<Rightarrow> Some (if n > 0 then (set_disk (pr_nextdisk r) d r')\<lparr>pr_diskfilemap := (pr_diskfilemap r)(name \<mapsto> pr_nextdisk r)\<rparr>
                        else set_disk (pr_nextdisk r) d r'))) \<and>
    (\<forall>bs. content = concat bs \<and> (\<forall>b\<in>set bs. packet_ok b) \<longrightarrow> packets_from content 0 = places 0 bs)"
  using load_packets_from_file_rule [OF assms] packets_from_concat [of _ "[]"] by auto

definition tiny_creator :: "bytes \<Rightarrow> bytes" where
  "tiny_creator setid =
     packet_magic @ leu64_bytes 68 @ md5 (setid @ creatorpacket_type @ [1, 2, 3, 4]) @ setid @ creatorpacket_type @ [1, 2, 3, 4]"

lemma length_leu64_bytes [simp]: "length (leu64_bytes v) = 8"
  by (simp add: leu64_bytes_eq)

lemma tiny_creator_props:
  assumes "length setid = 16"
  shows "length (tiny_creator setid) = 68" "packet_ok (tiny_creator setid)" "header_setid (tiny_creator setid) = setid"
    "header_type (tiny_creator setid) = creatorpacket_type" "lengths_fit (tiny_creator setid)"
proof -
  let ?b = "tiny_creator setid"
  show len: "length ?b = 68" using assms by (simp add: tiny_creator_def length_types length_md5)
  have L: "load64 ?b 8 = 68"
    using len by (intro load64_field) (simp_all add: tiny_creator_def field_def length_types)
  have d: "drop 32 ?b = setid @ creatorpacket_type @ [1, 2, 3, 4]" using assms by (simp add: tiny_creator_def length_types length_md5)
  then have "header_hash ?b = md5 (drop 32 ?b)"
    by (simp add: header_hash_def) (simp add: tiny_creator_def field_def length_types length_md5)
  moreover have m: "header_magic ?b = packet_magic" by (simp add: tiny_creator_def header_magic_def field_def length_types)
  ultimately show "packet_ok ?b" using len L by (simp add: packet_ok_def header_length_def)
  show "header_setid ?b = setid" "header_type ?b = creatorpacket_type"
    using assms by (simp_all add: tiny_creator_def header_setid_def header_type_def field_def length_types length_md5)
  have "p = 0" if "magic_at ?b p" for p
  proof (rule ccontr)
    assume "p \<noteq> 0"
    moreover have "p \<le> 4" using that len by (simp add: magic_at_def)
    ultimately have "p \<in> {1, 2, 3, 4}" by auto
    then have "field p 4 ?b \<noteq> take 4 packet_magic"
      by (auto simp: tiny_creator_def field_def packet_magic_def)
    moreover have "field p 4 ?b = take 4 (field p 8 ?b)" by (simp add: field_def)
    ultimately show False using that by (simp add: magic_at_def)
  qed
  then have "p + unat (load64 ?b (p + 8)) < 2 ^ 64" if "magic_at ?b p" for p using that L by fastforce
  then show "lengths_fit ?b" by (simp add: lengths_fit_def)
qed

theorem load_packets_from_file_correct_witness:
  "\<exists>d. load_packets_from_file ''f'' (sample_fs (tiny_creator (replicate 16 5))) repairer_new =
     Some ((set_disk 0 d (repairer_new\<lparr>pr_nextdisk := 1, pr_setid := replicate 16 5, pr_firstpacket := False,
       pr_creatorpacket := Some \<lparr>cp_data = tiny_creator (replicate 16 5) @ replicate 4 0, cp_length = 68\<rparr>\<rparr>))
       \<lparr>pr_diskfilemap := [''f'' \<mapsto> 0]\<rparr>)"
proof -
  let ?b = "tiny_creator (replicate 16 5)" and ?r = "repairer_new\<lparr>pr_nextdisk := 1\<rparr>"
  have len16: "length (replicate 16 (5 :: u8)) = 16" by simp
  note b = tiny_creator_props [OF len16]
  have nd: "pr_nextdisk repairer_new = 0" "pr_diskfilemap repairer_new = Map.empty" by (simp_all add: repairer_new_def)
  have "packets_from ?b 0 = [(0, ?b)]" using packets_from_concat [of "[?b]" "[]"] b(2) by simp
  moreover have "add_packet 0 (0, ?b) (?r\<lparr>pr_setid := replicate 16 5, pr_firstpacket := False\<rparr>) =
      (True, ?r\<lparr>pr_setid := replicate 16 5, pr_firstpacket := False,
        pr_creatorpacket := Some \<lparr>cp_data = ?b @ replicate 4 0, cp_length = 68\<rparr>\<rparr>)"
    using types_distinct by (simp add: add_packet_def b parse_creator_def repairer_new_def)
  ultimately have "loaded_file ?b repairer_new = (1, ?r\<lparr>pr_setid := replicate 16 5, pr_firstpacket := False,
      pr_creatorpacket := Some \<lparr>cp_data = ?b @ replicate 4 0, cp_length = 68\<rparr>\<rparr>)"
    using nd by (simp add: loaded_file_def take_packet_def b repairer_new_def)
  moreover have "length ?b < 2 ^ 63" by (simp add: b)
  ultimately show ?thesis
    using load_packets_from_file_correct [of "sample_fs ?b" "''f''" ?b repairer_new] b(5) nd by (simp add: sample_fs_def)
qed

section \<open>A file that is never loaded\<close>

text \<open>64 zeros and a packet header whose length is \<open>2 ^ 64 - 64\<close>, of a type no one uses.\<close>

definition endless_header :: "bytes \<Rightarrow> bytes" where
  "endless_header setid = packet_magic @ leu64_bytes (- 64) @ md5 (setid @ replicate 16 0) @ setid @ replicate 16 0"

definition endless_file :: "bytes \<Rightarrow> bytes" where
  "endless_file setid = replicate 64 0 @ endless_header setid"

lemma endless_props:
  assumes "length setid = 16"
  shows "length (endless_header setid) = 64" "length (endless_file setid) = 128"
    and "header_length (endless_header setid) = - 64" "header_hash (endless_header setid) = md5 (drop 32 (endless_header setid))"
    and "header_type (endless_header setid) = replicate 16 0"
    and "\<And>p. p \<le> 64 \<Longrightarrow> magic_at (endless_file setid) p \<longleftrightarrow> p = 64" "field 64 64 (endless_file setid) = endless_header setid"
proof -
  let ?h = "endless_header setid"
  have l16: "length (md5 x) = 16" for x by (simp add: length_md5)
  show len: "length ?h = 64" "length (endless_file setid) = 128"
    using assms by (simp_all add: endless_header_def endless_file_def length_types l16)
  show "header_length ?h = - 64"
    unfolding header_length_def using len by (intro load64_field) (simp_all add: endless_header_def field_def length_types)
  have "drop 32 ?h = setid @ replicate 16 0" using assms by (simp add: endless_header_def length_types l16)
  then show "header_hash ?h = md5 (drop 32 ?h)"
    by (simp add: header_hash_def) (simp add: endless_header_def field_def length_types l16)
  show "header_type ?h = replicate 16 0"
    using assms by (simp add: endless_header_def header_type_def field_def length_types l16)
  show f: "field 64 64 (endless_file setid) = ?h" using len by (simp add: endless_file_def field_def)
  show "magic_at (endless_file setid) p \<longleftrightarrow> p = 64" if "p \<le> 64" for p
  proof (cases "p = 64")
    case True
    have "field 64 8 (endless_file setid) = packet_magic"
      using len by (simp add: endless_file_def field_def) (simp add: endless_header_def length_types)
    then show ?thesis using True len by (simp add: magic_at_def)
  next
    case False
    then have p: "p < 64" using that by simp
    have "field p 8 (endless_file setid) ! 0 = 0" using p len by (simp add: field_def endless_file_def nth_append)
    moreover have "packet_magic ! 0 \<noteq> (0 :: u8)" by (simp add: packet_magic_def)
    ultimately show ?thesis using False by (metis magic_at_def)
  qed
qed

lemma endless_process:
  assumes "length setid = 16"
  shows "\<exists>r'. process_packet diskfile fs buffersize 128 64 (endless_header setid) packets r = Some (0, packets, r') \<and>
    pr_store r' = pr_store r"
proof -
  let ?h = "endless_header setid"
  note h = endless_props [OF assms]
  let ?c = "md5_update (drop OFF_SETID ?h) md5_single_new"
  have a: "ms_absorbs ?c (drop 32 ?h)"
    using md5_update_absorbs [of md5_single_new "[]" "drop 32 ?h"] by (simp add: md5_single_new_def ms_absorbs_def md5_chunks_short)
  have e: "md5_end ?c = header_hash ?h" using md5_end_absorbs [OF a] h(4) by simp
  have hp: "hash_packet fs buffersize (64 + header_length ?h) (64 + 64) ?c d = Some (True, ?c, d)" for d
    by (subst hash_packet.simps) (simp add: h)
  have lp: "load_packet diskfile fs 64 ?h r1 = Some (False, r1)" for r1
    by (simp add: load_packet_def h mainpacket_type_def fileverificationpacket_type_def filedescriptionpacket_type_def
        creatorpacket_type_def recoveryblockpacket_type_def replicate_16)
  have g: "\<not> (64 > header_length ?h \<or> header_length ?h AND 3 \<noteq> 0 \<or> (128 :: u64) < 64 + header_length ?h)" by (simp add: h)
  have m: "64 + header_length ?h = 0" by (simp add: h)
  show ?thesis using g hp [of "pr_store r diskfile"] e lp by (simp add: process_packet_def m Let_def)
qed

lemma endless_round:
  assumes "length setid = 16" "disk_ready ReadMode (endless_file setid) (pr_store r diskfile) fs"
  shows "\<exists>r'. load_round diskfile fs 128 128 0 packets r = Some (Inr (0, packets, r')) \<and>
    disk_ready ReadMode (endless_file setid) (pr_store r' diskfile) fs"
proof -
  note h = endless_props [OF assms(1)]
  obtain d0 where d0: "disk_read 0 64 MAX_LENGTH (pr_store r diskfile) fs = Some (True, field 0 64 (endless_file setid), d0)"
    "disk_ready ReadMode (endless_file setid) d0 fs"
    using disk_read_u64 [OF assms(2), of 0 64] h(2) by auto
  have no: "header_magic (field 0 64 (endless_file setid)) \<noteq> packet_magic"
    using h(6) [of 0] h(2) by (simp add: header_magic_field magic_at_def)
  obtain off' x d1 where f: "find_magic fs 128 128 (0 + 1) d0 = Some (off', x, d1)"
    "disk_ready ReadMode (endless_file setid) d1 fs" "unat (1 :: u64) \<le> unat off'"
    "\<forall>p. unat (1 :: u64) \<le> p \<and> p < unat off' \<longrightarrow> \<not> magic_at (endless_file setid) p"
    "case x of None \<Rightarrow> length (endless_file setid) < unat off' + 64
     | Some header \<Rightarrow> magic_at (endless_file setid) (unat off') \<and> header = field (unat off') 64 (endless_file setid)"
    using find_magic_spec [OF d0(2), of 128 128 "0 + 1"] h(2) by auto
  have "unat off' \<le> 64" using f(4) h(6) [of 64] by (metis not_le le_refl unat_1 one_le_numeral)
  then have "x = Some (endless_header setid) \<and> unat off' = 64"
    using f(5) h(2,6,7) by (cases x) auto
  then have x: "x = Some (endless_header setid)" "off' = 64" by (auto simp: word_unat_eq_iff)
  obtain r' where r': "process_packet diskfile fs 128 128 64 (endless_header setid) packets (set_disk diskfile d1 r) = Some (0, packets, r')"
    "pr_store r' = pr_store (set_disk diskfile d1 r)"
    using endless_process [OF assms(1)] by blast
  have "load_round diskfile fs 128 128 0 packets r = Some (Inr (0, packets, r'))"
    using d0 no f(1) x r'(1) by (simp add: load_round_def Let_def)
  moreover have "disk_ready ReadMode (endless_file setid) (pr_store r' diskfile) fs" using r'(2) f(2) by simp
  ultimately show ?thesis by blast
qed

lemma endless_loop:
  assumes "length setid = 16" and ret: "load_loop diskfile fs 128 128 0 packets r = Some y"
    and "disk_ready ReadMode (endless_file setid) (pr_store r diskfile) fs"
  shows False
proof -
  let ?P = "\<lambda>diskfile fs (buffersize :: u64) (filesize :: u64) (off :: u64) (packets :: u32) r (y :: u32 \<times> repairer).
    \<not> (buffersize = 128 \<and> filesize = 128 \<and> off = 0 \<and> disk_ready ReadMode (endless_file setid) (pr_store r diskfile) fs)"
  have "?P diskfile fs 128 128 0 packets r y"
  proof (rule load_loop.raw_induct [where P = ?P, OF _ ret], rule notI, elim conjE)
    fix loop diskfile fs and buffersize filesize off :: u64 and packets r y
    assume IH: "\<And>diskfile fs buffersize filesize off packets r y. loop diskfile fs buffersize filesize off packets r = Some y \<Longrightarrow>
        ?P diskfile fs buffersize filesize off packets r y"
      and body: "(if off + 64 \<le> filesize
          then do { res \<leftarrow> load_round diskfile fs buffersize filesize off packets r;
                    case res of Inl result \<Rightarrow> Some result
                    | Inr (off, packets, r) \<Rightarrow> loop diskfile fs buffersize filesize off packets r }
          else Some (packets, r)) = Some y"
      and at: "buffersize = 128" "filesize = 128" "off = 0" and ready: "disk_ready ReadMode (endless_file setid) (pr_store r diskfile) fs"
    obtain r' where r': "load_round diskfile fs 128 128 0 packets r = Some (Inr (0, packets, r'))"
      "disk_ready ReadMode (endless_file setid) (pr_store r' diskfile) fs"
      using endless_round [OF assms(1) ready] by blast
    then have "loop diskfile fs 128 128 0 packets r' = Some y" using body by (simp add: at)
    from IH [OF this] r'(2) show False by simp
  qed
  then show False using assms(3) by simp
qed

text \<open>C7: there is a PAR2 file of 128 bytes, for every set id, whose loading never returns, whatever the
  repairer holds: the check that a packet ends within the file adds its length to its offset in 64 bits, the sum
  wraps, and the offset goes back to the start of the file.\<close>

theorem load_packets_from_file_endless:
  assumes "fs_files fs name = Some (endless_file setid)" "length setid = 16" "pr_diskfilemap r name = None"
  shows "load_packets_from_file name fs r = None"
proof -
  have l: "length (endless_file setid) = 128" using endless_props [OF assms(2)] by blast
  then have small: "length (endless_file setid) < 2 ^ 63" by simp
  obtain d where d: "disk_open name diskfile_new fs = (True, d)" "disk_ready ReadMode (endless_file setid) d fs"
      "df_filesize d = word_of_nat (length (endless_file setid))"
    using disk_open_reads [OF assms(1) small] by blast
  define r0 where "r0 = set_disk (pr_nextdisk r) d (snd (new_disk r))"
  have "load_loop (pr_nextdisk r) fs 128 128 0 0 r0 = None"
    using endless_loop [OF assms(2), of "pr_nextdisk r" fs 0 r0] d(2)
    by (cases "load_loop (pr_nextdisk r) fs 128 128 0 0 r0") (auto simp: r0_def)
  then show ?thesis
    using d assms(3) l by (simp add: load_packets_from_file_def new_disk_def map_find_def r0_def Let_def)
qed

theorem load_packets_from_file_endless_witness:
  "load_packets_from_file ''f'' (sample_fs (endless_file (replicate 16 7))) repairer_new = None"
  by (rule load_packets_from_file_endless [where setid = "replicate 16 7"]) (simp_all add: sample_fs_def repairer_new_def)

end
