(* ===== verification/FileNames.thy ===== *)
theory FileNames
  imports Par2State
begin

unbundle bit_operations_syntax

text \<open>
  The names of the files in PAR2 packets (\<^verbatim>\<open>descriptionpacket.cpp\<close>): translation to and from local
  names. The flag says whether the build is for Windows. The messages are left out; what depends on the
  level of messages is not. \<open>None\<close> is the exception of \<^verbatim>\<open>at(0)\<close> on an empty string.
\<close>

section \<open>Noise levels\<close>

datatype noise_level = NlUnknown | NlSilent | NlQuiet | NlNormal | NlNoisy | NlDebug

primrec noise_value :: "noise_level \<Rightarrow> nat" where
  "noise_value NlUnknown = 0"
| "noise_value NlSilent = 1"
| "noise_value NlQuiet = 2"
| "noise_value NlNormal = 3"
| "noise_value NlNoisy = 4"
| "noise_value NlDebug = 5"

lemma noise_value_inj: "noise_value a = noise_value b \<Longrightarrow> a = b"
  by (cases a; cases b) simp_all

instantiation noise_level :: linorder
begin

definition less_eq_noise_level :: "noise_level \<Rightarrow> noise_level \<Rightarrow> bool" where
  "less_eq_noise_level a b \<longleftrightarrow> noise_value a \<le> noise_value b"

definition less_noise_level :: "noise_level \<Rightarrow> noise_level \<Rightarrow> bool" where
  "less_noise_level a b \<longleftrightarrow> noise_value a < noise_value b"

instance
  by standard (auto simp: less_eq_noise_level_def less_noise_level_def noise_value_inj)

end

section \<open>Characters\<close>

definition hex_digit :: "u8 \<Rightarrow> char" where
  "hex_digit n = char_of (unat (if n < 10 then of_char CHR ''0'' + n else of_char CHR ''A'' + (n - 10)))"

definition url_encode_char :: "char \<Rightarrow> string" where
  "url_encode_char c = [CHR ''%'', hex_digit (drop_bit 4 (of_char c) AND 0xf), hex_digit (of_char c AND 0xf)]"

definition illegal_char :: "bool \<Rightarrow> char \<Rightarrow> bool" where
  "illegal_char win32 ch \<longleftrightarrow> (of_char ch :: nat) < 32 \<or> win32 \<and> ch \<in> set ''\"*:<>?|''"

section \<open>From local names to PAR2 names\<close>



section \<open>From PAR2 names to local names\<close>

text \<open>A character: its replacement, nothing where an illegal one is dropped.\<close>

definition par2_char :: "bool \<Rightarrow> noise_level \<Rightarrow> char \<Rightarrow> string" where
  "par2_char win32 noiselevel c =
     (let ok = \<not> illegal_char win32 c;
          ch = (if win32 then if c = PATHSEP then ALTPATHSEP else c
                else if c = ALTPATHSEP \<and> noiselevel \<ge> NlQuiet then PATHSEP else c)
      in if ok then [ch] else if noiselevel \<ge> NlQuiet then url_encode_char ch else [])"

text \<open>\<^verbatim>\<open>std::string::find\<close> for a string.\<close>

fun find_sub :: "'a list \<Rightarrow> 'a list \<Rightarrow> nat option" where
  "find_sub pat [] = (if pat = [] then Some 0 else None)"
| "find_sub pat (c # s) =
     (if take (length pat) (c # s) = pat then Some 0 else map_option Suc (find_sub pat s))"

lemma find_sub_split: "find_sub pat s = Some i \<Longrightarrow> s = take i s @ pat @ drop (i + length pat) s"
proof (induction s arbitrary: i)
  case (Cons c s)
  show ?case
  proof (cases "take (length pat) (c # s) = pat")
    case True
    then have "i = 0" using Cons.prems by simp
    then show ?thesis using True append_take_drop_id [of "length pat" "c # s"] by simp
  next
    case False
    then obtain j where "find_sub pat s = Some j" "i = Suc j" using Cons.prems by auto
    then show ?thesis using Cons.IH [of j] by simp
  qed
qed (simp split: if_splits)


lemma url_encode_dot: "url_encode_char CHR ''.'' = ''%2E''"
  by code_simp


lemma find_sub_drop2: "find_sub [a, b, sep] s = Some i \<Longrightarrow> s = take i s @ a # b # drop (i + 2) s"
proof -
  assume "find_sub [a, b, sep] s = Some i"
  from find_sub_split [OF this] have s: "s = take i s @ [a, b, sep] @ drop (i + 3) s" by (simp add: numeral_3_eq_3)
  then have "drop i s = [a, b, sep] @ drop (i + 3) s" by (metis append_take_drop_id same_append_eq)
  then have "drop (i + 2) s = sep # drop (i + 3) s" using drop_drop [of 2 i s] by (simp add: add.commute)
  then show ?thesis using s by simp
qed

text \<open>The loop that takes away every reference to a parent directory.\<close>

function replace_parents :: "char \<Rightarrow> string \<Rightarrow> string" where
  "replace_parents sep s =
     (case find_sub [CHR ''.'', CHR ''.'', sep] s of
        None \<Rightarrow> s
      | Some index \<Rightarrow>
          replace_parents sep (take index s @ url_encode_char CHR ''.'' @ url_encode_char CHR ''.'' @ drop (index + 2) s))"
  by pat_completeness auto

termination
proof (relation "measure (\<lambda>(sep, s). length (filter ((=) CHR ''.'') s))", goal_cases)
  case (2 sep s index)
  have "length (filter ((=) CHR ''.'') s) = length (filter ((=) CHR ''.'') (take index s)) + 2 + length (filter ((=) CHR ''.'') (drop (index + 2) s))"
    by (subst find_sub_drop2 [OF 2]) simp
  then show ?case by (simp add: url_encode_dot)
qed simp

declare replace_parents.simps [simp del]

definition translate_from_par2_to_local :: "bool \<Rightarrow> noise_level \<Rightarrow> string \<Rightarrow> string option" where
  "translate_from_par2_to_local win32 noiselevel par2_encoded_filename =
     (let local_filename = concat (map (par2_char win32 noiselevel) par2_encoded_filename)
      in if win32 then Some (replace_parents ALTPATHSEP local_filename)
         else if local_filename = [] then None
         else let local_filename =
                    (if hd local_filename = PATHSEP then url_encode_char PATHSEP @ tl local_filename else local_filename)
              in Some (replace_parents PATHSEP local_filename))"

text \<open>\<^verbatim>\<open>ComputeTargetFileName\<close> of a source file with a description.\<close>

definition sf_compute_target_file_name :: "bool \<Rightarrow> noise_level \<Rightarrow> string \<Rightarrow> source_file \<Rightarrow> source_file option" where
  "sf_compute_target_file_name win32 noiselevel path sf =
     (case sf_description sf of
        None \<Rightarrow> None
      | Some p \<Rightarrow>
          (case translate_from_par2_to_local win32 noiselevel (dp_filename p) of
             None \<Rightarrow> None
           | Some filename \<Rightarrow> Some (sf\<lparr>sf_targetfilename := path @ filename\<rparr>)))"

section \<open>What the translation guarantees\<close>
























end
