(* ===== verification/RepairSetup.thy ===== *)
theory RepairSetup
  imports FileNames Table_Match "HOL-Library.Monad_Syntax"
begin

text \<open>
  \<^verbatim>\<open>Par2Repairer\<close> from the packets to the verification: \<^verbatim>\<open>CheckPacketConsistency\<close>,
  \<^verbatim>\<open>CreateSourceFileList\<close>, \<^verbatim>\<open>AllocateSourceBlocks\<close>, \<^verbatim>\<open>PrepareVerificationHashTable\<close> and
  \<^verbatim>\<open>ComputeWindowTable\<close>. A write through an iterator outside its vector, or one that was never set, is \<open>None\<close>.
\<close>

section \<open>Discarding inconsistent packets\<close>

text \<open>The block count of a file against its verification packet.\<close>

definition file_consistent :: "u64 \<Rightarrow> source_file \<Rightarrow> bool" where
  "file_consistent blocksize sf =
     (case sf_description sf of
        None \<Rightarrow> False
      | Some p \<Rightarrow>
          (case sf_verification sf of
             None \<Rightarrow> True
           | Some vp \<Rightarrow> (dp_filesize p + blocksize - 1) div blocksize = ucast (vp_blockcount vp)))"

definition check_packet_consistency :: "repairer \<Rightarrow> bool \<times> repairer" where
  "check_packet_consistency r =
     (case pr_mainpacket r of
        None \<Rightarrow> (False, r)
      | Some mp \<Rightarrow>
          let blocksize = mp_blocksize mp;
              r = r\<lparr>pr_blocksize := blocksize,
                    pr_recoverypackets := filter (\<lambda>(exponent, packet). rp_blocksize packet = blocksize) (pr_recoverypackets r)\<rparr>;
              described = filter (\<lambda>(fileid, i). sf_description (pr_files r ! i) \<noteq> None) (pr_sourcefilemap r);
              kept = filter (\<lambda>(fileid, i). file_consistent blocksize (pr_files r ! i)) (pr_sourcefilemap r);
              r = fold (\<lambda>(fileid, i). upd_file i (sf_set_block_count blocksize)) described r
          in (True, r\<lparr>pr_sourcefilemap := kept\<rparr>))"

section \<open>The list of source files\<close>

definition add_source_file :: "bool \<Rightarrow> noise_level \<Rightarrow> string \<Rightarrow> fs \<Rightarrow> main_packet \<Rightarrow> nat \<Rightarrow> repairer \<Rightarrow> repairer option" where
  "add_source_file win32 noiselevel basepath fs mp filenumber r =
     (case map_of (pr_sourcefilemap r) (main_packet_fileid filenumber mp) of
        None \<Rightarrow> Some (r\<lparr>pr_sourcefiles := pr_sourcefiles r @ [None]\<rparr>)
      | Some i \<Rightarrow>
          (case sf_compute_target_file_name win32 noiselevel basepath (pr_files r ! i) of
             None \<Rightarrow> None
           | Some sf \<Rightarrow>
               let sf = sf\<lparr>sf_diskfilesize := get_file_size (sf_targetfilename sf) fs\<rparr>
               in Some ((upd_file i (\<lambda>_. sf) r)\<lparr>pr_sourcefiles := pr_sourcefiles r @ [Some i]\<rparr>)))"

definition create_source_file_list :: "bool \<Rightarrow> noise_level \<Rightarrow> string \<Rightarrow> fs \<Rightarrow> repairer \<Rightarrow> repairer option" where
  "create_source_file_list win32 noiselevel basepath fs r =
     (case pr_mainpacket r of
        None \<Rightarrow> None
      | Some mp \<Rightarrow> for_each (add_source_file win32 noiselevel basepath fs mp) [0..<unat (mp_totalfilecount mp)] r)"

section \<open>Allocating the blocks\<close>

definition resize :: "nat \<Rightarrow> datablock list \<Rightarrow> datablock list" where
  "resize n v = take n v @ replicate (n - length v) datablock_new"

text \<open>\<^verbatim>\<open>SetBlocks\<close>.\<close>

definition set_source_block :: "u64 \<Rightarrow> u64 \<Rightarrow> nat \<Rightarrow> nat \<Rightarrow> repairer \<Rightarrow> repairer option" where
  "set_source_block blocksize filesize sourceblocks blocknumber r =
     (let sb = sourceblocks + blocknumber;
          blocklength = min blocksize (filesize - word_of_nat blocknumber * blocksize)
      in if sb < length (pr_sourceblocks r)
         then Some (r\<lparr>pr_sourceblocks := (pr_sourceblocks r)
                [sb := db_set_length blocklength (db_set_filesize filesize (pr_sourceblocks r ! sb))]\<rparr>)
         else None)"

definition sf_set_blocks :: "u32 \<Rightarrow> u32 \<Rightarrow> nat \<Rightarrow> nat \<Rightarrow> u64 \<Rightarrow> nat \<Rightarrow> repairer \<Rightarrow> repairer option" where
  "sf_set_blocks blocknumber blockcount sourceblocks targetblocks blocksize i r =
     (let r = upd_file i (\<lambda>sf. sf\<lparr>sf_firstblocknumber := blocknumber, sf_blockcount := blockcount,
                sf_sourceblocks := Some sourceblocks, sf_targetblocks := Some targetblocks\<rparr>) r
      in if blockcount > 0
         then (case sf_description (pr_files r ! i) of
                 None \<Rightarrow> None
               | Some p \<Rightarrow> for_each (set_source_block blocksize (dp_filesize p) sourceblocks) [0..<unat blockcount] r)
         else Some r)"

definition recoverable_files :: "main_packet \<Rightarrow> repairer \<Rightarrow> nat option list" where
  "recoverable_files mp r = take (unat (mp_recoverablefilecount mp)) (pr_sourcefiles r)"

definition count_blocks :: "repairer \<Rightarrow> nat option list \<Rightarrow> u32" where
  "count_blocks r files = sum_list (map (\<lambda>f. case f of None \<Rightarrow> 0 | Some i \<Rightarrow> sf_blockcount (pr_files r ! i)) files)"

text \<open>The state of the second loop: the block number and the iterators, which move together.\<close>

definition allocate_file :: "u64 \<Rightarrow> nat option \<Rightarrow> u32 \<times> nat \<times> repairer \<Rightarrow> (u32 \<times> nat \<times> repairer) option" where
  "allocate_file blocksize f s =
     (case (f, s) of
        (None, s) \<Rightarrow> Some s
      | (Some i, (blocknumber, sourceblock, r)) \<Rightarrow>
          let blockcount = sf_blockcount (pr_files r ! i)
          in map_option (\<lambda>r. (blocknumber + 1, sourceblock + unat blockcount, r))
               (sf_set_blocks blocknumber blockcount sourceblock sourceblock blocksize i r))"

definition allocate_source_blocks :: "repairer \<Rightarrow> repairer option" where
  "allocate_source_blocks r =
     (case pr_mainpacket r of
        None \<Rightarrow> None
      | Some mp \<Rightarrow>
          let files = recoverable_files mp r;
              r = r\<lparr>pr_sourceblockcount := count_blocks r files\<rparr>
          in if pr_sourceblockcount r > 0
             then let r = r\<lparr>pr_sourceblocks := resize (unat (pr_sourceblockcount r)) (pr_sourceblocks r),
                            pr_targetblocks := resize (unat (pr_sourceblockcount r)) (pr_targetblocks r)\<rparr>
                  in map_option (\<lambda>(_, _, r). r\<lparr>pr_blocksallocated := True\<rparr>)
                       (for_each (allocate_file (pr_blocksize r)) files (0, 0, r))
             else Some r)"

section \<open>The verification hash table\<close>

definition vp_entries :: "verification_packet \<Rightarrow> (bytes \<times> u32) list" where
  "vp_entries vp = map (\<lambda>k. vp_entry k vp) [0..<unat (vp_blockcount vp)]"

definition prepare_file :: "nat option \<Rightarrow> repairer \<Rightarrow> repairer option" where
  "prepare_file f r =
     (case f of
        None \<Rightarrow> Some r
      | Some i \<Rightarrow>
          (case sf_verification (pr_files r ! i) of
             None \<Rightarrow> Some (r\<lparr>pr_unverifiable := pr_unverifiable r @ [i]\<rparr>)
           | Some vp \<Rightarrow>
               (case sf_sourceblocks (pr_files r ! i) of
                  None \<Rightarrow> None
                | Some sourceblocks \<Rightarrow>
                    Some (r\<lparr>pr_table := vt_load i sourceblocks (vp_entries vp) (pr_table r), pr_blockverifiable := True\<rparr>))))"

definition prepare_verification_hash_table :: "repairer \<Rightarrow> repairer option" where
  "prepare_verification_hash_table r =
     for_each prepare_file (pr_sourcefiles r)
       (r\<lparr>pr_table := vt_set_limit (pr_sourceblockcount r) (pr_table r), pr_blockverifiable := False\<rparr>)"

definition compute_window_table :: "repairer \<Rightarrow> repairer" where
  "compute_window_table r =
     (if pr_blockverifiable r then r\<lparr>pr_windowtable := generate_window_table (pr_blocksize r)\<rparr> else r)"

end
