(* ===== verification/ScanData.thy ===== *)
theory ScanData
  imports RepairSetup
begin

text \<open>
  \<^verbatim>\<open>Par2Repairer::ScanDataFile\<close>: the scan of a disk file for the blocks of the source files. While the
  scan runs the checksummer holds the disk file; it goes back to the store at the end. An output the code
  leaves unset is \<open>None\<close>. Messages and progress are left out.
\<close>

datatype match_type = NoMatch | PartialMatch | FullMatch

text \<open>The arguments and the two distances of the scan.\<close>

record scan_params =
  sp_diskfile :: nat
  sp_renameonly :: bool
  sp_fs :: fs
  sp_scandistance :: u64
  sp_scanskip :: u64

text \<open>The variables of the loop.\<close>

record scan =
  sn_repairer :: repairer
  sn_summer :: checksummer
  sn_sourcefile :: "nat option"
  sn_match :: match_type
  sn_count :: u32
  sn_next :: "nat option"
  sn_scanoffset :: u64

text \<open>How the loop is left: a failed read, the early return in rename-only mode, the end of the file.\<close>

datatype scan_end = ScanFailed | ScanEarly | ScanComplete

definition scan_context :: "nat \<Rightarrow> repairer \<Rightarrow> match_context" where
  "scan_context diskfile r =
     \<lparr>mc_blocks = (\<lambda>n. pr_sourceblocks r ! n), mc_store = pr_store r,
      mc_complete = (\<lambda>i. sf_completefile (pr_files r ! i) \<noteq> None), mc_diskfile = diskfile\<rparr>"

section \<open>A match\<close>

text \<open>\<^verbatim>\<open>SetBlock\<close>.\<close>

definition set_block :: "nat \<Rightarrow> u64 \<Rightarrow> nat \<Rightarrow> repairer \<Rightarrow> repairer" where
  "set_block diskfile off n r =
     r\<lparr>pr_sourceblocks := (pr_sourceblocks r)[n := db_set_location (Some diskfile) off (pr_sourceblocks r ! n)]\<rparr>"

definition scan_found :: "scan_params \<Rightarrow> nat \<Rightarrow> scan \<Rightarrow> ((scan_end \<times> scan) + scan) option" where
  "scan_found sp n s =
     (let r = sn_repairer s; c = sn_summer s; e = vt_entries (pr_table r) ! n;
          partial = (if sn_count s = 0 then \<not> ve_firstblock e \<or> cs_currentoffset c \<noteq> 0 else Some n \<noteq> sn_next s);
          s = (if sn_count s = 0 then s\<lparr>sn_sourcefile := Some (ve_sourcefile e)\<rparr> else s);
          s = (if partial then s\<lparr>sn_match := PartialMatch\<rparr> else s)
      in if partial \<and> sp_renameonly sp then Some (Inl (ScanEarly, s))
         else let r = (if pr_blocksallocated r then set_block (sp_diskfile sp) (cs_currentoffset c) (ve_datablock e) r else r);
                  s = s\<lparr>sn_repairer := r, sn_count := sn_count s + 1, sn_next := ve_next e\<rparr>
              in (case cs_jump (db_length (pr_sourceblocks r ! ve_datablock e)) (sp_fs sp) c of
                    None \<Rightarrow> None
                  | Some (False, c) \<Rightarrow> Some (Inl (ScanFailed, s\<lparr>sn_summer := c\<rparr>))
                  | Some (True, c) \<Rightarrow> Some (Inr (s\<lparr>sn_summer := c, sn_scanoffset := drop_bit 1 (sp_scandistance sp)\<rparr>))))"

section \<open>No match\<close>

text \<open>\<^verbatim>\<open>if (scanskip > 0 && ++scanoffset >= scandistance && skipfrom < FileSize())\<close> and what it guards.\<close>

definition scan_skip :: "scan_params \<Rightarrow> scan \<Rightarrow> ((scan_end \<times> scan) + scan) option" where
  "scan_skip sp s =
     (if sp_scanskip sp > 0
      then let s = s\<lparr>sn_scanoffset := sn_scanoffset s + 1\<rparr>; c = sn_summer s
           in if sn_scanoffset s \<ge> sp_scandistance sp \<and> cs_currentoffset c < df_filesize (cs_diskfile c)
              then (case cs_jump (sp_scanskip sp) (sp_fs sp) c of
                      None \<Rightarrow> None
                    | Some (False, c) \<Rightarrow> Some (Inl (ScanFailed, s\<lparr>sn_summer := c\<rparr>))
                    | Some (True, c) \<Rightarrow> Some (Inr (s\<lparr>sn_summer := c, sn_scanoffset := 0\<rparr>)))
              else Some (Inr s)
      else Some (Inr s))"

definition scan_missed :: "scan_params \<Rightarrow> scan \<Rightarrow> ((scan_end \<times> scan) + scan) option" where
  "scan_missed sp s =
     (let s = s\<lparr>sn_match := PartialMatch\<rparr>
      in if sp_renameonly sp then Some (Inl (ScanEarly, s))
         else let s = s\<lparr>sn_next := None\<rparr>
              in (case cs_step (sp_fs sp) (sn_summer s) of
                    None \<Rightarrow> None
                  | Some (False, c) \<Rightarrow> Some (Inl (ScanFailed, s\<lparr>sn_summer := c\<rparr>))
                  | Some (True, c) \<Rightarrow> scan_skip sp (s\<lparr>sn_summer := c\<rparr>)))"

section \<open>The loop\<close>

definition scan_round :: "scan_params \<Rightarrow> scan \<Rightarrow> ((scan_end \<times> scan) + scan) option" where
  "scan_round sp s =
     (case vt_find_match (pr_table (sn_repairer s)) (scan_context (sp_diskfile sp) (sn_repairer s))
             (sn_next s) (sn_sourcefile s) (sn_summer s) of
        (Some n, _) \<Rightarrow> scan_found sp n s
      | (None, _) \<Rightarrow> scan_missed sp s)"

partial_function (option) scan_loop :: "scan_params \<Rightarrow> scan \<Rightarrow> (scan_end \<times> scan) option" where
  "scan_loop sp s =
     (if cs_currentoffset (sn_summer s) < df_filesize (cs_diskfile (sn_summer s))
      then do {
             res \<leftarrow> scan_round sp s;
             case res of Inl result \<Rightarrow> Some result | Inr s \<Rightarrow> scan_loop sp s
           }
      else Some (ScanComplete, s))"

section \<open>The whole scan\<close>

record scan_result =
  sr_ok :: bool
  sr_repairer :: repairer
  sr_sourcefile :: "nat option"
  sr_match :: "match_type option"
  sr_hashes :: "(bytes \<times> bytes) option"
  sr_count :: "u32 option"

text \<open>The last check of a match that still looks perfect: block count, size and both hashes.\<close>

definition scan_confirm :: "u64 \<Rightarrow> bytes \<times> bytes \<Rightarrow> scan \<Rightarrow> match_type" where
  "scan_confirm filesize hashes s =
     (if sn_count s > 0
      then (case sn_sourcefile s of
              None \<Rightarrow> PartialMatch
            | Some i \<Rightarrow>
                (case (sf_verification (pr_files (sn_repairer s) ! i), sf_description (pr_files (sn_repairer s) ! i)) of
                   (Some vp, Some dp) \<Rightarrow>
                     if sn_match s \<noteq> FullMatch \<or> sn_count s \<noteq> vp_blockcount vp \<or> filesize \<noteq> dp_filesize dp \<or>
                        fst hashes \<noteq> dp_hashfull dp \<or> snd hashes \<noteq> dp_hash16k dp
                     then PartialMatch else FullMatch
                 | _ \<Rightarrow> PartialMatch))
      else NoMatch)"

text \<open>The parameters, the first state of the loop, and the results from its last.\<close>

definition scan_params_of :: "nat \<Rightarrow> bool \<Rightarrow> fs \<Rightarrow> repairer \<Rightarrow> scan_params" where
  "scan_params_of diskfile renameonly fs r =
     (let scandistance = min (push_bit 1 (pr_skipleaway r)) (pr_blocksize r)
      in \<lparr>sp_diskfile = diskfile, sp_renameonly = renameonly, sp_fs = fs, sp_scandistance = scandistance,
          sp_scanskip = (if pr_skipdata r then pr_blocksize r - scandistance else 0)\<rparr>)"

definition scan_first :: "repairer \<Rightarrow> nat option \<Rightarrow> checksummer \<Rightarrow> scan" where
  "scan_first r sourcefile c =
     \<lparr>sn_repairer = r, sn_summer = c, sn_sourcefile = sourcefile, sn_match = FullMatch, sn_count = 0, sn_next = None,
      sn_scanoffset = drop_bit 1 (min (push_bit 1 (pr_skipleaway r)) (pr_blocksize r))\<rparr>"

definition scan_last :: "nat \<Rightarrow> repairer \<Rightarrow> scan_end \<Rightarrow> scan \<Rightarrow> scan_result" where
  "scan_last diskfile r leave s =
     \<lparr>sr_ok = leave \<noteq> ScanFailed, sr_repairer = set_disk diskfile (cs_diskfile (sn_summer s)) (sn_repairer s),
      sr_sourcefile = sn_sourcefile s,
      sr_match = Some (if leave = ScanComplete
        then scan_confirm (df_filesize (pr_store r diskfile)) (cs_get_file_hashes (sn_summer s)) s else sn_match s),
      sr_hashes = (if leave = ScanComplete then Some (cs_get_file_hashes (sn_summer s)) else None),
      sr_count = Some (sn_count s)\<rparr>"

text \<open>The memory of the checksummer and of its hasher are arguments, as the code does not clear them.\<close>

definition scan_data_file ::
  "bytes \<Rightarrow> hasher_input \<Rightarrow> nat \<Rightarrow> bool \<Rightarrow> fs \<Rightarrow> nat option \<Rightarrow> repairer \<Rightarrow> scan_result option" where
  "scan_data_file memory fresh diskfile renameonly fs sourcefile r =
     (let d = pr_store r diskfile;
          exists = (case sourcefile of None \<Rightarrow> False | Some i \<Rightarrow> sf_targetexists (pr_files r ! i))
      in if \<not> exists \<and> df_filesize d = 0
         then Some \<lparr>sr_ok = True, sr_repairer = r, sr_sourcefile = sourcefile, sr_match = None, sr_hashes = None, sr_count = None\<rparr>
         else case cs_start fresh fs (cs_new memory d (pr_blocksize r) (pr_windowtable r)) of
                None \<Rightarrow> None
              | Some (False, c) \<Rightarrow>
                  Some \<lparr>sr_ok = False, sr_repairer = set_disk diskfile (cs_diskfile c) r, sr_sourcefile = sourcefile,
                        sr_match = None, sr_hashes = None, sr_count = None\<rparr>
              | Some (True, c) \<Rightarrow>
                  map_option (\<lambda>(leave, s). scan_last diskfile r leave s)
                    (scan_loop (scan_params_of diskfile renameonly fs r) (scan_first r sourcefile c)))"

end
