(* ===== verification/RepairVerify.thy ===== *)
theory RepairVerify
  imports ScanData "HOL-Library.List_Lexorder" "HOL-Library.Char_ord"
begin

unbundle bit_operations_syntax

text \<open>
  \<^verbatim>\<open>Par2Repairer\<close>: verifying the source files and the extra files, counting what was found, and moving
  and creating the target files. The files are verified on several threads, one file at a time on each; the
  model takes them one after the other, in the order of the list. Messages and progress are left out.
  A null pointer that is followed, or an iterator outside its vector, is \<open>None\<close>.
\<close>

section \<open>What a verification starts from\<close>

text \<open>
  The code leaves variables uninitialised: the memory of the checksummer and its hasher, and the match
  type and the hashes of \<^verbatim>\<open>VerifyDataFile\<close>. Their values are arbitrary and arguments of the model.
\<close>

record uninit =
  un_memory :: bytes
  un_hasher :: hasher_input
  un_match :: match_type
  un_hashfull :: bytes
  un_hash16k :: bytes

section \<open>Matching a whole file\<close>

text \<open>The hashes of the whole file, read by itself: the inner \<^verbatim>\<open>hashfull\<close> and \<^verbatim>\<open>hash16k\<close>.\<close>

definition hash_file_step :: "u64 \<Rightarrow> bytes \<Rightarrow> md5_single \<times> bytes \<Rightarrow> md5_single \<times> bytes" where
  "hash_file_step off buffer s =
     (case s of
        (ctx, hash16k) \<Rightarrow>
          let want = word_of_nat (length buffer)
          in if off < 16384 \<and> off + want \<ge> 16384
             then let first = unat (16384 - off);
                      ctx = md5_update (take first buffer) ctx;
                      hash16k = md5_end ctx
                  in (if off + want > 16384 then md5_update (drop first buffer) ctx else ctx, hash16k)
             else (md5_update buffer ctx, hash16k))"

partial_function (option) hash_file_loop ::
  "u64 \<Rightarrow> fs \<Rightarrow> u64 \<Rightarrow> u64 \<Rightarrow> md5_single \<times> bytes \<Rightarrow> diskfile \<Rightarrow> (bool \<times> (md5_single \<times> bytes) \<times> diskfile) option" where
  "hash_file_loop buffersize fs filesize off s d =
     (if off < filesize
      then do {
             let want = min buffersize (filesize - off);
             (ok, buffer, d) \<leftarrow> disk_read off (unat want) MAX_LENGTH d fs;
             if ok then hash_file_loop buffersize fs filesize (off + want) (hash_file_step off buffer s) d
             else Some (False, s, d)
           }
      else Some (True, s, d))"

definition hash_file :: "u64 \<Rightarrow> fs \<Rightarrow> bytes \<Rightarrow> diskfile \<Rightarrow> (bool \<times> bytes \<times> bytes \<times> diskfile) option" where
  "hash_file blocksize fs hash16k d =
     (let filesize = df_filesize d;
          buffersize = min 1048576 (min blocksize filesize)
      in case hash_file_loop buffersize fs filesize 0 (md5_single_new, hash16k) d of
           None \<Rightarrow> None
         | Some (False, (ctx, hash16k), d) \<Rightarrow> Some (False, [], hash16k, d)
         | Some (True, (ctx, hash16k), d) \<Rightarrow>
             let hashfull = md5_end ctx
             in Some (True, hashfull, if filesize < 16384 then hashfull else hash16k, d))"

text \<open>The loops that put the blocks of a file at their places in a disk file.\<close>

function locate_blocks :: "nat \<Rightarrow> u64 \<Rightarrow> u64 \<Rightarrow> u64 \<Rightarrow> nat \<Rightarrow> datablock list \<Rightarrow> datablock list option" where
  "locate_blocks diskfile blocksize filesize off b blocks =
     (if off < filesize
      then if b < length blocks
           then locate_blocks diskfile blocksize filesize (off + blocksize) (Suc b)
                  (blocks[b := db_set_length (min blocksize (filesize - off)) (db_set_location (Some diskfile) off (blocks ! b))])
           else None
      else Some blocks)"
  by pat_completeness auto
termination by (relation "measure (\<lambda>(_, _, _, _, b, blocks). length blocks - b)") auto

declare locate_blocks.simps [simp del]

definition whole_match :: "nat \<Rightarrow> bytes \<times> bytes \<Rightarrow> repairer \<Rightarrow> nat \<Rightarrow> bool option" where
  "whole_match diskfile hashes r i =
     (case hashes of
        (hashfull, hash16k) \<Rightarrow>
          if sf_completefile (pr_files r ! i) \<noteq> None then Some False
          else case sf_description (pr_files r ! i) of
                 None \<Rightarrow> None
               | Some dp \<Rightarrow> Some (df_filesize (pr_store r diskfile) = dp_filesize dp \<and>
                                 hash16k = dp_hash16k dp \<and> hashfull = dp_hashfull dp))"

fun match_unverifiable :: "nat \<Rightarrow> bytes \<times> bytes \<Rightarrow> repairer \<Rightarrow> nat list \<Rightarrow> repairer option" where
  "match_unverifiable diskfile hashes r [] = Some r"
| "match_unverifiable diskfile hashes r (i # is) =
     (case whole_match diskfile hashes r i of
        None \<Rightarrow> None
      | Some False \<Rightarrow> match_unverifiable diskfile hashes r is
      | Some True \<Rightarrow>
          let filesize = (case sf_description (pr_files r ! i) of None \<Rightarrow> 0 | Some dp \<Rightarrow> dp_filesize dp);
              r = upd_file i (\<lambda>sf. sf\<lparr>sf_completefile := Some diskfile\<rparr>) r
          in if pr_blocksallocated r \<and> 0 < filesize
             then (case sf_sourceblocks (pr_files r ! i) of
                     None \<Rightarrow> None
                   | Some b \<Rightarrow> map_option (\<lambda>blocks. r\<lparr>pr_sourceblocks := blocks\<rparr>)
                                (locate_blocks diskfile (pr_blocksize r) filesize 0 b (pr_sourceblocks r)))
             else Some r)"

section \<open>Verifying a disk file\<close>

text \<open>After the scan: without block level packets the file is hashed here, and the outer \<^verbatim>\<open>hashfull\<close> stays unset.\<close>

definition verify_whole :: "uninit \<Rightarrow> nat \<Rightarrow> fs \<Rightarrow> bytes \<times> bytes \<Rightarrow> repairer \<Rightarrow> (bool \<times> repairer) option" where
  "verify_whole u diskfile fs hashes r =
     (if pr_unverifiable r = [] then Some (True, r)
      else case (if \<not> pr_blockverifiable r
                 then (case hash_file (pr_blocksize r) fs (un_hash16k u) (pr_store r diskfile) of
                         None \<Rightarrow> None
                       | Some (ok, _, hash16k, d) \<Rightarrow> Some (ok, (un_hashfull u, hash16k), set_disk diskfile d r))
                 else Some (True, hashes, r)) of
             None \<Rightarrow> None
           | Some (False, _, r) \<Rightarrow> Some (False, r)
           | Some (True, hashes, r) \<Rightarrow> map_option (\<lambda>r. (True, r)) (match_unverifiable diskfile hashes r (pr_unverifiable r)))"

definition verify_data_file ::
  "uninit \<Rightarrow> nat \<Rightarrow> bool \<Rightarrow> fs \<Rightarrow> nat option \<Rightarrow> repairer \<Rightarrow> (bool \<times> repairer) option" where
  "verify_data_file u diskfile renameonly fs sourcefile r =
     (if pr_blockverifiable r
      then (case scan_data_file (un_memory u) (un_hasher u) diskfile renameonly fs sourcefile r of
              None \<Rightarrow> None
            | Some res \<Rightarrow>
                if \<not> sr_ok res then Some (False, sr_repairer res)
                else case (case sr_match res of None \<Rightarrow> un_match u | Some m \<Rightarrow> m) of
                       PartialMatch \<Rightarrow> Some (True, sr_repairer res)
                     | FullMatch \<Rightarrow>
                         map_option (\<lambda>i. (True, upd_file i (\<lambda>sf. sf\<lparr>sf_completefile := Some diskfile\<rparr>) (sr_repairer res)))
                           (sr_sourcefile res)
                     | NoMatch \<Rightarrow>
                         verify_whole u diskfile fs
                           (case sr_hashes res of None \<Rightarrow> (un_hashfull u, un_hash16k u) | Some h \<Rightarrow> h) (sr_repairer res))
      else verify_whole u diskfile fs (un_hashfull u, un_hash16k u) r)"

section \<open>Verifying the source files\<close>

text \<open>The state of the loop: the result so far, the extra files that are left, the repairer.\<close>

definition verify_source_file ::
  "(string \<Rightarrow> uninit) \<Rightarrow> string option \<Rightarrow> fs \<Rightarrow> nat \<Rightarrow> bool \<times> string list \<times> repairer \<Rightarrow> (bool \<times> string list \<times> repairer) option" where
  "verify_source_file u cwd fs i s =
     (case s of
        (finalresult, extrafiles, r) \<Rightarrow>
          let filename = sf_targetfilename (pr_files r ! i);
              extrafiles = remove1 (get_canonical_pathname cwd filename) extrafiles
          in if map_find filename (pr_diskfilemap r) \<noteq> None then Some (False, extrafiles, r)
             else case new_disk r of
                    (diskfile, r) \<Rightarrow>
                      (case disk_open filename (pr_store r diskfile) fs of
                         (False, d) \<Rightarrow> Some (finalresult, extrafiles, r)
                       | (True, d) \<Rightarrow>
                           let r = upd_file i (\<lambda>sf. sf\<lparr>sf_targetexists := True, sf_targetfile := Some diskfile\<rparr>) (set_disk diskfile d r);
                               r = r\<lparr>pr_diskfilemap := snd (map_insert filename diskfile (pr_diskfilemap r))\<rparr>
                           in (case verify_data_file (u filename) diskfile False fs (Some i) r of
                                 None \<Rightarrow> None
                               | Some (ok, r) \<Rightarrow>
                                   Some (finalresult \<and> ok, extrafiles, set_disk diskfile (disk_close (pr_store r diskfile)) r))))"

text \<open>\<^verbatim>\<open>UpdateVerificationResults\<close> for one file.\<close>

definition count_set :: "repairer \<Rightarrow> nat \<Rightarrow> nat \<Rightarrow> u32" where
  "count_set r b n = sum_list (map (\<lambda>k. if db_is_set (pr_store r) (pr_sourceblocks r ! (b + k)) then 1 else 0) [0..<n])"

definition count_results :: "nat option \<Rightarrow> repairer \<Rightarrow> repairer option" where
  "count_results f r =
     (case f of
        None \<Rightarrow> Some (r\<lparr>pr_missingfilecount := pr_missingfilecount r + 1\<rparr>)
      | Some i \<Rightarrow>
          let sf = pr_files r ! i
          in if sf_completefile sf \<noteq> None
             then let r = (if sf_completefile sf = sf_targetfile sf
                           then r\<lparr>pr_completefilecount := pr_completefilecount r + 1\<rparr>
                           else r\<lparr>pr_renamedfilecount := pr_renamedfilecount r + 1\<rparr>)
                  in Some (r\<lparr>pr_availableblockcount := pr_availableblockcount r + sf_blockcount sf\<rparr>)
             else case (if sf_blockcount sf = 0 then Some 0
                        else case sf_sourceblocks sf of
                               None \<Rightarrow> None
                             | Some b \<Rightarrow> if b + unat (sf_blockcount sf) \<le> length (pr_sourceblocks r)
                                        then Some (count_set r b (unat (sf_blockcount sf))) else None) of
                    None \<Rightarrow> None
                  | Some found \<Rightarrow>
                      let r = r\<lparr>pr_availableblockcount := pr_availableblockcount r + found\<rparr>
                      in Some (if sf_targetexists sf then r\<lparr>pr_damagedfilecount := pr_damagedfilecount r + 1\<rparr>
                               else r\<lparr>pr_missingfilecount := pr_missingfilecount r + 1\<rparr>))"

definition all_files :: "main_packet \<Rightarrow> repairer \<Rightarrow> nat option list" where
  "all_files mp r = take (unat (mp_totalfilecount mp)) (pr_sourcefiles r)"

definition update_verification_results :: "repairer \<Rightarrow> repairer option" where
  "update_verification_results r =
     (case pr_mainpacket r of
        None \<Rightarrow> None
      | Some mp \<Rightarrow>
          map_option (\<lambda>r. r\<lparr>pr_missingblockcount := pr_sourceblockcount r - pr_availableblockcount r\<rparr>)
            (for_each count_results (all_files mp r)
               (r\<lparr>pr_availableblockcount := 0, pr_missingblockcount := 0, pr_completefilecount := 0,
                  pr_renamedfilecount := 0, pr_damagedfilecount := 0, pr_missingfilecount := 0\<rparr>)))"

text \<open>
  The first loop never moves \<^verbatim>\<open>filenumber\<close>, so any file without details counts as recoverable as soon
  as there is a recoverable file. \<^verbatim>\<open>std::sort\<close> by the target file name.
\<close>

definition sorted_files :: "repairer \<Rightarrow> nat list" where
  "sorted_files r = sort_key (\<lambda>i. sf_targetfilename (pr_files r ! i)) (List.map_filter id (pr_sourcefiles r))"

definition verify_source_files ::
  "(string \<Rightarrow> uninit) \<Rightarrow> string option \<Rightarrow> fs \<Rightarrow> string list \<Rightarrow> repairer \<Rightarrow> (bool \<times> string list \<times> repairer) option" where
  "verify_source_files u cwd fs extrafiles r =
     (case pr_mainpacket r of
        None \<Rightarrow> None
      | Some mp \<Rightarrow>
          let finalresult = \<not> (None \<in> set (pr_sourcefiles r) \<and> 0 < mp_recoverablefilecount mp)
          in (case for_each (verify_source_file u cwd fs) (sorted_files r) (finalresult, extrafiles, r) of
                None \<Rightarrow> None
              | Some (finalresult, extrafiles, r) \<Rightarrow>
                  map_option (\<lambda>r. (finalresult, extrafiles, r)) (update_verification_results r)))"

section \<open>Verifying extra files\<close>

definition verify_extra_file ::
  "(string \<Rightarrow> uninit) \<Rightarrow> string option \<Rightarrow> bool \<Rightarrow> fs \<Rightarrow> string \<Rightarrow> repairer \<Rightarrow> repairer option" where
  "verify_extra_file u cwd renameonly fs extrafile r =
     (if find_sub ''.par2'' extrafile = None \<and> find_sub ''.PAR2'' extrafile = None
      then let filename = get_canonical_pathname cwd extrafile
           in if map_find filename (pr_diskfilemap r) = None
              then case new_disk r of
                     (diskfile, r) \<Rightarrow>
                       (case disk_open filename (pr_store r diskfile) fs of
                          (False, d) \<Rightarrow> Some r
                        | (True, d) \<Rightarrow>
                            let r = set_disk diskfile d r;
                                r = r\<lparr>pr_diskfilemap := snd (map_insert filename diskfile (pr_diskfilemap r))\<rparr>
                            in (case verify_data_file (u filename) diskfile renameonly fs None r of
                                  None \<Rightarrow> None
                                | Some (_, r) \<Rightarrow> Some (set_disk diskfile (disk_close (pr_store r diskfile)) r)))
              else Some r
      else Some r)"

definition verify_extra_files ::
  "(string \<Rightarrow> uninit) \<Rightarrow> string option \<Rightarrow> bool \<Rightarrow> fs \<Rightarrow> string list \<Rightarrow> repairer \<Rightarrow> repairer option" where
  "verify_extra_files u cwd renameonly fs extrafiles r =
     (case pr_mainpacket r of
        None \<Rightarrow> None
      | Some mp \<Rightarrow>
          Option.bind
            (if pr_completefilecount r < mp_recoverablefilecount mp
             then for_each (verify_extra_file u cwd renameonly fs) extrafiles r else Some r)
            update_verification_results)"

section \<open>The verdict\<close>

definition repair_needed :: "main_packet \<Rightarrow> repairer \<Rightarrow> bool" where
  "repair_needed mp r \<longleftrightarrow>
     pr_completefilecount r < mp_recoverablefilecount mp \<or> pr_renamedfilecount r > 0 \<or>
     pr_damagedfilecount r > 0 \<or> pr_missingfilecount r > 0"

definition check_verification_results :: "repairer \<Rightarrow> bool option" where
  "check_verification_results r =
     (case pr_mainpacket r of
        None \<Rightarrow> None
      | Some mp \<Rightarrow>
          Some (if repair_needed mp r
                then length (pr_recoverypackets r) \<ge> unat (pr_missingblockcount r)
                else True))"

end
