(* ===== verification/Scan_Disk.thy ===== *)
theory Scan_Disk
  imports ScanData
begin

text \<open>
  A scan moves only the position of its disk file: name and size of the disk file, the size the
  checksummer took from it and the block size stay what they were.
\<close>

definition same_disk :: "diskfile \<Rightarrow> diskfile \<Rightarrow> bool" where
  "same_disk d d' \<longleftrightarrow> df_filename d' = df_filename d \<and> df_filesize d' = df_filesize d"

lemma same_disk_refl [simp]: "same_disk d d"
  by (simp add: same_disk_def)

lemma same_disk_trans: "same_disk a b \<Longrightarrow> same_disk b c \<Longrightarrow> same_disk a c"
  by (simp add: same_disk_def)

lemma disk_read_loop_same: "disk_read_loop maxlength len buffer d h fs = Some (ok, got, d') \<Longrightarrow> same_disk d d'"
proof -
  assume ret: "disk_read_loop maxlength len buffer d h fs = Some (ok, got, d')"
  let ?P = "\<lambda>maxlength len buffer d h fs (res :: bool \<times> bytes \<times> diskfile). case res of (_, _, d') \<Rightarrow> same_disk d d'"
  have "?P maxlength len buffer d h fs (ok, got, d')"
  proof (rule disk_read_loop.raw_induct [where P = ?P, OF _ ret])
    fix rec maxlength len buffer d h fs and res :: "bool \<times> bytes \<times> diskfile"
    assume ih: "\<And>maxlength len buffer d h fs res. rec maxlength len buffer d h fs = Some res \<Longrightarrow> case res of (_, _, d') \<Rightarrow> same_disk d d'"
      and e: "(if 0 < len then let want = if maxlength < len then maxlength else len
          in case os_fread (df_filename d) want h fs of
               (got, h) \<Rightarrow> if length got \<noteq> want then Some (False, buffer @ got, d\<lparr>df_file := Some h\<rparr>)
                 else rec maxlength (len - length got) (buffer @ got) (d\<lparr>df_offset := df_offset d + word_of_nat (length got)\<rparr>) h fs
        else Some (True, buffer, d\<lparr>df_file := Some h\<rparr>)) = Some res"
    show "case res of (_, _, d') \<Rightarrow> same_disk d d'"
    proof (cases "0 < len")
      case True
      obtain got h' where o: "os_fread (df_filename d) (if maxlength < len then maxlength else len) h fs = (got, h')" by (rule prod.exhaust)
      show ?thesis
      proof (cases "length got = (if maxlength < len then maxlength else len)")
        case False
        then show ?thesis using e True o by (auto simp: Let_def same_disk_def)
      next
        case True
        then have "rec maxlength (len - length got) (buffer @ got) (d\<lparr>df_offset := df_offset d + word_of_nat (length got)\<rparr>) h' fs = Some res"
          using e \<open>0 < len\<close> o by (simp add: Let_def)
        from ih [OF this] show ?thesis by (simp add: same_disk_def)
      qed
    qed (use e in \<open>auto simp: same_disk_def\<close>)
  qed
  then show ?thesis by simp
qed

lemma disk_read_same: "disk_read off len maxlength d fs = Some (ok, got, d') \<Longrightarrow> same_disk d d'"
  unfolding disk_read_def
  by (auto simp: disk_seek_def split: option.splits if_splits dest!: disk_read_loop_same) (auto simp: same_disk_def)

section \<open>The checksummer\<close>

definition same_source :: "checksummer \<Rightarrow> checksummer \<Rightarrow> bool" where
  "same_source c c' \<longleftrightarrow> same_disk (cs_diskfile c) (cs_diskfile c') \<and> cs_filesize c' = cs_filesize c \<and>
     cs_blocksize c' = cs_blocksize c \<and> cs_windowtable c' = cs_windowtable c"

lemma same_source_refl [simp]: "same_source c c"
  by (simp add: same_source_def)

lemma same_source_trans: "same_source a b \<Longrightarrow> same_source b c \<Longrightarrow> same_source a c"
  using same_disk_trans by (auto simp: same_source_def)

lemma same_source_updates [simp]:
  "same_source c (c'\<lparr>cs_currentoffset := o'\<rparr>) = same_source c c'" "same_source c (c'\<lparr>cs_buffer := b\<rparr>) = same_source c c'"
  "same_source c (c'\<lparr>cs_outpointer := n\<rparr>) = same_source c c'" "same_source c (c'\<lparr>cs_inpointer := n\<rparr>) = same_source c c'"
  "same_source c (c'\<lparr>cs_tailpointer := n\<rparr>) = same_source c c'" "same_source c (c'\<lparr>cs_readoffset := o'\<rparr>) = same_source c c'"
  "same_source c (c'\<lparr>cs_checksum := k\<rparr>) = same_source c c'" "same_source c (c'\<lparr>cs_blockhash := b\<rparr>) = same_source c c'"
  "same_source c (c'\<lparr>cs_hasblockhash := q\<rparr>) = same_source c c'" "same_source c (c'\<lparr>cs_contextfull := m\<rparr>) = same_source c c'"
  "same_source c (c'\<lparr>cs_context16k := m\<rparr>) = same_source c c'" "same_source c (c'\<lparr>cs_hasher := h\<rparr>) = same_source c c'"
  by (simp_all add: same_source_def)

lemma same_source_left [simp]:
  "same_source (c\<lparr>cs_currentoffset := o'\<rparr>) c' = same_source c c'" "same_source (c\<lparr>cs_buffer := b\<rparr>) c' = same_source c c'"
  "same_source (c\<lparr>cs_outpointer := n\<rparr>) c' = same_source c c'" "same_source (c\<lparr>cs_inpointer := n\<rparr>) c' = same_source c c'"
  "same_source (c\<lparr>cs_tailpointer := n\<rparr>) c' = same_source c c'" "same_source (c\<lparr>cs_readoffset := o'\<rparr>) c' = same_source c c'"
  "same_source (c\<lparr>cs_hasblockhash := q\<rparr>) c' = same_source c c'" "same_source (c\<lparr>cs_hasher := h\<rparr>) c' = same_source c c'"
  "same_source (cs_stop_hasher c) c' = same_source c c'" "same_source (cs_compute_checksum q c) c' = same_source c c'"
  "same_source (cs_keep c) c' = same_source c c'"
  by (simp_all add: same_source_def cs_stop_hasher_def Let_def split: option.split)

lemma same_source_disk: "same_disk (cs_diskfile c) d \<Longrightarrow> same_source c (c\<lparr>cs_diskfile := d\<rparr>)"
  by (simp add: same_source_def)

lemma same_source_parts [simp]:
  "same_source c (cs_stop_hasher c') = same_source c c'" "same_source c (cs_update_hashes off b c') = same_source c c'"
  "same_source c (cs_compute_checksum q c') = same_source c c'" "same_source c (cs_at_end c') = same_source c c'"
  "same_source c (cs_keep c') = same_source c c'" "same_source c (cs_slide c') = same_source c c'"
  by (simp_all add: same_source_def cs_stop_hasher_def cs_at_end_def cs_slide_def Let_def split: option.split)

lemma cs_fill_same: "cs_fill longfill fs c = Some (ok, c') \<Longrightarrow> same_source c c'"
  unfolding cs_fill_def
  by (auto simp: Let_def split: if_splits option.splits prod.splits bool.splits dest!: disk_read_same
      intro: same_source_disk)

lemma cs_step_same: "cs_step fs c = Some (ok, c') \<Longrightarrow> same_source c c'"
  unfolding cs_step_def
  by (auto simp: Let_def split: if_splits option.splits prod.splits bool.splits dest!: cs_fill_same)

lemma cs_jump_same: "cs_jump distance fs c = Some (ok, c') \<Longrightarrow> same_source c c'"
  unfolding cs_jump_def
  by (auto simp: Let_def split: if_splits option.splits prod.splits bool.splits dest!: cs_fill_same cs_step_same)

lemma cs_start_same: "cs_start fresh fs c = Some (ok, c') \<Longrightarrow> same_source c c'"
  unfolding cs_start_def
  by (auto simp: Let_def split: option.splits prod.splits bool.splits dest!: cs_fill_same)

end
