(* ===== verification/RepairSetup_Correct.thy ===== *)
theory RepairSetup_Correct
  imports RepairSetup
begin

unbundle bit_operations_syntax

text \<open>
  The setup of the repairer: the blocks of the recoverable files lie one after the other without gap or
  overlap and add up to the sizes of the files, and the hash table holds the verification entries of
  every file that has them.
\<close>

section \<open>The blocks of a file\<close>

definition fresh_block :: "u64 \<Rightarrow> u64 \<Rightarrow> nat \<Rightarrow> datablock" where
  "fresh_block blocksize filesize k =
     \<lparr>db_diskfile = None, db_offset = 0, db_length = min blocksize (filesize - word_of_nat k * blocksize), db_filesize = filesize\<rparr>"

lemma set_source_blocks:
  assumes "pr_sourceblocks r = pre @ replicate m datablock_new" "n \<le> m"
  shows "for_each (set_source_block blocksize filesize (length pre)) [0..<n] r =
    Some (r\<lparr>pr_sourceblocks := pre @ map (fresh_block blocksize filesize) [0..<n] @ replicate (m - n) datablock_new\<rparr>)"
  using assms(2)
proof (induction n)
  case 0
  have "r\<lparr>pr_sourceblocks := pre @ replicate m datablock_new\<rparr> = r" using assms(1) [symmetric] by simp
  then show ?case by simp
next
  case (Suc n)
  have rep: "replicate (m - n) datablock_new = datablock_new # replicate (m - Suc n) datablock_new"
    using Suc.prems by (metis Suc_diff_le diff_Suc_Suc replicate_Suc)
  have "fresh_block blocksize filesize n =
      db_set_length (min blocksize (filesize - word_of_nat n * blocksize)) (db_set_filesize filesize datablock_new)"
    by (simp add: fresh_block_def db_set_length_def db_set_filesize_def datablock_new_def)
  then show ?case
    using Suc by (simp add: for_each_append set_source_block_def nth_append list_update_append rep Let_def)
qed

lemma fresh_lengths:
  assumes "0 < blocksize" "unat filesize + unat blocksize < 2 ^ 64"
    and "n = (unat filesize + unat blocksize - 1) div unat blocksize"
  shows "(\<Sum>k\<leftarrow>[0..<n]. unat (db_length (fresh_block blocksize filesize k))) = unat filesize"
    and "\<forall>k<n. 0 < db_length (fresh_block blocksize filesize k) \<and>
      unat (db_length (fresh_block blocksize filesize k)) = min (unat blocksize) (unat filesize - k * unat blocksize)"
proof -
  let ?b = "unat blocksize" and ?f = "unat filesize"
  have b: "0 < ?b" using assms(1) by (simp add: word_less_nat_alt)
  have small: "k * ?b < ?f" if "k < n" for k
  proof -
    have "Suc k \<le> (?f + ?b - 1) div ?b" using that assms(3) by simp
    then have "Suc k * ?b \<le> ?f + ?b - 1" using less_eq_div_iff_mult_less_eq [OF b] by blast
    then show ?thesis using b by simp
  qed
  have len: "unat (db_length (fresh_block blocksize filesize k)) = min ?b (?f - k * ?b)" if "k < n" for k
  proof -
    have "k * ?b < 2 ^ 64" using small [OF that] assms(2) by simp
    moreover have "k \<le> k * ?b" using b by simp
    ultimately have "k < 2 ^ 64" "k * ?b < 2 ^ 64" using le_less_trans by blast+
    then have "unat (word_of_nat k * blocksize) = k * ?b" by (simp add: unat_word_ariths unat_of_nat)
    then show ?thesis
      using small [OF that] by (simp add: fresh_block_def unat_min unat_sub word_le_nat_alt)
  qed
  have "(\<Sum>k\<leftarrow>[0..<j]. unat (db_length (fresh_block blocksize filesize k))) = min (j * ?b) ?f" if "j \<le> n" for j
    using that
  proof (induction j)
    case (Suc j)
    then show ?case using len [of j] small [of j] by (simp add: min_def, arith)
  qed simp
  moreover have "?f \<le> n * ?b"
  proof -
    have "?f + ?b - 1 < Suc n * ?b" using assms(3) b by (metis dividend_less_div_times add.commute mult_Suc mult.commute)
    then show ?thesis using b by simp
  qed
  ultimately show "(\<Sum>k\<leftarrow>[0..<n]. unat (db_length (fresh_block blocksize filesize k))) = ?f" by simp
  show "\<forall>k<n. 0 < db_length (fresh_block blocksize filesize k) \<and> unat (db_length (fresh_block blocksize filesize k)) = min ?b (?f - k * ?b)"
    using len small b by (simp add: word_less_nat_alt)
qed

section \<open>The layout of all blocks\<close>

fun file_starts :: "(nat \<Rightarrow> nat) \<Rightarrow> nat \<Rightarrow> nat option list \<Rightarrow> (nat \<times> nat) list" where
  "file_starts cnt pos [] = []"
| "file_starts cnt pos (None # fs) = file_starts cnt pos fs"
| "file_starts cnt pos (Some i # fs) = (i, pos) # file_starts cnt (pos + cnt i) fs"

definition file_count :: "repairer \<Rightarrow> nat \<Rightarrow> nat" where
  "file_count r i = unat (sf_blockcount (pr_files r ! i))"

definition file_size :: "repairer \<Rightarrow> nat \<Rightarrow> u64" where
  "file_size r i = (case sf_description (pr_files r ! i) of None \<Rightarrow> 0 | Some p \<Rightarrow> dp_filesize p)"

definition layout :: "repairer \<Rightarrow> nat option list \<Rightarrow> datablock list" where
  "layout r files = concat (map (\<lambda>f. case f of None \<Rightarrow> []
     | Some i \<Rightarrow> map (fresh_block (pr_blocksize r) (file_size r i)) [0..<file_count r i]) files)"

text \<open>The files to lay out: different ones, with a description where they have blocks.\<close>

definition files_ok :: "repairer \<Rightarrow> nat option list \<Rightarrow> bool" where
  "files_ok r files \<longleftrightarrow> distinct (filter (\<lambda>f. f \<noteq> None) files) \<and>
     (\<forall>i. Some i \<in> set files \<longrightarrow> i < length (pr_files r) \<and> (0 < file_count r i \<longrightarrow> sf_description (pr_files r ! i) \<noteq> None))"

text \<open>The files are what they were but for the places of their blocks.\<close>

definition same_but_blocks :: "source_file \<Rightarrow> source_file \<Rightarrow> bool" where
  "same_but_blocks sf sf' \<longleftrightarrow> (\<exists>a b c. sf' = sf\<lparr>sf_firstblocknumber := a, sf_sourceblocks := b, sf_targetblocks := c\<rparr>)"

lemma same_but_blocks_fields:
  "same_but_blocks sf sf' \<Longrightarrow> sf_description sf' = sf_description sf \<and> sf_verification sf' = sf_verification sf \<and>
    sf_blockcount sf' = sf_blockcount sf \<and> sf_targetexists sf' = sf_targetexists sf \<and> sf_targetfile sf' = sf_targetfile sf \<and>
    sf_completefile sf' = sf_completefile sf \<and> sf_targetfilename sf' = sf_targetfilename sf"
  by (auto simp: same_but_blocks_def)

lemma same_but_blocks_refl [simp]: "same_but_blocks sf sf"
  unfolding same_but_blocks_def
  by (rule exI [of _ "sf_firstblocknumber sf"], rule exI [of _ "sf_sourceblocks sf"], rule exI [of _ "sf_targetblocks sf"]) simp

lemma same_but_blocks_trans: "same_but_blocks a b \<Longrightarrow> same_but_blocks b c \<Longrightarrow> same_but_blocks a c"
  unfolding same_but_blocks_def by (elim exE) (rule exI, rule exI, rule exI, simp)

lemma set_blocks_rule:
  assumes "i < length (pr_files r)" "0 < file_count r i \<longrightarrow> sf_description (pr_files r ! i) \<noteq> None"
    and "pr_sourceblocks r = pre @ replicate m datablock_new" "file_count r i \<le> m" "c = sf_blockcount (pr_files r ! i)"
  shows "sf_set_blocks bn c (length pre) (length pre) blocksize i r =
    Some (r\<lparr>pr_files := (pr_files r)[i := (pr_files r ! i)\<lparr>sf_firstblocknumber := bn, sf_sourceblocks := Some (length pre), sf_targetblocks := Some (length pre)\<rparr>],
      pr_sourceblocks := pre @ map (fresh_block blocksize (file_size r i)) [0..<file_count r i] @ replicate (m - file_count r i) datablock_new\<rparr>)"
proof -
  let ?f = "(pr_files r ! i)\<lparr>sf_firstblocknumber := bn, sf_sourceblocks := Some (length pre), sf_targetblocks := Some (length pre)\<rparr>"
  define r1 where "r1 = r\<lparr>pr_files := (pr_files r)[i := ?f]\<rparr>"
  have u: "upd_file i (\<lambda>sf. sf\<lparr>sf_firstblocknumber := bn, sf_blockcount := c, sf_sourceblocks := Some (length pre),
      sf_targetblocks := Some (length pre)\<rparr>) r = r1"
    by (simp add: upd_file_def r1_def assms(5))
  have d: "sf_description (pr_files r1 ! i) = sf_description (pr_files r ! i)" using assms(1) by (simp add: r1_def)
  have fc: "file_count r i = unat c" by (simp add: file_count_def assms(5))
  show ?thesis
  proof (cases "c > 0")
    case True
    then have "0 < file_count r i" by (simp add: fc word_less_nat_alt)
    then obtain p where p: "sf_description (pr_files r ! i) = Some p" using assms(2) by blast
    have "pr_sourceblocks r1 = pre @ replicate m datablock_new" using assms(3) by (simp add: r1_def)
    from set_source_blocks [OF this assms(4), of blocksize "dp_filesize p"] show ?thesis
      using True p d by (simp add: sf_set_blocks_def u fc Let_def file_size_def) (simp add: r1_def)
  next
    case False
    then have "file_count r i = 0" by (simp add: fc word_gt_0)
    moreover have "r1\<lparr>pr_sourceblocks := pre @ replicate m datablock_new\<rparr> = r1" using assms(3) [symmetric] by (simp add: r1_def)
    ultimately show ?thesis using False by (simp add: sf_set_blocks_def u) (simp add: r1_def)
  qed
qed

definition total_blocks :: "repairer \<Rightarrow> nat option list \<Rightarrow> nat" where
  "total_blocks r files = sum_list (map (\<lambda>f. case f of None \<Rightarrow> 0 | Some i \<Rightarrow> file_count r i) files)"

lemma layout_cong:
  assumes "file_count r1 = file_count r" "file_size r1 = file_size r" "pr_blocksize r1 = pr_blocksize r"
  shows "total_blocks r1 files = total_blocks r files" "layout r1 files = layout r files"
  unfolding total_blocks_def layout_def assms by (rule refl)+

text \<open>The loop of \<^verbatim>\<open>AllocateSourceBlocks\<close>, from any place in the vectors on.\<close>

lemma allocate_files:
  assumes "files_ok r files" "pr_sourceblocks r = pre @ replicate m datablock_new" "total_blocks r files \<le> m"
  shows "\<exists>bn' files'. for_each (allocate_file (pr_blocksize r)) files (bn, length pre, r) =
      Some (bn', length pre + total_blocks r files,
        r\<lparr>pr_files := files', pr_sourceblocks := pre @ layout r files @ replicate (m - total_blocks r files) datablock_new\<rparr>) \<and>
    length files' = length (pr_files r) \<and> (\<forall>i. same_but_blocks (pr_files r ! i) (files' ! i)) \<and>
    (\<forall>i. Some i \<notin> set files \<longrightarrow> files' ! i = pr_files r ! i) \<and>
    (\<forall>(i, p)\<in>set (file_starts (file_count r) (length pre) files). sf_sourceblocks (files' ! i) = Some p \<and> sf_targetblocks (files' ! i) = Some p)"
  using assms
proof (induction files arbitrary: r pre m bn)
  case Nil
  have "r\<lparr>pr_files := pr_files r, pr_sourceblocks := pre @ replicate m datablock_new\<rparr> = r" using Nil(2) [symmetric] by simp
  then show ?case by (intro exI [of _ bn] exI [of _ "pr_files r"]) (simp add: total_blocks_def layout_def)
next
  case (Cons f files)
  show ?case
  proof (cases f)
    case None
    then have "files_ok r files" "total_blocks r files \<le> m" using Cons.prems by (simp_all add: files_ok_def total_blocks_def)
    from Cons.IH [OF this(1) Cons.prems(2) this(2), of bn] show ?thesis
      by (simp add: None allocate_file_def total_blocks_def layout_def)
  next
    case (Some i)
    let ?n = "file_count r i" and ?sf = "(pr_files r ! i)\<lparr>sf_firstblocknumber := bn, sf_sourceblocks := Some (length pre), sf_targetblocks := Some (length pre)\<rparr>"
    have i: "i < length (pr_files r)" "0 < ?n \<longrightarrow> sf_description (pr_files r ! i) \<noteq> None" "Some i \<notin> set files"
      using Cons.prems(1) by (auto simp: files_ok_def Some)
    have tot: "total_blocks r (f # files) = ?n + total_blocks r files" by (simp add: total_blocks_def Some)
    then have le: "?n \<le> m" "total_blocks r files \<le> m - ?n" using Cons.prems(3) by simp_all
    define r1 where "r1 = r\<lparr>pr_files := (pr_files r)[i := ?sf],
      pr_sourceblocks := pre @ map (fresh_block (pr_blocksize r) (file_size r i)) [0..<?n] @ replicate (m - ?n) datablock_new\<rparr>"
    let ?pre1 = "pre @ map (fresh_block (pr_blocksize r) (file_size r i)) [0..<?n]"
    have a: "allocate_file (pr_blocksize r) f (bn, length pre, r) = Some (bn + 1, length ?pre1, r1)"
      using set_blocks_rule [OF i(1,2) Cons.prems(2) le(1) refl]
      by (simp add: allocate_file_def Some r1_def) (simp add: file_count_def)
    have same1: "same_but_blocks (pr_files r ! j) (pr_files r1 ! j)" for j
    proof (cases "j = i")
      case True
      then show ?thesis using i(1) unfolding same_but_blocks_def r1_def by (intro exI) simp
    qed (simp add: r1_def)
    have cnt: "file_count r1 j = file_count r j" "file_size r1 j = file_size r j" for j
      using same_but_blocks_fields [OF same1 [of j]] by (simp_all add: file_count_def file_size_def)
    have "files_ok r1 files"
      using Cons.prems(1) same_but_blocks_fields [OF same1] by (auto simp: files_ok_def Some cnt r1_def file_count_def)
    moreover have "pr_sourceblocks r1 = ?pre1 @ replicate (m - ?n) datablock_new" by (simp add: r1_def)
    moreover have tb: "total_blocks r1 files = total_blocks r files" "layout r1 files = layout r files" "pr_blocksize r1 = pr_blocksize r"
      by (intro layout_cong ext cnt; simp add: r1_def)+ (simp add: r1_def)
    ultimately obtain bn' files' where e: "for_each (allocate_file (pr_blocksize r)) files (bn + 1, length ?pre1, r1) =
        Some (bn', length ?pre1 + total_blocks r files,
          r1\<lparr>pr_files := files', pr_sourceblocks := ?pre1 @ layout r files @ replicate (m - ?n - total_blocks r files) datablock_new\<rparr>)"
      "length files' = length (pr_files r1)" "\<forall>i. same_but_blocks (pr_files r1 ! i) (files' ! i)"
      "\<forall>i. Some i \<notin> set files \<longrightarrow> files' ! i = pr_files r1 ! i"
      "\<forall>(i, p)\<in>set (file_starts (file_count r1) (length ?pre1) files). sf_sourceblocks (files' ! i) = Some p \<and> sf_targetblocks (files' ! i) = Some p"
      using Cons.IH [of r1 ?pre1 "m - ?n" "bn + 1"] le(2) by auto
    have i': "files' ! i = ?sf" using e(4) i(1,3) by (simp add: r1_def)
    have fc: "file_count r1 = file_count r" by (rule ext) (rule cnt)
    show ?thesis
    proof (intro exI conjI)
      show "for_each (allocate_file (pr_blocksize r)) (f # files) (bn, length pre, r) =
          Some (bn', length pre + total_blocks r (f # files),
            r\<lparr>pr_files := files', pr_sourceblocks := pre @ layout r (f # files) @ replicate (m - total_blocks r (f # files)) datablock_new\<rparr>)"
        using a e(1) by (simp add: tot add.assoc) (simp add: r1_def layout_def Some)
      show "length files' = length (pr_files r)" using e(2) by (simp add: r1_def)
      show "\<forall>j. same_but_blocks (pr_files r ! j) (files' ! j)" using same1 e(3) same_but_blocks_trans by blast
      show "\<forall>j. Some j \<notin> set (f # files) \<longrightarrow> files' ! j = pr_files r ! j" using e(4) by (auto simp: Some r1_def)
      show "\<forall>(i, p)\<in>set (file_starts (file_count r) (length pre) (f # files)). sf_sourceblocks (files' ! i) = Some p \<and> sf_targetblocks (files' ! i) = Some p"
        using e(5) i' by (simp add: Some fc)
    qed
  qed
qed

lemma count_blocks_total:
  assumes "total_blocks r files < 2 ^ 32"
  shows "unat (count_blocks r files) = total_blocks r files"
  using assms
proof (induction files)
  case (Cons f files)
  have "total_blocks r files < 2 ^ 32" using Cons.prems by (simp add: total_blocks_def)
  with Cons show ?case
    by (auto simp: count_blocks_def total_blocks_def file_count_def unat_word_ariths split: option.splits)
qed (simp add: count_blocks_def total_blocks_def)

lemma allocate_source_blocks_rule:
  assumes "pr_mainpacket r = Some mp" "pr_sourceblocks r = []" "files_ok r (recoverable_files mp r)"
    and "total_blocks r (recoverable_files mp r) < 2 ^ 32"
  shows "\<exists>r'. allocate_source_blocks r = Some r' \<and> unat (pr_sourceblockcount r') = total_blocks r (recoverable_files mp r) \<and>
    pr_sourceblocks r' = layout r (recoverable_files mp r) \<and> length (pr_files r') = length (pr_files r) \<and>
    (pr_blocksallocated r' \<longleftrightarrow> pr_blocksallocated r \<or> 0 < total_blocks r (recoverable_files mp r)) \<and>
    (\<forall>i. same_but_blocks (pr_files r ! i) (pr_files r' ! i)) \<and>
    (0 < total_blocks r (recoverable_files mp r) \<longrightarrow>
      (\<forall>(i, p)\<in>set (file_starts (file_count r) 0 (recoverable_files mp r)). sf_sourceblocks (pr_files r' ! i) = Some p))"
proof -
  let ?files = "recoverable_files mp r" and ?n = "count_blocks r (recoverable_files mp r)"
  have n: "unat ?n = total_blocks r ?files" by (rule count_blocks_total [OF assms(4)])
  show ?thesis
  proof (cases "?n > 0")
    case False
    then have z: "total_blocks r ?files = 0" using n by (simp add: word_gt_0)
    then have "layout r ?files = []" by (auto simp: layout_def total_blocks_def split: option.splits)
    then show ?thesis using False assms(1,2) z n by (simp add: allocate_source_blocks_def Let_def)
  next
    case True
    define r1 where "r1 = r\<lparr>pr_sourceblockcount := ?n, pr_sourceblocks := replicate (unat ?n) datablock_new,
      pr_targetblocks := resize (unat ?n) (pr_targetblocks r)\<rparr>"
    have fields: "file_count r1 = file_count r" "file_size r1 = file_size r" "pr_blocksize r1 = pr_blocksize r" "pr_files r1 = pr_files r"
      by (simp_all add: file_count_def file_size_def r1_def fun_eq_iff)
    have fok: "files_ok r1 ?files = files_ok r ?files" by (simp add: files_ok_def fields)
    note same = fok layout_cong [OF fields(1-3)] fields
    have "pr_sourceblocks r1 = [] @ replicate (unat ?n) datablock_new" by (simp add: r1_def)
    from allocate_files [OF _ this, of ?files 0] obtain bn' files' where a:
      "for_each (allocate_file (pr_blocksize r)) ?files (0, 0, r1) = Some (bn', total_blocks r ?files,
        r1\<lparr>pr_files := files', pr_sourceblocks := layout r ?files\<rparr>)"
      "length files' = length (pr_files r)" "\<forall>i. same_but_blocks (pr_files r ! i) (files' ! i)"
      "\<forall>(i, p)\<in>set (file_starts (file_count r) 0 ?files). sf_sourceblocks (files' ! i) = Some p \<and> sf_targetblocks (files' ! i) = Some p"
      using assms(3) n unfolding same by auto
    have "allocate_source_blocks r = Some (r1\<lparr>pr_files := files', pr_sourceblocks := layout r ?files, pr_blocksallocated := True\<rparr>)"
      using a(1) True assms(1,2) by (simp add: allocate_source_blocks_def Let_def resize_def r1_def)
    moreover have "0 < total_blocks r ?files" using True n by (metis unat_gt_0 word_gt_0)
    ultimately show ?thesis using a(2-4) n by (simp add: r1_def) blast
  qed
qed

lemma layout_nth:
  "(i, p) \<in> set (file_starts (file_count r) pos files) \<Longrightarrow> k < file_count r i \<Longrightarrow>
    pos \<le> p \<and> p + k < pos + total_blocks r files \<and>
    layout r files ! (p + k - pos) = fresh_block (pr_blocksize r) (file_size r i) k"
proof (induction files arbitrary: pos)
  case (Cons f files)
  show ?case
  proof (cases f)
    case None
    then show ?thesis using Cons by (simp add: total_blocks_def layout_def)
  next
    case (Some j)
    have lay: "layout r (f # files) = map (fresh_block (pr_blocksize r) (file_size r j)) [0..<file_count r j] @ layout r files"
      by (simp add: layout_def Some)
    have tot: "total_blocks r (f # files) = file_count r j + total_blocks r files" by (simp add: total_blocks_def Some)
    consider "(i, p) = (j, pos)" | "(i, p) \<in> set (file_starts (file_count r) (pos + file_count r j) files)"
      using Cons.prems(1) by (auto simp: Some)
    then show ?thesis
    proof cases
      case 1
      then show ?thesis using Cons.prems(2) by (simp add: lay tot nth_append)
    next
      case 2
      note ih = Cons.IH [OF 2 Cons.prems(2)]
      then have q: "p + k - pos = file_count r j + (p + k - (pos + file_count r j))" by simp
      have "layout r (f # files) ! (p + k - pos) = layout r files ! (p + k - (pos + file_count r j))"
        unfolding q lay by (simp add: nth_append)
      then show ?thesis using ih by (simp add: tot)
    qed
  qed
qed simp

text \<open>C15: \<^verbatim>\<open>AllocateSourceBlocks\<close> gives the recoverable files consecutive runs of blocks, without gap or overlap and as many
  in all as it counted: block \<open>k\<close> of a file is at the start of its run plus \<open>k\<close> and has the length of that part
  of the file, so the lengths add up to the size of the file. It writes to no block outside the vector.\<close>

theorem allocate_source_blocks_partition:
  assumes "pr_mainpacket r = Some mp" "pr_sourceblocks r = []" "files_ok r (recoverable_files mp r)"
    and "total_blocks r (recoverable_files mp r) < 2 ^ 32"
  shows "\<exists>r'. allocate_source_blocks r = Some r' \<and> unat (pr_sourceblockcount r') = total_blocks r (recoverable_files mp r) \<and>
    length (pr_sourceblocks r') = total_blocks r (recoverable_files mp r) \<and> (\<forall>i. same_but_blocks (pr_files r ! i) (pr_files r' ! i)) \<and>
    (\<forall>(i, p)\<in>set (file_starts (file_count r) 0 (recoverable_files mp r)). 0 < file_count r i \<longrightarrow>
       sf_sourceblocks (pr_files r' ! i) = Some p \<and>
       (\<forall>k<file_count r i. pr_sourceblocks r' ! (p + k) = fresh_block (pr_blocksize r) (file_size r i) k) \<and>
       (0 < pr_blocksize r \<and> unat (file_size r i) + unat (pr_blocksize r) < 2 ^ 64 \<and>
          file_count r i = (unat (file_size r i) + unat (pr_blocksize r) - 1) div unat (pr_blocksize r) \<longrightarrow>
        (\<Sum>k\<leftarrow>[0..<file_count r i]. unat (db_length (pr_sourceblocks r' ! (p + k)))) = unat (file_size r i)))"
proof -
  let ?files = "recoverable_files mp r"
  obtain r' where r': "allocate_source_blocks r = Some r'" "unat (pr_sourceblockcount r') = total_blocks r ?files"
    "pr_sourceblocks r' = layout r ?files" "\<forall>i. same_but_blocks (pr_files r ! i) (pr_files r' ! i)"
    "0 < total_blocks r ?files \<longrightarrow> (\<forall>(i, p)\<in>set (file_starts (file_count r) 0 ?files). sf_sourceblocks (pr_files r' ! i) = Some p)"
    using allocate_source_blocks_rule [OF assms] by (elim exE conjE) (rule that; assumption)
  have len: "length (layout r ?files) = total_blocks r ?files"
    unfolding layout_def total_blocks_def length_concat map_map comp_def by (rule arg_cong [of _ _ sum_list]) (auto split: option.split)
  have "sf_sourceblocks (pr_files r' ! i) = Some p \<and>
      (\<forall>k<file_count r i. pr_sourceblocks r' ! (p + k) = fresh_block (pr_blocksize r) (file_size r i) k) \<and>
      (0 < pr_blocksize r \<and> unat (file_size r i) + unat (pr_blocksize r) < 2 ^ 64 \<and>
         file_count r i = (unat (file_size r i) + unat (pr_blocksize r) - 1) div unat (pr_blocksize r) \<longrightarrow>
       (\<Sum>k\<leftarrow>[0..<file_count r i]. unat (db_length (pr_sourceblocks r' ! (p + k)))) = unat (file_size r i))"
    if ip: "(i, p) \<in> set (file_starts (file_count r) 0 ?files)" and c: "0 < file_count r i" for i p
  proof -
    have "0 < total_blocks r ?files" using layout_nth [OF ip c] by simp
    then have sb: "sf_sourceblocks (pr_files r' ! i) = Some p" using r'(5) ip by blast
    have blocks: "\<forall>k<file_count r i. pr_sourceblocks r' ! (p + k) = fresh_block (pr_blocksize r) (file_size r i) k"
      using layout_nth [OF ip] r'(3) by auto
    then have m: "map (\<lambda>k. unat (db_length (pr_sourceblocks r' ! (p + k)))) [0..<file_count r i] =
        map (\<lambda>k. unat (db_length (fresh_block (pr_blocksize r) (file_size r i) k))) [0..<file_count r i]"
      by (intro map_cong) simp_all
    show ?thesis
    proof (intro conjI impI sb blocks, unfold m, elim conjE)
      assume "0 < pr_blocksize r" "unat (file_size r i) + unat (pr_blocksize r) < 2 ^ 64"
        "file_count r i = (unat (file_size r i) + unat (pr_blocksize r) - 1) div unat (pr_blocksize r)"
      then show "(\<Sum>k\<leftarrow>[0..<file_count r i]. unat (db_length (fresh_block (pr_blocksize r) (file_size r i) k))) = unat (file_size r i)"
        by (rule fresh_lengths(1))
    qed
  qed
  then show ?thesis using r' len by (intro exI [of _ r']) auto
qed

definition ex_description :: critical_packet where
  "ex_description = \<lparr>cp_data = replicate 112 0 @ [5, 0, 0, 0, 0, 0, 0, 0], cp_length = 120\<rparr>"

definition ex_main :: main_packet where
  "ex_main = \<lparr>mp_packet = ex_description, mp_blocksize = 4, mp_totalfilecount = 1, mp_recoverablefilecount = 1\<rparr>"

definition ex_repairer :: repairer where
  "ex_repairer = repairer_new\<lparr>pr_mainpacket := Some ex_main, pr_blocksize := 4, pr_sourcefiles := [Some 0],
     pr_files := [sf_set_block_count 4 (source_file_new (Some ex_description) None)]\<rparr>"

lemma ex_repairer_props:
  "pr_mainpacket ex_repairer = Some ex_main" "pr_sourceblocks ex_repairer = []" "pr_blocksize ex_repairer = 4"
  "recoverable_files ex_main ex_repairer = [Some 0]" "file_count ex_repairer 0 = 2" "file_size ex_repairer 0 = 5"
proof -
  have s: "dp_filesize ex_description = 5" by code_simp
  then show "file_count ex_repairer 0 = 2" "file_size ex_repairer 0 = 5"
    by (simp_all add: file_count_def file_size_def ex_repairer_def sf_set_block_count_def source_file_new_def)
qed (simp_all add: ex_repairer_def repairer_new_def recoverable_files_def ex_main_def)

theorem allocate_source_blocks_partition_witness:
  "\<exists>r'. allocate_source_blocks ex_repairer = Some r' \<and> length (pr_sourceblocks r') = 2 \<and>
     (\<Sum>k\<leftarrow>[0..<2]. unat (db_length (pr_sourceblocks r' ! (0 + k)))) = 5"
proof -
  have "files_ok ex_repairer (recoverable_files ex_main ex_repairer)"
    by (simp add: files_ok_def ex_repairer_props) (simp add: ex_repairer_def sf_set_block_count_def source_file_new_def)
  moreover have "total_blocks ex_repairer (recoverable_files ex_main ex_repairer) = 2" by (simp add: total_blocks_def ex_repairer_props)
  ultimately obtain r' where r': "allocate_source_blocks ex_repairer = Some r'" "length (pr_sourceblocks r') = 2"
    "\<forall>(i, p)\<in>set (file_starts (file_count ex_repairer) 0 [Some 0]). 0 < file_count ex_repairer i \<longrightarrow>
       sf_sourceblocks (pr_files r' ! i) = Some p \<and>
       (\<forall>k<file_count ex_repairer i. pr_sourceblocks r' ! (p + k) = fresh_block 4 (file_size ex_repairer i) k) \<and>
       (0 < (4 :: u64) \<and> unat (file_size ex_repairer i) + unat (4 :: u64) < 2 ^ 64 \<and>
          file_count ex_repairer i = (unat (file_size ex_repairer i) + unat (4 :: u64) - 1) div unat (4 :: u64) \<longrightarrow>
        (\<Sum>k\<leftarrow>[0..<file_count ex_repairer i]. unat (db_length (pr_sourceblocks r' ! (p + k)))) = unat (file_size ex_repairer i))"
    using allocate_source_blocks_partition [of ex_repairer ex_main] by (simp add: ex_repairer_props) blast
  then have "(\<Sum>k\<leftarrow>[0..<2]. unat (db_length (pr_sourceblocks r' ! (0 + k)))) = 5" by (simp add: ex_repairer_props)
  then show ?thesis using r' by blast
qed

section \<open>The table\<close>

text \<open>What \<^verbatim>\<open>PrepareVerificationHashTable\<close> loads: a file, the start of its blocks and its verification entries.\<close>

definition file_loads :: "repairer \<Rightarrow> nat option list \<Rightarrow> (nat \<times> nat \<times> (bytes \<times> u32) list) list" where
  "file_loads r files = concat (map (\<lambda>f. case f of None \<Rightarrow> [] | Some i \<Rightarrow>
     (case sf_verification (pr_files r ! i) of None \<Rightarrow> []
      | Some vp \<Rightarrow> [(i, the (sf_sourceblocks (pr_files r ! i)), vp_entries vp)])) files)"

definition blocks_known :: "repairer \<Rightarrow> nat option list \<Rightarrow> bool" where
  "blocks_known r files \<longleftrightarrow> (\<forall>i. Some i \<in> set files \<longrightarrow> sf_verification (pr_files r ! i) \<noteq> None \<longrightarrow> sf_sourceblocks (pr_files r ! i) \<noteq> None)"

lemma prepare_files:
  assumes "blocks_known r files"
  shows "\<exists>u. for_each prepare_file files r =
    Some (r\<lparr>pr_table := vt_loads (file_loads r files) (pr_table r), pr_blockverifiable := (pr_blockverifiable r \<or> file_loads r files \<noteq> []),
      pr_unverifiable := u\<rparr>)"
  using assms
proof (induction files arbitrary: r)
  case Nil
  then show ?case by (intro exI [of _ "pr_unverifiable r"]) (simp add: file_loads_def vt_loads_def)
next
  case (Cons f files)
  have known: "blocks_known r' files" if "pr_files r' = pr_files r" for r' using Cons.prems that by (simp add: blocks_known_def)
  have loads: "file_loads r' files = file_loads r files" if "pr_files r' = pr_files r" for r'
    unfolding file_loads_def that by (rule refl)
  consider "f = None" | i where "f = Some i" "sf_verification (pr_files r ! i) = None"
    | i vp b where "f = Some i" "sf_verification (pr_files r ! i) = Some vp" "sf_sourceblocks (pr_files r ! i) = Some b"
  proof (cases f)
    case (Some i)
    show ?thesis
    proof (cases "sf_verification (pr_files r ! i)")
      case None
      then show ?thesis by (rule that(2) [OF Some])
    next
      case (Some vp)
      then obtain b where "sf_sourceblocks (pr_files r ! i) = Some b" using Cons.prems \<open>f = Some i\<close> by (auto simp: blocks_known_def)
      then show ?thesis by (rule that(3) [OF \<open>f = Some i\<close> Some])
    qed
  qed (rule that(1))
  then show ?case
  proof cases
    case 1
    then have "prepare_file f r = Some r" "file_loads r (f # files) = file_loads r files" by (simp_all add: prepare_file_def file_loads_def)
    then show ?thesis using Cons.IH [OF known [OF refl]] by simp
  next
    case 2
    let ?r = "r\<lparr>pr_unverifiable := pr_unverifiable r @ [i]\<rparr>"
    have f: "file_loads r (f # files) = file_loads r files" by (simp add: file_loads_def 2)
    have "pr_files ?r = pr_files r" by simp
    from Cons.IH [OF known [OF this]] obtain u where "for_each prepare_file files ?r = Some (?r\<lparr>pr_table := vt_loads (file_loads r files) (pr_table r),
        pr_blockverifiable := (pr_blockverifiable r \<or> file_loads r files \<noteq> []), pr_unverifiable := u\<rparr>)"
      using loads [of ?r] by auto
    moreover have "prepare_file f r = Some ?r" by (simp add: prepare_file_def 2)
    ultimately show ?thesis by (intro exI [of _ u]) (simp add: f)
  next
    case 3
    let ?t = "vt_load i b (vp_entries vp) (pr_table r)"
    let ?r = "r\<lparr>pr_table := ?t, pr_blockverifiable := True\<rparr>"
    have f: "file_loads r (f # files) = (i, b, vp_entries vp) # file_loads r files" by (simp add: file_loads_def 3)
    have "pr_files ?r = pr_files r" by simp
    from Cons.IH [OF known [OF this]] obtain u where "for_each prepare_file files ?r = Some (?r\<lparr>pr_table := vt_loads (file_loads r files) ?t,
        pr_blockverifiable := True, pr_unverifiable := u\<rparr>)"
      using loads [of ?r] by auto
    moreover have "prepare_file f r = Some ?r" by (simp add: prepare_file_def 3)
    ultimately show ?thesis by (intro exI [of _ u]) (simp add: f vt_loads_def)
  qed
qed

lemma length_vp_entries: "unat (vp_blockcount vp) * 20 + 80 \<le> length (cp_data (vp_packet vp)) \<Longrightarrow>
    \<forall>(hash, crc)\<in>set (vp_entries vp). length hash = 16"
  by (auto simp: vp_entries_def vp_entry_def field_def)

end
