(* ===== verification/ScanData_Correct.thy ===== *)
theory ScanData_Correct
  imports Scan_Disk RepairSetup_Correct Packets_Correct
begin

unbundle bit_operations_syntax

text \<open>
  The scan of a data file: it ends, and what it records is true. Each block it places in the file has
  the verification hash of the data at that place, and a file it calls a full match has the size and the
  hashes of the source file.
\<close>

section \<open>Small facts\<close>

lemma cs_scans_step:
  assumes "cs_scans fs content fresh c0 c"
  shows "cs_step fs c = Some (True, c') \<Longrightarrow> cs_scans fs content fresh c0 c'"
    and "cs_jump d fs c = Some (True, c') \<Longrightarrow> cs_scans fs content fresh c0 c'"
  using assms by (auto simp: cs_scans_def intro: cs_reach.step cs_reach.jump)

lemma cs_jump_at_most: "cs_jump d fs c = Some (False, c') \<Longrightarrow> cs_inv fs content c \<Longrightarrow> cs_off c < length content \<Longrightarrow> d = 0 \<and> c' = c"
  using cs_jump_inv [of fs content c d] cs_jump_zero [of fs c] by (cases "d = 0") auto

lemma cs_inv_hash:
  assumes "cs_inv fs content c" "cs_off c < length content"
  shows "cs_hash c = md5 (cs_window c)" "cs_checksum c = NOT (crc_update_block (NOT 0) (cs_window c))" "length (cs_window c) = cs_bs c"
    "take (length content - cs_off c) (cs_window c) = take (cs_bs c) (drop (cs_off c) content)"
proof -
  have k: "cs_checked c" and s: "cs_sized fs content c" using assms by (simp_all add: cs_inv_def)
  obtain base where p: "cs_placed base content c" using assms by (auto simp: cs_inv_def)
  have "ms_absorbs md5_single_new []" by (simp add: md5_single_new_def ms_absorbs_def md5_chunks_short)
  from md5_end_absorbs [OF md5_update_absorbs [OF this, of "cs_window c"]]
  have "md5_end (md5_update (cs_window c) md5_single_new) = md5 (cs_window c)" by simp
  then show "cs_hash c = md5 (cs_window c)" using k by (simp add: cs_hash_def cs_checked_def cs_window_def)
  show "cs_checksum c = NOT (crc_update_block (NOT 0) (cs_window c))" using k by (simp add: cs_checked_def)
  have "length (cs_buffer c) = 2 * cs_bs c" "cs_outpointer c < cs_bs c" using s p by (simp_all add: cs_sized_def cs_placed_def)
  then show lw: "length (cs_window c) = cs_bs c" by (simp add: cs_window_def)
  let ?n = "min (cs_bs c) (length content - cs_off c)"
  have "take ?n (drop (cs_outpointer c) (cs_buffer c)) = take ?n (drop (cs_off c) content)"
    using cs_inv_window(1) [OF assms(1), of ?n] assms(2) by simp
  then show "take (length content - cs_off c) (cs_window c) = take (cs_bs c) (drop (cs_off c) content)"
    by (simp add: cs_window_def min_def split: if_splits)
qed

text \<open>The hash of a short block, whatever the buffer holds.\<close>

lemma cs_short_hash_buffer:
  assumes "cs_inv fs content c" "cs_off c < length content" "unat n \<le> cs_bs c"
  shows "cs_short_hash n c = md5 (padded (cs_bs c) (take (unat n) (cs_window c)))"
    and "cs_short_checksum n c = NOT (crc_update_block (NOT 0) (padded (cs_bs c) (take (unat n) (cs_window c))))"
proof -
  let ?w = "take (unat n) (cs_window c)" and ?buf = "drop (cs_outpointer c) (cs_buffer c)"
  have w: "take (unat n) ?buf = ?w" using assms(3) by (simp add: cs_window_def min_def)
  have lw: "length ?w = unat n" using cs_inv_hash(3) [OF assms(1,2)] assms(3) by simp
  then have lb: "unat n \<le> length ?buf" using w by (metis length_take min.cobounded1)
  have pad: "padded (cs_bs c) ?w = ?w @ replicate (cs_bs c - unat n) 0" using assms(3) lw by (simp add: padded_def)
  have "ms_absorbs md5_single_new []" by (simp add: md5_single_new_def ms_absorbs_def md5_chunks_short)
  then have m: "ms_absorbs (md5_update ?w md5_single_new) ?w" using md5_update_absorbs [of md5_single_new "[]" ?w] by simp
  have c: "crc32_calc ?buf (unat n) = NOT (crc_update_block (NOT 0) ?w)" using crc32_calc_bytes [OF lb] w by simp
  have "cs_short_hash n c = md5 (padded (cs_bs c) ?w) \<and>
    cs_short_checksum n c = NOT (crc_update_block (NOT 0) (padded (cs_bs c) ?w))"
  proof (cases "cs_blocksize c > n")
    case True
    have z: "unat (cs_blocksize c - n) = cs_bs c - unat n" using True by (simp add: unat_sub)
    have "md5_end (md5_update_zero (cs_bs c - unat n) (md5_update ?w md5_single_new)) = md5 (padded (cs_bs c) ?w)"
      unfolding md5_update_zero_eq pad by (rule md5_end_absorbs [OF md5_update_absorbs [OF m]])
    moreover have "NOT (crc_update_zeros (crc_update_block (NOT 0) ?w) (cs_blocksize c - n)) =
        NOT (crc_update_block (NOT 0) (padded (cs_bs c) ?w))"
      by (simp only: crc_update_zeros_eq z pad crc_update_block_append)
    ultimately show ?thesis using True c w z by (simp add: cs_short_checksum_def cs_short_hash_def Let_def)
  next
    case False
    then have "cs_bs c = unat n" using assms(3) by (simp add: word_less_nat_alt)
    then have "padded (cs_bs c) ?w = ?w" using pad by simp
    then show ?thesis
      using False c w md5_end_absorbs [OF m] by (simp add: cs_short_checksum_def cs_short_hash_def Let_def)
  qed
  then show "cs_short_hash n c = md5 (padded (cs_bs c) ?w)"
    "cs_short_checksum n c = NOT (crc_update_block (NOT 0) (padded (cs_bs c) ?w))" by simp_all
qed

section \<open>What a scan records\<close>

text \<open>
  The data at an offset has a hash: it is the MD5 of a block of \<open>len\<close> bytes, padded with zeros, that
  agrees with the file as far as the file goes.
\<close>

definition seen_at :: "bytes \<Rightarrow> nat \<Rightarrow> nat \<Rightarrow> nat \<Rightarrow> bytes \<Rightarrow> bool" where
  "seen_at content bs off len hash \<longleftrightarrow>
     (\<exists>u. length u = len \<and> take (length content - off) u = take len (drop off content) \<and> hash = md5 (padded bs u))"

lemma seen_at_inside: "seen_at content bs off len hash \<Longrightarrow> off + len \<le> length content \<Longrightarrow> hash = md5 (padded bs (take len (drop off content)))"
  by (auto simp: seen_at_def)

definition found_at :: "vtable \<Rightarrow> bytes \<Rightarrow> nat \<Rightarrow> nat \<Rightarrow> u64 \<Rightarrow> bool" where
  "found_at t content bs n off \<longleftrightarrow> unat off < length content \<and>
     (\<exists>e\<in>set (vt_entries t). ve_datablock e = n \<and> (\<exists>len. 0 < len \<and> len \<le> bs \<and> seen_at content bs (unat off) len (ve_hash e)))"

text \<open>The blocks after a scan: a block is where it was, or at a place of the scanned file where it was found.\<close>

definition blocks_placed :: "nat \<Rightarrow> (nat \<Rightarrow> u64 \<Rightarrow> bool) \<Rightarrow> datablock list \<Rightarrow> datablock list \<Rightarrow> bool" where
  "blocks_placed diskfile found old new \<longleftrightarrow> length new = length old \<and>
     (\<forall>n<length old. new ! n = old ! n \<or> (\<exists>off. found n off \<and> new ! n = db_set_location (Some diskfile) off (old ! n)))"

lemma blocks_placed_refl [simp]: "blocks_placed p found bs bs"
  by (simp add: blocks_placed_def)

lemma blocks_placed_length: "blocks_placed p found old new \<Longrightarrow> n < length old \<Longrightarrow> db_length (new ! n) = db_length (old ! n)"
  by (auto simp: blocks_placed_def db_set_location_def)

lemma blocks_placed_set:
  assumes "blocks_placed p found old new" "found n off" "n < length old"
  shows "blocks_placed p found old (new[n := db_set_location (Some p) off (new ! n)])"
proof -
  have "db_set_location (Some p) off (new ! n) = db_set_location (Some p) off (old ! n)"
    using assms by (auto simp: blocks_placed_def db_set_location_def)
  then show ?thesis using assms by (auto simp: blocks_placed_def nth_list_update)
qed

text \<open>The table a scan needs: well-formed, the links in range, the blocks existing and not empty.\<close>

definition table_ready :: "repairer \<Rightarrow> bool" where
  "table_ready r \<longleftrightarrow> vt_rep (pr_table r) \<and>
     (\<forall>e\<in>set (vt_entries (pr_table r)).
        (\<forall>m. ve_next e = Some m \<longrightarrow> m < length (vt_entries (pr_table r))) \<and> ve_datablock e < length (pr_sourceblocks r) \<and>
        0 < db_length (pr_sourceblocks r ! ve_datablock e) \<and> db_length (pr_sourceblocks r ! ve_datablock e) \<le> pr_blocksize r)"

definition scan_inv :: "scan_params \<Rightarrow> bytes \<Rightarrow> hasher_input \<Rightarrow> checksummer \<Rightarrow> repairer \<Rightarrow> scan \<Rightarrow> bool" where
  "scan_inv sp content fresh c0 r s \<longleftrightarrow>
     cs_scans (sp_fs sp) content fresh c0 (sn_summer s) \<and> same_source c0 (sn_summer s) \<and> df_filesize (cs_diskfile c0) = cs_filesize c0 \<and>
     (\<exists>blocks. sn_repairer s = r\<lparr>pr_sourceblocks := blocks\<rparr> \<and>
        blocks_placed (sp_diskfile sp) (found_at (pr_table r) content (unat (pr_blocksize r))) (pr_sourceblocks r) blocks) \<and>
     (case sn_next s of None \<Rightarrow> True | Some n \<Rightarrow> n < length (vt_entries (pr_table r)))"

text \<open>What \<^verbatim>\<open>FindMatch\<close> returns on the window was found there.\<close>

lemma find_match_found:
  assumes inv: "cs_inv fs content c" "cs_off c < length content" and t: "table_ready r" and bs: "cs_blocksize c = pr_blocksize r"
    and p: "length blocks = length (pr_sourceblocks r)" "\<And>k. k < length blocks \<Longrightarrow> db_length (blocks ! k) = db_length (pr_sourceblocks r ! k)"
    and s: "case suggested of None \<Rightarrow> True | Some k \<Rightarrow> k < length (vt_entries (pr_table r))"
    and f: "vt_find_match (pr_table r) (scan_context diskfile (r\<lparr>pr_sourceblocks := blocks\<rparr>)) suggested sourcefile c = (Some n, dup)"
  shows "n < length (vt_entries (pr_table r)) \<and>
    found_at (pr_table r) content (unat (pr_blocksize r)) (ve_datablock (vt_entries (pr_table r) ! n)) (cs_currentoffset c)"
proof -
  let ?t = "pr_table r" and ?mc = "scan_context diskfile (r\<lparr>pr_sourceblocks := blocks\<rparr>)"
  note h = cs_inv_hash [OF inv]
  have rep: "vt_rep ?t" using t by (simp add: table_ready_def)
  have l16: "length (cs_hash c) = 16" using h(1) by (simp add: length_md5)
  have n: "n < length (vt_entries ?t)"
    and m: "ve_hash (vt_entries ?t ! n) = cs_hash c \<or> short_match ?t ?mc suggested c n"
    using vt_find_match_sound_rule [OF rep l16 s f] by auto
  have b0: "0 < cs_bs c" using inv by (simp add: cs_inv_def cs_sized_def)
  have "\<exists>len. 0 < len \<and> len \<le> cs_bs c \<and> seen_at content (cs_bs c) (cs_off c) len (ve_hash (vt_entries ?t ! n))"
    using m
  proof
    assume "ve_hash (vt_entries ?t ! n) = cs_hash c"
    then show ?thesis
      using h b0 by (intro exI [of _ "cs_bs c"]) (auto simp: seen_at_def padded_def intro!: exI [of _ "cs_window c"])
  next
    assume "short_match ?t ?mc suggested c n"
    then obtain k where k: "suggested = Some k"
      "ve_hash (vt_entries ?t ! n) = cs_short_hash (ve_length ?mc (vt_entries ?t ! k)) c"
      by (auto simp: short_match_def Let_def)
    let ?len = "ve_length ?mc (vt_entries ?t ! k)"
    have "vt_entries ?t ! k \<in> set (vt_entries ?t)" using s k(1) by simp
    then have l: "0 < ?len" "?len \<le> cs_blocksize c"
      using t p bs by (auto simp: table_ready_def ve_length_def scan_context_def)
    then have ll: "0 < unat ?len" "unat ?len \<le> cs_bs c" by (simp_all add: word_less_nat_alt word_le_nat_alt)
    have "ve_hash (vt_entries ?t ! n) = md5 (padded (cs_bs c) (take (unat ?len) (cs_window c)))"
      using cs_short_hash_buffer(1) [OF inv ll(2)] k(2) by simp
    moreover have "take (length content - cs_off c) (take (unat ?len) (cs_window c)) = take (unat ?len) (drop (cs_off c) content)"
      using arg_cong [OF h(4), of "take (unat ?len)"] ll(2) by (simp add: min.commute min_def)
    ultimately show ?thesis using ll h(3)
      by (intro exI [of _ "unat ?len"]) (auto simp: seen_at_def intro!: exI [of _ "take (unat ?len) (cs_window c)"])
  qed
  then show ?thesis using n inv(2) bs nth_mem [OF n] unfolding found_at_def by auto
qed

section \<open>A round of the scan\<close>

lemma sn_update_collapse [simp]:
  "sn_repairer (s\<lparr>sn_repairer := r\<rparr>) = r" "(s\<lparr>sn_next := a\<rparr>)\<lparr>sn_next := b\<rparr> = s\<lparr>sn_next := b\<rparr>"
  by simp_all

text \<open>A round leaves the loop for a reason or gets further.\<close>

definition round_ok :: "scan_params \<Rightarrow> bytes \<Rightarrow> hasher_input \<Rightarrow> checksummer \<Rightarrow> repairer \<Rightarrow> scan \<Rightarrow> (scan_end \<times> scan) + scan \<Rightarrow> bool" where
  "round_ok sp content fresh c0 r s res \<longleftrightarrow>
     (case res of Inl (leave, s') \<Rightarrow> leave = ScanEarly \<and> sp_renameonly sp \<and> sn_match s' = PartialMatch \<and> scan_inv sp content fresh c0 r s'
      | Inr s' \<Rightarrow> scan_inv sp content fresh c0 r s' \<and> cs_off (sn_summer s) < cs_off (sn_summer s'))"

lemma scan_live:
  assumes "cs_scans fs content fresh c0 c" "same_source c0 c" "df_filesize (cs_diskfile c0) = cs_filesize c0"
  shows "(cs_currentoffset c < df_filesize (cs_diskfile c)) = (cs_off c < length content)"
proof -
  have "df_filesize (cs_diskfile c) = cs_filesize c" using assms(2,3) by (simp add: same_source_def same_disk_def)
  moreover have "unat (cs_filesize c) = length content" using cs_scans_inv [OF assms(1)] by (simp add: cs_inv_def cs_sized_def)
  ultimately show ?thesis by (simp add: word_less_nat_alt)
qed

lemma jump_ok:
  assumes "cs_scans fs content fresh c0 c" "same_source c0 c" "cs_off c < length content" "d \<noteq> 0"
  obtains c' where "cs_jump d fs c = Some (True, c')" "cs_scans fs content fresh c0 c'" "same_source c0 c'" "cs_off c < cs_off c'"
proof -
  have inv: "cs_inv fs content c" by (rule cs_scans_inv [OF assms(1)])
  then have "0 < cs_bs c" by (simp add: cs_inv_def cs_sized_def)
  moreover have "0 < unat d" using assms(4) by (simp add: unat_gt_0)
  ultimately obtain c' where c': "cs_jump d fs c = Some (True, c')" "cs_off c < cs_off c'"
    using cs_jump_inv [OF inv assms(3,4)] assms(3) by auto
  show ?thesis
    by (rule that [OF c'(1) cs_scans_step(2) [OF assms(1) c'(1)] same_source_trans [OF assms(2) cs_jump_same [OF c'(1)]] c'(2)])
qed

lemma scan_missed_ok:
  assumes i: "scan_inv sp content fresh c0 r s" and live: "cs_off (sn_summer s) < length content"
  shows "\<exists>res. scan_missed sp s = Some res \<and> round_ok sp content fresh c0 r s res"
proof (cases "sp_renameonly sp")
  case True
  then show ?thesis using i by (auto simp: scan_missed_def Let_def round_ok_def scan_inv_def)
next
  case False
  let ?c = "sn_summer s"
  have c: "cs_scans (sp_fs sp) content fresh c0 ?c" "same_source c0 ?c" using i by (simp_all add: scan_inv_def)
  obtain c1 where c1: "cs_step (sp_fs sp) ?c = Some (True, c1)" "cs_off c1 = cs_off ?c + 1"
    using cs_step_inv [OF cs_scans_inv [OF c(1)] live] by blast
  note s1 = cs_scans_step(1) [OF c(1) c1(1)] same_source_trans [OF c(2) cs_step_same [OF c1(1)]]
  define s2 where "s2 = s\<lparr>sn_match := PartialMatch, sn_next := None, sn_summer := c1\<rparr>"
  have m: "scan_missed sp s = scan_skip sp s2" using False c1(1) by (simp add: scan_missed_def Let_def s2_def)
  have i2: "scan_inv sp content fresh c0 r (s2\<lparr>sn_scanoffset := k\<rparr>)" "scan_inv sp content fresh c0 r s2" for k
    using i s1 by (auto simp: scan_inv_def s2_def)
  show ?thesis
  proof (cases "sp_scanskip sp > 0 \<and> sn_scanoffset s2 + 1 \<ge> sp_scandistance sp \<and> cs_currentoffset c1 < df_filesize (cs_diskfile c1)")
    case False
    then have "scan_skip sp s2 = Some (Inr (if sp_scanskip sp > 0 then s2\<lparr>sn_scanoffset := sn_scanoffset s2 + 1\<rparr> else s2))"
      by (auto simp: scan_skip_def Let_def s2_def)
    then show ?thesis unfolding m using i2 c1(2) by (auto simp: round_ok_def s2_def)
  next
    case True
    then have l1: "cs_off c1 < length content" using scan_live [OF s1] i by (simp add: scan_inv_def)
    have "sp_scanskip sp \<noteq> 0" using True by auto
    with jump_ok [OF s1 l1] obtain c2 where c2: "cs_jump (sp_scanskip sp) (sp_fs sp) c1 = Some (True, c2)"
      "cs_scans (sp_fs sp) content fresh c0 c2" "same_source c0 c2" "cs_off c1 < cs_off c2" by metis
    then have "scan_skip sp s2 = Some (Inr (s2\<lparr>sn_scanoffset := 0, sn_summer := c2\<rparr>))"
      using True by (simp add: scan_skip_def Let_def s2_def)
    then show ?thesis unfolding m using i c1(2) c2 by (auto simp: round_ok_def s2_def scan_inv_def)
  qed
qed

lemma scan_found_eq:
  assumes "e = vt_entries (pr_table (sn_repairer s)) ! n" "c = sn_summer s"
    and "partial = (if sn_count s = 0 then \<not> ve_firstblock e \<or> cs_currentoffset c \<noteq> 0 else Some n \<noteq> sn_next s)"
    and "s1 = (if sn_count s = 0 then s\<lparr>sn_sourcefile := Some (ve_sourcefile e)\<rparr> else s)"
    and "s2 = (if partial then s1\<lparr>sn_match := PartialMatch\<rparr> else s1)"
    and "r1 = (if pr_blocksallocated (sn_repairer s) then set_block (sp_diskfile sp) (cs_currentoffset c) (ve_datablock e) (sn_repairer s) else sn_repairer s)"
    and "s3 = s2\<lparr>sn_repairer := r1, sn_count := sn_count s2 + 1, sn_next := ve_next e\<rparr>"
  shows "scan_found sp n s =
      (if partial \<and> sp_renameonly sp then Some (Inl (ScanEarly, s2))
       else case cs_jump (db_length (pr_sourceblocks r1 ! ve_datablock e)) (sp_fs sp) c of
              None \<Rightarrow> None
            | Some (False, c) \<Rightarrow> Some (Inl (ScanFailed, s3\<lparr>sn_summer := c\<rparr>))
            | Some (True, c) \<Rightarrow> Some (Inr (s3\<lparr>sn_summer := c, sn_scanoffset := drop_bit 1 (sp_scandistance sp)\<rparr>)))"
  unfolding scan_found_def Let_def assms by (rule refl)

lemma scan_found_ok:
  assumes i: "scan_inv sp content fresh c0 r s" and live: "cs_off (sn_summer s) < length content" and t: "table_ready r"
    and n: "n < length (vt_entries (pr_table r))"
      "found_at (pr_table r) content (unat (pr_blocksize r)) (ve_datablock (vt_entries (pr_table r) ! n)) (cs_currentoffset (sn_summer s))"
  shows "\<exists>res. scan_found sp n s = Some res \<and> round_ok sp content fresh c0 r s res"
proof -
  let ?c = "sn_summer s" and ?e = "vt_entries (pr_table r) ! n"
  have c: "cs_scans (sp_fs sp) content fresh c0 ?c" "same_source c0 ?c" using i by (simp_all add: scan_inv_def)
  obtain blocks where b: "sn_repairer s = r\<lparr>pr_sourceblocks := blocks\<rparr>"
    "blocks_placed (sp_diskfile sp) (found_at (pr_table r) content (unat (pr_blocksize r))) (pr_sourceblocks r) blocks"
    using i by (auto simp: scan_inv_def)
  have t1: "vt_rep (pr_table r)" and te: "\<And>e m. e \<in> set (vt_entries (pr_table r)) \<Longrightarrow> ve_next e = Some m \<Longrightarrow> m < length (vt_entries (pr_table r))"
    "\<And>e. e \<in> set (vt_entries (pr_table r)) \<Longrightarrow> ve_datablock e < length (pr_sourceblocks r) \<and> 0 < db_length (pr_sourceblocks r ! ve_datablock e)"
    using t by (auto simp: table_ready_def)
  have e: "?e \<in> set (vt_entries (pr_table r))" using n(1) by simp
  define partial where "partial = (if sn_count s = 0 then \<not> ve_firstblock ?e \<or> cs_currentoffset ?c \<noteq> 0 else Some n \<noteq> sn_next s)"
  define s1 where "s1 = (if sn_count s = 0 then s\<lparr>sn_sourcefile := Some (ve_sourcefile ?e)\<rparr> else s)"
  define s2 where "s2 = (if partial then s1\<lparr>sn_match := PartialMatch\<rparr> else s1)"
  have s2: "sn_repairer s2 = sn_repairer s" "sn_summer s2 = ?c" "sn_next s2 = sn_next s" by (simp_all add: s1_def s2_def)
  have tab: "pr_table (sn_repairer s) = pr_table r" using b(1) by simp
  define r1 where "r1 = (if pr_blocksallocated (sn_repairer s) then set_block (sp_diskfile sp) (cs_currentoffset ?c) (ve_datablock ?e) (sn_repairer s) else sn_repairer s)"
  define s3 where "s3 = s2\<lparr>sn_repairer := r1, sn_count := sn_count s2 + 1, sn_next := ve_next ?e\<rparr>"
  note found = scan_found_eq [OF _ refl partial_def s1_def s2_def r1_def s3_def, unfolded tab, OF refl]
  show ?thesis
  proof (cases "partial \<and> sp_renameonly sp")
    case True
    then have "scan_found sp n s = Some (Inl (ScanEarly, s2))" by (simp add: found)
    moreover have "scan_inv sp content fresh c0 r s2" using i s2 by (simp add: scan_inv_def)
    moreover have "sn_match s2 = PartialMatch" using True by (simp add: s2_def)
    ultimately show ?thesis using True by (simp add: round_ok_def)
  next
    case False
    obtain blocks1 where b1: "r1 = r\<lparr>pr_sourceblocks := blocks1\<rparr>"
      "blocks_placed (sp_diskfile sp) (found_at (pr_table r) content (unat (pr_blocksize r))) (pr_sourceblocks r) blocks1"
    proof (cases "pr_blocksallocated (sn_repairer s)")
      case True
      then show ?thesis using that [OF _ blocks_placed_set [OF b(2) n(2)]] te(2) [OF e] b(1) by (simp add: r1_def set_block_def)
    next
      case False
      then show ?thesis using that [of blocks] b by (simp add: r1_def)
    qed
    have "db_length (pr_sourceblocks r1 ! ve_datablock ?e) = db_length (pr_sourceblocks r ! ve_datablock ?e)"
      using blocks_placed_length [OF b1(2)] te(2) [OF e] b1(1) by simp
    then have "db_length (pr_sourceblocks r1 ! ve_datablock ?e) \<noteq> 0" using te(2) [OF e] by auto
    with jump_ok [OF c live] obtain c2 where c2: "cs_jump (db_length (pr_sourceblocks r1 ! ve_datablock ?e)) (sp_fs sp) ?c = Some (True, c2)"
      "cs_scans (sp_fs sp) content fresh c0 c2" "same_source c0 c2" "cs_off ?c < cs_off c2" by metis
    let ?s = "s3\<lparr>sn_summer := c2, sn_scanoffset := drop_bit 1 (sp_scandistance sp)\<rparr>"
    have "scan_found sp n s = Some (Inr ?s)" using False c2(1) by (simp add: found)
    moreover have "scan_inv sp content fresh c0 r ?s"
      using i c2 b1 te(1) [OF e] by (auto simp: scan_inv_def s3_def split: option.split)
    ultimately show ?thesis using c2(4) by (simp add: round_ok_def)
  qed
qed

lemma scan_round_ok:
  assumes i: "scan_inv sp content fresh c0 r s" and live: "cs_off (sn_summer s) < length content" and t: "table_ready r"
    and bs: "cs_blocksize c0 = pr_blocksize r"
  shows "\<exists>res. scan_round sp s = Some res \<and> round_ok sp content fresh c0 r s res"
proof -
  let ?c = "sn_summer s"
  have c: "cs_inv (sp_fs sp) content ?c" "cs_blocksize ?c = pr_blocksize r"
    using i bs cs_scans_inv by (auto simp: scan_inv_def same_source_def)
  obtain blocks where b: "sn_repairer s = r\<lparr>pr_sourceblocks := blocks\<rparr>"
    "blocks_placed (sp_diskfile sp) (found_at (pr_table r) content (unat (pr_blocksize r))) (pr_sourceblocks r) blocks"
    using i by (auto simp: scan_inv_def)
  have len: "length blocks = length (pr_sourceblocks r)" using b(2) by (simp add: blocks_placed_def)
  have sug: "case sn_next s of None \<Rightarrow> True | Some k \<Rightarrow> k < length (vt_entries (pr_table r))" using i by (simp add: scan_inv_def)
  obtain m dup where m: "vt_find_match (pr_table r) (scan_context (sp_diskfile sp) (r\<lparr>pr_sourceblocks := blocks\<rparr>)) (sn_next s) (sn_sourcefile s) ?c = (m, dup)"
    by (rule prod.exhaust)
  show ?thesis
  proof (cases m)
    case None
    then have "scan_round sp s = scan_missed sp s" using m b(1) by (simp add: scan_round_def)
    then show ?thesis using scan_missed_ok [OF i live] by simp
  next
    case (Some n)
    have "db_length (blocks ! k) = db_length (pr_sourceblocks r ! k)" if "k < length blocks" for k
      using blocks_placed_length [OF b(2), of k] that len by simp
    note f = find_match_found [OF c(1) live t c(2) len this sug m [unfolded Some]]
    have "scan_round sp s = scan_found sp n s" using m Some b(1) by (simp add: scan_round_def)
    then show ?thesis using scan_found_ok [OF i live t] f by simp
  qed
qed

section \<open>The whole scan\<close>

lemma scan_loop_ok:
  assumes "scan_inv sp content fresh c0 r s" "table_ready r" "cs_blocksize c0 = pr_blocksize r"
  shows "\<exists>leave s'. scan_loop sp s = Some (leave, s') \<and> scan_inv sp content fresh c0 r s' \<and>
    (leave = ScanComplete \<and> cs_off (sn_summer s') = length content \<or>
     leave = ScanEarly \<and> sp_renameonly sp \<and> sn_match s' = PartialMatch)"
  using assms(1)
proof (induction "length content - cs_off (sn_summer s)" arbitrary: s rule: less_induct)
  case less
  let ?c = "sn_summer s"
  have live: "(cs_currentoffset ?c < df_filesize (cs_diskfile ?c)) = (cs_off ?c < length content)"
    by (rule scan_live) (use less.prems in \<open>auto simp: scan_inv_def\<close>)
  show ?case
  proof (cases "cs_off ?c < length content")
    case False
    then have "scan_loop sp s = Some (ScanComplete, s)" using live by (simp add: scan_loop.simps)
    moreover have "cs_off ?c \<le> length content"
      using less.prems cs_inv_off [OF cs_scans_inv] by (auto simp: scan_inv_def)
    ultimately show ?thesis using less.prems False by simp
  next
    case True
    obtain res where res: "scan_round sp s = Some res" "round_ok sp content fresh c0 r s res"
      using scan_round_ok [OF less.prems True assms(2,3)] by blast
    show ?thesis
    proof (cases res)
      case (Inl x)
      then have "scan_loop sp s = Some x" using True live res(1) by (subst scan_loop.simps) simp
      then show ?thesis using res(2) Inl by (cases x) (simp add: round_ok_def)
    next
      case (Inr s1)
      then have "scan_loop sp s = scan_loop sp s1" using True live res(1) by (subst scan_loop.simps) simp
      moreover have "scan_inv sp content fresh c0 r s1" "length content - cs_off (sn_summer s1) < length content - cs_off ?c"
        using res(2) Inr True by (auto simp: round_ok_def)
      ultimately show ?thesis using less.hyps [of s1] by simp
    qed
  qed
qed

text \<open>The state in which a scan of a readable file begins.\<close>

definition scannable :: "bytes \<Rightarrow> hasher_input \<Rightarrow> fs \<Rightarrow> bytes \<Rightarrow> nat \<Rightarrow> repairer \<Rightarrow> bool" where
  "scannable memory fresh fs content diskfile r \<longleftrightarrow>
     disk_ready ReadMode content (pr_store r diskfile) fs \<and> unat (df_filesize (pr_store r diskfile)) = length content \<and>
     content \<noteq> [] \<and> length content < 2 ^ 61 \<and> 0 < unat (pr_blocksize r) \<and> unat (pr_blocksize r) < 2 ^ 61 \<and>
     length memory = 2 * unat (pr_blocksize r) \<and> length (hi_tmp fresh) = 128 \<and>
     pr_windowtable r = generate_window_table (pr_blocksize r) \<and> table_ready r"

lemma scan_data_file_eq:
  assumes "df_filesize (pr_store r diskfile) \<noteq> 0"
    "cs_start fresh fs (cs_new memory (pr_store r diskfile) (pr_blocksize r) (pr_windowtable r)) = Some (True, c)"
    "scan_loop (scan_params_of diskfile renameonly fs r) (scan_first r sourcefile c) = Some (leave, s)"
  shows "scan_data_file memory fresh diskfile renameonly fs sourcefile r = Some (scan_last diskfile r leave s)"
  by (simp add: scan_data_file_def Let_def assms)

lemma scan_starts:
  assumes "scannable memory fresh fs content diskfile r"
  obtains c0 c where "c0 = cs_new memory (pr_store r diskfile) (pr_blocksize r) (pr_windowtable r)"
    "cs_start fresh fs c0 = Some (True, c)" "cs_blocksize c0 = pr_blocksize r" "cs_off c = 0" "cs_window c = padded (unat (pr_blocksize r)) content"
    "scan_inv (scan_params_of diskfile renameonly fs r) content fresh c0 r (scan_first r sourcefile c)"
proof -
  let ?d = "pr_store r diskfile" and ?bs = "pr_blocksize r"
  define c0 where "c0 = cs_new memory ?d ?bs (pr_windowtable r)"
  have f: "cs_blocksize c0 = ?bs" "df_filesize (cs_diskfile c0) = cs_filesize c0" "cs_context16k c0 = md5_single_new"
    "cs_contextfull c0 = md5_single_new" "\<not> cs_hasblockhash c0" "length (hi_tmp fresh) = 128" "content \<noteq> []"
    using assms by (simp_all add: c0_def cs_new_def scannable_def)
  have s: "cs_sized fs content c0" using assms by (simp add: c0_def cs_new_def scannable_def cs_sized_def)
  obtain c where c: "cs_start fresh fs c0 = Some (True, c)" "cs_off c = 0" "cs_outpointer c = 0"
    "take (cs_bs c0) (cs_buffer c) = padded (cs_bs c0) content"
    using cs_start_inv [OF s f(6,3,4,7,5)] by blast
  have same: "same_source c0 c" by (rule cs_start_same [OF c(1)])
  then have w: "cs_window c = padded (unat ?bs) content" using c(3,4) f(1) by (simp add: cs_window_def same_source_def)
  have "cs_scans fs content fresh c0 c" using s f c(1) by (auto simp: cs_scans_def intro: cs_reach.here)
  then have "scan_inv (scan_params_of diskfile renameonly fs r) content fresh c0 r (scan_first r sourcefile c)"
    using same f(2) by (simp add: scan_inv_def scan_params_of_def scan_first_def Let_def) (rule exI [of _ "pr_sourceblocks r"], simp)
  then show ?thesis using that [OF c0_def c(1) f(1) c(2) w] by simp
qed

lemma scan_data_file_rule:
  assumes "scannable memory fresh fs content diskfile r"
  shows "\<exists>res blocks d. scan_data_file memory fresh diskfile renameonly fs sourcefile r = Some res \<and> sr_ok res \<and>
    sr_repairer res = set_disk diskfile d (r\<lparr>pr_sourceblocks := blocks\<rparr>) \<and> same_disk (pr_store r diskfile) d \<and>
    blocks_placed diskfile (found_at (pr_table r) content (unat (pr_blocksize r))) (pr_sourceblocks r) blocks \<and>
    (sr_match res = Some FullMatch \<longrightarrow>
      (\<exists>i vp dp. sr_sourcefile res = Some i \<and> sf_verification (pr_files r ! i) = Some vp \<and> sf_description (pr_files r ! i) = Some dp \<and>
         sr_count res = Some (vp_blockcount vp) \<and> unat (dp_filesize dp) = length content \<and>
         dp_hashfull dp = md5 content \<and> dp_hash16k dp = md5 (take 16384 content))) \<and>
    sr_match res \<noteq> None \<and> (sr_match res = Some NoMatch \<longrightarrow> sr_hashes res = Some (md5 content, md5 (take 16384 content)))"
proof -
  obtain c0 c where c0: "c0 = cs_new memory (pr_store r diskfile) (pr_blocksize r) (pr_windowtable r)"
    "cs_start fresh fs c0 = Some (True, c)" "cs_blocksize c0 = pr_blocksize r"
    "scan_inv (scan_params_of diskfile renameonly fs r) content fresh c0 r (scan_first r sourcefile c)"
    using scan_starts [OF assms] by metis
  let ?sp = "scan_params_of diskfile renameonly fs r"
  have t: "table_ready r" and sz: "unat (df_filesize (pr_store r diskfile)) = length content" "content \<noteq> []"
    using assms by (simp_all add: scannable_def)
  have nz: "df_filesize (pr_store r diskfile) \<noteq> 0" using sz by auto
  obtain leave s where l: "scan_loop ?sp (scan_first r sourcefile c) = Some (leave, s)" "scan_inv ?sp content fresh c0 r s"
    "leave = ScanComplete \<and> cs_off (sn_summer s) = length content \<or> leave = ScanEarly \<and> sn_match s = PartialMatch"
    using scan_loop_ok [OF c0(4) t c0(3)] by blast
  have sp: "sp_diskfile ?sp = diskfile" "sp_fs ?sp = fs" by (simp_all add: scan_params_of_def Let_def)
  obtain blocks where b: "sn_repairer s = r\<lparr>pr_sourceblocks := blocks\<rparr>"
    "blocks_placed diskfile (found_at (pr_table r) content (unat (pr_blocksize r))) (pr_sourceblocks r) blocks"
    using l(2) sp by (auto simp: scan_inv_def)
  have d: "same_disk (pr_store r diskfile) (cs_diskfile (sn_summer s))"
    using l(2) c0(1) by (simp add: scan_inv_def same_source_def cs_new_def)
  have full: "\<exists>i vp dp. sn_sourcefile s = Some i \<and> sf_verification (pr_files r ! i) = Some vp \<and> sf_description (pr_files r ! i) = Some dp \<and>
      sn_count s = vp_blockcount vp \<and> unat (dp_filesize dp) = length content \<and>
      dp_hashfull dp = md5 content \<and> dp_hash16k dp = md5 (take 16384 content)"
    if "sr_match (scan_last diskfile r leave s) = Some FullMatch"
  proof -
    have "leave = ScanComplete" "cs_off (sn_summer s) = length content" using that l(3) by (auto simp: scan_last_def)
    then have h: "cs_get_file_hashes (sn_summer s) = (md5 content, md5 (take 16384 content))"
      using cs_scan_file_hashes_rule l(2) sp(2) by (auto simp: scan_inv_def)
    have "scan_confirm (df_filesize (pr_store r diskfile)) (md5 content, md5 (take 16384 content)) s = FullMatch"
      using that \<open>leave = ScanComplete\<close> h by (simp add: scan_last_def)
    then show ?thesis using sz(1) b(1) by (auto simp: scan_confirm_def split: option.splits if_splits)
  qed
  have none: "sr_hashes (scan_last diskfile r leave s) = Some (md5 content, md5 (take 16384 content))"
    if "sr_match (scan_last diskfile r leave s) = Some NoMatch"
  proof -
    have "leave = ScanComplete" "cs_off (sn_summer s) = length content" using that l(3) by (auto simp: scan_last_def)
    then show ?thesis using cs_scan_file_hashes_rule l(2) sp(2) by (auto simp: scan_inv_def scan_last_def)
  qed
  show ?thesis
  proof (rule exI [of _ "scan_last diskfile r leave s"], rule exI [of _ blocks], rule exI [of _ "cs_diskfile (sn_summer s)"], intro conjI impI)
    show "scan_data_file memory fresh diskfile renameonly fs sourcefile r = Some (scan_last diskfile r leave s)"
      by (rule scan_data_file_eq [OF nz c0(2) [unfolded c0(1)] l(1)])
    show "sr_ok (scan_last diskfile r leave s)" using l(3) by (auto simp: scan_last_def)
    show "sr_repairer (scan_last diskfile r leave s) = set_disk diskfile (cs_diskfile (sn_summer s)) (r\<lparr>pr_sourceblocks := blocks\<rparr>)"
      using b(1) by (simp add: scan_last_def)
    assume "sr_match (scan_last diskfile r leave s) = Some FullMatch"
    from full [OF this] show "\<exists>i vp dp. sr_sourcefile (scan_last diskfile r leave s) = Some i \<and> sf_verification (pr_files r ! i) = Some vp \<and>
         sf_description (pr_files r ! i) = Some dp \<and> sr_count (scan_last diskfile r leave s) = Some (vp_blockcount vp) \<and>
         unat (dp_filesize dp) = length content \<and> dp_hashfull dp = md5 content \<and> dp_hash16k dp = md5 (take 16384 content)"
      by (simp add: scan_last_def)
  qed (use b(2) d none in \<open>simp_all add: scan_last_def\<close>)
qed

text \<open>C11: the scan of a readable, non-empty file always returns and never fails. It changes nothing but the
  places of blocks: each block is where it was before, or at an offset inside the file where the data
  has the verification hash of an entry for this block. And a full match is true: the file has
  the size, the MD5 and the 16k MD5 of the description packet of the source file, and all of its blocks were counted.\<close>

theorem scan_data_file_correct:
  assumes "scannable memory fresh fs content diskfile r"
  shows "\<exists>res blocks d. scan_data_file memory fresh diskfile renameonly fs sourcefile r = Some res \<and> sr_ok res \<and>
    sr_repairer res = set_disk diskfile d (r\<lparr>pr_sourceblocks := blocks\<rparr>) \<and> same_disk (pr_store r diskfile) d \<and>
    blocks_placed diskfile (found_at (pr_table r) content (unat (pr_blocksize r))) (pr_sourceblocks r) blocks \<and>
    (sr_match res = Some FullMatch \<longrightarrow>
      (\<exists>i vp dp. sr_sourcefile res = Some i \<and> sf_verification (pr_files r ! i) = Some vp \<and> sf_description (pr_files r ! i) = Some dp \<and>
         sr_count res = Some (vp_blockcount vp) \<and> unat (dp_filesize dp) = length content \<and>
         dp_hashfull dp = md5 content \<and> dp_hash16k dp = md5 (take 16384 content)))"
proof -
  obtain res blocks d where r: "scan_data_file memory fresh diskfile renameonly fs sourcefile r = Some res" "sr_ok res"
    "sr_repairer res = set_disk diskfile d (r\<lparr>pr_sourceblocks := blocks\<rparr>)" "same_disk (pr_store r diskfile) d"
    "blocks_placed diskfile (found_at (pr_table r) content (unat (pr_blocksize r))) (pr_sourceblocks r) blocks"
    "sr_match res = Some FullMatch \<longrightarrow>
      (\<exists>i vp dp. sr_sourcefile res = Some i \<and> sf_verification (pr_files r ! i) = Some vp \<and> sf_description (pr_files r ! i) = Some dp \<and>
         sr_count res = Some (vp_blockcount vp) \<and> unat (dp_filesize dp) = length content \<and>
         dp_hashfull dp = md5 content \<and> dp_hash16k dp = md5 (take 16384 content))"
    using scan_data_file_rule [OF assms, of renameonly sourcefile] by blast
  then show ?thesis by blast
qed

section \<open>An example\<close>

text \<open>A file of five bytes in two blocks of four bytes.\<close>

definition ex_content :: bytes where "ex_content = [1, 2, 3, 4, 5]"

definition ex_entry :: "bytes \<Rightarrow> bytes \<times> u32" where
  "ex_entry block = (md5 block, NOT (crc_update_block (NOT 0) block))"

definition ex_vp :: verification_packet where
  "ex_vp = \<lparr>vp_packet = \<lparr>cp_data = replicate 80 0 @ md5 [1, 2, 3, 4] @ leu32_bytes (snd (ex_entry [1, 2, 3, 4])) @
       md5 [5, 0, 0, 0] @ leu32_bytes (snd (ex_entry [5, 0, 0, 0])), cp_length = 120\<rparr>, vp_blockcount = 2\<rparr>"

definition ex_dp :: critical_packet where
  "ex_dp = \<lparr>cp_data = replicate 80 0 @ md5 ex_content @ md5 (take 16384 ex_content) @ [5, 0, 0, 0, 0, 0, 0, 0], cp_length = 120\<rparr>"

definition ex_scan_repairer :: repairer where
  "ex_scan_repairer = repairer_new\<lparr>pr_store := (\<lambda>_. sample_disk ReadMode 5), pr_blocksize := 4,
     pr_windowtable := generate_window_table 4, pr_blocksallocated := True,
     pr_sourceblocks := map (fresh_block 4 5) [0..<2],
     pr_files := [source_file_new (Some ex_dp) (Some ex_vp)],
     pr_table := vt_load 0 0 (vp_entries ex_vp) (vt_set_limit 2 vt_empty)\<rparr>"

lemma ex_vp_entries: "vp_entries ex_vp = [ex_entry [1, 2, 3, 4], ex_entry [5, 0, 0, 0]]"
proof -
  let ?d = "cp_data (vp_packet ex_vp)"
  have l: "length ?d = 120" by (simp add: ex_vp_def length_md5 length_leu)
  have "load32 ?d 96 = snd (ex_entry [1, 2, 3, 4])" "load32 ?d 116 = snd (ex_entry [5, 0, 0, 0])"
    using load32_field [of 96 ?d "snd (ex_entry [1, 2, 3, 4])"] load32_field [of 116 ?d "snd (ex_entry [5, 0, 0, 0])"] l
    by (simp_all add: ex_vp_def field_def length_md5)
  moreover have "field 80 16 ?d = md5 [1, 2, 3, 4]" "field 100 16 ?d = md5 [5, 0, 0, 0]"
    by (simp_all add: ex_vp_def field_def length_md5 length_leu)
  moreover have "[0..<unat (vp_blockcount ex_vp)] = [0, 1]" by (simp add: ex_vp_def upt_conv_Cons)
  ultimately show ?thesis by (simp add: vp_entries_def vp_entry_def ex_entry_def)
qed

lemma ex_blocks: "map (fresh_block 4 5) [0..<2] = [\<lparr>db_diskfile = None, db_offset = 0, db_length = 4, db_filesize = 5\<rparr>,
    \<lparr>db_diskfile = None, db_offset = 0, db_length = 1, db_filesize = 5\<rparr>]"
  by (simp add: upt_conv_Cons fresh_block_def min_def word_le_nat_alt)

lemma ex_scannable: "scannable (replicate 8 0) ex_hasher (sample_fs ex_content) ex_content 0 ex_scan_repairer"
proof -
  let ?t = "vt_load 0 0 (vp_entries ex_vp) (vt_set_limit 2 vt_empty)"
  have "vt_rep ?t" by (rule vt_load_rep(1) [OF vt_set_limit_rep(1)]) (simp add: ex_vp_entries ex_entry_def length_md5)
  moreover have "vt_entries ?t = map (loaded_entry 0 0 0 2) (enumerate 0 (vp_entries ex_vp))"
    by (simp add: vt_load_entries vt_set_limit_rep(2) ex_vp_entries loaded_entry_def)
  then have "vt_entries ?t = [loaded_entry 0 0 0 2 (0, ex_entry [1, 2, 3, 4]), loaded_entry 0 0 0 2 (1, ex_entry [5, 0, 0, 0])]"
    by (simp add: ex_vp_entries loaded_entry_def)
  ultimately have "table_ready ex_scan_repairer"
    by (simp add: table_ready_def ex_scan_repairer_def ex_blocks loaded_entry_def)
  then show ?thesis
    using sample_ready [of ReadMode ex_content 5]
    by (simp add: scannable_def ex_scan_repairer_def ex_hasher_def) (simp add: ex_content_def sample_disk_def)
qed

theorem scan_data_file_correct_witness:
  "\<exists>res. scan_data_file (replicate 8 0) ex_hasher 0 False (sample_fs ex_content) (Some 0) ex_scan_repairer = Some res \<and> sr_ok res"
  using scan_data_file_correct [OF ex_scannable, of False "Some 0"] by blast

end
