(* ===== verification/ScanData_Complete.thy ===== *)
theory ScanData_Complete
  imports ScanData_Correct
begin

unbundle bit_operations_syntax

text \<open>
  The scan of an intact source file finds every block at its place and is a full match.
\<close>

section \<open>Scanning an intact file\<close>

text \<open>
  The source file \<open>i\<close> with its packets, its entries in the table and its blocks from \<open>p\<close> on, all for the given content.
\<close>

definition content_entry :: "nat \<Rightarrow> bytes \<Rightarrow> nat \<Rightarrow> bytes \<times> u32" where
  "content_entry bs content k =
     (let block = padded bs (take bs (drop (k * bs) content)) in (md5 block, NOT (crc_update_block (NOT 0) block)))"

definition describes :: "repairer \<Rightarrow> nat \<Rightarrow> nat \<Rightarrow> verification_packet \<Rightarrow> critical_packet \<Rightarrow> bytes \<Rightarrow> bool" where
  "describes r i p vp dp content \<longleftrightarrow>
     (let bs = unat (pr_blocksize r); n = (length content + bs - 1) div bs
      in sf_verification (pr_files r ! i) = Some vp \<and> sf_description (pr_files r ! i) = Some dp \<and>
         unat (dp_filesize dp) = length content \<and> dp_hashfull dp = md5 content \<and> dp_hash16k dp = md5 (take 16384 content) \<and>
         unat (vp_blockcount vp) = n \<and> vp_entries vp = map (content_entry bs content) [0..<n] \<and>
         (\<exists>ls1 ls2 limit. pr_table r = vt_loads (ls1 @ (i, p, vp_entries vp) # ls2) (vt_set_limit limit vt_empty) \<and>
            i \<notin> fst ` set ls1 \<and> i \<notin> fst ` set ls2) \<and>
         p + n \<le> length (pr_sourceblocks r) \<and>
         (\<forall>k<n. pr_sourceblocks r ! (p + k) = fresh_block (pr_blocksize r) (dp_filesize dp) k))"

lemma vt_loads_entries:
  "\<exists>es. vt_entries (vt_loads ls t) = vt_entries t @ es \<and> ve_sourcefile ` set es \<subseteq> fst ` set ls"
proof (induction ls arbitrary: t)
  case (Cons l ls)
  obtain f d bs where l: "l = (f, d, bs)" by (cases l)
  obtain es where es: "vt_entries (vt_loads ls (vt_load f d bs t)) = vt_entries (vt_load f d bs t) @ es" "ve_sourcefile ` set es \<subseteq> fst ` set ls"
    using Cons.IH by blast
  let ?new = "map (loaded_entry f d (length (vt_entries t)) (length bs)) (enumerate 0 bs)"
  have "ve_sourcefile ` set ?new \<subseteq> {f}" by (auto simp: loaded_entry_def)
  then have "ve_sourcefile ` set (?new @ es) \<subseteq> fst ` set (l # ls)" using es(2) l by auto
  moreover have "vt_entries (vt_loads (l # ls) t) = vt_entries t @ (?new @ es)"
    using es(1) by (simp add: vt_loads_def l vt_load_entries)
  ultimately show ?case by blast
qed (simp add: vt_loads_def)

lemma vt_loads_split:
  assumes "t = vt_loads (ls1 @ (i, p, es) # ls2) (vt_set_limit limit vt_empty)" "i \<notin> fst ` set ls1" "i \<notin> fst ` set ls2"
  shows "\<exists>k0. k0 + length es \<le> length (vt_entries t) \<and>
    (\<forall>k<length es. vt_entries t ! (k0 + k) = loaded_entry i p k0 (length es) (k, es ! k)) \<and>
    (\<forall>j<length (vt_entries t). ve_sourcefile (vt_entries t ! j) = i \<longrightarrow> k0 \<le> j)"
proof -
  let ?t1 = "vt_loads ls1 (vt_set_limit limit vt_empty)"
  obtain e1 where e1: "vt_entries ?t1 = e1" "ve_sourcefile ` set e1 \<subseteq> fst ` set ls1"
    using vt_loads_entries [of ls1 "vt_set_limit limit vt_empty"] vt_set_limit_rep(2) by auto
  obtain e2 where e2: "vt_entries (vt_loads ls2 (vt_load i p es ?t1)) = vt_entries (vt_load i p es ?t1) @ e2"
    "ve_sourcefile ` set e2 \<subseteq> fst ` set ls2"
    using vt_loads_entries by blast
  have "t = vt_loads ls2 (vt_load i p es ?t1)" by (simp add: assms(1) vt_loads_def)
  then have t: "vt_entries t = e1 @ map (loaded_entry i p (length e1) (length es)) (enumerate 0 es) @ e2"
    using e1(1) e2(1) by (simp add: vt_load_entries)
  show ?thesis
  proof (intro exI [of _ "length e1"] conjI allI impI)
    show "length e1 + length es \<le> length (vt_entries t)" by (simp add: t)
    show "vt_entries t ! (length e1 + k) = loaded_entry i p (length e1) (length es) (k, es ! k)" if "k < length es" for k
      using that by (simp add: t nth_append nth_enumerate_eq)
    show "length e1 \<le> j" if "j < length (vt_entries t)" "ve_sourcefile (vt_entries t ! j) = i" for j
    proof (rule ccontr)
      assume "\<not> length e1 \<le> j"
      then have "i \<in> ve_sourcefile ` set e1" using that by (auto simp: t nth_append)
      then show False using e1(2) assms(2) by blast
    qed
  qed
qed

lemma find_skip: "\<forall>x\<in>set xs. \<not> P x \<Longrightarrow> find P (xs @ ys) = find P ys"
  by (induction xs) auto

lemma find_filter_upt:
  assumes "k < m" "Q k" "P k" "\<And>j. j < k \<Longrightarrow> Q j \<Longrightarrow> \<not> P j"
  shows "find P (filter Q [0..<m]) = Some k"
proof -
  have "[0..<m] = [0..<k] @ k # [Suc k..<m]" using assms(1) using upt_add_eq_append [of 0 k "m - k"] by (simp add: upt_conv_Cons)
  moreover have "\<forall>x\<in>set (filter Q [0..<k]). \<not> P x" using assms(4) by auto
  ultimately show ?thesis using assms(2,3) find_skip [of "filter Q [0..<k]" P "k # filter Q [Suc k..<m]"] by simp
qed

section \<open>The rounds\<close>

text \<open>The state after \<open>k\<close> of \<open>n\<close> blocks.\<close>

definition scanned :: "repairer \<Rightarrow> nat \<Rightarrow> nat \<Rightarrow> nat \<Rightarrow> nat \<Rightarrow> nat \<Rightarrow> bytes \<Rightarrow> nat \<Rightarrow> scan \<Rightarrow> bool" where
  "scanned r diskfile i p k0 n content k s \<longleftrightarrow>
     cs_off (sn_summer s) = min (length content) (k * unat (pr_blocksize r)) \<and> sn_count s = word_of_nat k \<and>
     sn_next s = (if 0 < k \<and> k < n then Some (k0 + k) else None) \<and> sn_match s = FullMatch \<and> sn_sourcefile s = Some i \<and>
     (\<exists>blocks. sn_repairer s = r\<lparr>pr_sourceblocks := blocks\<rparr> \<and> length blocks = length (pr_sourceblocks r) \<and>
        (\<forall>j<n. blocks ! (p + j) =
           (if j < k then db_set_location (Some diskfile) (word_of_nat (j * unat (pr_blocksize r))) (pr_sourceblocks r ! (p + j))
            else pr_sourceblocks r ! (p + j))))"

lemma scan_found_expected:
  assumes s: "scanned r diskfile i p k0 n content k s" and k: "k < n" "n < 2 ^ 32"
    and e: "vt_entries (pr_table r) ! (k0 + k) = loaded_entry i p k0 n (k, b)"
    and sp: "sp_diskfile sp = diskfile" and alloc: "pr_blocksallocated r" "p + n \<le> length (pr_sourceblocks r)"
    and len: "unat (db_length (pr_sourceblocks r ! (p + k))) = min (unat (pr_blocksize r)) (length content - k * unat (pr_blocksize r))"
    and c: "cs_scans (sp_fs sp) content fresh c0 (sn_summer s)" "cs_blocksize (sn_summer s) = pr_blocksize r"
      "k * unat (pr_blocksize r) < length content"
  shows "\<exists>s'. scan_found sp (k0 + k) s = Some (Inr s') \<and> scanned r diskfile i p k0 n content (Suc k) s'"
proof -
  let ?bs = "unat (pr_blocksize r)" and ?c = "sn_summer s" and ?e = "vt_entries (pr_table r) ! (k0 + k)"
  obtain blocks where bl: "sn_repairer s = r\<lparr>pr_sourceblocks := blocks\<rparr>" "length blocks = length (pr_sourceblocks r)"
    "\<forall>j<n. blocks ! (p + j) =
       (if j < k then db_set_location (Some diskfile) (word_of_nat (j * ?bs)) (pr_sourceblocks r ! (p + j)) else pr_sourceblocks r ! (p + j))"
    using s by (auto simp: scanned_def)
  have f: "ve_datablock ?e = p + k" "ve_firstblock ?e = (k = 0)" "ve_sourcefile ?e = i" "ve_next ?e = (if Suc k < n then Some (Suc (k0 + k)) else None)"
    by (simp_all add: e loaded_entry_def)
  have off: "cs_off ?c = k * ?bs" using s c(3) by (simp add: scanned_def)
  have cu: "unat (sn_count s) = k" using s k by (simp add: scanned_def unat_of_nat)
  have cnt: "(sn_count s = 0) = (k = 0)" unfolding cu [symmetric] by (simp add: unat_eq_0)
  have "(k = 0 \<longrightarrow> cs_currentoffset ?c = 0) \<and> (0 < k \<longrightarrow> sn_next s = Some (k0 + k))"
    using off s k by (auto simp: scanned_def unat_eq_0)
  then have np: "False = (if sn_count s = 0 then \<not> ve_firstblock ?e \<or> cs_currentoffset ?c \<noteq> 0 else Some (k0 + k) \<noteq> sn_next s)"
    using cnt f(2) by auto
  define blocks1 where "blocks1 = blocks[p + k := db_set_location (Some diskfile) (cs_currentoffset ?c) (blocks ! (p + k))]"
  have sb: "set_block diskfile (cs_currentoffset ?c) (p + k) (sn_repairer s) = r\<lparr>pr_sourceblocks := blocks1\<rparr>"
    by (simp add: set_block_def bl(1) blocks1_def)
  have "db_length (blocks1 ! (p + k)) = db_length (pr_sourceblocks r ! (p + k))"
    using bl(2,3) alloc(2) k(1) by (simp add: blocks1_def db_set_location_def)
  then have bl1: "unat (db_length (blocks1 ! (p + k))) = min ?bs (length content - k * ?bs)" using len by simp
  have inv: "cs_inv (sp_fs sp) content ?c" by (rule cs_scans_inv [OF c(1)])
  have live: "cs_off ?c < length content" using off c(3) by simp
  have "0 < ?bs" using inv c(2) by (simp add: cs_inv_def cs_sized_def)
  then have "db_length (blocks1 ! (p + k)) \<noteq> 0" using bl1 c(3) by auto
  from cs_jump_inv [OF inv live this] obtain c' where c': "cs_jump (db_length (blocks1 ! (p + k))) (sp_fs sp) ?c = Some (True, c')"
    "cs_off c' = min (length content) (cs_off ?c + min (unat (db_length (blocks1 ! (p + k)))) (cs_bs ?c))" by blast
  have off': "cs_off c' = min (length content) (Suc k * ?bs)"
    unfolding c'(2) off bl1 c(2) using c(3) by (simp add: min_def)
  have tab: "pr_table (sn_repairer s) = pr_table r" "pr_blocksallocated (sn_repairer s)" using bl(1) alloc(1) by simp_all
  have r1: "r\<lparr>pr_sourceblocks := blocks1\<rparr> = (if pr_blocksallocated (sn_repairer s)
      then set_block (sp_diskfile sp) (cs_currentoffset ?c) (ve_datablock ?e) (sn_repairer s) else sn_repairer s)"
    using sb tab(2) by (simp add: sp f(1))
  have s1: "s = (if sn_count s = 0 then s\<lparr>sn_sourcefile := Some (ve_sourcefile ?e)\<rparr> else s)"
    using s by (simp add: scanned_def f(3))
  define s3 where "s3 = s\<lparr>sn_repairer := r\<lparr>pr_sourceblocks := blocks1\<rparr>, sn_count := sn_count s + 1, sn_next := ve_next ?e\<rparr>"
  let ?s = "s3\<lparr>sn_summer := c', sn_scanoffset := drop_bit 1 (sp_scandistance sp)\<rparr>"
  have "scan_found sp (k0 + k) s = Some (Inr ?s)"
    unfolding scan_found_eq [OF _ refl np s1 _ r1 s3_def, unfolded tab if_False, OF refl refl] using c'(1) by (simp add: f(1))
  moreover have bb: "blocks1 ! (p + j) =
      (if j < Suc k then db_set_location (Some diskfile) (word_of_nat (j * ?bs)) (pr_sourceblocks r ! (p + j)) else pr_sourceblocks r ! (p + j))"
    if "j < n" for j
  proof -
    have "cs_currentoffset ?c = word_of_nat (k * ?bs)" unfolding off [symmetric] by simp
    then show ?thesis using bl(2,3) that alloc(2) by (auto simp: blocks1_def nth_list_update less_Suc_eq)
  qed
  have "scanned r diskfile i p k0 n content (Suc k) ?s"
    unfolding scanned_def
  proof (intro conjI exI [of _ blocks1] allI impI)
    show "length blocks1 = length (pr_sourceblocks r)" using bl(2) by (simp add: blocks1_def)
    show "blocks1 ! (p + j) = (if j < Suc k then db_set_location (Some diskfile) (word_of_nat (j * ?bs)) (pr_sourceblocks r ! (p + j))
        else pr_sourceblocks r ! (p + j))" if "j < n" for j
      using that by (rule bb)
  qed (use off' s f(4) in \<open>simp_all add: scanned_def s3_def\<close>)
  ultimately show ?thesis by blast
qed

lemma padded_take: "padded n (take n xs) = padded n xs"
  by (simp add: padded_def min_def)

lemma padded_full: "length xs = n \<Longrightarrow> padded n xs = xs"
  by (simp add: padded_def)

text \<open>The conditions on the entries and blocks of the file.\<close>

definition laid_out :: "repairer \<Rightarrow> nat \<Rightarrow> nat \<Rightarrow> nat \<Rightarrow> nat \<Rightarrow> bytes \<Rightarrow> bool" where
  "laid_out r i p k0 n content \<longleftrightarrow>
     k0 + n \<le> length (vt_entries (pr_table r)) \<and>
     (\<forall>k<n. vt_entries (pr_table r) ! (k0 + k) = loaded_entry i p k0 n (k, content_entry (unat (pr_blocksize r)) content k)) \<and>
     (\<forall>j<length (vt_entries (pr_table r)). ve_sourcefile (vt_entries (pr_table r) ! j) = i \<longrightarrow> k0 \<le> j) \<and>
     (\<forall>k<n. db_diskfile (pr_sourceblocks r ! (p + k)) = None \<and>
        unat (db_length (pr_sourceblocks r ! (p + k))) = min (unat (pr_blocksize r)) (length content - k * unat (pr_blocksize r))) \<and>
     (\<forall>k<n. k * unat (pr_blocksize r) < length content) \<and> length content \<le> n * unat (pr_blocksize r) \<and>
     sf_completefile (pr_files r ! i) = None \<and> vt_rep (pr_table r)"

lemma find_first:
  assumes s: "scanned r diskfile i p k0 n content 0 s" and n: "0 < n" and l: "laid_out r i p k0 n content"
    and c: "cs_scans fs content fresh c0 (sn_summer s)" "cs_blocksize (sn_summer s) = pr_blocksize r"
      "cs_window (sn_summer s) = padded (unat (pr_blocksize r)) content"
  shows "\<exists>d. vt_find_match (pr_table (sn_repairer s)) (scan_context diskfile (sn_repairer s)) (sn_next s) (sn_sourcefile s) (sn_summer s) = (Some k0, d)"
proof -
  let ?c = "sn_summer s" and ?bs = "unat (pr_blocksize r)" and ?t = "pr_table r"
  obtain blocks where bl: "sn_repairer s = r\<lparr>pr_sourceblocks := blocks\<rparr>" "\<forall>j<n. blocks ! (p + j) = pr_sourceblocks r ! (p + j)"
    using s by (auto simp: scanned_def)
  let ?mc = "scan_context diskfile (r\<lparr>pr_sourceblocks := blocks\<rparr>)"
  have inv: "cs_inv fs content ?c" by (rule cs_scans_inv [OF c(1)])
  have off: "cs_off ?c = 0" "cs_currentoffset ?c = 0" using s by (simp_all add: scanned_def unat_eq_0)
  have L: "0 < length content" using l n by (auto simp: laid_out_def)
  have e: "vt_entries ?t ! k0 = loaded_entry i p k0 n (0, content_entry ?bs content 0)" "k0 < length (vt_entries ?t)"
    using l n by (auto simp: laid_out_def)
  have ef: "ve_sourcefile (vt_entries ?t ! k0) = i" "ve_datablock (vt_entries ?t ! k0) = p" "ve_firstblock (vt_entries ?t ! k0)"
    "ve_crc (vt_entries ?t ! k0) = cs_checksum ?c" "ve_hash (vt_entries ?t ! k0) = cs_hash ?c"
    using cs_inv_hash(1,2) [OF inv] off(1) L c(3) by (simp_all add: e(1) loaded_entry_def content_entry_def Let_def padded_take)
  have "db_diskfile (pr_sourceblocks r ! (p + 0)) = None \<and>
      unat (db_length (pr_sourceblocks r ! (p + 0))) = min ?bs (length content - 0 * ?bs)" "blocks ! (p + 0) = pr_sourceblocks r ! (p + 0)"
    using l n bl(2) unfolding laid_out_def by blast+
  then have z: "db_diskfile (pr_sourceblocks r ! p) = None" "unat (db_length (pr_sourceblocks r ! p)) = min ?bs (length content)"
    "blocks ! p = pr_sourceblocks r ! p" by simp_all
  have set: "\<not> ve_is_set ?mc (vt_entries ?t ! k0)" using z by (simp add: ve_is_set_def scan_context_def ef(2) db_is_set_def)
  have fsz: "unat (cs_filesize ?c) = length content" using inv by (simp add: cs_inv_def cs_sized_def)
  have "unat (cs_block_length ?c) = unat (ve_length ?mc (vt_entries ?t ! k0))"
    using z by (simp add: cs_block_length_def off c(2) unat_min fsz ve_length_def scan_context_def ef(2))
  then have wl: "\<not> ve_wrong_length ?mc ?c (vt_entries ?t ! k0)" by (simp add: ve_wrong_length_def word_unat_eq_iff)
  have l16: "length (cs_hash ?c) = 16" using cs_inv_hash(1) [OF inv] off(1) L by (simp add: length_md5)
  have rep: "vt_rep ?t" using l by (simp add: laid_out_def)
  have sug: "fm_suggested ?t ?mc None ?c = Inr None" by (simp add: fm_suggested_def)
  have h: "cs_hash ?c = (case None of Some h \<Rightarrow> h | None \<Rightarrow> cs_hash ?c)" by simp
  have k0: "k0 \<in> set (vt_matches ?t (cs_checksum ?c) (cs_hash ?c))" using e(2) ef by (simp add: vt_matches_iff)
  have cpl: "\<not> mc_complete ?mc i" using l by (simp add: scan_context_def laid_out_def)
  have single: "fm_single ?t ?mc None ?c k0 = (Some k0, False)"
    using ef(1,3) wl off(2) cpl by (simp add: fm_single_def Let_def)
  have "find (\<lambda>m. ve_usable ?mc ?c (vt_entries ?t ! m) \<and> Some (ve_sourcefile (vt_entries ?t ! m)) = Some i) (vt_matches ?t (cs_checksum ?c) (cs_hash ?c)) = Some k0"
    unfolding vt_matches_def
  proof (rule find_filter_upt [OF e(2)])
    show "\<not> (ve_usable ?mc ?c (vt_entries ?t ! j) \<and> Some (ve_sourcefile (vt_entries ?t ! j)) = Some i)" if "j < k0" for j
      using l that e(2) unfolding laid_out_def by (metis leD less_trans option.inject)
  qed (use ef set wl in \<open>simp_all add: ve_usable_def\<close>)
  then have many: "fm_many ?t ?mc (Some i) ?c (vt_matches ?t (cs_checksum ?c) (cs_hash ?c)) = Some k0" by (simp add: fm_many_eq)
  have "\<exists>d. vt_find_match ?t ?mc None (Some i) ?c = (Some k0, d)"
    unfolding vt_find_match_chain [OF rep sug h l16]
    using k0 single many by (auto split: list.split)
  then show ?thesis using s bl(1) by (simp add: scanned_def)
qed

lemma find_next:
  assumes s: "scanned r diskfile i p k0 n content k s" and k: "0 < k" "k < n" and l: "laid_out r i p k0 n content"
    and c: "cs_scans fs content fresh c0 (sn_summer s)" "cs_blocksize (sn_summer s) = pr_blocksize r"
  shows "\<exists>d. vt_find_match (pr_table (sn_repairer s)) (scan_context diskfile (sn_repairer s)) (sn_next s) (sn_sourcefile s) (sn_summer s) = (Some (k0 + k), d)"
proof -
  let ?c = "sn_summer s" and ?bs = "unat (pr_blocksize r)" and ?t = "pr_table r"
  obtain blocks where bl: "sn_repairer s = r\<lparr>pr_sourceblocks := blocks\<rparr>" "blocks ! (p + k) = pr_sourceblocks r ! (p + k)"
    using s k by (auto simp: scanned_def)
  let ?mc = "scan_context diskfile (r\<lparr>pr_sourceblocks := blocks\<rparr>)" and ?e = "vt_entries ?t ! (k0 + k)"
  have e: "?e = loaded_entry i p k0 n (k, content_entry ?bs content k)" and live: "k * ?bs < length content"
    and len: "unat (db_length (pr_sourceblocks r ! (p + k))) = min ?bs (length content - k * ?bs)"
    and free: "db_diskfile (pr_sourceblocks r ! (p + k)) = None"
    using l k by (simp_all add: laid_out_def)
  have off: "cs_off ?c = k * ?bs" using s live by (simp add: scanned_def)
  let ?block = "take ?bs (drop (k * ?bs) content)"
  have ef: "ve_datablock ?e = p + k" "ve_crc ?e = NOT (crc_update_block (NOT 0) (padded ?bs ?block))" "ve_hash ?e = md5 (padded ?bs ?block)"
    "ve_next ?e = (if Suc k < n then Some (Suc (k0 + k)) else None)"
    by (simp_all add: e loaded_entry_def content_entry_def Let_def)
  have "fm_suggested ?t ?mc (Some (k0 + k)) ?c = Inl (k0 + k)"
  proof (cases "Suc k < n")
    case True
    then have "Suc k * ?bs < length content" using l unfolding laid_out_def by blast
    then have "cs_off ?c + cs_bs ?c \<le> length content" using off c(2) by simp
    moreover from this have "padded ?bs ?block = ?block" using off c(2) by (simp add: padded_full)
    ultimately have "cs_checksum ?c = ve_crc ?e" "cs_hash ?c = ve_hash ?e"
      using cs_scan_checksum_rule [OF c(1)] ef off c(2) by simp_all
    moreover have "\<not> ve_is_set ?mc ?e" using free bl(2) by (simp add: ve_is_set_def scan_context_def ef(1) db_is_set_def)
    ultimately show ?thesis using True ef(4) by (simp add: fm_suggested_def Let_def)
  next
    case False
    let ?len = "ve_length ?mc ?e"
    have vl: "unat ?len = min ?bs (length content - k * ?bs)" using len bl(2) by (simp add: ve_length_def scan_context_def ef(1))
    have "cs_off ?c < length content" "unat ?len \<le> cs_bs ?c" "cs_off ?c + unat ?len \<le> length content"
      using vl off live c(2) by simp_all
    note sh = cs_scan_short_rule [OF c(1) this]
    have "take (unat ?len) (drop (k * ?bs) content) = ?block" unfolding vl by (simp add: min_def)
    then have "cs_short_checksum ?len ?c = ve_crc ?e" "cs_short_hash ?len ?c = ve_hash ?e" using sh off c(2) ef by simp_all
    then show ?thesis using False ef(4) by (simp add: fm_suggested_def Let_def)
  qed
  moreover have "sn_next s = Some (k0 + k)" using s k by (simp add: scanned_def)
  ultimately have "vt_find_match ?t ?mc (sn_next s) (sn_sourcefile s) ?c = (Some (k0 + k), False)"
    by (simp add: vt_find_match_def)
  then show ?thesis using bl(1) by (intro exI [of _ False]) simp
qed

lemma scanned_loop:
  assumes "scanned r diskfile i p k0 n content k s" "k \<le> n" "k = 0 \<longrightarrow> cs_window (sn_summer s) = padded (unat (pr_blocksize r)) content"
    and "cs_scans (sp_fs sp) content fresh c0 (sn_summer s)" "same_source c0 (sn_summer s)" "df_filesize (cs_diskfile c0) = cs_filesize c0"
    and l: "laid_out r i p k0 n content" and n: "0 < n" "n < 2 ^ 32" and sp: "sp_diskfile sp = diskfile" and bs: "cs_blocksize c0 = pr_blocksize r"
    and alloc: "pr_blocksallocated r" "p + n \<le> length (pr_sourceblocks r)"
  shows "\<exists>s'. scan_loop sp s = Some (ScanComplete, s') \<and> scanned r diskfile i p k0 n content n s' \<and> cs_scans (sp_fs sp) content fresh c0 (sn_summer s')"
  using assms(1-5)
proof (induction "n - k" arbitrary: k s)
  case 0
  then have "cs_off (sn_summer s) = length content" using l by (simp add: scanned_def laid_out_def)
  then have "scan_loop sp s = Some (ScanComplete, s)" using scan_live [OF 0(5,6) assms(6)] by (simp add: scan_loop.simps)
  then show ?case using 0 by simp
next
  case (Suc m)
  let ?c = "sn_summer s"
  have k: "k < n" using Suc.hyps(2) by simp
  have live: "k * unat (pr_blocksize r) < length content" using l k by (simp add: laid_out_def)
  then have off: "cs_off ?c < length content" using Suc.prems(1) by (simp add: scanned_def)
  have cb: "cs_blocksize ?c = pr_blocksize r" using Suc.prems(5) bs by (simp add: same_source_def)
  have "\<exists>d. vt_find_match (pr_table (sn_repairer s)) (scan_context diskfile (sn_repairer s)) (sn_next s) (sn_sourcefile s) ?c = (Some (k0 + k), d)"
  proof (cases "k = 0")
    case True
    then show ?thesis using find_first [OF Suc.prems(1) [unfolded True] n(1) l Suc.prems(4) cb] Suc.prems(3) by simp
  next
    case False
    then show ?thesis using find_next [OF Suc.prems(1) _ k l Suc.prems(4) cb] by simp
  qed
  then have r1: "scan_round sp s = scan_found sp (k0 + k) s" by (auto simp: scan_round_def sp)
  have "vt_entries (pr_table r) ! (k0 + k) = loaded_entry i p k0 n (k, content_entry (unat (pr_blocksize r)) content k)"
    "unat (db_length (pr_sourceblocks r ! (p + k))) = min (unat (pr_blocksize r)) (length content - k * unat (pr_blocksize r))"
    using l k by (simp_all add: laid_out_def)
  from scan_found_expected [OF Suc.prems(1) k n(2) this(1) sp alloc this(2) Suc.prems(4) cb live] obtain s' where
    s': "scan_found sp (k0 + k) s = Some (Inr s')" "scanned r diskfile i p k0 n content (Suc k) s'" by blast
  have "cs_scans (sp_fs sp) content fresh c0 (sn_summer s') \<and> same_source c0 (sn_summer s')"
  proof -
    obtain d ok c' where j: "cs_jump d (sp_fs sp) ?c = Some (True, c')" "sn_summer s' = c'"
      using s'(1) unfolding scan_found_def Let_def by (auto split: if_splits option.splits prod.splits bool.splits)
    show ?thesis
      using cs_scans_step(2) [OF Suc.prems(4) j(1)] same_source_trans [OF Suc.prems(5) cs_jump_same [OF j(1)]] j(2) by simp
  qed
  moreover have "scan_loop sp s = scan_loop sp s'"
    using scan_live [OF Suc.prems(4,5) assms(6)] off s'(1) r1 by (subst scan_loop.simps) simp
  ultimately show ?case using Suc.hyps(1) [of "Suc k" s'] Suc.hyps(2) s'(2) k by simp
qed

lemma scan_data_file_complete_rule:
  assumes "scannable memory fresh fs content diskfile r" "describes r i p vp dp content"
    and "pr_blocksallocated r" "sf_completefile (pr_files r ! i) = None" "length content + unat (pr_blocksize r) < 2 ^ 64"
  shows "\<exists>res. scan_data_file memory fresh diskfile renameonly fs (Some i) r = Some res \<and> sr_ok res \<and>
    sr_match res = Some FullMatch \<and> sr_sourcefile res = Some i \<and> sr_count res = Some (vp_blockcount vp) \<and>
    sr_hashes res = Some (md5 content, md5 (take 16384 content)) \<and>
    (\<forall>k<unat (vp_blockcount vp). pr_sourceblocks (sr_repairer res) ! (p + k) =
       db_set_location (Some diskfile) (word_of_nat (k * unat (pr_blocksize r))) (pr_sourceblocks r ! (p + k)))"
proof -
  let ?bs = "unat (pr_blocksize r)" and ?L = "length content" and ?d = "pr_store r diskfile"
  define n where "n = (?L + ?bs - 1) div ?bs"
  have ds: "sf_verification (pr_files r ! i) = Some vp" "sf_description (pr_files r ! i) = Some dp" "unat (dp_filesize dp) = ?L"
    "dp_hashfull dp = md5 content" "dp_hash16k dp = md5 (take 16384 content)" "unat (vp_blockcount vp) = n"
    "vp_entries vp = map (content_entry ?bs content) [0..<n]" "p + n \<le> length (pr_sourceblocks r)"
    "\<forall>k<n. pr_sourceblocks r ! (p + k) = fresh_block (pr_blocksize r) (dp_filesize dp) k"
    using assms(2) unfolding describes_def Let_def n_def by blast+
  obtain ls1 ls2 limit where tab: "pr_table r = vt_loads (ls1 @ (i, p, vp_entries vp) # ls2) (vt_set_limit limit vt_empty)"
    "i \<notin> fst ` set ls1" "i \<notin> fst ` set ls2"
    using assms(2) unfolding describes_def Let_def by blast
  have sc: "table_ready r" "unat (df_filesize ?d) = ?L" "content \<noteq> []" "0 < ?bs" using assms(1) by (simp_all add: scannable_def)
  have nz: "df_filesize ?d \<noteq> 0" using sc(2,3) by auto
  have nn: "n < 2 ^ 32" using ds(6) unsigned_less [of "vp_blockcount vp", where 'a = nat] by simp
  have "0 < pr_blocksize r" using sc(4) by (simp add: word_less_nat_alt)
  note fl = fresh_lengths(2) [OF this, of "dp_filesize dp" n]
  have small: "k * ?bs < ?L" if "k < n" for k
  proof -
    have "Suc k \<le> (?L + ?bs - 1) div ?bs" using that n_def by simp
    then have "Suc k * ?bs \<le> ?L + ?bs - 1" using less_eq_div_iff_mult_less_eq [OF sc(4)] by blast
    then show ?thesis using sc(4) by simp
  qed
  have "?L \<le> n * ?bs"
  proof -
    have "?L + ?bs - 1 < Suc n * ?bs" unfolding n_def using sc(4) by (metis dividend_less_div_times add.commute mult_Suc mult.commute)
    then show ?thesis using sc(4) by simp
  qed
  then have n0: "0 < n" using sc(3) by (cases n) auto
  have lv: "length (vp_entries vp) = n" "\<And>k. k < n \<Longrightarrow> vp_entries vp ! k = content_entry ?bs content k" by (simp_all add: ds(7))
  obtain k0 where k0: "k0 + length (vp_entries vp) \<le> length (vt_entries (pr_table r))"
    "\<forall>k<length (vp_entries vp). vt_entries (pr_table r) ! (k0 + k) = loaded_entry i p k0 (length (vp_entries vp)) (k, vp_entries vp ! k)"
    "\<forall>j<length (vt_entries (pr_table r)). ve_sourcefile (vt_entries (pr_table r) ! j) = i \<longrightarrow> k0 \<le> j"
    using vt_loads_split [OF tab] by blast
  have lens: "unat (db_length (pr_sourceblocks r ! (p + k))) = min ?bs (?L - k * ?bs)" if "k < n" for k
    using fl ds(3,9) assms(5) that n_def by simp
  have l: "laid_out r i p k0 n content"
    unfolding laid_out_def
    using k0 [unfolded lv(1)] lv(2) lens small \<open>?L \<le> n * ?bs\<close> assms(4) sc(1) ds(9) by (auto simp: table_ready_def fresh_block_def)
  obtain c0 c where c0: "c0 = cs_new memory ?d (pr_blocksize r) (pr_windowtable r)" "cs_start fresh fs c0 = Some (True, c)"
    "cs_blocksize c0 = pr_blocksize r" "cs_off c = 0" "cs_window c = padded ?bs content"
    "scan_inv (scan_params_of diskfile renameonly fs r) content fresh c0 r (scan_first r (Some i) c)"
    by (rule scan_starts [OF assms(1), of renameonly "Some i"])
  let ?sp = "scan_params_of diskfile renameonly fs r"
  have sp: "sp_diskfile ?sp = diskfile" "sp_fs ?sp = fs" by (simp_all add: scan_params_of_def Let_def)
  have s0: "scanned r diskfile i p k0 n content 0 (scan_first r (Some i) c)"
    using c0(4) unfolding scanned_def scan_first_def by (auto intro!: exI [of _ "pr_sourceblocks r"])
  obtain s where s: "scan_loop ?sp (scan_first r (Some i) c) = Some (ScanComplete, s)" "scanned r diskfile i p k0 n content n s"
    "cs_scans fs content fresh c0 (sn_summer s)"
    using scanned_loop [OF s0 _ _ _ _ _ l n0 nn sp(1) c0(3) assms(3) ds(8), of fresh] c0(5,6) sp(2)
    by (auto simp: scan_inv_def scan_first_def)
  have "cs_off (sn_summer s) = ?L" using s(2) \<open>?L \<le> n * ?bs\<close> by (simp add: scanned_def)
  then have h: "cs_get_file_hashes (sn_summer s) = (md5 content, md5 (take 16384 content))"
    using cs_scan_file_hashes_rule [OF s(3)] by simp
  obtain blocks where b: "sn_repairer s = r\<lparr>pr_sourceblocks := blocks\<rparr>"
    "\<forall>j<n. blocks ! (p + j) = db_set_location (Some diskfile) (word_of_nat (j * ?bs)) (pr_sourceblocks r ! (p + j))"
    using s(2) by (auto simp: scanned_def)
  have cnt: "sn_count s = vp_blockcount vp" using s(2) ds(6) [symmetric] by (simp add: scanned_def)
  have f: "sn_match s = FullMatch" "sn_sourcefile s = Some i" using s(2) by (simp_all add: scanned_def)
  have "df_filesize ?d = dp_filesize dp" using sc(2) ds(3) by (simp add: word_unat_eq_iff)
  moreover have "vp_blockcount vp \<noteq> 0" using ds(6) n0 by auto
  then have "0 < vp_blockcount vp" by (simp add: word_gt_0)
  ultimately have cf: "scan_confirm (df_filesize ?d) (md5 content, md5 (take 16384 content)) s = FullMatch"
    using f cnt ds b(1) by (simp add: scan_confirm_def)
  have "scan_data_file memory fresh diskfile renameonly fs (Some i) r = Some (scan_last diskfile r ScanComplete s)"
    by (rule scan_data_file_eq [OF nz c0(2) [unfolded c0(1)] s(1)])
  then show ?thesis using cf h f cnt b ds(6) by (simp add: scan_last_def set_disk_def)
qed

text \<open>C10: an undamaged target file passes verification: if the file has the size, the hashes and the blocks that the packets of
  its source file give, its entries were loaded into the table and its blocks are still to be found, then the scan
  returns a full match with this source file and as many blocks as it has, and puts each block at its
  own offset in the file, whatever other files are in the table.\<close>

theorem scan_data_file_complete:
  assumes "scannable memory fresh fs content diskfile r" "describes r i p vp dp content"
    and "pr_blocksallocated r" "sf_completefile (pr_files r ! i) = None" "length content + unat (pr_blocksize r) < 2 ^ 64"
  shows "\<exists>res. scan_data_file memory fresh diskfile renameonly fs (Some i) r = Some res \<and> sr_ok res \<and>
    sr_match res = Some FullMatch \<and> sr_sourcefile res = Some i \<and> sr_count res = Some (vp_blockcount vp) \<and>
    sr_hashes res = Some (md5 content, md5 (take 16384 content)) \<and>
    (\<forall>k<unat (vp_blockcount vp). pr_sourceblocks (sr_repairer res) ! (p + k) =
       db_set_location (Some diskfile) (word_of_nat (k * unat (pr_blocksize r))) (pr_sourceblocks r ! (p + k)))"
  by (rule scan_data_file_complete_rule [OF assms])

lemma ex_scan_describes: "describes ex_scan_repairer 0 0 ex_vp ex_dp ex_content"
proof -
  have f: "pr_blocksize ex_scan_repairer = 4" "pr_files ex_scan_repairer = [source_file_new (Some ex_dp) (Some ex_vp)]"
    "pr_blocksallocated ex_scan_repairer" "pr_sourceblocks ex_scan_repairer = map (fresh_block 4 5) [0..<2]"
    "pr_table ex_scan_repairer = vt_load 0 0 (vp_entries ex_vp) (vt_set_limit 2 vt_empty)"
    by (simp_all add: ex_scan_repairer_def)
  have l: "length (cp_data ex_dp) = 120" by (simp add: ex_dp_def length_md5)
  have "field 112 8 (cp_data ex_dp) = [5, 0, 0, 0, 0, 0, 0, 0]" by (simp add: ex_dp_def field_def length_md5)
  moreover have "leu64_value [5, 0, 0, 0, 0, 0, 0, 0] = Some 5" by code_simp
  ultimately have sz: "dp_filesize ex_dp = 5"
    using load64_value [of 112 "cp_data ex_dp"] l by (simp add: dp_filesize_def)
  have h: "dp_hashfull ex_dp = md5 ex_content" "dp_hash16k ex_dp = md5 (take 16384 ex_content)"
    by (simp_all add: dp_hashfull_def dp_hash16k_def ex_dp_def field_def length_md5)
  have e: "vp_entries ex_vp = map (content_entry 4 ex_content) [0..<2]"
    by (simp add: ex_vp_entries upt_conv_Cons content_entry_def ex_entry_def ex_content_def padded_def Let_def numeral_3_eq_3)
  show ?thesis
    unfolding describes_def Let_def
    using f h sz e
    by (simp add: source_file_new_def ex_content_def ex_vp_def vt_loads_def) (intro exI [of _ "[]"], auto)
qed

theorem scan_data_file_complete_witness:
  "\<exists>res. scan_data_file (replicate 8 0) ex_hasher 0 False (sample_fs ex_content) (Some 0) ex_scan_repairer = Some res \<and>
    sr_match res = Some FullMatch \<and> sr_count res = Some 2 \<and> db_offset (pr_sourceblocks (sr_repairer res) ! 1) = 4"
proof -
  have f: "pr_blocksize ex_scan_repairer = 4" "pr_files ex_scan_repairer = [source_file_new (Some ex_dp) (Some ex_vp)]"
    "pr_blocksallocated ex_scan_repairer"
    by (simp_all add: ex_scan_repairer_def)
  obtain res where res: "scan_data_file (replicate 8 0) ex_hasher 0 False (sample_fs ex_content) (Some 0) ex_scan_repairer = Some res"
    "sr_match res = Some FullMatch" "sr_count res = Some (vp_blockcount ex_vp)"
    "\<forall>k<unat (vp_blockcount ex_vp). pr_sourceblocks (sr_repairer res) ! (0 + k) =
       db_set_location (Some 0) (word_of_nat (k * unat (pr_blocksize ex_scan_repairer))) (pr_sourceblocks ex_scan_repairer ! (0 + k))"
    using scan_data_file_complete [OF ex_scannable ex_scan_describes f(3), of False] f(1,2) by (auto simp: source_file_new_def ex_content_def)
  then show ?thesis by (auto simp: ex_vp_def f(1) db_set_location_def)
qed

end
