(* ===== verification/RepairVerify_Correct.thy ===== *)
theory RepairVerify_Correct
  imports RepairVerify ScanData_Complete Loader_Refine
begin

unbundle bit_operations_syntax

text \<open>
  Verification is sound: a file that is recorded as complete is backed by a disk file with the size and the hashes of
  its description. This holds for any content of uninitialised memory, as long as some file has a verification packet.
\<close>

section \<open>The state during verification\<close>

definition matches_description :: "critical_packet \<Rightarrow> bytes \<Rightarrow> bool" where
  "matches_description dp content \<longleftrightarrow>
     unat (dp_filesize dp) = length content \<and> dp_hashfull dp = md5 content \<and> dp_hash16k dp = md5 (take 16384 content)"

definition complete_ok :: "fs \<Rightarrow> repairer \<Rightarrow> bool" where
  "complete_ok fs r \<longleftrightarrow>
     (\<forall>i<length (pr_files r). \<forall>d. sf_completefile (pr_files r ! i) = Some d \<longrightarrow>
        d < pr_nextdisk r \<and>
        (\<exists>dp content. sf_description (pr_files r ! i) = Some dp \<and> fs_files fs (df_filename (pr_store r d)) = Some content \<and>
           matches_description dp content))"

text \<open>The files that are matched as a whole have a description, and room for their blocks.\<close>

definition whole_ok :: "repairer \<Rightarrow> bool" where
  "whole_ok r \<longleftrightarrow>
     (\<forall>i\<in>set (pr_unverifiable r). i < length (pr_files r) \<and>
        (\<exists>dp. sf_description (pr_files r ! i) = Some dp \<and> unat (dp_filesize dp) + unat (pr_blocksize r) < 2 ^ 64 \<and>
           (pr_blocksallocated r \<longrightarrow> 0 < dp_filesize dp \<longrightarrow>
              (\<exists>b. sf_sourceblocks (pr_files r ! i) = Some b \<and>
                 b + (unat (dp_filesize dp) + unat (pr_blocksize r) - 1) div unat (pr_blocksize r) \<le> length (pr_sourceblocks r)))))"

definition verifying :: "fs \<Rightarrow> repairer \<Rightarrow> bool" where
  "verifying fs r \<longleftrightarrow> table_ready r \<and> whole_ok r \<and> complete_ok fs r \<and> pr_blockverifiable r \<and>
     pr_windowtable r = generate_window_table (pr_blocksize r) \<and> 0 < unat (pr_blocksize r) \<and> unat (pr_blocksize r) < 2 ^ 61 \<and>
     (\<forall>e\<in>set (vt_entries (pr_table r)). ve_sourcefile e < length (pr_files r))"

definition junk_ok :: "u64 \<Rightarrow> uninit \<Rightarrow> bool" where
  "junk_ok blocksize u \<longleftrightarrow> length (un_memory u) = 2 * unat blocksize \<and> length (hi_tmp (un_hasher u)) = 128"

text \<open>What verification leaves alone.\<close>

definition same_setup :: "repairer \<Rightarrow> repairer \<Rightarrow> bool" where
  "same_setup r r' \<longleftrightarrow>
     pr_table r' = pr_table r \<and> pr_blocksize r' = pr_blocksize r \<and> pr_unverifiable r' = pr_unverifiable r \<and>
     pr_blockverifiable r' = pr_blockverifiable r \<and> pr_windowtable r' = pr_windowtable r \<and>
     pr_blocksallocated r' = pr_blocksallocated r \<and> pr_mainpacket r' = pr_mainpacket r \<and> pr_sourcefiles r' = pr_sourcefiles r \<and>
     pr_sourceblockcount r' = pr_sourceblockcount r \<and> pr_recoverypackets r' = pr_recoverypackets r \<and>
     length (pr_sourceblocks r') = length (pr_sourceblocks r) \<and> length (pr_files r') = length (pr_files r) \<and>
     (\<forall>i<length (pr_files r). sf_description (pr_files r' ! i) = sf_description (pr_files r ! i) \<and>
        sf_sourceblocks (pr_files r' ! i) = sf_sourceblocks (pr_files r ! i) \<and> sf_blockcount (pr_files r' ! i) = sf_blockcount (pr_files r ! i) \<and>
        sf_targetfilename (pr_files r' ! i) = sf_targetfilename (pr_files r ! i))"

lemma same_setup_refl [simp]: "same_setup r r"
  by (simp add: same_setup_def)

lemma same_setup_trans: "same_setup a b \<Longrightarrow> same_setup b c \<Longrightarrow> same_setup a c"
  by (simp add: same_setup_def)

lemma same_setup_set_disk [simp]: "same_setup r (set_disk p d r')  = same_setup r r'"
  by (simp add: same_setup_def set_disk_def)

section \<open>Whole file matches\<close>

lemma list_update_lookup: "xs[i := x] ! j = (if i = j \<and> j < length xs then x else xs ! j)"
  by (cases "i < length xs") (auto simp: nth_list_update list_update_beyond)

lemma locate_blocks_ok:
  assumes "0 < blocksize" "unat filesize + unat blocksize < 2 ^ 64" "unat off = k * unat blocksize"
    and "b + ((unat filesize + unat blocksize - 1) div unat blocksize - k) \<le> length blocks"
  shows "\<exists>blocks'. locate_blocks diskfile blocksize filesize off b blocks = Some blocks' \<and> length blocks' = length blocks \<and>
    (\<forall>n<length blocks. blocks' ! n = blocks ! n \<or> 0 < db_length (blocks' ! n) \<and> db_length (blocks' ! n) \<le> blocksize)"
  using assms
proof (induction diskfile blocksize filesize off b blocks arbitrary: k rule: locate_blocks.induct)
  case (1 diskfile blocksize filesize off b blocks)
  let ?bs = "unat blocksize" and ?f = "unat filesize"
  show ?case
  proof (cases "off < filesize")
    case False
    then show ?thesis by (subst locate_blocks.simps) simp
  next
    case True
    have bs: "0 < ?bs" using 1(2) by (simp add: word_less_nat_alt)
    have kf: "k * ?bs < ?f" using True 1(4) by (simp add: word_less_nat_alt)
    then have "Suc k * ?bs \<le> ?f + ?bs - 1" by simp
    then have kn: "Suc k \<le> (?f + ?bs - 1) div ?bs" using less_eq_div_iff_mult_less_eq [OF bs] by blast
    then have b: "b < length blocks" using 1(5) by simp
    let ?db = "db_set_length (min blocksize (filesize - off)) (db_set_location (Some diskfile) off (blocks ! b))"
    have "unat (off + blocksize) = Suc k * ?bs" using kf 1(3,4) by (simp add: unat_word_ariths)
    moreover have "Suc b + ((?f + ?bs - 1) div ?bs - Suc k) \<le> length (blocks[b := ?db])" using 1(5) kn by simp
    ultimately obtain blocks' where b': "locate_blocks diskfile blocksize filesize (off + blocksize) (Suc b) (blocks[b := ?db]) = Some blocks'"
      "length blocks' = length blocks"
      "\<forall>n<length blocks. blocks' ! n = blocks[b := ?db] ! n \<or> 0 < db_length (blocks' ! n) \<and> db_length (blocks' ! n) \<le> blocksize"
      using 1(1) [OF True b 1(2,3), of "Suc k"] by auto
    have "filesize - off \<noteq> 0" using True by auto
    then have "0 < db_length ?db" using 1(2) by (simp add: db_set_length_def word_gt_0 min_def)
    moreover have "db_length ?db \<le> blocksize" by (simp add: db_set_length_def)
    ultimately have "blocks' ! n = blocks ! n \<or> 0 < db_length (blocks' ! n) \<and> db_length (blocks' ! n) \<le> blocksize"
      if "n < length blocks" for n
      using b'(3) that by (cases "n = b") auto
    then show ?thesis using True b b'(1,2) by (subst locate_blocks.simps) simp
  qed
qed

lemma table_ready_blocks:
  assumes "table_ready r" "pr_table r' = pr_table r" "pr_blocksize r' = pr_blocksize r" "length (pr_sourceblocks r') = length (pr_sourceblocks r)"
    and "\<forall>n<length (pr_sourceblocks r). db_length (pr_sourceblocks r' ! n) = db_length (pr_sourceblocks r ! n) \<or>
      0 < db_length (pr_sourceblocks r' ! n) \<and> db_length (pr_sourceblocks r' ! n) \<le> pr_blocksize r"
  shows "table_ready r'"
proof -
  have "0 < db_length (pr_sourceblocks r' ! n) \<and> db_length (pr_sourceblocks r' ! n) \<le> pr_blocksize r"
    if "n < length (pr_sourceblocks r)" "0 < db_length (pr_sourceblocks r ! n)" "db_length (pr_sourceblocks r ! n) \<le> pr_blocksize r" for n
    using assms(5) that by auto
  then show ?thesis using assms(1) by (simp add: table_ready_def assms(2-4))
qed

text \<open>A step of verification that keeps the setup and adds only true matches keeps the state in order.\<close>

lemma verifying_step:
  assumes "verifying fs r" "same_setup r r'" "complete_ok fs r'" "table_ready r'"
  shows "verifying fs r'"
proof -
  have f: "pr_table r' = pr_table r" "pr_blocksize r' = pr_blocksize r" "pr_unverifiable r' = pr_unverifiable r"
    "pr_blockverifiable r' = pr_blockverifiable r" "pr_windowtable r' = pr_windowtable r"
    "pr_blocksallocated r' = pr_blocksallocated r" "length (pr_sourceblocks r') = length (pr_sourceblocks r)"
    "length (pr_files r') = length (pr_files r)"
    and g: "\<And>i. i < length (pr_files r) \<Longrightarrow> sf_description (pr_files r' ! i) = sf_description (pr_files r ! i) \<and>
        sf_sourceblocks (pr_files r' ! i) = sf_sourceblocks (pr_files r ! i)"
    using assms(2) by (auto simp: same_setup_def)
  have "whole_ok r'" using assms(1) g unfolding verifying_def whole_ok_def f by (metis (no_types, lifting))
  then show ?thesis using assms(1,3,4) by (simp add: verifying_def f)
qed

text \<open>Recording a match.\<close>

lemma complete_ok_record:
  assumes "complete_ok fs r" "sf_description (pr_files r ! i) = Some dp" "diskfile < pr_nextdisk r"
    and "fs_files fs (df_filename (pr_store r diskfile)) = Some content" "matches_description dp content"
  shows "complete_ok fs (upd_file i (\<lambda>sf. sf\<lparr>sf_completefile := Some diskfile\<rparr>) r)"
  using assms by (auto simp: complete_ok_def upd_file_def list_update_lookup)

lemma complete_ok_cong:
  assumes "complete_ok fs r" "pr_files r' = pr_files r" "pr_nextdisk r \<le> pr_nextdisk r'"
    "\<And>d. d < pr_nextdisk r \<Longrightarrow> df_filename (pr_store r' d) = df_filename (pr_store r d)"
  shows "complete_ok fs r'"
  using assms by (fastforce simp: complete_ok_def)

lemma match_unverifiable_ok:
  assumes "verifying fs r" "set is \<subseteq> set (pr_unverifiable r)" "diskfile < pr_nextdisk r"
    and "fs_files fs (df_filename (pr_store r diskfile)) = Some content" "unat (df_filesize (pr_store r diskfile)) = length content"
  shows "\<exists>r'. match_unverifiable diskfile (md5 content, md5 (take 16384 content)) r is = Some r' \<and> verifying fs r' \<and>
    same_setup r r' \<and> pr_store r' = pr_store r \<and> pr_nextdisk r' = pr_nextdisk r \<and> pr_diskfilemap r' = pr_diskfilemap r"
  using assms(2)
proof (induction "is")
  case Nil
  then show ?case using assms(1) by simp
next
  case (Cons i "is")
  have i: "i \<in> set (pr_unverifiable r)" using Cons.prems by simp
  then obtain dp where dp: "i < length (pr_files r)" "sf_description (pr_files r ! i) = Some dp"
    "unat (dp_filesize dp) + unat (pr_blocksize r) < 2 ^ 64"
    "pr_blocksallocated r \<Longrightarrow> 0 < dp_filesize dp \<Longrightarrow> \<exists>b. sf_sourceblocks (pr_files r ! i) = Some b \<and>
      b + (unat (dp_filesize dp) + unat (pr_blocksize r) - 1) div unat (pr_blocksize r) \<le> length (pr_sourceblocks r)"
    using assms(1) unfolding verifying_def whole_ok_def by blast
  let ?h = "(md5 content, md5 (take 16384 content))"
  obtain m where m: "whole_match diskfile ?h r i = Some m" using dp(2) by (cases "sf_completefile (pr_files r ! i)") (auto simp: whole_match_def)
  show ?case
  proof (cases m)
    case False
    then show ?thesis using m Cons by simp
  next
    case True
    then have md: "matches_description dp content"
      using m dp(2) assms(5) by (auto simp: whole_match_def matches_description_def split: if_splits)
    define r1 where "r1 = upd_file i (\<lambda>sf. sf\<lparr>sf_completefile := Some diskfile\<rparr>) r"
    have c1: "complete_ok fs r1" unfolding r1_def
      using complete_ok_record [OF _ dp(2) assms(3,4) md] assms(1) by (simp add: verifying_def)
    have f1: "pr_store r1 = pr_store r" "pr_nextdisk r1 = pr_nextdisk r" "pr_diskfilemap r1 = pr_diskfilemap r" "pr_files r1 ! i = (pr_files r ! i)\<lparr>sf_completefile := Some diskfile\<rparr>"
      "pr_blocksallocated r1 = pr_blocksallocated r" "pr_sourceblocks r1 = pr_sourceblocks r" "pr_blocksize r1 = pr_blocksize r"
      using dp(1) by (simp_all add: r1_def upd_file_def)
    have s1: "same_setup r r1" using dp(1) by (auto simp: same_setup_def r1_def upd_file_def nth_list_update)
    have t1: "table_ready r1" using assms(1) by (simp add: verifying_def r1_def upd_file_def table_ready_def)
    show ?thesis
    proof (cases "pr_blocksallocated r \<and> 0 < dp_filesize dp")
      case False
      have "match_unverifiable diskfile ?h r (i # is) = Some r1" using m True False dp(2) by (auto simp: Let_def r1_def upd_file_def)
      then show ?thesis using verifying_step [OF assms(1) s1 c1 t1] s1 f1 by simp
    next
      case alloc: True
      obtain b where b: "sf_sourceblocks (pr_files r ! i) = Some b"
        "b + (unat (dp_filesize dp) + unat (pr_blocksize r) - 1) div unat (pr_blocksize r) \<le> length (pr_sourceblocks r)"
        using dp(4) alloc by blast
      have "0 < pr_blocksize r" using assms(1) by (simp add: verifying_def word_less_nat_alt)
      from locate_blocks_ok [OF this dp(3), of 0 0 b "pr_sourceblocks r" diskfile] b(2) obtain blocks where
        bl: "locate_blocks diskfile (pr_blocksize r) (dp_filesize dp) 0 b (pr_sourceblocks r) = Some blocks" "length blocks = length (pr_sourceblocks r)"
        "\<forall>n<length (pr_sourceblocks r). blocks ! n = pr_sourceblocks r ! n \<or> 0 < db_length (blocks ! n) \<and> db_length (blocks ! n) \<le> pr_blocksize r"
        by auto
      let ?r2 = "r1\<lparr>pr_sourceblocks := blocks\<rparr>"
      have e: "match_unverifiable diskfile ?h r (i # is) = Some ?r2"
        using m True alloc dp(2) b(1) bl(1) f1 by (simp add: Let_def r1_def [symmetric])
      have s2: "same_setup r ?r2" using s1 bl(2) by (simp add: same_setup_def)
      have c2: "complete_ok fs ?r2" using c1 by (simp add: complete_ok_def)
      have t2: "table_ready ?r2"
        by (rule table_ready_blocks [OF t1]) (use bl(2,3) f1 in auto)
      show ?thesis using e verifying_step [OF assms(1) s2 c2 t2] s2 f1(1-3) by simp
    qed
  qed
qed

section \<open>Scanning within a verification\<close>

text \<open>An empty target file is scanned without a match, but with its hashes.\<close>

lemma scan_empty:
  assumes "df_filesize (pr_store r diskfile) = 0" "sf_targetexists (pr_files r ! i)" "length (hi_tmp fresh) = 128"
  shows "\<exists>res d. scan_data_file memory fresh diskfile renameonly fs (Some i) r = Some res \<and> sr_ok res \<and>
    sr_match res = Some NoMatch \<and> sr_hashes res = Some (md5 [], md5 (take 16384 [])) \<and>
    sr_repairer res = set_disk diskfile d r \<and> same_disk (pr_store r diskfile) d"
proof -
  let ?c = "cs_new memory (pr_store r diskfile) (pr_blocksize r) (pr_windowtable r)"
  define c0 where "c0 = ?c\<lparr>cs_currentoffset := 0, cs_readoffset := 0, cs_tailpointer := 0, cs_outpointer := 0,
                cs_inpointer := unat (cs_blocksize ?c), cs_hasher := Some (hasher_reset fresh)\<rparr>"
  define c where "c = cs_compute_checksum True c0"
  have z: "cs_filesize c0 = 0" "cs_readoffset c0 = 0" "cs_currentoffset c0 = 0" "cs_diskfile c0 = pr_store r diskfile"
    "cs_context16k c0 = md5_single_new"
    using assms(1) by (simp_all add: c0_def cs_new_def)
  have "cs_fill False fs c0 = Some (True, c0)" using z by (simp add: cs_fill_def Let_def)
  then have st: "cs_start fresh fs ?c = Some (True, c)" by (simp add: cs_start_def Let_def c0_def [symmetric] c_def)
  have cz: "cs_filesize c = 0" "cs_currentoffset c = 0" "cs_diskfile c = pr_store r diskfile" "cs_context16k c = md5_single_new"
    using z by (simp_all add: c_def)
  let ?s = "scan_first r (Some i) c"
  have l: "scan_loop (scan_params_of diskfile renameonly fs r) ?s = Some (ScanComplete, ?s)"
    using cz assms(1) by (subst scan_loop.simps) (simp add: scan_first_def)
  have e: "scan_data_file memory fresh diskfile renameonly fs (Some i) r = Some (scan_last diskfile r ScanComplete ?s)"
    using assms(1,2) st l by (simp add: scan_data_file_def Let_def)
  have "ms_absorbs md5_single_new []" by (simp add: md5_single_new_def ms_absorbs_def md5_chunks_short)
  then have "md5_end md5_single_new = md5 []" by (rule md5_end_absorbs)
  then have "cs_get_file_hashes c = (md5 [], md5 [])" using cz by (simp add: cs_get_file_hashes_def Let_def)
  then show ?thesis using e cz by (intro exI [of _ "scan_last diskfile r ScanComplete ?s"] exI [of _ "pr_store r diskfile"])
    (simp add: scan_last_def scan_first_def scan_confirm_def)
qed

text \<open>A scan keeps the state in order.\<close>

lemma verifying_scan:
  assumes "verifying fs r" "diskfile < pr_nextdisk r" "same_disk (pr_store r diskfile) d"
    and "blocks_placed diskfile found (pr_sourceblocks r) blocks"
  shows "verifying fs (set_disk diskfile d (r\<lparr>pr_sourceblocks := blocks\<rparr>))" "same_setup r (set_disk diskfile d (r\<lparr>pr_sourceblocks := blocks\<rparr>))"
proof -
  let ?r = "set_disk diskfile d (r\<lparr>pr_sourceblocks := blocks\<rparr>)"
  have l: "length blocks = length (pr_sourceblocks r)" using assms(4) by (simp add: blocks_placed_def)
  then show s: "same_setup r ?r" by (simp add: same_setup_def set_disk_def)
  have c: "complete_ok fs ?r"
    using complete_ok_cong [of fs r ?r] assms(1,3) by (simp add: verifying_def set_disk_def same_disk_def)
  have t: "table_ready r" using assms(1) by (simp add: verifying_def)
  have "table_ready ?r"
    by (rule table_ready_blocks [OF t]) (use l blocks_placed_length [OF assms(4)] in \<open>simp_all add: set_disk_def\<close>)
  from verifying_step [OF assms(1) s c this] show "verifying fs ?r" .
qed

lemma scannable_verifying:
  assumes "verifying fs r" "junk_ok (pr_blocksize r) u" "disk_ready ReadMode content (pr_store r diskfile) fs"
    "unat (df_filesize (pr_store r diskfile)) = length content" "length content < 2 ^ 61" "content \<noteq> []"
  shows "scannable (un_memory u) (un_hasher u) fs content diskfile r"
  using assms by (simp add: scannable_def verifying_def junk_ok_def)

lemma verify_data_file_ok:
  assumes v: "verifying fs r" and u: "junk_ok (pr_blocksize r) u" and d: "diskfile < pr_nextdisk r"
    and disk: "disk_ready ReadMode content (pr_store r diskfile) fs" "unat (df_filesize (pr_store r diskfile)) = length content"
      "length content < 2 ^ 61"
    and src: "content = [] \<longrightarrow> (\<exists>i. sourcefile = Some i \<and> sf_targetexists (pr_files r ! i))"
      "case sourcefile of None \<Rightarrow> True | Some i \<Rightarrow> i < length (pr_files r)"
  shows "\<exists>r'. verify_data_file u diskfile renameonly fs sourcefile r = Some (True, r') \<and> verifying fs r' \<and> same_setup r r' \<and>
    pr_nextdisk r' = pr_nextdisk r \<and> pr_diskfilemap r' = pr_diskfilemap r \<and> (\<forall>p. df_filename (pr_store r' p) = df_filename (pr_store r p))"
proof -
  let ?h = "(md5 content, md5 (take 16384 content))"
  have fc: "fs_files fs (df_filename (pr_store r diskfile)) = Some content" using disk(1) by (simp add: disk_ready_def)
  have bv: "pr_blockverifiable r" using v by (simp add: verifying_def)
  have whole: "\<exists>r'. verify_whole u diskfile fs ?h r1 = Some (True, r') \<and> verifying fs r' \<and> same_setup r r' \<and>
      pr_nextdisk r' = pr_nextdisk r \<and> pr_diskfilemap r' = pr_diskfilemap r \<and> (\<forall>p. df_filename (pr_store r' p) = df_filename (pr_store r p))"
    if r1: "r1 = set_disk diskfile d1 (r\<lparr>pr_sourceblocks := blocks\<rparr>)" "same_disk (pr_store r diskfile) d1" "verifying fs r1" "same_setup r r1" for r1 d1 blocks
  proof -
    have f: "diskfile < pr_nextdisk r1" "fs_files fs (df_filename (pr_store r1 diskfile)) = Some content"
      "unat (df_filesize (pr_store r1 diskfile)) = length content"
      "pr_nextdisk r1 = pr_nextdisk r" "pr_diskfilemap r1 = pr_diskfilemap r" "\<forall>p. df_filename (pr_store r1 p) = df_filename (pr_store r p)"
      "pr_blockverifiable r1"
      using d fc disk(2) r1(2) bv by (simp_all add: r1(1) set_disk_def same_disk_def)
    obtain r' where r': "match_unverifiable diskfile ?h r1 (pr_unverifiable r1) = Some r'" "verifying fs r'" "same_setup r1 r'"
      "pr_store r' = pr_store r1" "pr_nextdisk r' = pr_nextdisk r1" "pr_diskfilemap r' = pr_diskfilemap r1"
      using match_unverifiable_ok [OF r1(3) order.refl f(1-3)] by blast
    have s: "same_setup r r'" by (rule same_setup_trans [OF r1(4) r'(3)])
    show ?thesis
    proof (cases "pr_unverifiable r1 = []")
      case True
      then show ?thesis using r1(3,4) f by (simp add: verify_whole_def)
    next
      case False
      then have "verify_whole u diskfile fs ?h r1 = Some (True, r')" using f(7) r'(1) by (simp add: verify_whole_def)
      then show ?thesis using s r'(2,4-6) f by simp
    qed
  qed
  show ?thesis
  proof (cases "content = []")
    case True
    then obtain i where i: "sourcefile = Some i" "sf_targetexists (pr_files r ! i)" using src(1) by blast
    have "df_filesize (pr_store r diskfile) = 0" "length (hi_tmp (un_hasher u)) = 128"
      using disk(2) True u by (simp_all add: unat_eq_0 junk_ok_def)
    from scan_empty [OF this(1) i(2) this(2)] obtain res d1 where res:
      "scan_data_file (un_memory u) (un_hasher u) diskfile renameonly fs (Some i) r = Some res" "sr_ok res" "sr_match res = Some NoMatch"
      "sr_hashes res = Some ?h" "sr_repairer res = set_disk diskfile d1 r" "same_disk (pr_store r diskfile) d1"
      using True by metis
    have r1: "sr_repairer res = set_disk diskfile d1 (r\<lparr>pr_sourceblocks := pr_sourceblocks r\<rparr>)" using res(5) by simp
    have "blocks_placed diskfile (\<lambda>_ _. False) (pr_sourceblocks r) (pr_sourceblocks r)" by simp
    note vs = verifying_scan [OF v d res(6) this]
    have "verify_data_file u diskfile renameonly fs sourcefile r = verify_whole u diskfile fs ?h (sr_repairer res)"
      using bv res(1-4) i(1) by (simp add: verify_data_file_def)
    then show ?thesis using whole [OF r1 res(6)] vs r1 by simp
  next
    case False
    note sc = scannable_verifying [OF v u disk False]
    obtain res blocks d1 where res: "scan_data_file (un_memory u) (un_hasher u) diskfile renameonly fs sourcefile r = Some res" "sr_ok res"
      "sr_repairer res = set_disk diskfile d1 (r\<lparr>pr_sourceblocks := blocks\<rparr>)" "same_disk (pr_store r diskfile) d1"
      "blocks_placed diskfile (found_at (pr_table r) content (unat (pr_blocksize r))) (pr_sourceblocks r) blocks"
      "sr_match res \<noteq> None" "sr_match res = Some NoMatch \<longrightarrow> sr_hashes res = Some ?h"
      "sr_match res = Some FullMatch \<longrightarrow> (\<exists>i dp. sr_sourcefile res = Some i \<and> sf_description (pr_files r ! i) = Some dp \<and>
         matches_description dp content)"
      using scan_data_file_rule [OF sc, of renameonly sourcefile] unfolding matches_description_def by blast
    note vs = verifying_scan [OF v d res(4,5)]
    define r1 where "r1 = sr_repairer res"
    have f1: "pr_nextdisk r1 = pr_nextdisk r" "pr_diskfilemap r1 = pr_diskfilemap r" "\<forall>p. df_filename (pr_store r1 p) = df_filename (pr_store r p)"
      "pr_files r1 = pr_files r"
      using res(4) by (simp_all add: r1_def res(3) set_disk_def same_disk_def)
    have v1: "verifying fs r1" "same_setup r r1" using vs by (simp_all add: r1_def res(3))
    obtain m where m: "sr_match res = Some m" using res(6) by blast
    have e: "verify_data_file u diskfile renameonly fs sourcefile r =
        (case m of PartialMatch \<Rightarrow> Some (True, r1)
         | FullMatch \<Rightarrow> map_option (\<lambda>i. (True, upd_file i (\<lambda>sf. sf\<lparr>sf_completefile := Some diskfile\<rparr>) r1)) (sr_sourcefile res)
         | NoMatch \<Rightarrow> verify_whole u diskfile fs (case sr_hashes res of None \<Rightarrow> (un_hashfull u, un_hash16k u) | Some h \<Rightarrow> h) r1)"
      using bv res(1,2) m by (simp add: verify_data_file_def r1_def split: match_type.split)
    show ?thesis
    proof (cases m)
      case NoMatch
      then show ?thesis using e res(7) m whole [OF _ res(4)] vs unfolding r1_def res(3) by simp
    next
      case PartialMatch
      then show ?thesis using e v1 f1 by simp
    next
      case FullMatch
      then obtain i dp where i: "sr_sourcefile res = Some i" "sf_description (pr_files r ! i) = Some dp" "matches_description dp content"
        using res(8) m by blast
      define r2 where "r2 = upd_file i (\<lambda>sf. sf\<lparr>sf_completefile := Some diskfile\<rparr>) r1"
      have c2: "complete_ok fs r2" unfolding r2_def
        by (rule complete_ok_record) (use v1 i f1 d fc in \<open>simp_all add: verifying_def\<close>)
      have s2: "same_setup r r2"
      proof (cases "i < length (pr_files r1)")
        case True
        then show ?thesis using v1(2) by (auto simp: same_setup_def r2_def upd_file_def nth_list_update)
      next
        case False
        then show ?thesis using v1(2) by (simp add: r2_def upd_file_def list_update_beyond)
      qed
      have t2: "table_ready r2" using v1(1) by (simp add: verifying_def r2_def upd_file_def table_ready_def)
      have f2: "pr_store r2 = pr_store r1" "pr_nextdisk r2 = pr_nextdisk r1" "pr_diskfilemap r2 = pr_diskfilemap r1"
        by (simp_all add: r2_def upd_file_def)
      show ?thesis using e FullMatch i(1) verifying_step [OF v s2 c2 t2] s2 f1 f2 by (simp add: r2_def [symmetric])
    qed
  qed
qed

section \<open>Verifying all files\<close>

definition files_fit :: "fs \<Rightarrow> bool" where
  "files_fit fs \<longleftrightarrow> (\<forall>name content. fs_files fs name = Some content \<longrightarrow> length content < 2 ^ 61)"

lemma disk_open_cases:
  assumes "files_fit fs"
  obtains (missing) d where "fs_files fs name = None" "disk_open name diskfile_new fs = (False, d)"
  | (there) content d where "fs_files fs name = Some content" "disk_open name diskfile_new fs = (True, d)" "disk_ready ReadMode content d fs"
    "unat (df_filesize d) = length content" "length content < 2 ^ 61"
proof (cases "fs_files fs name")
  case None
  then have "\<not> fst (disk_open name diskfile_new fs)"
    by (simp add: disk_open_def disk_open_size_def os_fopen_rb_def Let_def)
  then show ?thesis using missing [OF None] by (cases "disk_open name diskfile_new fs") auto
next
  case (Some content)
  then have l: "length content < 2 ^ 61" using assms by (simp add: files_fit_def)
  then have l63: "length content < 2 ^ 63" by simp
  obtain d where d: "disk_open name diskfile_new fs = (True, d)" "disk_ready ReadMode content d fs" "df_filesize d = word_of_nat (length content)"
    using disk_open_reads [OF Some l63] by blast
  then have "unat (df_filesize d) = length content" using l by (simp add: unat_of_nat)
  then show ?thesis using there [OF Some d(1,2)] l by simp
qed

lemma verifying_new_disk:
  assumes "verifying fs r" "new_disk r = (p, r1)"
  shows "verifying fs (set_disk p d r1)" "same_setup r (set_disk p d r1)" "p = pr_nextdisk r" "pr_nextdisk r1 = Suc p"
    "pr_files r1 = pr_files r" "pr_diskfilemap r1 = pr_diskfilemap r" "pr_store r1 p = diskfile_new"
proof -
  have r1: "p = pr_nextdisk r" "r1 = r\<lparr>pr_nextdisk := Suc (pr_nextdisk r), pr_store := (pr_store r)(pr_nextdisk r := diskfile_new)\<rparr>"
    using assms(2) by (auto simp: new_disk_def)
  then show "p = pr_nextdisk r" "pr_nextdisk r1 = Suc p" "pr_files r1 = pr_files r" "pr_diskfilemap r1 = pr_diskfilemap r"
    "pr_store r1 p = diskfile_new" by simp_all
  show s: "same_setup r (set_disk p d r1)" by (simp add: same_setup_def r1 set_disk_def)
  have "complete_ok fs (set_disk p d r1)"
    using complete_ok_cong [of fs r "set_disk p d r1"] assms(1) by (simp add: verifying_def r1 set_disk_def)
  moreover have "table_ready (set_disk p d r1)" using assms(1) by (simp add: verifying_def r1 set_disk_def table_ready_def)
  ultimately show "verifying fs (set_disk p d r1)" by (rule verifying_step [OF assms(1) s])
qed

lemma verifying_target:
  assumes "verifying fs r" and r'_def: "r' = (upd_file i (\<lambda>sf. sf\<lparr>sf_targetexists := True, sf_targetfile := Some p\<rparr>) r)\<lparr>pr_diskfilemap := m\<rparr>"
  shows "verifying fs r'" "same_setup r r'" "pr_nextdisk r' = pr_nextdisk r" "pr_store r' = pr_store r"
proof -
  show s: "same_setup r r'" by (auto simp: same_setup_def r'_def upd_file_def list_update_lookup)
  show "pr_nextdisk r' = pr_nextdisk r" "pr_store r' = pr_store r" by (simp_all add: r'_def upd_file_def)
  have "complete_ok fs r'" using assms(1) by (auto simp: verifying_def complete_ok_def r'_def upd_file_def list_update_lookup)
  moreover have "table_ready r'" using assms(1) by (simp add: verifying_def r'_def upd_file_def table_ready_def)
  ultimately show "verifying fs r'" by (rule verifying_step [OF assms(1) s])
qed

lemma verifying_close:
  assumes "verifying fs r" shows "verifying fs (set_disk p (disk_close (pr_store r p)) r)"
proof -
  let ?r = "set_disk p (disk_close (pr_store r p)) r"
  have "same_setup r ?r" by simp
  moreover have "complete_ok fs ?r"
    using complete_ok_cong [of fs r ?r] assms by (simp add: verifying_def set_disk_def disk_close_def)
  moreover have "table_ready ?r" using assms by (simp add: verifying_def set_disk_def table_ready_def)
  ultimately show ?thesis by (rule verifying_step [OF assms])
qed

lemma verify_source_file_ok:
  assumes v: "verifying fs r" and u: "\<And>name. junk_ok (pr_blocksize r) (u name)" and fit: "files_fit fs" and i: "i < length (pr_files r)"
  shows "\<exists>f' ex' r'. verify_source_file u cwd fs i (f, ex, r) = Some (f', ex', r') \<and> verifying fs r' \<and> same_setup r r'"
proof (cases "map_find (sf_targetfilename (pr_files r ! i)) (pr_diskfilemap r) = None")
  case False
  then show ?thesis using v by (auto simp: verify_source_file_def Let_def)
next
  case True
  let ?name = "sf_targetfilename (pr_files r ! i)"
  obtain p r1 where n: "new_disk r = (p, r1)" by (rule prod.exhaust)
  note vn = verifying_new_disk [OF v n]
  show ?thesis
  proof (rule disk_open_cases [OF fit, of ?name])
    fix d assume "disk_open ?name diskfile_new fs = (False, d)"
    then have e: "verify_source_file u cwd fs i (f, ex, r) = Some (f, remove1 (get_canonical_pathname cwd ?name) ex, r1)"
      using True n vn(7) by (simp add: verify_source_file_def Let_def)
    have "set_disk p diskfile_new r1 = r1" using vn(7) by (simp add: set_disk_def fun_upd_idem)
    then show ?thesis using e vn(1,2) [of diskfile_new] by simp
  next
    fix content d
    assume d: "disk_open ?name diskfile_new fs = (True, d)" "disk_ready ReadMode content d fs" "unat (df_filesize d) = length content" "length content < 2 ^ 61"
    define r2 where "r2 = (upd_file i (\<lambda>sf. sf\<lparr>sf_targetexists := True, sf_targetfile := Some p\<rparr>) (set_disk p d r1))
      \<lparr>pr_diskfilemap := snd (map_insert ?name p (pr_diskfilemap (set_disk p d r1)))\<rparr>"
    have vt: "verifying fs r2" "same_setup (set_disk p d r1) r2" "pr_nextdisk r2 = pr_nextdisk (set_disk p d r1)" "pr_store r2 = pr_store (set_disk p d r1)"
      by (rule verifying_target [OF vn(1) r2_def])+
    have s2: "same_setup r r2" by (rule same_setup_trans [OF vn(2) vt(2)])
    have f2: "p < pr_nextdisk r2" "pr_store r2 p = d" "pr_blocksize r2 = pr_blocksize r" "sf_targetexists (pr_files r2 ! i)" "i < length (pr_files r2)"
      using vt(3,4) vn(4,5) s2 i by (simp_all add: set_disk_def same_setup_def) (simp add: r2_def upd_file_def set_disk_def)
    obtain r3 where r3: "verify_data_file (u ?name) p False fs (Some i) r2 = Some (True, r3)" "verifying fs r3" "same_setup r2 r3"
      using verify_data_file_ok [OF vt(1), of "u ?name" p content "Some i" False] u f2 d by auto
    have e: "verify_source_file u cwd fs i (f, ex, r) =
        Some (f, remove1 (get_canonical_pathname cwd ?name) ex, set_disk p (disk_close (pr_store r3 p)) r3)"
      using True n vn(7) d(1) r3(1) by (simp add: verify_source_file_def Let_def r2_def upd_file_def set_disk_def)
    then show ?thesis using verifying_close [OF r3(2), of p] same_setup_trans [OF s2 r3(3)] by simp
  qed
qed

lemma verify_loop_ok:
  assumes "verifying fs r" "\<And>name. junk_ok (pr_blocksize r) (u name)" "files_fit fs" "\<forall>i\<in>set is. i < length (pr_files r)"
  shows "\<exists>f' ex' r'. for_each (verify_source_file u cwd fs) is (f, ex, r) = Some (f', ex', r') \<and> verifying fs r' \<and> same_setup r r'"
  using assms(1,2,4)
proof (induction "is" arbitrary: f ex r)
  case (Cons i "is")
  obtain f1 ex1 r1 where r1: "verify_source_file u cwd fs i (f, ex, r) = Some (f1, ex1, r1)" "verifying fs r1" "same_setup r r1"
    using verify_source_file_ok [where u = u and i = i, OF Cons.prems(1) Cons.prems(2) assms(3), of cwd f ex] Cons.prems(3) by auto
  have "pr_blocksize r1 = pr_blocksize r" "length (pr_files r1) = length (pr_files r)" using r1(3) by (simp_all add: same_setup_def)
  then obtain f' ex' r' where "for_each (verify_source_file u cwd fs) is (f1, ex1, r1) = Some (f', ex', r')" "verifying fs r'" "same_setup r1 r'"
    using Cons.IH [OF r1(2), of f1 ex1] Cons.prems(2,3) by auto
  then show ?case using r1 same_setup_trans [OF r1(3)] by auto
qed simp

section \<open>Counting what was found\<close>

datatype file_state = IsComplete | IsRenamed | IsDamaged | IsMissing

definition file_state :: "repairer \<Rightarrow> nat option \<Rightarrow> file_state" where
  "file_state r f =
     (case f of
        None \<Rightarrow> IsMissing
      | Some i \<Rightarrow>
          let sf = pr_files r ! i
          in if sf_completefile sf \<noteq> None then (if sf_completefile sf = sf_targetfile sf then IsComplete else IsRenamed)
             else if sf_targetexists sf then IsDamaged else IsMissing)"

text \<open>The blocks of a file that were found, and those that are lost.\<close>

definition block_found :: "repairer \<Rightarrow> nat \<Rightarrow> nat \<Rightarrow> bool" where
  "block_found r i k \<longleftrightarrow> sf_completefile (pr_files r ! i) \<noteq> None \<or>
     (\<exists>b. sf_sourceblocks (pr_files r ! i) = Some b \<and> db_is_set (pr_store r) (pr_sourceblocks r ! (b + k)))"

definition found_blocks :: "repairer \<Rightarrow> nat option \<Rightarrow> nat" where
  "found_blocks r f = (case f of None \<Rightarrow> 0 | Some i \<Rightarrow> length (filter (block_found r i) [0..<file_count r i]))"

definition lost_blocks :: "repairer \<Rightarrow> nat option \<Rightarrow> nat" where
  "lost_blocks r f = (case f of None \<Rightarrow> 0 | Some i \<Rightarrow> length (filter (\<lambda>k. \<not> block_found r i k) [0..<file_count r i]))"

definition blocks_in :: "repairer \<Rightarrow> nat option \<Rightarrow> bool" where
  "blocks_in r f \<longleftrightarrow> (case f of None \<Rightarrow> True | Some i \<Rightarrow> file_count r i = 0 \<or>
     (\<exists>b. sf_sourceblocks (pr_files r ! i) = Some b \<and> b + file_count r i \<le> length (pr_sourceblocks r)))"

definition count_state :: "file_state \<Rightarrow> repairer \<Rightarrow> nat option list \<Rightarrow> u32" where
  "count_state st r files = word_of_nat (length (filter (\<lambda>f. file_state r f = st) files))"

lemma found_lost: "found_blocks r f + lost_blocks r f = (case f of None \<Rightarrow> 0 | Some i \<Rightarrow> file_count r i)"
proof (cases f)
  case (Some i)
  then show ?thesis
    using sum_length_filter_compl [of "block_found r i" "[0..<file_count r i]"] by (simp add: found_blocks_def lost_blocks_def)
qed (simp add: found_blocks_def lost_blocks_def)

lemma count_set_eq: "count_set r b n = word_of_nat (length (filter (\<lambda>k. db_is_set (pr_store r) (pr_sourceblocks r ! (b + k))) [0..<n]))"
proof -
  have "sum_list (map (\<lambda>k. if P k then 1 else 0) xs) = (word_of_nat (length (filter P xs)) :: u32)" for P and xs :: "nat list"
    by (induction xs) simp_all
  then show ?thesis by (simp add: count_set_def)
qed

lemma count_results_eq:
  assumes "blocks_in r f"
  shows "count_results f r = Some (r\<lparr>pr_availableblockcount := pr_availableblockcount r + word_of_nat (found_blocks r f),
    pr_completefilecount := pr_completefilecount r + count_state IsComplete r [f],
    pr_renamedfilecount := pr_renamedfilecount r + count_state IsRenamed r [f],
    pr_damagedfilecount := pr_damagedfilecount r + count_state IsDamaged r [f],
    pr_missingfilecount := pr_missingfilecount r + count_state IsMissing r [f]\<rparr>)"
proof (cases f)
  case None
  then show ?thesis by (simp add: count_results_def found_blocks_def count_state_def file_state_def)
next
  case (Some i)
  let ?sf = "pr_files r ! i"
  show ?thesis
  proof (cases "sf_completefile ?sf = None")
    case False
    then have "found_blocks r f = file_count r i" by (simp add: found_blocks_def Some block_found_def)
    then show ?thesis using False
      by (auto simp: count_results_def Some Let_def count_state_def file_state_def file_count_def)
  next
    case True
    have bf: "block_found r i = (\<lambda>k. db_is_set (pr_store r) (pr_sourceblocks r ! (b + k)))" if "sf_sourceblocks ?sf = Some b" for b
      using True that by (auto simp: block_found_def)
    have "(if sf_blockcount ?sf = 0 then Some 0
        else case sf_sourceblocks ?sf of None \<Rightarrow> None
             | Some b \<Rightarrow> if b + unat (sf_blockcount ?sf) \<le> length (pr_sourceblocks r)
                        then Some (count_set r b (unat (sf_blockcount ?sf))) else None) = Some (word_of_nat (found_blocks r f))"
    proof (cases "sf_blockcount ?sf = 0")
      case False
      then have "file_count r i \<noteq> 0" by (simp add: file_count_def unat_eq_0)
      then obtain b where "sf_sourceblocks ?sf = Some b" "b + file_count r i \<le> length (pr_sourceblocks r)"
        using assms by (auto simp: blocks_in_def Some)
      then show ?thesis using False bf by (simp add: found_blocks_def Some count_set_eq file_count_def)
    qed (simp add: found_blocks_def Some file_count_def)
    then show ?thesis using True
      by (auto simp: count_results_def Some Let_def count_state_def file_state_def)
  qed
qed

definition with_counts :: "u32 \<Rightarrow> u32 \<Rightarrow> u32 \<Rightarrow> u32 \<Rightarrow> u32 \<Rightarrow> repairer \<Rightarrow> repairer" where
  "with_counts a c n d m r = r\<lparr>pr_availableblockcount := a, pr_completefilecount := c, pr_renamedfilecount := n,
     pr_damagedfilecount := d, pr_missingfilecount := m\<rparr>"

lemma with_counts_same:
  "file_state (with_counts a c n d m r) f = file_state r f" "found_blocks (with_counts a c n d m r) f = found_blocks r f"
  "blocks_in (with_counts a c n d m r) f = blocks_in r f" "count_state st (with_counts a c n d m r) fs = count_state st r fs"
  by (simp_all add: with_counts_def file_state_def found_blocks_def block_found_def[abs_def] blocks_in_def file_count_def count_state_def
      split: option.split)

lemma count_state_Cons: "count_state st r (f # files) = count_state st r [f] + count_state st r files"
  by (simp add: count_state_def)

lemma count_files_eq:
  assumes "\<forall>f\<in>set files. blocks_in r f"
  shows "for_each count_results files (with_counts a c n d m r) =
    Some (with_counts (a + word_of_nat (\<Sum>f\<leftarrow>files. found_blocks r f)) (c + count_state IsComplete r files)
      (n + count_state IsRenamed r files) (d + count_state IsDamaged r files) (m + count_state IsMissing r files) r)"
  using assms
proof (induction files arbitrary: a c n d m)
  case Nil
  then show ?case by (simp add: count_state_def)
next
  case (Cons f files)
  have "count_results f (with_counts a c n d m r) = Some (with_counts (a + word_of_nat (found_blocks r f)) (c + count_state IsComplete r [f])
      (n + count_state IsRenamed r [f]) (d + count_state IsDamaged r [f]) (m + count_state IsMissing r [f]) r)"
    using count_results_eq [of "with_counts a c n d m r" f] Cons.prems by (simp add: with_counts_same) (simp add: with_counts_def)
  then show ?case using Cons by (simp add: count_state_Cons [of _ r f files] add.assoc)
qed

lemma update_verification_results_eq:
  assumes "pr_mainpacket r = Some mp" "\<forall>f\<in>set (all_files mp r). blocks_in r f"
  shows "update_verification_results r =
    Some ((with_counts (word_of_nat (\<Sum>f\<leftarrow>all_files mp r. found_blocks r f)) (count_state IsComplete r (all_files mp r))
      (count_state IsRenamed r (all_files mp r)) (count_state IsDamaged r (all_files mp r)) (count_state IsMissing r (all_files mp r)) r)
      \<lparr>pr_missingblockcount := pr_sourceblockcount r - word_of_nat (\<Sum>f\<leftarrow>all_files mp r. found_blocks r f)\<rparr>)"
proof -
  let ?r = "r\<lparr>pr_missingblockcount := 0\<rparr>"
  have e: "r\<lparr>pr_availableblockcount := 0, pr_missingblockcount := 0, pr_completefilecount := 0, pr_renamedfilecount := 0,
      pr_damagedfilecount := 0, pr_missingfilecount := 0\<rparr> = with_counts 0 0 0 0 0 ?r" by (simp add: with_counts_def)
  have same: "blocks_in ?r = blocks_in r" "found_blocks ?r = found_blocks r" "count_state st ?r = count_state st r" for st
    by (rule ext; simp add: blocks_in_def found_blocks_def block_found_def[abs_def] file_count_def count_state_def file_state_def split: option.split)+
  have "\<forall>f\<in>set (all_files mp r). blocks_in ?r f" using assms(2) by (simp add: same)
  from count_files_eq [OF this, of 0 0 0 0 0] show ?thesis
    by (simp add: update_verification_results_def assms(1) e same) (simp add: with_counts_def)
qed

lemma count_state_nat:
  assumes "length files < 2 ^ 32"
  shows "unat (count_state st r files) = length (filter (\<lambda>f. file_state r f = st) files)"
proof -
  have "length (filter (\<lambda>f. file_state r f = st) files) < 2 ^ 32" using length_filter_le [of "\<lambda>f. file_state r f = st" files] assms by linarith
  then show ?thesis by (simp add: count_state_def unat_of_nat)
qed

lemma count_state_pos:
  assumes "length files < 2 ^ 32"
  shows "count_state st r files > 0 \<longleftrightarrow> (\<exists>f\<in>set files. file_state r f = st)"
proof -
  have "count_state st r files > 0 \<longleftrightarrow> length (filter (\<lambda>f. file_state r f = st) files) > 0"
    using count_state_nat [OF assms] by (simp add: word_less_nat_alt)
  also have "\<dots> \<longleftrightarrow> filter (\<lambda>f. file_state r f = st) files \<noteq> []" by (simp only: length_greater_0_conv)
  also have "\<dots> \<longleftrightarrow> (\<exists>f\<in>set files. file_state r f = st)" by (simp add: filter_empty_conv)
  finally show ?thesis .
qed

text \<open>C9: the verdict is right: with the blocks of all files counted in the source blocks, \<^verbatim>\<open>UpdateVerificationResults\<close> counts
  as missing exactly the blocks of incomplete files that were not found, and \<^verbatim>\<open>CheckVerificationResults\<close> then
  returns success if and only if every file is complete under its own name or there are at least as many
  recovery blocks as missing blocks.\<close>

theorem verification_verdict:
  assumes "pr_mainpacket r = Some mp" "\<forall>f\<in>set (all_files mp r). blocks_in r f"
    and "total_blocks r (all_files mp r) = unat (pr_sourceblockcount r)"
    and "length (all_files mp r) = unat (mp_totalfilecount mp)" "mp_recoverablefilecount mp \<le> mp_totalfilecount mp"
  shows "\<exists>r'. update_verification_results r = Some r' \<and>
    unat (pr_availableblockcount r') = (\<Sum>f\<leftarrow>all_files mp r. found_blocks r f) \<and>
    unat (pr_missingblockcount r') = (\<Sum>f\<leftarrow>all_files mp r. lost_blocks r f) \<and>
    check_verification_results r' =
      Some ((\<forall>f\<in>set (all_files mp r). file_state r f = IsComplete) \<or>
            (\<Sum>f\<leftarrow>all_files mp r. lost_blocks r f) \<le> length (pr_recoverypackets r))"
proof -
  let ?files = "all_files mp r"
  let ?found = "\<Sum>f\<leftarrow>?files. found_blocks r f" and ?lost = "\<Sum>f\<leftarrow>?files. lost_blocks r f"
  have "?found + ?lost = (\<Sum>f\<leftarrow>?files. found_blocks r f + lost_blocks r f)" by (simp add: sum_list_addf)
  also have "\<dots> = total_blocks r ?files" unfolding total_blocks_def found_lost by (rule refl)
  finally have sum: "?found + ?lost = unat (pr_sourceblockcount r)" using assms(3) by simp
  then have "?found < 2 ^ 32" using unsigned_less [of "pr_sourceblockcount r", where 'a = nat] by simp
  then have nf: "unat (word_of_nat ?found :: u32) = ?found" by (simp add: unat_of_nat)
  have nl: "unat (pr_sourceblockcount r - word_of_nat ?found) = ?lost"
    using sum nf by (simp add: unat_sub word_le_nat_alt)
  have len: "length ?files < 2 ^ 32" using assms(4) unsigned_less [of "mp_totalfilecount mp", where 'a = nat] by simp
  define r' where "r' = (with_counts (word_of_nat ?found) (count_state IsComplete r ?files) (count_state IsRenamed r ?files)
      (count_state IsDamaged r ?files) (count_state IsMissing r ?files) r)\<lparr>pr_missingblockcount := pr_sourceblockcount r - word_of_nat ?found\<rparr>"
  have u: "update_verification_results r = Some r'" unfolding r'_def by (rule update_verification_results_eq [OF assms(1,2)])
  have f: "pr_mainpacket r' = Some mp" "unat (pr_availableblockcount r') = ?found" "unat (pr_missingblockcount r') = ?lost"
    "pr_recoverypackets r' = pr_recoverypackets r" "pr_completefilecount r' = count_state IsComplete r ?files"
    "pr_renamedfilecount r' = count_state IsRenamed r ?files" "pr_damagedfilecount r' = count_state IsDamaged r ?files"
    "pr_missingfilecount r' = count_state IsMissing r ?files"
    using nf nl assms(1) by (simp_all add: r'_def with_counts_def)
  have "repair_needed mp r' \<longleftrightarrow> \<not> (\<forall>f\<in>set ?files. file_state r f = IsComplete)"
  proof (cases "\<forall>f\<in>set ?files. file_state r f = IsComplete")
    case True
    then have "filter (\<lambda>f. file_state r f = IsComplete) ?files = ?files" by simp
    then have "count_state IsComplete r ?files = mp_totalfilecount mp"
      using count_state_nat [OF len, of IsComplete r] assms(4) by (simp add: word_unat_eq_iff)
    moreover have "\<not> count_state st r ?files > 0" if "st \<noteq> IsComplete" for st
      using True that by (auto simp: count_state_pos [OF len])
    ultimately show ?thesis using True assms(5) by (simp add: repair_needed_def f not_less)
  next
    case False
    then obtain st where "st \<noteq> IsComplete" "\<exists>f\<in>set ?files. file_state r f = st" by blast
    then have "st \<noteq> IsComplete" "count_state st r ?files > 0" using count_state_pos [OF len, of st r] by simp_all
    then show ?thesis using False by (cases st) (auto simp: repair_needed_def f)
  qed
  then have "check_verification_results r' =
      Some ((\<forall>f\<in>set ?files. file_state r f = IsComplete) \<or> ?lost \<le> length (pr_recoverypackets r))"
    by (auto simp: check_verification_results_def f)
  then show ?thesis using u f by blast
qed

section \<open>The theorems on verification\<close>

lemma verify_source_files_rule:
  assumes "verifying fs r" "\<And>name. junk_ok (pr_blocksize r) (u name)" "files_fit fs" "pr_mainpacket r = Some mp"
    and "\<forall>i. Some i \<in> set (pr_sourcefiles r) \<longrightarrow> i < length (pr_files r)" "\<forall>f\<in>set (all_files mp r). blocks_in r f"
  shows "\<exists>ok extra' r'. verify_source_files u cwd fs extra r = Some (ok, extra', r') \<and> verifying fs r' \<and> same_setup r r'"
proof -
  let ?f = "\<not> (None \<in> set (pr_sourcefiles r) \<and> 0 < mp_recoverablefilecount mp)"
  have "set (sorted_files r) = {i. Some i \<in> set (pr_sourcefiles r)}"
    by (force simp: sorted_files_def List.map_filter_def)
  then have "\<forall>i\<in>set (sorted_files r). i < length (pr_files r)" using assms(5) by auto
  from verify_loop_ok [where u = u, OF assms(1) assms(2) assms(3) this] obtain ok extra' r1 where
    r1: "for_each (verify_source_file u cwd fs) (sorted_files r) (?f, extra, r) = Some (ok, extra', r1)" "verifying fs r1" "same_setup r r1"
    by blast
  have s: "pr_mainpacket r1 = Some mp" "all_files mp r1 = all_files mp r" using r1(3) assms(4) by (simp_all add: same_setup_def all_files_def)
  have "blocks_in r1 f" if "f \<in> set (all_files mp r)" for f
  proof (cases f)
    case (Some i)
    have "Some i \<in> set (pr_sourcefiles r)" using that Some unfolding all_files_def by (meson in_set_takeD)
    then have "i < length (pr_files r)" using assms(5) by blast
    moreover have "blocks_in r f" using assms(6) that by blast
    ultimately show ?thesis using r1(3) by (simp add: Some blocks_in_def file_count_def same_setup_def)
  qed (simp add: blocks_in_def)
  then have "\<forall>f\<in>set (all_files mp r1). blocks_in r1 f" by (simp add: s)
  from update_verification_results_eq [OF s(1) this] obtain r' where r': "update_verification_results r1 = Some r'"
    "\<exists>a c n d m k. r' = (with_counts a c n d m r1)\<lparr>pr_missingblockcount := k\<rparr>" by blast
  obtain a c n d m k where e: "r' = (with_counts a c n d m r1)\<lparr>pr_missingblockcount := k\<rparr>" using r'(2) by blast
  have sr: "same_setup r1 r'" by (simp add: same_setup_def e with_counts_def)
  have "complete_ok fs r'" using r1(2) by (simp add: verifying_def complete_ok_def e with_counts_def)
  moreover have "table_ready r'" using r1(2) by (simp add: verifying_def table_ready_def e with_counts_def)
  ultimately have "verifying fs r'" by (rule verifying_step [OF r1(2) sr])
  moreover have "verify_source_files u cwd fs extra r = Some (ok, extra', r')"
    using r1(1) r'(1) by (simp add: verify_source_files_def assms(4))
  ultimately show ?thesis using same_setup_trans [OF r1(3) sr] by blast
qed

text \<open>C8: verification never reports a bad file as complete: \<^verbatim>\<open>VerifySourceFiles\<close> returns for any disk contents and any
  contents of uninitialised memory, and afterwards each source file recorded as complete is backed by a disk
  file whose size, MD5 and MD5 of the first 16k are those of its description packet.\<close>

theorem verify_source_files_sound:
  assumes "verifying fs r" "\<And>name. junk_ok (pr_blocksize r) (u name)" "files_fit fs" "pr_mainpacket r = Some mp"
    and "\<forall>i. Some i \<in> set (pr_sourcefiles r) \<longrightarrow> i < length (pr_files r)" "\<forall>f\<in>set (all_files mp r). blocks_in r f"
  shows "\<exists>ok extra' r'. verify_source_files u cwd fs extra r = Some (ok, extra', r') \<and> complete_ok fs r'"
  using verify_source_files_rule [where u = u and cwd = cwd and extra = extra, OF assms(1) assms(2) assms(3-6)]
  unfolding verifying_def by blast

text \<open>C12: an intact target file is recognised: when the file under the target name has the contents its packets describe,
  \<^verbatim>\<open>VerifySourceFiles\<close> records it both as the target file and as a complete version of the source file.\<close>

theorem verify_source_file_intact:
  assumes "verifying fs r" "junk_ok (pr_blocksize r) (u (sf_targetfilename (pr_files r ! i)))" "files_fit fs" "i < length (pr_files r)"
    and "fs_files fs (sf_targetfilename (pr_files r ! i)) = Some content" "describes r i p vp dp content" "content \<noteq> []"
    and "pr_blocksallocated r" "sf_completefile (pr_files r ! i) = None" "pr_diskfilemap r (sf_targetfilename (pr_files r ! i)) = None"
  shows "\<exists>extra' r' d. verify_source_file u cwd fs i (ok, extra, r) = Some (ok, extra', r') \<and>
    sf_targetfile (pr_files r' ! i) = Some d \<and> sf_completefile (pr_files r' ! i) = Some d"
proof -
  let ?name = "sf_targetfilename (pr_files r ! i)"
  obtain q r1 where n: "new_disk r = (q, r1)" by (rule prod.exhaust)
  note vn = verifying_new_disk [OF assms(1) n]
  have l: "length content < 2 ^ 61" using assms(3,5) by (simp add: files_fit_def)
  obtain d where d: "disk_open ?name diskfile_new fs = (True, d)" "disk_ready ReadMode content d fs" "unat (df_filesize d) = length content"
    using disk_open_cases [OF assms(3), of ?name] assms(5) by (metis option.distinct(1) option.inject)
  define r2 where "r2 = (upd_file i (\<lambda>sf. sf\<lparr>sf_targetexists := True, sf_targetfile := Some q\<rparr>) (set_disk q d r1))
    \<lparr>pr_diskfilemap := snd (map_insert ?name q (pr_diskfilemap (set_disk q d r1)))\<rparr>"
  have vt: "verifying fs r2" "same_setup (set_disk q d r1) r2" by (rule verifying_target [OF vn(1) r2_def])+
  have rr: "r1 = r\<lparr>pr_nextdisk := Suc (pr_nextdisk r), pr_store := (pr_store r)(pr_nextdisk r := diskfile_new)\<rparr>"
    using n by (auto simp: new_disk_def)
  have f2: "pr_files r2 = (pr_files r)[i := (pr_files r ! i)\<lparr>sf_targetexists := True, sf_targetfile := Some q\<rparr>]"
    "pr_store r2 q = d" "pr_blocksize r2 = pr_blocksize r" "pr_table r2 = pr_table r" "pr_sourceblocks r2 = pr_sourceblocks r"
    "pr_blocksallocated r2 = pr_blocksallocated r" "pr_blockverifiable r2"
    using vt(1) by (simp_all add: r2_def upd_file_def set_disk_def rr verifying_def)
  have fi: "sf_verification (pr_files r2 ! i) = sf_verification (pr_files r ! i)" "sf_description (pr_files r2 ! i) = sf_description (pr_files r ! i)"
    using assms(4) by (simp_all add: f2(1))
  have desc: "describes r2 i p vp dp content"
    using assms(6) unfolding describes_def Let_def f2(3-5) fi .
  have bs: "unat (pr_blocksize r) < 2 ^ 61" using assms(1) by (simp add: verifying_def)
  have sc: "scannable (un_memory (u ?name)) (un_hasher (u ?name)) fs content q r2"
    using scannable_verifying [OF vt(1)] assms(2,7) d l f2 by simp
  obtain res where res: "scan_data_file (un_memory (u ?name)) (un_hasher (u ?name)) q False fs (Some i) r2 = Some res" "sr_ok res"
    "sr_match res = Some FullMatch" "sr_sourcefile res = Some i"
    using scan_data_file_complete_rule [OF sc desc, of False] assms(4,8,9) f2 l bs by auto
  obtain blocks d1 where fr: "sr_repairer res = set_disk q d1 (r2\<lparr>pr_sourceblocks := blocks\<rparr>)"
    using scan_data_file_rule [OF sc, of False "Some i"] res(1) by auto
  define r3 where "r3 = upd_file i (\<lambda>sf. sf\<lparr>sf_completefile := Some q\<rparr>) (sr_repairer res)"
  have v: "verify_data_file (u ?name) q False fs (Some i) r2 = Some (True, r3)"
    using res f2(7) by (simp add: verify_data_file_def r3_def)
  have e: "verify_source_file u cwd fs i (ok, extra, r) =
      Some (ok, remove1 (get_canonical_pathname cwd ?name) extra, set_disk q (disk_close (pr_store r3 q)) r3)"
    using assms(10) n vn(7) d(1) v by (simp add: verify_source_file_def Let_def r2_def upd_file_def set_disk_def map_find_def rr)
  have "pr_files r3 ! i = (pr_files r ! i)\<lparr>sf_targetexists := True, sf_targetfile := Some q, sf_completefile := Some q\<rparr>"
    using assms(4) by (simp add: r3_def upd_file_def fr set_disk_def f2)
  then show ?thesis using e by (simp add: set_disk_def)
qed

section \<open>Hashing a whole file\<close>

definition hash_so_far :: "bytes \<Rightarrow> nat \<Rightarrow> md5_single \<times> bytes \<Rightarrow> bool" where
  "hash_so_far content off s \<longleftrightarrow> ms_absorbs (fst s) (take off content) \<and> (16384 \<le> off \<longrightarrow> snd s = md5 (take 16384 content))"

lemma hash_file_step_ok:
  assumes h: "hash_so_far content (unat off) s" and n: "unat off + n \<le> length content" "length content < 2 ^ 61"
  shows "hash_so_far content (unat off + n) (hash_file_step off (take n (drop (unat off) content)) s)"
proof -
  let ?b = "take n (drop (unat off) content)"
  obtain ctx h16 where s: "s = (ctx, h16)" by (cases s)
  have a: "ms_absorbs ctx (take (unat off) content)" using h by (simp add: hash_so_far_def s)
  have lb: "length ?b = n" "min (length content - unat off) n = n" using n(1) by simp_all
  have w: "unat (off + word_of_nat n) = unat off + n" using n by (simp add: unat_word_ariths unat_of_nat)
  have cmp: "(off < 16384) = (unat off < 16384)" "(off + word_of_nat n \<ge> 16384) = (16384 \<le> unat off + n)"
    "(off + word_of_nat n > 16384) = (16384 < unat off + n)"
    using w by (simp_all add: word_less_nat_alt word_le_nat_alt)
  show ?thesis
  proof (cases "unat off < 16384 \<and> 16384 \<le> unat off + n")
    case False
    then have "hash_file_step off ?b s = (md5_update ?b ctx, h16)" by (auto simp: hash_file_step_def s lb cmp Let_def)
    then show ?thesis using False h md5_update_take [OF a, of n] by (auto simp: hash_so_far_def s)
  next
    case True
    let ?k = "16384 - unat off"
    have k: "unat (16384 - off) = ?k" using True unat_sub [of off 16384] by (simp add: word_le_nat_alt)
    let ?c1 = "md5_update (take ?k ?b) ctx"
    have "?k \<le> n" using True by linarith
    then have mk: "min ?k n = ?k" by (rule min_absorb1)
    then have t: "take ?k ?b = take ?k (drop (unat off) content)" "drop ?k ?b = take (n - ?k) (drop 16384 content)"
      using True by (simp_all add: drop_take)
    have c1: "ms_absorbs ?c1 (take 16384 content)" using md5_update_take [OF a, of ?k] True by (simp add: mk)
    have c2: "ms_absorbs (if 16384 < unat off + n then md5_update (drop ?k ?b) ?c1 else ?c1) (take (unat off + n) content)"
    proof (cases "16384 < unat off + n")
      case more: True
      then show ?thesis using md5_update_take [OF c1, of "n - ?k"] True by (simp add: t(2) add.commute)
    next
      case False
      then have "unat off + n = 16384" using True by simp
      then show ?thesis using c1 by simp
    qed
    have "hash_file_step off ?b s = (if 16384 < unat off + n then md5_update (drop ?k ?b) ?c1 else ?c1, md5_end ?c1)"
      using True k by (simp add: hash_file_step_def s lb cmp Let_def)
    then show ?thesis using c2 md5_end_absorbs [OF c1] by (simp add: hash_so_far_def)
  qed
qed

lemma hash_file_loop_ok:
  assumes "disk_ready ReadMode content d fs" "unat filesize = length content" "length content < 2 ^ 61" "0 < buffersize"
    and "hash_so_far content (unat off) s" "unat off \<le> length content"
  shows "\<exists>s' d'. hash_file_loop buffersize fs filesize off s d = Some (True, s', d') \<and> hash_so_far content (length content) s' \<and> same_disk d d'"
  using assms(1,5,6)
proof (induction "length content - unat off" arbitrary: off s d rule: less_induct)
  case less
  show ?case
  proof (cases "off < filesize")
    case False
    then have "unat off = length content" using less.prems(3) assms(2) by (simp add: word_less_nat_alt)
    then show ?thesis using False less.prems(2) by (subst hash_file_loop.simps) simp
  next
    case True
    let ?want = "min buffersize (filesize - off)"
    have fo: "unat (filesize - off) = length content - unat off" using unat_sub [OF less_imp_le [OF True]] assms(2) by simp
    have lt: "unat off < length content" using True assms(2) by (simp add: word_less_nat_alt)
    have w: "0 < unat ?want" "unat off + unat ?want \<le> length content"
      using assms(4) lt fo by (simp_all add: unat_min word_less_nat_alt)
    have "off \<le> 0x7fffffffffffffff" using lt assms(3) by (simp add: word_le_nat_alt)
    note rd = disk_read_inside [OF less.prems(1) this, of MAX_LENGTH, OF _ w(2)]
    obtain d1 where d1: "disk_read off (unat ?want) MAX_LENGTH d fs = Some (True, take (unat ?want) (drop (unat off) content), d1)"
      "disk_ready ReadMode content d1 fs"
      using rd assms(3) by auto
    have off': "unat (off + ?want) = unat off + unat ?want" using w(2) assms(3) by (simp add: unat_word_ariths)
    have h: "hash_so_far content (unat (off + ?want)) (hash_file_step off (take (unat ?want) (drop (unat off) content)) s)"
      unfolding off' by (rule hash_file_step_ok [OF less.prems(2) w(2) assms(3)])
    have shorter: "length content - unat (off + ?want) < length content - unat off" using off' w lt by simp
    obtain s' d' where "hash_file_loop buffersize fs filesize (off + ?want) (hash_file_step off (take (unat ?want) (drop (unat off) content)) s) d1 =
        Some (True, s', d')" "hash_so_far content (length content) s'" "same_disk d1 d'"
      using less.hyps [OF shorter d1(2) h] off' w(2) by auto
    moreover have "same_disk d d1" by (rule disk_read_same [OF d1(1)])
    ultimately show ?thesis using True d1(1) same_disk_trans by (subst hash_file_loop.simps) (auto simp: Let_def)
  qed
qed

lemma hash_file_ok:
  assumes "disk_ready ReadMode content d fs" "unat (df_filesize d) = length content" "length content < 2 ^ 61" "0 < blocksize"
  shows "\<exists>d'. hash_file blocksize fs h16 d = Some (True, md5 content, md5 (take 16384 content), d') \<and> same_disk d d'"
proof (cases "content = []")
  case True
  then have z: "df_filesize d = 0" using assms(2) by (simp add: unat_eq_0)
  have "ms_absorbs md5_single_new []" by (simp add: md5_single_new_def ms_absorbs_def md5_chunks_short)
  then have "md5_end md5_single_new = md5 []" by (rule md5_end_absorbs)
  moreover have "hash_file_loop buffersize fs 0 0 s d = Some (True, s, d)" for buffersize s by (subst hash_file_loop.simps) simp
  ultimately show ?thesis using True z by (simp add: hash_file_def Let_def)
next
  case False
  let ?buffersize = "min 1048576 (min blocksize (df_filesize d))"
  have "0 < df_filesize d" using False assms(2) by (simp add: word_less_nat_alt)
  then have b: "0 < ?buffersize" using assms(4) by (simp add: min_def)
  have "ms_absorbs md5_single_new []" by (simp add: md5_single_new_def ms_absorbs_def md5_chunks_short)
  then have "hash_so_far content (unat (0 :: u64)) (md5_single_new, h16)" by (simp add: hash_so_far_def)
  from hash_file_loop_ok [OF assms(1-3) b this] obtain ctx h d' where
    l: "hash_file_loop ?buffersize fs (df_filesize d) 0 (md5_single_new, h16) d = Some (True, (ctx, h), d')"
    "hash_so_far content (length content) (ctx, h)" "same_disk d d'" by auto
  have "md5_end ctx = md5 content" using l(2) md5_end_absorbs by (simp add: hash_so_far_def)
  moreover have "(df_filesize d < 16384) = (length content < 16384)" using assms(2) by (simp add: word_less_nat_alt)
  ultimately show ?thesis using l by (auto simp: hash_file_def Let_def hash_so_far_def)
qed

text \<open>C13: without any verification packet no file is ever recognised, however intact: \<^verbatim>\<open>VerifyDataFile\<close> reads the whole file and
  computes its hash into a variable that hides the one it then compares, so unless that uninitialised
  variable happens to hold the hash of a description packet, every source file stays incomplete.\<close>

theorem verify_whole_file_never:
  assumes "\<not> pr_blockverifiable r" "0 < pr_blocksize r" "length content < 2 ^ 61"
    and "disk_ready ReadMode content (pr_store r diskfile) fs" "unat (df_filesize (pr_store r diskfile)) = length content"
    and "\<forall>i\<in>set (pr_unverifiable r). \<exists>dp. sf_description (pr_files r ! i) = Some dp \<and> dp_hashfull dp \<noteq> un_hashfull u"
  shows "\<exists>r'. verify_data_file u diskfile renameonly fs sourcefile r = Some (True, r') \<and> pr_files r' = pr_files r"
proof -
  let ?h16 = "md5 (take 16384 content)"
  obtain d where d: "hash_file (pr_blocksize r) fs (un_hash16k u) (pr_store r diskfile) = Some (True, md5 content, ?h16, d)"
    using hash_file_ok [OF assms(4,5,3,2)] by blast
  let ?r = "set_disk diskfile d r"
  have m: "match_unverifiable diskfile (un_hashfull u, ?h16) ?r is = Some ?r" if "set is \<subseteq> set (pr_unverifiable r)" for "is"
    using that
  proof (induction "is")
    case (Cons i "is")
    then obtain dp where "sf_description (pr_files r ! i) = Some dp" "dp_hashfull dp \<noteq> un_hashfull u" using assms(6) by auto
    then have "whole_match diskfile (un_hashfull u, ?h16) ?r i = Some False"
      by (auto simp: whole_match_def set_disk_def)
    then show ?case using Cons by simp
  qed simp
  have "verify_whole u diskfile fs (un_hashfull u, un_hash16k u) r =
      Some (True, if pr_unverifiable r = [] then r else ?r)"
    using assms(1) d m [OF order.refl] by (simp add: verify_whole_def) (simp add: set_disk_def)
  then show ?thesis using assms(1) by (auto simp: verify_data_file_def set_disk_def)
qed

section \<open>An example\<close>

definition ex_uninit :: uninit where
  "ex_uninit = \<lparr>un_memory = replicate 8 0, un_hasher = ex_hasher, un_match = NoMatch, un_hashfull = [], un_hash16k = []\<rparr>"

definition ex_verify :: repairer where
  "ex_verify = ex_scan_repairer\<lparr>pr_files := [(source_file_new (Some ex_dp) (Some ex_vp))\<lparr>sf_targetfilename := ''f'',
       sf_blockcount := 2, sf_sourceblocks := Some 0\<rparr>],
     pr_blockverifiable := True, pr_mainpacket := Some ex_main, pr_sourcefiles := [Some 0], pr_sourceblockcount := 2\<rparr>"

lemma ex_verify_fields:
  "pr_blocksize ex_verify = 4" "pr_mainpacket ex_verify = Some ex_main" "pr_sourcefiles ex_verify = [Some 0]" "length (pr_files ex_verify) = 1"
  "all_files ex_main ex_verify = [Some 0]" "pr_blocksallocated ex_verify" "pr_diskfilemap ex_verify = Map.empty" "pr_table ex_verify = pr_table ex_scan_repairer"
  "sf_targetfilename (pr_files ex_verify ! 0) = ''f''" "sf_completefile (pr_files ex_verify ! 0) = None" "file_count ex_verify 0 = 2"
  "sf_sourceblocks (pr_files ex_verify ! 0) = Some 0" "length (pr_sourceblocks ex_verify) = 2"
  "unat (pr_sourceblockcount ex_verify) = 2" "pr_recoverypackets ex_verify = []" "sf_targetexists (pr_files ex_verify ! 0) = False"
  by (simp_all add: ex_verify_def ex_scan_repairer_def repairer_new_def source_file_new_def all_files_def ex_main_def file_count_def)

lemma ex_verifying: "verifying (sample_fs ex_content) ex_verify"
proof -
  have "table_ready ex_scan_repairer" using ex_scannable by (simp add: scannable_def)
  then have "table_ready ex_verify" by (simp add: table_ready_def ex_verify_def)
  moreover have "vt_entries (pr_table ex_verify) = map (loaded_entry 0 0 0 2) (enumerate 0 (vp_entries ex_vp))"
    by (simp add: ex_verify_def ex_scan_repairer_def vt_load_entries vt_set_limit_rep(2) ex_vp_entries loaded_entry_def)
  then have "\<forall>e\<in>set (vt_entries (pr_table ex_verify)). ve_sourcefile e < length (pr_files ex_verify)"
    by (auto simp: loaded_entry_def ex_verify_fields)
  ultimately show ?thesis
    by (simp add: verifying_def whole_ok_def complete_ok_def ex_verify_fields) (simp add: ex_verify_def ex_scan_repairer_def repairer_new_def)
qed

lemma ex_junk: "junk_ok (pr_blocksize ex_verify) ex_uninit"
  by (simp add: junk_ok_def ex_uninit_def ex_verify_fields ex_hasher_def)

lemma ex_fit: "files_fit (sample_fs ex_content)"
  by (auto simp: files_fit_def sample_fs_def ex_content_def)

lemma ex_blocks_in: "\<forall>f\<in>set (all_files ex_main ex_verify). blocks_in ex_verify f"
  by (simp add: ex_verify_fields blocks_in_def)

theorem verify_source_files_sound_witness:
  "\<exists>ok extra' r'. verify_source_files (\<lambda>_. ex_uninit) None (sample_fs ex_content) [] ex_verify = Some (ok, extra', r') \<and>
    complete_ok (sample_fs ex_content) r'"
  by (rule verify_source_files_sound [where u = "\<lambda>_. ex_uninit", OF ex_verifying ex_junk ex_fit ex_verify_fields(2) _ ex_blocks_in])
    (simp add: ex_verify_fields)

lemma ex_describes: "describes ex_verify 0 0 ex_vp ex_dp ex_content"
proof -
  have "sf_verification (pr_files ex_verify ! 0) = sf_verification (pr_files ex_scan_repairer ! 0)"
    "sf_description (pr_files ex_verify ! 0) = sf_description (pr_files ex_scan_repairer ! 0)"
    "pr_blocksize ex_verify = pr_blocksize ex_scan_repairer" "pr_table ex_verify = pr_table ex_scan_repairer"
    "pr_sourceblocks ex_verify = pr_sourceblocks ex_scan_repairer"
    by (simp_all add: ex_verify_def ex_scan_repairer_def source_file_new_def)
  note eq = this
  show ?thesis using ex_scan_describes unfolding describes_def Let_def eq .
qed

theorem verify_source_file_intact_witness:
  "\<exists>extra' r' d. verify_source_file (\<lambda>_. ex_uninit) None (sample_fs ex_content) 0 (True, [], ex_verify) = Some (True, extra', r') \<and>
    sf_targetfile (pr_files r' ! 0) = Some d \<and> sf_completefile (pr_files r' ! 0) = Some d"
proof (rule verify_source_file_intact [OF ex_verifying])
  show "junk_ok (pr_blocksize ex_verify) ex_uninit" by (rule ex_junk)
  show "files_fit (sample_fs ex_content)" by (rule ex_fit)
  show "describes ex_verify 0 0 ex_vp ex_dp ex_content" by (rule ex_describes)
qed (simp_all add: ex_verify_fields sample_fs_def ex_content_def)

theorem verification_verdict_witness:
  "\<exists>r'. update_verification_results ex_verify = Some r' \<and> pr_missingblockcount r' = 2 \<and> check_verification_results r' = Some False"
proof -
  have b: "block_found ex_verify 0 k = False" if "k < 2" for k
  proof -
    have "db_diskfile (pr_sourceblocks ex_verify ! k) = None"
      using that by (simp add: ex_verify_def ex_scan_repairer_def fresh_block_def)
    then show ?thesis by (simp add: block_found_def ex_verify_fields db_is_set_def)
  qed
  have "filter (\<lambda>k. \<not> block_found ex_verify 0 k) [0..<2] = [0..<2]" using b by (intro filter_True) simp
  then have lost: "(\<Sum>f\<leftarrow>all_files ex_main ex_verify. lost_blocks ex_verify f) = 2"
    by (simp add: ex_verify_fields lost_blocks_def)
  have "\<exists>f\<in>set (all_files ex_main ex_verify). file_state ex_verify f \<noteq> IsComplete"
    by (simp add: ex_verify_fields file_state_def)
  moreover have "total_blocks ex_verify (all_files ex_main ex_verify) = unat (pr_sourceblockcount ex_verify)"
    by (simp add: ex_verify_fields total_blocks_def)
  moreover have "length (all_files ex_main ex_verify) = unat (mp_totalfilecount ex_main)" "mp_recoverablefilecount ex_main \<le> mp_totalfilecount ex_main"
    by (simp_all add: ex_verify_fields) (simp_all add: ex_main_def)
  moreover note verification_verdict [OF ex_verify_fields(2) ex_blocks_in calculation(2-4)]
  ultimately obtain r' where r': "update_verification_results ex_verify = Some r'" "unat (pr_missingblockcount r') = 2"
    "check_verification_results r' = Some ((\<forall>f\<in>set (all_files ex_main ex_verify). file_state ex_verify f = IsComplete) \<or> 2 \<le> length (pr_recoverypackets ex_verify))"
    unfolding lost by blast
  have "check_verification_results r' = Some False" using r'(3) \<open>\<exists>f\<in>_. _\<close> ex_verify_fields(15) by auto
  moreover from r'(2) have "pr_missingblockcount r' = 2" by (simp add: word_unat_eq_iff)
  ultimately show ?thesis using r'(1) by blast
qed

text \<open>The example without its verification packet: the file is intact, but the variable holds something else.\<close>

definition ex_whole :: repairer where
  "ex_whole = ex_verify\<lparr>pr_blockverifiable := False, pr_unverifiable := [0]\<rparr>"

theorem verify_whole_file_never_witness:
  "\<exists>r'. verify_data_file ex_uninit 0 False (sample_fs ex_content) (Some 0) ex_whole = Some (True, r') \<and> pr_files r' = pr_files ex_whole"
proof (rule verify_whole_file_never [where content = ex_content])
  have "length (dp_hashfull ex_dp) = 16" by (simp add: dp_hashfull_def ex_dp_def field_def length_md5)
  then have "dp_hashfull ex_dp \<noteq> []" by auto
  then show "\<forall>i\<in>set (pr_unverifiable ex_whole). \<exists>dp. sf_description (pr_files ex_whole ! i) = Some dp \<and> dp_hashfull dp \<noteq> un_hashfull ex_uninit"
    by (simp add: ex_whole_def ex_verify_def source_file_new_def ex_uninit_def)
  show "disk_ready ReadMode ex_content (pr_store ex_whole 0) (sample_fs ex_content)"
    using sample_ready [of ReadMode ex_content 5] by (simp add: ex_whole_def ex_verify_def ex_scan_repairer_def)
qed (simp_all add: ex_whole_def ex_verify_def ex_scan_repairer_def ex_content_def sample_disk_def)

end
