(* ===== verification/GF16.thy ===== *)
theory GF16
  imports Xor_Field
begin

unbundle bit_operations_syntax

text \<open>
  The field \<open>GF(2\<^sup>1\<^sup>6)\<close> of PAR2 (\<^verbatim>\<open>parpar/gf16\<close>): the doubling of \<^verbatim>\<open>gf16_global.h\<close>, the order of 2, the
  multiplication it determines, and the type \<open>galois16\<close> as an instance of the class \<open>field\<close>.
\<close>

section \<open>Multiplication by 2\<close>

text \<open>\<^verbatim>\<open>GF16_MULTBY_TWO\<close>, on 16 bits: the upper bit of \<^verbatim>\<open>GF16_POLYNOMIAL\<close> cancels the bit shifted out.\<close>

definition gf16_multby_two :: "u16 \<Rightarrow> u16" where
  "gf16_multby_two p = push_bit 1 p XOR (0x100B AND - drop_bit 15 p)"

lemma drop_bit_15: "drop_bit 15 p = (if bit p 15 then 1 else 0)" for p :: u16
proof (rule bit_eqI)
  fix n
  show "bit (drop_bit 15 p) n = bit (if bit p 15 then 1 else 0 :: u16) n"
    by (cases "n = 0") (auto simp: bit_simps dest: bit_imp_le_length)
qed

lemma gf16_multby_two_if: "gf16_multby_two p = push_bit 1 p XOR (if bit p 15 then 0x100B else 0)"
  by (simp add: gf16_multby_two_def drop_bit_15)

lemma gf16_two_xor: "gf16_multby_two (a XOR b) = gf16_multby_two a XOR gf16_multby_two b"
  unfolding gf16_multby_two_if by (rule bit_eqI) (auto simp: bit_simps)

lemma gf16_two_step: "i < 15 \<Longrightarrow> gf16_multby_two (2 ^ i) = 2 ^ Suc i"
  by (auto simp: gf16_multby_two_if push_bit_eq_mult bit_simps)

lemma gf16_xor_shift: "xor_shift gf16_multby_two 1"
  by (rule xor_shift_leftI) (auto intro: gf16_two_xor gf16_two_step simp del: power_Suc)

section \<open>Multiplication\<close>

text \<open>The product as the sum over the bits of the left factor.\<close>

primrec gf16_sum :: "nat \<Rightarrow> u16 \<Rightarrow> u16 \<Rightarrow> u16" where
  "gf16_sum 0 a b = 0"
| "gf16_sum (Suc n) a b = gf16_sum n a b XOR (if bit a n then (gf16_multby_two ^^ n) b else 0)"

definition gf16_mul :: "u16 \<Rightarrow> u16 \<Rightarrow> u16" where
  "gf16_mul a b = gf16_sum 16 a b"

lemma gf16_sum_xor_left: "gf16_sum n (a XOR b) c = gf16_sum n a c XOR gf16_sum n b c"
  by (induction n) (auto simp: bit_simps word_xor_simps)

lemma gf16_sum_two: "gf16_sum n a (gf16_multby_two b) = gf16_multby_two (gf16_sum n a b)"
  by (induction n) (simp_all add: gf16_two_xor xor_shift.D_zero [OF gf16_xor_shift] funpow_swap1)

lemma gf16_sum_xor_right: "gf16_sum n a (b XOR c) = gf16_sum n a b XOR gf16_sum n a c"
  by (induction n) (auto simp: xor_shift.Dn_xor [OF gf16_xor_shift] word_xor_simps)

lemma gf16_sum_bit: "i < 16 \<Longrightarrow> gf16_sum n (2 ^ i) b = (if i < n then (gf16_multby_two ^^ i) b else 0)"
  by (induction n) (auto simp: bit_simps less_Suc_eq)

lemma gf16_sum_numeral: "gf16_sum (numeral k) a b =
    gf16_sum (pred_numeral k) a b XOR (if bit a (pred_numeral k) then (gf16_multby_two ^^ pred_numeral k) b else 0)"
  by (simp only: numeral_eq_Suc gf16_sum.simps)

lemma gf16_mul_top: "gf16_mul 0x100B c = (gf16_multby_two ^^ 16) c"
proof (rule xor_shift.operator_eq [OF gf16_xor_shift, of "gf16_mul 0x100B"])
  show "gf16_mul 0x100B 1 = (gf16_multby_two ^^ 16) 1"
    by (simp add: gf16_mul_def gf16_sum_numeral funpow_iter iter.simps gf16_multby_two_def)
qed (simp_all add: gf16_mul_def gf16_sum_xor_right gf16_sum_two xor_shift.Dn_xor [OF gf16_xor_shift] funpow_swap1)

interpretation m16: xor_mul gf16_multby_two 1 gf16_mul
proof (rule xor_mul.intro [OF gf16_xor_shift], unfold_locales)
  show "gf16_mul (a XOR b) c = gf16_mul a c XOR gf16_mul b c" for a b c
    by (simp add: gf16_mul_def gf16_sum_xor_left)
  show one: "gf16_mul 1 c = c" for c
    using gf16_sum_bit [of 0 16 c] by (simp add: gf16_mul_def)
  show "gf16_mul (gf16_multby_two a) c = gf16_multby_two (gf16_mul a c)" for a c
  proof (induction a rule: word_xor_induct)
    case zero
    have "gf16_sum n 0 c = 0" for n by (induction n) simp_all
    then show ?case
      by (simp only: gf16_mul_def xor_shift.D_zero [OF gf16_xor_shift])
  next
    case (bit i)
    show ?case
    proof (cases "i < 15")
      case True
      then show ?thesis
        by (simp add: gf16_two_step gf16_mul_def gf16_sum_bit del: power_Suc)
    next
      case False
      then have i: "i = 15" using bit by simp
      have "gf16_multby_two (2 ^ 15) = 0x100B" by (simp add: gf16_multby_two_def)
      then show ?thesis
        using gf16_mul_top [of c] gf16_sum_bit [of 15 16 c] unfolding i
        by (simp add: gf16_mul_def eval_nat_numeral)
    qed
  next
    case (xor a b)
    then show ?case
      by (simp add: gf16_two_xor gf16_mul_def gf16_sum_xor_left)
  qed
qed

section \<open>The order of 2\<close>

lemma divisors_65535:
  assumes "k dvd (65535::nat)" "1 < k" "k < 256"
  shows "k \<in> {3, 5, 15, 17, 51, 85, 255}"
proof -
  have "list_all (\<lambda>k. 65535 mod k = 0 \<longrightarrow> k = 3 \<or> k = 5 \<or> k = 15 \<or> k = 17 \<or> k = 51 \<or> k = 85 \<or> k = 255) [2..<256::nat]"
    by (simp add: upt_rec_numeral)
  moreover have "k \<in> set [2..<256]" using assms(2,3) unfolding set_upt atLeastLessThan_iff by linarith
  moreover have "65535 mod k = 0" using assms(1) by (simp only: dvd_eq_mod_eq_0)
  ultimately have "k = 3 \<or> k = 5 \<or> k = 15 \<or> k = 17 \<or> k = 51 \<or> k = 85 \<or> k = 255"
    by (simp only: list_all_iff)
  then show ?thesis by blast
qed

lemma dvd_65535:
  assumes "n dvd (65535::nat)" "n < 65535"
  shows "\<exists>d\<in>set [21845, 13107, 3855, 255]. n dvd d"
proof (rule proper_dvdI [OF assms, where M = 256])
  show "\<forall>k\<in>set [1..<256]. k dvd 65535 \<longrightarrow> (\<exists>d\<in>set [21845, 13107, 3855, 255]. k dvd d) \<and>
      (k = 1 \<or> (\<exists>d\<in>set [21845, 13107, 3855, 255]. 65535 div k dvd d))"
  proof (intro ballI impI)
    fix k :: nat assume k: "k \<in> set [1..<256]" "k dvd 65535"
    then consider "k = 1" | "k \<in> {3, 5, 15, 17, 51, 85, 255}" using divisors_65535 [of k] by fastforce
    then show "(\<exists>d\<in>set [21845, 13107, 3855, 255]. k dvd d) \<and> (k = 1 \<or> (\<exists>d\<in>set [21845, 13107, 3855, 255]. 65535 div k dvd d))"
      by cases auto
  qed
qed simp_all

lemma gf16_pow_double: "(gf16_multby_two ^^ m) 1 = a \<Longrightarrow> (gf16_multby_two ^^ (2 * m)) 1 = gf16_mul a a"
  using m16.mul_pow_pow [of m m] by (simp add: mult_2)

lemma gf16_pow_double_Suc:
  "(gf16_multby_two ^^ m) 1 = a \<Longrightarrow> (gf16_multby_two ^^ (2 * m + 1)) 1 = gf16_multby_two (gf16_mul a a)"
  using gf16_pow_double [of m a] by simp

text \<open>Powers of 2 by squaring, over the bits of the exponent.\<close>

definition gf16_square :: "bool \<Rightarrow> u16 \<Rightarrow> u16" where
  "gf16_square b a = (if b then gf16_multby_two (gf16_mul a a) else gf16_mul a a)"

fun gf16_walk :: "bool list \<Rightarrow> u16 \<Rightarrow> u16" where
  "gf16_walk [] a = a"
| "gf16_walk (b # bs) a = gf16_walk bs (gf16_square b a)"

lemma gf16_walk: "(gf16_multby_two ^^ n) 1 = a \<Longrightarrow>
    (gf16_multby_two ^^ (foldl (\<lambda>m b. 2 * m + of_bool b) n bs)) 1 = gf16_walk bs a"
proof (induction bs arbitrary: n a)
  case (Cons b bs)
  have "(gf16_multby_two ^^ (2 * n + of_bool b)) 1 = gf16_square b a"
    using gf16_pow_double [OF Cons.prems] gf16_pow_double_Suc [OF Cons.prems] by (cases b) (simp_all add: gf16_square_def)
  then show ?case using Cons.IH by simp
qed simp

text \<open>The product with one doubling per bit, for evaluation.\<close>

primrec gf16_peasant :: "nat \<Rightarrow> nat \<Rightarrow> u16 \<Rightarrow> u16 \<Rightarrow> u16" where
  "gf16_peasant 0 i a b = 0"
| "gf16_peasant (Suc n) i a b = (if bit a i then b else 0) XOR gf16_peasant n (Suc i) a (gf16_multby_two b)"

lemma gf16_peasant: "gf16_sum i a b XOR gf16_peasant n i a ((gf16_multby_two ^^ i) b) = gf16_sum (i + n) a b"
proof (induction n arbitrary: i)
  case (Suc n)
  show ?case
    using Suc.IH [of "Suc i"] by (simp add: word_xor_simps)
qed simp

lemma gf16_mul_peasant: "gf16_mul a b = gf16_peasant 16 0 a b"
  using gf16_peasant [of 0 a b 16] by (simp add: gf16_mul_def)

lemma gf16_peasant_numeral: "gf16_peasant (numeral k) i a b =
    (if bit a i then b else 0) XOR gf16_peasant (pred_numeral k) (Suc i) a (gf16_multby_two b)"
  by (simp only: numeral_eq_Suc gf16_peasant.simps)

lemmas gf16_eval = gf16_square_def gf16_mul_peasant gf16_peasant_numeral gf16_multby_two_def

lemma gf16_pow_bits:
  assumes "foldl (\<lambda>m b. 2 * m + of_bool b) 0 bs = n"
  shows "(gf16_multby_two ^^ n) 1 = gf16_walk bs 1"
  using gf16_walk [of 0 1 bs] assms by simp

lemma gf16_order:
  "(gf16_multby_two ^^ 65535) 1 = 1" "(gf16_multby_two ^^ 255) 1 \<noteq> 1" "(gf16_multby_two ^^ 3855) 1 \<noteq> 1"
  "(gf16_multby_two ^^ 13107) 1 \<noteq> 1" "(gf16_multby_two ^^ 21845) 1 \<noteq> 1"
  subgoal by (subst gf16_pow_bits [of "[True, True, True, True, True, True, True, True, True, True, True, True, True, True, True, True]"]) (simp_all add: gf16_eval)
  subgoal by (subst gf16_pow_bits [of "[True, True, True, True, True, True, True, True]"]) (simp_all add: gf16_eval)
  subgoal by (subst gf16_pow_bits [of "[True, True, True, True, False, False, False, False, True, True, True, True]"]) (simp_all add: gf16_eval)
  subgoal by (subst gf16_pow_bits [of "[True, True, False, False, True, True, False, False, True, True, False, False, True, True]"])
      (simp_all add: gf16_eval)
  subgoal by (subst gf16_pow_bits [of "[True, False, True, False, True, False, True, False, True, False, True, False, True, False, True]"])
      (simp_all add: gf16_eval)
  done

interpretation x16: xor_field gf16_multby_two 1 65535
proof -
  have N: "(gf16_multby_two ^^ 65535) 1 = 1"
    by (rule gf16_order)
  have ds: "\<forall>d\<in>set [21845, 13107, 3855, 255]. (gf16_multby_two ^^ d) 1 \<noteq> 1"
    using gf16_order by simp
  show "xor_field gf16_multby_two 1 65535"
    by (rule xor_field.intro [OF gf16_xor_shift], unfold_locales)
      (use N order_minI [OF N _ dvd_65535 ds] in auto)
qed

section \<open>The field\<close>

datatype galois16 = Galois16 (value16: u16)

text \<open>The reciprocal, as the power 65534.\<close>

definition gf16_inverse :: "u16 \<Rightarrow> u16" where
  "gf16_inverse a = iter (gf16_mul a) 65534 1"

lemma gf16_iter_mul: "(gf16_mul ((gf16_multby_two ^^ n) 1) ^^ k) 1 = (gf16_multby_two ^^ (n * k)) 1"
  by (induction k) (simp_all add: m16.mul_pow_pow)

lemma gf16_inverse_left:
  assumes "a \<noteq> 0"
  shows "gf16_mul (gf16_inverse a) a = 1"
proof -
  obtain n where n: "n < 65535" "a = (gf16_multby_two ^^ n) 1" using x16.generates [OF assms] by blast
  have "gf16_mul (gf16_inverse a) a = (gf16_multby_two ^^ (n * 65534 + n)) 1"
    by (simp only: n gf16_inverse_def funpow_iter [symmetric] gf16_iter_mul m16.mul_pow_pow)
  also have "n * 65534 + n = n * 65535" by simp
  finally show ?thesis using x16.Dn_mult_N [of n 1] by simp
qed

instantiation galois16 :: field
begin

definition zero_galois16 :: galois16 where "zero_galois16 = Galois16 0"
definition one_galois16 :: galois16 where "one_galois16 = Galois16 1"
definition plus_galois16 :: "galois16 \<Rightarrow> galois16 \<Rightarrow> galois16" where
  "plus_galois16 a b = Galois16 (value16 a XOR value16 b)"
definition minus_galois16 :: "galois16 \<Rightarrow> galois16 \<Rightarrow> galois16" where
  "minus_galois16 a b = Galois16 (value16 a XOR value16 b)"
definition uminus_galois16 :: "galois16 \<Rightarrow> galois16" where "uminus_galois16 a = a"
definition times_galois16 :: "galois16 \<Rightarrow> galois16 \<Rightarrow> galois16" where
  "times_galois16 a b = Galois16 (gf16_mul (value16 a) (value16 b))"
definition inverse_galois16 :: "galois16 \<Rightarrow> galois16" where
  "inverse_galois16 a = (if value16 a = 0 then Galois16 0 else Galois16 (gf16_inverse (value16 a)))"
definition divide_galois16 :: "galois16 \<Rightarrow> galois16 \<Rightarrow> galois16" where
  "divide_galois16 a b = a * inverse b"

lemmas galois16_ops = zero_galois16_def one_galois16_def plus_galois16_def minus_galois16_def
  uminus_galois16_def times_galois16_def inverse_galois16_def

instance
proof
  fix a b c :: galois16
  show "a * b * c = a * (b * c)" by (simp add: galois16_ops m16.mul_assoc)
  show "a * b = b * a" unfolding galois16_ops by (simp add: m16.mul_commute)
  show "1 * a = a" by (simp add: galois16_ops m16.mul_one_left)
  show "(a + b) * c = a * c + b * c" by (simp add: galois16_ops m16.mul_xor_left)
  show "a + b + c = a + (b + c)" by (simp add: galois16_ops word_xor_simps)
  show "a + b = b + a" by (simp add: galois16_ops word_xor_simps)
  show "0 + a = a" by (simp add: galois16_ops)
  show "- a + a = 0" by (simp add: galois16_ops)
  show "a - b = a + - b" by (simp add: galois16_ops)
  show "(0::galois16) \<noteq> 1" by (simp add: galois16_ops)
  show "a \<noteq> 0 \<Longrightarrow> inverse a * a = 1" by (cases a) (auto simp: galois16_ops gf16_inverse_left)
  show "inverse (0::galois16) = 0" by (simp add: galois16_ops)
  show "a div b = a * inverse b" by (simp add: divide_galois16_def)
qed

end

lemma galois16_add_self [simp]: "(a::galois16) + a = 0"
  by (simp add: galois16_ops)

lemma galois16_minus [simp]: "(a::galois16) - b = a + b"
  by (simp add: galois16_ops)

lemma galois16_uminus [simp]: "- (a::galois16) = a"
  by (simp add: galois16_ops)

lemma galois16_add_both [simp]: "(a::galois16) + b + b = a" "b + (b + a) = (a::galois16)"
  by (simp_all add: galois16_ops word_xor_simps)

lemma value16_zero_iff: "value16 a = 0 \<longleftrightarrow> a = 0"
  by (cases a) (simp add: galois16_ops)

section \<open>Powers of 2\<close>

text \<open>The element \<open>2\<^sup>n\<close>.\<close>

definition gen16 :: "nat \<Rightarrow> galois16" where
  "gen16 n = Galois16 ((gf16_multby_two ^^ n) 1)"

lemma gen16_0 [simp]: "gen16 0 = 1"
  by (simp add: gen16_def galois16_ops)

lemma gen16_add: "gen16 (m + n) = gen16 m * gen16 n"
  by (simp add: gen16_def galois16_ops m16.mul_pow_pow)

lemma gen16_mult: "gen16 (m * n) = gen16 m ^ n"
  by (induction n) (simp_all add: gen16_add)

lemma gen16_mod: "gen16 (n mod 65535) = gen16 n"
  by (simp add: gen16_def x16.Dn_mod)

lemma gen16_cong: "m mod 65535 = n mod 65535 \<Longrightarrow> gen16 m = gen16 n"
  by (metis gen16_mod)

lemma gen16_nonzero [simp]: "gen16 n \<noteq> 0"
  using x16.Dn_eq_zero_iff [of n 1] by (simp add: gen16_def galois16_ops)

lemma gen16_inj: "m < 65535 \<Longrightarrow> n < 65535 \<Longrightarrow> gen16 m = gen16 n \<Longrightarrow> m = n"
  by (simp add: gen16_def x16.Dn_one_inj)

lemma gen16_surj: "a \<noteq> 0 \<Longrightarrow> \<exists>n<65535. a = gen16 n"
  using x16.generates [of "value16 a"] by (cases a) (auto simp: gen16_def galois16_ops)

end
