(* ===== verification/GFMat_Coeff.thy ===== *)
theory GFMat_Coeff
  imports GF16
begin

unbundle bit_operations_syntax

text \<open>
  \<^verbatim>\<open>parpar/gf16/gfmat_coeff.c\<close>: the compressed tables of the recovery matrix, and the coefficient of an input
  block in a recovery block, read from them. A store outside a table is \<open>None\<close>.
\<close>

section \<open>The tables\<close>

record gfmat_tables =
  gm_diff :: "8 word list"
  gm_exp :: "u16 list"
  gm_recip :: "u16 list"

text \<open>The condition of the inner loop.\<close>

definition gfmat_skip :: "nat \<Rightarrow> bool" where
  "gfmat_skip exp \<longleftrightarrow> exp mod 3 = 0 \<or> exp mod 5 = 0 \<or> exp mod 17 = 0 \<or> exp mod 257 = 0"

definition gfmat_store :: "nat \<Rightarrow> u32 \<Rightarrow> gfmat_tables \<Rightarrow> gfmat_tables option" where
  "gfmat_store exp n t =
     (case put_at (unat n) (word_of_nat exp) (gm_recip t) of
        None \<Rightarrow> None
      | Some recip \<Rightarrow>
          if exp mod 8 = 0
          then map_option (\<lambda>e. t\<lparr>gm_recip := recip, gm_exp := e\<rparr>) (put_at (exp div 8) (ucast n) (gm_exp t))
          else Some (t\<lparr>gm_recip := recip\<rparr>))"

definition gfmat_double :: "u32 \<Rightarrow> u32" where
  "gfmat_double n = (let n = push_bit 1 n in if n > 65535 then n XOR 0x1100B else n)"

text \<open>The \<^verbatim>\<open>do\<close> loop: on to the next exponent that is not skipped.\<close>

function gfmat_next :: "nat \<Rightarrow> u32 \<Rightarrow> gfmat_tables \<Rightarrow> (nat \<times> u32 \<times> gfmat_tables) option" where
  "gfmat_next exp n t =
     (case gfmat_store exp n t of
        None \<Rightarrow> None
      | Some t \<Rightarrow>
          if gfmat_skip (exp + 1) then gfmat_next (exp + 1) (gfmat_double n) t
          else Some (exp + 1, gfmat_double n, t))"
  by pat_completeness auto
termination
proof (relation "measure (\<lambda>(exp, n, t). 65535 - (exp + 65534) mod 65535)")
  fix exp n t t'
  assume skip: "gfmat_skip (exp + 1)"
  define q r where "q = exp div 65535" and "r = exp mod 65535"
  have e: "exp = 65535 * q + r" "r < 65535" by (simp_all add: q_def r_def)
  have "r \<noteq> 0"
  proof
    assume "r = 0"
    have "(65535 * q + 1) mod d = 1 mod d" if "65535 mod d = 0" for d :: nat
      using that mod_add_left_eq [of "65535 * q" d 1] mod_mult_left_eq [of 65535 d q] by simp
    from this [of 3] this [of 5] this [of 17] this [of 257] show False
      using skip e(1) \<open>r = 0\<close> by (simp add: gfmat_skip_def)
  qed
  have "exp + 65534 = (r - 1) + (q + 1) * 65535" "exp + 1 + 65534 = r + (q + 1) * 65535" using e \<open>r \<noteq> 0\<close> by simp_all
  then have "(exp + 65534) mod 65535 = r - 1" "(exp + 1 + 65534) mod 65535 = r"
    using e(2) by (simp_all only: mod_mult_self1) simp_all
  then show "((exp + 1, gfmat_double n, t'), exp, n, t) \<in> measure (\<lambda>(exp, n, t). 65535 - (exp + 65534) mod 65535)"
    using e(2) \<open>r \<noteq> 0\<close> by simp
qed simp

declare gfmat_next.simps [simp del]

definition gfmat_input :: "nat \<Rightarrow> nat \<times> u32 \<times> gfmat_tables \<Rightarrow> (nat \<times> u32 \<times> gfmat_tables) option" where
  "gfmat_input i s =
     (case s of
        (exp, n, t) \<Rightarrow>
          (case gfmat_next exp n t of
             None \<Rightarrow> None
           | Some (exp, n, t) \<Rightarrow>
               map_option (\<lambda>d. (exp, n, t\<lparr>gm_diff := d\<rparr>)) (put_at i (word_of_int (int exp - int i * 2)) (gm_diff t))))"

text \<open>The correction for the bits that an exponentiation shifts out.\<close>

definition gfmat_shift :: "nat \<Rightarrow> u16 list \<Rightarrow> u16 list option" where
  "gfmat_shift i e = put_at (8192 + i) (ucast (iter gfmat_double 7 (push_bit 9 (word_of_nat i)))) e"

definition gf16_exp :: "u16 list \<Rightarrow> u16 \<Rightarrow> u16" where
  "gf16_exp e v =
     (let result = push_bit (unat (v AND 7)) (ucast (e ! unat (drop_bit 3 v)) :: u32)
      in ucast (result XOR ucast (e ! (8192 + unat (drop_bit 16 result)))))"

definition gfmat_reciprocal :: "u16 list \<Rightarrow> nat \<Rightarrow> u16 list \<Rightarrow> u16 list option" where
  "gfmat_reciprocal e i recip = put_at i (gf16_exp e (65535 - recip ! i)) recip"

text \<open>The memory the tables are allocated in is an argument.\<close>

definition gfmat_init :: "gfmat_tables \<Rightarrow> gfmat_tables option" where
  "gfmat_init memory =
     Option.bind (for_each gfmat_input [0..<32768] (0, 1, memory)) (\<lambda>(exp, n, t).
     Option.bind (put_at (unat n) (word_of_nat exp) (gm_recip t)) (\<lambda>recip.
     Option.bind (for_each gfmat_shift [0..<128] (gm_exp t)) (\<lambda>e.
     Option.bind (put_at 1 65535 recip) (\<lambda>recip.
     Option.bind (for_each (gfmat_reciprocal e) [1..<65536] recip) (\<lambda>recip.
     Some (t\<lparr>gm_exp := e, gm_recip := recip\<rparr>))))))"

section \<open>Coefficients\<close>

definition gfmat_input_log :: "gfmat_tables \<Rightarrow> u32 \<Rightarrow> u16" where
  "gfmat_input_log t inputBlock = ucast (inputBlock * 2 + scast (gm_diff t ! unat inputBlock))"

definition gfmat_coeff_log :: "u32 \<Rightarrow> u32 \<Rightarrow> u16" where
  "gfmat_coeff_log inputLog recoveryBlock =
     (let result = inputLog * recoveryBlock;
          result = drop_bit 16 result + (result AND 65535);
          result = result + drop_bit 16 result
      in ucast result)"

definition gfmat_coeff_from_log :: "gfmat_tables \<Rightarrow> u16 \<Rightarrow> u16 \<Rightarrow> u16" where
  "gfmat_coeff_from_log t inputLog recoveryBlock = gf16_exp (gm_exp t) (gfmat_coeff_log (ucast inputLog) (ucast recoveryBlock))"

definition gfmat_coeff :: "gfmat_tables \<Rightarrow> u32 \<Rightarrow> u16 \<Rightarrow> u16" where
  "gfmat_coeff t inputBlock recoveryBlock = gfmat_coeff_from_log t (gfmat_input_log t inputBlock) recoveryBlock"

section \<open>The exponents of the constants\<close>

text \<open>PAR2 takes as constants of the input blocks the powers \<open>2\<^sup>n\<close> with \<open>n\<close> divisible by none of 3, 5, 17, 257, in this order.\<close>

definition par2_exponents :: "nat list" where
  "par2_exponents = filter (\<lambda>n. \<not> gfmat_skip n) [1..<65535]"

definition exponents_to :: "nat \<Rightarrow> nat" where
  "exponents_to n = length (filter (\<lambda>n. \<not> gfmat_skip n) [1..<Suc n])"

lemma exponents_to_0 [simp]: "exponents_to 0 = 0"
  by (simp add: exponents_to_def)

lemma exponents_to_Suc: "exponents_to (Suc n) = exponents_to n + (if gfmat_skip (Suc n) then 0 else 1)"
  by (simp add: exponents_to_def)

text \<open>How many there are, by inclusion and exclusion.\<close>

lemma div_Suc_if: "Suc n div d = n div d + (if Suc n mod d = 0 then 1 else 0)" if "0 < d"
  using that by (simp add: div_Suc)

lemma mod_mult_zero: "coprime a b \<Longrightarrow> (m mod (a * b) = 0) = (m mod a = 0 \<and> m mod b = 0)" for a b m :: nat
  unfolding mod_eq_0_iff_dvd by (meson divides_mult dvd_mult_left dvd_mult_right)

lemma skip_divisors:
  "(m mod 15 = 0) = (m mod 3 = 0 \<and> m mod 5 = 0)" "(m mod 51 = 0) = (m mod 3 = 0 \<and> m mod 17 = 0)"
  "(m mod 771 = 0) = (m mod 3 = 0 \<and> m mod 257 = 0)" "(m mod 85 = 0) = (m mod 5 = 0 \<and> m mod 17 = 0)"
  "(m mod 1285 = 0) = (m mod 5 = 0 \<and> m mod 257 = 0)" "(m mod 4369 = 0) = (m mod 17 = 0 \<and> m mod 257 = 0)"
  "(m mod 255 = 0) = (m mod 15 = 0 \<and> m mod 17 = 0)" "(m mod 3855 = 0) = (m mod 15 = 0 \<and> m mod 257 = 0)"
  "(m mod 13107 = 0) = (m mod 51 = 0 \<and> m mod 257 = 0)" "(m mod 21845 = 0) = (m mod 85 = 0 \<and> m mod 257 = 0)"
  "(m mod 65535 = 0) = (m mod 255 = 0 \<and> m mod 257 = 0)" for m :: nat
  using mod_mult_zero [of 3 5 m] mod_mult_zero [of 3 17 m] mod_mult_zero [of 3 257 m] mod_mult_zero [of 5 17 m]
    mod_mult_zero [of 5 257 m] mod_mult_zero [of 17 257 m] mod_mult_zero [of 15 17 m] mod_mult_zero [of 15 257 m]
    mod_mult_zero [of 51 257 m] mod_mult_zero [of 85 257 m] mod_mult_zero [of 255 257 m]
  by (simp_all add: coprime_iff_gcd_eq_1 gcd_non_0_nat)

lemma skip_count:
  "exponents_to n + n div 3 + n div 5 + n div 17 + n div 257 + n div 255 + n div 3855 + n div 13107 + n div 21845 =
   n + n div 15 + n div 51 + n div 771 + n div 85 + n div 1285 + n div 4369 + n div 65535"
proof (induction n)
  case (Suc n)
  define m where "m = Suc n"
  define F where "F d = (if m mod d = 0 then 1 else 0 :: nat)" for d
  define G where "G = (if gfmat_skip m then 0 else 1 :: nat)"
  have d: "m div numeral d = n div numeral d + F (numeral d)" for d
    using div_Suc_if [of "numeral d" n] by (simp only: m_def F_def zero_less_numeral)
  have e: "exponents_to m = exponents_to n + G"
    unfolding m_def G_def by (rule exponents_to_Suc)
  have f: "G + F 3 + F 5 + F 17 + F 257 + F 255 + F 3855 + F 13107 + F 21845 = 1 + F 15 + F 51 + F 771 + F 85 + F 1285 + F 4369 + F 65535"
    unfolding F_def G_def gfmat_skip_def skip_divisors
    by (cases "m mod 3 = 0"; cases "m mod 5 = 0"; cases "m mod 17 = 0"; cases "m mod 257 = 0") simp_all
  have "m = n + 1" by (simp add: m_def)
  then show ?case
    unfolding m_def [symmetric] e d using Suc.IH f by linarith
qed simp

lemma exponents_to_65534: "exponents_to 65534 = 32768"
  using skip_count [of 65534] by simp

lemma exponents_near:
  assumes "n < 65535"
  shows "n \<le> 2 * exponents_to n + 32" "2 * exponents_to n \<le> n + 32"
proof -
  have d: "numeral d * (n div numeral d) \<le> n" "n < numeral d * (n div numeral d) + numeral d" for d
    using mult_div_mod_eq [of "numeral d" n] mod_less_divisor [of "numeral d" n] zero_less_numeral [of d, where ?'a = nat]
    by linarith+
  have *: "3 * (n div 3) \<le> n" "n < 3 * (n div 3) + 3" "5 * (n div 5) \<le> n" "n < 5 * (n div 5) + 5"
    "17 * (n div 17) \<le> n" "n < 17 * (n div 17) + 17" "257 * (n div 257) \<le> n" "n < 257 * (n div 257) + 257"
    "255 * (n div 255) \<le> n" "n < 255 * (n div 255) + 255" "3855 * (n div 3855) \<le> n" "n < 3855 * (n div 3855) + 3855"
    "13107 * (n div 13107) \<le> n" "n < 13107 * (n div 13107) + 13107" "21845 * (n div 21845) \<le> n" "n < 21845 * (n div 21845) + 21845"
    "15 * (n div 15) \<le> n" "n < 15 * (n div 15) + 15" "51 * (n div 51) \<le> n" "n < 51 * (n div 51) + 51"
    "771 * (n div 771) \<le> n" "n < 771 * (n div 771) + 771" "85 * (n div 85) \<le> n" "n < 85 * (n div 85) + 85"
    "1285 * (n div 1285) \<le> n" "n < 1285 * (n div 1285) + 1285" "4369 * (n div 4369) \<le> n" "n < 4369 * (n div 4369) + 4369"
    by (rule d)+
  have "n div 65535 = 0" using assms by simp
  then show "n \<le> 2 * exponents_to n + 32" "2 * exponents_to n \<le> n + 32"
    using skip_count [of n] * assms by linarith+
qed

lemma exponents_to_mono: "m \<le> n \<Longrightarrow> exponents_to m \<le> exponents_to n"
  by (induction rule: dec_induct) (auto simp: exponents_to_Suc)

lemma length_par2_exponents: "length par2_exponents = 32768"
proof -
  have "[1..<65535] = [1..<Suc 65534]" by simp
  then have "length par2_exponents = exponents_to 65534" unfolding par2_exponents_def exponents_to_def by (rule arg_cong)
  then show ?thesis by (simp only: exponents_to_65534)
qed

lemma par2_exponents_nth:
  assumes "exponents_to n = Suc i" "n < 65535" "\<not> gfmat_skip n"
  shows "par2_exponents ! i = n"
proof -
  have "0 < n" using assms(1) by (intro gr0I) simp
  have "[1..<65535] = [1..<n] @ [n..<65535]" using upt_add_eq_append [of 1 n "65535 - n"] \<open>0 < n\<close> assms(2) by simp
  also have "[n..<65535] = n # [Suc n..<65535]" using assms(2) by (rule upt_conv_Cons)
  finally have "par2_exponents = filter (\<lambda>n. \<not> gfmat_skip n) [1..<n] @ n # filter (\<lambda>n. \<not> gfmat_skip n) [Suc n..<65535]"
    using assms(3) by (simp add: par2_exponents_def)
  moreover have "length (filter (\<lambda>n. \<not> gfmat_skip n) [1..<n]) = i"
    using assms(1,3) \<open>0 < n\<close> by (simp add: exponents_to_def)
  ultimately show ?thesis by (metis nth_append_length)
qed

section \<open>What the tables hold\<close>

abbreviation pow16 :: "nat \<Rightarrow> u16" where
  "pow16 n \<equiv> (gf16_multby_two ^^ n) 1"

lemma bit_65536: "bit (0x10000 :: int) n \<longleftrightarrow> n = 16"
  using bit_exp_iff [of 16 n, where ?'a = int] by simp

lemma push_bit_ucast16:
  "push_bit 1 (ucast a :: u32) = ucast (push_bit 1 a) XOR (if bit a 15 then 0x10000 else 0)" for a :: u16
proof (rule bit_eqI)
  fix n
  have "n \<le> 16" if "bit a (n - 1)"
    using bit_imp_le_length [OF that] by simp
  then show "bit (push_bit 1 (ucast a :: u32)) n = bit (ucast (push_bit 1 a) XOR (if bit a 15 then 0x10000 else 0) :: u32) n"
    by (cases "n = 16") (auto simp: bit_simps bit_65536 simp del: push_bit_Suc One_nat_def)
qed

lemma gfmat_double_ucast: "gfmat_double (ucast a) = ucast (gf16_multby_two a)"
proof -
  have small: "unat (ucast (b :: u16) :: u32) < 65536" for b
    using unsigned_less [of b, where 'a = nat] by simp
  have big: "ucast b XOR (0x10000 :: u32) = ucast b + 0x10000" for b :: u16
  proof -
    have "ucast b AND (0x10000 :: u32) = 0"
      by (rule bit_eqI) (auto simp: bit_simps bit_65536 dest: bit_imp_le_length)
    then show ?thesis by (metis disjunctive_xor_eq_or disjunctive_add_eq_or)
  qed
  show ?thesis
  proof (cases "bit a 15")
    case True
    have "unat (ucast (push_bit 1 a) + 0x10000 :: u32) = unat (ucast (push_bit 1 a) :: u32) + 65536"
      using small [of "push_bit 1 a"] by (simp add: unat_word_ariths del: push_bit_Suc One_nat_def)
    then have "\<not> ucast (push_bit 1 a) + (0x10000 :: u32) \<le> 65535"
      by (simp add: word_le_nat_alt del: push_bit_Suc One_nat_def)
    moreover have "(0x1100B :: u32) = 0x10000 XOR ucast (0x100B :: u16)" by simp
    ultimately show ?thesis using True
      by (simp add: gfmat_double_def Let_def push_bit_ucast16 gf16_multby_two_if big [symmetric] not_le unsigned_xor_eq word_xor_simps
          del: push_bit_Suc One_nat_def)
  next
    case False
    then show ?thesis using small [of "push_bit 1 a"]
      by (simp add: gfmat_double_def Let_def push_bit_ucast16 gf16_multby_two_if word_less_nat_alt del: push_bit_Suc One_nat_def)
  qed
qed

text \<open>The tables when all exponents below \<open>exp\<close> are entered.\<close>

definition gfmat_filled :: "nat \<Rightarrow> gfmat_tables \<Rightarrow> bool" where
  "gfmat_filled exp t \<longleftrightarrow> length (gm_diff t) = 32768 \<and> length (gm_exp t) = 8320 \<and> length (gm_recip t) = 65536 \<and>
     (\<forall>k<exp. gm_recip t ! unat (pow16 k) = word_of_nat k) \<and> (\<forall>k<exp. k mod 8 = 0 \<longrightarrow> gm_exp t ! (k div 8) = pow16 k)"

lemma unat_u16_less [simp]: "unat (a :: u16) < 65536"
  using unsigned_less [of a, where 'a = nat] by simp

lemma gfmat_store_filled:
  assumes "gfmat_filled exp t" "exp < 65535"
  shows "\<exists>t'. gfmat_store exp (ucast (pow16 exp)) t = Some t' \<and> gfmat_filled (Suc exp) t' \<and> gm_diff t' = gm_diff t"
proof -
  have "pow16 k \<noteq> pow16 exp" if "k < exp" for k
    using x16.Dn_one_inj [of k exp] that assms(2) by auto
  then have ne: "unat (pow16 k) \<noteq> unat (pow16 exp)" if "k < exp" for k
    using that by (metis word_unat_eq_iff)
  have ne8: "k div 8 \<noteq> exp div 8" if "k < exp" "k mod 8 = 0" "exp mod 8 = 0" for k
    using that mult_div_mod_eq [of 8 k] mult_div_mod_eq [of 8 exp] by (metis less_irrefl)
  have "exp div 8 < 8320" using assms(2) by simp
  let ?recip = "(gm_recip t)[unat (pow16 exp) := word_of_nat exp]"
  let ?e = "if exp mod 8 = 0 then (gm_exp t)[exp div 8 := pow16 exp] else gm_exp t"
  note f = assms(1) [unfolded gfmat_filled_def]
  have l: "length (gm_exp t) = 8320" "length (gm_recip t) = 65536" using f by blast+
  have st: "gfmat_store exp (ucast (pow16 exp)) t = Some (t\<lparr>gm_recip := ?recip, gm_exp := ?e\<rparr>)"
    using l \<open>exp div 8 < 8320\<close> by (simp add: gfmat_store_def put_at_def)
  have r: "?recip ! unat (pow16 k) = word_of_nat k" if "k < Suc exp" for k
  proof (cases "k = exp")
    case True
    then show ?thesis using l by simp
  next
    case False
    then have "k < exp" using that by simp
    then show ?thesis using f ne [of k] by simp
  qed
  have e: "?e ! (k div 8) = pow16 k" if "k < Suc exp" "k mod 8 = 0" for k
  proof (cases "k = exp")
    case True
    then show ?thesis using l that \<open>exp div 8 < 8320\<close> by simp
  next
    case False
    then have "k < exp" using that by simp
    have "gm_exp t ! (k div 8) = pow16 k"
      using f [THEN conjunct2, THEN conjunct2, THEN conjunct2, THEN conjunct2, rule_format, OF \<open>k < exp\<close> that(2)] .
    then show ?thesis
      using nth_list_update_neq [OF not_sym [OF ne8 [OF \<open>k < exp\<close> that(2)]], of "gm_exp t" "pow16 exp"]
      by (cases "exp mod 8 = 0") (simp_all only: if_True if_False simp_thms)
  qed
  have "gfmat_filled (Suc exp) (t\<lparr>gm_recip := ?recip, gm_exp := ?e\<rparr>)"
    unfolding gfmat_filled_def
  proof (intro conjI allI impI)
    let ?t = "t\<lparr>gm_recip := ?recip, gm_exp := ?e\<rparr>"
    have sel: "gm_recip ?t = ?recip" "gm_exp ?t = ?e" "gm_diff ?t = gm_diff t" by simp_all
    show "gm_recip ?t ! unat (pow16 k) = word_of_nat k" if "k < Suc exp" for k
      unfolding sel by (rule r [OF that])
    show "gm_exp ?t ! (k div 8) = pow16 k" if "k < Suc exp" "k mod 8 = 0" for k
      unfolding sel by (rule e [OF that])
    show "length (gm_diff ?t) = 32768" "length (gm_exp ?t) = 8320" "length (gm_recip ?t) = 65536"
      unfolding sel using f by (auto simp only: length_list_update split: if_split)
  qed
  then show ?thesis using st by auto
qed

lemma gfmat_next_filled:
  assumes "gfmat_filled exp t" "exp < e" "e < 65535" "\<not> gfmat_skip e" "\<And>k. exp < k \<Longrightarrow> k < e \<Longrightarrow> gfmat_skip k"
  shows "\<exists>t'. gfmat_next exp (ucast (pow16 exp)) t = Some (e, ucast (pow16 e), t') \<and> gfmat_filled e t' \<and> gm_diff t' = gm_diff t"
  using assms
proof (induction "e - exp" arbitrary: exp t)
  case (Suc m)
  obtain t' where t': "gfmat_store exp (ucast (pow16 exp)) t = Some t'" "gfmat_filled (Suc exp) t'" "gm_diff t' = gm_diff t"
    using gfmat_store_filled [of exp t] Suc.prems by auto
  have d: "gfmat_double (ucast (pow16 exp)) = ucast (pow16 (Suc exp))" by (simp add: gfmat_double_ucast)
  show ?case
  proof (cases "Suc exp = e")
    case True
    then show ?thesis
      using t' Suc.prems by (subst gfmat_next.simps) (simp add: d del: funpow.simps)
  next
    case False
    then have "Suc exp < e" "gfmat_skip (Suc exp)" using Suc.prems by auto
    then show ?thesis
      using t' Suc.hyps(1) [of "Suc exp" t'] Suc.hyps(2) Suc.prems by (subst gfmat_next.simps) (simp add: d del: funpow.simps)
  qed
qed simp

lemma exponents_to_gap:
  assumes "m < n" "\<And>k. m < k \<Longrightarrow> k < n \<Longrightarrow> gfmat_skip k"
  shows "exponents_to n = exponents_to m + (if gfmat_skip n then 0 else 1)"
proof -
  have "m + d < n \<Longrightarrow> exponents_to (m + d) = exponents_to m" for d
    by (induction d) (use assms(2) in \<open>auto simp: exponents_to_Suc\<close>)
  from this [of "n - m - 1"] assms(1) show ?thesis
    by (cases n) (auto simp: exponents_to_Suc)
qed

text \<open>After the rounds for \<open>i\<close> inputs.\<close>

definition gfmat_round :: "nat \<Rightarrow> nat \<times> u32 \<times> gfmat_tables \<Rightarrow> bool" where
  "gfmat_round i s \<longleftrightarrow>
     (case s of
        (exp, n, t) \<Rightarrow>
          exponents_to exp = i \<and> exp < 65535 \<and> n = ucast (pow16 exp) \<and> gfmat_filled exp t \<and>
          (\<forall>j<i. gm_diff t ! j = word_of_int (int (par2_exponents ! j) - int j * 2)))"

lemma gfmat_input_round:
  assumes "gfmat_round i s" "i < 32768"
  shows "\<exists>s'. gfmat_input i s = Some s' \<and> gfmat_round (Suc i) s'"
proof -
  obtain exp n t where s: "s = (exp, n, t)" by (cases s)
  have r: "exponents_to exp = i" "exp < 65535" "n = ucast (pow16 exp)" "gfmat_filled exp t"
    "\<forall>j<i. gm_diff t ! j = word_of_int (int (par2_exponents ! j) - int j * 2)"
    using assms(1) by (simp_all add: gfmat_round_def s)
  have "\<not> gfmat_skip 65534" by (simp add: gfmat_skip_def)
  have "exp \<noteq> 65534" using r(1) assms(2) exponents_to_65534 by auto
  define e where "e = (LEAST k. exp < k \<and> \<not> gfmat_skip k)"
  have ex: "exp < 65534 \<and> \<not> gfmat_skip 65534" using r(2) \<open>exp \<noteq> 65534\<close> \<open>\<not> gfmat_skip 65534\<close> by linarith
  then have e: "exp < e \<and> \<not> gfmat_skip e" unfolding e_def by (rule LeastI)
  have "e \<le> 65534" unfolding e_def using ex by (rule Least_le)
  have gap: "gfmat_skip k" if "exp < k" "k < e" for k
    using not_less_Least [of k "\<lambda>k. exp < k \<and> \<not> gfmat_skip k"] that by (auto simp: e_def)
  obtain t' where t': "gfmat_next exp n t = Some (e, ucast (pow16 e), t')" "gfmat_filled e t'" "gm_diff t' = gm_diff t"
    using gfmat_next_filled [of exp t e] r e \<open>e \<le> 65534\<close> gap by auto
  have c: "exponents_to e = Suc i" using exponents_to_gap [of exp e] e gap r(1) by auto
  then have "par2_exponents ! i = e" using e \<open>e \<le> 65534\<close> by (intro par2_exponents_nth) simp_all
  then show ?thesis
    using t' c r(5) assms(2) \<open>e \<le> 65534\<close>
    by (auto simp: s gfmat_input_def put_at_def gfmat_round_def gfmat_filled_def nth_list_update less_Suc_eq)
qed

lemma gfmat_inputs:
  assumes "length (gm_diff memory) = 32768" "length (gm_exp memory) = 8320" "length (gm_recip memory) = 65536"
  shows "i \<le> 32768 \<Longrightarrow> \<exists>s. for_each gfmat_input [0..<i] (0, 1, memory) = Some s \<and> gfmat_round i s"
proof (induction i)
  case 0
  then show ?case using assms by (simp add: gfmat_round_def gfmat_filled_def)
next
  case (Suc i)
  then obtain s where "for_each gfmat_input [0..<i] (0, 1, memory) = Some s" "gfmat_round i s" by auto
  then show ?case using gfmat_input_round [of i s] Suc.prems by (auto simp: for_each_append)
qed

section \<open>Exponentiation\<close>

lemma pow16_exp: "n < 16 \<Longrightarrow> pow16 n = 2 ^ n"
  by (induction n) (simp_all add: gf16_two_step del: power_Suc)

lemma ucast_exp: "i < 16 \<Longrightarrow> ucast (2 ^ i :: u16) = (2 ^ i :: u32)"
  by (rule bit_eqI) (auto simp: bit_simps)

text \<open>Doubling \<open>s\<close> times: the bits that stay, and the bits shifted out, which count \<open>2\<^sup>1\<^sup>6\<close>.\<close>

lemma gf16_shift_split:
  assumes "s \<le> 16"
  shows "(gf16_multby_two ^^ s) a = ucast (push_bit s (ucast a :: u32)) XOR
    (gf16_multby_two ^^ 16) (ucast (drop_bit 16 (push_bit s (ucast a :: u32))))"
proof (induction a rule: word_xor_induct)
  case zero
  then show ?case using m16.Dn_zero [of s] m16.Dn_zero [of 16] by simp
next
  case (bit i)
  then have i: "i < 16" by simp
  have p: "push_bit s (ucast (2 ^ i :: u16) :: u32) = 2 ^ (i + s)"
    using i by (simp only: ucast_exp push_bit_eq_mult power_add)
  have l: "(gf16_multby_two ^^ s) (2 ^ i) = pow16 (s + i)"
    using pow16_exp [OF i] by (simp only: funpow_add o_apply)
  show ?case
  proof (cases "i + s < 16")
    case True
    have "ucast (2 ^ (i + s) :: u32) = (2 ^ (i + s) :: u16)" "drop_bit 16 (2 ^ (i + s) :: u32) = 0"
      using True by (auto intro!: bit_eqI simp: bit_simps)
    then show ?thesis
      unfolding l p using True pow16_exp [of "s + i"] m16.Dn_zero [of 16] by (simp add: add.commute)
  next
    case False
    then obtain k where k: "i + s = 16 + k" using le_Suc_ex by (metis not_less)
    then have "k < 16" using i assms by linarith
    have "ucast (2 ^ (i + s) :: u32) = (0 :: u16)" "ucast (drop_bit 16 (2 ^ (i + s) :: u32)) = (2 ^ k :: u16)"
      using \<open>k < 16\<close> by (auto intro!: bit_eqI simp: bit_simps k)
    moreover have "(gf16_multby_two ^^ 16) (2 ^ k) = pow16 (16 + k)"
      using pow16_exp [OF \<open>k < 16\<close>] by (simp only: funpow_add o_apply)
    ultimately show ?thesis unfolding l p using k by (simp only: add.commute [of s] xor.left_neutral)
  qed
next
  case (xor a b)
  then show ?case
    by (simp only: m16.Dn_xor unsigned_xor_eq push_bit_xor drop_bit_xor) (simp only: word_xor_simps)
qed

lemma gf16_shift_small:
  assumes "s \<le> 16" "unat a * 2 ^ s < 65536"
  shows "(gf16_multby_two ^^ s) a = ucast (push_bit s (ucast a :: u32))"
proof -
  have "unat (push_bit s (ucast a :: u32)) = unat a * 2 ^ s"
  proof -
    have "push_bit s (ucast a :: u32) = word_of_nat (unat a * 2 ^ s)"
      by (simp add: push_bit_eq_mult)
    then show ?thesis using assms(2) by (simp only: unat_of_nat) simp
  qed
  then have "unat (drop_bit 16 (push_bit s (ucast a :: u32))) = 0"
    using assms(2) by (simp add: drop_bit_eq_div unat_div_distrib)
  then have "drop_bit 16 (push_bit s (ucast a :: u32)) = 0" by (simp add: unat_eq_0)
  then show ?thesis using gf16_shift_split [OF assms(1), of a] m16.Dn_zero [of 16] by simp
qed

lemma gfmat_double_iter: "iter gfmat_double n (ucast a) = ucast ((gf16_multby_two ^^ n) a)"
  unfolding funpow_iter [symmetric] by (induction n) (simp_all add: gfmat_double_ucast)

lemma ucast_ucast_small: "unat w < 65536 \<Longrightarrow> ucast (ucast (w :: u32) :: u16) = w"
  by (simp add: word_unat_eq_iff unsigned_ucast_eq take_bit_eq_mod unat_mod_distrib)

lemma gfmat_shift_entry:
  assumes "i < 128"
  shows "ucast (iter gfmat_double 7 (push_bit 9 (word_of_nat i))) = (gf16_multby_two ^^ 16) (word_of_nat i :: u16)"
proof -
  have u: "unat (word_of_nat i :: u16) = i" using assms by (simp add: unat_of_nat)
  have w: "(word_of_nat i :: u32) = ucast (word_of_nat i :: u16)"
    using assms by (simp add: word_unat_eq_iff unat_of_nat)
  have "push_bit 9 (word_of_nat i :: u32) = ucast ((gf16_multby_two ^^ 9) (word_of_nat i))"
  proof -
    have "push_bit 9 (word_of_nat i :: u32) = word_of_nat (i * 2 ^ 9)" by (simp add: push_bit_eq_mult)
    moreover have "ucast (ucast (word_of_nat (i * 2 ^ 9) :: u32) :: u16) = (word_of_nat (i * 2 ^ 9) :: u32)"
      using assms by (intro ucast_ucast_small) (simp only: unat_of_nat, simp)
    ultimately show ?thesis
      using gf16_shift_small [of 9 "word_of_nat i"] assms u w by simp
  qed
  then show ?thesis
    by (simp only: gfmat_double_iter ucast_ucast_up [OF order_less_imp_le] funpow_add [of 7 9, simplified, unfolded o_def, THEN fun_cong, symmetric])
      simp
qed

definition exp_table :: "u16 list \<Rightarrow> bool" where
  "exp_table e \<longleftrightarrow> length e = 8320 \<and> (\<forall>q<8192. e ! q = pow16 (8 * q)) \<and>
     (\<forall>i<128. e ! (8192 + i) = (gf16_multby_two ^^ 16) (word_of_nat i))"

lemma gf16_exp_pow:
  assumes "exp_table e"
  shows "gf16_exp e v = pow16 (unat v)"
proof -
  define s where "s = unat (v AND 7)"
  define q where "q = unat (drop_bit 3 v)"
  define result where "result = push_bit s (ucast (e ! q) :: u32)"
  have "v AND 7 = take_bit 3 v" by (simp add: take_bit_eq_mask mask_eq_exp_minus_1)
  then have s: "s = unat v mod 8" by (simp add: s_def take_bit_eq_mod unat_mod_distrib)
  have q: "q = unat v div 8" by (simp add: q_def drop_bit_eq_div unat_div_distrib)
  have "q < 8192" using q unat_u16_less [of v] by linarith
  then have e: "e ! q = pow16 (8 * q)" using assms by (simp add: exp_table_def)
  have "s \<le> 7" using s by simp
  define hi where "hi = unat (drop_bit 16 result)"
  have "result = word_of_nat (unat (e ! q) * 2 ^ s)" by (simp add: result_def push_bit_eq_mult)
  moreover have "unat (e ! q) * 2 ^ s \<le> 65535 * 2 ^ 7"
  proof (rule mult_le_mono)
    show "unat (e ! q) \<le> 65535" using unat_u16_less [of "e ! q"] by linarith
    show "2 ^ s \<le> (2::nat) ^ 7" using \<open>s \<le> 7\<close> by (intro power_increasing) simp_all
  qed
  ultimately have "unat result \<le> 65535 * 2 ^ 7" by (simp only: unat_of_nat) simp
  then have "hi < 128" by (simp add: hi_def drop_bit_eq_div unat_div_distrib)
  have h: "ucast (drop_bit 16 result) = (word_of_nat hi :: u16)" by (simp add: hi_def)
  have "gf16_exp e v = ucast (result XOR ucast (e ! (8192 + hi)))"
    by (simp add: gf16_exp_def Let_def s_def [symmetric] q_def [symmetric] result_def [symmetric] hi_def [symmetric])
  also have "\<dots> = ucast result XOR (gf16_multby_two ^^ 16) (ucast (drop_bit 16 result))"
    using assms \<open>hi < 128\<close> by (simp add: exp_table_def h unsigned_xor_eq)
  also have "\<dots> = (gf16_multby_two ^^ s) (pow16 (8 * q))"
    using gf16_shift_split [of s "e ! q"] \<open>s \<le> 7\<close> by (simp add: result_def e)
  also have "\<dots> = pow16 (s + 8 * q)" by (simp only: funpow_add o_apply)
  also have "s + 8 * q = unat v" using s q by simp
  finally show ?thesis .
qed

section \<open>The finished tables\<close>

lemma for_each_put:
  assumes "off + b \<le> length xs"
  shows "a \<le> b \<Longrightarrow> \<exists>ys. for_each (\<lambda>i ys. put_at (off + i) (f i (ys ! (off + i))) ys) [a..<b] xs = Some ys \<and>
    length ys = length xs \<and> (\<forall>j. ys ! j = (if off + a \<le> j \<and> j < off + b then f (j - off) (xs ! j) else xs ! j))"
  using assms
proof (induction b)
  case (Suc b)
  show ?case
  proof (cases "a = Suc b")
    case False
    then have "a \<le> b" using Suc.prems by simp
    then obtain ys where ys: "for_each (\<lambda>i ys. put_at (off + i) (f i (ys ! (off + i))) ys) [a..<b] xs = Some ys"
      "length ys = length xs" "\<forall>j. ys ! j = (if off + a \<le> j \<and> j < off + b then f (j - off) (xs ! j) else xs ! j)"
      using Suc.IH Suc.prems by auto
    have "ys[off + b := f b (ys ! (off + b))] ! j = (if off + a \<le> j \<and> j < off + Suc b then f (j - off) (xs ! j) else xs ! j)" for j
      using ys(2,3) Suc.prems \<open>a \<le> b\<close> by (cases "j = off + b") auto
    then show ?thesis
      using ys(1,2) Suc.prems \<open>a \<le> b\<close> by (simp add: for_each_append put_at_def del: upt_Suc add: upt_Suc_append)
  next
    case True
    have "\<not> (off + Suc b \<le> j \<and> j < off + Suc b)" for j by linarith
    then show ?thesis unfolding True by (simp only: upt_eq_Nil_conv order_refl simp_thms for_each.simps if_False ex_simps) auto
  qed
next
  case 0
  then show ?case by auto
qed

definition gfmat_ready :: "gfmat_tables \<Rightarrow> bool" where
  "gfmat_ready t \<longleftrightarrow> exp_table (gm_exp t) \<and>
     (\<forall>i<32768. gm_diff t ! i = word_of_int (int (par2_exponents ! i) - int i * 2)) \<and>
     (\<forall>a. a \<noteq> 0 \<longrightarrow> gf16_mul (gm_recip t ! unat a) a = 1)"

lemma gfmat_init_ready:
  assumes "length (gm_diff memory) = 32768" "length (gm_exp memory) = 8320" "length (gm_recip memory) = 65536"
  shows "\<exists>t. gfmat_init memory = Some t \<and> gfmat_ready t"
proof -
  obtain exp n t where inp: "for_each gfmat_input [0..<32768] (0, 1, memory) = Some (exp, n, t)" "gfmat_round 32768 (exp, n, t)"
    using gfmat_inputs [OF assms, of 32768] by auto
  then have r: "exponents_to exp = 32768" "exp < 65535" "n = ucast (pow16 exp)" "gfmat_filled exp t"
    "\<forall>j<32768. gm_diff t ! j = word_of_int (int (par2_exponents ! j) - int j * 2)"
    by (simp_all add: gfmat_round_def)
  have exp: "exp = 65534"
  proof (rule ccontr)
    assume "exp \<noteq> 65534"
    then have "exponents_to exp \<le> exponents_to 65533" using r(2) by (intro exponents_to_mono) simp
    moreover have "exponents_to 65534 = exponents_to 65533 + 1"
      using exponents_to_Suc [of 65533] by (simp add: gfmat_skip_def)
    ultimately show False using r(1) exponents_to_65534 by simp
  qed
  note f = r(4) [unfolded gfmat_filled_def exp]
  have l: "length (gm_diff t) = 32768" "length (gm_exp t) = 8320" "length (gm_recip t) = 65536"
    and fe: "\<And>k. k < 65534 \<Longrightarrow> k mod 8 = 0 \<Longrightarrow> gm_exp t ! (k div 8) = pow16 k"
    and fr: "\<And>k. k < 65534 \<Longrightarrow> gm_recip t ! unat (pow16 k) = word_of_nat k"
    using f by (metis, metis, metis, metis, metis)
  define recip where "recip = (gm_recip t)[unat (pow16 65534) := 65534]"
  have p1: "put_at (unat n) (word_of_nat exp) (gm_recip t) = Some recip"
    using l(3) by (simp add: put_at_def recip_def r(3) exp del: funpow.simps)
  obtain e where e: "for_each gfmat_shift [0..<128] (gm_exp t) = Some e" "length e = 8320"
    "\<forall>j. e ! j = (if 8192 + 0 \<le> j \<and> j < 8192 + 128 then ucast (iter gfmat_double 7 (push_bit 9 (word_of_nat (j - 8192)))) else gm_exp t ! j)"
    using for_each_put [of 8192 128 "gm_exp t" 0 "\<lambda>i _. ucast (iter gfmat_double 7 (push_bit 9 (word_of_nat i)))"] l(2)
    unfolding gfmat_shift_def [abs_def] by auto
  have table: "exp_table e"
    unfolding exp_table_def
  proof (intro conjI allI impI)
    show "e ! q = pow16 (8 * q)" if "q < 8192" for q
      using e(3) that fe [of "8 * q"] by simp
    show "e ! (8192 + i) = (gf16_multby_two ^^ 16) (word_of_nat i)" if "i < 128" for i
      using e(3) that gfmat_shift_entry [OF that] by simp
  qed (rule e(2))
  have p2: "put_at 1 65535 recip = Some (recip[1 := 65535])" using l(3) by (simp add: put_at_def recip_def)
  obtain recip' where r': "for_each (gfmat_reciprocal e) [1..<65536] (recip[1 := 65535]) = Some recip'"
    "\<forall>j. recip' ! j = (if 0 + 1 \<le> j \<and> j < 0 + 65536 then gf16_exp e (65535 - recip[1 := 65535] ! j) else recip[1 := 65535] ! j)"
    using for_each_put [of 0 65536 "recip[1 := 65535]" 1 "\<lambda>i v. gf16_exp e (65535 - v)"] l(3)
    unfolding gfmat_reciprocal_def [abs_def] by (auto simp: recip_def)
  have "gf16_mul (recip' ! unat a) a = 1" if "a \<noteq> 0" for a
  proof -
    obtain k where k: "k < 65535" "a = pow16 k" using x16.generates [OF \<open>a \<noteq> 0\<close>] by blast
    define v where "v = recip[1 := 65535] ! unat a"
    have "1 \<le> unat a" using \<open>a \<noteq> 0\<close> by (simp add: Suc_leI unat_gt_0)
    then have "recip' ! unat a = gf16_exp e (65535 - v)" using r'(2) unat_u16_less [of a] by (simp add: v_def)
    also have "\<dots> = pow16 (unat (65535 - v))" by (rule gf16_exp_pow [OF table])
    finally have *: "recip' ! unat a = pow16 (unat (65535 - v))" .
    have "unat (65535 - v) + k = 65535 \<or> unat (65535 - v) + k = 0"
    proof (cases "k = 0")
      case True
      then have "v = 65535" using k l(3) by (simp add: v_def recip_def)
      then show ?thesis using True by simp
    next
      case False
      have "pow16 k \<noteq> pow16 0" using x16.Dn_one_inj [of k 0] k False by auto
      then have "unat a \<noteq> 1" using k word_unat_eq_iff [of a 1] by simp
      moreover have "recip ! unat a = word_of_nat k"
      proof (cases "k = 65534")
        case True
        then show ?thesis using l(3) k by (simp add: recip_def del: funpow.simps)
      next
        case False
        then have "k < 65534" using k by simp
        moreover have "pow16 k \<noteq> pow16 65534" using x16.Dn_one_inj [of k 65534] k False by auto
        then have "unat (pow16 65534) \<noteq> unat a" using k by (metis word_unat_eq_iff)
        ultimately show ?thesis using fr k by (simp add: recip_def del: funpow.simps)
      qed
      ultimately have "v = word_of_nat k" by (simp add: v_def)
      then have "unat (65535 - v) = 65535 - k"
        using k(1) by (subst unat_sub) (simp_all add: word_le_nat_alt unat_of_nat)
      then show ?thesis using k(1) by simp
    qed
    then have "pow16 (unat (65535 - v) + k) = 1" using x16.order_N by (metis funpow_0)
    moreover have "gf16_mul (recip' ! unat a) a = pow16 (unat (65535 - v) + k)"
      unfolding * by (subst k(2)) (rule m16.mul_pow_pow)
    ultimately show ?thesis by simp
  qed
  moreover have "gfmat_init memory = Some (t\<lparr>gm_exp := e, gm_recip := recip'\<rparr>)"
    by (simp only: gfmat_init_def inp(1) p1 e(1) p2 r'(1) Option.bind.simps prod.case)
  ultimately show ?thesis using table r(5) by (auto simp: gfmat_ready_def)
qed

section \<open>Coefficients\<close>

text \<open>The constant of an input block.\<close>

definition par2_constant :: "nat \<Rightarrow> galois16" where
  "par2_constant i = gen16 (par2_exponents ! i)"

lemma par2_exponent_props:
  assumes "i < 32768"
  shows "0 < par2_exponents ! i" "par2_exponents ! i < 65535" "exponents_to (par2_exponents ! i) = Suc i"
    "par2_exponents ! i \<le> 2 * i + 34" "2 * i \<le> par2_exponents ! i + 30"
proof -
  let ?n = "par2_exponents ! i"
  have "?n \<in> set par2_exponents" using assms by (intro nth_mem) (simp add: length_par2_exponents)
  then have n: "0 < ?n" "?n < 65535" and skip: "\<not> gfmat_skip ?n" by (auto simp: par2_exponents_def)
  show "0 < ?n" "?n < 65535" by (rule n)+
  have "exponents_to ?n \<noteq> 0"
    using n skip by (cases ?n) (auto simp: exponents_to_Suc)
  then obtain j where j: "exponents_to ?n = Suc j" by (cases "exponents_to ?n") auto
  have "Suc j \<le> 32768"
    using exponents_to_mono [of ?n 65534] n(2) exponents_to_65534 j by simp
  moreover have "par2_exponents ! j = ?n" using par2_exponents_nth [OF j n(2) skip] .
  moreover have "distinct par2_exponents" by (simp add: par2_exponents_def)
  ultimately have "j = i"
    using assms nth_eq_iff_index_eq [of par2_exponents j i] by (simp add: length_par2_exponents Suc_le_eq)
  then show "exponents_to ?n = Suc i" using j by simp
  then show "?n \<le> 2 * i + 34" "2 * i \<le> ?n + 30" using exponents_near [OF n(2)] by linarith+
qed

lemma gfmat_input_log_eq:
  assumes "gfmat_ready t" "unat i < 32768"
  shows "gfmat_input_log t i = word_of_nat (par2_exponents ! unat i)"
proof -
  let ?n = "par2_exponents ! unat i"
  define d where "d = int ?n - int (unat i) * 2"
  have b: "- 128 \<le> d" "d < 128" using par2_exponent_props(4,5) [OF assms(2)] unfolding d_def by linarith+
  have "signed_take_bit 7 d = d" using b by (simp add: signed_take_bit_int_eq_self)
  then have "sint (word_of_int d :: 8 word) = d" by (simp add: sint_sbintrunc')
  then have "scast (gm_diff t ! unat i) = (word_of_int d :: u32)"
    using assms by (simp add: gfmat_ready_def d_def scast_eq)
  moreover have "i * 2 = word_of_int (int (unat i) * 2)" by simp
  ultimately have "i * 2 + scast (gm_diff t ! unat i) = word_of_int (int (unat i) * 2 + d)" by (simp only: wi_hom_add)
  also have "int (unat i) * 2 + d = int ?n" by (simp add: d_def)
  finally have "i * 2 + scast (gm_diff t ! unat i) = word_of_nat ?n" by simp
  moreover have "ucast (word_of_nat ?n :: u32) = (word_of_nat ?n :: u16)"
    using par2_exponent_props(2) [OF assms(2)] by (simp add: word_unat_eq_iff unsigned_ucast_eq unat_of_nat take_bit_eq_mod)
  ultimately show ?thesis by (simp add: gfmat_input_log_def)
qed

text \<open>The reduction modulo 65535, up to the two representations of 0.\<close>

lemma gfmat_coeff_log_mod:
  fixes a b :: u16
  shows "unat (gfmat_coeff_log (ucast a) (ucast b)) mod 65535 = (unat a * unat b) mod 65535"
proof -
  define r where "r = (ucast a * ucast b :: u32)"
  have "unat a * unat b \<le> 65535 * 65535"
    using unat_u16_less [of a] unat_u16_less [of b] by (intro mult_le_mono) linarith+
  then have r: "unat r = unat a * unat b" by (simp add: r_def unat_word_ariths)
  define x where "x = drop_bit 16 r + (r AND 65535)"
  have m: "r AND 65535 = take_bit 16 r" by (simp add: take_bit_eq_mask mask_eq_exp_minus_1)
  have rd: "unat r div 65536 \<le> 65534" "unat r mod 65536 < 65536" using r \<open>unat a * unat b \<le> 65535 * 65535\<close> by simp_all
  then have x: "unat x = unat r div 65536 + unat r mod 65536"
    unfolding x_def m by (simp add: unat_word_ariths take_bit_eq_mod drop_bit_eq_div unat_div_distrib unat_mod_distrib)
  have xl: "unat x < 131070" using x rd by linarith
  define y where "y = x + drop_bit 16 x"
  have y: "unat y = unat x + unat x div 65536"
    using xl unfolding y_def by (simp add: unat_word_ariths drop_bit_eq_div unat_div_distrib)
  have "gfmat_coeff_log (ucast a) (ucast b) = ucast y"
    by (simp add: gfmat_coeff_log_def Let_def r_def [symmetric] x_def [symmetric] y_def [symmetric])
  then have "unat (gfmat_coeff_log (ucast a) (ucast b)) = unat y mod 65536"
    by (simp add: unsigned_ucast_eq take_bit_eq_mod)
  also have "\<dots> mod 65535 = unat x mod 65535"
  proof (cases "unat x < 65536")
    case True
    then show ?thesis using y by simp
  next
    case False
    then have "unat x div 65536 = 1" using xl by simp
    then have "unat y mod 65536 = unat x - 65535" using y xl False by (simp add: mod_if)
    then show ?thesis using False by (simp add: mod_if [of "unat x"])
  qed
  also have "\<dots> = unat r mod 65535"
  proof -
    have "unat r = unat x + 65535 * (unat r div 65536)" using x mult_div_mod_eq [of 65536 "unat r"] by linarith
    then show ?thesis by (metis mod_mult_self2)
  qed
  finally show ?thesis by (simp only: r)
qed

lemma gfmat_coeff_from_log_eq:
  assumes "gfmat_ready t"
  shows "Galois16 (gfmat_coeff_from_log t l r) = gen16 (unat l) ^ unat r"
proof -
  have "Galois16 (gfmat_coeff_from_log t l r) = gen16 (unat (gfmat_coeff_log (ucast l) (ucast r)))"
    using assms by (simp add: gfmat_coeff_from_log_def gf16_exp_pow gfmat_ready_def gen16_def)
  also have "\<dots> = gen16 (unat l * unat r)" by (rule gen16_cong [OF gfmat_coeff_log_mod])
  finally show ?thesis by (simp add: gen16_mult)
qed

lemma gfmat_coeff_eq:
  assumes "gfmat_ready t" "unat i < 32768"
  shows "Galois16 (gfmat_coeff t i r) = par2_constant (unat i) ^ unat r"
proof -
  have "unat (word_of_nat (par2_exponents ! unat i) :: u16) = par2_exponents ! unat i"
    using par2_exponent_props(2) [OF assms(2)] by (simp add: unat_of_nat)
  then show ?thesis
    unfolding gfmat_coeff_def gfmat_coeff_from_log_eq [OF assms(1)] gfmat_input_log_eq [OF assms] par2_constant_def
    by (rule arg_cong)
qed

lemma par2_constant_inj: "inj_on par2_constant {..<32768}"
proof (rule inj_onI)
  fix i j
  assume "i \<in> {..<32768}" "j \<in> {..<32768}" and eq: "par2_constant i = par2_constant j"
  then have i: "i < 32768" and j: "j < 32768" by simp_all
  have "par2_exponents ! i = par2_exponents ! j"
    by (rule gen16_inj [OF par2_exponent_props(2) [OF i] par2_exponent_props(2) [OF j] eq [unfolded par2_constant_def]])
  then have "exponents_to (par2_exponents ! i) = exponents_to (par2_exponents ! j)" by (rule arg_cong)
  then show "i = j" unfolding par2_exponent_props(3) [OF i] par2_exponent_props(3) [OF j] by simp
qed

lemma par2_constant_nonzero [simp]: "par2_constant i \<noteq> 0"
  by (simp add: par2_constant_def)

text \<open>C22: the compressed tables are right: \<^verbatim>\<open>gfmat_init\<close> fills them without leaving them, whatever was in the memory,
  and from them \<^verbatim>\<open>gfmat_coeff\<close> returns for each of the 32768 input blocks and every exponent the power of the
  constant of the block, which is a power of 2 with an exponent divisible by none of 3, 5, 17 and 257; the constants are
  different, and the table of reciprocals holds the reciprocal of every element but 0.\<close>

theorem gfmat_coeff_correct:
  assumes "length (gm_diff memory) = 32768" "length (gm_exp memory) = 8320" "length (gm_recip memory) = 65536"
  shows "\<exists>t. gfmat_init memory = Some t \<and>
    (\<forall>i r. unat i < 32768 \<longrightarrow> Galois16 (gfmat_coeff t i r) = gen16 (par2_exponents ! unat i) ^ unat r) \<and>
    (\<forall>a. a \<noteq> 0 \<longrightarrow> Galois16 (gm_recip t ! unat a) * Galois16 a = 1) \<and>
    length par2_exponents = 32768 \<and> inj_on (\<lambda>i. gen16 (par2_exponents ! i)) {..<32768}"
proof -
  obtain t where t: "gfmat_init memory = Some t" "gfmat_ready t" using gfmat_init_ready [OF assms] by blast
  have "Galois16 (gm_recip t ! unat a) * Galois16 a = 1" if "a \<noteq> 0" for a
    using t(2) that by (simp add: gfmat_ready_def galois16_ops)
  moreover have "inj_on (\<lambda>i. gen16 (par2_exponents ! i)) {..<32768}"
    using par2_constant_inj by (simp add: par2_constant_def [abs_def])
  ultimately show ?thesis
    using t gfmat_coeff_eq [OF t(2)] length_par2_exponents by (auto simp: par2_constant_def)
qed

text \<open>The third input block has the constant \<open>2\<^sup>4\<close>, since 3 is left out.\<close>

theorem gfmat_coeff_correct_witness:
  "\<exists>t. gfmat_init \<lparr>gm_diff = replicate 32768 7, gm_exp = replicate 8320 7, gm_recip = replicate 65536 7\<rparr> = Some t \<and>
     Galois16 (gfmat_coeff t 2 3) = gen16 4 ^ 3"
proof -
  let ?m = "\<lparr>gm_diff = replicate 32768 7, gm_exp = replicate 8320 7, gm_recip = replicate 65536 7\<rparr> :: gfmat_tables"
  have "length (gm_diff ?m) = 32768" "length (gm_exp ?m) = 8320" "length (gm_recip ?m) = 65536"
    by (simp_all only: gfmat_tables.simps length_replicate)
  from gfmat_coeff_correct [OF this] obtain t where t: "gfmat_init ?m = Some t"
    "\<forall>i r. unat i < 32768 \<longrightarrow> Galois16 (gfmat_coeff t i r) = gen16 (par2_exponents ! unat i) ^ unat r" by blast
  have "exponents_to 4 = Suc 2" by (simp add: exponents_to_def gfmat_skip_def upt_rec)
  then have "par2_exponents ! 2 = 4" by (rule par2_exponents_nth) (simp_all add: gfmat_skip_def)
  then have "Galois16 (gfmat_coeff t 2 3) = gen16 4 ^ 3" using t(2) [rule_format, of 2 3] by simp
  then show ?thesis using t(1) by blast
qed

end
