(* ===== verification/GFMat_Inv.thy ===== *)
theory GFMat_Inv
  imports GFMat_Coeff
begin

unbundle bit_operations_syntax

text \<open>
  \<^verbatim>\<open>Galois16RecMatrix\<close> of \<^verbatim>\<open>parpar/gf16/gfmat_inv.cpp\<close>: the matrix that gives the missing input blocks from the
  valid ones and the recovery blocks, by elimination in place, several rows at a time. A row is a list of field elements; the
  stripes that tile the rows, the packed layout of the kernels and the threads split the same operations by columns and by
  target rows and are left out. A failed assertion is \<open>None\<close>.
\<close>

type_synonym gmat = "galois16 list list"

text \<open>What the kernel and the size of the matrix determine.\<close>

record gf_kernel =
  gk_multiple :: nat
  gk_stripeWidth :: nat
  gk_numStripes :: nat
  gk_numThreads :: nat
  gk_fastmul :: bool

section \<open>Filling the matrix\<close>

text \<open>Columns of the inputs: first the valid ones, then the missing ones.\<close>

fun target_cols :: "nat \<Rightarrow> nat \<Rightarrow> bool list \<Rightarrow> nat list" where
  "target_cols validCol missingCol [] = []"
| "target_cols validCol missingCol (valid # inputs) =
     (if valid then validCol # target_cols (validCol + 1) missingCol inputs
      else missingCol # target_cols validCol (missingCol + 1) inputs)"

definition set_entry :: "nat \<Rightarrow> nat \<Rightarrow> galois16 \<Rightarrow> gmat \<Rightarrow> gmat" where
  "set_entry r c v m = m[r := (m ! r)[c := v]]"

text \<open>\<^verbatim>\<open>CONSTRUCT_VIA_EXP\<close>, for the given rows.\<close>

definition construct_input :: "gfmat_tables \<Rightarrow> u16 list \<Rightarrow> nat list \<Rightarrow> nat \<times> nat \<Rightarrow> gmat \<Rightarrow> gmat" where
  "construct_input t recovery rows input m =
     (let (i, col) = input; inputLog = gfmat_input_log t (word_of_nat i)
      in fold (\<lambda>rec. set_entry rec col (Galois16 (gfmat_coeff_from_log t inputLog (recovery ! rec)))) rows m)"

definition construct_via_exp ::
  "gfmat_tables \<Rightarrow> bool list \<Rightarrow> nat \<Rightarrow> u16 list \<Rightarrow> nat list \<Rightarrow> gmat \<Rightarrow> gmat option" where
  "construct_via_exp t inputValid validCount recovery rows m =
     (if length (filter id inputValid) = validCount
      then Some (fold (construct_input t recovery rows) (enumerate 0 (target_cols 0 validCount inputValid)) m)
      else None)"

text \<open>The rows whose exponent does not follow the one before, and the search for them, given up at \<^verbatim>\<open>maxSkips\<close>.\<close>

definition skipped_row :: "u16 list \<Rightarrow> nat \<Rightarrow> u16 \<Rightarrow> bool" where
  "skipped_row recovery rec lastExp \<longleftrightarrow> unat (recovery ! rec) \<noteq> unat lastExp + 1"

fun rec_skips :: "u16 list \<Rightarrow> nat \<Rightarrow> u16 \<Rightarrow> nat list \<Rightarrow> nat list \<Rightarrow> nat list" where
  "rec_skips recovery maxSkips lastExp [] recSkips = recSkips"
| "rec_skips recovery maxSkips lastExp (rec # recs) recSkips =
     (if skipped_row recovery rec lastExp
      then let recSkips = recSkips @ [rec]
           in if length recSkips \<ge> maxSkips then recSkips
              else rec_skips recovery maxSkips (recovery ! rec) recs recSkips
      else rec_skips recovery maxSkips (recovery ! rec) recs recSkips)"

text \<open>The other rows, each the product of the row of exponent 1 and the row before.\<close>

fun construct_via_mul :: "u16 list \<Rightarrow> nat \<Rightarrow> u16 \<Rightarrow> nat list \<Rightarrow> gmat \<Rightarrow> gmat" where
  "construct_via_mul recovery recStart lastExp [] m = m"
| "construct_via_mul recovery recStart lastExp (rec # recs) m =
     construct_via_mul recovery recStart (recovery ! rec) recs
       (if skipped_row recovery rec lastExp then m else m[rec := map2 (*) (m ! recStart) (m ! (rec - 1))])"

definition gfmat_construct ::
  "gf_kernel \<Rightarrow> gfmat_tables \<Rightarrow> bool list \<Rightarrow> nat \<Rightarrow> nat \<Rightarrow> u16 list \<Rightarrow> gmat \<Rightarrow> gmat option" where
  "gfmat_construct k t inputValid validCount numRec recovery m =
     (let recStart = (if recovery ! 0 = 0 then 1 else 0);
          m = (if recovery ! 0 = 0 then m[0 := replicate (length (m ! 0)) 1] else m)
      in if recStart \<ge> length recovery then Some m
         else if recovery ! recStart = 1 \<and> gk_fastmul k
         then let maxSkips = numRec div 2;
                  recSkips = rec_skips recovery maxSkips 1 [recStart + 1..<numRec] [recStart]
              in if length recSkips < maxSkips
                 then map_option (construct_via_mul recovery recStart 1 [recStart + 1..<numRec])
                        (construct_via_exp t inputValid validCount recovery recSkips m)
                 else construct_via_exp t inputValid validCount recovery [recStart..<numRec] m
         else construct_via_exp t inputValid validCount recovery [recStart..<numRec] m)"

section \<open>Operations on rows\<close>

text \<open>The kernels \<^verbatim>\<open>mul\<close> and \<^verbatim>\<open>mul_add\<close> on a whole row.\<close>

definition row_mul :: "nat \<Rightarrow> galois16 \<Rightarrow> gmat \<Rightarrow> gmat" where
  "row_mul r a m = m[r := map ((*) a) (m ! r)]"

definition row_muladd :: "nat \<Rightarrow> nat \<Rightarrow> galois16 \<Rightarrow> gmat \<Rightarrow> gmat" where
  "row_muladd dst src a m = m[dst := map2 (\<lambda>x y. x + a * y) (m ! dst) (m ! src)]"

text \<open>\<^verbatim>\<open>mul_add_multi\<close>: the coefficients and the consecutive source rows.\<close>

fun row_muladd_multi :: "nat \<Rightarrow> nat \<Rightarrow> galois16 list \<Rightarrow> gmat \<Rightarrow> gmat" where
  "row_muladd_multi dst src [] m = m"
| "row_muladd_multi dst src (a # as) m = row_muladd_multi dst (src + 1) as (row_muladd dst src a m)"

text \<open>\<^verbatim>\<open>replace_word\<close> on consecutive columns: what they held, and the matrix with zeros there.\<close>

definition take_coeffs :: "nat \<Rightarrow> nat \<Rightarrow> nat \<Rightarrow> gmat \<Rightarrow> galois16 list \<times> gmat" where
  "take_coeffs r c n m = (map (\<lambda>i. m ! r ! (c + i)) [0..<n], fold (\<lambda>i. set_entry r (c + i) 0) [0..<n] m)"

section \<open>The rows of a group\<close>

text \<open>The macros of \<^verbatim>\<open>scaleRows\<close>; rows are counted from \<^verbatim>\<open>rec\<close>.\<close>

datatype row_op = ScaleRow nat | MulAddRow nat nat | MulAddMulti nat nat nat

definition scale_row :: "gfmat_tables \<Rightarrow> nat \<Rightarrow> nat \<Rightarrow> nat \<Rightarrow> gmat \<Rightarrow> nat + gmat" where
  "scale_row t validCount rec row m =
     (let missingCol = validCount + rec;
          tmpCoeff = m ! (rec + row) ! (missingCol + row);
          m = set_entry (rec + row) (missingCol + row) 1 m
      in if tmpCoeff = 0 then Inl row
         else if tmpCoeff \<noteq> 1 then Inr (row_mul (rec + row) (Galois16 (gm_recip t ! unat (value16 tmpCoeff))) m)
         else Inr m)"

definition muladd_row :: "nat \<Rightarrow> nat \<Rightarrow> nat \<Rightarrow> nat \<Rightarrow> gmat \<Rightarrow> gmat" where
  "muladd_row validCount rec rowDst rowSrc m =
     (let missingCol = validCount + rec;
          tmpCoeff = m ! (rec + rowDst) ! (missingCol + rowSrc);
          m = set_entry (rec + rowDst) (missingCol + rowSrc) 0 m
      in if tmpCoeff \<noteq> 0 then row_muladd (rec + rowDst) (rec + rowSrc) tmpCoeff m else m)"

definition muladd_multi :: "nat \<Rightarrow> nat \<Rightarrow> nat \<Rightarrow> nat \<Rightarrow> nat \<Rightarrow> gmat \<Rightarrow> gmat" where
  "muladd_multi validCount rec rowDst srcOffs numRows m =
     (let (coeff, m) = take_coeffs (rec + rowDst) (validCount + rec + srcOffs) numRows m
      in row_muladd_multi (rec + rowDst) (rec + srcOffs) coeff m)"

fun run_op :: "gfmat_tables \<Rightarrow> nat \<Rightarrow> nat \<Rightarrow> row_op \<Rightarrow> gmat \<Rightarrow> nat + gmat" where
  "run_op t validCount rec (ScaleRow row) m = scale_row t validCount rec row m"
| "run_op t validCount rec (MulAddRow rowDst rowSrc) m = Inr (muladd_row validCount rec rowDst rowSrc m)"
| "run_op t validCount rec (MulAddMulti rowDst srcOffs numRows) m = Inr (muladd_multi validCount rec rowDst srcOffs numRows m)"

fun run_ops :: "gfmat_tables \<Rightarrow> nat \<Rightarrow> nat \<Rightarrow> row_op list \<Rightarrow> gmat \<Rightarrow> nat + gmat" where
  "run_ops t validCount rec [] m = Inr m"
| "run_ops t validCount rec (op # ops) m =
     (case run_op t validCount rec op m of Inl row \<Rightarrow> Inl row | Inr m \<Rightarrow> run_ops t validCount rec ops m)"

definition scale_ops :: "nat \<Rightarrow> row_op list" where
  "scale_ops rows =
     [ScaleRow 0] @
     (if rows \<ge> 2 then [MulAddRow 1 0, ScaleRow 1, MulAddRow 0 1] else []) @
     (if rows \<ge> 3
      then if rows \<ge> 4
           then [MulAddMulti 2 0 2, ScaleRow 2, MulAddMulti 3 0 2, MulAddRow 3 2, ScaleRow 3, MulAddRow 2 3,
                 MulAddMulti 0 2 2, MulAddMulti 1 2 2]
           else [MulAddMulti 2 0 2, ScaleRow 2, MulAddRow 0 2, MulAddRow 1 2]
      else []) @
     (if rows \<ge> 5
      then if rows \<ge> 6
           then [MulAddMulti 4 0 4, ScaleRow 4, MulAddMulti 5 0 4, MulAddRow 5 4, ScaleRow 5, MulAddRow 4 5,
                 MulAddMulti 0 4 2, MulAddMulti 1 4 2, MulAddMulti 2 4 2, MulAddMulti 3 4 2]
           else [MulAddMulti 4 0 4, ScaleRow 4, MulAddRow 0 4, MulAddRow 1 4, MulAddRow 2 4, MulAddRow 3 4]
      else [])"

definition scale_rows :: "gfmat_tables \<Rightarrow> nat \<Rightarrow> nat \<Rightarrow> nat \<Rightarrow> gmat \<Rightarrow> nat + gmat" where
  "scale_rows t validCount rows rec m = run_ops t validCount rec (scale_ops rows) m"

section \<open>Applying a group\<close>

text \<open>The array of coefficients is a function from indices.\<close>

type_synonym gcoeffs = "nat \<Rightarrow> galois16"

text \<open>The rows \<^verbatim>\<open>fillCoeffs\<close> visits: all but the \<open>rows\<close> rows from \<open>rec\<close>.\<close>

function fill_targets :: "nat \<Rightarrow> nat \<Rightarrow> nat \<Rightarrow> nat \<Rightarrow> nat list" where
  "fill_targets rec rows r recLast =
     (if r < recLast
      then if r = rec \<and> 0 < rows then fill_targets rec rows (r + rows) recLast
           else r # fill_targets rec rows (r + 1) recLast
      else [])"
  by pat_completeness auto
termination by (relation "measure (\<lambda>(rec, rows, r, recLast). recLast - r)") auto

declare fill_targets.simps [simp del]

definition fill_row :: "nat \<Rightarrow> nat \<Rightarrow> nat \<Rightarrow> nat \<Rightarrow> nat \<Rightarrow> nat \<Rightarrow> gcoeffs \<times> gmat \<Rightarrow> gcoeffs \<times> gmat" where
  "fill_row validCount rows recFirst rec coeffWidth r s =
     (let (coeff, m) = s;
          (as, m) = take_coeffs r (validCount + rec) rows m
      in (fold (\<lambda>c coeff. coeff((r - recFirst) * coeffWidth + c := as ! c)) [0..<rows] coeff, m))"

definition fill_coeffs :: "nat \<Rightarrow> nat \<Rightarrow> nat \<Rightarrow> nat \<Rightarrow> nat \<Rightarrow> nat \<Rightarrow> gcoeffs \<times> gmat \<Rightarrow> gcoeffs \<times> gmat" where
  "fill_coeffs validCount rows recFirst recLast rec coeffWidth s =
     fold (fill_row validCount rows recFirst rec coeffWidth) (fill_targets rec rows recFirst recLast) s"

text \<open>The rows \<^verbatim>\<open>invertLoop\<close> visits: it jumps over the source rows when the next row would be the first of them.\<close>

function invert_targets :: "nat \<Rightarrow> nat \<Rightarrow> nat \<Rightarrow> nat \<Rightarrow> nat list" where
  "invert_targets rec rows rec2 recLast =
     (if rec2 < recLast
      then rec2 # invert_targets rec rows (if rec2 + 1 = rec then rec2 + 1 + rows else rec2 + 1) recLast
      else [])"
  by pat_completeness auto
termination by (relation "measure (\<lambda>(rec, rows, rec2, recLast). recLast - rec2)") auto

declare invert_targets.simps [simp del]

definition invert_loop ::
  "nat \<Rightarrow> nat \<Rightarrow> nat \<Rightarrow> nat \<Rightarrow> nat \<Rightarrow> nat \<Rightarrow> gcoeffs \<Rightarrow> gmat \<Rightarrow> gmat" where
  "invert_loop rows recFirst recLast recSrc recSrcCount coeffWidth coeff m =
     fold (\<lambda>k m.
         let recI = k * rows; rec = recI + recSrc
         in fold (\<lambda>curRec2 m.
                row_muladd_multi curRec2 rec (map (\<lambda>i. coeff ((curRec2 - recFirst) * coeffWidth + recI + i)) [0..<rows]) m)
              (invert_targets rec rows recFirst recLast) m)
       [0..<recSrcCount div rows] m"

section \<open>Groups of rows\<close>

text \<open>One round of the loop that normalises a group: \<open>rows\<close> rows are scaled and applied to the rest of the group.\<close>

definition normalise_rows ::
  "gfmat_tables \<Rightarrow> nat \<Rightarrow> nat \<Rightarrow> nat \<Rightarrow> nat \<Rightarrow> nat \<Rightarrow> gcoeffs \<times> gmat \<Rightarrow> nat + gcoeffs \<times> gmat" where
  "normalise_rows t validCount rows recStart cur rec s =
     (let (coeff, m) = s;
          recFirst = (if recStart = rec then recStart + rows else recStart);
          recLast = cur + recStart
      in (case scale_rows t validCount rows rec m of
            Inl badRowOffset \<Rightarrow> Inl (rec + badRowOffset)
          | Inr m \<Rightarrow>
              if recFirst = recLast then Inr (coeff, m)
              else let (coeff, m) = fill_coeffs validCount rows recFirst recLast rec rows (coeff, m)
                   in Inr (coeff, invert_loop rows recFirst recLast rec rows rows coeff m)))"

fun normalise_group ::
  "gfmat_tables \<Rightarrow> nat \<Rightarrow> nat \<Rightarrow> nat \<Rightarrow> nat \<Rightarrow> nat list \<Rightarrow> gcoeffs \<times> gmat \<Rightarrow> nat + gcoeffs \<times> gmat" where
  "normalise_group t validCount rows recStart cur [] s = Inr s"
| "normalise_group t validCount rows recStart cur (rec # recs) s =
     (case normalise_rows t validCount rows recStart cur rec s of
        Inl bad \<Rightarrow> Inl bad
      | Inr s \<Rightarrow> normalise_group t validCount rows recStart cur recs s)"

text \<open>The size of the next group of targets.\<close>

definition target_size :: "nat \<Rightarrow> nat \<Rightarrow> nat \<Rightarrow> nat \<Rightarrow> nat" where
  "target_size rowGroupSize numRec recStart recGroup =
     (let size2 = (if numRec - recGroup < rowGroupSize then numRec - recGroup else rowGroupSize)
      in if recGroup < recStart \<and> recGroup + size2 > recStart then recStart - recGroup else size2)"

text \<open>The normalised group is applied to all other groups.\<close>

function apply_groups ::
  "nat \<Rightarrow> nat \<Rightarrow> nat \<Rightarrow> nat \<Rightarrow> nat \<Rightarrow> nat \<Rightarrow> nat \<Rightarrow> gcoeffs \<times> gmat \<Rightarrow> (gcoeffs \<times> gmat) option" where
  "apply_groups validCount rows rowGroupSize numRec recStart cur recGroup s =
     (if recGroup < numRec
      then if recGroup = recStart
           then if cur = 0 then None
                else apply_groups validCount rows rowGroupSize numRec recStart cur (recGroup + cur) s
           else let size2 = target_size rowGroupSize numRec recStart recGroup
                in if size2 = 0 then None
                   else let (coeff, m) = fill_coeffs validCount cur recGroup (recGroup + size2) recStart cur s
                        in apply_groups validCount rows rowGroupSize numRec recStart cur (recGroup + size2)
                             (coeff, invert_loop rows recGroup (recGroup + size2) recStart cur cur coeff m)
      else Some s)"
  by pat_completeness auto
termination by (relation "measure (\<lambda>(validCount, rows, rowGroupSize, numRec, recStart, cur, recGroup, s). numRec - recGroup)") auto

declare apply_groups.simps [simp del]

definition group_size :: "nat \<Rightarrow> nat \<Rightarrow> nat \<Rightarrow> nat \<Rightarrow> nat" where
  "group_size rows rowGroupSize numRec rec =
     (let aligned = rowGroupSize div rows * rows
      in if numRec - rec < aligned then (numRec - rec) - (numRec - rec) mod rows else aligned)"

text \<open>\<^verbatim>\<open>processRows\<close>: the bad row, or the next row and the matrix.\<close>

function process_rows ::
  "gfmat_tables \<Rightarrow> nat \<Rightarrow> nat \<Rightarrow> nat \<Rightarrow> nat \<Rightarrow> nat \<Rightarrow> gcoeffs \<times> gmat \<Rightarrow> (nat + nat \<times> gcoeffs \<times> gmat) option" where
  "process_rows t validCount rows rowGroupSize numRec rec s =
     (if rec \<le> numRec - rows
      then let cur = group_size rows rowGroupSize numRec rec
           in if cur = 0 then None
              else (case normalise_group t validCount rows rec cur (map (\<lambda>k. rec + k * rows) [0..<cur div rows]) s of
                      Inl bad \<Rightarrow> Some (Inl bad)
                    | Inr s \<Rightarrow>
                        (case apply_groups validCount rows rowGroupSize numRec rec cur 0 s of
                           None \<Rightarrow> None
                         | Some s \<Rightarrow> process_rows t validCount rows rowGroupSize numRec (rec + cur) s))
      else Some (Inr (rec, s)))"
  by pat_completeness auto
termination
  by (relation "measure (\<lambda>(t, validCount, rows, rowGroupSize, numRec, rec, s). Suc (numRec - rows) - rec)") auto

declare process_rows.simps [simp del]

section \<open>Computing the matrix\<close>

definition row_group_size :: "gf_kernel \<Rightarrow> nat \<Rightarrow> nat" where
  "row_group_size k numRec =
     (let threads = (if numRec < 10 then 1 else gk_numThreads k);
          size1 = 512 * 1024 div gk_stripeWidth k;
          size1 = (if gk_numStripes k < threads then size1 * (threads div gk_numStripes k) else size1);
          rowMultiple = min (gk_multiple k) 6;
          size1 = (if size1 < rowMultiple * 2 then rowMultiple * 2 else size1)
      in if size1 > numRec then numRec else size1)"

text \<open>\<^verbatim>\<open>INVERT_GROUP\<close> for each number of rows, from 6 down.\<close>

fun invert_groups ::
  "gf_kernel \<Rightarrow> gfmat_tables \<Rightarrow> nat \<Rightarrow> nat \<Rightarrow> nat list \<Rightarrow> nat \<Rightarrow> gcoeffs \<times> gmat \<Rightarrow> (nat + gmat) option" where
  "invert_groups k t validCount numRec [] rec s = Some (Inr (snd s))"
| "invert_groups k t validCount numRec (rows # sizes) rec s =
     (if gk_multiple k \<ge> rows \<and> numRec \<ge> rows
      then (case process_rows t validCount rows (row_group_size k numRec) numRec rec s of
              None \<Rightarrow> None
            | Some (Inl bad) \<Rightarrow> Some (Inl bad)
            | Some (Inr (rec, s)) \<Rightarrow> invert_groups k t validCount numRec sizes rec s)
      else invert_groups k t validCount numRec sizes rec s)"

text \<open>\<open>invert_loop\<close> of \<^verbatim>\<open>Compute\<close>: a recovery block whose row has no pivot is left out, and all starts again.\<close>

function compute_loop ::
  "gf_kernel \<Rightarrow> gfmat_tables \<Rightarrow> bool list \<Rightarrow> nat \<Rightarrow> nat \<Rightarrow> u16 list \<Rightarrow> gcoeffs \<times> gmat \<Rightarrow> (bool \<times> u16 list \<times> gmat) option" where
  "compute_loop k t inputValid validCount numRec recovery s =
     (if numRec > length recovery then Some (False, recovery, [])
      else (case gfmat_construct k t inputValid validCount numRec recovery (snd s) of
              None \<Rightarrow> None
            | Some m \<Rightarrow>
                (case invert_groups k t validCount numRec [6, 5, 4, 3, 2, 1] 0 (fst s, m) of
                   None \<Rightarrow> None
                 | Some (Inl bad) \<Rightarrow>
                     if bad < length recovery
                     then compute_loop k t inputValid validCount numRec (take bad recovery @ drop (Suc bad) recovery) (fst s, m)
                     else None
                 | Some (Inr m) \<Rightarrow> Some (True, take numRec recovery, m))))"
  by pat_completeness auto
termination
  by (relation "measure (\<lambda>(k, t, inputValid, validCount, numRec, recovery, s). length recovery)") auto

declare compute_loop.simps [simp del]

text \<open>\<^verbatim>\<open>Compute\<close>; the contents of the memory for the matrix and the coefficients are arguments.\<close>

definition gfmat_compute ::
  "gf_kernel \<Rightarrow> gfmat_tables \<Rightarrow> gcoeffs \<times> gmat \<Rightarrow> bool list \<Rightarrow> nat \<Rightarrow> u16 list \<Rightarrow> (bool \<times> u16 list \<times> gmat) option" where
  "gfmat_compute k t memory inputValid validCount recovery =
     (let numRec = length inputValid - validCount
      in if \<not> (validCount < length inputValid \<and> length inputValid \<le> 32768 \<and> length recovery \<le> 65535 \<and> length recovery > 0)
         then None
         else if numRec > length recovery then Some (False, recovery, [])
         else compute_loop k t inputValid validCount numRec (sort recovery) memory)"

definition gfmat_get_factor :: "gmat \<Rightarrow> u16 \<Rightarrow> u16 \<Rightarrow> u16" where
  "gfmat_get_factor m inIdx recIdx = value16 (m ! unat recIdx ! unat inIdx)"

end
