(* ===== verification/RepairData.thy ===== *)
theory RepairData
  imports RepairVerify GFMat_Inv
begin

unbundle bit_operations_syntax

text \<open>
  \<^verbatim>\<open>Par2Repairer\<close> after the verification: moving and creating the target files, the recovery matrix, and the
  loop that reads the blocks, copies those that are needed elsewhere, and writes those that were recomputed. The
  multiplication runs in the \<^verbatim>\<open>parpar\<close> library, on threads of its own; here it is a parameter with the four calls
  the repairer makes. Progress and messages are left out.
\<close>

text \<open>A loop over a list that ends with the first step that reports an error.\<close>

fun until_error :: "('a \<Rightarrow> 's \<Rightarrow> (bool \<times> 's) option) \<Rightarrow> 'a list \<Rightarrow> 's \<Rightarrow> (bool \<times> 's) option" where
  "until_error f [] s = Some (True, s)"
| "until_error f (x # xs) s =
     (case f x s of
        None \<Rightarrow> None
      | Some (False, s) \<Rightarrow> Some (False, s)
      | Some (True, s) \<Rightarrow> until_error f xs s)"

section \<open>Renaming\<close>

text \<open>A target file that is not complete is moved out of the way.\<close>

definition rename_damaged :: "nat \<Rightarrow> nat option \<Rightarrow> repairer \<times> fs \<Rightarrow> (bool \<times> repairer \<times> fs) option" where
  "rename_damaged max_path f s =
     (case (f, s) of
        (None, _) \<Rightarrow> None
      | (Some i, (r, fs)) \<Rightarrow>
          let sf = pr_files r ! i
          in if sf_targetexists sf \<and> sf_targetfile sf \<noteq> sf_completefile sf
             then case sf_targetfile sf of
                    None \<Rightarrow> None
                  | Some p \<Rightarrow>
                      let r = r\<lparr>pr_diskfilemap := map_remove (df_filename (pr_store r p)) (pr_diskfilemap r)\<rparr>
                      in (case disk_rename max_path (pr_store r p) fs of
                            None \<Rightarrow> None
                          | Some (False, d, fs) \<Rightarrow> Some (False, set_disk p d r, fs)
                          | Some (True, d, fs) \<Rightarrow>
                              let r = (set_disk p d r)\<lparr>pr_backuplist := pr_backuplist r @ [p]\<rparr>
                              in (case map_insert (df_filename d) p (pr_diskfilemap r) of
                                    (False, _) \<Rightarrow> None
                                  | (True, m) \<Rightarrow>
                                      Some (True, upd_file i (\<lambda>sf. sf\<lparr>sf_targetexists := False, sf_targetfile := None\<rparr>)
                                              (r\<lparr>pr_diskfilemap := m\<rparr>), fs)))
             else Some (True, r, fs))"

text \<open>A complete file under another name becomes the target file.\<close>

definition rename_complete :: "nat option \<Rightarrow> repairer \<times> fs \<Rightarrow> (bool \<times> repairer \<times> fs) option" where
  "rename_complete f s =
     (case (f, s) of
        (None, _) \<Rightarrow> None
      | (Some i, (r, fs)) \<Rightarrow>
          let sf = pr_files r ! i
          in (case (sf_targetfile sf, sf_completefile sf) of
                (None, Some p) \<Rightarrow>
                  let r = r\<lparr>pr_diskfilemap := map_remove (df_filename (pr_store r p)) (pr_diskfilemap r)\<rparr>
                  in (case disk_rename_to (sf_targetfilename sf) (pr_store r p) fs of
                        (False, d, fs) \<Rightarrow> Some (False, set_disk p d r, fs)
                      | (True, d, fs) \<Rightarrow>
                          (case map_insert (df_filename d) p (pr_diskfilemap r) of
                             (False, _) \<Rightarrow> None
                           | (True, m) \<Rightarrow>
                               let r = upd_file i (\<lambda>sf. sf\<lparr>sf_targetexists := True, sf_targetfile := Some p\<rparr>)
                                         ((set_disk p d r)\<lparr>pr_diskfilemap := m\<rparr>)
                               in Some (True, r\<lparr>pr_completefilecount := pr_completefilecount r + 1\<rparr>, fs)))
              | _ \<Rightarrow> Some (True, r, fs)))"

definition rename_target_files :: "nat \<Rightarrow> repairer \<Rightarrow> fs \<Rightarrow> (bool \<times> repairer \<times> fs) option" where
  "rename_target_files max_path r fs =
     (case pr_mainpacket r of
        None \<Rightarrow> None
      | Some mp \<Rightarrow>
          (case until_error (rename_damaged max_path) (all_files mp r) (r, fs) of
             None \<Rightarrow> None
           | Some (False, s) \<Rightarrow> Some (False, s)
           | Some (True, r, fs) \<Rightarrow> until_error rename_complete (all_files mp r) (r, fs)))"

section \<open>Creating the target files\<close>

definition create_target_file :: "nat option \<Rightarrow> repairer \<times> fs \<Rightarrow> (bool \<times> repairer \<times> fs) option" where
  "create_target_file f s =
     (case (f, s) of
        (None, _) \<Rightarrow> None
      | (Some i, (r, fs)) \<Rightarrow>
          let sf = pr_files r ! i
          in if sf_targetexists sf then Some (True, r, fs)
             else (case (new_disk r, sf_description sf) of
                     (_, None) \<Rightarrow> None
                   | ((p, r), Some dp) \<Rightarrow>
                       let filesize = dp_filesize dp
                       in (case disk_create (sf_targetfilename sf) filesize (pr_store r p) fs of
                             (False, d, fs) \<Rightarrow> Some (False, r, fs)
                           | (True, d, fs) \<Rightarrow>
                               let r = upd_file i (\<lambda>sf. sf\<lparr>sf_targetexists := True, sf_targetfile := Some p\<rparr>) (set_disk p d r)
                               in (case map_insert (df_filename d) p (pr_diskfilemap r) of
                                     (False, _) \<Rightarrow> None
                                   | (True, m) \<Rightarrow>
                                       map_option (\<lambda>blocks. (True, r\<lparr>pr_diskfilemap := m, pr_targetblocks := blocks,
                                                                    pr_verifylist := pr_verifylist r @ [i]\<rparr>, fs))
                                         (if filesize = 0 then Some (pr_targetblocks r)
                                          else case sf_targetblocks sf of
                                                 None \<Rightarrow> None
                                               | Some b \<Rightarrow> locate_blocks p (pr_blocksize r) filesize 0 b (pr_targetblocks r))))))"

definition create_target_files :: "repairer \<Rightarrow> fs \<Rightarrow> (bool \<times> repairer \<times> fs) option" where
  "create_target_files r fs =
     (case pr_mainpacket r of
        None \<Rightarrow> None
      | Some mp \<Rightarrow> until_error create_target_file (all_files mp r) (r, fs))"

section \<open>The matrix\<close>

text \<open>A vector of pointers that was resized and filled from the start; it holds null pointers at the end.\<close>

definition fill_pointers :: "nat \<Rightarrow> 'a list \<Rightarrow> 'a option list option" where
  "fill_pointers n xs = (if length xs \<le> n then Some (map Some xs @ replicate (n - length xs) None) else None)"

definition block_present :: "repairer \<Rightarrow> bool list" where
  "block_present r = map (db_is_set (pr_store r)) (pr_sourceblocks r)"

text \<open>The blocks whose flag is set, and those whose flag is not.\<close>

definition set_indices :: "bool list \<Rightarrow> nat list" where
  "set_indices present = filter (\<lambda>i. present ! i) [0..<length present]"

definition unset_indices :: "bool list \<Rightarrow> nat list" where
  "unset_indices present = filter (\<lambda>i. \<not> present ! i) [0..<length present]"

definition par2_compute_matrix ::
  "gf_kernel \<Rightarrow> gfmat_tables \<Rightarrow> gcoeffs \<times> gmat \<Rightarrow> repairer \<Rightarrow> (bool \<times> repairer \<times> gmat) option" where
  "par2_compute_matrix k t memory r =
     (let flags = block_present r;
          sourceblockcount = unat (pr_sourceblockcount r);
          present = take sourceblockcount flags @ replicate (sourceblockcount - length flags) False;
          inputs = map SourceBlock (set_indices flags)
      in if length flags > sourceblockcount \<or> length (pr_targetblocks r) < length flags then None
         else do {
           inputblocks \<leftarrow> fill_pointers sourceblockcount inputs;
           copyblocks \<leftarrow> fill_pointers (unat (pr_availableblockcount r)) (map TargetBlock (set_indices flags));
           outputblocks \<leftarrow> fill_pointers (unat (pr_missingblockcount r)) (map TargetBlock (unset_indices flags));
           let r = r\<lparr>pr_inputblocks := inputblocks, pr_copyblocks := copyblocks, pr_outputblocks := outputblocks\<rparr>;
           if pr_missingblockcount r = 0 then Some (True, r, [])
           else do {
             let recindex = map (\<lambda>(exponent, _). ucast exponent) (pr_recoverypackets r);
             (ok, recindex, m) \<leftarrow> gfmat_compute k t memory present (unat (pr_availableblockcount r)) recindex;
             if \<not> ok then Some (False, r, m)
             else if list_all (\<lambda>exponent. map_of (pr_recoverypackets r) (ucast exponent) \<noteq> None) recindex
             then do {
               inputblocks \<leftarrow> fill_pointers sourceblockcount (inputs @ map (\<lambda>exponent. RecoveryBlock (ucast exponent)) recindex);
               Some (True, r\<lparr>pr_inputblocks := inputblocks\<rparr>, m)
             }
             else None
           }
         })"

section \<open>Buffers\<close>

definition par2_allocate_buffers :: "u64 \<Rightarrow> repairer \<Rightarrow> repairer" where
  "par2_allocate_buffers memorylimit r =
     (let blockoverhead = 2 + min 24 (pr_sourceblockcount r + 1);
          blocks = ucast (pr_missingblockcount r + blockoverhead);
          chunksize = (if pr_blocksize r * blocks > memorylimit then (memorylimit div blocks) AND NOT 3 else pr_blocksize r)
      in r\<lparr>pr_chunksize := (if chunksize > 33554432 then 33554432 else chunksize)\<rparr>)"

section \<open>Processing\<close>

text \<open>The results of \<^verbatim>\<open>Process\<close>, and what the repairer calls of \<^verbatim>\<open>parpar\<close>: the set up for a
  chunk size, a batch size and a number of outputs, the size of the slices, the start of a computation, an input with its
  factors, an output.\<close>

datatype par2_result =
  Success | RepairPossible | RepairNotPossible | InvalidCommandLineArguments | InsufficientCriticalData
| RepairFailed | FileIOError | LogicError | MemoryError

record 'b backend =
  be_init :: "nat \<Rightarrow> nat \<Rightarrow> nat \<Rightarrow> 'b \<Rightarrow> par2_result \<times> 'b"
  be_slice_size :: "nat \<Rightarrow> 'b \<Rightarrow> bool \<times> 'b"
  be_discard :: "'b \<Rightarrow> 'b"
  be_add :: "bytes \<Rightarrow> u16 list \<Rightarrow> 'b \<Rightarrow> 'b"
  be_output :: "nat \<Rightarrow> 'b \<Rightarrow> bool \<times> bytes"

record 'b data_state =
  ds_lastopen :: "nat option"
  ds_store :: disk_store
  ds_fs :: fs
  ds_backend :: 'b

definition block_at :: "repairer \<Rightarrow> block_ref option \<Rightarrow> datablock option" where
  "block_at r ref =
     (case ref of
        None \<Rightarrow> None
      | Some (SourceBlock b) \<Rightarrow> if b < length (pr_sourceblocks r) then Some (pr_sourceblocks r ! b) else None
      | Some (TargetBlock b) \<Rightarrow> if b < length (pr_targetblocks r) then Some (pr_targetblocks r ! b) else None
      | Some (RecoveryBlock e) \<Rightarrow> map_option rp_datablock (map_of (pr_recoverypackets r) e))"

text \<open>The file of a block is opened when it is not the one that was read last.\<close>

definition switch_file :: "datablock \<Rightarrow> 'b data_state \<Rightarrow> (bool \<times> 'b data_state) option" where
  "switch_file db s =
     (if ds_lastopen s \<noteq> db_diskfile db
      then let store = (case ds_lastopen s of None \<Rightarrow> ds_store s | Some q \<Rightarrow> (ds_store s)(q := disk_close (ds_store s q)))
           in (case db_diskfile db of
                 None \<Rightarrow> None
               | Some p \<Rightarrow>
                   (case disk_reopen (store p) (ds_fs s) of
                      (ok, d) \<Rightarrow> Some (ok, s\<lparr>ds_lastopen := Some p, ds_store := store(p := d)\<rparr>)))
      else Some (True, s))"

definition read_block :: "u64 \<Rightarrow> u64 \<Rightarrow> datablock \<Rightarrow> 'b data_state \<Rightarrow> (bool \<times> bytes \<times> 'b data_state) option" where
  "read_block blockoffset blocklength db s =
     (case switch_file db s of
        None \<Rightarrow> None
      | Some (False, s) \<Rightarrow> Some (False, [], s)
      | Some (True, s) \<Rightarrow>
          (case db_read_data blockoffset blocklength db (ds_store s) (ds_fs s) of
             None \<Rightarrow> None
           | Some (ok, buffer, store) \<Rightarrow> Some (ok, buffer, s\<lparr>ds_store := store\<rparr>)))"

definition write_block :: "u64 \<Rightarrow> bytes \<Rightarrow> datablock \<Rightarrow> 'b data_state \<Rightarrow> (bool \<times> 'b data_state) option" where
  "write_block blockoffset buffer db s =
     (case db_write_data blockoffset buffer db (ds_store s) (ds_fs s) of
        None \<Rightarrow> None
      | Some (ok, wrote, store, fs) \<Rightarrow> Some (ok, s\<lparr>ds_store := store, ds_fs := fs\<rparr>))"

definition copy_block :: "u64 \<Rightarrow> bytes \<Rightarrow> datablock \<Rightarrow> 'b data_state \<Rightarrow> (bool \<times> 'b data_state) option" where
  "copy_block blockoffset buffer db s =
     (if db_is_set (ds_store s) db then write_block blockoffset buffer db s else Some (True, s))"

text \<open>One input block with the next block to copy, if any is left.\<close>

definition process_block ::
  "'b backend \<Rightarrow> u64 \<Rightarrow> u64 \<Rightarrow> gmat \<Rightarrow> repairer \<Rightarrow> nat \<times> block_ref option \<times> block_ref option option \<Rightarrow> 'b data_state
     \<Rightarrow> (bool \<times> 'b data_state) option" where
  "process_block be blockoffset blocklength m r x s =
     (case x of
        (inputindex, inputblock, copyblock) \<Rightarrow> do {
          db \<leftarrow> block_at r inputblock;
          (ok, inputbuffer, s) \<leftarrow> read_block blockoffset blocklength db s;
          if \<not> ok then Some (False, s)
          else do {
            (ok, s) \<leftarrow> (case copyblock of
                          None \<Rightarrow> Some (True, s)
                        | Some c \<Rightarrow> Option.bind (block_at r c) (\<lambda>db. copy_block blockoffset inputbuffer db s));
            if \<not> ok then Some (False, s)
            else let factors = map (\<lambda>outputindex. gfmat_get_factor m (word_of_nat inputindex) (word_of_nat outputindex))
                                 [0..<unat (pr_missingblockcount r)]
                 in Some (True, s\<lparr>ds_backend := be_add be inputbuffer factors (ds_backend s)\<rparr>)
          }
        })"

definition process_blocks ::
  "'b backend \<Rightarrow> u64 \<Rightarrow> u64 \<Rightarrow> gmat \<Rightarrow> repairer \<Rightarrow> 'b data_state \<Rightarrow> (bool \<times> 'b data_state) option" where
  "process_blocks be blockoffset blocklength m r s =
     (let inputs = pr_inputblocks r;
          copies = map Some (pr_copyblocks r) @ replicate (length inputs - length (pr_copyblocks r)) None
      in until_error (process_block be blockoffset blocklength m r)
           (zip [0..<length inputs] (zip inputs copies)) (s\<lparr>ds_backend := be_discard be (ds_backend s)\<rparr>))"

text \<open>Nothing to recompute: the blocks that are needed elsewhere are copied.\<close>

definition copy_only ::
  "u64 \<Rightarrow> u64 \<Rightarrow> repairer \<Rightarrow> block_ref option option \<times> block_ref option \<Rightarrow> 'b data_state \<Rightarrow> (bool \<times> 'b data_state) option" where
  "copy_only blockoffset blocklength r x s =
     (case x of
        (inputblock, copyblock) \<Rightarrow> do {
          target \<leftarrow> block_at r copyblock;
          if \<not> db_is_set (ds_store s) target then Some (True, s)
          else do {
            inputblock \<leftarrow> inputblock;
            db \<leftarrow> block_at r inputblock;
            (ok, buffer, s) \<leftarrow> read_block blockoffset blocklength db s;
            if \<not> ok then Some (False, s) else write_block blockoffset buffer target s
          }
        })"

definition copy_blocks :: "u64 \<Rightarrow> u64 \<Rightarrow> repairer \<Rightarrow> 'b data_state \<Rightarrow> (bool \<times> 'b data_state) option" where
  "copy_blocks blockoffset blocklength r s =
     (let copies = pr_copyblocks r;
          inputs = map Some (pr_inputblocks r) @ replicate (length copies - length (pr_inputblocks r)) None
      in until_error (copy_only blockoffset blocklength r) (zip inputs copies) s)"

definition write_output ::
  "'b backend \<Rightarrow> u64 \<Rightarrow> repairer \<Rightarrow> nat \<times> block_ref option \<Rightarrow> 'b data_state \<Rightarrow> (bool \<times> 'b data_state) option" where
  "write_output be blockoffset r x s =
     (case x of
        (outputindex, outputblock) \<Rightarrow>
          (case be_output be outputindex (ds_backend s) of
             (False, _) \<Rightarrow> Some (False, s)
           | (True, outputbuffer) \<Rightarrow> Option.bind (block_at r outputblock) (\<lambda>db. write_block blockoffset outputbuffer db s)))"

definition close_last :: "'b data_state \<Rightarrow> 'b data_state" where
  "close_last s =
     (case ds_lastopen s of
        None \<Rightarrow> s
      | Some q \<Rightarrow> s\<lparr>ds_lastopen := None, ds_store := (ds_store s)(q := disk_close (ds_store s q))\<rparr>)"

definition par2_process_data ::
  "'b backend \<Rightarrow> u64 \<Rightarrow> u64 \<Rightarrow> gmat \<Rightarrow> repairer \<Rightarrow> 'b data_state \<Rightarrow> (bool \<times> 'b data_state) option" where
  "par2_process_data be blockoffset blocklength m r s =
     do {
       (ok, s) \<leftarrow> (if pr_missingblockcount r > 0 then process_blocks be blockoffset blocklength m r (s\<lparr>ds_lastopen := None\<rparr>)
                   else copy_blocks blockoffset blocklength r (s\<lparr>ds_lastopen := None\<rparr>));
       if \<not> ok then Some (False, s)
       else if pr_missingblockcount r > 0
       then until_error (write_output be blockoffset r) (enumerate 0 (pr_outputblocks r)) (close_last s)
       else Some (True, close_last s)
     }"

text \<open>The loop over the chunks of the blocks.\<close>

partial_function (option) process_chunks ::
  "'b backend \<Rightarrow> gmat \<Rightarrow> repairer \<Rightarrow> u64 \<Rightarrow> 'b data_state \<Rightarrow> (par2_result \<times> 'b data_state) option" where
  "process_chunks be m r blockoffset s =
     (if blockoffset < pr_blocksize r
      then let blocklength = min (pr_chunksize r) (pr_blocksize r - blockoffset);
               (ok, b) = be_slice_size be (unat blocklength) (ds_backend s);
               s = s\<lparr>ds_backend := b\<rparr>
           in if \<not> ok then Some (MemoryError, s)
              else do {
                (ok, s) \<leftarrow> par2_process_data be blockoffset blocklength m r s;
                if \<not> ok then Some (FileIOError, s) else process_chunks be m r (blockoffset + blocklength) s
              }
      else Some (Success, s))"

text \<open>The set up before it: few inputs are sent in smaller batches; 0 leaves the size to the library.\<close>

definition process_all ::
  "'b backend \<Rightarrow> 'b \<Rightarrow> gmat \<Rightarrow> repairer \<Rightarrow> fs \<Rightarrow> (par2_result \<times> repairer \<times> fs) option" where
  "process_all be b m r fs =
     (let inputbatch = (if pr_sourceblockcount r < 24 then (pr_sourceblockcount r + 1) div 2 else 0);
          (res, b) = be_init be (unat (pr_chunksize r)) (unat inputbatch) (unat (pr_missingblockcount r)) b
      in if res \<noteq> Success then Some (res, r, fs)
         else do {
           (res, s) \<leftarrow> process_chunks be m r 0 \<lparr>ds_lastopen = None, ds_store = pr_store r, ds_fs = fs, ds_backend = b\<rparr>;
           Some (res, r\<lparr>pr_store := ds_store s\<rparr>, ds_fs s)
         })"

section \<open>After the repair\<close>

definition close_if_open :: "diskfile \<Rightarrow> diskfile" where
  "close_if_open d = (if df_file d \<noteq> None then disk_close d else d)"

text \<open>The result so far and the repairer; the files are verified in the order of their names.\<close>

definition verify_target_file ::
  "(string \<Rightarrow> uninit) \<Rightarrow> fs \<Rightarrow> nat \<Rightarrow> bool \<times> repairer \<Rightarrow> (bool \<times> repairer) option" where
  "verify_target_file u fs i s =
     (case s of
        (finalresult, r) \<Rightarrow>
          let sf = pr_files r ! i
          in (case sf_targetfile sf of
                None \<Rightarrow> None
              | Some p \<Rightarrow> do {
                  let r = set_disk p (close_if_open (pr_store r p)) r;
                  blocks \<leftarrow> (if sf_blockcount sf = 0 then Some (pr_sourceblocks r)
                             else case sf_sourceblocks sf of
                                    None \<Rightarrow> None
                                  | Some b \<Rightarrow>
                                      if b + unat (sf_blockcount sf) \<le> length (pr_sourceblocks r)
                                      then Some (fold (\<lambda>k blocks. blocks[b + k := db_clear_location (blocks ! (b + k))])
                                                   [0..<unat (sf_blockcount sf)] (pr_sourceblocks r))
                                      else None);
                  let r = upd_file i (\<lambda>sf. sf\<lparr>sf_completefile := None\<rparr>) (r\<lparr>pr_sourceblocks := blocks\<rparr>);
                  (case disk_reopen (pr_store r p) fs of
                     (False, d) \<Rightarrow> Some (False, set_disk p d r)
                   | (True, d) \<Rightarrow> do {
                       (ok, r) \<leftarrow> verify_data_file (u (df_filename d)) p False fs (Some i) (set_disk p d r);
                       Some (finalresult \<and> ok, set_disk p (disk_close (pr_store r p)) r)
                     })
                }))"

definition verify_target_files :: "(string \<Rightarrow> uninit) \<Rightarrow> fs \<Rightarrow> repairer \<Rightarrow> (bool \<times> repairer) option" where
  "verify_target_files u fs r =
     (let verifylist = sort_key (\<lambda>i. sf_targetfilename (pr_files r ! i)) (pr_verifylist r);
          r = r\<lparr>pr_verifylist := verifylist\<rparr>
      in do {
           (finalresult, r) \<leftarrow> for_each (verify_target_file u fs) verifylist (True, r);
           r \<leftarrow> update_verification_results r;
           Some (finalresult, r)
         })"

definition delete_incomplete_target_file :: "nat \<Rightarrow> repairer \<times> fs \<Rightarrow> (repairer \<times> fs) option" where
  "delete_incomplete_target_file i s =
     (case s of
        (r, fs) \<Rightarrow>
          let sf = pr_files r ! i
          in if \<not> sf_targetexists sf then Some (r, fs)
             else (case sf_targetfile sf of
                     None \<Rightarrow> None
                   | Some p \<Rightarrow>
                       (case disk_delete (close_if_open (pr_store r p)) fs of
                          (_, d, fs) \<Rightarrow>
                            let r = (set_disk p d r)\<lparr>pr_diskfilemap := map_remove (df_filename d) (pr_diskfilemap r)\<rparr>
                            in Some (upd_file i (\<lambda>sf. sf\<lparr>sf_targetexists := False, sf_targetfile := None\<rparr>) r, fs))))"

definition delete_incomplete_target_files :: "repairer \<Rightarrow> fs \<Rightarrow> (repairer \<times> fs) option" where
  "delete_incomplete_target_files r fs = for_each delete_incomplete_target_file (pr_verifylist r) (r, fs)"

definition remove_backup_files :: "repairer \<Rightarrow> fs \<Rightarrow> repairer \<times> fs" where
  "remove_backup_files r fs =
     fold (\<lambda>p (r, fs). case disk_delete (close_if_open (pr_store r p)) fs of (_, d, fs) \<Rightarrow> (set_disk p d r, fs))
       (pr_backuplist r) (r, fs)"

definition remove_par_file :: "string \<Rightarrow> fs \<Rightarrow> fs" where
  "remove_par_file name fs =
     (case disk_open name diskfile_new fs of
        (False, _) \<Rightarrow> fs
      | (True, d) \<Rightarrow> (case disk_delete (close_if_open d) fs of (_, _, fs) \<Rightarrow> fs))"

definition remove_par_files :: "repairer \<Rightarrow> fs \<Rightarrow> fs" where
  "remove_par_files r fs = fold remove_par_file (pr_par2list r) fs"

section \<open>The end of \<^verbatim>\<open>Process\<close>\<close>

text \<open>What an error after the target files were created leaves: they are deleted.\<close>

definition repair_error :: "par2_result \<Rightarrow> repairer \<Rightarrow> fs \<Rightarrow> (par2_result \<times> repairer \<times> fs) option" where
  "repair_error e r fs = map_option (\<lambda>(r, fs). (e, r, fs)) (delete_incomplete_target_files r fs)"

text \<open>From the created target files to the verified ones; \<open>Success\<close> is the end of the branch.\<close>

definition repair_data ::
  "gf_kernel \<Rightarrow> gfmat_tables \<Rightarrow> gcoeffs \<times> gmat \<Rightarrow> 'b backend \<Rightarrow> 'b \<Rightarrow> u64 \<Rightarrow> (string \<Rightarrow> uninit) \<Rightarrow> repairer \<Rightarrow> fs
     \<Rightarrow> (par2_result \<times> repairer \<times> fs) option" where
  "repair_data k t memory be b memorylimit u r fs =
     do {
       (ok, r, fs) \<leftarrow> create_target_files r fs;
       if \<not> ok then Some (FileIOError, r, fs)
       else do {
         (ok, r, m) \<leftarrow> par2_compute_matrix k t memory r;
         if \<not> ok then repair_error FileIOError r fs
         else do {
           (res, r, fs) \<leftarrow> process_all be b m (par2_allocate_buffers memorylimit r) fs;
           if res \<noteq> Success then repair_error res r fs
           else do {
             (ok, r) \<leftarrow> verify_target_files u fs r;
             if \<not> ok then repair_error FileIOError r fs else Some (Success, r, fs)
           }
         }
       }
     }"

definition repair_files ::
  "gf_kernel \<Rightarrow> gfmat_tables \<Rightarrow> gcoeffs \<times> gmat \<Rightarrow> 'b backend \<Rightarrow> 'b \<Rightarrow> u64 \<Rightarrow> (string \<Rightarrow> uninit) \<Rightarrow> nat \<Rightarrow> repairer \<Rightarrow> fs
     \<Rightarrow> (par2_result \<times> repairer \<times> fs) option" where
  "repair_files k t memory be b memorylimit u max_path r fs =
     do {
       mp \<leftarrow> pr_mainpacket r;
       (ok, r, fs) \<leftarrow> rename_target_files max_path r fs;
       if \<not> ok then Some (FileIOError, r, fs)
       else do {
         (res, r, fs) \<leftarrow> (if pr_completefilecount r < mp_recoverablefilecount mp
                          then repair_data k t memory be b memorylimit u r fs else Some (Success, r, fs));
         if res \<noteq> Success then Some (res, r, fs)
         else if pr_completefilecount r < mp_recoverablefilecount mp then Some (RepairFailed, r, fs)
         else Some (Success, r, fs)
       }
     }"

text \<open>\<^verbatim>\<open>Process\<close> after the verification.\<close>

definition finish_process ::
  "gf_kernel \<Rightarrow> gfmat_tables \<Rightarrow> gcoeffs \<times> gmat \<Rightarrow> 'b backend \<Rightarrow> 'b \<Rightarrow> u64 \<Rightarrow> (string \<Rightarrow> uninit) \<Rightarrow> nat \<Rightarrow> bool \<Rightarrow> bool \<Rightarrow> repairer \<Rightarrow> fs
     \<Rightarrow> (par2_result \<times> repairer \<times> fs) option" where
  "finish_process k t memory be b memorylimit u max_path dorepair purgefiles r fs =
     do {
       mp \<leftarrow> pr_mainpacket r;
       r \<leftarrow> update_verification_results r;
       ok \<leftarrow> check_verification_results r;
       if \<not> ok then Some (RepairNotPossible, r, fs)
       else do {
         (res, r, fs) \<leftarrow> (if pr_completefilecount r < mp_recoverablefilecount mp
                          then if dorepair then repair_files k t memory be b memorylimit u max_path r fs
                               else Some (RepairPossible, r, fs)
                          else Some (Success, r, fs));
         if res = Success \<and> purgefiles
         then let (r, fs) = remove_backup_files r fs in Some (res, r, remove_par_files r fs)
         else Some (res, r, fs)
       }
     }"

end
