(* ===== verification/GFMat_Rows.thy ===== *)
theory GFMat_Rows
  imports GFMat_Inv
begin

text \<open>
  The elimination of \<open>Galois16RecMatrix\<close> in place, row by row. The rows are equations: with \<open>d\<close> the input blocks in
  the order of the columns, row \<open>r\<close> at level \<open>k\<close> gives missing block \<open>r\<close> (when \<open>r < k\<close>) or recovery block \<open>r\<close> (otherwise) from the valid
  blocks, the recovery blocks below \<open>k\<close> and the missing blocks from \<open>k\<close> on. Every operation keeps this true and
  only moves rows to higher levels.
\<close>

section \<open>Rows as equations\<close>

definition recovered :: "(nat \<Rightarrow> nat \<Rightarrow> galois16) \<Rightarrow> nat \<Rightarrow> nat \<Rightarrow> (nat \<Rightarrow> galois16) \<Rightarrow> galois16" where
  "recovered A w r d = (\<Sum>c<w. A r c * d c)"

definition mixed :: "(nat \<Rightarrow> nat \<Rightarrow> galois16) \<Rightarrow> nat \<Rightarrow> nat \<Rightarrow> nat \<Rightarrow> (nat \<Rightarrow> galois16) \<Rightarrow> nat \<Rightarrow> galois16" where
  "mixed A w vc k d c = (if vc \<le> c \<and> c < vc + k then recovered A w (c - vc) d else d c)"

definition row_value :: "(nat \<Rightarrow> nat \<Rightarrow> galois16) \<Rightarrow> nat \<Rightarrow> nat \<Rightarrow> nat \<Rightarrow> nat \<Rightarrow> (nat \<Rightarrow> galois16) \<Rightarrow> galois16" where
  "row_value A w vc r k d = (if r < k then d (vc + r) else recovered A w r d)"

definition row_at :: "(nat \<Rightarrow> nat \<Rightarrow> galois16) \<Rightarrow> nat \<Rightarrow> nat \<Rightarrow> nat \<Rightarrow> nat \<Rightarrow> galois16 list \<Rightarrow> bool" where
  "row_at A w vc r k row \<longleftrightarrow> (\<forall>d. row_value A w vc r k d = (\<Sum>c<w. row ! c * mixed A w vc k d c))"

lemma row_atD: "row_at A w vc r k row \<Longrightarrow> row_value A w vc r k d = (\<Sum>c<w. row ! c * mixed A w vc k d c)"
  by (simp add: row_at_def)

lemma mixed_Suc: "c \<noteq> vc + k \<Longrightarrow> mixed A w vc (Suc k) d c = mixed A w vc k d c"
  by (auto simp: mixed_def)

lemma row_at_scale:
  assumes "row_at A w vc r r row" "vc + r < w" "length row \<ge> w" "row ! (vc + r) \<noteq> 0"
    and row': "\<And>c. c < w \<Longrightarrow> row' ! c = inverse (row ! (vc + r)) * row [vc + r := 1] ! c"
  shows "row_at A w vc r (Suc r) row'"
  unfolding row_at_def
proof
  fix d
  define p where "p = vc + r"
  define a where "a = row ! p"
  have p: "p \<in> {..<w}" "p < length row" using assms(2,3) by (auto simp: p_def)
  let ?S = "\<Sum>c\<in>{..<w} - {p}. row ! c * mixed A w vc r d c"
  have "recovered A w r d = (\<Sum>c<w. row ! c * mixed A w vc r d c)"
    using row_atD [OF assms(1), of d] by (simp add: row_value_def)
  also have "\<dots> = a * d p + ?S"
    using p(1) by (subst sum.remove [of _ p]) (simp_all add: a_def mixed_def p_def)
  finally have eq: "recovered A w r d = a * d p + ?S" .
  have "(\<Sum>c<w. row' ! c * mixed A w vc (Suc r) d c) =
      row' ! p * mixed A w vc (Suc r) d p + (\<Sum>c\<in>{..<w} - {p}. row' ! c * mixed A w vc (Suc r) d c)"
    using p(1) by (subst sum.remove [of _ p]) simp_all
  also have "row' ! p * mixed A w vc (Suc r) d p = inverse a * recovered A w r d"
    using p row' [of p] by (simp add: mixed_def a_def p_def)
  also have "(\<Sum>c\<in>{..<w} - {p}. row' ! c * mixed A w vc (Suc r) d c) = inverse a * ?S"
    unfolding sum_distrib_left
  proof (rule sum.cong [OF refl])
    fix c assume "c \<in> {..<w} - {p}"
    then show "row' ! c * mixed A w vc (Suc r) d c = inverse a * (row ! c * mixed A w vc r d c)"
      using row' [of c] mixed_Suc [of c vc r A w d] by (simp add: p_def a_def)
  qed
  also have "inverse a * recovered A w r d + inverse a * ?S = inverse a * (a * d p)"
    by (simp add: eq distrib_left)
  also have "\<dots> = d p" using assms(4) by (simp add: a_def p_def)
  finally show "row_value A w vc r (Suc r) d = (\<Sum>c<w. row' ! c * mixed A w vc (Suc r) d c)"
    by (simp add: row_value_def p_def)
qed

lemma row_at_elim:
  assumes "row_at A w vc r s row" "r < s \<or> s + q \<le> r" "vc + s + q \<le> w"
    and src: "\<And>i. i < q \<Longrightarrow> row_at A w vc (s + i) (s + q) (src i)"
    and row': "\<And>c. c < w \<Longrightarrow> row' ! c = (if vc + s \<le> c \<and> c < vc + s + q then 0 else row ! c) +
      (\<Sum>i<q. row ! (vc + s + i) * src i ! c)"
  shows "row_at A w vc r (s + q) row'"
  unfolding row_at_def
proof
  fix d
  let ?C = "{vc + s..<vc + s + q}"
  let ?m = "mixed A w vc (s + q) d"
  have sub: "?C \<subseteq> {..<w}" using assms(3) by auto
  have img: "?C = (+) (vc + s) ` {..<q}"
    by (simp add: lessThan_atLeast0 add.commute image_add_atLeastLessThan)
  have val: "row_value A w vc (s + i) (s + q) d = d (vc + s + i)" if "i < q" for i
    using that by (simp add: row_value_def add.assoc)
  have "row_value A w vc r (s + q) d = row_value A w vc r s d" using assms(2) by (auto simp: row_value_def)
  also have "\<dots> = (\<Sum>c<w. row ! c * mixed A w vc s d c)" by (rule row_atD [OF assms(1)])
  also have "\<dots> = (\<Sum>c\<in>{..<w} - ?C. row ! c * mixed A w vc s d c) + (\<Sum>c\<in>?C. row ! c * mixed A w vc s d c)"
    using sum.subset_diff [OF sub, of "\<lambda>c. row ! c * mixed A w vc s d c"] by simp
  also have "(\<Sum>c\<in>?C. row ! c * mixed A w vc s d c) = (\<Sum>i<q. row ! (vc + s + i) * d (vc + s + i))"
    unfolding img by (subst sum.reindex) (auto simp: inj_on_def mixed_def)
  also have "\<dots> = (\<Sum>i<q. row ! (vc + s + i) * (\<Sum>c<w. src i ! c * ?m c))"
    by (rule sum.cong [OF refl]) (simp add: row_atD [OF src, symmetric] val)
  also have "\<dots> = (\<Sum>c<w. (\<Sum>i<q. row ! (vc + s + i) * src i ! c) * ?m c)"
    unfolding sum_distrib_left sum_distrib_right by (subst sum.swap) (simp only: mult.assoc)
  also have "(\<Sum>c\<in>{..<w} - ?C. row ! c * mixed A w vc s d c) =
      (\<Sum>c<w. (if vc + s \<le> c \<and> c < vc + s + q then 0 else row ! c) * ?m c)"
  proof (rule sum.mono_neutral_cong_left)
    fix c assume "c \<in> {..<w} - ?C"
    then show "row ! c * mixed A w vc s d c = (if vc + s \<le> c \<and> c < vc + s + q then 0 else row ! c) * ?m c"
      by (auto simp: mixed_def)
  qed auto
  also have "(\<Sum>c<w. (if vc + s \<le> c \<and> c < vc + s + q then 0 else row ! c) * ?m c) +
      (\<Sum>c<w. (\<Sum>i<q. row ! (vc + s + i) * src i ! c) * ?m c) = (\<Sum>c<w. row' ! c * ?m c)"
    unfolding sum.distrib [symmetric]
    by (rule sum.cong [OF refl]) (simp add: row' distrib_right)
  finally show "row_value A w vc r (s + q) d = (\<Sum>c<w. row' ! c * ?m c)" .
qed

section \<open>Matrices\<close>

definition levels :: "(nat \<Rightarrow> nat \<Rightarrow> galois16) \<Rightarrow> nat \<Rightarrow> nat \<Rightarrow> nat \<Rightarrow> (nat \<Rightarrow> nat) \<Rightarrow> gmat \<Rightarrow> bool" where
  "levels A vc n L k m \<longleftrightarrow> vc + n \<le> L \<and> length m = n \<and> (\<forall>r<n. length (m ! r) = L \<and> row_at A (vc + n) vc r (k r) (m ! r))"

lemma levels_rowD: "levels A vc n L k m \<Longrightarrow> r < n \<Longrightarrow> length (m ! r) = L \<and> row_at A (vc + n) vc r (k r) (m ! r)"
  by (simp add: levels_def)

lemma levels_cong: "levels A vc n L k m \<Longrightarrow> (\<And>r. r < n \<Longrightarrow> k r = k' r) \<Longrightarrow> levels A vc n L k' m"
  by (simp add: levels_def)

text \<open>The rows of a matrix are all that counts.\<close>

lemma levels_change:
  assumes "levels A vc n L k m" "length m' = n"
    and "\<And>r. r < n \<Longrightarrow> m' ! r = m ! r \<and> k' r = k r \<or> length (m' ! r) = L \<and> row_at A (vc + n) vc r (k' r) (m' ! r)"
  shows "levels A vc n L k' m'"
  using assms unfolding levels_def by metis

lemma set_entry_nth: "set_entry r c v m ! r' = (if r' = r \<and> r < length m then (m ! r)[c := v] else m ! r')"
  by (cases "r < length m"; cases "r' = r") (simp_all add: set_entry_def list_update_beyond)

lemma length_set_entry [simp]: "length (set_entry r c v m) = length m"
  by (simp add: set_entry_def)

lemma take_coeffs_zero:
  assumes "r < length m"
  shows "length (fold (\<lambda>i. set_entry r (c + i) 0) [0..<n] m) = length m \<and>
    (\<forall>r'. r' \<noteq> r \<longrightarrow> fold (\<lambda>i. set_entry r (c + i) 0) [0..<n] m ! r' = m ! r') \<and>
    length (fold (\<lambda>i. set_entry r (c + i) 0) [0..<n] m ! r) = length (m ! r) \<and>
    (\<forall>j<length (m ! r). fold (\<lambda>i. set_entry r (c + i) 0) [0..<n] m ! r ! j = (if c \<le> j \<and> j < c + n then 0 else m ! r ! j))"
proof (induction n)
  case (Suc n)
  then show ?case
    using assms by (auto simp: set_entry_nth nth_list_update less_Suc_eq)
qed auto

lemma row_muladd_nth: "row_muladd dst src a m ! r =
    (if r = dst \<and> dst < length m then map2 (\<lambda>x y. x + a * y) (m ! dst) (m ! src) else m ! r)"
  by (cases "dst < length m"; cases "r = dst") (simp_all add: row_muladd_def list_update_beyond)

lemma length_row_muladd [simp]: "length (row_muladd dst src a m) = length m"
  by (simp add: row_muladd_def)

lemma sum_lessThan_Suc_left: "(\<Sum>i<Suc n. f i) = f 0 + (\<Sum>i<n. f (Suc i))" for f :: "nat \<Rightarrow> galois16"
  by (rule sum.lessThan_Suc_shift)

text \<open>\<^verbatim>\<open>mul_add_multi\<close> adds the multiples of the source rows.\<close>

lemma row_muladd_multi_spec:
  assumes "dst < length m" "src + length as \<le> length m" "dst < src \<or> src + length as \<le> dst"
    and "length (m ! dst) = L" "\<forall>i<length as. length (m ! (src + i)) = L"
  shows "length (row_muladd_multi dst src as m) = length m \<and>
    (\<forall>r. r \<noteq> dst \<longrightarrow> row_muladd_multi dst src as m ! r = m ! r) \<and>
    length (row_muladd_multi dst src as m ! dst) = L \<and>
    (\<forall>c<L. row_muladd_multi dst src as m ! dst ! c = m ! dst ! c + (\<Sum>i<length as. as ! i * m ! (src + i) ! c))"
  using assms
proof (induction as arbitrary: src m)
  case (Cons a as)
  let ?m = "row_muladd dst src a m"
  have dst: "?m ! dst = map2 (\<lambda>x y. x + a * y) (m ! dst) (m ! src)" and other: "\<And>r. r \<noteq> dst \<Longrightarrow> ?m ! r = m ! r"
    using Cons.prems(1) by (simp_all add: row_muladd_nth)
  have l: "length (m ! src) = L" using Cons.prems(5) by (metis add_0_right length_greater_0_conv list.discI)
  then have ld: "length (?m ! dst) = L" using Cons.prems(4) by (simp add: dst)
  have src: "\<forall>i<length as. ?m ! (src + 1 + i) = m ! (src + Suc i)"
    using Cons.prems(3) by (auto simp: row_muladd_nth)
  then have ls: "\<forall>i<length as. length (?m ! (src + 1 + i)) = L" using Cons.prems(5) by auto
  have IH: "length (row_muladd_multi dst (src + 1) as ?m) = length ?m \<and>
    (\<forall>r. r \<noteq> dst \<longrightarrow> row_muladd_multi dst (src + 1) as ?m ! r = ?m ! r) \<and>
    length (row_muladd_multi dst (src + 1) as ?m ! dst) = L \<and>
    (\<forall>c<L. row_muladd_multi dst (src + 1) as ?m ! dst ! c = ?m ! dst ! c + (\<Sum>i<length as. as ! i * ?m ! (src + 1 + i) ! c))"
    by (rule Cons.IH) (use Cons.prems ld ls in auto)
  have "row_muladd_multi dst src (a # as) m ! dst ! c =
      m ! dst ! c + (\<Sum>i<length (a # as). (a # as) ! i * m ! (src + i) ! c)" if "c < L" for c
  proof -
    have "?m ! dst ! c = m ! dst ! c + a * m ! src ! c" using that l Cons.prems(4) by (simp add: dst)
    moreover have "(\<Sum>i<length as. as ! i * ?m ! (src + 1 + i) ! c) = (\<Sum>i<length as. as ! i * m ! (src + Suc i) ! c)"
      using src by (intro sum.cong) auto
    ultimately show ?thesis using IH that by (simp add: sum_lessThan_Suc_left add.assoc del: sum.lessThan_Suc)
  qed
  then show ?case using IH other by simp
qed simp

lemma inverse_recip:
  assumes "gfmat_ready t" "a \<noteq> 0"
  shows "Galois16 (gm_recip t ! unat (value16 a)) = inverse a"
proof -
  have "Galois16 (gm_recip t ! unat (value16 a)) * a = 1"
    using assms by (cases a) (simp add: gfmat_ready_def galois16_ops)
  then show ?thesis by (metis inverse_unique mult.commute)
qed

lemma scale_row_levels:
  assumes "gfmat_ready t" "levels A vc n L k m" "rec + row < n" "k (rec + row) = rec + row"
  shows "case scale_row t vc rec row m of
      Inl row' \<Rightarrow> row' = row \<and> m ! (rec + row) ! (vc + (rec + row)) = 0
    | Inr m' \<Rightarrow> levels A vc n L (k(rec + row := Suc (rec + row))) m'"
proof -
  let ?r = "rec + row" and ?p = "vc + (rec + row)"
  let ?a = "m ! ?r ! ?p"
  have m: "length m = n" "length (m ! ?r) = L" "row_at A (vc + n) vc ?r ?r (m ! ?r)" "vc + n \<le> L"
    using assms(2,3,4) levels_rowD [OF assms(2,3)] by (simp_all add: levels_def)
  show ?thesis
  proof (cases "?a = 0")
    case True
    then show ?thesis by (simp add: scale_row_def Let_def add.assoc)
  next
    case False
    let ?row = "map ((*) (inverse ?a)) ((m ! ?r)[?p := 1])"
    have one: "?row = (m ! ?r)[?p := 1]" if "?a = 1"
      using that by (simp add: map_idI)
    have "scale_row t vc rec row m = Inr (m[?r := ?row])"
      using False m(1) assms(3) inverse_recip [OF assms(1) False] one
      by (auto simp: scale_row_def Let_def add.assoc set_entry_def row_mul_def)
    moreover have "levels A vc n L (k(?r := Suc ?r)) (m[?r := ?row])"
    proof (rule levels_change [OF assms(2)])
      fix r assume "r < n"
      have "row_at A (vc + n) vc ?r (Suc ?r) ?row"
        by (rule row_at_scale [OF m(3)]) (use m False assms(3) in simp_all)
      then show "m[?r := ?row] ! r = m ! r \<and> (k(?r := Suc ?r)) r = k r \<or>
          length (m[?r := ?row] ! r) = L \<and> row_at A (vc + n) vc r ((k(?r := Suc ?r)) r) (m[?r := ?row] ! r)"
        using m(1,2) assms(3) by (cases "r = ?r") simp_all
    qed (use m in simp)
    ultimately show ?thesis by simp
  qed
qed

text \<open>Clearing the columns of the source rows in a row and adding these rows with what was there.\<close>

lemma eliminate_levels:
  assumes "levels A vc n L k m" "dst < n" "s + q \<le> n" "dst < s \<or> s + q \<le> dst" "k dst = s"
    and "\<forall>i<q. k (s + i) = s + q"
  shows "levels A vc n L (k(dst := s + q))
    (row_muladd_multi dst s (map (\<lambda>i. m ! dst ! (vc + s + i)) [0..<q]) (snd (take_coeffs dst (vc + s) q m)))"
proof -
  let ?as = "map (\<lambda>i. m ! dst ! (vc + s + i)) [0..<q]"
  define m0 where "m0 = snd (take_coeffs dst (vc + s) q m)"
  have m: "length m = n" "vc + n \<le> L" and rows: "\<And>r. r < n \<Longrightarrow> length (m ! r) = L" "\<And>r. r < n \<Longrightarrow> row_at A (vc + n) vc r (k r) (m ! r)"
    using assms(1) by (simp_all add: levels_def)
  have m0: "length m0 = n" "\<And>r. r \<noteq> dst \<Longrightarrow> m0 ! r = m ! r" "length (m0 ! dst) = L"
    "\<And>c. c < L \<Longrightarrow> m0 ! dst ! c = (if vc + s \<le> c \<and> c < vc + s + q then 0 else m ! dst ! c)"
    using take_coeffs_zero [of dst m "vc + s" q] assms(2) m rows(1) by (simp_all add: m0_def take_coeffs_def)
  have src: "m0 ! (s + i) = m ! (s + i)" if "i < q" for i using assms(4) that by (intro m0(2)) auto
  have l: "\<forall>i<length ?as. length (m0 ! (s + i)) = L"
    using src rows(1) assms(3) by (simp add: order_less_le_trans)
  define m' where "m' = row_muladd_multi dst s ?as m0"
  have m': "length m' = n" "\<And>r. r \<noteq> dst \<Longrightarrow> m' ! r = m0 ! r" "length (m' ! dst) = L"
    "\<And>c. c < L \<Longrightarrow> m' ! dst ! c = m0 ! dst ! c + (\<Sum>i<q. ?as ! i * m0 ! (s + i) ! c)"
    using row_muladd_multi_spec [of dst m0 s ?as L] assms(2,3,4) m0(1,3) l by (simp_all add: m'_def)
  have "row_at A (vc + n) vc dst (s + q) (m' ! dst)"
  proof (rule row_at_elim [OF _ _ _, where src = "\<lambda>i. m ! (s + i)" and row = "m ! dst"])
    show "row_at A (vc + n) vc dst s (m ! dst)" using rows(2) [OF assms(2)] assms(5) by simp
    show "dst < s \<or> s + q \<le> dst" "vc + s + q \<le> vc + n" using assms(3,4) by simp_all
    show "row_at A (vc + n) vc (s + i) (s + q) (m ! (s + i))" if "i < q" for i
      using rows(2) [of "s + i"] assms(3,6) that by simp
    show "m' ! dst ! c = (if vc + s \<le> c \<and> c < vc + s + q then 0 else m ! dst ! c) +
        (\<Sum>i<q. m ! dst ! (vc + s + i) * m ! (s + i) ! c)" if "c < vc + n" for c
      using that m(2) m0(4) [of c] m'(4) [of c] src by (simp add: add.assoc)
  qed
  then have "levels A vc n L (k(dst := s + q)) m'"
    using m0(2) m'(1-3) by (intro levels_change [OF assms(1)]) auto
  then show ?thesis by (simp add: m'_def m0_def)
qed

lemma muladd_multi_levels:
  assumes "levels A vc n L k m" "rec + dst < n" "rec + offs + q \<le> n" "dst < offs \<or> offs + q \<le> dst"
    and "k (rec + dst) = rec + offs" "\<forall>i<q. k (rec + offs + i) = rec + offs + q"
  shows "levels A vc n L (k(rec + dst := rec + offs + q)) (muladd_multi vc rec dst offs q m)"
  using eliminate_levels [of A vc n L k m "rec + dst" "rec + offs" q] assms
  by (auto simp: muladd_multi_def take_coeffs_def Let_def add.assoc)

lemma muladd_row_multi:
  assumes "levels A vc n L k m" "rec + dst < n" "rec + offs < n" "dst \<noteq> offs"
  shows "muladd_row vc rec dst offs m = muladd_multi vc rec dst offs 1 m"
proof (cases "m ! (rec + dst) ! (vc + rec + offs) = 0")
  case True
  let ?m = "set_entry (rec + dst) (vc + rec + offs) 0 m"
  have "length (m ! (rec + dst)) = L" "length (m ! (rec + offs)) = L" "length m = n"
    using assms by (simp_all add: levels_def)
  then have "row_muladd (rec + dst) (rec + offs) 0 ?m = ?m"
    using assms(2-4) by (intro nth_equalityI) (auto simp: row_muladd_nth set_entry_nth intro!: nth_equalityI)
  then show ?thesis using True by (simp add: muladd_row_def muladd_multi_def take_coeffs_def Let_def)
qed (simp add: muladd_row_def muladd_multi_def take_coeffs_def Let_def)

section \<open>The rows of a group\<close>

text \<open>What the operations do to the levels, counted from \<^verbatim>\<open>rec\<close>, when they apply.\<close>

fun op_levels :: "row_op \<Rightarrow> nat list \<Rightarrow> nat list option" where
  "op_levels (ScaleRow r) js = (if r < length js \<and> js ! r = r then Some (js[r := Suc r]) else None)"
| "op_levels (MulAddRow d s) js =
     (if d < length js \<and> s < length js \<and> d \<noteq> s \<and> js ! d = s \<and> js ! s = Suc s then Some (js[d := Suc s]) else None)"
| "op_levels (MulAddMulti d s q) js =
     (if d < length js \<and> s + q \<le> length js \<and> (d < s \<or> s + q \<le> d) \<and> js ! d = s \<and> list_all (\<lambda>i. js ! (s + i) = s + q) [0..<q]
      then Some (js[d := s + q]) else None)"

fun ops_levels :: "row_op list \<Rightarrow> nat list \<Rightarrow> nat list option" where
  "ops_levels [] js = Some js"
| "ops_levels (op # ops) js = Option.bind (op_levels op js) (ops_levels ops)"

definition group_levels :: "nat \<Rightarrow> nat list \<Rightarrow> (nat \<Rightarrow> nat) \<Rightarrow> nat \<Rightarrow> nat" where
  "group_levels rec js k r = (if rec \<le> r \<and> r < rec + length js then rec + js ! (r - rec) else k r)"

lemma group_levels_update:
  "d < length js \<Longrightarrow> (group_levels rec js k)(rec + d := rec + l) = group_levels rec (js[d := l]) k"
  by (rule ext) (auto simp: group_levels_def nth_list_update)

text \<open>A row whose pivot is zero.\<close>

definition bad_row :: "(nat \<Rightarrow> nat \<Rightarrow> galois16) \<Rightarrow> nat \<Rightarrow> nat \<Rightarrow> nat \<Rightarrow> nat \<Rightarrow> bool" where
  "bad_row A vc n L r \<longleftrightarrow> r < n \<and> (\<exists>k m. levels A vc n L k m \<and> k r = r \<and> m ! r ! (vc + r) = 0)"

lemma run_op_levels:
  assumes "gfmat_ready t" "levels A vc n L (group_levels rec js k) m" "rec + length js \<le> n" "op_levels op js = Some js'"
  shows "length js' = length js \<and>
    (case run_op t vc rec op m of Inl row \<Rightarrow> bad_row A vc n L (rec + row) | Inr m' \<Rightarrow> levels A vc n L (group_levels rec js' k) m')"
proof (cases op)
  case (ScaleRow r)
  then have r: "r < length js" "js ! r = r" "js' = js[r := Suc r]" using assms(4) by (auto split: if_splits)
  have "group_levels rec js k (rec + r) = rec + r" using r by (simp add: group_levels_def)
  moreover have "(group_levels rec js k)(rec + r := Suc (rec + r)) = group_levels rec js' k"
    using group_levels_update [OF r(1), of rec k "Suc r"] r(3) by simp
  ultimately show ?thesis
    using scale_row_levels [OF assms(1,2), of rec r] assms(2,3) r ScaleRow
    by (auto simp: bad_row_def split: sum.splits)
next
  case (MulAddRow d s)
  then have d: "d < length js" "s < length js" "d \<noteq> s" "js ! d = s" "js ! s = Suc s" "js' = js[d := Suc s]"
    using assms(4) by (auto split: if_splits)
  have "group_levels rec js k (rec + d) = rec + s" "group_levels rec js k (rec + s) = rec + Suc s"
    using d by (simp_all add: group_levels_def)
  then have "levels A vc n L ((group_levels rec js k)(rec + d := rec + s + 1)) (muladd_multi vc rec d s 1 m)"
    using d assms(3) by (intro muladd_multi_levels [OF assms(2)]) auto
  then have "levels A vc n L (group_levels rec js' k) (muladd_row vc rec d s m)"
    using group_levels_update [OF d(1), of rec k "Suc s"] d(6) muladd_row_multi [OF assms(2), of rec d s] d assms(3) by simp
  then show ?thesis using MulAddRow d(6) by simp
next
  case (MulAddMulti d s q)
  then have d: "d < length js" "s + q \<le> length js" "d < s \<or> s + q \<le> d" "js ! d = s" "\<forall>i<q. js ! (s + i) = s + q" "js' = js[d := s + q]"
    using assms(4) by (auto simp: list_all_iff split: if_splits)
  have "group_levels rec js k (rec + d) = rec + s" "\<forall>i<q. group_levels rec js k (rec + s + i) = rec + s + q"
    using d by (simp_all add: group_levels_def add.assoc)
  then have "levels A vc n L ((group_levels rec js k)(rec + d := rec + s + q)) (muladd_multi vc rec d s q m)"
    using d assms(3) by (intro muladd_multi_levels [OF assms(2)]) auto
  then show ?thesis
    using group_levels_update [OF d(1), of rec k "s + q"] d(6) MulAddMulti by (simp add: add.assoc)
qed

lemma run_ops_levels:
  assumes "gfmat_ready t"
  shows "levels A vc n L (group_levels rec js k) m \<Longrightarrow> rec + length js \<le> n \<Longrightarrow> ops_levels ops js = Some js' \<Longrightarrow>
    (case run_ops t vc rec ops m of Inl row \<Rightarrow> bad_row A vc n L (rec + row) | Inr m' \<Rightarrow> levels A vc n L (group_levels rec js' k) m')"
proof (induction ops arbitrary: js m)
  case (Cons op ops)
  obtain js1 where js1: "op_levels op js = Some js1" "ops_levels ops js1 = Some js'"
    using Cons.prems(3) by (cases "op_levels op js") auto
  note r = run_op_levels [OF assms Cons.prems(1,2) js1(1)]
  show ?case
  proof (cases "run_op t vc rec op m")
    case (Inl row)
    then show ?thesis using r by simp
  next
    case (Inr m')
    then show ?thesis using r Cons.IH [of js1 m'] Cons.prems(2) js1(2) by simp
  qed
qed simp

lemma scale_ops_levels: "rows \<in> {1, 2, 3, 4, 5, 6} \<Longrightarrow> ops_levels (scale_ops rows) (replicate rows 0) = Some (replicate rows rows)"
proof -
  have "list_all (\<lambda>rows. ops_levels (scale_ops rows) (replicate rows 0) = Some (replicate rows rows)) [1, 2, 3, 4, 5, 6]"
    by code_simp
  then show "rows \<in> {1, 2, 3, 4, 5, 6} \<Longrightarrow> ?thesis" by auto
qed

text \<open>Scaling brings all rows of the group to the level of its end.\<close>

lemma scale_rows_levels:
  assumes "gfmat_ready t" "levels A vc n L k m" "rec + rows \<le> n" "rows \<in> {1, 2, 3, 4, 5, 6}"
    and "\<And>r. rec \<le> r \<Longrightarrow> r < rec + rows \<Longrightarrow> k r = rec"
  shows "case scale_rows t vc rows rec m of
      Inl row \<Rightarrow> bad_row A vc n L (rec + row)
    | Inr m' \<Rightarrow> levels A vc n L (\<lambda>r. if rec \<le> r \<and> r < rec + rows then rec + rows else k r) m'"
proof -
  have "group_levels rec (replicate rows 0) k = k"
    using assms(5) by (intro ext) (auto simp: group_levels_def)
  moreover have "group_levels rec (replicate rows rows) k = (\<lambda>r. if rec \<le> r \<and> r < rec + rows then rec + rows else k r)"
    by (intro ext) (auto simp: group_levels_def)
  ultimately show ?thesis
    using run_ops_levels [OF assms(1), of A vc n L rec "replicate rows 0" k m "scale_ops rows" "replicate rows rows"]
      assms(2,3) scale_ops_levels [OF assms(4)] by (simp add: scale_rows_def split: sum.splits)
qed

end
