(* ===== verification/GFMat_Groups.thy ===== *)
theory GFMat_Groups
  imports GFMat_Rows
begin

text \<open>
  The groups of \<open>Galois16RecMatrix\<close>: applying a group to other rows, normalising a group, and the whole elimination.
\<close>

section \<open>Target rows\<close>

lemma fill_targets_upt: "recLast \<le> rec \<or> rec < r \<Longrightarrow> fill_targets rec rows r recLast = [r..<recLast]"
proof (induction rec rows r recLast rule: fill_targets.induct)
  case (1 rec rows r recLast)
  then show ?case
    by (subst fill_targets.simps) (auto simp: upt_conv_Cons)
qed

lemma fill_targets_skip:
  "r \<le> rec \<Longrightarrow> 0 < rows \<Longrightarrow> fill_targets rec rows r recLast = [r..<min rec recLast] @ [rec + rows..<recLast]"
proof (induction rec rows r recLast rule: fill_targets.induct)
  case (1 rec rows r recLast)
  show ?case
  proof (cases "r < recLast")
    case False
    then show ?thesis using 1 by (subst fill_targets.simps) simp
  next
    case True
    show ?thesis
    proof (cases "r = rec")
      case eq: True
      then show ?thesis
        using True 1(4) fill_targets_upt [of recLast rec "rec + rows" rows] by (subst fill_targets.simps) simp
    next
      case False
      then have "r < min rec recLast" using True 1(3) by simp
      then show ?thesis
        using True False 1(2-4) by (subst fill_targets.simps) (simp add: upt_conv_Cons [of r "min rec recLast"])
    qed
  qed
qed

lemma invert_fill: "r \<noteq> rec \<Longrightarrow> 0 < rows \<Longrightarrow> invert_targets rec rows r recLast = fill_targets rec rows r recLast"
proof (induction rec rows r recLast rule: invert_targets.induct)
  case (1 rec rows r recLast)
  show ?case
  proof (cases "r < recLast")
    case False
    then show ?thesis by (simp add: invert_targets.simps fill_targets.simps)
  next
    case True
    show ?thesis
    proof (cases "r + 1 = rec")
      case next_rec: True
      have "fill_targets rec rows rec recLast = fill_targets rec rows (rec + rows) recLast"
        using 1(3) by (cases "rec < recLast"; subst fill_targets.simps) (simp_all add: fill_targets.simps)
      then show ?thesis
        using True next_rec 1 by (simp add: invert_targets.simps [of rec rows r] fill_targets.simps [of rec rows r])
    next
      case False
      then show ?thesis
        using True 1 by (simp add: invert_targets.simps [of rec rows r] fill_targets.simps [of rec rows r])
    qed
  qed
qed

section \<open>Applying a group\<close>

text \<open>The coefficients of the targets are kept and cleared.\<close>

definition cleared :: "nat \<Rightarrow> nat \<Rightarrow> nat \<Rightarrow> gmat \<Rightarrow> gmat \<Rightarrow> nat \<Rightarrow> bool" where
  "cleared c q L m m' r \<longleftrightarrow> length (m' ! r) = L \<and> (\<forall>j<L. m' ! r ! j = (if c \<le> j \<and> j < c + q then 0 else m ! r ! j))"

lemma fill_row_spec:
  assumes "r < length m" "length (m ! r) = L" "vc + rec + q \<le> L"
  shows "\<exists>coeff' m'. fill_row vc q recFirst rec q r (coeff, m) = (coeff', m') \<and> length m' = length m \<and>
    (\<forall>r'. r' \<noteq> r \<longrightarrow> m' ! r' = m ! r') \<and> cleared (vc + rec) q L m m' r \<and>
    (\<forall>i<q. coeff' ((r - recFirst) * q + i) = m ! r ! (vc + rec + i)) \<and>
    (\<forall>j. j < (r - recFirst) * q \<or> (r - recFirst) * q + q \<le> j \<longrightarrow> coeff' j = coeff j)"
proof -
  let ?as = "map (\<lambda>i. m ! r ! (vc + rec + i)) [0..<q]"
  let ?base = "(r - recFirst) * q"
  have f: "fold (\<lambda>c coeff. coeff(?base + c := ?as ! c)) [0..<p] coeff j =
      (if ?base \<le> j \<and> j < ?base + p then ?as ! (j - ?base) else coeff j)" for p j
    by (induction p) auto
  show ?thesis
    using take_coeffs_zero [OF assms(1), of "vc + rec" q] assms f
    by (auto simp: fill_row_def take_coeffs_def Let_def cleared_def)
qed

lemma fill_coeffs_spec:
  assumes "distinct rs" "\<forall>r\<in>set rs. recFirst \<le> r \<and> r < length m \<and> length (m ! r) = L" "vc + rec + q \<le> L" "0 < q"
  shows "\<exists>coeff' m'. fold (fill_row vc q recFirst rec q) rs (coeff, m) = (coeff', m') \<and> length m' = length m \<and>
    (\<forall>r. r \<notin> set rs \<longrightarrow> m' ! r = m ! r) \<and> (\<forall>r\<in>set rs. cleared (vc + rec) q L m m' r) \<and>
    (\<forall>r\<in>set rs. \<forall>i<q. coeff' ((r - recFirst) * q + i) = m ! r ! (vc + rec + i)) \<and>
    (\<forall>r\<ge>recFirst. r \<notin> set rs \<longrightarrow> (\<forall>i<q. coeff' ((r - recFirst) * q + i) = coeff ((r - recFirst) * q + i)))"
  using assms
proof (induction rs arbitrary: coeff m)
  case (Cons r rs)
  obtain coeff1 m1 where 1: "fill_row vc q recFirst rec q r (coeff, m) = (coeff1, m1)" "length m1 = length m"
    "\<forall>r'. r' \<noteq> r \<longrightarrow> m1 ! r' = m ! r'" "cleared (vc + rec) q L m m1 r"
    "\<forall>i<q. coeff1 ((r - recFirst) * q + i) = m ! r ! (vc + rec + i)"
    "\<forall>j. j < (r - recFirst) * q \<or> (r - recFirst) * q + q \<le> j \<longrightarrow> coeff1 j = coeff j"
    using fill_row_spec [of r m L vc rec q recFirst coeff] Cons.prems by auto
  have other: "coeff1 ((r' - recFirst) * q + i) = coeff ((r' - recFirst) * q + i)" if "r' \<noteq> r" "recFirst \<le> r'" "i < q" for r' i
  proof -
    have "r' - recFirst < r - recFirst \<or> Suc (r - recFirst) \<le> r' - recFirst"
      using that Cons.prems(2) by auto
    then have "(r' - recFirst) * q + i < (r - recFirst) * q \<or> (r - recFirst) * q + q \<le> (r' - recFirst) * q + i"
    proof
      assume "r' - recFirst < r - recFirst"
      then have "Suc (r' - recFirst) * q \<le> (r - recFirst) * q" by (intro mult_le_mono) simp_all
      then show ?thesis using that(3) by simp
    next
      assume "Suc (r - recFirst) \<le> r' - recFirst"
      then have "Suc (r - recFirst) * q \<le> (r' - recFirst) * q" by (intro mult_le_mono) simp_all
      then show ?thesis by simp
    qed
    then show ?thesis using 1(6) by blast
  qed
  have prem: "\<forall>r'\<in>set rs. recFirst \<le> r' \<and> r' < length m1 \<and> length (m1 ! r') = L"
    using Cons.prems(1,2) 1(2,3) by auto
  obtain coeff2 m2 where 2: "fold (fill_row vc q recFirst rec q) rs (coeff1, m1) = (coeff2, m2)" "length m2 = length m1"
    "\<forall>r. r \<notin> set rs \<longrightarrow> m2 ! r = m1 ! r" "\<forall>r\<in>set rs. cleared (vc + rec) q L m1 m2 r"
    "\<forall>r\<in>set rs. \<forall>i<q. coeff2 ((r - recFirst) * q + i) = m1 ! r ! (vc + rec + i)"
    "\<forall>r\<ge>recFirst. r \<notin> set rs \<longrightarrow> (\<forall>i<q. coeff2 ((r - recFirst) * q + i) = coeff1 ((r - recFirst) * q + i))"
    using Cons.IH [OF _ prem Cons.prems(3,4), of coeff1] Cons.prems(1) by auto
  have ne: "r \<notin> set rs" using Cons.prems(1) by simp
  have "cleared (vc + rec) q L m m2 r'" if "r' \<in> set (r # rs)" for r'
    using that 1(3,4) 2(3,4) ne by (cases "r' = r") (auto simp: cleared_def)
  moreover have "coeff2 ((r' - recFirst) * q + i) = m ! r' ! (vc + rec + i)" if "r' \<in> set (r # rs)" "i < q" for r' i
    using that 1(3,5) 2(5,6) ne Cons.prems(2) by (cases "r' = r") auto
  moreover have "coeff2 ((r' - recFirst) * q + i) = coeff ((r' - recFirst) * q + i)" if "recFirst \<le> r'" "r' \<notin> set (r # rs)" "i < q" for r' i
    using that 2(6) other [of r' i] by auto
  ultimately show ?case using 1(1,2,3) 2(1,2,3) by auto
qed simp

text \<open>The multiples of the source rows are added to the targets.\<close>

definition added :: "nat \<Rightarrow> nat \<Rightarrow> nat \<Rightarrow> (nat \<Rightarrow> galois16) \<Rightarrow> gmat \<Rightarrow> gmat \<Rightarrow> nat \<Rightarrow> bool" where
  "added src q L a m m' r \<longleftrightarrow> length (m' ! r) = L \<and> (\<forall>c<L. m' ! r ! c = m ! r ! c + (\<Sum>i<q. a i * m ! (src + i) ! c))"

lemma add_rows_spec:
  assumes "distinct rs" "\<forall>r\<in>set rs. r < length m \<and> length (m ! r) = L \<and> (r < src \<or> src + q \<le> r)"
    and "src + q \<le> length m" "\<forall>i<q. length (m ! (src + i)) = L"
  shows "length (fold (\<lambda>r m. row_muladd_multi r src (map (a r) [0..<q]) m) rs m) = length m \<and>
    (\<forall>r. r \<notin> set rs \<longrightarrow> fold (\<lambda>r m. row_muladd_multi r src (map (a r) [0..<q]) m) rs m ! r = m ! r) \<and>
    (\<forall>r\<in>set rs. added src q L (a r) m (fold (\<lambda>r m. row_muladd_multi r src (map (a r) [0..<q]) m) rs m) r)"
  using assms
proof (induction rs arbitrary: m)
  case (Cons r rs)
  let ?m1 = "row_muladd_multi r src (map (a r) [0..<q]) m"
  have 1: "length ?m1 = length m" "\<forall>r'. r' \<noteq> r \<longrightarrow> ?m1 ! r' = m ! r'" "added src q L (a r) m ?m1 r"
    using row_muladd_multi_spec [of r m src "map (a r) [0..<q]" L] Cons.prems(2-4) by (simp_all add: added_def)
  have src: "?m1 ! (src + i) = m ! (src + i)" if "i < q" for i
    using 1(2) Cons.prems(2) that by auto
  have ne: "r \<notin> set rs" using Cons.prems(1) by simp
  have IH: "length (fold (\<lambda>r m. row_muladd_multi r src (map (a r) [0..<q]) m) rs ?m1) = length ?m1 \<and>
    (\<forall>r. r \<notin> set rs \<longrightarrow> fold (\<lambda>r m. row_muladd_multi r src (map (a r) [0..<q]) m) rs ?m1 ! r = ?m1 ! r) \<and>
    (\<forall>r\<in>set rs. added src q L (a r) ?m1 (fold (\<lambda>r m. row_muladd_multi r src (map (a r) [0..<q]) m) rs ?m1) r)"
  proof (rule Cons.IH)
    have "?m1 ! r' = m ! r'" if "r' \<in> set rs" for r' using 1(2) that ne by auto
    then show "\<forall>r\<in>set rs. r < length ?m1 \<and> length (?m1 ! r) = L \<and> (r < src \<or> src + q \<le> r)"
      using Cons.prems(2) 1(1) by simp
  qed (use Cons.prems 1(1) src in auto)
  have "added src q L (a r') m (fold (\<lambda>r m. row_muladd_multi r src (map (a r) [0..<q]) m) rs ?m1) r'" if "r' \<in> set (r # rs)" for r'
    using that IH 1(2,3) ne src by (cases "r' = r") (auto simp: added_def)
  then show ?case using IH 1(1,2) by simp
qed simp

lemma sum_add_range: "(\<Sum>i<p + q. f i) = (\<Sum>i<p. f i) + (\<Sum>i<q. f (p + i))" for f :: "nat \<Rightarrow> galois16"
  by (induction q) (simp_all add: add.assoc)

definition loop_upto :: "nat \<Rightarrow> nat \<Rightarrow> nat \<Rightarrow> nat \<Rightarrow> nat \<Rightarrow> gcoeffs \<Rightarrow> gmat \<Rightarrow> nat \<Rightarrow> gmat" where
  "loop_upto rows recFirst recLast src w coeff m K = fold (\<lambda>k m.
         let recI = k * rows; rec = recI + src
         in fold (\<lambda>curRec2 m. row_muladd_multi curRec2 rec (map (\<lambda>i. coeff ((curRec2 - recFirst) * w + recI + i)) [0..<rows]) m)
              (invert_targets rec rows recFirst recLast) m) [0..<K] m"

lemma invert_loop_spec:
  assumes "distinct rs" "\<forall>r\<in>set rs. r < length m \<and> length (m ! r) = L \<and> (r < src \<or> src + K * rows \<le> r)"
    and "src + K * rows \<le> length m" "\<forall>i<K * rows. length (m ! (src + i)) = L"
    and "\<forall>k<K. invert_targets (k * rows + src) rows recFirst recLast = rs"
  shows "length (loop_upto rows recFirst recLast src w coeff m K) = length m \<and>
    (\<forall>r. r \<notin> set rs \<longrightarrow> loop_upto rows recFirst recLast src w coeff m K ! r = m ! r) \<and>
    (\<forall>r\<in>set rs. added src (K * rows) L (\<lambda>i. coeff ((r - recFirst) * w + i)) m (loop_upto rows recFirst recLast src w coeff m K) r)"
  using assms(2-5)
proof (induction K)
  let ?loop = "loop_upto rows recFirst recLast src w coeff m" and ?a = "\<lambda>r i. coeff ((r - recFirst) * w + i)"
  case 0
  then show ?case by (simp add: loop_upto_def added_def)
next
  let ?loop = "loop_upto rows recFirst recLast src w coeff m" and ?a = "\<lambda>r i. coeff ((r - recFirst) * w + i)"
  case (Suc K)
  have IH: "length (?loop K) = length m" "\<forall>r. r \<notin> set rs \<longrightarrow> ?loop K ! r = m ! r"
    "\<forall>r\<in>set rs. added src (K * rows) L (?a r) m (?loop K) r"
  proof -
    have "length (?loop K) = length m \<and> (\<forall>r. r \<notin> set rs \<longrightarrow> ?loop K ! r = m ! r) \<and>
      (\<forall>r\<in>set rs. added src (K * rows) L (?a r) m (?loop K) r)"
    proof (rule Suc.IH)
      show "\<forall>r\<in>set rs. r < length m \<and> length (m ! r) = L \<and> (r < src \<or> src + K * rows \<le> r)" using Suc.prems(1) by auto
    qed (use Suc.prems(2-4) in auto)
    then show "length (?loop K) = length m" "\<forall>r. r \<notin> set rs \<longrightarrow> ?loop K ! r = m ! r"
      "\<forall>r\<in>set rs. added src (K * rows) L (?a r) m (?loop K) r" by blast+
  qed
  let ?src = "K * rows + src"
  let ?b = "\<lambda>r i. ?a r (K * rows + i)"
  have "?loop (Suc K) = fold (\<lambda>r m. row_muladd_multi r ?src (map (?b r) [0..<rows]) m) rs (?loop K)"
    using Suc.prems(4) by (simp add: loop_upto_def Let_def add.assoc)
  moreover have "\<forall>i<rows. length (?loop K ! (?src + i)) = L"
  proof (intro allI impI)
    fix i assume "i < rows"
    then have i: "K * rows + i < Suc K * rows" by simp
    have "?src + i \<notin> set rs" using Suc.prems(1) i by (auto simp: ac_simps)
    moreover have "length (m ! (src + (K * rows + i))) = L" using Suc.prems(3) i by blast
    ultimately show "length (?loop K ! (?src + i)) = L" using IH(2) by (simp add: ac_simps)
  qed
  moreover have "\<forall>r\<in>set rs. r < length (?loop K) \<and> length (?loop K ! r) = L \<and> (r < ?src \<or> ?src + rows \<le> r)"
    using Suc.prems(1) IH(1,3) by (auto simp: added_def)
  ultimately have 1: "length (?loop (Suc K)) = length m" "\<forall>r. r \<notin> set rs \<longrightarrow> ?loop (Suc K) ! r = ?loop K ! r"
    "\<forall>r\<in>set rs. added ?src rows L (?b r) (?loop K) (?loop (Suc K)) r"
    using add_rows_spec [OF assms(1), of "?loop K" L ?src rows ?b] Suc.prems(2) IH(1) by (simp_all add: ac_simps)
  have "added src (Suc K * rows) L (?a r) m (?loop (Suc K)) r" if "r \<in> set rs" for r
    unfolding added_def
  proof (intro conjI allI impI)
    fix c assume "c < L"
    have "?loop (Suc K) ! r ! c = ?loop K ! r ! c + (\<Sum>i<rows. ?b r i * ?loop K ! (?src + i) ! c)"
      using 1(3) that \<open>c < L\<close> by (simp add: added_def)
    also have "(\<Sum>i<rows. ?b r i * ?loop K ! (?src + i) ! c) = (\<Sum>i<rows. ?b r i * m ! (src + (K * rows + i)) ! c)"
    proof (rule sum.cong [OF refl])
      fix i assume "i \<in> {..<rows}"
      then have "?src + i \<notin> set rs" using Suc.prems(1) by (auto simp: ac_simps)
      then show "?b r i * ?loop K ! (?src + i) ! c = ?b r i * m ! (src + (K * rows + i)) ! c"
        using IH(2) by (simp add: ac_simps)
    qed
    also have "?loop K ! r ! c = m ! r ! c + (\<Sum>i<K * rows. ?a r i * m ! (src + i) ! c)"
      using IH(3) that \<open>c < L\<close> by (simp add: added_def)
    finally show "?loop (Suc K) ! r ! c = m ! r ! c + (\<Sum>i<Suc K * rows. ?a r i * m ! (src + i) ! c)"
      using sum_add_range [of "\<lambda>i. ?a r i * m ! (src + i) ! c" "K * rows" rows] by (simp add: add.commute [of rows] add.assoc)
  qed (use 1(3) that in \<open>simp add: added_def\<close>)
  then show ?case using 1(1,2) IH(2) by simp
qed

text \<open>Both together move the targets to the level of the group.\<close>

lemma apply_levels:
  assumes "levels A vc n L k m" "distinct rs" "fill_targets rec q recFirst recLast = rs"
    and rs: "\<forall>r\<in>set rs. recFirst \<le> r \<and> r < n \<and> k r = rec \<and> (r < rec \<or> rec + q \<le> r)"
    and "rec + q \<le> n" "\<forall>i<q. k (rec + i) = rec + q" "0 < rows" "q mod rows = 0" "0 < q"
    and "\<forall>j<q div rows. invert_targets (j * rows + rec) rows recFirst recLast = rs"
  shows "case fill_coeffs vc q recFirst recLast rec q (coeff, m) of (coeff', m1) \<Rightarrow>
    levels A vc n L (\<lambda>r. if r \<in> set rs then rec + q else k r) (invert_loop rows recFirst recLast rec q q coeff' m1)"
proof -
  have m: "length m = n" "vc + n \<le> L" and rows: "\<And>r. r < n \<Longrightarrow> length (m ! r) = L" "\<And>r. r < n \<Longrightarrow> row_at A (vc + n) vc r (k r) (m ! r)"
    using assms(1) by (simp_all add: levels_def)
  have q: "q div rows * rows = q" using assms(8) by (metis div_mult_mod_eq add.right_neutral)
  obtain coeff' m1 where f: "fold (fill_row vc q recFirst rec q) rs (coeff, m) = (coeff', m1)" "length m1 = length m"
    "\<forall>r. r \<notin> set rs \<longrightarrow> m1 ! r = m ! r" "\<forall>r\<in>set rs. cleared (vc + rec) q L m m1 r"
    "\<forall>r\<in>set rs. \<forall>i<q. coeff' ((r - recFirst) * q + i) = m ! r ! (vc + rec + i)"
    using fill_coeffs_spec [OF assms(2), of recFirst m L vc rec q coeff] rs m rows(1) assms(5,9) by auto
  have src: "m1 ! (rec + i) = m ! (rec + i)" if "i < q" for i
  proof -
    have "rec + i \<notin> set rs" using rs that by auto
    then show ?thesis using f(3) by blast
  qed
  have l: "\<forall>i<q. length (m1 ! (rec + i)) = L" using src rows(1) assms(5) by simp
  let ?m2 = "invert_loop rows recFirst recLast rec q q coeff' m1"
  have 2: "length ?m2 = length m1" "\<forall>r. r \<notin> set rs \<longrightarrow> ?m2 ! r = m1 ! r"
    "\<forall>r\<in>set rs. added rec q L (\<lambda>i. coeff' ((r - recFirst) * q + i)) m1 ?m2 r"
    using invert_loop_spec [OF assms(2), of m1 L rec "q div rows" rows recFirst recLast q coeff']
      rs f(2,4) m assms(5,10) l by (auto simp: cleared_def invert_loop_def loop_upto_def q)
  have "row_at A (vc + n) vc r (rec + q) (?m2 ! r)" if "r \<in> set rs" for r
  proof (rule row_at_elim [where src = "\<lambda>i. m ! (rec + i)" and row = "m ! r"])
    show "row_at A (vc + n) vc r rec (m ! r)" "r < rec \<or> rec + q \<le> r" "vc + rec + q \<le> vc + n"
      using rows(2) [of r] rs that assms(5) by auto
    show "row_at A (vc + n) vc (rec + i) (rec + q) (m ! (rec + i))" if "i < q" for i
      using rows(2) [of "rec + i"] assms(5,6) that by simp
    show "?m2 ! r ! c = (if vc + rec \<le> c \<and> c < vc + rec + q then 0 else m ! r ! c) +
        (\<Sum>i<q. m ! r ! (vc + rec + i) * m ! (rec + i) ! c)" if "c < vc + n" for c
      using that \<open>r \<in> set rs\<close> m(2) 2(3) f(4,5) src by (simp add: added_def cleared_def)
  qed
  then have "levels A vc n L (\<lambda>r. if r \<in> set rs then rec + q else k r) ?m2"
    using 2 f(2,3) m by (intro levels_change [OF assms(1)]) (auto simp: added_def)
  then show ?thesis using f(1) by (simp add: fill_coeffs_def assms(3))
qed

section \<open>A group is normalised\<close>

abbreviation in_group :: "nat \<Rightarrow> nat \<Rightarrow> nat \<Rightarrow> bool" where
  "in_group recStart cur r \<equiv> recStart \<le> r \<and> r < recStart + cur"

lemma normalise_rows_levels:
  assumes "gfmat_ready t" "levels A vc n L k m" "recStart + cur \<le> n" "recStart \<le> rec" "rec + rows \<le> recStart + cur"
    and "rows \<in> {1, 2, 3, 4, 5, 6}" "\<And>r. in_group recStart cur r \<Longrightarrow> k r = rec"
  shows "case normalise_rows t vc rows recStart cur rec (coeff, m) of
      Inl bad \<Rightarrow> bad_row A vc n L bad
    | Inr s' \<Rightarrow> levels A vc n L (\<lambda>r. if in_group recStart cur r then rec + rows else k r) (snd s')"
proof -
  have rows: "0 < rows" using assms(6) by auto
  let ?recFirst = "if recStart = rec then recStart + rows else recStart" and ?recLast = "cur + recStart"
  let ?k = "\<lambda>r. if rec \<le> r \<and> r < rec + rows then rec + rows else k r"
  have sc: "case scale_rows t vc rows rec m of Inl row \<Rightarrow> bad_row A vc n L (rec + row) | Inr m' \<Rightarrow> levels A vc n L ?k m'"
    by (rule scale_rows_levels [OF assms(1,2)]) (use assms in auto)
  show ?thesis
  proof (cases "scale_rows t vc rows rec m")
    case (Inl row)
    then show ?thesis using sc by (simp add: normalise_rows_def Let_def)
  next
    case (Inr m')
    then have lv: "levels A vc n L ?k m'" using sc by simp
    show ?thesis
    proof (cases "?recFirst = ?recLast")
      case True
      then have "recStart = rec" "cur = rows" using assms(4,5) rows by (auto split: if_splits)
      then show ?thesis using Inr lv by (simp add: normalise_rows_def Let_def)
    next
      case False
      define rs where "rs = fill_targets rec rows ?recFirst ?recLast"
      have rs: "set rs = {r. in_group recStart cur r \<and> \<not> (rec \<le> r \<and> r < rec + rows)}" "distinct rs"
        using assms(4,5) rows fill_targets_upt [of ?recLast rec "recStart + rows" rows] fill_targets_skip [of recStart rec rows ?recLast]
        by (auto simp: rs_def)
      have "case fill_coeffs vc rows ?recFirst ?recLast rec rows (coeff, m') of (coeff', m1) \<Rightarrow>
          levels A vc n L (\<lambda>r. if r \<in> set rs then rec + rows else ?k r) (invert_loop rows ?recFirst ?recLast rec rows rows coeff' m1)"
      proof (rule apply_levels [OF lv rs(2)])
        show "\<forall>r\<in>set rs. ?recFirst \<le> r \<and> r < n \<and> ?k r = rec \<and> (r < rec \<or> rec + rows \<le> r)"
        proof
          fix r assume "r \<in> set rs"
          then have r: "recStart \<le> r" "r < recStart + cur" "\<not> (rec \<le> r \<and> r < rec + rows)" using rs(1) by auto
          then have "k r = rec" using assms(7) by blast
          moreover have "?recFirst \<le> r" using r by (cases "recStart = rec") auto
          ultimately show "?recFirst \<le> r \<and> r < n \<and> ?k r = rec \<and> (r < rec \<or> rec + rows \<le> r)"
            using r assms(3) by (cases "rec \<le> r") simp_all
        qed
        have "?recFirst \<noteq> rec" using rows assms(4) by (cases "recStart = rec") simp_all
        then have it: "invert_targets rec rows ?recFirst ?recLast = rs" unfolding rs_def by (rule invert_fill [OF _ rows])
        show "\<forall>j<rows div rows. invert_targets (j * rows + rec) rows ?recFirst ?recLast = rs"
        proof (intro allI impI)
          fix j assume "j < rows div rows"
          then have "j = 0" using rows by (simp add: div_self)
          then show "invert_targets (j * rows + rec) rows ?recFirst ?recLast = rs" using it by (simp only: mult_zero_left add_0)
        qed
        show "fill_targets rec rows ?recFirst ?recLast = rs" by (simp add: rs_def)
        show "rec + rows \<le> n" using assms(3,5) by simp
      qed (use rows in simp_all)
      moreover have "(\<lambda>r. if r \<in> set rs then rec + rows else ?k r) = (\<lambda>r. if in_group recStart cur r then rec + rows else k r)"
        using rs(1) assms(4,5) by (intro ext) auto
      ultimately have fin: "case fill_coeffs vc rows ?recFirst ?recLast rec rows (coeff, m') of (coeff', m1) \<Rightarrow>
          levels A vc n L (\<lambda>r. if in_group recStart cur r then rec + rows else k r)
            (invert_loop rows ?recFirst ?recLast rec rows rows coeff' m1)"
        by (simp only:)
      obtain coeff' m1 where fc: "fill_coeffs vc rows ?recFirst ?recLast rec rows (coeff, m') = (coeff', m1)"
        by (rule prod.exhaust)
      have "normalise_rows t vc rows recStart cur rec (coeff, m) =
          Inr (coeff', invert_loop rows ?recFirst ?recLast rec rows rows coeff' m1)"
        by (simp only: normalise_rows_def Let_def prod.case Inr sum.case False if_False fc)
      then show ?thesis using fin by (simp only: fc prod.case sum.case snd_conv)
    qed
  qed
qed

lemma normalise_group_levels:
  assumes "gfmat_ready t" "recStart + cur \<le> n" "rows \<in> {1, 2, 3, 4, 5, 6}" "cur = N * rows"
  shows "j \<le> N \<Longrightarrow> levels A vc n L (\<lambda>r. if in_group recStart cur r then recStart + j * rows else k r) (snd s) \<Longrightarrow>
    (case normalise_group t vc rows recStart cur (map (\<lambda>k. recStart + k * rows) [j..<N]) s of
      Inl bad \<Rightarrow> bad_row A vc n L bad
    | Inr s' \<Rightarrow> levels A vc n L (\<lambda>r. if in_group recStart cur r then recStart + cur else k r) (snd s'))"
proof (induction "N - j" arbitrary: j s)
  case 0
  then have "j = N" by simp
  then have "levels A vc n L (\<lambda>r. if in_group recStart cur r then recStart + cur else k r) (snd s)"
    by (intro levels_cong [OF "0.prems"(2)]) (simp add: assms(4))
  then show ?case using \<open>j = N\<close> by simp
next
  case (Suc d)
  then have j: "j < N" by simp
  then have up: "map (\<lambda>k. recStart + k * rows) [j..<N] = (recStart + j * rows) # map (\<lambda>k. recStart + k * rows) [Suc j..<N]"
    by (simp add: upt_conv_Cons)
  have "Suc j * rows \<le> cur" using j unfolding assms(4) by (intro mult_le_mono1) simp
  then have le: "recStart + j * rows + rows \<le> recStart + cur" by simp
  note nr = normalise_rows_levels [OF assms(1) Suc.prems(2) assms(2) _ le assms(3), of "fst s", unfolded prod.collapse]
  show ?case
  proof (cases "normalise_rows t vc rows recStart cur (recStart + j * rows) s")
    case (Inl bad)
    then show ?thesis using nr by (simp add: up)
  next
    case (Inr s')
    then have "levels A vc n L (\<lambda>r. if in_group recStart cur r then recStart + j * rows + rows else
        (if in_group recStart cur r then recStart + j * rows else k r)) (snd s')"
      using nr by simp
    then have "levels A vc n L (\<lambda>r. if in_group recStart cur r then recStart + Suc j * rows else k r) (snd s')"
      by (rule levels_cong) auto
    then show ?thesis using Suc.hyps(1) [of "Suc j" s'] Suc.hyps(2) j Inr by (simp add: up)
  qed
qed

section \<open>A group is applied\<close>

lemma target_size_props:
  assumes "recGroup < n" "0 < rowGroupSize" "recGroup \<noteq> recStart"
  shows "0 < target_size rowGroupSize n recStart recGroup" "recGroup + target_size rowGroupSize n recStart recGroup \<le> n"
    "recGroup < recStart \<Longrightarrow> recGroup + target_size rowGroupSize n recStart recGroup \<le> recStart"
  using assms by (auto simp: target_size_def Let_def)

lemma apply_groups_levels:
  assumes "recStart + cur \<le> n" "0 < rows" "cur mod rows = 0" "0 < cur" "0 < rowGroupSize"
  shows "recGroup \<le> recStart \<or> recStart + cur \<le> recGroup \<Longrightarrow>
    levels A vc n L (\<lambda>r. if r < recGroup \<or> in_group recStart cur r then recStart + cur else recStart) (snd s) \<Longrightarrow>
    \<exists>s'. apply_groups vc rows rowGroupSize n recStart cur recGroup s = Some s' \<and> levels A vc n L (\<lambda>_. recStart + cur) (snd s')"
proof (induction "n - recGroup" arbitrary: recGroup s rule: less_induct)
  case less
  show ?case
  proof (cases "recGroup < n")
    case False
    have "levels A vc n L (\<lambda>_. recStart + cur) (snd s)" by (rule levels_cong [OF less.prems(2)]) (use False in auto)
    then show ?thesis using False by (subst apply_groups.simps) simp
  next
    case True
    show ?thesis
    proof (cases "recGroup = recStart")
      case eq: True
      have "levels A vc n L (\<lambda>r. if r < recGroup + cur \<or> in_group recStart cur r then recStart + cur else recStart) (snd s)"
        by (rule levels_cong [OF less.prems(2)]) (use eq in auto)
      then show ?thesis
        using less.hyps [of "recGroup + cur" s] True eq assms(4) by (subst apply_groups.simps) auto
    next
      case False
      let ?size = "target_size rowGroupSize n recStart recGroup"
      note ts = target_size_props [OF True assms(5) False]
      let ?recLast = "recGroup + ?size"
      have out: "?recLast \<le> recStart \<or> recStart + cur \<le> recGroup" using less.prems(1) False ts(3) by auto
      let ?k = "\<lambda>r. if r < recGroup \<or> in_group recStart cur r then recStart + cur else recStart"
      obtain coeff m where s: "s = (coeff, m)" by (cases s)
      have f: "fill_targets recStart cur recGroup ?recLast = [recGroup..<?recLast]"
        by (rule fill_targets_upt) (use out assms(4) in auto)
      have i: "invert_targets (j * rows + recStart) rows recGroup ?recLast = [recGroup..<?recLast]" if "j < cur div rows" for j
      proof -
        have "Suc j * rows \<le> cur div rows * rows" using that by (intro mult_le_mono1) simp
        also have "\<dots> = cur" using assms(3) by (metis div_mult_mod_eq add.right_neutral)
        finally have j: "j * rows < cur" using assms(2) by simp
        have "invert_targets (j * rows + recStart) rows recGroup ?recLast = fill_targets (j * rows + recStart) rows recGroup ?recLast"
          by (rule invert_fill) (use out j ts(1) assms(2) in auto)
        also have "\<dots> = [recGroup..<?recLast]" by (rule fill_targets_upt) (use out j in auto)
        finally show ?thesis .
      qed
      have ap: "case fill_coeffs vc cur recGroup ?recLast recStart cur (coeff, m) of (coeff', m1) \<Rightarrow>
          levels A vc n L (\<lambda>r. if r \<in> set [recGroup..<?recLast] then recStart + cur else ?k r)
            (invert_loop rows recGroup ?recLast recStart cur cur coeff' m1)"
      proof (rule apply_levels [OF _ _ f])
        show "levels A vc n L ?k m" using less.prems(2) s by simp
        show "\<forall>r\<in>set [recGroup..<?recLast]. recGroup \<le> r \<and> r < n \<and> ?k r = recStart \<and> (r < recStart \<or> recStart + cur \<le> r)"
          using out ts(2) by auto
      qed (use assms i in auto)
      obtain coeff' m1 where fc: "fill_coeffs vc cur recGroup ?recLast recStart cur (coeff, m) = (coeff', m1)"
        by (rule prod.exhaust)
      let ?s = "(coeff', invert_loop rows recGroup ?recLast recStart cur cur coeff' m1)"
      have "levels A vc n L (\<lambda>r. if r < ?recLast \<or> in_group recStart cur r then recStart + cur else recStart) (snd ?s)"
        using ap unfolding fc prod.case snd_conv by (rule levels_cong) auto
      moreover have "?recLast \<le> recStart \<or> recStart + cur \<le> ?recLast" using out by auto
      ultimately have "\<exists>s'. apply_groups vc rows rowGroupSize n recStart cur ?recLast ?s = Some s' \<and> levels A vc n L (\<lambda>_. recStart + cur) (snd s')"
        using ts(1,2) True by (intro less.hyps) auto
      then show ?thesis
        using True False ts(1) fc s by (subst apply_groups.simps) (simp add: Let_def)
    qed
  qed
qed

end
