(* ===== verification/GFMat_Process.thy ===== *)
theory GFMat_Process
  imports GFMat_Groups RS_Singular
begin

text \<open>
  The groups of rows together: \<^verbatim>\<open>processRows\<close> takes all rows from one level to a higher one, the last pass with single
  rows reaches the end, and a bad row means that the exponents before it do not determine it.
\<close>

lemma sum_range_from: "(\<Sum>c\<in>{a..<a + n}. f c) = (\<Sum>j<n. f (a + j))" for f :: "nat \<Rightarrow> galois16"
  by (induction n) simp_all

lemma sum_split_at: "(\<Sum>c<a + n. f c) = (\<Sum>c<a. f c) + (\<Sum>j<n. f (a + j))" for f :: "nat \<Rightarrow> galois16"
  by (induction n) (simp_all add: add.assoc)

lemma group_size_props:
  assumes "0 < rows" "rows \<le> rowGroupSize" "rec \<le> n - rows" "rows \<le> n"
  shows "0 < group_size rows rowGroupSize n rec" "group_size rows rowGroupSize n rec mod rows = 0"
    "rec + group_size rows rowGroupSize n rec \<le> n"
proof -
  have 1: "0 < rowGroupSize div rows * rows" using assms(1,2) by (simp add: div_greater_zero_iff)
  have 2: "rows \<le> (n - rec) - (n - rec) mod rows"
  proof -
    have "rows \<le> n - rec" using assms(3,4) by simp
    then have "1 \<le> (n - rec) div rows" using assms(1) by (simp add: Suc_le_eq div_greater_zero_iff)
    then have "1 * rows \<le> (n - rec) div rows * rows" by (rule mult_le_mono1)
    then show ?thesis by (simp add: minus_mod_eq_div_mult)
  qed
  show "0 < group_size rows rowGroupSize n rec" using 1 2 assms(1) by (auto simp: group_size_def Let_def)
  show "group_size rows rowGroupSize n rec mod rows = 0"
    by (simp add: group_size_def Let_def minus_mod_eq_div_mult)
  show "rec + group_size rows rowGroupSize n rec \<le> n"
    using assms(3,4) mod_less_eq_dividend [of "n - rec" rows] unfolding group_size_def Let_def by (auto simp: not_less)
qed

lemma process_rows_levels:
  assumes "gfmat_ready t" "rows \<in> {1, 2, 3, 4, 5, 6}" "rows \<le> rowGroupSize" "rows \<le> n"
  shows "levels A vc n L (\<lambda>_. rec) (snd s) \<Longrightarrow> rec \<le> n \<Longrightarrow>
    \<exists>x. process_rows t vc rows rowGroupSize n rec s = Some x \<and>
      (case x of Inl bad \<Rightarrow> bad_row A vc n L bad
       | Inr (rec', s') \<Rightarrow> levels A vc n L (\<lambda>_. rec') (snd s') \<and> rec' \<le> n \<and> n < rec' + rows)"
proof (induction "Suc n - rec" arbitrary: rec s rule: less_induct)
  case less
  have rows: "0 < rows" using assms(2) by auto
  show ?case
  proof (cases "rec \<le> n - rows")
    case False
    then show ?thesis using less.prems assms(4) by (subst process_rows.simps) simp
  next
    case True
    let ?cur = "group_size rows rowGroupSize n rec"
    note gs = group_size_props [OF rows assms(3) True assms(4)]
    have dv: "?cur = ?cur div rows * rows" using gs(2) by (metis div_mult_mod_eq add.right_neutral)
    have "levels A vc n L (\<lambda>r. if in_group rec ?cur r then rec + 0 * rows else rec) (snd s)"
      by (rule levels_cong [OF less.prems(1)]) simp
    note ng = normalise_group_levels [OF assms(1) gs(3) assms(2) dv le0 this]
    let ?ng = "normalise_group t vc rows rec ?cur (map (\<lambda>k. rec + k * rows) [0..<?cur div rows]) s"
    show ?thesis
    proof (cases ?ng)
      case (Inl bad)
      then show ?thesis using ng True gs(1) by (subst process_rows.simps) (simp add: Let_def)
    next
      case (Inr s1)
      then have "levels A vc n L (\<lambda>r. if in_group rec ?cur r then rec + ?cur else rec) (snd s1)" using ng by simp
      then have "levels A vc n L (\<lambda>r. if r < 0 \<or> in_group rec ?cur r then rec + ?cur else rec) (snd s1)"
        by simp
      then obtain s2 where s2: "apply_groups vc rows rowGroupSize n rec ?cur 0 s1 = Some s2"
        "levels A vc n L (\<lambda>_. rec + ?cur) (snd s2)"
        using apply_groups_levels [OF gs(3) rows gs(2,1), of rowGroupSize 0 A vc L s1] rows assms(3) by auto
      have step: "process_rows t vc rows rowGroupSize n rec s = process_rows t vc rows rowGroupSize n (rec + ?cur) s2"
        using True gs(1) Inr s2(1) by (subst process_rows.simps) (simp add: Let_def)
      have "Suc n - (rec + ?cur) < Suc n - rec" using gs(1,3) less.prems(2) by linarith
      then show ?thesis unfolding step by (rule less.hyps [OF _ s2(2) gs(3)])
    qed
  qed
qed

lemma row_group_size_ge: "rows \<le> 6 \<Longrightarrow> rows \<le> gk_multiple k \<Longrightarrow> rows \<le> n \<Longrightarrow> rows \<le> row_group_size k n"
  unfolding row_group_size_def Let_def by auto

lemma invert_groups_levels:
  assumes "gfmat_ready t"
  shows "set sizes \<subseteq> {1, 2, 3, 4, 5, 6} \<Longrightarrow> levels A vc n L (\<lambda>_. rec) (snd s) \<Longrightarrow> rec \<le> n \<Longrightarrow>
    1 \<le> gk_multiple k \<Longrightarrow> 0 < n \<Longrightarrow> sizes = sizes' @ [1] \<Longrightarrow>
    \<exists>x. invert_groups k t vc n sizes rec s = Some x \<and>
      (case x of Inl bad \<Rightarrow> bad_row A vc n L bad | Inr m \<Rightarrow> levels A vc n L (\<lambda>_. n) m)"
proof (induction sizes arbitrary: rec s sizes')
  case (Cons rows sizes)
  show ?case
  proof (cases "rows \<le> gk_multiple k \<and> rows \<le> n")
    case False
    then obtain zs where "sizes = zs @ [1]" using Cons.prems(4-6) by (cases sizes') auto
    then show ?thesis using Cons.IH [OF _ Cons.prems(2-5)] Cons.prems(1) False by (auto simp: linorder_not_le)
  next
    case True
    have rows: "rows \<in> {1, 2, 3, 4, 5, 6}" "rows \<le> 6" using Cons.prems(1) by auto
    obtain x where x: "process_rows t vc rows (row_group_size k n) n rec s = Some x"
      "case x of Inl bad \<Rightarrow> bad_row A vc n L bad
       | Inr (rec', s') \<Rightarrow> levels A vc n L (\<lambda>_. rec') (snd s') \<and> rec' \<le> n \<and> n < rec' + rows"
      using process_rows_levels [OF assms rows(1) row_group_size_ge [OF rows(2)] _ Cons.prems(2,3)] True by blast
    show ?thesis
    proof (cases x)
      case (Inl bad)
      then show ?thesis using x True by simp
    next
      case (Inr y)
      obtain rec' s' where y: "y = (rec', s')" by (cases y)
      then have x': "levels A vc n L (\<lambda>_. rec') (snd s')" "rec' \<le> n" "n < rec' + rows" using x(2) Inr by simp_all
      show ?thesis
      proof (cases "sizes = []")
        case True': True
        then have "rec' = n" using Cons.prems(6) x'(2,3) by simp
        then show ?thesis using x True x' Inr y True' by simp
      next
        case False
        then obtain zs where zs: "sizes = zs @ [1]" using Cons.prems(6) by (cases sizes') auto
        have "invert_groups k t vc n (rows # sizes) rec s = invert_groups k t vc n sizes rec' s'"
          using x(1) True Inr y by simp
        then show ?thesis using Cons.IH [OF _ x'(1,2) Cons.prems(4,5) zs] Cons.prems(1) by simp
      qed
    qed
  qed
qed simp

section \<open>What a bad row means\<close>

definition unit_at :: "nat \<Rightarrow> nat \<Rightarrow> galois16" where
  "unit_at c c' = (if c' = c then 1 else 0)"

lemma recovered_unit: "c < w \<Longrightarrow> recovered A w r (unit_at c) = A r c"
  by (simp add: recovered_def unit_at_def if_distrib cong: if_cong)

text \<open>On the missing columns up to its own, a bad row is a combination of the rows before it.\<close>

lemma bad_row_combination:
  assumes "bad_row A vc n L r"
  shows "r < n \<and> (\<exists>b. \<forall>c\<le>r. A r (vc + c) = (\<Sum>j<r. b j * A j (vc + c)))"
proof -
  obtain k m where r: "r < n" and m: "levels A vc n L k m" "k r = r" "m ! r ! (vc + r) = 0"
    using assms unfolding bad_row_def by blast
  have at: "row_at A (vc + n) vc r r (m ! r)" using levels_rowD [OF m(1) r] m(2) by simp
  have "A r (vc + c) = (\<Sum>j<r. m ! r ! (vc + j) * A j (vc + c))" if c: "c \<le> r" for c
  proof -
    have "A r (vc + c) = row_value A (vc + n) vc r r (unit_at (vc + c))"
      using c r by (simp add: row_value_def recovered_unit)
    also have "\<dots> = (\<Sum>c'<vc + n. m ! r ! c' * mixed A (vc + n) vc r (unit_at (vc + c)) c')"
      by (rule row_atD [OF at])
    also have "\<dots> = (\<Sum>c'\<in>{vc..<vc + r}. m ! r ! c' * A (c' - vc) (vc + c))"
    proof (rule sum.mono_neutral_cong_right)
      show "\<forall>c'\<in>{..<vc + n} - {vc..<vc + r}. m ! r ! c' * mixed A (vc + n) vc r (unit_at (vc + c)) c' = 0"
      proof
        fix c' assume c': "c' \<in> {..<vc + n} - {vc..<vc + r}"
        show "m ! r ! c' * mixed A (vc + n) vc r (unit_at (vc + c)) c' = 0"
        proof (cases "c' = vc + c")
          case True
          then have "c' = vc + r" using c' c by auto
          then show ?thesis using m(3) by simp
        next
          case False
          then show ?thesis using c' by (auto simp: mixed_def unit_at_def)
        qed
      qed
      show "m ! r ! c' * mixed A (vc + n) vc r (unit_at (vc + c)) c' = m ! r ! c' * A (c' - vc) (vc + c)"
        if "c' \<in> {vc..<vc + r}" for c'
        using that c r by (auto simp: mixed_def recovered_unit)
    qed (use r in auto)
    also have "\<dots> = (\<Sum>j<r. m ! r ! (vc + j) * A j (vc + c))"
      unfolding sum_range_from by simp
    finally show ?thesis .
  qed
  then have "\<forall>c\<le>r. A r (vc + c) = (\<Sum>j<r. m ! r ! (vc + j) * A j (vc + c))" by (intro allI impI)
  then show ?thesis by (intro conjI [OF r] exI)
qed

text \<open>With consecutive exponents no row is bad: that combination would be a polynomial with too many roots.\<close>

lemma consecutive_not_bad:
  assumes "bad_row A vc n L r"
    and "\<And>j c. j < n \<Longrightarrow> c < n \<Longrightarrow> A j (vc + c) = x c ^ (e + j)"
    and "inj_on x {..<n}" "\<And>c. c < n \<Longrightarrow> x c \<noteq> 0"
  shows False
proof -
  obtain b where r: "r < n" and b: "\<And>c. c \<le> r \<Longrightarrow> A r (vc + c) = (\<Sum>j<r. b j * A j (vc + c))"
    using bad_row_combination [OF assms(1)] by blast
  let ?cs = "rev (map (\<lambda>j. - b j) [0..<r])"
  have "monic ?cs (x c) = 0" if "c \<le> r" for c
  proof -
    have "x c ^ e * x c ^ r = (\<Sum>j<r. b j * (x c ^ e * x c ^ j))"
      using b [OF that] assms(2) r that by (simp add: power_add)
    also have "\<dots> = x c ^ e * (\<Sum>j<r. b j * x c ^ j)" by (simp add: sum_distrib_left algebra_simps)
    finally have "x c ^ r = (\<Sum>j<r. b j * x c ^ j)" using assms(4) [of c] r that by simp
    then show ?thesis by (simp add: monic_sum sum_negf)
  qed
  then have "\<forall>y\<in>set (map x [0..<Suc r]). monic ?cs y = 0" by (auto simp: less_Suc_eq_le)
  moreover have "distinct (map x [0..<Suc r])"
    unfolding distinct_map using inj_on_subset [OF assms(3), of "{..<Suc r}"] r by (simp add: atLeast0LessThan del: upt_Suc)
  ultimately have "length (map x [0..<Suc r]) \<le> length ?cs" by (rule monic_roots [rotated])
  then show False by simp
qed

section \<open>The result of the elimination\<close>

text \<open>Once every row is at the end, the matrix gives each missing input from the valid ones and the recovery blocks.\<close>

lemma levels_end:
  assumes "levels A vc n L (\<lambda>_. n) m" "j < n"
  shows "d (vc + j) = (\<Sum>c<vc. m ! j ! c * d c) + (\<Sum>r<n. m ! j ! (vc + r) * recovered A (vc + n) r d)"
proof -
  have "d (vc + j) = (\<Sum>c<vc + n. m ! j ! c * mixed A (vc + n) vc n d c)"
    using levels_rowD [OF assms] assms(2) by (auto simp: row_at_def row_value_def)
  also have "\<dots> = (\<Sum>c<vc. m ! j ! c * mixed A (vc + n) vc n d c) + (\<Sum>r<n. m ! j ! (vc + r) * mixed A (vc + n) vc n d (vc + r))"
    by (rule sum_split_at)
  finally show ?thesis by (simp add: mixed_def)
qed

text \<open>The matrix as it is constructed is at the start.\<close>

lemma levels_start:
  assumes "vc + n \<le> L" "length m = n"
    and "\<And>r. r < n \<Longrightarrow> length (m ! r) = L \<and> (\<forall>c<vc + n. m ! r ! c = A r c)"
  shows "levels A vc n L (\<lambda>_. 0) m"
  unfolding levels_def
proof (intro conjI allI impI)
  fix r assume r: "r < n"
  have "mixed A (vc + n) vc 0 d = d" for d by (rule ext) (auto simp: mixed_def)
  then show "row_at A (vc + n) vc r 0 (m ! r)" using assms(3) [OF r] by (simp add: row_at_def row_value_def recovered_def)
qed (use assms in simp_all)

end
