(* ===== verification/GFMat_Construct.thy ===== *)
theory GFMat_Construct
  imports GFMat_Process
begin

text \<open>
  The matrix \<^verbatim>\<open>Construct\<close> fills: both ways of filling it give in every row and column the constant of the input block of
  the column raised to the exponent of the row.
\<close>

section \<open>The columns of the inputs\<close>

text \<open>The inputs in the order of their columns.\<close>

definition valid_inputs :: "bool list \<Rightarrow> nat list" where
  "valid_inputs inputs = filter (\<lambda>i. inputs ! i) [0..<length inputs]"

definition missing_inputs :: "bool list \<Rightarrow> nat list" where
  "missing_inputs inputs = filter (\<lambda>i. \<not> inputs ! i) [0..<length inputs]"

definition col_inputs :: "bool list \<Rightarrow> nat list" where
  "col_inputs inputs = valid_inputs inputs @ missing_inputs inputs"

lemma length_valid_inputs: "length (valid_inputs inputs) = length (filter id inputs)"
proof -
  have "filter id inputs = map (\<lambda>i. inputs ! i) (valid_inputs inputs)"
    unfolding valid_inputs_def by (subst (1) map_nth [symmetric]) (simp add: filter_map o_def)
  then show ?thesis by simp
qed

lemma length_col_inputs: "length (col_inputs inputs) = length inputs"
  using sum_length_filter_compl [of "\<lambda>i. inputs ! i" "[0..<length inputs]"]
  by (simp add: col_inputs_def valid_inputs_def missing_inputs_def)

lemma length_missing_inputs: "length (missing_inputs inputs) = length inputs - length (valid_inputs inputs)"
  using length_col_inputs [of inputs] by (simp add: col_inputs_def)

lemma distinct_col_inputs: "distinct (col_inputs inputs)"
  by (auto simp: col_inputs_def valid_inputs_def missing_inputs_def)

lemma set_col_inputs: "set (col_inputs inputs) = {..<length inputs}"
  by (auto simp: col_inputs_def valid_inputs_def missing_inputs_def)

lemma length_target_cols [simp]: "length (target_cols vcol mcol inputs) = length inputs"
  by (induction vcol mcol inputs rule: target_cols.induct) auto

lemma target_cols_nth: "i < length inputs \<Longrightarrow> target_cols vcol mcol inputs ! i =
    (if inputs ! i then vcol + length (filter id (take i inputs)) else mcol + length (filter Not (take i inputs)))"
proof (induction vcol mcol inputs arbitrary: i rule: target_cols.induct)
  case (2 vcol mcol valid inputs)
  then show ?case by (cases i) (auto simp: id_def)
qed simp

lemma filter_take_upt: "n \<le> length inputs \<Longrightarrow> length (filter P (take n inputs)) = length (filter (\<lambda>i. P (inputs ! i)) [0..<n])"
  by (induction n) (simp_all add: take_Suc_conv_app_nth)

lemma filter_upt_nth:
  assumes "i < N" "P i"
  shows "length (filter P [0..<i]) < length (filter P [0..<N]) \<and> filter P [0..<N] ! length (filter P [0..<i]) = i"
proof -
  have "[0..<N] = [0..<i] @ i # [Suc i..<N]" using assms(1) upt_add_eq_append [of 0 i "N - i"] by (simp add: upt_conv_Cons)
  then have "filter P [0..<N] = filter P [0..<i] @ i # filter P [Suc i..<N]" using assms(2) by simp
  then show ?thesis by simp
qed

lemma target_cols_col_inputs:
  assumes "i < length inputs" "length (filter id inputs) = vc"
  shows "target_cols 0 vc inputs ! i < length inputs \<and> col_inputs inputs ! (target_cols 0 vc inputs ! i) = i"
proof (cases "inputs ! i")
  case True
  have "target_cols 0 vc inputs ! i = length (filter (\<lambda>i. inputs ! i) [0..<i])"
    using assms(1) True filter_take_upt [of i inputs id] by (simp add: target_cols_nth)
  then show ?thesis using filter_upt_nth [OF assms(1), of "\<lambda>i. inputs ! i"] True length_col_inputs [of inputs]
    by (auto simp: col_inputs_def valid_inputs_def nth_append)
next
  case False
  have vc: "vc = length (valid_inputs inputs)" using length_valid_inputs assms(2) by simp
  have "target_cols 0 vc inputs ! i = length (valid_inputs inputs) + length (filter (\<lambda>i. \<not> inputs ! i) [0..<i])"
    using assms(1) False filter_take_upt [of i inputs Not] vc by (simp add: target_cols_nth)
  then show ?thesis using filter_upt_nth [OF assms(1), of "\<lambda>i. \<not> inputs ! i"] False length_col_inputs [of inputs]
    by (auto simp: col_inputs_def missing_inputs_def)
qed

lemma col_inputs_target:
  assumes "c < length inputs" "length (filter id inputs) = vc"
  shows "(col_inputs inputs ! c, c) \<in> set (enumerate 0 (target_cols 0 vc inputs))"
proof -
  let ?i = "col_inputs inputs ! c"
  have i: "?i < length inputs" using set_col_inputs [of inputs] assms(1) length_col_inputs [of inputs] nth_mem by fastforce
  note t = target_cols_col_inputs [OF i assms(2)]
  have "target_cols 0 vc inputs ! ?i = c"
    using t assms(1) distinct_col_inputs [of inputs] length_col_inputs [of inputs] by (metis nth_eq_iff_index_eq)
  then show ?thesis using i by (auto simp: in_set_enumerate_eq)
qed

lemma distinct_target_cols:
  assumes "length (filter id inputs) = vc"
  shows "distinct (target_cols 0 vc inputs)"
  unfolding distinct_conv_nth
proof (intro allI impI)
  fix i j assume i: "i < length (target_cols 0 vc inputs)" and j: "j < length (target_cols 0 vc inputs)" and "i \<noteq> j"
  then show "target_cols 0 vc inputs ! i \<noteq> target_cols 0 vc inputs ! j"
    using target_cols_col_inputs [OF _ assms, of i] target_cols_col_inputs [OF _ assms, of j] by auto
qed

section \<open>The rows by exponents\<close>

text \<open>Entries of rows that are set, column by column.\<close>

lemma fold_set_entry:
  assumes "set rows \<subseteq> {..<length m}"
  shows "length (fold (\<lambda>r. set_entry r c (v r)) rows m) = length m \<and>
    (\<forall>r. length (fold (\<lambda>r. set_entry r c (v r)) rows m ! r) = length (m ! r)) \<and>
    (\<forall>r c'. fold (\<lambda>r. set_entry r c (v r)) rows m ! r ! c' =
      (if r \<in> set rows \<and> c' = c \<and> c < length (m ! r) then v r else m ! r ! c'))"
  using assms
proof (induction rows arbitrary: m)
  case (Cons r rows)
  have n: "set_entry r c (v r) m ! r' = (if r' = r then (m ! r)[c := v r] else m ! r')" for r'
    using Cons.prems by (simp add: set_entry_nth)
  have l: "length (set_entry r c (v r) m ! r') = length (m ! r')" for r' by (simp add: n)
  have e: "set_entry r c (v r) m ! r' ! c' = (if r' = r \<and> c' = c \<and> c < length (m ! r) then v r else m ! r' ! c')" for r' c'
    by (cases "c < length (m ! r)") (simp_all add: n nth_list_update list_update_beyond)
  have ih: "length (fold (\<lambda>r. set_entry r c (v r)) rows (set_entry r c (v r) m)) = length m"
    "\<And>r'. length (fold (\<lambda>r. set_entry r c (v r)) rows (set_entry r c (v r) m) ! r') = length (m ! r')"
    "\<And>r' c'. fold (\<lambda>r. set_entry r c (v r)) rows (set_entry r c (v r) m) ! r' ! c' =
      (if r' \<in> set rows \<and> c' = c \<and> c < length (m ! r') then v r' else set_entry r c (v r) m ! r' ! c')"
    using Cons.IH [of "set_entry r c (v r) m"] Cons.prems unfolding l by auto
  show ?case using ih e by auto
qed simp

definition set_columns :: "nat list \<Rightarrow> (nat \<Rightarrow> nat \<Rightarrow> galois16) \<Rightarrow> (nat \<times> nat) list \<Rightarrow> gmat \<Rightarrow> gmat" where
  "set_columns rows v ps m = fold (\<lambda>p m. fold (\<lambda>r. set_entry r (snd p) (v (fst p) r)) rows m) ps m"

lemma set_columns_simps:
  "set_columns rows v [] m = m"
  "set_columns rows v (p # ps) m = set_columns rows v ps (fold (\<lambda>r. set_entry r (snd p) (v (fst p) r)) rows m)"
  by (simp_all add: set_columns_def)

lemma set_columns_spec:
  "set rows \<subseteq> {..<length m} \<Longrightarrow> distinct (map snd ps) \<Longrightarrow>
    length (set_columns rows v ps m) = length m \<and> (\<forall>r. length (set_columns rows v ps m ! r) = length (m ! r)) \<and>
    (\<forall>r c. r \<notin> set rows \<longrightarrow> set_columns rows v ps m ! r ! c = m ! r ! c) \<and>
    (\<forall>r c. c \<notin> set (map snd ps) \<longrightarrow> set_columns rows v ps m ! r ! c = m ! r ! c) \<and>
    (\<forall>r i c. r \<in> set rows \<longrightarrow> (i, c) \<in> set ps \<longrightarrow> c < length (m ! r) \<longrightarrow> set_columns rows v ps m ! r ! c = v i r)"
proof (induction ps arbitrary: m)
  case Nil
  then show ?case by (simp add: set_columns_simps)
next
  case (Cons p ps)
  let ?m = "fold (\<lambda>r. set_entry r (snd p) (v (fst p) r)) rows m"
  let ?m' = "set_columns rows v ps ?m"
  note f = fold_set_entry [OF Cons.prems(1), of "snd p" "v (fst p)"]
  have l: "length ?m = length m" and lr: "\<And>r. length (?m ! r) = length (m ! r)"
    and e: "\<And>r c'. ?m ! r ! c' = (if r \<in> set rows \<and> c' = snd p \<and> snd p < length (m ! r) then v (fst p) r else m ! r ! c')"
    using f by blast+
  have d: "snd p \<notin> set (map snd ps)" "distinct (map snd ps)" using Cons.prems(2) by simp_all
  have "set rows \<subseteq> {..<length ?m}" using Cons.prems(1) l by simp
  note ih = Cons.IH [OF this d(2), unfolded l lr]
  have ih3: "\<And>r c. r \<notin> set rows \<Longrightarrow> ?m' ! r ! c = ?m ! r ! c"
    and ih4: "\<And>r c. c \<notin> set (map snd ps) \<Longrightarrow> ?m' ! r ! c = ?m ! r ! c"
    and ih5: "\<And>r i c. r \<in> set rows \<Longrightarrow> (i, c) \<in> set ps \<Longrightarrow> c < length (m ! r) \<Longrightarrow> ?m' ! r ! c = v i r"
    using ih by blast+
  show ?case unfolding set_columns_simps
  proof (intro conjI allI impI)
    show "length ?m' = length m" "length (?m' ! r) = length (m ! r)" for r using ih by blast+
    show "?m' ! r ! c = m ! r ! c" if "r \<notin> set rows" for r c using ih3 [OF that] e that by simp
    show "?m' ! r ! c = m ! r ! c" if "c \<notin> set (map snd (p # ps))" for r c using ih4 [of c r] e that by simp
    show "?m' ! r ! c = v i r" if "r \<in> set rows" "(i, c) \<in> set (p # ps)" "c < length (m ! r)" for r i c
    proof (cases "(i, c) = p")
      case True
      then have "fst p = i" "snd p = c" by auto
      then show ?thesis using ih4 [OF d(1), of r] e [of r c] that by simp
    next
      case False
      then show ?thesis using ih5 [OF that(1) _ that(3), of i] that(2) by simp
    qed
  qed
qed

section \<open>What is constructed\<close>

definition matrix_entry :: "bool list \<Rightarrow> u16 list \<Rightarrow> nat \<Rightarrow> nat \<Rightarrow> galois16" where
  "matrix_entry inputs recovery r c = par2_constant (col_inputs inputs ! c) ^ unat (recovery ! r)"

definition constructed :: "bool list \<Rightarrow> u16 list \<Rightarrow> nat \<Rightarrow> galois16 list \<Rightarrow> bool" where
  "constructed inputs recovery r row \<longleftrightarrow> (\<forall>c<length inputs. row ! c = matrix_entry inputs recovery r c)"

lemma construct_via_exp_spec:
  assumes "gfmat_ready t" "length (filter id inputs) = vc" "length inputs \<le> 32768"
    and "set rows \<subseteq> {..<length m}" "\<forall>r<length m. length (m ! r) = L" "length inputs \<le> L"
  shows "\<exists>m'. construct_via_exp t inputs vc recovery rows m = Some m' \<and> length m' = length m \<and>
    (\<forall>r<length m. length (m' ! r) = L) \<and>
    (\<forall>r\<in>set rows. constructed inputs recovery r (m' ! r)) \<and>
    (\<forall>r c. r \<notin> set rows \<longrightarrow> m' ! r ! c = m ! r ! c)"
proof -
  let ?v = "\<lambda>i r. Galois16 (gfmat_coeff_from_log t (gfmat_input_log t (word_of_nat i)) (recovery ! r))"
  let ?ps = "enumerate 0 (target_cols 0 vc inputs)"
  let ?m = "set_columns rows ?v ?ps m"
  have "construct_input t recovery rows = (\<lambda>p m. fold (\<lambda>r. set_entry r (snd p) (?v (fst p) r)) rows m)"
    by (intro ext) (simp add: construct_input_def Let_def split: prod.splits)
  then have eq: "construct_via_exp t inputs vc recovery rows m = Some ?m"
    by (simp add: construct_via_exp_def assms(2) set_columns_def)
  have "distinct (map snd ?ps)" using distinct_target_cols [OF assms(2)] by simp
  note f = set_columns_spec [OF assms(4) this, of ?v]
  have l: "length ?m = length m" "\<And>r. length (?m ! r) = length (m ! r)"
    and o: "\<And>r c. r \<notin> set rows \<Longrightarrow> ?m ! r ! c = m ! r ! c"
    and e: "\<And>r i c. r \<in> set rows \<Longrightarrow> (i, c) \<in> set ?ps \<Longrightarrow> c < length (m ! r) \<Longrightarrow> ?m ! r ! c = ?v i r"
    using f by blast+
  have "constructed inputs recovery r (?m ! r)" if r: "r \<in> set rows" for r
    unfolding constructed_def
  proof (intro allI impI)
    fix c assume c: "c < length inputs"
    let ?i = "col_inputs inputs ! c"
    have i: "?i < length inputs" using set_col_inputs [of inputs] c length_col_inputs [of inputs] nth_mem by fastforce
    then have i': "unat (word_of_nat ?i :: u32) = ?i" using assms(3) by (simp add: unat_of_nat)
    have "?m ! r ! c = ?v ?i r"
      by (rule e [OF r col_inputs_target [OF c assms(2)]]) (use r c assms(4-6) in auto)
    also have "\<dots> = Galois16 (gfmat_coeff t (word_of_nat ?i) (recovery ! r))" by (simp add: gfmat_coeff_def)
    also have "\<dots> = matrix_entry inputs recovery r c"
      using gfmat_coeff_eq [OF assms(1), of "word_of_nat ?i"] i i' assms(3) by (simp add: matrix_entry_def)
    finally show "?m ! r ! c = matrix_entry inputs recovery r c" .
  qed
  then show ?thesis using eq l o assms(5) by (intro exI [of _ ?m]) auto
qed

section \<open>The rows by multiplication\<close>

lemma rec_skips_ge: "length acc \<le> length (rec_skips recovery ms l recs acc)"
  by (induction recovery ms l recs acc rule: rec_skips.induct) (auto simp: Let_def)

text \<open>A search that was not given up found every row that does not follow.\<close>

lemma rec_skips_set:
  "length (rec_skips recovery ms (recovery ! (a - 1)) [a..<n] acc) < ms \<Longrightarrow> 0 < a \<Longrightarrow>
    set (rec_skips recovery ms (recovery ! (a - 1)) [a..<n] acc) =
      set acc \<union> {r. a \<le> r \<and> r < n \<and> skipped_row recovery r (recovery ! (r - 1))}"
proof (induction "n - a" arbitrary: a acc)
  case 0
  then show ?case by auto
next
  case (Suc d)
  then have up: "[a..<n] = a # [Suc a..<n]" by (simp add: upt_conv_Cons)
  note ih = Suc.hyps(1) [of "Suc a", simplified]
  have split: "{r. a \<le> r \<and> r < n \<and> skipped_row recovery r (recovery ! (r - 1))} =
      (if skipped_row recovery a (recovery ! (a - 1)) then {a} else {}) \<union>
      {r. Suc a \<le> r \<and> r < n \<and> skipped_row recovery r (recovery ! (r - 1))}"
    using Suc.hyps(2) by (auto simp: Suc_le_eq order_le_less)
  show ?case
  proof (cases "skipped_row recovery a (recovery ! (a - 1))")
    case True
    then have "rec_skips recovery ms (recovery ! (a - 1)) [a..<n] acc = rec_skips recovery ms (recovery ! a) [Suc a..<n] (acc @ [a])"
      using Suc.prems(1) unfolding up by (simp add: Let_def split: if_splits)
    then show ?thesis using ih [of "acc @ [a]"] Suc.prems Suc.hyps(2) True unfolding split by simp
  next
    case False
    then have "rec_skips recovery ms (recovery ! (a - 1)) [a..<n] acc = rec_skips recovery ms (recovery ! a) [Suc a..<n] acc"
      unfolding up by simp
    then show ?thesis using ih [of acc] Suc.prems Suc.hyps(2) False unfolding split by simp
  qed
qed

lemma constructed_mul:
  assumes "constructed inputs recovery s (m ! s)" "recovery ! s = 1" "constructed inputs recovery (r - 1) (m ! (r - 1))"
    and "\<not> skipped_row recovery r (recovery ! (r - 1))" "length inputs \<le> length (m ! s)" "length inputs \<le> length (m ! (r - 1))"
  shows "constructed inputs recovery r (map2 (*) (m ! s) (m ! (r - 1)))"
  using assms by (auto simp: constructed_def matrix_entry_def skipped_row_def)

lemma construct_via_mul_spec:
  assumes "recovery ! s = 1" "s < n" "length inputs \<le> L"
  shows "s < a \<Longrightarrow> length m = n \<Longrightarrow> \<forall>r<n. length (m ! r) = L \<Longrightarrow>
    \<forall>r<n. r < a \<or> skipped_row recovery r (recovery ! (r - 1)) \<longrightarrow> constructed inputs recovery r (m ! r) \<Longrightarrow>
    length (construct_via_mul recovery s (recovery ! (a - 1)) [a..<n] m) = n \<and>
    (\<forall>r<n. length (construct_via_mul recovery s (recovery ! (a - 1)) [a..<n] m ! r) = L \<and>
      constructed inputs recovery r (construct_via_mul recovery s (recovery ! (a - 1)) [a..<n] m ! r))"
proof (induction "n - a" arbitrary: a m)
  case 0
  then show ?case by simp
next
  case (Suc d)
  then have a: "a < n" and up: "[a..<n] = a # [Suc a..<n]" by (simp_all add: upt_conv_Cons)
  let ?m = "if skipped_row recovery a (recovery ! (a - 1)) then m else m[a := map2 (*) (m ! s) (m ! (a - 1))]"
  have step: "construct_via_mul recovery s (recovery ! (a - 1)) [a..<n] m =
      construct_via_mul recovery s (recovery ! (Suc a - 1)) [Suc a..<n] ?m"
    unfolding up by simp
  have l: "\<forall>r<n. length (?m ! r) = L" using Suc.prems(1-3) a by (auto simp: nth_list_update)
  have c: "constructed inputs recovery r (m ! r)" if "r < a" for r using that a Suc.prems(4) by simp
  have "constructed inputs recovery a (?m ! a)"
  proof (cases "skipped_row recovery a (recovery ! (a - 1))")
    case True
    then show ?thesis using Suc.prems(4) a by simp
  next
    case False
    have "constructed inputs recovery a (map2 (*) (m ! s) (m ! (a - 1)))"
      by (rule constructed_mul [OF c assms(1) c False]) (use Suc.prems(1,3) a assms(3) in auto)
    then show ?thesis using False a Suc.prems(2) by simp
  qed
  moreover have "?m ! r = m ! r" if "r \<noteq> a" for r using that by simp
  ultimately have "\<forall>r<n. r < Suc a \<or> skipped_row recovery r (recovery ! (r - 1)) \<longrightarrow> constructed inputs recovery r (?m ! r)"
    using Suc.prems(4) by (metis less_antisym)
  then show ?case unfolding step using Suc.hyps Suc.prems(1,2) l a by (intro Suc.hyps(1)) auto
qed

text \<open>The two ways together.\<close>

lemma gfmat_construct_spec:
  assumes "gfmat_ready t" "length (filter id inputs) = vc" "length inputs \<le> 32768" "length inputs \<le> L"
    and "0 < numRec" "numRec \<le> length recovery" "length m = numRec" "\<forall>r<numRec. length (m ! r) = L"
  shows "\<exists>m'. gfmat_construct k t inputs vc numRec recovery m = Some m' \<and> length m' = numRec \<and>
    (\<forall>r<numRec. length (m' ! r) = L \<and> constructed inputs recovery r (m' ! r))"
proof -
  define fst0 where "fst0 = (if recovery ! 0 = 0 then 1 else 0 :: nat)"
  define m0 where "m0 = (if recovery ! 0 = 0 then m[0 := replicate (length (m ! 0)) 1] else m)"
  have m0: "length m0 = numRec" "\<forall>r<numRec. length (m0 ! r) = L" "\<forall>r<fst0. constructed inputs recovery r (m0 ! r)"
    using assms(4,5,7,8) by (auto simp: m0_def fst0_def nth_list_update constructed_def matrix_entry_def)
  have exp: "\<exists>m'. construct_via_exp t inputs vc recovery rows m0 = Some m' \<and> length m' = numRec \<and>
      (\<forall>r<numRec. length (m' ! r) = L) \<and> (\<forall>r. r < fst0 \<or> r \<in> set rows \<longrightarrow> constructed inputs recovery r (m' ! r))"
    if rows: "set rows \<subseteq> {fst0..<numRec}" for rows
  proof -
    have "set rows \<subseteq> {..<length m0}" using rows m0(1) by auto
    from construct_via_exp_spec [OF assms(1-3) this _ assms(4), of recovery] m0
    obtain m' where m': "construct_via_exp t inputs vc recovery rows m0 = Some m'" "length m' = numRec"
      "\<forall>r<numRec. length (m' ! r) = L" "\<forall>r\<in>set rows. constructed inputs recovery r (m' ! r)"
      "\<forall>r c. r \<notin> set rows \<longrightarrow> m' ! r ! c = m0 ! r ! c" by auto
    have "constructed inputs recovery r (m' ! r)" if "r < fst0" for r
    proof -
      have "r \<notin> set rows" using that rows by auto
      then show ?thesis using m0(3) that m'(5) unfolding constructed_def by auto
    qed
    then show ?thesis using m' by blast
  qed
  have all: "\<exists>m'. construct_via_exp t inputs vc recovery [fst0..<numRec] m0 = Some m' \<and> length m' = numRec \<and>
      (\<forall>r<numRec. length (m' ! r) = L \<and> constructed inputs recovery r (m' ! r))"
  proof -
    obtain m' where m': "construct_via_exp t inputs vc recovery [fst0..<numRec] m0 = Some m'" "length m' = numRec"
      "\<forall>r<numRec. length (m' ! r) = L" "\<forall>r. r < fst0 \<or> r \<in> set [fst0..<numRec] \<longrightarrow> constructed inputs recovery r (m' ! r)"
      using exp [of "[fst0..<numRec]"] by auto
    have "r < fst0 \<or> r \<in> set [fst0..<numRec]" if "r < numRec" for r using that by (cases "r < fst0") auto
    then show ?thesis using m' by blast
  qed
  show ?thesis
  proof (cases "fst0 \<ge> length recovery")
    case True
    then have "gfmat_construct k t inputs vc numRec recovery m = Some m0"
      unfolding gfmat_construct_def Let_def m0_def fst0_def by (rule if_P)
    then show ?thesis using m0 True assms(6) by auto
  next
    case F: False
    let ?sk = "rec_skips recovery (numRec div 2) 1 [fst0 + 1..<numRec] [fst0]"
    have eq: "gfmat_construct k t inputs vc numRec recovery m =
       (if recovery ! fst0 = 1 \<and> gk_fastmul k \<and> length ?sk < numRec div 2
        then map_option (construct_via_mul recovery fst0 1 [fst0 + 1..<numRec]) (construct_via_exp t inputs vc recovery ?sk m0)
        else construct_via_exp t inputs vc recovery [fst0..<numRec] m0)"
      using F unfolding gfmat_construct_def Let_def m0_def [symmetric] fst0_def [symmetric] by (simp only: if_False split: if_split) blast
    show ?thesis
    proof (cases "recovery ! fst0 = 1 \<and> gk_fastmul k \<and> length ?sk < numRec div 2")
      case False
      then show ?thesis unfolding eq using all by (simp only: if_False)
    next
      case True
      then have one: "recovery ! fst0 = 1" and sh: "length ?sk < numRec div 2" by blast+
      have "length [fst0] \<le> length ?sk" by (rule rec_skips_ge)
      then have "1 < numRec div 2" using sh by simp
      then have "1 < numRec" by linarith
      then have s: "fst0 < numRec" by (simp add: fst0_def)
      have sk: "set ?sk = {fst0} \<union> {r. fst0 + 1 \<le> r \<and> r < numRec \<and> skipped_row recovery r (recovery ! (r - 1))}"
        using rec_skips_set [of recovery "numRec div 2" "fst0 + 1" numRec "[fst0]"] one sh by (simp only: add_diff_cancel_right') simp
      then have "set ?sk \<subseteq> {fst0..<numRec}" using s by auto
      from exp [OF this] obtain m1 where m1: "construct_via_exp t inputs vc recovery ?sk m0 = Some m1" "length m1 = numRec"
        "\<forall>r<numRec. length (m1 ! r) = L" "\<forall>r. r < fst0 \<or> r \<in> set ?sk \<longrightarrow> constructed inputs recovery r (m1 ! r)" by blast
      have c: "\<forall>r<numRec. r < fst0 + 1 \<or> skipped_row recovery r (recovery ! (r - 1)) \<longrightarrow> constructed inputs recovery r (m1 ! r)"
      proof (intro allI impI)
        fix r assume "r < numRec" "r < fst0 + 1 \<or> skipped_row recovery r (recovery ! (r - 1))"
        then have "r < fst0 \<or> r \<in> set ?sk" unfolding sk by (cases "r < fst0"; cases "r = fst0") auto
        then show "constructed inputs recovery r (m1 ! r)" using m1(4) by blast
      qed
      have "fst0 < fst0 + 1" by simp
      from construct_via_mul_spec [OF one s assms(4) this m1(2,3) c]
      show ?thesis unfolding eq if_P [OF True] m1(1) using one by simp
    qed
  qed
qed

end
