(* ===== verification/GFMat_Correct.thy ===== *)
theory GFMat_Correct
  imports GFMat_Construct "HOL-Library.Multiset"
begin

text \<open>
  What \<^verbatim>\<open>Galois16RecMatrix::Compute\<close> returns: it always ends, the matrix it gives restores the missing inputs from the
  valid ones and the recovery blocks it kept, and consecutive exponents never fail.
\<close>

lemma col_inputs_bij: "bij_betw ((!) (col_inputs inputs)) {..<length inputs} {..<length inputs}"
  by (rule bij_betw_nth) (simp_all add: distinct_col_inputs length_col_inputs set_col_inputs)

text \<open>The sum over the columns is the sum over the inputs.\<close>

lemma recovered_inputs:
  "recovered (matrix_entry inputs recovery) (length inputs) r (\<lambda>c. d (col_inputs inputs ! c)) =
    (\<Sum>i<length inputs. par2_constant i ^ unat (recovery ! r) * d i)"
  unfolding recovered_def matrix_entry_def
  by (rule sum.reindex_bij_betw [OF col_inputs_bij, of "\<lambda>i. par2_constant i ^ unat (recovery ! r) * d i"])

text \<open>One attempt of \<^verbatim>\<open>Compute\<close>.\<close>

lemma construct_invert:
  assumes "gfmat_ready t" "length (filter id inputs) = vc" "length inputs \<le> 32768" "length inputs \<le> L"
    and "vc < length inputs" "1 \<le> gk_multiple k" "n = length inputs - vc" "n \<le> length recovery"
    and "length (snd s) = n" "\<forall>r<n. length (snd s ! r) = L"
  shows "\<exists>m x. gfmat_construct k t inputs vc n recovery (snd s) = Some m \<and> length m = n \<and> (\<forall>r<n. length (m ! r) = L) \<and>
    invert_groups k t vc n [6, 5, 4, 3, 2, 1] 0 (fst s, m) = Some x \<and>
    (case x of Inl bad \<Rightarrow> bad_row (matrix_entry inputs recovery) vc n L bad
     | Inr m' \<Rightarrow> levels (matrix_entry inputs recovery) vc n L (\<lambda>_. n) m')"
proof -
  have n: "0 < n" "vc + n = length inputs" using assms(5,7) by simp_all
  obtain m where m: "gfmat_construct k t inputs vc n recovery (snd s) = Some m" "length m = n"
    "\<forall>r<n. length (m ! r) = L \<and> constructed inputs recovery r (m ! r)"
    using gfmat_construct_spec [OF assms(1-4) n(1) assms(8-10)] by blast
  have "levels (matrix_entry inputs recovery) vc n L (\<lambda>_. 0) (snd (fst s, m))"
    using m(2,3) n(2) assms(4) by (intro levels_start) (auto simp: constructed_def)
  from invert_groups_levels [OF assms(1) _ this _ assms(6) n(1), of "[6, 5, 4, 3, 2, 1]" "[6, 5, 4, 3, 2]"]
  show ?thesis using m by auto
qed

lemma remove_nth_mset: "i < length xs \<Longrightarrow> mset (take i xs @ drop (Suc i) xs) \<subseteq># mset xs"
  by (subst (3) id_take_nth_drop [of i xs]) auto

lemma remove_nth_sorted: "i < length xs \<Longrightarrow> sorted xs \<Longrightarrow> sorted (take i xs @ drop (Suc i) xs)"
  by (subst (asm) (2) id_take_nth_drop [of i xs]) (auto simp: sorted_append)

lemma compute_loop_levels:
  assumes "gfmat_ready t" "length (filter id inputs) = vc" "length inputs \<le> 32768" "length inputs \<le> L"
    and "vc < length inputs" "1 \<le> gk_multiple k" "n = length inputs - vc"
  shows "length (snd s) = n \<Longrightarrow> \<forall>r<n. length (snd s ! r) = L \<Longrightarrow> sorted recovery \<Longrightarrow>
    \<exists>ok rec m. compute_loop k t inputs vc n recovery s = Some (ok, if ok then take n rec else rec, m) \<and>
      mset rec \<subseteq># mset recovery \<and> sorted rec \<and>
      (if ok then n \<le> length rec \<and> levels (matrix_entry inputs rec) vc n L (\<lambda>_. n) m else length rec < n)"
proof (induction "length recovery" arbitrary: recovery s rule: less_induct)
  case less
  show ?case
  proof (cases "n \<le> length recovery")
    case False
    then have "compute_loop k t inputs vc n recovery s = Some (False, recovery, [])" by (subst compute_loop.simps) simp
    then show ?thesis using False less.prems(3)
      by (intro exI [of _ False] exI [of _ recovery] exI [of _ "[]"]) simp
  next
    case True
    from construct_invert [OF assms True less.prems(1,2)] obtain m x where
      m: "gfmat_construct k t inputs vc n recovery (snd s) = Some m" "length m = n" "\<forall>r<n. length (m ! r) = L"
      and x: "invert_groups k t vc n [6, 5, 4, 3, 2, 1] 0 (fst s, m) = Some x"
        "case x of Inl bad \<Rightarrow> bad_row (matrix_entry inputs recovery) vc n L bad
         | Inr m' \<Rightarrow> levels (matrix_entry inputs recovery) vc n L (\<lambda>_. n) m'"
      by blast
    show ?thesis
    proof (cases x)
      case (Inr m')
      then have "compute_loop k t inputs vc n recovery s = Some (True, take n recovery, m')"
        using True m x(1) by (subst compute_loop.simps) simp
      then show ?thesis using x(2) Inr True less.prems(3)
        by (intro exI [of _ True] exI [of _ recovery] exI [of _ m']) simp
    next
      case (Inl bad)
      then have bad: "bad < length recovery" using x(2) True by (simp add: bad_row_def)
      let ?rec = "take bad recovery @ drop (Suc bad) recovery"
      have step: "compute_loop k t inputs vc n recovery s = compute_loop k t inputs vc n ?rec (fst s, m)"
        using True m x(1) Inl bad by (subst compute_loop.simps) simp
      have "length ?rec < length recovery" using bad by simp
      from less.hyps [OF this _ _ remove_nth_sorted [OF bad less.prems(3)], of "(fst s, m)"] m(2,3)
      obtain ok rec m' where r: "compute_loop k t inputs vc n ?rec (fst s, m) = Some (ok, if ok then take n rec else rec, m')"
        "mset rec \<subseteq># mset ?rec" "sorted rec"
        "if ok then n \<le> length rec \<and> levels (matrix_entry inputs rec) vc n L (\<lambda>_. n) m' else length rec < n"
        by auto
      have "mset rec \<subseteq># mset recovery" using r(2) remove_nth_mset [OF bad] by (rule subset_mset.order_trans)
      then show ?thesis unfolding step using r(1,3,4) by blast
    qed
  qed
qed

text \<open>Consecutive exponents are taken at the first attempt.\<close>

lemma compute_loop_consecutive:
  assumes "gfmat_ready t" "length (filter id inputs) = vc" "length inputs \<le> 32768" "length inputs \<le> L"
    and "vc < length inputs" "1 \<le> gk_multiple k" "n = length inputs - vc" "n \<le> length recovery"
    and "length (snd s) = n" "\<forall>r<n. length (snd s ! r) = L" "\<forall>j<n. unat (recovery ! j) = e + j"
  shows "\<exists>m. compute_loop k t inputs vc n recovery s = Some (True, take n recovery, m) \<and>
    levels (matrix_entry inputs recovery) vc n L (\<lambda>_. n) m"
proof -
  from construct_invert [OF assms(1-10)] obtain m x where
    m: "gfmat_construct k t inputs vc n recovery (snd s) = Some m" "length m = n" "\<forall>r<n. length (m ! r) = L"
    and x: "invert_groups k t vc n [6, 5, 4, 3, 2, 1] 0 (fst s, m) = Some x"
      "case x of Inl bad \<Rightarrow> bad_row (matrix_entry inputs recovery) vc n L bad
       | Inr m' \<Rightarrow> levels (matrix_entry inputs recovery) vc n L (\<lambda>_. n) m'"
    by blast
  have n: "vc + n = length inputs" using assms(5,7) by simp
  have "\<not> bad_row (matrix_entry inputs recovery) vc n L bad" for bad
  proof
    assume b: "bad_row (matrix_entry inputs recovery) vc n L bad"
    let ?x = "\<lambda>c. par2_constant (col_inputs inputs ! (vc + c))"
    have i: "inj_on ?x {..<n}"
    proof (rule inj_onI)
      fix c c' assume c: "c \<in> {..<n}" "c' \<in> {..<n}" and eq: "?x c = ?x c'"
      have "col_inputs inputs ! (vc + c) \<in> {..<length inputs}" "col_inputs inputs ! (vc + c') \<in> {..<length inputs}"
        using c n unfolding set_col_inputs [symmetric] by (auto simp: length_col_inputs)
      then have "col_inputs inputs ! (vc + c) \<in> {..<32768}" "col_inputs inputs ! (vc + c') \<in> {..<32768}"
        using assms(3) by auto
      from inj_onD [OF par2_constant_inj eq this]
      show "c = c'" using c n nth_eq_iff_index_eq [OF distinct_col_inputs, of "vc + c" inputs "vc + c'"]
        by (simp add: length_col_inputs)
    qed
    have "matrix_entry inputs recovery j (vc + c) = ?x c ^ (e + j)" if "j < n" "c < n" for j c
      using assms(11) that by (simp add: matrix_entry_def)
    from consecutive_not_bad [OF b this i] show False by simp
  qed
  then obtain m' where "x = Inr m'" using x(2) by (cases x) auto
  then show ?thesis using m x assms(8) by (subst compute_loop.simps) simp
qed

text \<open>The matrix restores the missing inputs.\<close>

lemma levels_restore:
  assumes "levels (matrix_entry inputs rec) vc n L (\<lambda>_. n) m" "vc = length (valid_inputs inputs)" "vc < length inputs"
    and "n = length inputs - vc" "j < n"
  shows "d (missing_inputs inputs ! j) = (\<Sum>c<vc. m ! j ! c * d (valid_inputs inputs ! c)) +
    (\<Sum>r<n. m ! j ! (vc + r) * (\<Sum>i<length inputs. par2_constant i ^ unat (rec ! r) * d i))"
proof -
  have n: "vc + n = length inputs" using assms(3,4) by simp
  have "col_inputs inputs ! (vc + j) = missing_inputs inputs ! j" by (simp add: col_inputs_def assms(2))
  moreover have "col_inputs inputs ! c = valid_inputs inputs ! c" if "c < vc" for c
    using that by (simp add: col_inputs_def assms(2) nth_append)
  ultimately show ?thesis
    using levels_end [OF assms(1,5), of "\<lambda>c. d (col_inputs inputs ! c)"] unfolding n recovered_inputs by simp
qed

text \<open>The result of \<^verbatim>\<open>Compute\<close>.\<close>

definition compute_result :: "bool list \<Rightarrow> nat \<Rightarrow> nat \<Rightarrow> u16 list \<Rightarrow> (bool \<times> u16 list \<times> gmat) option \<Rightarrow> bool" where
  "compute_result inputs vc n recovery x \<longleftrightarrow>
     (\<exists>ok rec m. x = Some (ok, rec, m) \<and> mset rec \<subseteq># mset recovery \<and>
        (if ok then length rec = n \<and> sorted rec \<and>
           (\<forall>d. \<forall>j<n. d (missing_inputs inputs ! j) = (\<Sum>c<vc. m ! j ! c * d (valid_inputs inputs ! c)) +
             (\<Sum>r<n. m ! j ! (vc + r) * (\<Sum>i<length inputs. par2_constant i ^ unat (rec ! r) * d i)))
         else length rec < n))"

lemma gfmat_compute_rule:
  assumes t: "gfmat_ready t" and "1 \<le> gk_multiple k" "length inputs \<le> L" "length inputs \<le> 32768"
    and "vc = length (valid_inputs inputs)" "vc < length inputs" "n = length inputs - vc"
    and "length (snd memory) = n" "\<forall>row\<in>set (snd memory). length row = L" "0 < length recovery" "length recovery \<le> 65535"
  shows "compute_result inputs vc n recovery (gfmat_compute k t memory inputs vc recovery)"
proof -
  have vc: "length (filter id inputs) = vc" using assms(5) by (simp add: length_valid_inputs)
  have rows: "\<forall>r<n. length (snd memory ! r) = L" using assms(8,9) by simp
  show ?thesis
  proof (cases "n \<le> length recovery")
    case False
    then have "gfmat_compute k t memory inputs vc recovery = Some (False, recovery, [])"
      using assms(4,6,7,10,11) by (simp add: gfmat_compute_def Let_def)
    then show ?thesis unfolding compute_result_def using False by (intro exI [of _ False] exI [of _ recovery] exI [of _ "[]"]) simp
  next
    case True
    from compute_loop_levels [OF t vc assms(4,3,6,2,7,8) rows sorted_sort, of recovery]
    obtain ok rec m where r: "compute_loop k t inputs vc n (sort recovery) memory = Some (ok, if ok then take n rec else rec, m)"
      "mset rec \<subseteq># mset recovery" "sorted rec"
      "if ok then n \<le> length rec \<and> levels (matrix_entry inputs rec) vc n L (\<lambda>_. n) m else length rec < n"
      by auto
    have eq: "gfmat_compute k t memory inputs vc recovery = Some (ok, if ok then take n rec else rec, m)"
      using True assms(4,6,7,10,11) r(1) by (simp add: gfmat_compute_def Let_def)
    show ?thesis
    proof (cases ok)
      case False
      then show ?thesis unfolding compute_result_def using eq r by auto
    next
      case ok: True
      have lv: "levels (matrix_entry inputs rec) vc n L (\<lambda>_. n) m" "n \<le> length rec" using r(4) ok by auto
      have "mset (take n rec) \<subseteq># mset rec" by (metis append_take_drop_id mset_append mset_subset_eq_add_left)
      then have "mset (take n rec) \<subseteq># mset recovery" using r(2) by (rule subset_mset.order_trans)
      moreover have "d (missing_inputs inputs ! j) = (\<Sum>c<vc. m ! j ! c * d (valid_inputs inputs ! c)) +
         (\<Sum>r<n. m ! j ! (vc + r) * (\<Sum>i<length inputs. par2_constant i ^ unat (take n rec ! r) * d i))" if "j < n" for d j
        using levels_restore [OF lv(1) assms(5,6,7) that, of d] by simp
      ultimately show ?thesis unfolding compute_result_def using eq ok lv(2) r(3)
        by (intro exI [of _ True] exI [of _ "take n rec"] exI [of _ m]) (simp add: sorted_wrt_take)
    qed
  qed
qed

text \<open>C2: \<^verbatim>\<open>Compute\<close> always returns, whatever was in the memory of the matrix, the groups of rows and the way the matrix
  is filled: no assertion fails. When it succeeds, it kept as many recovery blocks as inputs are missing, in the order of
  their exponents, and its matrix is right: for all data of the inputs, each missing input is the sum of its factors times
  the valid inputs and the recovery blocks, a recovery block being the sum of the inputs times their constants raised to its
  exponent. When it fails, too few recovery blocks were left.\<close>

theorem gfmat_compute_correct:
  assumes "length (gm_diff tables) = 32768" "length (gm_exp tables) = 8320" "length (gm_recip tables) = 65536"
    and "gfmat_init tables = Some t" "1 \<le> gk_multiple k" "length inputs \<le> L" "length inputs \<le> 32768"
    and "vc = length (valid_inputs inputs)" "vc < length inputs" "n = length inputs - vc"
    and "length (snd memory) = n" "\<forall>row\<in>set (snd memory). length row = L" "0 < length recovery" "length recovery \<le> 65535"
  shows "\<exists>ok rec m. gfmat_compute k t memory inputs vc recovery = Some (ok, rec, m) \<and> mset rec \<subseteq># mset recovery \<and>
    (if ok then length rec = n \<and> sorted rec \<and>
       (\<forall>d. \<forall>j<n. d (missing_inputs inputs ! j) = (\<Sum>c<vc. m ! j ! c * d (valid_inputs inputs ! c)) +
         (\<Sum>r<n. m ! j ! (vc + r) * (\<Sum>i<length inputs. par2_constant i ^ unat (rec ! r) * d i)))
     else length rec < n)"
proof -
  have "gfmat_ready t" using gfmat_init_ready [OF assms(1-3)] assms(4) by auto
  from gfmat_compute_rule [OF this assms(5-14)] show ?thesis by (simp only: compute_result_def)
qed

text \<open>A kernel that takes six rows at a time.\<close>

definition example_kernel :: gf_kernel where
  "example_kernel = \<lparr>gk_multiple = 6, gk_stripeWidth = 64, gk_numStripes = 1, gk_numThreads = 4, gk_fastmul = True\<rparr>"

lemma example_inputs: "valid_inputs [True, False, True, False] = [0, 2]" "missing_inputs [True, False, True, False] = [1, 3]"
  "[1, 3 :: nat] ! 1 = 3" "length [True, False, True, False] = 4"
  by (simp_all add: valid_inputs_def missing_inputs_def upt_rec)

lemma tables_exist:
  "\<exists>tables t. length (gm_diff tables) = 32768 \<and> length (gm_exp tables) = 8320 \<and> length (gm_recip tables) = 65536 \<and>
    gfmat_init tables = Some t"
proof -
  let ?m = "\<lparr>gm_diff = replicate 32768 7, gm_exp = replicate 8320 7, gm_recip = replicate 65536 7\<rparr> :: gfmat_tables"
  have l: "length (gm_diff ?m) = 32768" "length (gm_exp ?m) = 8320" "length (gm_recip ?m) = 65536"
    by (simp_all only: gfmat_tables.simps length_replicate)
  from gfmat_init_ready [OF l] obtain t where "gfmat_init ?m = Some t" by blast
  then show ?thesis using l by (intro exI [of _ ?m] exI [of _ t] conjI)
qed

theorem gfmat_compute_correct_witness:
  "\<exists>t ok rec m. gfmat_compute example_kernel t (\<lambda>_. 0, replicate 2 (replicate 8 5)) [True, False, True, False] 2 [7, 3, 4] = Some (ok, rec, m) \<and>
    (if ok then length rec = 2 \<and> (\<forall>d. d 3 = (\<Sum>c<2. m ! 1 ! c * d ([0, 2] ! c)) +
        (\<Sum>r<2. m ! 1 ! (2 + r) * (\<Sum>i<4. par2_constant i ^ unat (rec ! r) * d i)))
     else length rec < 2)"
proof -
  obtain tables t where t: "length (gm_diff tables) = 32768" "length (gm_exp tables) = 8320" "length (gm_recip tables) = 65536"
    "gfmat_init tables = Some t" using tables_exist by blast
  have "\<exists>ok rec m. gfmat_compute example_kernel t (\<lambda>_. 0, replicate 2 (replicate 8 5)) [True, False, True, False] 2 [7, 3, 4] = Some (ok, rec, m) \<and>
      mset rec \<subseteq># mset [7, 3, 4] \<and>
      (if ok then length rec = 2 \<and> sorted rec \<and>
         (\<forall>d. \<forall>j<2. d (missing_inputs [True, False, True, False] ! j) =
           (\<Sum>c<2. m ! j ! c * d (valid_inputs [True, False, True, False] ! c)) +
           (\<Sum>r<2. m ! j ! (2 + r) * (\<Sum>i<length [True, False, True, False]. par2_constant i ^ unat (rec ! r) * d i)))
       else length rec < 2)"
    by (rule gfmat_compute_correct [OF t, where L = 8]) (simp_all add: example_kernel_def example_inputs)
  then obtain ok rec m where r: "gfmat_compute example_kernel t (\<lambda>_. 0, replicate 2 (replicate 8 5)) [True, False, True, False] 2 [7, 3, 4] = Some (ok, rec, m)"
    "if ok then length rec = 2 \<and> sorted rec \<and>
         (\<forall>d. \<forall>j<2. d (missing_inputs [True, False, True, False] ! j) =
           (\<Sum>c<2. m ! j ! c * d (valid_inputs [True, False, True, False] ! c)) +
           (\<Sum>r<2. m ! j ! (2 + r) * (\<Sum>i<length [True, False, True, False]. par2_constant i ^ unat (rec ! r) * d i)))
       else length rec < 2" by blast
  have "if ok then length rec = 2 \<and> (\<forall>d. d 3 = (\<Sum>c<2. m ! 1 ! c * d ([0, 2] ! c)) +
        (\<Sum>r<2. m ! 1 ! (2 + r) * (\<Sum>i<4. par2_constant i ^ unat (rec ! r) * d i)))
     else length rec < 2"
  proof (cases ok)
    case False
    then show ?thesis using r(2) by (simp only: if_False)
  next
    case True
    then have l: "length rec = 2" and "\<forall>d. \<forall>j<2. d (missing_inputs [True, False, True, False] ! j) =
           (\<Sum>c<2. m ! j ! c * d (valid_inputs [True, False, True, False] ! c)) +
           (\<Sum>r<2. m ! j ! (2 + r) * (\<Sum>i<length [True, False, True, False]. par2_constant i ^ unat (rec ! r) * d i))"
      using r(2) by (simp_all only: if_True) blast+
    note e = this(2) [rule_format, of 1, unfolded example_inputs]
    have "d 3 = (\<Sum>c<2. m ! 1 ! c * d ([0, 2] ! c)) +
        (\<Sum>r<2. m ! 1 ! (2 + r) * (\<Sum>i<4. par2_constant i ^ unat (rec ! r) * d i))" for d
      by (rule e) simp
    then show ?thesis using l True by (simp only: if_True) blast
  qed
  then show ?thesis using r(1) by blast
qed

lemma gfmat_compute_consecutive_rule:
  assumes t: "gfmat_ready t" and "1 \<le> gk_multiple k" "length inputs \<le> L" "length inputs \<le> 32768"
    and "vc = length (valid_inputs inputs)" "vc < length inputs" "n = length inputs - vc"
    and "length (snd memory) = n" "\<forall>row\<in>set (snd memory). length row = L" "n \<le> length recovery" "length recovery \<le> 65535"
    and "\<forall>j<n. unat (sort recovery ! j) = e + j"
  shows "\<exists>m. gfmat_compute k t memory inputs vc recovery = Some (True, take n (sort recovery), m) \<and>
    (\<forall>d. \<forall>j<n. d (missing_inputs inputs ! j) = (\<Sum>c<vc. m ! j ! c * d (valid_inputs inputs ! c)) +
       (\<Sum>r<n. m ! j ! (vc + r) * (\<Sum>i<length inputs. par2_constant i ^ (e + r) * d i)))"
proof -
  have vc: "length (filter id inputs) = vc" using assms(5) by (simp add: length_valid_inputs)
  have rows: "\<forall>r<n. length (snd memory ! r) = L" using assms(8,9) by simp
  have le: "n \<le> length (sort recovery)" using assms(10) by simp
  from compute_loop_consecutive [OF t vc assms(4,3,6,2,7) le assms(8) rows assms(12)]
  obtain m where m: "compute_loop k t inputs vc n (sort recovery) memory = Some (True, take n (sort recovery), m)"
    "levels (matrix_entry inputs (sort recovery)) vc n L (\<lambda>_. n) m" by blast
  have "recovery \<noteq> []" using assms(6,7,10) by auto
  then have "gfmat_compute k t memory inputs vc recovery = Some (True, take n (sort recovery), m)"
    using assms(4,6,7,10,11) m(1) by (simp add: gfmat_compute_def Let_def)
  moreover have "d (missing_inputs inputs ! j) = (\<Sum>c<vc. m ! j ! c * d (valid_inputs inputs ! c)) +
       (\<Sum>r<n. m ! j ! (vc + r) * (\<Sum>i<length inputs. par2_constant i ^ (e + r) * d i))" if "j < n" for d j
    using levels_restore [OF m(2) assms(5,6,7) that, of d] assms(12) by simp
  ultimately show ?thesis by blast
qed

text \<open>C4: with consecutive exponents the repair cannot fail: if the lowest exponents, as many as inputs are missing, follow
  each other without a gap, \<^verbatim>\<open>Compute\<close> succeeds at the first attempt with exactly these recovery blocks, and its
  matrix restores the missing inputs. A row without a pivot would be a polynomial with more roots than its degree.\<close>

theorem gfmat_compute_consecutive:
  assumes "length (gm_diff tables) = 32768" "length (gm_exp tables) = 8320" "length (gm_recip tables) = 65536"
    and "gfmat_init tables = Some t" "1 \<le> gk_multiple k" "length inputs \<le> L" "length inputs \<le> 32768"
    and "vc = length (valid_inputs inputs)" "vc < length inputs" "n = length inputs - vc"
    and "length (snd memory) = n" "\<forall>row\<in>set (snd memory). length row = L" "n \<le> length recovery" "length recovery \<le> 65535"
    and "\<forall>j<n. unat (sort recovery ! j) = e + j"
  shows "\<exists>m. gfmat_compute k t memory inputs vc recovery = Some (True, take n (sort recovery), m) \<and>
    (\<forall>d. \<forall>j<n. d (missing_inputs inputs ! j) = (\<Sum>c<vc. m ! j ! c * d (valid_inputs inputs ! c)) +
       (\<Sum>r<n. m ! j ! (vc + r) * (\<Sum>i<length inputs. par2_constant i ^ (e + r) * d i)))"
proof -
  have "gfmat_ready t" using gfmat_init_ready [OF assms(1-3)] assms(4) by auto
  from gfmat_compute_consecutive_rule [OF this assms(5-15)] show ?thesis .
qed

theorem gfmat_compute_consecutive_witness:
  "\<exists>t m. gfmat_compute example_kernel t (\<lambda>_. 0, replicate 2 (replicate 8 5)) [True, False, True, False] 2 [4, 3, 9] = Some (True, [3, 4], m) \<and>
    (\<forall>d. d 3 = (\<Sum>c<2. m ! 1 ! c * d ([0, 2] ! c)) + (\<Sum>r<2. m ! 1 ! (2 + r) * (\<Sum>i<4. par2_constant i ^ (3 + r) * d i)))"
proof -
  obtain tables t where t: "length (gm_diff tables) = 32768" "length (gm_exp tables) = 8320" "length (gm_recip tables) = 65536"
    "gfmat_init tables = Some t" using tables_exist by blast
  have s: "sort [4, 3, 9 :: u16] = [3, 4, 9]" by simp
  have "\<exists>m. gfmat_compute example_kernel t (\<lambda>_. 0, replicate 2 (replicate 8 5)) [True, False, True, False] 2 [4, 3, 9] =
      Some (True, take 2 (sort [4, 3, 9]), m) \<and>
      (\<forall>d. \<forall>j<2. d (missing_inputs [True, False, True, False] ! j) =
         (\<Sum>c<2. m ! j ! c * d (valid_inputs [True, False, True, False] ! c)) +
         (\<Sum>r<2. m ! j ! (2 + r) * (\<Sum>i<length [True, False, True, False]. par2_constant i ^ (3 + r) * d i)))"
    by (rule gfmat_compute_consecutive [OF t, where L = 8])
      (simp_all add: example_kernel_def example_inputs s less_2_cases_iff)
  then obtain m where m: "gfmat_compute example_kernel t (\<lambda>_. 0, replicate 2 (replicate 8 5)) [True, False, True, False] 2 [4, 3, 9] =
      Some (True, take 2 (sort [4, 3, 9]), m)"
    and e: "\<And>d. d (missing_inputs [True, False, True, False] ! 1) =
         (\<Sum>c<2. m ! 1 ! c * d (valid_inputs [True, False, True, False] ! c)) +
         (\<Sum>r<2. m ! 1 ! (2 + r) * (\<Sum>i<length [True, False, True, False]. par2_constant i ^ (3 + r) * d i))"
    by fastforce
  have "d 3 = (\<Sum>c<2. m ! 1 ! c * d ([0, 2] ! c)) + (\<Sum>r<2. m ! 1 ! (2 + r) * (\<Sum>i<4. par2_constant i ^ (3 + r) * d i))" for d
    by (rule e [unfolded example_inputs])
  moreover have "take 2 (sort [4, 3, 9 :: u16]) = [3, 4]" unfolding s by simp
  ultimately show ?thesis using m by (intro exI [of _ t] exI [of _ m]) (simp only: simp_thms)
qed

end
