(* ===== verification/RepairData_Correct.thy ===== *)
theory RepairData_Correct
  imports RepairData GFMat_Correct
begin

text \<open>
  The repair of the data: the blocks that are read are the stored ones, those that are recomputed are the lost ones,
  and when all chunks are done the target files have their contents.
\<close>

section \<open>Words of a block\<close>

definition word_at :: "bytes \<Rightarrow> nat \<Rightarrow> galois16" where
  "word_at bs k = Galois16 (the (leu16_value [bs ! (2 * k), bs ! (2 * k + 1)]))"

lemma leu16_bytes_value: "leu16_value bs = Some v \<Longrightarrow> leu16_bytes v = bs"
  by (cases bs rule: leu16_value.cases)
    (auto simp: leu16_bytes_eq bit_simps intro!: bit_eqI dest: bit_imp_le_length)

lemma word_at_inj:
  assumes "word_at a k = word_at b k"
  shows "a ! (2 * k) = b ! (2 * k) \<and> a ! (2 * k + 1) = b ! (2 * k + 1)"
proof -
  have "the (leu16_value [a ! (2 * k), a ! (2 * k + 1)]) = the (leu16_value [b ! (2 * k), b ! (2 * k + 1)])"
    using assms by (simp only: word_at_def galois16.inject)
  then have "leu16_value [a ! (2 * k), a ! (2 * k + 1)] = leu16_value [b ! (2 * k), b ! (2 * k + 1)]" by simp
  moreover have "\<exists>v. leu16_value [b ! (2 * k), b ! (2 * k + 1)] = Some v" by simp
  ultimately show ?thesis using leu16_bytes_value by (metis list.inject)
qed

lemma word_at_ext:
  assumes "length a = L" "length b = L" "even L" "\<forall>k<L div 2. word_at a k = word_at b k"
  shows "a = b"
proof (rule nth_equalityI)
  fix i assume "i < length a"
  then have "i div 2 < L div 2" using assms(1,3) by auto
  then have "word_at a (i div 2) = word_at b (i div 2)" using assms(4) by blast
  from word_at_inj [OF this] show "a ! i = b ! i" by (cases "even i") auto
qed (use assms in simp)

text \<open>A part of a block, and its words.\<close>

definition chunk :: "u64 \<Rightarrow> u64 \<Rightarrow> bytes \<Rightarrow> bytes" where
  "chunk off len b = take (unat len) (drop (unat off) b)"

lemma length_chunk: "unat off + unat len \<le> length b \<Longrightarrow> length (chunk off len b) = unat len"
  by (simp add: chunk_def)

lemma word_at_chunk:
  assumes "unat off + unat len \<le> length b" "even (unat off)" "even (unat len)" "k < unat len div 2"
  shows "word_at (chunk off len b) k = word_at b (unat off div 2 + k)"
proof -
  have "2 * k + 1 < unat len" using assms(3,4) by auto
  moreover have "2 * (unat off div 2 + k) = unat off + 2 * k" using assms(2) by auto
  ultimately show ?thesis using assms(1) by (simp add: word_at_def chunk_def)
qed

section \<open>The blocks\<close>

text \<open>A block of a file on the disk that is inside it and holds \<open>b\<close>, padded with zeros.\<close>

definition stored_block :: "nat \<Rightarrow> (nat \<Rightarrow> bytes) \<Rightarrow> nat set \<Rightarrow> datablock \<Rightarrow> bytes \<Rightarrow> bool" where
  "stored_block bs cin P db b \<longleftrightarrow>
     (\<exists>p\<in>P. db_diskfile db = Some p \<and> unat (db_offset db) + unat (db_length db) \<le> length (cin p) \<and>
        unat (db_length db) \<le> bs \<and> b = padded bs (block_content (cin p) db))"

text \<open>A block of a target file, where \<open>b\<close> belongs.\<close>

definition target_block :: "(nat \<Rightarrow> bytes) \<Rightarrow> nat set \<Rightarrow> datablock \<Rightarrow> bytes \<Rightarrow> bool" where
  "target_block cout Q db b \<longleftrightarrow>
     (\<exists>q\<in>Q. db_diskfile db = Some q \<and> db_filesize db = 0 \<and> unat (db_offset db) + unat (db_length db) \<le> length (cout q) \<and>
        take (unat (db_length db)) b = block_content (cout q) db)"

text \<open>The bytes of the target files a write of a chunk reaches.\<close>

definition region :: "u64 \<Rightarrow> u64 \<Rightarrow> datablock \<Rightarrow> (nat \<times> nat) set" where
  "region off len db =
     {(q, x). db_diskfile db = Some q \<and> unat (db_offset db) + unat off \<le> x \<and>
        x < unat (db_offset db) + unat off + unat len \<and> x < unat (db_offset db) + unat (db_length db)}"

text \<open>
  What holds between the steps: the source files are as they were, the file that was read last is open, and the
  target files are open and right where they were written.
\<close>

definition data_inv ::
  "(nat \<Rightarrow> string) \<Rightarrow> nat set \<Rightarrow> (nat \<Rightarrow> bytes) \<Rightarrow> nat set \<Rightarrow> (nat \<Rightarrow> bytes) \<Rightarrow> (nat \<times> nat) set \<Rightarrow> 'b data_state \<Rightarrow> bool" where
  "data_inv name P cin Q cout done s \<longleftrightarrow>
     (\<forall>p\<in>P. df_filename (ds_store s p) = name p \<and> fs_files (ds_fs s) (name p) = Some (cin p)) \<and>
     (\<forall>q\<in>Q. df_filename (ds_store s q) = name q \<and>
        (\<exists>c. disk_ready WriteMode c (ds_store s q) (ds_fs s) \<and> length c = length (cout q) \<and>
           (\<forall>x. (q, x) \<in> done \<longrightarrow> x < length c \<and> c ! x = cout q ! x))) \<and>
     (\<forall>q\<in>Q. length (cout q) \<le> fs_limit (ds_fs s)) \<and> fs_limit (ds_fs s) < 2 ^ 63 \<and>
     (case ds_lastopen s of
        None \<Rightarrow> True
      | Some p \<Rightarrow> p \<in> P \<and> disk_ready ReadMode (cin p) (ds_store s p) (ds_fs s) \<and>
          unat (df_filesize (ds_store s p)) = length (cin p))"

text \<open>The files are different, and none is too long for the disk.\<close>

definition files_apart :: "(nat \<Rightarrow> string) \<Rightarrow> nat set \<Rightarrow> (nat \<Rightarrow> bytes) \<Rightarrow> nat set \<Rightarrow> bool" where
  "files_apart name P cin Q \<longleftrightarrow>
     P \<inter> Q = {} \<and> name ` P \<inter> name ` Q = {} \<and> inj_on name Q \<and> (\<forall>p\<in>P. length (cin p) < 2 ^ 63)"

lemma data_invD:
  assumes "data_inv name P cin Q cout done s"
  shows "p \<in> P \<Longrightarrow> df_filename (ds_store s p) = name p \<and> fs_files (ds_fs s) (name p) = Some (cin p)"
    and "q \<in> Q \<Longrightarrow> df_filename (ds_store s q) = name q"
    and "q \<in> Q \<Longrightarrow> \<exists>c. disk_ready WriteMode c (ds_store s q) (ds_fs s) \<and> length c = length (cout q) \<and>
           (\<forall>x. (q, x) \<in> done \<longrightarrow> x < length c \<and> c ! x = cout q ! x)"
    and "q \<in> Q \<Longrightarrow> length (cout q) \<le> fs_limit (ds_fs s)" "fs_limit (ds_fs s) < 2 ^ 63"
    and "ds_lastopen s = Some p' \<Longrightarrow> p' \<in> P \<and> disk_ready ReadMode (cin p') (ds_store s p') (ds_fs s) \<and>
          unat (df_filesize (ds_store s p')) = length (cin p')"
  using assms by (auto simp: data_inv_def)

text \<open>A change of the objects of source files that keeps their names, with the file read last open.\<close>

lemma data_inv_reads:
  assumes "data_inv name P cin Q cout done s" "P \<inter> Q = {}"
    and "\<forall>q. q \<notin> P \<longrightarrow> store q = ds_store s q" "\<forall>p\<in>P. df_filename (store p) = name p"
    and "case lo of None \<Rightarrow> True | Some p \<Rightarrow> p \<in> P \<and> disk_ready ReadMode (cin p) (store p) (ds_fs s) \<and>
      unat (df_filesize (store p)) = length (cin p)"
  shows "data_inv name P cin Q cout done (s\<lparr>ds_lastopen := lo, ds_store := store\<rparr>)"
proof -
  have "store q = ds_store s q" if "q \<in> Q" for q using that assms(2,3) by blast
  then show ?thesis using assms(1,4,5) unfolding data_inv_def by (cases lo) simp_all
qed

lemma data_inv_backend: "data_inv name P cin Q cout done (s\<lparr>ds_backend := b\<rparr>) = data_inv name P cin Q cout done s"
  by (cases "ds_lastopen s") (simp_all add: data_inv_def)

lemma data_inv_fewer: "data_inv name P cin Q cout done s \<Longrightarrow> done' \<subseteq> done \<Longrightarrow> data_inv name P cin Q cout done' s"
  unfolding data_inv_def by blast

section \<open>Reading\<close>

lemma switch_file_ok:
  assumes "data_inv name P cin Q cout done s" "files_apart name P cin Q" "db_diskfile db = Some p" "p \<in> P"
  shows "\<exists>s'. switch_file db s = Some (True, s') \<and> data_inv name P cin Q cout done s' \<and> ds_lastopen s' = Some p \<and>
    ds_fs s' = ds_fs s \<and> ds_backend s' = ds_backend s"
proof (cases "ds_lastopen s = db_diskfile db")
  case True
  then show ?thesis using assms(1,3) by (simp add: switch_file_def)
next
  case False
  define store where "store = (case ds_lastopen s of None \<Rightarrow> ds_store s | Some q \<Rightarrow> (ds_store s)(q := disk_close (ds_store s q)))"
  have q: "\<forall>q. q \<notin> P \<longrightarrow> store q = ds_store s q"
    using data_invD(6) [OF assms(1)] by (auto simp: store_def split: option.splits)
  have n: "df_filename (store q) = df_filename (ds_store s q)" for q
    by (simp add: store_def disk_close_def split: option.splits)
  have "fs_files (ds_fs s) (df_filename (store p)) = Some (cin p)" "length (cin p) < 2 ^ 63"
    using data_invD(1) [OF assms(1,4)] n assms(2,4) by (auto simp: files_apart_def)
  from disk_reopen_ready [OF this] obtain d where d: "disk_reopen (store p) (ds_fs s) = (True, d)"
    "disk_ready ReadMode (cin p) d (ds_fs s)" "df_filename d = df_filename (store p)" "unat (df_filesize d) = length (cin p)"
    by blast
  let ?s = "s\<lparr>ds_lastopen := Some p, ds_store := store(p := d)\<rparr>"
  have "switch_file db s = Some (True, ?s)"
    using False assms(3) d(1) by (simp add: switch_file_def store_def [symmetric] Let_def)
  moreover have "data_inv name P cin Q cout done ?s"
    by (rule data_inv_reads [OF assms(1)])
      (use assms(2,4) q n d data_invD(1) [OF assms(1)] in \<open>auto simp: files_apart_def\<close>)
  ultimately show ?thesis by simp
qed

lemma read_block_ok:
  assumes "data_inv name P cin Q cout done s" "files_apart name P cin Q" "stored_block bs cin P db b"
    and "unat off + unat len \<le> bs"
  shows "\<exists>s'. read_block off len db s = Some (True, chunk off len b, s') \<and> data_inv name P cin Q cout done s' \<and>
    ds_fs s' = ds_fs s \<and> ds_backend s' = ds_backend s"
proof -
  obtain p where p: "p \<in> P" "db_diskfile db = Some p" "unat (db_offset db) + unat (db_length db) \<le> length (cin p)"
    "unat (db_length db) \<le> bs" "b = padded bs (block_content (cin p) db)"
    using assms(3) by (auto simp: stored_block_def)
  from switch_file_ok [OF assms(1,2) p(2,1)] obtain s1 where s1: "switch_file db s = Some (True, s1)"
    "data_inv name P cin Q cout done s1" "ds_lastopen s1 = Some p" "ds_fs s1 = ds_fs s" "ds_backend s1 = ds_backend s" by blast
  have r: "disk_ready ReadMode (cin p) (ds_store s1 p) (ds_fs s1)" "unat (df_filesize (ds_store s1 p)) = length (cin p)"
    using data_invD(6) [OF s1(2,3)] by auto
  have l: "length (cin p) < 2 ^ 63" using assms(2) p(1) by (simp add: files_apart_def)
  have lb: "length (block_content (cin p) db) = unat (db_length db)" using p(3) by (simp add: block_content_def)
  have ch: "chunk off len b = padded (unat len) (drop (unat off) (block_content (cin p) db))"
    using assms(4) p(4,5) lb by (auto simp: chunk_def padded_def min_def)
  show ?thesis
  proof (cases "db_length db > off")
    case False
    then have "drop (unat off) (block_content (cin p) db) = []" using lb by (simp add: not_less word_le_nat_alt)
    then have "db_read_data off len db (ds_store s1) (ds_fs s1) = Some (True, chunk off len b, ds_store s1)"
      unfolding ch using False p(2) by (simp add: db_read_data_def padded_def)
    then show ?thesis using s1 by (simp add: read_block_def)
  next
    case True
    then have "unat (db_offset db) + unat off \<le> length (cin p)" using p(3) by (simp add: word_less_nat_alt)
    from db_read_data_window [where store = "ds_store s1" and db = db and position = off and sz = len, OF p(2) r l this]
    obtain store where st: "db_read_data off len db (ds_store s1) (ds_fs s1) = Some (True, chunk off len b, store)"
      "disk_ready ReadMode (cin p) (store p) (ds_fs s1)" "df_filesize (store p) = df_filesize (ds_store s1 p)"
      "df_filename (store p) = df_filename (ds_store s1 p)" "\<forall>q. q \<noteq> p \<longrightarrow> store q = ds_store s1 q"
      unfolding ch by blast
    have "df_filename (store p') = name p'" if "p' \<in> P" for p'
      using st(4,5) data_invD(1) [OF s1(2) that] by (cases "p' = p") auto
    moreover have "\<forall>q. q \<notin> P \<longrightarrow> store q = ds_store s1 q" using st(5) p(1) by auto
    ultimately have "data_inv name P cin Q cout done (s1\<lparr>ds_lastopen := Some p, ds_store := store\<rparr>)"
      using data_inv_reads [OF s1(2), of store "Some p"] assms(2) st p(1) r(2) by (auto simp: files_apart_def)
    moreover have "s1\<lparr>ds_lastopen := Some p, ds_store := store\<rparr> = s1\<lparr>ds_store := store\<rparr>"
      using s1(3) by (cases s1) simp
    ultimately show ?thesis using s1 st(1) by (simp add: read_block_def)
  qed
qed

section \<open>Writing\<close>

lemma overwrite_nth:
  assumes "pos \<le> x" "x < pos + length buf" "pos \<le> length content"
  shows "overwrite content pos buf ! x = buf ! (x - pos)"
  using assms by (auto simp: overwrite_def nth_append)

lemma write_block_ok:
  assumes inv: "data_inv name P cin Q cout done s" and apart: "files_apart name P cin Q"
    and t: "target_block cout Q db b" and len: "unat off + unat len \<le> length b"
  shows "\<exists>s'. write_block off (chunk off len b) db s = Some (True, s') \<and>
    data_inv name P cin Q cout (done \<union> region off len db) s' \<and>
    ds_lastopen s' = ds_lastopen s \<and> ds_backend s' = ds_backend s"
proof -
  obtain q where q: "q \<in> Q" "db_diskfile db = Some q" "unat (db_offset db) + unat (db_length db) \<le> length (cout q)"
    "take (unat (db_length db)) b = block_content (cout q) db"
    using t by (auto simp: target_block_def)
  obtain c where c: "disk_ready WriteMode c (ds_store s q) (ds_fs s)" "length c = length (cout q)"
    "\<And>x. (q, x) \<in> done \<Longrightarrow> x < length c \<and> c ! x = cout q ! x"
    using data_invD(3) [OF inv q(1)] by blast
  have nm: "df_filename (ds_store s q) = name q" by (rule data_invD(2) [OF inv q(1)])
  have lim: "length (cout q) \<le> fs_limit (ds_fs s)" "fs_limit (ds_fs s) < 2 ^ 63"
    using data_invD(4,5) [OF inv] q(1) by auto
  have lb: "length (chunk off len b) = unat len" using len by (rule length_chunk)
  show ?thesis
  proof (cases "db_length db > off")
    case False
    then have "region off len db = {}" by (auto simp: region_def word_le_nat_alt not_less)
    then show ?thesis using False inv q(2) by (simp add: write_block_def db_write_data_def)
  next
    case True
    define fo where "fo = db_offset db + off"
    have ol: "unat off < unat (db_length db)" using True by (simp add: word_less_nat_alt)
    have fo: "unat fo = unat (db_offset db) + unat off"
      using ol q(3) lim by (simp add: fo_def unat_word_ariths)
    define cnt where "cnt = min (word_of_nat (length (chunk off len b))) (db_length db - off)"
    define n where "n = min (unat len) (unat (db_length db) - unat off)"
    have n: "unat cnt = n" using True by (simp add: cnt_def n_def lb unat_min unat_sub_le)
    define buf where "buf = take n (chunk off len b)"
    have lbuf: "length buf = n" by (simp add: buf_def lb n_def)
    have le: "unat fo + n \<le> length (cout q)" using ol q(3) by (simp add: fo n_def)
    have "fo \<le> MaxOffset" using le lim by (simp add: word_le_nat_alt)
    from disk_write_fits [OF c(1) this, of MAX_LENGTH buf] le lim
    obtain d fs where w: "disk_write fo buf MAX_LENGTH (ds_store s q) (ds_fs s) = Some (True, d, fs)"
      "fs = ds_fs s\<lparr>fs_files := (fs_files (ds_fs s))(name q \<mapsto> overwrite c (unat fo) buf)\<rparr>"
      "disk_ready WriteMode (overwrite c (unat fo) buf) d fs" "df_filename d = name q"
      by (auto simp: lbuf nm)
    let ?s = "s\<lparr>ds_store := (ds_store s)(q := d), ds_fs := fs\<rparr>"
    have eq: "write_block off (chunk off len b) db s = Some (True, ?s)"
      using True q(2) w(1) by (simp add: write_block_def db_write_data_def Let_def fo_def [symmetric] cnt_def [symmetric] n buf_def)
    have l2: "length (overwrite c (unat fo) buf) = length (cout q)" using le c(2) lbuf by (simp add: length_overwrite)
    have new: "x < length (cout q) \<and> overwrite c (unat fo) buf ! x = cout q ! x" if "(q, x) \<in> done \<union> region off len db" for x
    proof (cases "unat fo \<le> x \<and> x < unat fo + n")
      case x: True
      then have "overwrite c (unat fo) buf ! x = buf ! (x - unat fo)"
        using le c(2) lbuf by (intro overwrite_nth) auto
      also have "\<dots> = b ! (unat off + (x - unat fo))"
      proof -
        have "x - unat fo < n" "n \<le> unat len" using x by (auto simp: n_def)
        then show ?thesis using len by (simp add: buf_def chunk_def)
      qed
      also have "\<dots> = take (unat (db_length db)) b ! (x - unat (db_offset db))"
      proof -
        have "x - unat (db_offset db) < unat (db_length db)" "unat off + (x - unat fo) = x - unat (db_offset db)"
          using x fo by (auto simp: n_def)
        then show ?thesis by simp
      qed
      also have "\<dots> = cout q ! x"
      proof -
        have "x - unat (db_offset db) < unat (db_length db)" "unat (db_offset db) \<le> x" using x fo by (auto simp: n_def)
        then show ?thesis unfolding q(4) using q(3) by (simp add: block_content_def)
      qed
      finally show ?thesis using x le by simp
    next
      case x: False
      then have "(q, x) \<notin> region off len db" using fo by (auto simp: region_def n_def)
      then have "x < length c \<and> c ! x = cout q ! x" using that c(3) by blast
      moreover have "overwrite c (unat fo) buf ! x = c ! x" if "x < length c"
        using x that lbuf by (intro overwrite_other) auto
      ultimately show ?thesis using c(2) by simp
    qed
    have other: "fs_files fs (name q') = fs_files (ds_fs s) (name q')" if "q' \<in> P \<or> q' \<in> Q \<and> q' \<noteq> q" for q'
    proof -
      have "name q' \<noteq> name q" using that q(1) apart unfolding files_apart_def inj_on_def by blast
      then show ?thesis by (simp add: w(2))
    qed
    have "data_inv name P cin Q cout (done \<union> region off len db) ?s"
      unfolding data_inv_def
    proof (intro conjI ballI)
      fix p assume p: "p \<in> P"
      then have "p \<noteq> q" using q(1) apart by (auto simp: files_apart_def)
      then show "df_filename (ds_store ?s p) = name p" "fs_files (ds_fs ?s) (name p) = Some (cin p)"
        using data_invD(1) [OF inv p] other p by auto
    next
      fix q' assume q': "q' \<in> Q"
      show "df_filename (ds_store ?s q') = name q'" using data_invD(2) [OF inv q'] w(4) by simp
      show "\<exists>c. disk_ready WriteMode c (ds_store ?s q') (ds_fs ?s) \<and> length c = length (cout q') \<and>
         (\<forall>x. (q', x) \<in> done \<union> region off len db \<longrightarrow> x < length c \<and> c ! x = cout q' ! x)"
      proof (cases "q' = q")
        case True
        then show ?thesis using w(3) l2 new by auto
      next
        case False
        obtain c' where c': "disk_ready WriteMode c' (ds_store s q') (ds_fs s)" "length c' = length (cout q')"
          "\<forall>x. (q', x) \<in> done \<longrightarrow> x < length c' \<and> c' ! x = cout q' ! x"
          using data_invD(3) [OF inv q'] by blast
        have "disk_ready WriteMode c' (ds_store s q') fs"
          using c'(1) other [of q'] q' False data_invD(2) [OF inv q'] by (simp add: disk_ready_def)
        moreover have "(q', x) \<notin> region off len db" for x using False q(2) by (simp add: region_def)
        ultimately show ?thesis using c'(2,3) False by (intro exI [of _ c']) auto
      qed
    next
      fix q' assume "q' \<in> Q"
      then show "length (cout q') \<le> fs_limit (ds_fs ?s)" using data_invD(4) [OF inv] by (simp add: w(2))
    next
      show "fs_limit (ds_fs ?s) < 2 ^ 63" using lim by (simp add: w(2))
      show "case ds_lastopen ?s of None \<Rightarrow> True
        | Some p \<Rightarrow> p \<in> P \<and> disk_ready ReadMode (cin p) (ds_store ?s p) (ds_fs ?s) \<and>
            unat (df_filesize (ds_store ?s p)) = length (cin p)"
      proof (cases "ds_lastopen s")
        case (Some p)
        note l = data_invD(6) [OF inv Some]
        then have "p \<noteq> q" "fs_files fs (name p) = fs_files (ds_fs s) (name p)"
          using q(1) apart other [of p] by (auto simp: files_apart_def)
        moreover have "df_filename (ds_store s p) = name p" using data_invD(1) [OF inv] l by blast
        ultimately show ?thesis using l Some by (simp add: disk_ready_def)
      qed simp
    qed
    then show ?thesis using eq by simp
  qed
qed

lemma copy_block_ok:
  assumes "data_inv name P cin Q cout done s" "files_apart name P cin Q" "unat off + unat len \<le> length b"
    and "db_diskfile db = None \<or> target_block cout Q db b"
  shows "\<exists>s'. copy_block off (chunk off len b) db s = Some (True, s') \<and>
    data_inv name P cin Q cout (done \<union> region off len db) s' \<and>
    ds_lastopen s' = ds_lastopen s \<and> ds_backend s' = ds_backend s"
proof (cases "db_diskfile db")
  case None
  then have "region off len db = {}" by (simp add: region_def)
  then show ?thesis using None assms(1) by (simp add: copy_block_def db_is_set_def)
next
  case (Some q)
  then have t: "target_block cout Q db b" using assms(4) by simp
  then have "db_is_set (ds_store s) db" using Some by (auto simp: db_is_set_def target_block_def)
  then show ?thesis using write_block_ok [OF assms(1,2) t assms(3)] by (simp add: copy_block_def)
qed

section \<open>All blocks\<close>

lemma until_error_inv:
  assumes "\<And>k s. k < length xs \<Longrightarrow> I k s \<Longrightarrow> \<exists>s'. f (xs ! k) s = Some (True, s') \<and> I (Suc k) s'" "I 0 s"
  shows "\<exists>s'. until_error f xs s = Some (True, s') \<and> I (length xs) s'"
  using assms
proof (induction xs arbitrary: I s)
  case (Cons x xs)
  from Cons.prems(1) [of 0 s] Cons.prems(2) obtain s1 where s1: "f x s = Some (True, s1)" "I (Suc 0) s1" by auto
  have "\<exists>s'. f (xs ! k) s = Some (True, s') \<and> I (Suc (Suc k)) s'" if "k < length xs" "I (Suc k) s" for k s
    using Cons.prems(1) [of "Suc k" s] that by simp
  from Cons.IH [of "\<lambda>k. I (Suc k)", OF this s1(2)] show ?case using s1(1) by simp
qed simp

definition regions :: "u64 \<Rightarrow> u64 \<Rightarrow> repairer \<Rightarrow> block_ref option list \<Rightarrow> (nat \<times> nat) set" where
  "regions off len r refs = \<Union> (region off len ` {db. \<exists>ref\<in>set refs. block_at r ref = Some db})"

lemma regions_simps:
  "regions off len r [] = {}"
  "regions off len r (refs @ refs') = regions off len r refs \<union> regions off len r refs'"
  "block_at r ref = Some db \<Longrightarrow> regions off len r [ref] = region off len db"
  by (auto simp: regions_def)

text \<open>The blocks that are read, the places they are copied to, and the places of the lost blocks.\<close>

definition inputs_hold :: "nat \<Rightarrow> (nat \<Rightarrow> bytes) \<Rightarrow> nat set \<Rightarrow> repairer \<Rightarrow> bytes list \<Rightarrow> bool" where
  "inputs_hold bs cin P r blocks \<longleftrightarrow>
     list_all2 (\<lambda>ref b. \<exists>db. block_at r ref = Some db \<and> stored_block bs cin P db b) (pr_inputblocks r) blocks"

definition copies_hold :: "(nat \<Rightarrow> bytes) \<Rightarrow> nat set \<Rightarrow> repairer \<Rightarrow> bytes list \<Rightarrow> bool" where
  "copies_hold cout Q r blocks \<longleftrightarrow>
     list_all2 (\<lambda>ref b. \<exists>db. block_at r ref = Some db \<and> (db_diskfile db = None \<or> target_block cout Q db b))
       (pr_copyblocks r) blocks"

definition outputs_hold :: "(nat \<Rightarrow> bytes) \<Rightarrow> nat set \<Rightarrow> repairer \<Rightarrow> bytes list \<Rightarrow> bool" where
  "outputs_hold cout Q r blocks \<longleftrightarrow>
     list_all2 (\<lambda>ref b. \<exists>db. block_at r ref = Some db \<and> target_block cout Q db b) (pr_outputblocks r) blocks"

lemma length_stored_block: "stored_block bs cin P db b \<Longrightarrow> length b = bs"
  by (auto simp: stored_block_def length_padded)

definition factors :: "gmat \<Rightarrow> repairer \<Rightarrow> nat \<Rightarrow> u16 list" where
  "factors m r inputindex =
     map (\<lambda>outputindex. gfmat_get_factor m (word_of_nat inputindex) (word_of_nat outputindex)) [0..<unat (pr_missingblockcount r)]"

lemma process_block_ok:
  assumes "data_inv name P cin Q cout done s" "files_apart name P cin Q"
    and "block_at r ref = Some db" "stored_block bs cin P db b" "unat off + unat len \<le> bs"
    and "case copy of None \<Rightarrow> done' = done
      | Some c \<Rightarrow> \<exists>t. block_at r c = Some t \<and> (db_diskfile t = None \<or> target_block cout Q t b) \<and> done' = done \<union> region off len t"
  shows "\<exists>s'. process_block be off len m r (idx, ref, copy) s = Some (True, s') \<and>
    data_inv name P cin Q cout done' s' \<and> ds_backend s' = be_add be (chunk off len b) (factors m r idx) (ds_backend s)"
proof -
  from read_block_ok [OF assms(1,2,4,5)] obtain s1 where s1: "read_block off len db s = Some (True, chunk off len b, s1)"
    "data_inv name P cin Q cout done s1" "ds_backend s1 = ds_backend s" by blast
  have len: "unat off + unat len \<le> length b" using length_stored_block [OF assms(4)] assms(5) by simp
  show ?thesis
  proof (cases copy)
    case None
    then show ?thesis using assms(3,6) s1 by (simp add: process_block_def factors_def data_inv_backend)
  next
    case (Some c)
    then obtain t where t: "block_at r c = Some t" "db_diskfile t = None \<or> target_block cout Q t b" "done' = done \<union> region off len t"
      using assms(6) by auto
    from copy_block_ok [OF s1(2) assms(2) len t(2)] obtain s2 where s2: "copy_block off (chunk off len b) t s1 = Some (True, s2)"
      "data_inv name P cin Q cout done' s2" "ds_backend s2 = ds_backend s1" unfolding t(3) by blast
    then show ?thesis using assms(3) s1 Some t(1) by (simp add: process_block_def factors_def data_inv_backend)
  qed
qed

lemma process_blocks_ok:
  assumes inv: "data_inv name P cin Q cout done s" and apart: "files_apart name P cin Q"
    and inp: "inputs_hold bs cin P r blocks" and cp: "copies_hold cout Q r (take (length (pr_copyblocks r)) blocks)"
    and len: "unat off + unat len \<le> bs"
  shows "\<exists>s'. process_blocks be off len m r s = Some (True, s') \<and>
    data_inv name P cin Q cout (done \<union> regions off len r (pr_copyblocks r)) s' \<and>
    ds_backend s' = fold (\<lambda>(idx, b). be_add be (chunk off len b) (factors m r idx)) (enumerate 0 blocks) (be_discard be (ds_backend s))"
proof -
  let ?inputs = "pr_inputblocks r" and ?copies = "pr_copyblocks r"
  let ?cs = "map Some ?copies @ replicate (length ?inputs - length ?copies) None"
  let ?xs = "zip [0..<length ?inputs] (zip ?inputs ?cs)"
  let ?s0 = "s\<lparr>ds_backend := be_discard be (ds_backend s)\<rparr>"
  let ?I = "\<lambda>k s'. data_inv name P cin Q cout (done \<union> regions off len r (take k ?copies)) s' \<and>
    ds_backend s' = fold (\<lambda>(idx, b). be_add be (chunk off len b) (factors m r idx)) (enumerate 0 (take k blocks)) (be_discard be (ds_backend s))"
  have lb: "length ?inputs = length blocks" using inp by (simp add: inputs_hold_def list_all2_lengthD)
  have lc: "length ?copies \<le> length blocks" using cp list_all2_lengthD by (fastforce simp: copies_hold_def)
  have lx: "length ?xs = length blocks" using lb lc by simp
  have "\<exists>s'. until_error (process_block be off len m r) ?xs ?s0 = Some (True, s') \<and> ?I (length ?xs) s'"
  proof (rule until_error_inv)
    show "?I 0 ?s0" using inv by (simp add: regions_simps data_inv_backend)
  next
    fix k s1 assume k: "k < length ?xs" and I: "?I k s1"
    have kb: "k < length blocks" using k lx by simp
    obtain db where db: "block_at r (?inputs ! k) = Some db" "stored_block bs cin P db (blocks ! k)"
      using inp kb unfolding inputs_hold_def by (auto simp: list_all2_conv_all_nth)
    have x: "?xs ! k = (k, ?inputs ! k, ?cs ! k)" using kb lb lc by simp
    have c: "case ?cs ! k of None \<Rightarrow> done \<union> regions off len r (take (Suc k) ?copies) = done \<union> regions off len r (take k ?copies)
      | Some c \<Rightarrow> \<exists>t. block_at r c = Some t \<and> (db_diskfile t = None \<or> target_block cout Q t (blocks ! k)) \<and>
          done \<union> regions off len r (take (Suc k) ?copies) = (done \<union> regions off len r (take k ?copies)) \<union> region off len t"
    proof (cases "k < length ?copies")
      case True
      then obtain t where "block_at r (?copies ! k) = Some t" "db_diskfile t = None \<or> target_block cout Q t (blocks ! k)"
        using cp unfolding copies_hold_def by (auto simp: list_all2_conv_all_nth)
      then show ?thesis using True by (simp add: nth_append take_Suc_conv_app_nth regions_simps Un_assoc)
    next
      case False
      then show ?thesis using kb lb by (simp add: nth_append)
    qed
    from process_block_ok [OF conjunct1 [OF I] apart db len c] show
      "\<exists>s'. process_block be off len m r (?xs ! k) s1 = Some (True, s') \<and> ?I (Suc k) s'"
      unfolding x using I kb by (simp add: take_Suc_conv_app_nth enumerate_append_eq)
  qed
  then show ?thesis using lx lc by (simp add: process_blocks_def Let_def)
qed

section \<open>The recomputed blocks\<close>

text \<open>What the library computes: each output is the sum of the inputs times their factors for it.\<close>

definition backend_computes :: "'b backend \<Rightarrow> bool" where
  "backend_computes be \<longleftrightarrow>
     (\<forall>L b n inputs j. even L \<longrightarrow> fst (be_slice_size be L b) \<longrightarrow>
        (\<forall>(buffer, factors)\<in>set inputs. length buffer = L \<and> length factors = n) \<longrightarrow> j < n \<longrightarrow>
        (\<exists>out. be_output be j (fold (\<lambda>(buffer, factors). be_add be buffer factors) inputs (be_discard be (snd (be_slice_size be L b)))) =
             (True, out) \<and> length out = L \<and>
           (\<forall>k<L div 2. word_at out k = (\<Sum>(buffer, factors)\<leftarrow>inputs. Galois16 (factors ! j) * word_at buffer k))))"

text \<open>A recovery block of the data blocks.\<close>

definition recovery_of :: "nat \<Rightarrow> bytes list \<Rightarrow> u16 \<Rightarrow> bytes \<Rightarrow> bool" where
  "recovery_of bs data e b \<longleftrightarrow>
     length b = bs \<and> (\<forall>k<bs div 2. word_at b k = (\<Sum>i<length data. par2_constant i ^ unat e * word_at (data ! i) k))"

text \<open>The matrix gives the missing inputs.\<close>

definition matrix_restores :: "bool list \<Rightarrow> nat \<Rightarrow> nat \<Rightarrow> u16 list \<Rightarrow> gmat \<Rightarrow> bool" where
  "matrix_restores inputs vc n rec m \<longleftrightarrow>
     (\<forall>d. \<forall>j<n. d (missing_inputs inputs ! j) = (\<Sum>c<vc. m ! j ! c * d (valid_inputs inputs ! c)) +
       (\<Sum>r<n. m ! j ! (vc + r) * (\<Sum>i<length inputs. par2_constant i ^ unat (rec ! r) * d i)))"

lemma get_factor: "j < 65536 \<Longrightarrow> c < 65536 \<Longrightarrow> Galois16 (gfmat_get_factor m (word_of_nat c) (word_of_nat j)) = m ! j ! c"
  by (cases "m ! j ! c") (simp add: gfmat_get_factor_def unat_of_nat)

lemma restored_word:
  assumes "matrix_restores inputs vc n rec m" "length inputs \<le> 32768" "vc + n = length inputs" "length data = length inputs"
    and "\<forall>b\<in>set data. length b = bs" "\<forall>i<n. recovery_of bs data (rec ! i) (recs ! i)" "length recs = n"
    and "vc = length (valid_inputs inputs)" "j < n" "even bs"
    and off: "unat off + unat len \<le> bs" "even (unat off)" "even (unat len)" "k < unat len div 2"
    and blocks: "blocks = map ((!) data) (valid_inputs inputs) @ recs"
  shows "(\<Sum>c<length blocks. Galois16 (gfmat_get_factor m (word_of_nat c) (word_of_nat j)) * word_at (chunk off len (blocks ! c)) k) =
    word_at (chunk off len (data ! (missing_inputs inputs ! j))) k"
proof -
  let ?d = "\<lambda>i. word_at (chunk off len (data ! i)) k"
  let ?w = "\<lambda>c. word_at (chunk off len (blocks ! c)) k"
  have lb: "length blocks = vc + n" using assms(7,8) blocks by simp
  have f: "Galois16 (gfmat_get_factor m (word_of_nat c) (word_of_nat j)) = m ! j ! c" if "c < vc + n" for c
    using that assms(2,3,9) by (intro get_factor) simp_all
  have v: "?w c = ?d (valid_inputs inputs ! c)" if "c < vc" for c
    using that assms(8) blocks by (simp add: nth_append)
  have r: "?w (vc + i) = (\<Sum>i'<length inputs. par2_constant i' ^ unat (rec ! i) * ?d i')" if "i < n" for i
  proof -
    have ro: "recovery_of bs data (rec ! i) (recs ! i)" using assms(6) that by blast
    have b: "blocks ! (vc + i) = recs ! i" using assms(8) blocks by (simp add: nth_append)
    have kk: "unat off div 2 + k < bs div 2" using off assms(10) by auto
    have "?w (vc + i) = word_at (recs ! i) (unat off div 2 + k)"
      unfolding b using ro off by (intro word_at_chunk) (simp_all add: recovery_of_def)
    also have "\<dots> = (\<Sum>i'<length data. par2_constant i' ^ unat (rec ! i) * word_at (data ! i') (unat off div 2 + k))"
      using ro kk by (simp add: recovery_of_def)
    also have "\<dots> = (\<Sum>i'<length inputs. par2_constant i' ^ unat (rec ! i) * ?d i')"
      unfolding assms(4) using off assms(4,5) by (intro sum.cong refl) (simp add: word_at_chunk)
    finally show ?thesis .
  qed
  have "(\<Sum>c<length blocks. Galois16 (gfmat_get_factor m (word_of_nat c) (word_of_nat j)) * ?w c) =
      (\<Sum>c<vc + n. m ! j ! c * ?w c)"
    unfolding lb using f by (intro sum.cong refl) simp
  also have "\<dots> = (\<Sum>c<vc. m ! j ! c * ?w c) + (\<Sum>i<n. m ! j ! (vc + i) * ?w (vc + i))" by (rule sum_split_at)
  also have "\<dots> = (\<Sum>c<vc. m ! j ! c * ?d (valid_inputs inputs ! c)) +
      (\<Sum>i<n. m ! j ! (vc + i) * (\<Sum>i'<length inputs. par2_constant i' ^ unat (rec ! i) * ?d i'))"
    by (intro arg_cong2 [where f = "(+)"] sum.cong refl) (simp_all add: v r)
  also have "\<dots> = ?d (missing_inputs inputs ! j)"
    by (rule assms(1) [unfolded matrix_restores_def, rule_format, OF assms(9), where d = ?d, symmetric])
  finally show ?thesis .
qed

lemma sum_list_enumerate: "(\<Sum>(c, x)\<leftarrow>enumerate 0 xs. f c x) = (\<Sum>c<length xs. f c (xs ! c))" for f :: "nat \<Rightarrow> 'a \<Rightarrow> galois16"
  by (simp add: sum_list_sum_nth nth_enumerate_eq atLeast0LessThan)

lemma output_restored:
  assumes be: "backend_computes be" "fst (be_slice_size be (unat len) b)"
    and m: "matrix_restores inputs vc n rec m" "length inputs \<le> 32768" "vc + n = length inputs" "length data = length inputs"
    and data: "\<forall>b\<in>set data. length b = bs" "\<forall>i<n. recovery_of bs data (rec ! i) (recs ! i)" "length recs = n"
    and "vc = length (valid_inputs inputs)" "j < n" "even bs" "unat (pr_missingblockcount r) = n"
    and off: "unat off + unat len \<le> bs" "even (unat off)" "even (unat len)"
    and blocks: "blocks = map ((!) data) (valid_inputs inputs) @ recs"
  shows "be_output be j (fold (\<lambda>(idx, b). be_add be (chunk off len b) (factors m r idx)) (enumerate 0 blocks)
      (be_discard be (snd (be_slice_size be (unat len) b)))) = (True, chunk off len (data ! (missing_inputs inputs ! j)))"
proof -
  let ?inputs = "map (\<lambda>(idx, b). (chunk off len b, factors m r idx)) (enumerate 0 blocks)"
  have lb: "\<forall>b\<in>set blocks. length b = bs"
  proof
    fix b assume "b \<in> set blocks"
    then consider i where "i \<in> set (valid_inputs inputs)" "b = data ! i" | i where "i < n" "b = recs ! i"
      using blocks data(3) by (auto simp: in_set_conv_nth)
    then show "length b = bs"
    proof cases
      case 1
      then have "i < length data" using m(4) by (auto simp: valid_inputs_def)
      then show ?thesis using 1 data(1) by simp
    next
      case 2
      then show ?thesis using data(2) by (simp add: recovery_of_def)
    qed
  qed
  have ok: "\<forall>(buffer, fs)\<in>set ?inputs. length buffer = unat len \<and> length fs = n"
    using lb off(1) assms(13) by (auto simp: in_set_enumerate_eq length_chunk factors_def)
  have f: "fold (\<lambda>(idx, b). be_add be (chunk off len b) (factors m r idx)) (enumerate 0 blocks) =
      fold (\<lambda>(buffer, fs). be_add be buffer fs) ?inputs"
    by (rule ext) (simp add: fold_map comp_def case_prod_unfold)
  obtain out where out: "be_output be j (fold (\<lambda>(buffer, fs). be_add be buffer fs) ?inputs
      (be_discard be (snd (be_slice_size be (unat len) b)))) = (True, out)" "length out = unat len"
    "\<forall>k<unat len div 2. word_at out k = (\<Sum>(buffer, fs)\<leftarrow>?inputs. Galois16 (fs ! j) * word_at buffer k)"
    using be(1) off(3) be(2) ok assms(11) unfolding backend_computes_def by blast
  have ld: "length (data ! (missing_inputs inputs ! j)) = bs"
  proof -
    have "j < length (missing_inputs inputs)" using assms(11,10) m(3) by (simp add: length_missing_inputs)
    then have "missing_inputs inputs ! j \<in> set (missing_inputs inputs)" by (rule nth_mem)
    then have "missing_inputs inputs ! j < length data" using m(4) by (auto simp: missing_inputs_def)
    then show ?thesis using data(1) by simp
  qed
  have "out = chunk off len (data ! (missing_inputs inputs ! j))"
  proof (rule word_at_ext [OF out(2) _ off(3)])
    show "length (chunk off len (data ! (missing_inputs inputs ! j))) = unat len" using off(1) ld by (simp add: length_chunk)
    show "\<forall>k<unat len div 2. word_at out k = word_at (chunk off len (data ! (missing_inputs inputs ! j))) k"
    proof (intro allI impI)
      fix k assume k: "k < unat len div 2"
      have "word_at out k = (\<Sum>(c, b)\<leftarrow>enumerate 0 blocks. Galois16 (factors m r c ! j) * word_at (chunk off len b) k)"
        using out(3) k by (simp add: comp_def case_prod_unfold)
      also have "\<dots> = (\<Sum>c<length blocks. Galois16 (gfmat_get_factor m (word_of_nat c) (word_of_nat j)) * word_at (chunk off len (blocks ! c)) k)"
        unfolding sum_list_enumerate using assms(11,13) by (simp add: factors_def)
      also have "\<dots> = word_at (chunk off len (data ! (missing_inputs inputs ! j))) k"
        by (rule restored_word [OF m data assms(10,11,12) off k blocks])
      finally show "word_at out k = word_at (chunk off len (data ! (missing_inputs inputs ! j))) k" .
    qed
  qed
  then show ?thesis unfolding f using out(1) by simp
qed

section \<open>A chunk, and all chunks\<close>

lemma data_inv_start: "data_inv name P cin Q cout done s \<Longrightarrow> data_inv name P cin Q cout done (s\<lparr>ds_lastopen := None\<rparr>)"
  by (simp add: data_inv_def)

lemma data_inv_close:
  assumes "data_inv name P cin Q cout done s" "P \<inter> Q = {}"
  shows "data_inv name P cin Q cout done (close_last s)"
proof (cases "ds_lastopen s")
  case (Some p)
  note p = data_invD(6) [OF assms(1) Some]
  show ?thesis
    using data_inv_reads [OF assms, of "(ds_store s)(p := disk_close (ds_store s p))" None] data_invD(1) [OF assms(1)] p Some
    by (auto simp: close_last_def disk_close_def)
qed (use assms in \<open>simp add: close_last_def\<close>)

lemma close_last_backend [simp]: "ds_backend (close_last s) = ds_backend s"
  by (simp add: close_last_def split: option.split)

lemma write_outputs_ok:
  assumes "data_inv name P cin Q cout done s" "files_apart name P cin Q" "outputs_hold cout Q r lost"
    and "\<forall>j<length lost. be_output be j (ds_backend s) = (True, chunk off len (lost ! j))"
    and "\<forall>b\<in>set lost. unat off + unat len \<le> length b"
  shows "\<exists>s'. until_error (write_output be off r) (enumerate 0 (pr_outputblocks r)) s = Some (True, s') \<and>
    data_inv name P cin Q cout (done \<union> regions off len r (pr_outputblocks r)) s'"
proof -
  let ?refs = "pr_outputblocks r" and ?xs = "enumerate 0 (pr_outputblocks r)"
  let ?I = "\<lambda>k s'. data_inv name P cin Q cout (done \<union> regions off len r (take k ?refs)) s' \<and> ds_backend s' = ds_backend s"
  have l: "length ?refs = length lost" using assms(3) by (simp add: outputs_hold_def list_all2_lengthD)
  have "\<exists>s'. until_error (write_output be off r) ?xs s = Some (True, s') \<and> ?I (length ?xs) s'"
  proof (rule until_error_inv)
    show "?I 0 s" using assms(1) by (simp add: regions_simps)
  next
    fix k s1 assume k: "k < length ?xs" and I: "?I k s1"
    then have kl: "k < length lost" using l by simp
    obtain db where db: "block_at r (?refs ! k) = Some db" "target_block cout Q db (lost ! k)"
      using assms(3) kl unfolding outputs_hold_def by (auto simp: list_all2_conv_all_nth)
    have len: "unat off + unat len \<le> length (lost ! k)" using assms(5) kl by simp
    have x: "?xs ! k = (k, ?refs ! k)" using k by (simp add: nth_enumerate_eq)
    have o: "be_output be k (ds_backend s1) = (True, chunk off len (lost ! k))" using assms(4) I kl by simp
    have rg: "done \<union> regions off len r (take (Suc k) ?refs) = (done \<union> regions off len r (take k ?refs)) \<union> region off len db"
      using kl l db(1) by (simp add: take_Suc_conv_app_nth regions_simps Un_assoc)
    from write_block_ok [OF conjunct1 [OF I] assms(2) db(2) len] obtain s2 where
      "write_block off (chunk off len (lost ! k)) db s1 = Some (True, s2)"
      "data_inv name P cin Q cout (done \<union> regions off len r (take (Suc k) ?refs)) s2" "ds_backend s2 = ds_backend s1"
      unfolding rg by blast
    then show "\<exists>s'. write_output be off r (?xs ! k) s1 = Some (True, s') \<and> ?I (Suc k) s'"
      using x o db(1) I by (simp add: write_output_def)
  qed
  then show ?thesis unfolding length_enumerate take_all_iff [THEN iffD2, OF order_refl] by blast
qed

text \<open>Nothing is missing: only copies.\<close>

lemma copy_blocks_ok:
  assumes inv: "data_inv name P cin Q cout done s" and apart: "files_apart name P cin Q"
    and inp: "inputs_hold bs cin P r blocks" and cp: "copies_hold cout Q r (take (length (pr_copyblocks r)) blocks)"
    and len: "unat off + unat len \<le> bs"
  shows "\<exists>s'. copy_blocks off len r s = Some (True, s') \<and>
    data_inv name P cin Q cout (done \<union> regions off len r (pr_copyblocks r)) s'"
proof -
  let ?inputs = "pr_inputblocks r" and ?copies = "pr_copyblocks r"
  let ?is = "map Some ?inputs @ replicate (length ?copies - length ?inputs) None"
  let ?xs = "zip ?is ?copies"
  let ?I = "\<lambda>k s'. data_inv name P cin Q cout (done \<union> regions off len r (take k ?copies)) s'"
  have lb: "length ?inputs = length blocks" using inp by (simp add: inputs_hold_def list_all2_lengthD)
  have lc: "length ?copies \<le> length blocks" using cp list_all2_lengthD by (fastforce simp: copies_hold_def)
  have lx: "length ?xs = length ?copies" using lb lc by simp
  have "\<exists>s'. until_error (copy_only off len r) ?xs s = Some (True, s') \<and> ?I (length ?xs) s'"
  proof (rule until_error_inv)
    show "?I 0 s" using inv by (simp add: regions_simps)
  next
    fix k s1 assume k: "k < length ?xs" and I: "?I k s1"
    have kc: "k < length ?copies" using k lx by simp
    then have kb: "k < length blocks" using lc by simp
    obtain db where db: "block_at r (?inputs ! k) = Some db" "stored_block bs cin P db (blocks ! k)"
      using inp kb unfolding inputs_hold_def by (auto simp: list_all2_conv_all_nth)
    obtain t where t: "block_at r (?copies ! k) = Some t" "db_diskfile t = None \<or> target_block cout Q t (blocks ! k)"
      using cp kc lc unfolding copies_hold_def by (auto simp: list_all2_conv_all_nth)
    have x: "?xs ! k = (Some (?inputs ! k), ?copies ! k)" using kb kc lb by (simp add: nth_append)
    have rg: "done \<union> regions off len r (take (Suc k) ?copies) = (done \<union> regions off len r (take k ?copies)) \<union> region off len t"
      using kc t(1) by (simp add: take_Suc_conv_app_nth regions_simps Un_assoc)
    show "\<exists>s'. copy_only off len r (?xs ! k) s1 = Some (True, s') \<and> ?I (Suc k) s'"
    proof (cases "db_is_set (ds_store s1) t")
      case False
      then have "region off len t = {}" using t(2) by (auto simp: region_def db_is_set_def target_block_def)
      then show ?thesis using False x t(1) I unfolding rg by (simp add: copy_only_def)
    next
      case True
      then have tb: "target_block cout Q t (blocks ! k)" using t(2) by (auto simp: db_is_set_def)
      from read_block_ok [OF I apart db(2) len] obtain s2 where s2: "read_block off len db s1 = Some (True, chunk off len (blocks ! k), s2)"
        "data_inv name P cin Q cout (done \<union> regions off len r (take k ?copies)) s2" by blast
      have "unat off + unat len \<le> length (blocks ! k)" using length_stored_block [OF db(2)] len by simp
      from write_block_ok [OF s2(2) apart tb this] show ?thesis
        using True x db(1) t(1) s2(1) unfolding rg by (auto simp: copy_only_def)
    qed
  qed
  then show ?thesis using lx by (simp add: copy_blocks_def Let_def)
qed

text \<open>
  What the repair starts from: the lost blocks are those the matrix gives from the source blocks that were found and
  the recovery blocks that were chosen. Without lost blocks there is no matrix.
\<close>

definition repair_input ::
  "nat \<Rightarrow> (nat \<Rightarrow> bytes) \<Rightarrow> nat set \<Rightarrow> (nat \<Rightarrow> bytes) \<Rightarrow> nat set \<Rightarrow> repairer \<Rightarrow> gmat \<Rightarrow> bool list \<Rightarrow> bytes list \<Rightarrow> bool" where
  "repair_input bs cin P cout Q r m present data \<longleftrightarrow>
     length data = length present \<and> length present \<le> 32768 \<and> (\<forall>b\<in>set data. length b = bs) \<and>
     unat (pr_missingblockcount r) = length (missing_inputs present) \<and>
     outputs_hold cout Q r (map ((!) data) (missing_inputs present)) \<and>
     (\<exists>rec recs. length recs = length (missing_inputs present) \<and>
        (\<forall>i<length recs. recovery_of bs data (rec ! i) (recs ! i)) \<and>
        matrix_restores present (length (valid_inputs present)) (length (missing_inputs present)) rec m \<and>
        inputs_hold bs cin P r (map ((!) data) (valid_inputs present) @ recs)) \<and>
     copies_hold cout Q r (map ((!) data) (valid_inputs present))"

lemma par2_process_data_ok:
  assumes inv: "data_inv name P cin Q cout done s" and apart: "files_apart name P cin Q"
    and be: "backend_computes be" "fst (be_slice_size be (unat len) b)" "ds_backend s = snd (be_slice_size be (unat len) b)"
    and inp: "repair_input bs cin P cout Q r m present data"
    and off: "unat off + unat len \<le> bs" "even (unat off)" "even (unat len)" "even bs"
  shows "\<exists>s'. par2_process_data be off len m r s = Some (True, s') \<and>
    data_inv name P cin Q cout (done \<union> regions off len r (pr_copyblocks r) \<union> regions off len r (pr_outputblocks r)) s'"
proof -
  let ?n = "length (missing_inputs present)" and ?vc = "length (valid_inputs present)"
  let ?lost = "map ((!) data) (missing_inputs present)"
  obtain rec recs where recs: "length recs = ?n" "\<forall>i<?n. recovery_of bs data (rec ! i) (recs ! i)"
    "matrix_restores present ?vc ?n rec m" "inputs_hold bs cin P r (map ((!) data) (valid_inputs present) @ recs)"
    using inp by (auto simp: repair_input_def)
  have d: "length data = length present" "length present \<le> 32768" "\<forall>b\<in>set data. length b = bs"
    "unat (pr_missingblockcount r) = ?n" "outputs_hold cout Q r ?lost"
    "copies_hold cout Q r (map ((!) data) (valid_inputs present))"
    using inp by (auto simp: repair_input_def)
  have lc: "length (pr_copyblocks r) = ?vc" using d(6) by (simp add: copies_hold_def list_all2_lengthD)
  then have cp: "copies_hold cout Q r (take (length (pr_copyblocks r)) (map ((!) data) (valid_inputs present) @ recs))"
    using d(6) by simp
  have sum: "?vc + ?n = length present" using length_missing_inputs [of present] length_col_inputs [of present]
    by (simp add: col_inputs_def)
  have inv0: "data_inv name P cin Q cout done (s\<lparr>ds_lastopen := None\<rparr>)" by (rule data_inv_start [OF inv])
  have disj: "P \<inter> Q = {}" using apart by (simp add: files_apart_def)
  show ?thesis
  proof (cases "pr_missingblockcount r > 0")
    case False
    then have "pr_missingblockcount r = 0" by (simp add: word_greater_zero_iff)
    then have "regions off len r (pr_outputblocks r) = {}"
      using d(4,5) by (auto simp: outputs_hold_def regions_simps)
    moreover obtain s1 where "copy_blocks off len r (s\<lparr>ds_lastopen := None\<rparr>) = Some (True, s1)"
      "data_inv name P cin Q cout (done \<union> regions off len r (pr_copyblocks r)) s1"
      using copy_blocks_ok [OF inv0 apart recs(4) cp off(1)] by blast
    ultimately show ?thesis using False data_inv_close [OF _ disj] by (auto simp: par2_process_data_def)
  next
    case True
    from process_blocks_ok [OF inv0 apart recs(4) cp off(1), of be m] obtain s1 where
      s1: "process_blocks be off len m r (s\<lparr>ds_lastopen := None\<rparr>) = Some (True, s1)"
      "data_inv name P cin Q cout (done \<union> regions off len r (pr_copyblocks r)) s1"
      "ds_backend s1 = fold (\<lambda>(idx, b). be_add be (chunk off len b) (factors m r idx))
         (enumerate 0 (map ((!) data) (valid_inputs present) @ recs)) (be_discard be (snd (be_slice_size be (unat len) b)))"
      by (auto simp: be(3))
    have o: "\<forall>j<length ?lost. be_output be j (ds_backend (close_last s1)) = (True, chunk off len (?lost ! j))"
    proof (intro allI impI)
      fix j assume "j < length ?lost"
      then have j: "j < ?n" by simp
      have "be_output be j (ds_backend s1) = (True, chunk off len (data ! (missing_inputs present ! j)))"
        unfolding s1(3) by (rule output_restored [OF be(1,2) recs(3) d(2) sum d(1,3) recs(2,1) refl j off(4) d(4) off(1-3) refl])
      then show "be_output be j (ds_backend (close_last s1)) = (True, chunk off len (?lost ! j))" using j by simp
    qed
    have "length x = bs" if x: "x \<in> set ?lost" for x
    proof -
      obtain i where "i \<in> set (missing_inputs present)" "x = data ! i" using x by auto
      then show ?thesis using d(1,3) by (simp add: missing_inputs_def)
    qed
    then have l: "\<forall>b\<in>set ?lost. unat off + unat len \<le> length b" using off(1) by simp
    from write_outputs_ok [OF data_inv_close [OF s1(2) disj] apart d(5) o l] show ?thesis
      using True s1(1) by (simp add: par2_process_data_def)
  qed
qed

lemma u64_less: "unat x < 18446744073709551616" for x :: u64
  using unsigned_less [of x, where ?'a = nat] by simp

lemma region_split:
  assumes "unat off + unat len \<le> unat bs"
  shows "region off (bs - off) db = region off len db \<union> region (off + len) (bs - (off + len)) db"
proof -
  have "unat (off + len) = unat off + unat len" using assms u64_less [of bs] by (simp add: unat_word_ariths)
  moreover have "off \<le> bs" "off + len \<le> bs" using assms calculation by (simp_all add: word_le_nat_alt)
  ultimately show ?thesis using assms by (auto simp: region_def unat_sub_le)
qed

lemma regions_split:
  assumes "unat off + unat len \<le> unat bs"
  shows "regions off (bs - off) r refs = regions off len r refs \<union> regions (off + len) (bs - (off + len)) r refs"
  unfolding regions_def using region_split [OF assms] by auto

lemma process_chunks_ok:
  assumes apart: "files_apart name P cin Q" and be: "backend_computes be" "\<forall>L b. fst (be_slice_size be L b)"
    and inp: "repair_input (unat (pr_blocksize r)) cin P cout Q r m present data"
    and even: "even (unat (pr_blocksize r))" "even (unat (pr_chunksize r))" "0 < pr_chunksize r"
  shows "data_inv name P cin Q cout D s \<Longrightarrow> off \<le> pr_blocksize r \<Longrightarrow> even (unat off) \<Longrightarrow>
    \<exists>s'. process_chunks be m r off s = Some (Success, s') \<and>
      data_inv name P cin Q cout (D \<union> regions off (pr_blocksize r - off) r (pr_copyblocks r)
        \<union> regions off (pr_blocksize r - off) r (pr_outputblocks r)) s'"
proof (induction "unat (pr_blocksize r) - unat off" arbitrary: off s D rule: less_induct)
  case less
  let ?bs = "pr_blocksize r"
  show ?case
  proof (cases "off < ?bs")
    case False
    then have "off = ?bs" using less.prems(2) by simp
    then have "regions off (?bs - off) r refs = {}" for refs by (auto simp: regions_def region_def)
    then show ?thesis using False less.prems(1) by (subst process_chunks.simps) simp
  next
    case True
    define len where "len = min (pr_chunksize r) (?bs - off)"
    have ul: "unat len = min (unat (pr_chunksize r)) (unat ?bs - unat off)" using less.prems(2) by (simp add: len_def unat_min unat_sub_le)
    have pos: "0 < unat len" using True even(3) unfolding ul by (simp add: word_less_nat_alt)
    have le: "unat off + unat len \<le> unat ?bs" using True unfolding ul by (simp add: word_less_nat_alt)
    have ev: "even (unat len)" using even(1,2) less.prems(3) le unfolding ul by (auto simp: min_def)
    have uo: "unat (off + len) = unat off + unat len" using le u64_less [of ?bs] by (simp add: unat_word_ariths)
    let ?b = "be_slice_size be (unat len) (ds_backend s)" and ?s = "s\<lparr>ds_backend := snd (be_slice_size be (unat len) (ds_backend s))\<rparr>"
    have "data_inv name P cin Q cout D ?s" using less.prems(1) by (simp add: data_inv_backend)
    from par2_process_data_ok [OF this apart be(1) _ _ inp le less.prems(3) ev even(1), of "ds_backend s"] be(2) obtain s1 where
      s1: "par2_process_data be off len m r ?s = Some (True, s1)"
      "data_inv name P cin Q cout (D \<union> regions off len r (pr_copyblocks r) \<union> regions off len r (pr_outputblocks r)) s1"
      by auto
    have "fst ?b" using be(2) by blast
    then have step: "process_chunks be m r off s = process_chunks be m r (off + len) s1"
      using True s1(1) by (subst process_chunks.simps) (simp add: Let_def len_def [symmetric] case_prod_unfold)
    have "off + len \<le> ?bs" using le by (simp add: word_le_nat_alt uo)
    moreover have "unat ?bs - unat (off + len) < unat ?bs - unat off" using pos le uo by simp
    moreover have "even (unat (off + len))" using uo ev less.prems(3) by simp
    ultimately obtain s' where s': "process_chunks be m r (off + len) s1 = Some (Success, s')"
      "data_inv name P cin Q cout (D \<union> regions off len r (pr_copyblocks r) \<union> regions off len r (pr_outputblocks r)
        \<union> regions (off + len) (?bs - (off + len)) r (pr_copyblocks r) \<union> regions (off + len) (?bs - (off + len)) r (pr_outputblocks r)) s'"
      using less.hyps [OF _ s1(2)] by blast
    have "data_inv name P cin Q cout (D \<union> regions off (?bs - off) r (pr_copyblocks r) \<union> regions off (?bs - off) r (pr_outputblocks r)) s'"
      by (rule data_inv_fewer [OF s'(2)]) (auto simp: regions_split [OF le])
    then show ?thesis using step s'(1) by simp
  qed
qed

text \<open>A target file whose bytes all lie in blocks that were copied or recomputed is complete.\<close>

definition target_covered :: "(nat \<Rightarrow> bytes) \<Rightarrow> repairer \<Rightarrow> nat \<Rightarrow> bool" where
  "target_covered cout r q \<longleftrightarrow>
     (\<forall>x<length (cout q). (q, x) \<in> regions 0 (pr_blocksize r) r (pr_copyblocks r) \<union> regions 0 (pr_blocksize r) r (pr_outputblocks r))"

lemma covered_complete:
  assumes "data_inv name P cin Q cout done s" "q \<in> Q" "\<forall>x<length (cout q). (q, x) \<in> done"
  shows "fs_files (ds_fs s) (name q) = Some (cout q)"
proof -
  obtain c where c: "disk_ready WriteMode c (ds_store s q) (ds_fs s)" "length c = length (cout q)"
    "\<And>x. (q, x) \<in> done \<Longrightarrow> x < length c \<and> c ! x = cout q ! x"
    using data_invD(3) [OF assms(1,2)] by blast
  have "c = cout q" by (rule nth_equalityI [OF c(2)]) (use c assms(3) in auto)
  then show ?thesis using c(1) data_invD(2) [OF assms(1,2)] by (simp add: disk_ready_def)
qed

lemma process_chunks_restores:
  assumes "files_apart name P cin Q" "backend_computes be" "\<forall>L b. fst (be_slice_size be L b)"
    and "repair_input (unat (pr_blocksize r)) cin P cout Q r m present data"
    and "even (unat (pr_blocksize r))" "even (unat (pr_chunksize r))" "0 < pr_chunksize r"
    and "data_inv name P cin Q cout {} s"
  shows "\<exists>s'. process_chunks be m r 0 s = Some (Success, s') \<and>
    (\<forall>q\<in>Q. target_covered cout r q \<longrightarrow> fs_files (ds_fs s') (name q) = Some (cout q)) \<and>
    (\<forall>p\<in>P. fs_files (ds_fs s') (name p) = Some (cin p))"
proof -
  obtain s' where s': "process_chunks be m r 0 s = Some (Success, s')"
    "data_inv name P cin Q cout (regions 0 (pr_blocksize r) r (pr_copyblocks r) \<union> regions 0 (pr_blocksize r) r (pr_outputblocks r)) s'"
    using process_chunks_ok [OF assms(1-8), of 0] by auto
  then show ?thesis using covered_complete [OF s'(2)] data_invD(1) [OF s'(2)] by (auto simp: target_covered_def)
qed

end
