(* ===== verification/RepairData_Restore.thy ===== *)
theory RepairData_Restore
  imports RepairData_Correct
begin

text \<open>
  \<^verbatim>\<open>ComputeRSmatrix\<close>, \<^verbatim>\<open>AllocateBuffers\<close> and the loop over the chunks together: what the repair has written when
  it ends is the contents of the target files.
\<close>

section \<open>The layout of a repair\<close>

lemma set_indices_valid: "set_indices present = valid_inputs present" "unset_indices present = missing_inputs present"
  by (simp_all add: set_indices_def unset_indices_def valid_inputs_def missing_inputs_def)

text \<open>The counts fit the blocks.\<close>

definition counts_fit :: "repairer \<Rightarrow> bool" where
  "counts_fit r \<longleftrightarrow>
     length (pr_targetblocks r) = length (pr_sourceblocks r) \<and> length (pr_sourceblocks r) \<le> 32768 \<and>
     unat (pr_sourceblockcount r) = length (pr_sourceblocks r) \<and>
     unat (pr_availableblockcount r) = length (valid_inputs (block_present r)) \<and>
     unat (pr_missingblockcount r) = length (missing_inputs (block_present r))"

text \<open>
  The data of the source blocks: a block that was found holds it, a recovery packet holds a recovery block of it, the
  target of a lost block is in a target file where it belongs, and the target of another block is unused or such a place.
\<close>

definition blocks_fit ::
  "(nat \<Rightarrow> bytes) \<Rightarrow> nat set \<Rightarrow> (nat \<Rightarrow> bytes) \<Rightarrow> nat set \<Rightarrow> repairer \<Rightarrow> bytes list \<Rightarrow> bool" where
  "blocks_fit cin P cout Q r data \<longleftrightarrow>
     length data = length (pr_sourceblocks r) \<and> (\<forall>b\<in>set data. length b = unat (pr_blocksize r)) \<and>
     (\<forall>i<length data. if block_present r ! i
        then stored_block (unat (pr_blocksize r)) cin P (pr_sourceblocks r ! i) (data ! i) \<and>
          (db_diskfile (pr_targetblocks r ! i) = None \<or> target_block cout Q (pr_targetblocks r ! i) (data ! i))
        else target_block cout Q (pr_targetblocks r ! i) (data ! i)) \<and>
     (\<forall>(e, rp)\<in>set (pr_recoverypackets r). \<exists>b. stored_block (unat (pr_blocksize r)) cin P (rp_datablock rp) b \<and>
        recovery_of (unat (pr_blocksize r)) data (ucast e) b)"

lemma length_block_present [simp]: "length (block_present r) = length (pr_sourceblocks r)"
  by (simp add: block_present_def)

lemma valid_inputsD: "i \<in> set (valid_inputs inputs) \<Longrightarrow> i < length inputs \<and> inputs ! i"
  and missing_inputsD: "i \<in> set (missing_inputs inputs) \<Longrightarrow> i < length inputs \<and> \<not> inputs ! i"
  by (simp_all add: valid_inputs_def missing_inputs_def)

lemma valid_missing: "length (valid_inputs inputs) + length (missing_inputs inputs) = length inputs"
  using length_missing_inputs [of inputs] length_col_inputs [of inputs] by (simp add: col_inputs_def)

lemma fill_pointers_exact: "length xs = n \<Longrightarrow> fill_pointers n xs = Some (map Some xs)"
  by (simp add: fill_pointers_def)

lemma list_all2_mapI: "(\<And>x. x \<in> set xs \<Longrightarrow> R (f x) (g x)) \<Longrightarrow> list_all2 R (map f xs) (map g xs)"
  by (simp add: list_all2_map1 list_all2_map2 list.rel_refl_strong)

text \<open>The pointers of \<^verbatim>\<open>ComputeRSmatrix\<close>, and the matrix of the blocks it chose.\<close>

lemma par2_compute_matrix_blocks:
  assumes "par2_compute_matrix k t memory r0 = Some (True, r, m)" "counts_fit r0"
    and t: "gfmat_ready t" "1 \<le> gk_multiple k" "length (pr_sourceblocks r0) \<le> L"
    and mem: "length (snd memory) = unat (pr_missingblockcount r0)" "\<forall>row\<in>set (snd memory). length row = L"
  shows "\<exists>rec. r = r0\<lparr>pr_inputblocks := map Some (map SourceBlock (valid_inputs (block_present r0)) @ map (\<lambda>e. RecoveryBlock (ucast e)) rec),
      pr_copyblocks := map (Some \<circ> TargetBlock) (valid_inputs (block_present r0)),
      pr_outputblocks := map (Some \<circ> TargetBlock) (missing_inputs (block_present r0))\<rparr> \<and>
    length rec = length (missing_inputs (block_present r0)) \<and>
    matrix_restores (block_present r0) (length (valid_inputs (block_present r0))) (length (missing_inputs (block_present r0))) rec m \<and>
    (\<forall>e\<in>set rec. map_of (pr_recoverypackets r0) (ucast e) \<noteq> None)"
proof -
  let ?p = "block_present r0"
  have c: "length (pr_targetblocks r0) = length ?p" "unat (pr_sourceblockcount r0) = length ?p"
    "unat (pr_availableblockcount r0) = length (valid_inputs ?p)" "unat (pr_missingblockcount r0) = length (missing_inputs ?p)"
    "length ?p \<le> 32768"
    using assms(2) by (simp_all add: counts_fit_def)
  have sum: "length (valid_inputs ?p) + length (missing_inputs ?p) = length ?p" by (rule valid_missing)
  have f: "fill_pointers (length (valid_inputs ?p)) (map TargetBlock (valid_inputs ?p)) = Some (map (Some \<circ> TargetBlock) (valid_inputs ?p))"
    "fill_pointers (length (missing_inputs ?p)) (map TargetBlock (missing_inputs ?p)) = Some (map (Some \<circ> TargetBlock) (missing_inputs ?p))"
    by (simp_all add: fill_pointers_def)
  have z: "pr_missingblockcount r0 = 0 \<longleftrightarrow> missing_inputs ?p = []" using c(4) by (metis length_0_conv unsigned_0 unat_eq_0)
  show ?thesis
  proof (cases "missing_inputs ?p = []")
    case True
    then have "fill_pointers (length ?p) (map SourceBlock (valid_inputs ?p)) = Some (map Some (map SourceBlock (valid_inputs ?p)))"
      using sum by (intro fill_pointers_exact) simp
    then have "par2_compute_matrix k t memory r0 =
        Some (True, r0\<lparr>pr_inputblocks := map Some (map SourceBlock (valid_inputs ?p)),
           pr_copyblocks := map (Some \<circ> TargetBlock) (valid_inputs ?p), pr_outputblocks := map (Some \<circ> TargetBlock) (missing_inputs ?p)\<rparr>, [])"
      using c f z True by (simp add: par2_compute_matrix_def Let_def set_indices_valid)
    then show ?thesis using assms(1) True by (intro exI [of _ "[]"]) (simp add: matrix_restores_def)
  next
    case False
    let ?recindex = "map (\<lambda>(exponent, _). ucast exponent) (pr_recoverypackets r0) :: u16 list"
    obtain x where x: "fill_pointers (length ?p) (map SourceBlock (valid_inputs ?p)) = Some x"
      using sum by (simp add: fill_pointers_def)
    from assms(1) c f z False x obtain rec inputblocks where
      g: "gfmat_compute k t memory ?p (length (valid_inputs ?p)) ?recindex = Some (True, rec, m)"
      and a: "list_all (\<lambda>exponent. map_of (pr_recoverypackets r0) (ucast exponent) \<noteq> None) rec"
      and i: "fill_pointers (length ?p) (map SourceBlock (valid_inputs ?p) @ map (\<lambda>exponent. RecoveryBlock (ucast exponent)) rec) = Some inputblocks"
      and r: "r = r0\<lparr>pr_inputblocks := inputblocks, pr_copyblocks := map (Some \<circ> TargetBlock) (valid_inputs ?p),
         pr_outputblocks := map (Some \<circ> TargetBlock) (missing_inputs ?p)\<rparr>"
      by (auto simp: par2_compute_matrix_def Let_def set_indices_valid bind_eq_Some_conv split: if_splits)
    have q: "0 < length ?recindex" "length ?recindex \<le> 65535"
      using g by (auto simp: gfmat_compute_def Let_def split: if_splits)
    have "length (valid_inputs ?p) < length ?p" "length (missing_inputs ?p) = length ?p - length (valid_inputs ?p)"
      using sum False by (auto simp: less_le)
    from gfmat_compute_rule [OF t(1,2) _ c(5) refl this _ mem(2) q] t(3) mem(1) c(4) g
    have m: "length rec = length (missing_inputs ?p)"
      "matrix_restores ?p (length (valid_inputs ?p)) (length (missing_inputs ?p)) rec m"
      by (auto simp: compute_result_def matrix_restores_def)
    have "inputblocks = map Some (map SourceBlock (valid_inputs ?p) @ map (\<lambda>e. RecoveryBlock (ucast e)) rec)"
      using i m(1) sum by (simp add: fill_pointers_def)
    then show ?thesis using r m a by (auto simp: list_all_iff)
  qed
qed

text \<open>These blocks are what the chunk loop needs.\<close>

lemma compute_matrix_input:
  assumes cm: "par2_compute_matrix k t memory r0 = Some (True, r, m)" and counts: "counts_fit r0"
    and t: "gfmat_ready t" "1 \<le> gk_multiple k" "length (pr_sourceblocks r0) \<le> L"
    and mem: "length (snd memory) = unat (pr_missingblockcount r0)" "\<forall>row\<in>set (snd memory). length row = L"
    and fit: "blocks_fit cin P cout Q r0 data"
  shows "repair_input (unat (pr_blocksize r0)) cin P cout Q r m (block_present r0) data"
proof -
  let ?p = "block_present r0" and ?bs = "unat (pr_blocksize r0)"
  obtain rec where r: "r = r0\<lparr>pr_inputblocks := map Some (map SourceBlock (valid_inputs ?p) @ map (\<lambda>e. RecoveryBlock (ucast e)) rec),
      pr_copyblocks := map (Some \<circ> TargetBlock) (valid_inputs ?p), pr_outputblocks := map (Some \<circ> TargetBlock) (missing_inputs ?p)\<rparr>"
    and rec: "length rec = length (missing_inputs ?p)"
      "matrix_restores ?p (length (valid_inputs ?p)) (length (missing_inputs ?p)) rec m"
      "\<forall>e\<in>set rec. map_of (pr_recoverypackets r0) (ucast e) \<noteq> None"
    using par2_compute_matrix_blocks [OF cm counts t mem] by blast
  have c: "length (pr_targetblocks r0) = length (pr_sourceblocks r0)" "length (pr_sourceblocks r0) \<le> 32768"
    "unat (pr_missingblockcount r0) = length (missing_inputs ?p)"
    using counts by (simp_all add: counts_fit_def)
  have d: "length data = length (pr_sourceblocks r0)" "\<forall>b\<in>set data. length b = ?bs"
    and v: "i < length data \<Longrightarrow> ?p ! i \<Longrightarrow> stored_block ?bs cin P (pr_sourceblocks r0 ! i) (data ! i) \<and>
       (db_diskfile (pr_targetblocks r0 ! i) = None \<or> target_block cout Q (pr_targetblocks r0 ! i) (data ! i))"
    and n: "i < length data \<Longrightarrow> \<not> ?p ! i \<Longrightarrow> target_block cout Q (pr_targetblocks r0 ! i) (data ! i)"
    and rp: "(e, p) \<in> set (pr_recoverypackets r0) \<Longrightarrow> \<exists>b. stored_block ?bs cin P (rp_datablock p) b \<and> recovery_of ?bs data (ucast e) b"
    for i e p
    using fit unfolding blocks_fit_def by (auto split: if_splits)
  have at: "block_at r (Some (SourceBlock i)) = Some (pr_sourceblocks r0 ! i)" "block_at r (Some (TargetBlock i)) = Some (pr_targetblocks r0 ! i)"
    if "i < length data" for i
    using that d(1) c(1) by (simp_all add: block_at_def r)
  have "\<exists>b. \<exists>db. block_at r (Some (RecoveryBlock (ucast e))) = Some db \<and> stored_block ?bs cin P db b \<and> recovery_of ?bs data e b"
    if e: "e \<in> set rec" for e
  proof -
    obtain p where p: "map_of (pr_recoverypackets r0) (ucast e) = Some p" using rec(3) e by auto
    from rp [OF map_of_SomeD [OF p]] obtain b where b: "stored_block ?bs cin P (rp_datablock p) b"
      "recovery_of ?bs data (ucast (ucast e :: u32)) b" by blast
    have "ucast (ucast e :: u32) = e" by (rule bit_eqI) (auto simp: bit_simps dest: bit_imp_le_length)
    then show ?thesis using b p by (intro exI [of _ b]) (simp add: block_at_def r)
  qed
  then obtain blk where blk: "\<forall>e\<in>set rec. \<exists>db. block_at r (Some (RecoveryBlock (ucast e))) = Some db \<and>
      stored_block ?bs cin P db (blk e) \<and> recovery_of ?bs data e (blk e)"
    by metis
  let ?recs = "map blk rec"
  have in1: "list_all2 (\<lambda>ref b. \<exists>db. block_at r ref = Some db \<and> stored_block ?bs cin P db b)
      (map (\<lambda>i. Some (SourceBlock i)) (valid_inputs ?p)) (map ((!) data) (valid_inputs ?p))"
    using at(1) v valid_inputsD [of _ ?p] d(1) by (intro list_all2_mapI) auto
  have in2: "list_all2 (\<lambda>ref b. \<exists>db. block_at r ref = Some db \<and> stored_block ?bs cin P db b)
      (map (\<lambda>e. Some (RecoveryBlock (ucast e))) rec) ?recs"
    using blk by (intro list_all2_mapI) auto
  have "inputs_hold ?bs cin P r (map ((!) data) (valid_inputs ?p) @ ?recs)"
    using list_all2_appendI [OF in1 in2] by (simp add: inputs_hold_def r comp_def)
  moreover have "copies_hold cout Q r (map ((!) data) (valid_inputs ?p))"
  proof -
    have "pr_copyblocks r = map (\<lambda>i. Some (TargetBlock i)) (valid_inputs ?p)" by (simp add: r comp_def)
    then show ?thesis
      unfolding copies_hold_def using at(2) v valid_inputsD [of _ ?p] d(1) by (auto intro!: list_all2_mapI)
  qed
  moreover have "outputs_hold cout Q r (map ((!) data) (missing_inputs ?p))"
  proof -
    have "pr_outputblocks r = map (\<lambda>i. Some (TargetBlock i)) (missing_inputs ?p)" by (simp add: r comp_def)
    then show ?thesis
      unfolding outputs_hold_def using at(2) n missing_inputsD [of _ ?p] d(1) by (auto intro!: list_all2_mapI)
  qed
  moreover have "\<forall>i<length ?recs. recovery_of ?bs data (rec ! i) (?recs ! i)" using blk by auto
  moreover have "unat (pr_missingblockcount r) = length (missing_inputs ?p)" using c(3) by (simp add: r)
  ultimately show ?thesis using d c(2) rec(1,2) unfolding repair_input_def by (intro conjI exI [of _ rec] exI [of _ ?recs]) simp_all
qed

section \<open>From the layout to the files\<close>

lemma even_and_not_3: "even (unat (x AND - 4))" for x :: u64
proof -
  have "- 4 = NOT (3 :: u64)" by simp
  then have "\<not> bit (x AND - 4) 0" by (simp only: bit_and_iff bit_not_iff) simp
  then have "\<not> bit (unat (x AND - 4)) 0" by (simp add: bit_unsigned_iff)
  then show ?thesis by (simp add: bit_0)
qed

lemma allocate_buffers_chunk: "\<exists>c. par2_allocate_buffers memorylimit r = r\<lparr>pr_chunksize := c\<rparr> \<and> (even (unat (pr_blocksize r)) \<longrightarrow> even (unat c))"
  using even_and_not_3 by (auto simp: par2_allocate_buffers_def Let_def)

lemma chunksize_same:
  "block_at (r\<lparr>pr_chunksize := c\<rparr>) = block_at r"
  "repair_input bs cin P cout Q (r\<lparr>pr_chunksize := c\<rparr>) m present data = repair_input bs cin P cout Q r m present data"
  "regions off len (r\<lparr>pr_chunksize := c\<rparr>) = regions off len r"
proof -
  show b: "block_at (r\<lparr>pr_chunksize := c\<rparr>) = block_at r"
    by (rule ext) (simp add: block_at_def split: option.split block_ref.split)
  show "repair_input bs cin P cout Q (r\<lparr>pr_chunksize := c\<rparr>) m present data = repair_input bs cin P cout Q r m present data"
    by (simp add: repair_input_def inputs_hold_def copies_hold_def outputs_hold_def b)
  show "regions off len (r\<lparr>pr_chunksize := c\<rparr>) = regions off len r" by (rule ext) (simp add: regions_def b)
qed

text \<open>The source files are there, and the target files were created with the right sizes.\<close>

definition files_ready ::
  "(nat \<Rightarrow> string) \<Rightarrow> nat set \<Rightarrow> (nat \<Rightarrow> bytes) \<Rightarrow> nat set \<Rightarrow> (nat \<Rightarrow> bytes) \<Rightarrow> disk_store \<Rightarrow> fs \<Rightarrow> bool" where
  "files_ready name P cin Q cout store fs \<longleftrightarrow>
     files_apart name P cin Q \<and> fs_limit fs < 2 ^ 63 \<and>
     (\<forall>p\<in>P. df_filename (store p) = name p \<and> fs_files fs (name p) = Some (cin p)) \<and>
     (\<forall>q\<in>Q. df_filename (store q) = name q \<and> length (cout q) \<le> fs_limit fs \<and>
        (\<exists>c. disk_ready WriteMode c (store q) fs \<and> length c = length (cout q)))"

lemma files_ready_inv:
  "files_ready name P cin Q cout store fs \<Longrightarrow>
   data_inv name P cin Q cout {} \<lparr>ds_lastopen = None, ds_store = store, ds_fs = fs, ds_backend = b\<rparr>"
  by (auto simp: files_ready_def data_inv_def)

text \<open>The bytes of a target file that a target block holds.\<close>

definition in_target :: "repairer \<Rightarrow> nat \<Rightarrow> nat \<Rightarrow> bool" where
  "in_target r q x \<longleftrightarrow>
     (\<exists>db\<in>set (pr_targetblocks r). db_diskfile db = Some q \<and> unat (db_offset db) \<le> x \<and>
        x < unat (db_offset db) + unat (db_length db) \<and> unat (db_length db) \<le> unat (pr_blocksize r))"

lemma in_target_covered:
  assumes "length (pr_targetblocks r0) = length (pr_sourceblocks r0)" "in_target r0 q x"
    and r: "r = r0\<lparr>pr_inputblocks := is, pr_copyblocks := map (Some \<circ> TargetBlock) (valid_inputs (block_present r0)),
      pr_outputblocks := map (Some \<circ> TargetBlock) (missing_inputs (block_present r0))\<rparr>"
  shows "(q, x) \<in> regions 0 (pr_blocksize r0) r (pr_copyblocks r) \<union> regions 0 (pr_blocksize r0) r (pr_outputblocks r)"
proof -
  obtain i where i: "i < length (pr_targetblocks r0)" and db: "db_diskfile (pr_targetblocks r0 ! i) = Some q"
    "unat (db_offset (pr_targetblocks r0 ! i)) \<le> x"
    "x < unat (db_offset (pr_targetblocks r0 ! i)) + unat (db_length (pr_targetblocks r0 ! i))"
    "unat (db_length (pr_targetblocks r0 ! i)) \<le> unat (pr_blocksize r0)"
    using assms(2) unfolding in_target_def by (auto simp: in_set_conv_nth)
  have x: "(q, x) \<in> region 0 (pr_blocksize r0) (pr_targetblocks r0 ! i)" using db by (simp add: region_def)
  have at: "block_at r (Some (TargetBlock i)) = Some (pr_targetblocks r0 ! i)" using i by (simp add: block_at_def r)
  have "i \<in> set (valid_inputs (block_present r0)) \<or> i \<in> set (missing_inputs (block_present r0))"
    using i assms(1) by (simp add: valid_inputs_def missing_inputs_def)
  then have "Some (TargetBlock i) \<in> set (pr_copyblocks r) \<or> Some (TargetBlock i) \<in> set (pr_outputblocks r)"
    by (auto simp: r)
  then show ?thesis using x at unfolding regions_def by blast
qed

lemma process_all_restores:
  assumes cm: "par2_compute_matrix k t memory r0 = Some (True, r1, m)" and counts: "counts_fit r0"
    and t: "gfmat_ready t" "1 \<le> gk_multiple k" "length (pr_sourceblocks r0) \<le> L"
    and mem: "length (snd memory) = unat (pr_missingblockcount r0)" "\<forall>row\<in>set (snd memory). length row = L"
    and fit: "blocks_fit cin P cout Q r0 data" and ready: "files_ready name P cin Q cout (pr_store r0) fs"
    and r: "r = par2_allocate_buffers memorylimit r1" "even (unat (pr_blocksize r0))" "0 < pr_chunksize r"
    and be: "backend_computes be" "\<forall>L b. fst (be_slice_size be L b)" "\<forall>c i n b. fst (be_init be c i n b) = Success"
  shows "\<exists>r' fs'. process_all be b m r fs = Some (Success, r', fs') \<and>
    (\<forall>q\<in>Q. (\<forall>x<length (cout q). in_target r0 q x) \<longrightarrow> fs_files fs' (name q) = Some (cout q)) \<and>
    (\<forall>p\<in>P. fs_files fs' (name p) = Some (cin p))"
proof -
  let ?r1 = "\<lambda>rec :: u16 list. r0\<lparr>pr_inputblocks := map Some (map SourceBlock (valid_inputs (block_present r0)) @ map (\<lambda>e. RecoveryBlock (ucast e)) rec),
      pr_copyblocks := map (Some \<circ> TargetBlock) (valid_inputs (block_present r0)),
      pr_outputblocks := map (Some \<circ> TargetBlock) (missing_inputs (block_present r0))\<rparr>"
  from par2_compute_matrix_blocks [OF cm counts t mem] obtain rec where r1: "r1 = ?r1 rec" by blast
  obtain c where c: "r = r1\<lparr>pr_chunksize := c\<rparr>" "even (unat c)"
    using allocate_buffers_chunk [of memorylimit r1] r(1,2) by (auto simp: r1)
  have bs: "pr_blocksize r = pr_blocksize r0" "pr_store r = pr_store r0" by (simp_all add: c(1) r1)
  have inp: "repair_input (unat (pr_blocksize r)) cin P cout Q r m (block_present r0) data"
    using compute_matrix_input [OF cm counts t mem fit] unfolding bs(1) unfolding c(1) by (simp only: chunksize_same)
  have "even (unat (pr_chunksize r))" using c by simp
  note chunks = process_chunks_restores [OF _ be(1,2) inp _ this r(3)]
  have apart: "files_apart name P cin Q" using ready by (simp add: files_ready_def)
  let ?batch = "if pr_sourceblockcount r < 24 then (pr_sourceblockcount r + 1) div 2 else 0"
  let ?i = "be_init be (unat (pr_chunksize r)) (unat ?batch) (unat (pr_missingblockcount r)) b"
  have "even (unat (pr_blocksize r))" using r(2) by (simp add: bs(1))
  from chunks [OF apart this files_ready_inv [OF ready, of "snd ?i"]] obtain s' where
    s': "process_chunks be m r 0 \<lparr>ds_lastopen = None, ds_store = pr_store r, ds_fs = fs, ds_backend = snd ?i\<rparr> = Some (Success, s')"
    "\<forall>q\<in>Q. target_covered cout r q \<longrightarrow> fs_files (ds_fs s') (name q) = Some (cout q)"
    "\<forall>p\<in>P. fs_files (ds_fs s') (name p) = Some (cin p)"
    unfolding bs(2) by blast
  have "fst ?i = Success" using be(3) by blast
  then have eq: "process_all be b m r fs = Some (Success, r\<lparr>pr_store := ds_store s'\<rparr>, ds_fs s')"
    using s'(1) unfolding process_all_def Let_def by (simp add: case_prod_unfold)
  have "target_covered cout r q" if "\<forall>x<length (cout q). in_target r0 q x" for q
    unfolding target_covered_def bs(1)
  proof (intro allI impI)
    fix x assume "x < length (cout q)"
    then have "in_target r0 q x" using that by blast
    from in_target_covered [OF _ this r1] counts
    show "(q, x) \<in> regions 0 (pr_blocksize r0) r (pr_copyblocks r) \<union> regions 0 (pr_blocksize r0) r (pr_outputblocks r)"
      unfolding c(1) chunksize_same by (simp add: counts_fit_def)
  qed
  then show ?thesis using eq s'(2,3) by auto
qed

end
