(* ===== verification/RepairData_Example.thy ===== *)
theory RepairData_Example
  imports RepairData_Restore
begin

text \<open>The correctness of the repair of the files, with an instance: a library that keeps its inputs and computes the outputs
  from the definition, and a repair of one block.\<close>

section \<open>A plain backend\<close>

definition words_bytes :: "galois16 list \<Rightarrow> bytes" where
  "words_bytes ws = concat (map (leu16_bytes \<circ> value16) ws)"

lemma length_words_bytes: "length (words_bytes ws) = 2 * length ws"
  by (induction ws) (simp_all add: words_bytes_def)

lemma word_at_words_bytes: "k < length ws \<Longrightarrow> word_at (words_bytes ws) k = ws ! k"
proof (induction ws arbitrary: k)
  case (Cons w ws)
  have w: "words_bytes (w # ws) = leu16_bytes (value16 w) @ words_bytes ws" by (simp add: words_bytes_def)
  show ?case
  proof (cases k)
    case 0
    have "[words_bytes (w # ws) ! 0, words_bytes (w # ws) ! 1] = leu16_bytes (value16 w)"
      by (simp add: w leu16_bytes_def)
    then have "leu16_value [words_bytes (w # ws) ! 0, words_bytes (w # ws) ! 1] = Some (value16 w)"
      by (simp only: leu16_roundtrip)
    then show ?thesis using 0 by (cases w) (simp add: word_at_def)
  next
    case (Suc k')
    then have "word_at (words_bytes (w # ws)) k = word_at (words_bytes ws) k'"
      by (simp add: word_at_def w nth_append)
    then show ?thesis using Suc Cons by simp
  qed
qed simp

definition plain_output :: "nat \<Rightarrow> nat \<times> (bytes \<times> u16 list) list \<Rightarrow> bytes" where
  "plain_output j b =
     words_bytes (map (\<lambda>k. \<Sum>(buffer, factors)\<leftarrow>snd b. Galois16 (factors ! j) * word_at buffer k) [0..<fst b div 2])"

definition plain_backend :: "(nat \<times> (bytes \<times> u16 list) list) backend" where
  "plain_backend =
     \<lparr>be_init = (\<lambda>chunksize inputbatch slices b. (Success, b)), be_slice_size = (\<lambda>L b. (True, (L, snd b))),
      be_discard = (\<lambda>b. (fst b, [])), be_add = (\<lambda>buffer factors b. (fst b, snd b @ [(buffer, factors)])),
      be_output = (\<lambda>j b. (True, plain_output j b))\<rparr>"

lemma plain_backend_fold:
  "fold (\<lambda>(buffer, factors). be_add plain_backend buffer factors) inputs (L, xs) = (L, xs @ inputs)"
  by (induction inputs arbitrary: xs) (auto simp: plain_backend_def)

lemma plain_backend_computes: "backend_computes plain_backend"
  unfolding backend_computes_def
proof (intro allI impI)
  fix L n j :: nat and b and inputs :: "(bytes \<times> u16 list) list"
  assume "even L"
  have d: "be_discard plain_backend (snd (be_slice_size plain_backend L b)) = (L, [])" by (simp add: plain_backend_def)
  have "length (plain_output j (L, inputs)) = L" using \<open>even L\<close> by (auto simp: plain_output_def length_words_bytes)
  moreover have "word_at (plain_output j (L, inputs)) k = (\<Sum>(buffer, factors)\<leftarrow>inputs. Galois16 (factors ! j) * word_at buffer k)"
    if "k < L div 2" for k
    using that by (simp add: plain_output_def word_at_words_bytes)
  ultimately show "\<exists>out. be_output plain_backend j (fold (\<lambda>(buffer, factors). be_add plain_backend buffer factors) inputs
      (be_discard plain_backend (snd (be_slice_size plain_backend L b)))) = (True, out) \<and> length out = L \<and>
      (\<forall>k<L div 2. word_at out k = (\<Sum>(buffer, factors)\<leftarrow>inputs. Galois16 (factors ! j) * word_at buffer k))"
    unfolding d plain_backend_fold by (simp add: plain_backend_def)
qed

section \<open>A repair\<close>

text \<open>The file \<^verbatim>\<open>a\<close> is there, \<^verbatim>\<open>b\<close> is lost and has been created anew, \<^verbatim>\<open>r\<close> holds the recovery block of exponent 0.\<close>

definition rd_name :: "nat \<Rightarrow> string" where
  "rd_name p = (if p = 0 then ''a'' else if p = 1 then ''r'' else ''b'')"

definition rd_in :: "nat \<Rightarrow> bytes" where
  "rd_in p = (if p = 0 then [1, 2, 3, 4] else [4, 4, 4, 12])"

definition rd_fs :: fs where
  "rd_fs = \<lparr>fs_files = [''a'' \<mapsto> [1, 2, 3, 4], ''r'' \<mapsto> [4, 4, 4, 12], ''b'' \<mapsto> [0, 0, 0, 4]], fs_dirs = \<lambda>_. False, fs_limit = 100\<rparr>"

definition rd_store :: disk_store where
  "rd_store p = \<lparr>df_filename = rd_name p, df_filesize = 4,
     df_file = (if p = 2 then Some \<lparr>fh_mode = WriteMode, fh_pos = 0\<rparr> else None), df_offset = 0, df_exists = True\<rparr>"

definition rd_block :: "nat option \<Rightarrow> datablock" where
  "rd_block p = \<lparr>db_diskfile = p, db_offset = 0, db_length = 4, db_filesize = 0\<rparr>"

definition rd_repairer :: repairer where
  "rd_repairer = repairer_new\<lparr>pr_store := rd_store, pr_nextdisk := 3, pr_blocksize := 4,
     pr_recoverypackets := [(0, recovery_packet_new\<lparr>rp_datablock := rd_block (Some 1)\<rparr>)],
     pr_sourceblockcount := 2, pr_availableblockcount := 1, pr_missingblockcount := 1,
     pr_sourceblocks := [rd_block (Some 0), rd_block None], pr_targetblocks := [rd_block None, rd_block (Some 2)]\<rparr>"

lemmas rd_defs = rd_name_def rd_in_def rd_fs_def rd_store_def rd_block_def rd_repairer_def repairer_new_def

lemma rd_present: "block_present rd_repairer = [True, False]"
  by (simp add: block_present_def rd_defs db_is_set_def)

lemma rd_indices: "valid_inputs [True, False] = [0]" "missing_inputs [True, False] = [1]"
  by (simp_all add: valid_inputs_def missing_inputs_def upt_rec)

lemma rd_counts: "counts_fit rd_repairer"
  unfolding counts_fit_def rd_present rd_indices by (simp add: rd_defs)

lemma rd_recovery: "recovery_of 4 [[1, 2, 3, 4], [5, 6, 7, 8]] 0 [4, 4, 4, 12]"
proof -
  have w: "word_at [4, 4, 4, 12] 0 = word_at [1, 2, 3, 4] 0 + word_at [5, 6, 7, 8] 0"
    "word_at [4, 4, 4, 12] 1 = word_at [1, 2, 3, 4] 1 + word_at [5, 6, 7, 8] 1"
    by code_simp+
  have sum: "(\<Sum>i<length [[1, 2, 3, 4], [5, 6, 7, 8 :: u8]]. par2_constant i ^ unat (0 :: u16) * word_at ([[1, 2, 3, 4], [5, 6, 7, 8]] ! i) k) =
      word_at [1, 2, 3, 4] k + word_at [5, 6, 7, 8] k" for k
    by simp
  have "word_at [4, 4, 4, 12] k = word_at [1, 2, 3, 4] k + word_at [5, 6, 7, 8] k" if "k < 4 div 2" for k
  proof -
    have "k = 0 \<or> k = 1" using that by auto
    then show ?thesis using w by auto
  qed
  then show ?thesis unfolding recovery_of_def sum by simp
qed

lemma rd_fits: "blocks_fit rd_in {0, 1} (\<lambda>_. [5, 6, 7, 8]) {2} rd_repairer [[1, 2, 3, 4], [5, 6, 7, 8]]"
proof -
  have "\<exists>b. stored_block 4 rd_in {0, 1} (rd_block (Some 1)) b \<and> recovery_of 4 [[1, 2, 3, 4], [5, 6, 7, 8]] 0 b"
    using rd_recovery by (intro exI [of _ "[4, 4, 4, 12]"]) (simp add: stored_block_def rd_block_def rd_in_def padded_def block_content_def)
  moreover have "stored_block 4 rd_in {0, 1} (rd_block (Some 0)) [1, 2, 3, 4]"
    "target_block (\<lambda>_. [5, 6, 7, 8]) {2} (rd_block (Some 2)) [5, 6, 7, 8]"
    by (simp_all add: stored_block_def target_block_def rd_block_def rd_in_def padded_def block_content_def)
  ultimately show ?thesis
    unfolding blocks_fit_def rd_present by (auto simp: rd_repairer_def less_Suc_eq rd_block_def repairer_new_def)
qed

lemma rd_ready: "files_ready rd_name {0, 1} rd_in {2} (\<lambda>_. [5, 6, 7, 8]) (pr_store rd_repairer) rd_fs"
  by (simp add: files_ready_def files_apart_def rd_defs disk_ready_def)

lemma rd_target: "x < 4 \<Longrightarrow> in_target rd_repairer 2 x"
  by (simp add: in_target_def rd_defs)

lemma rd_matrix:
  assumes "gfmat_ready t"
  shows "\<exists>r m. par2_compute_matrix example_kernel t (\<lambda>_. 0, [[0, 0]]) rd_repairer = Some (True, r, m)"
proof -
  have s: "sort [0 :: u16] = [0]" by simp
  have "\<exists>m. gfmat_compute example_kernel t (\<lambda>_. 0, [[0, 0]]) [True, False] 1 [0] = Some (True, take 1 (sort [0]), m)"
    using gfmat_compute_consecutive_rule [OF assms, of example_kernel "[True, False]" 2 1 1 "(\<lambda>_. 0, [[0, 0]])" "[0]" 0]
    by (auto simp: example_kernel_def rd_indices)
  then obtain m where m: "gfmat_compute example_kernel t (\<lambda>_. 0, [[0, 0]]) [True, False] 1 [0] = Some (True, [0], m)" by auto
  then show ?thesis
    unfolding par2_compute_matrix_def Let_def rd_present set_indices_valid rd_indices
    by (simp add: rd_repairer_def repairer_new_def fill_pointers_def)
qed

section \<open>The repair of the files\<close>

text \<open>C1: when the matrix was found, the repair of the data ends with success and the target files are whole. The lost blocks
  may be of any number and in any places; the chunks have any even size that \<^verbatim>\<open>AllocateBuffers\<close> chose. Given are: the counts
  that belong to the blocks; each found block holds its data, padded with zeros, and each recovery packet the sum of the data
  times the constants raised to its exponent, for data that agrees with the wanted contents of the target files at the target blocks;
  the target files were created with their sizes and are not the files that are read; and the multiplication library
  gives the sums of the inputs times their factors. Then every target file all of whose bytes are in target blocks has its wanted
  contents, and no file that was read is changed. The matrix memory and the kernel are arbitrary.\<close>

theorem par2_repair_restores:
  assumes "length (gm_diff tables) = 32768" "length (gm_exp tables) = 8320" "length (gm_recip tables) = 65536"
    and "gfmat_init tables = Some t" "1 \<le> gk_multiple k" "length (pr_sourceblocks r0) \<le> L"
    and "length (snd memory) = unat (pr_missingblockcount r0)" "\<forall>row\<in>set (snd memory). length row = L"
    and "par2_compute_matrix k t memory r0 = Some (True, r1, m)" "counts_fit r0"
    and "blocks_fit cin P cout Q r0 data" "files_ready name P cin Q cout (pr_store r0) fs"
    and "r = par2_allocate_buffers memorylimit r1" "even (unat (pr_blocksize r0))" "0 < pr_chunksize r"
    and "backend_computes be" "\<forall>L b. fst (be_slice_size be L b)" "\<forall>c i n b. fst (be_init be c i n b) = Success"
  shows "\<exists>r' fs'. process_all be b m r fs = Some (Success, r', fs') \<and>
    (\<forall>q\<in>Q. (\<forall>x<length (cout q). in_target r0 q x) \<longrightarrow> fs_files fs' (name q) = Some (cout q)) \<and>
    (\<forall>p\<in>P. fs_files fs' (name p) = Some (cin p))"
proof -
  have "gfmat_ready t" using gfmat_init_ready [OF assms(1-3)] assms(4) by auto
  then show ?thesis by (rule process_all_restores [OF assms(9,10) _ assms(5-8,11-18)])
qed

theorem par2_repair_restores_witness:
  "\<exists>t r1 m r' fs'. par2_compute_matrix example_kernel t (\<lambda>_. 0, [[0, 0]]) rd_repairer = Some (True, r1, m) \<and>
    process_all plain_backend (0, []) m (par2_allocate_buffers 1000000 r1) rd_fs = Some (Success, r', fs') \<and>
    fs_files fs' ''b'' = Some [5, 6, 7, 8] \<and> fs_files fs' ''a'' = Some [1, 2, 3, 4]"
proof -
  obtain tables t where t: "length (gm_diff tables) = 32768" "length (gm_exp tables) = 8320" "length (gm_recip tables) = 65536"
    "gfmat_init tables = Some t" using tables_exist by blast
  then have "gfmat_ready t" using gfmat_init_ready [OF t(1-3)] by auto
  from rd_matrix [OF this] obtain r1 m where m: "par2_compute_matrix example_kernel t (\<lambda>_. 0, [[0, 0]]) rd_repairer = Some (True, r1, m)"
    by blast
  have c: "pr_blocksize r1 = 4" "pr_missingblockcount r1 = 1" "pr_sourceblockcount r1 = 2"
    using par2_compute_matrix_blocks [OF m rd_counts \<open>gfmat_ready t\<close>, of 2]
    by (auto simp: example_kernel_def rd_repairer_def repairer_new_def)
  have "0 < pr_chunksize (par2_allocate_buffers 1000000 r1)" by (simp add: par2_allocate_buffers_def c)
  moreover have "1 \<le> gk_multiple example_kernel" "length (pr_sourceblocks rd_repairer) \<le> 2" "even (unat (pr_blocksize rd_repairer))"
    "length (snd (\<lambda>_. 0 :: galois16, [[0, 0 :: galois16]])) = unat (pr_missingblockcount rd_repairer)"
    "\<forall>row\<in>set (snd (\<lambda>_. 0 :: galois16, [[0, 0 :: galois16]])). length row = 2"
    by (simp_all add: example_kernel_def rd_repairer_def repairer_new_def)
  moreover have "\<forall>L b. fst (be_slice_size plain_backend L b)" "\<forall>c i n b. fst (be_init plain_backend c i n b) = Success"
    by (simp_all add: plain_backend_def)
  ultimately obtain r' fs' where r: "process_all plain_backend (0, []) m (par2_allocate_buffers 1000000 r1) rd_fs = Some (Success, r', fs')"
    "\<forall>q\<in>{2}. (\<forall>x<length [5, 6, 7, 8 :: u8]. in_target rd_repairer q x) \<longrightarrow> fs_files fs' (rd_name q) = Some [5, 6, 7, 8]"
    "\<forall>p\<in>{0, 1}. fs_files fs' (rd_name p) = Some (rd_in p)"
    using par2_repair_restores [OF t _ _ _ _ m rd_counts rd_fits rd_ready refl _ _ plain_backend_computes, where b = "(0, [])" and L = 2]
    by blast
  have "fs_files fs' ''b'' = Some [5, 6, 7, 8]" using r(2) rd_target by (simp add: rd_name_def)
  moreover have "fs_files fs' ''a'' = Some [1, 2, 3, 4]" using r(3) by (simp add: rd_name_def rd_in_def)
  ultimately show ?thesis using m r(1) by blast
qed

end
